(* ===== verification/Prelude.thy ===== *)
theory Prelude
  imports Main "HOL-Library.Word"
begin

unbundle bit_operations_syntax

text \<open>
  Shared vocabulary of the development: the Rust integer types as words, the saturating and
  power-of-two operations of the Rust standard library the sources use, little-endian byte
  images, and the lemmas on lists, words and masked indices that the component theories share.

  \<^item> \<open>usize\<close> is 64 bits wide (the targets of the workspace are 64-bit).
  \<^item> Plain \<open>+\<close>, \<open>-\<close>, \<open>*\<close> on words wrap: the release profile of the workspace does not
    switch overflow checks on.
\<close>

section \<open>Integer types\<close>

type_synonym u8 = "8 word"
type_synonym u16 = "16 word"
type_synonym u32 = "32 word"
type_synonym u64 = "64 word"
type_synonym usize = "64 word"
type_synonym bytes = "8 word list"

named_theorems rust_defs \<open>definitions of the Rust operations shared by the components\<close>
named_theorems frame_simps \<open>fields that an operation leaves unchanged\<close>

section \<open>Strings\<close>

text \<open>A Rust \<open>String\<close> as the list of its code points; \<open>lit\<close> is a string literal of the source.\<close>

type_synonym rstring = "nat list"

definition lit :: "string \<Rightarrow> rstring" where
  "lit s = map of_char s"

lemma lit_inject [simp]: "lit s = lit t \<longleftrightarrow> s = t"
  by (simp add: lit_def inj_map_eq_map inj_def)

definition ascii :: "rstring \<Rightarrow> bool" where
  "ascii s \<longleftrightarrow> list_all (\<lambda>c. c < 0x80) s"

definition ascii_lower :: "nat \<Rightarrow> nat" where
  "ascii_lower c = (if 65 \<le> c \<and> c < 91 then c + 32 else c)"

section \<open>Saturating arithmetic\<close>

definition saturating_sub :: "'a::len word \<Rightarrow> 'a word \<Rightarrow> 'a word" where
  "saturating_sub a b = (if b \<le> a then a - b else 0)"

definition saturating_add :: "'a::len word \<Rightarrow> 'a word \<Rightarrow> 'a word" where
  "saturating_add a b = (if unat a + unat b < 2 ^ LENGTH('a) then a + b else - 1)"

definition saturating_mul :: "'a::len word \<Rightarrow> 'a word \<Rightarrow> 'a word" where
  "saturating_mul a b = (if unat a * unat b < 2 ^ LENGTH('a) then a * b else - 1)"

definition abs_diff :: "'a::len word \<Rightarrow> 'a word \<Rightarrow> 'a word" where
  "abs_diff a b = (if a < b then b - a else a - b)"

lemmas [rust_defs] = saturating_sub_def saturating_add_def saturating_mul_def abs_diff_def

lemma unat_saturating_sub [simp]: "unat (saturating_sub a b) = unat a - unat b"
  by (simp add: saturating_sub_def unat_sub word_le_nat_alt)

lemma saturating_sub_self [simp]: "saturating_sub a a = 0"
  by (simp add: saturating_sub_def)

lemma saturating_sub_zero [simp]: "saturating_sub a 0 = a"
  by (simp add: saturating_sub_def)

lemma unat_minus_one_word_eq: "unat (- 1 :: 'a::len word) = 2 ^ LENGTH('a) - 1"
proof -
  have "unat (0 - (1 :: 'a word)) = (2 ^ LENGTH('a) + unat (0 :: 'a word) - unat (1 :: 'a word))"
    by (subst unat_sub_if_size) (simp add: word_size)
  then show ?thesis by simp
qed

lemma unat_saturating_mul:
  "unat (saturating_mul a b) = min (unat a * unat b) (2 ^ LENGTH('a) - 1)"
  for a b :: "'a::len word"
  by (auto simp: saturating_mul_def unat_word_ariths unat_minus_one_word_eq)

lemma unat_saturating_add:
  "unat (saturating_add a b) = min (unat a + unat b) (2 ^ LENGTH('a) - 1)"
  for a b :: "'a::len word"
  by (auto simp: saturating_add_def unat_word_ariths unat_minus_one_word_eq)

section \<open>Powers of two\<close>

text \<open>\<open>bit_width n\<close> is the number of bits of \<open>n\<close>; \<open>next_power_of_two\<close> is Rust's, with its
  release-mode result 0 where the power does not fit.\<close>

fun bit_width :: "nat \<Rightarrow> nat" where
  "bit_width n = (if n = 0 then 0 else Suc (bit_width (n div 2)))"

declare bit_width.simps [simp del]

lemma bit_width_eval [simp]:
  "bit_width 0 = 0" "bit_width (Suc 0) = 1"
  "bit_width (numeral n) = Suc (bit_width (numeral n div 2))"
  by (subst bit_width.simps, simp)+

definition next_power_of_two :: "'a::len word \<Rightarrow> 'a word" where
  "next_power_of_two w = word_of_nat (2 ^ bit_width (unat w - 1))"

definition is_power_of_two :: "'a::len word \<Rightarrow> bool" where
  "is_power_of_two w \<longleftrightarrow> (\<exists>k \<in> set [0..<LENGTH('a)]. w = push_bit k 1)"

lemma bit_width_upper: "n < 2 ^ bit_width n"
proof (induction n rule: bit_width.induct)
  case (1 n)
  show ?case
  proof (cases "n = 0")
    case False
    with 1 have "n div 2 < 2 ^ bit_width (n div 2)" by simp
    then have "n < 2 * 2 ^ bit_width (n div 2)" by linarith
    with False show ?thesis by (simp add: bit_width.simps [of n])
  qed (simp add: bit_width.simps)
qed

lemma bit_width_lower: "0 < n \<Longrightarrow> 2 ^ bit_width n \<le> 2 * n"
proof (induction n rule: bit_width.induct)
  case (1 n)
  show ?case
  proof (cases "n div 2 = 0")
    case True
    with 1 have "n = 1" by simp
    then show ?thesis by (simp add: bit_width.simps)
  next
    case False
    with 1 have "2 ^ bit_width (n div 2) \<le> 2 * (n div 2)" by simp
    moreover have "2 * (n div 2) \<le> n" by simp
    ultimately have "2 ^ bit_width (n div 2) \<le> n" by linarith
    with 1 show ?thesis by (simp add: bit_width.simps [of n])
  qed
qed

lemma bit_width_le: "n < 2 ^ k \<Longrightarrow> bit_width n \<le> k"
proof (rule ccontr)
  assume n: "n < 2 ^ k" and "\<not> bit_width n \<le> k"
  then have k: "Suc k \<le> bit_width n" by simp
  then have "0 < n" by (auto simp: bit_width.simps [of n] split: if_splits)
  have "2 * 2 ^ k \<le> (2::nat) ^ bit_width n"
    using power_increasing [OF k, of "2::nat"] by simp
  also have "\<dots> \<le> 2 * n" using \<open>0 < n\<close> by (rule bit_width_lower)
  finally show False using n by simp
qed

text \<open>A capacity that a ring can really be allocated with: at most half the index space.\<close>

lemma next_power_of_two_bounded:
  fixes w :: "'a::len word"
  assumes "unat w \<le> 2 ^ k" and "k < LENGTH('a)"
  obtains j where "j \<le> k" and "next_power_of_two w = 2 ^ j"
    and "unat (next_power_of_two w) = 2 ^ j" and "unat w \<le> 2 ^ j"
proof
  let ?j = "bit_width (unat w - 1)"
  have "(0::nat) < 2 ^ k" by simp
  with assms(1) have "unat w - 1 < 2 ^ k" by linarith
  then show le: "?j \<le> k" by (rule bit_width_le)
  show "next_power_of_two w = 2 ^ ?j" by (simp add: next_power_of_two_def)
  have "(2::nat) ^ ?j < 2 ^ LENGTH('a)" using le assms(2) by simp
  then show "unat (next_power_of_two w) = 2 ^ ?j"
    unfolding next_power_of_two_def unat_of_nat by (rule mod_less)
  show "unat w \<le> 2 ^ ?j" using bit_width_upper [of "unat w - 1"] by linarith
qed

section \<open>Masked indices\<close>

lemma unat_and_mask_pow2:
  fixes w :: "'a::len word"
  assumes "k < LENGTH('a)"
  shows "unat (w AND (2 ^ k - 1)) = unat w mod 2 ^ k"
proof -
  have "w AND (2 ^ k - 1) = take_bit k w"
    by (simp add: take_bit_eq_mask mask_eq_exp_minus_1)
  then have "unat (w AND (2 ^ k - 1)) = take_bit k (unat w)"
    by (simp only: unsigned_take_bit_eq)
  then show ?thesis by (simp only: take_bit_eq_mod)
qed

lemma unat_exp_word:
  assumes "k < LENGTH('a)"
  shows "unat (2 ^ k :: 'a::len word) = 2 ^ k"
proof -
  have "unat (word_of_nat (2 ^ k) :: 'a word) = 2 ^ k"
    unfolding unat_of_nat using assms by (intro mod_less) simp
  then show ?thesis by simp
qed

lemma word_distance_decreases:
  fixes h t :: "'a::len word"
  assumes "h \<noteq> t"
  shows "unat (t - h) = Suc (unat (t - (h + 1)))"
proof -
  have nz: "t - h \<noteq> 0" using assms by simp
  then have pos: "0 < unat (t - h)" by (simp add: unat_gt_0)
  have "unat (t - h - 1) = unat (t - h) - 1" using nz by (rule unat_minus_one)
  with pos have "unat (t - h) = Suc (unat (t - h - 1))" by linarith
  moreover have "t - h - 1 = t - (h + 1)" by (rule diff_diff_eq)
  ultimately show ?thesis by simp
qed

lemma unat_add_of_nat_mod:
  fixes w :: "'a::len word"
  assumes "k \<le> LENGTH('a)"
  shows "unat (w + word_of_nat i) mod 2 ^ k = (unat w + i) mod 2 ^ k"
proof -
  have dvd: "(2::nat) ^ k dvd 2 ^ LENGTH('a)" using assms by (rule le_imp_power_dvd)
  have "unat (w + word_of_nat i) = (unat w + i) mod 2 ^ LENGTH('a)"
    by (simp add: unat_word_ariths unat_of_nat mod_simps)
  then show ?thesis using dvd by (simp add: mod_mod_cancel)
qed

lemma mod_add_inject:
  assumes "((a::nat) + i) mod m = (a + j) mod m" and "i < m" and "j < m"
  shows "i = j"
proof -
  have *: "x = y" if "(a + x) mod m = (a + y) mod m" "x \<le> y" "y < m" for x y
  proof -
    have "m dvd (a + y) - (a + x)"
      using that(1,2) by (metis add_le_cancel_left mod_eq_dvd_iff_nat)
    then have "m dvd y - x" by simp
    moreover have "y - x < m" using that(3) by linarith
    ultimately have "y - x = 0" by (metis dvd_imp_le gr0I linorder_not_le)
    with that(2) show ?thesis by simp
  qed
  show ?thesis
  proof (cases "i \<le> j")
    case True
    with assms * [of i j] show ?thesis by simp
  next
    case False
    with assms * [of j i] show ?thesis by simp
  qed
qed

section \<open>Signed readings\<close>

lemma sint_neg_iff:
  fixes w :: "'a::len word"
  shows "sint w < 0 \<longleftrightarrow> 2 ^ (LENGTH('a) - 1) \<le> unat w"
proof -
  let ?n = "LENGTH('a) - 1"
  have "LENGTH('a) = Suc ?n" by simp
  then have lt: "unat w < 2 * 2 ^ ?n"
    using unsigned_less [of w, where 'a = nat] by (metis power_Suc)
  have "sint w < 0 \<longleftrightarrow> bit (uint w) ?n" by (simp add: sint_uint signed_take_bit_negative_iff)
  also have "\<dots> \<longleftrightarrow> bit (unat w) ?n" by (simp add: bit_unsigned_iff)
  also have "\<dots> \<longleftrightarrow> odd (unat w div 2 ^ ?n)" by (simp add: bit_iff_odd)
  also have "\<dots> \<longleftrightarrow> 2 ^ ?n \<le> unat w"
  proof (cases "2 ^ ?n \<le> unat w")
    case True
    then have "unat w div 2 ^ ?n = 1" using lt by (intro div_nat_eqI) simp_all
    then show ?thesis using True by simp
  qed simp
  finally show ?thesis .
qed

section \<open>Little-endian byte images\<close>

definition le_bytes :: "nat \<Rightarrow> 'a::len word \<Rightarrow> bytes" where
  "le_bytes n w = map (\<lambda>i. ucast (drop_bit (8 * i) w)) [0..<n]"

fun from_le :: "bytes \<Rightarrow> 'a::len word" where
  "from_le [] = 0"
| "from_le (b # bs) = ucast b OR push_bit 8 (from_le bs)"

lemma length_le_bytes [simp]: "length (le_bytes n w) = n"
  by (simp add: le_bytes_def)

lemma bit_from_le:
  "bit (from_le bs :: 'a::len word) i \<longleftrightarrow>
     i < LENGTH('a) \<and> i div 8 < length bs \<and> bit (bs ! (i div 8)) (i mod 8)"
proof (induction bs arbitrary: i)
  case Nil
  then show ?case by simp
next
  case (Cons b bs)
  show ?case
  proof (cases "i < 8")
    case True
    then show ?thesis by (auto simp: bit_or_iff bit_push_bit_iff bit_ucast_iff)
  next
    case False
    then have "i div 8 = Suc ((i - 8) div 8)" "i mod 8 = (i - 8) mod 8"
      by (simp_all add: div_if mod_if)
    moreover have "\<not> bit b i" using False bit_imp_le_length [of b i] by force
    ultimately show ?thesis using False Cons [of "i - 8"]
      by (auto simp: bit_or_iff bit_push_bit_iff bit_ucast_iff)
  qed
qed

lemma bit_le_bytes_nth:
  "k < n \<Longrightarrow> bit (le_bytes n w ! k) j \<longleftrightarrow> j < 8 \<and> bit w (8 * k + j)"
  by (simp add: le_bytes_def bit_ucast_iff bit_drop_bit_eq)

lemma from_le_le_bytes:
  fixes w :: "'a::len word"
  assumes "LENGTH('a) \<le> 8 * n"
  shows "from_le (le_bytes n w) = w"
proof (rule bit_word_eqI)
  fix i assume "i < LENGTH('a)"
  moreover from this have "i div 8 < n" using assms by linarith
  ultimately show "bit (from_le (le_bytes n w) :: 'a word) i \<longleftrightarrow> bit w i"
    by (simp add: bit_from_le bit_le_bytes_nth)
qed

lemma le_bytes_from_le:
  assumes "length bs = n" and "8 * n \<le> LENGTH('a)"
  shows "le_bytes n (from_le bs :: 'a::len word) = bs"
proof (rule nth_equalityI)
  show "length (le_bytes n (from_le bs :: 'a word)) = length bs" by (simp add: assms)
  fix k assume "k < length (le_bytes n (from_le bs :: 'a word))"
  then have k: "k < n" by simp
  show "le_bytes n (from_le bs :: 'a word) ! k = bs ! k"
  proof (rule bit_word_eqI)
    fix j assume "j < LENGTH(8)"
    then have j: "j < 8" by simp
    have "(8 * k + j) div 8 = k" "(8 * k + j) mod 8 = j" using j by simp_all
    moreover have "8 * k + j < LENGTH('a)" using k j assms(2) by linarith
    ultimately show "bit (le_bytes n (from_le bs :: 'a word) ! k) j \<longleftrightarrow> bit (bs ! k) j"
      using k j assms(1) by (simp add: bit_le_bytes_nth bit_from_le)
  qed
qed

text \<open>Writing a block into a buffer: \<open>buf[off..off+len].copy_from_slice(bs)\<close>, for a block that
  fits; where it does not fit Rust panics, which the callers model.\<close>

definition write_at :: "nat \<Rightarrow> 'a list \<Rightarrow> 'a list \<Rightarrow> 'a list" where
  "write_at off bs buf = take off buf @ bs @ drop (off + length bs) buf"

lemma length_write_at [simp]:
  "off + length bs \<le> length buf \<Longrightarrow> length (write_at off bs buf) = length buf"
  by (simp add: write_at_def)

lemma take_write_at_0 [simp]: "take (length bs) (write_at 0 bs buf) = bs"
  by (simp add: write_at_def)

lemma nth_write_at:
  assumes "off + length bs \<le> length buf" and "i < length buf"
  shows "write_at off bs buf ! i =
    (if off \<le> i \<and> i < off + length bs then bs ! (i - off) else buf ! i)"
  using assms by (auto simp: write_at_def nth_append min_def)

end
