(* ===== verification/Fifo_Spec.thy ===== *)
theory Fifo_Spec
  imports Prelude
begin

text \<open>
  The contract that the ring buffers of the workspace promise their clients: a bounded FIFO
  whose push hands the value back when there is no room and whose pop takes the oldest value.
  The clients (message bus, state machine, buffer pool, SFU fan-out) rely on this contract only.
  A push result \<open>Inl v\<close> is Rust's \<open>Err(v)\<close>, \<open>Inr ()\<close> is \<open>Ok(())\<close>.
\<close>

primrec push_while :: "('q \<Rightarrow> 'a \<Rightarrow> ('a + unit) \<times> 'q) \<Rightarrow> 'a list \<Rightarrow> 'q \<Rightarrow> nat \<times> 'q" where
  "push_while psh [] q = (0, q)"
| "push_while psh (v # vs) q =
     (case psh q v of
        (Inl _, q') \<Rightarrow> (0, q')
      | (Inr _, q') \<Rightarrow> (case push_while psh vs q' of (n, q'') \<Rightarrow> (Suc n, q'')))"

text \<open>A client's history: a sequence of operations and the results they returned, on an
  implementation and on the specification queue (a list that holds at most \<open>cap\<close> values).\<close>

datatype 'a fifo_op = Push 'a | Pop

datatype 'a fifo_res = Pushed "'a + unit" | Popped "'a option"

fun run_ops :: "('q \<Rightarrow> 'a \<Rightarrow> ('a + unit) \<times> 'q) \<Rightarrow> ('q \<Rightarrow> 'a option \<times> 'q) \<Rightarrow>
    'a fifo_op list \<Rightarrow> 'q \<Rightarrow> 'a fifo_res list \<times> 'q" where
  "run_ops psh pp [] q = ([], q)"
| "run_ops psh pp (Push v # ops) q =
     (case psh q v of (res, q') \<Rightarrow>
        (case run_ops psh pp ops q' of (rs, q'') \<Rightarrow> (Pushed res # rs, q'')))"
| "run_ops psh pp (Pop # ops) q =
     (case pp q of (res, q') \<Rightarrow>
        (case run_ops psh pp ops q' of (rs, q'') \<Rightarrow> (Popped res # rs, q'')))"

definition fifo_push :: "nat \<Rightarrow> 'a list \<Rightarrow> 'a \<Rightarrow> ('a + unit) \<times> 'a list" where
  "fifo_push cap q v = (if length q < cap then (Inr (), q @ [v]) else (Inl v, q))"

fun fifo_pop :: "'a list \<Rightarrow> 'a option \<times> 'a list" where
  "fifo_pop [] = (None, [])"
| "fifo_pop (v # q) = (Some v, q)"

text \<open>The part of the contract that does not say what a push does without room: what a client
  may rely on that never pushes into a full queue.\<close>

locale fifo_queue =
  fixes psh :: "'q \<Rightarrow> 'a \<Rightarrow> ('a + unit) \<times> 'q"
    and pp :: "'q \<Rightarrow> 'a option \<times> 'q"
    and contents :: "'q \<Rightarrow> 'a list"
    and room :: "'q \<Rightarrow> nat"
    and invar :: "'q \<Rightarrow> bool"
  assumes bounded: "invar q \<Longrightarrow> length (contents q) \<le> room q"
    and push_room: "invar q \<Longrightarrow> length (contents q) < room q \<Longrightarrow>
      \<exists>q'. psh q v = (Inr (), q') \<and> invar q' \<and> contents q' = contents q @ [v] \<and> room q' = room q"
    and pop_empty: "invar q \<Longrightarrow> contents q = [] \<Longrightarrow> pp q = (None, q)"
    and pop_cons: "invar q \<Longrightarrow> contents q = v # vs \<Longrightarrow>
      \<exists>q'. pp q = (Some v, q') \<and> invar q' \<and> contents q' = vs \<and> room q' = room q"
begin

lemma pop_result:
  assumes "invar q"
  shows "invar (snd (pp q))" and "room (snd (pp q)) = room q"
    and "contents (snd (pp q)) = tl (contents q)"
    and "fst (pp q) = (case contents q of [] \<Rightarrow> None | v # _ \<Rightarrow> Some v)"
  using pop_empty [OF assms] pop_cons [OF assms] assms by (cases "contents q"; force)+

lemma push_room_result:
  assumes "invar q" and "length (contents q) < room q"
  shows "invar (snd (psh q v))" and "room (snd (psh q v)) = room q"
    and "contents (snd (psh q v)) = contents q @ [v]" and "fst (psh q v) = Inr ()"
  using push_room [OF assms, of v] by auto

text \<open>Any loop that pops until the queue is empty, collecting into an output vector, returns
  the whole contents in order and leaves an empty queue.\<close>

lemma drain_result:
  assumes drain: "\<And>q out. drain q out =
      (case pp q of (None, q') \<Rightarrow> (out, q') | (Some v, q') \<Rightarrow> drain q' (out @ [v]))"
    and "invar q"
  shows "\<exists>q'. drain q out = (out @ contents q, q') \<and> invar q' \<and> contents q' = [] \<and> room q' = room q"
  using assms(2)
proof (induction "contents q" arbitrary: q out)
  case Nil
  then have "drain q out = (out, q)" by (subst drain) (simp add: pop_empty)
  with Nil show ?case by simp
next
  case (Cons v vs)
  from pop_cons [OF Cons.prems Cons.hyps(2) [symmetric]] obtain p where
    p: "pp q = (Some v, p)" "invar p" "contents p = vs" "room p = room q" by blast
  have "drain q out = drain p (out @ [v])" by (subst drain) (simp add: p)
  with Cons.hyps(1) [of p "out @ [v]"] p Cons.hyps(2) [symmetric] show ?case by auto
qed

end

locale bounded_fifo = fifo_queue +
  assumes push_full: "invar q \<Longrightarrow> length (contents q) = room q \<Longrightarrow> psh q v = (Inl v, q)"
begin

lemma push_cases:
  assumes "invar q"
  obtains (ok) q' where "length (contents q) < room q" "psh q v = (Inr (), q')" "invar q'"
      "contents q' = contents q @ [v]" "room q' = room q"
    | (full) "length (contents q) = room q" "psh q v = (Inl v, q)"
proof (cases "length (contents q) < room q")
  case True
  then show ?thesis using push_room [OF assms True] ok by blast
next
  case False
  then have "length (contents q) = room q" using bounded [OF assms] by simp
  then show ?thesis using push_full [OF assms] full by blast
qed

lemma push_result:
  assumes "invar q"
  shows "invar (snd (psh q v))" and "room (snd (psh q v)) = room q"
    and "contents (snd (psh q v)) =
      (if length (contents q) < room q then contents q @ [v] else contents q)"
    and "fst (psh q v) = (if length (contents q) < room q then Inr () else Inl v)"
  using assms by (cases rule: push_cases [where v = v]; simp)+

lemma push_then_pop_empty:
  assumes "invar q" and "contents q = []" and "0 < room q"
  shows "fst (pp (snd (psh q v))) = Some v"
  using assms push_result [OF assms(1), of v] by (simp add: pop_result)

lemma push_while_result:
  assumes "invar q" and "push_while psh vs q = (n, q')"
  shows "invar q' \<and> room q' = room q \<and> n = min (length vs) (room q - length (contents q))
    \<and> contents q' = contents q @ take n vs"
  using assms
proof (induction vs arbitrary: q n q')
  case Nil
  then show ?case by simp
next
  case (Cons v vs)
  show ?case
    using Cons.prems(1)
  proof (cases rule: push_cases [where v = v])
    case (ok p)
    obtain m where m: "push_while psh vs p = (m, q')" "n = Suc m"
      using Cons.prems(2) ok(2) by (auto split: prod.splits)
    from Cons.IH [OF ok(3) m(1)] ok m(2) show ?thesis by auto
  next
    case full
    with Cons.prems show ?thesis by simp
  qed
qed

lemma run_refines:
  assumes "invar q"
  shows "fst (run_ops psh pp ops q) = fst (run_ops (fifo_push (room q)) fifo_pop ops (contents q))
    \<and> contents (snd (run_ops psh pp ops q)) =
        snd (run_ops (fifo_push (room q)) fifo_pop ops (contents q))
    \<and> invar (snd (run_ops psh pp ops q)) \<and> room (snd (run_ops psh pp ops q)) = room q"
  using assms
proof (induction ops arbitrary: q)
  case Nil
  then show ?case by simp
next
  case (Cons op ops)
  show ?case
  proof (cases op)
    case (Push v)
    from Cons.prems show ?thesis
    proof (cases rule: push_cases [where v = v])
      case (ok p)
      with Cons.IH [OF ok(3)] Push show ?thesis by (simp add: fifo_push_def split_beta)
    next
      case full
      with Cons.IH [OF Cons.prems] Push show ?thesis by (simp add: fifo_push_def split_beta)
    qed
  next
    case Pop
    show ?thesis
    proof (cases "contents q")
      case Nil
      with Cons.IH [OF Cons.prems] Pop Cons.prems show ?thesis
        by (simp add: pop_empty split_beta)
    next
      case (Cons v vs)
      from pop_cons [OF \<open>invar q\<close> Cons] obtain p where
        p: "pp q = (Some v, p)" "invar p" "contents p = vs" "room p = room q" by blast
      with Cons.IH [OF p(2)] Pop Cons show ?thesis by (simp add: split_beta)
    qed
  qed
qed

end

end
