(* ===== verification/Spsc_Ring.thy ===== *)
theory Spsc_Ring
  imports Fifo_Spec
begin

text \<open>
  The wait-free SPSC ring of the ring crate (spsc.rs), as one thread at a time sees it: the
  cursors are 64-bit words that only ever count up and wrap, the slot of a cursor is selected by
  masking, and a slot is a cell that may be uninitialised. The ring refines the bounded FIFO of
  theory Fifo\_Spec, also where the cursors wrap around. The interleaved execution of the two
  endpoints is theory Spsc\_Concurrent.
\<close>

text \<open>\<open>MaybeUninit\<close>: reading an uninitialised cell has no defined value. Reading a cell moves
  the value out, which leaves the cell uninitialised.\<close>

datatype 'a maybe_uninit = Uninit | Init 'a

fun assume_init_read :: "'a maybe_uninit \<Rightarrow> 'a" where
  "assume_init_read (Init v) = v"
| "assume_init_read Uninit = undefined"

definition do_push ::
  "usize \<Rightarrow> usize \<Rightarrow> 'a maybe_uninit list \<Rightarrow> usize \<Rightarrow> usize \<Rightarrow> 'a \<Rightarrow>
     ('a + unit) \<times> usize \<times> 'a maybe_uninit list" where
  "do_push hd_c tl_c slots msk cap v =
     (let t = tl_c in
      if cap \<le> t - hd_c then (Inl v, tl_c, slots)
      else (Inr (), t + 1, slots[unat (t AND msk) := Init v]))"

definition do_pop ::
  "usize \<Rightarrow> usize \<Rightarrow> 'a maybe_uninit list \<Rightarrow> usize \<Rightarrow>
     'a option \<times> usize \<times> 'a maybe_uninit list" where
  "do_pop hd_c tl_c slots msk =
     (let h = hd_c in
      if h = tl_c then (None, hd_c, slots)
      else (Some (assume_init_read (slots ! unat (h AND msk))), h + 1,
            slots[unat (h AND msk) := Uninit]))"

record 'a spsc_ring =
  ring_slots :: "'a maybe_uninit list"
  ring_head :: usize
  ring_tail :: usize
  ring_cap :: usize

definition with_capacity :: "usize \<Rightarrow> 'a spsc_ring" where
  "with_capacity capacity =
     (let cap = next_power_of_two (max capacity 1)
      in \<lparr>ring_slots = replicate (unat cap) Uninit, ring_head = 0, ring_tail = 0, ring_cap = cap\<rparr>)"

definition ring_len :: "'a spsc_ring \<Rightarrow> usize" where
  "ring_len r = ring_tail r - ring_head r"

definition is_empty :: "'a spsc_ring \<Rightarrow> bool" where
  "is_empty r \<longleftrightarrow> ring_len r = 0"

definition is_full :: "'a spsc_ring \<Rightarrow> bool" where
  "is_full r \<longleftrightarrow> ring_cap r \<le> ring_len r"

definition ring_push :: "'a spsc_ring \<Rightarrow> 'a \<Rightarrow> ('a + unit) \<times> 'a spsc_ring" where
  "ring_push r v =
     (case do_push (ring_head r) (ring_tail r) (ring_slots r) (ring_cap r - 1) (ring_cap r) v of
        (res, t, slots) \<Rightarrow> (res, r\<lparr>ring_tail := t, ring_slots := slots\<rparr>))"

definition ring_pop :: "'a spsc_ring \<Rightarrow> 'a option \<times> 'a spsc_ring" where
  "ring_pop r =
     (case do_pop (ring_head r) (ring_tail r) (ring_slots r) (ring_cap r - 1) of
        (res, h, slots) \<Rightarrow> (res, r\<lparr>ring_head := h, ring_slots := slots\<rparr>))"

definition push_slice :: "'a spsc_ring \<Rightarrow> 'a list \<Rightarrow> nat \<times> 'a spsc_ring" where
  "push_slice r vs = push_while ring_push vs r"

text \<open>The loop \<open>while let Some(v) = ring.pop() { out.push(v) }\<close> of the ring's clients, and the
  \<open>Drop\<close> of the ring itself, which discards the values. It ends on every ring: the distance of
  the cursors shrinks.\<close>

function drain_ring :: "'a spsc_ring \<Rightarrow> 'a list \<Rightarrow> 'a list \<times> 'a spsc_ring" where
  "drain_ring r out =
     (case ring_pop r of
        (None, r') \<Rightarrow> (out, r')
      | (Some v, r') \<Rightarrow> drain_ring r' (out @ [v]))"
  by pat_completeness auto
termination
proof (relation "measure (\<lambda>(r, out). unat (ring_tail r - ring_head r))", goal_cases)
  case 1
  show ?case by simp
next
  case (2 r out x r' v)
  then have "ring_head r \<noteq> ring_tail r" and "ring_head r' = ring_head r + 1"
    and "ring_tail r' = ring_tail r"
    by (auto simp: ring_pop_def do_pop_def Let_def split: if_splits)
  with word_distance_decreases [of "ring_head r" "ring_tail r"] show ?case by simp
qed

declare drain_ring.simps [simp del]

definition drop_ring :: "'a spsc_ring \<Rightarrow> 'a spsc_ring" where
  "drop_ring r = snd (drain_ring r [])"

lemmas ring_defs = do_push_def do_pop_def ring_push_def ring_pop_def ring_len_def Let_def

section \<open>Invariant and abstraction\<close>

definition ring_index :: "'a spsc_ring \<Rightarrow> nat \<Rightarrow> nat" where
  "ring_index r i = (unat (ring_head r) + i) mod unat (ring_cap r)"

definition ring_contents :: "'a spsc_ring \<Rightarrow> 'a list" where
  "ring_contents r = map (\<lambda>i. assume_init_read (ring_slots r ! ring_index r i)) [0..<unat (ring_len r)]"

definition ring_room :: "'a spsc_ring \<Rightarrow> nat" where
  "ring_room r = unat (ring_cap r)"

definition ring_pow2 :: "'a spsc_ring \<Rightarrow> bool" where
  "ring_pow2 r \<longleftrightarrow> (\<exists>k < 64. ring_cap r = 2 ^ k)"

definition ring_inv :: "'a spsc_ring \<Rightarrow> bool" where
  "ring_inv r \<longleftrightarrow>
     ring_pow2 r \<and> length (ring_slots r) = unat (ring_cap r) \<and>
     ring_len r \<le> ring_cap r \<and>
     (\<forall>i < unat (ring_len r). ring_slots r ! ring_index r i \<noteq> Uninit)"

lemma unat_exp_word64: "k < 64 \<Longrightarrow> unat (2 ^ k :: usize) = 2 ^ k"
  by (rule unat_exp_word) simp

lemma ring_inv_pow2: "ring_inv r \<Longrightarrow> ring_pow2 r"
  by (simp add: ring_inv_def)

lemma ring_mask:
  assumes "ring_pow2 r"
  shows "unat (w AND (ring_cap r - 1)) = unat w mod unat (ring_cap r)"
proof -
  obtain k where "k < 64" "ring_cap r = 2 ^ k" using assms by (auto simp: ring_pow2_def)
  then show ?thesis using unat_and_mask_pow2 [of k w] by (simp add: unat_exp_word64)
qed

lemma ring_shift:
  assumes "ring_pow2 r"
  shows "unat (w + word_of_nat i :: usize) mod unat (ring_cap r) = (unat w + i) mod unat (ring_cap r)"
proof -
  obtain k where "k < 64" "ring_cap r = 2 ^ k" using assms by (auto simp: ring_pow2_def)
  then show ?thesis using unat_add_of_nat_mod [of k w i] by (simp add: unat_exp_word64)
qed

lemma ring_cap_pos: "ring_pow2 r \<Longrightarrow> 0 < unat (ring_cap r)"
  by (auto simp: ring_pow2_def unat_exp_word64)

lemma ring_index_bound: "ring_pow2 r \<Longrightarrow> ring_index r i < unat (ring_cap r)"
  using ring_cap_pos [of r] by (simp add: ring_index_def)

lemma ring_index_less: "ring_inv r \<Longrightarrow> ring_index r i < length (ring_slots r)"
  using ring_index_bound [of r] by (simp add: ring_inv_def)

lemma length_ring_contents [simp]: "length (ring_contents r) = unat (ring_len r)"
  by (simp add: ring_contents_def)

lemma ring_tail_index:
  assumes "ring_pow2 r"
  shows "unat (ring_tail r AND (ring_cap r - 1)) = ring_index r (unat (ring_len r))"
proof -
  have "ring_tail r = ring_head r + word_of_nat (unat (ring_len r))"
    by (simp add: ring_len_def)
  then show ?thesis using ring_mask [OF assms] ring_shift [OF assms]
    by (metis ring_index_def)
qed

lemma ring_head_index:
  assumes "ring_pow2 r"
  shows "unat (ring_head r AND (ring_cap r - 1)) = ring_index r 0"
  using ring_mask [OF assms] by (simp add: ring_index_def)

lemma ring_index_inject:
  assumes "i < unat (ring_cap r)" and "j < unat (ring_cap r)"
  shows "ring_index r i = ring_index r j \<longleftrightarrow> i = j"
  using assms mod_add_inject [of "unat (ring_head r)" i "unat (ring_cap r)" j]
  by (auto simp: ring_index_def)

lemma ring_index_advance:
  assumes "ring_pow2 r" and "ring_cap r' = ring_cap r" and "ring_head r' = ring_head r + 1"
  shows "ring_index r' i = ring_index r (Suc i)"
  using ring_shift [OF assms(1), of "ring_head r + 1" i]
    ring_shift [OF assms(1), of "ring_head r" "Suc i"] assms(2,3)
  by (simp add: ring_index_def ac_simps)

lemma ring_len_advance_tail:
  assumes "unat (ring_len r) < unat (ring_cap r)"
    and "ring_tail r' = ring_tail r + 1" and "ring_head r' = ring_head r"
  shows "unat (ring_len r') = Suc (unat (ring_len r))"
proof -
  have "ring_len r' = ring_len r + 1" using assms by (simp add: ring_len_def)
  moreover have "unat (ring_len r) < 2 ^ 64 - 1"
    using assms(1) unsigned_less [of "ring_cap r", where 'a = nat] by simp
  ultimately show ?thesis by (simp add: unat_word_ariths)
qed

section \<open>The ring refines the bounded FIFO\<close>

lemma with_capacity_inv:
  assumes "unat c \<le> 2 ^ 63"
  shows "ring_inv (with_capacity c)" and "ring_contents (with_capacity c) = []"
    and "unat c \<le> ring_room (with_capacity c)"
proof -
  let ?m = "max c 1 :: usize"
  have m: "unat ?m \<le> 2 ^ 63" "unat c \<le> unat ?m"
    using assms by (auto simp: max_def word_le_nat_alt)
  obtain j where j: "j \<le> 63" "next_power_of_two ?m = 2 ^ j"
      "unat (next_power_of_two ?m) = 2 ^ j" "unat ?m \<le> 2 ^ j"
    by (rule next_power_of_two_bounded [OF m(1)]) auto
  show "ring_inv (with_capacity c)"
    using j by (auto simp: ring_inv_def ring_pow2_def with_capacity_def Let_def ring_len_def intro!: exI [of _ j])
  show "ring_contents (with_capacity c) = []"
    by (simp add: ring_contents_def with_capacity_def ring_len_def Let_def)
  show "unat c \<le> ring_room (with_capacity c)"
    using j m by (simp add: ring_room_def with_capacity_def Let_def)
qed

lemma ring_push_full:
  assumes "ring_inv r" and "unat (ring_len r) = unat (ring_cap r)"
  shows "ring_push r v = (Inl v, r)"
  using assms by (simp add: ring_defs word_unat_eq_iff [symmetric])

lemma ring_push_ok:
  fixes v :: 'a
  assumes inv: "ring_inv r" and room: "unat (ring_len r) < unat (ring_cap r)"
  defines "r' \<equiv> r\<lparr>ring_tail := ring_tail r + 1,
    ring_slots := (ring_slots r)[ring_index r (unat (ring_len r)) := Init v]\<rparr>"
  shows "ring_push r v = (Inr (), r')" and "ring_inv r'"
    and "ring_contents r' = ring_contents r @ [v]" and "ring_room r' = ring_room r"
proof -
  let ?n = "unat (ring_len r)"
  have "\<not> ring_cap r \<le> ring_len r" using room by (simp add: word_le_nat_alt)
  then show "ring_push r v = (Inr (), r')"
    using ring_tail_index [OF ring_inv_pow2 [OF inv]] by (simp add: ring_defs r'_def)
  have n': "unat (ring_len r') = Suc ?n"
    by (rule ring_len_advance_tail [OF room]) (simp_all add: r'_def)
  have ix: "ring_index r' i = ring_index r i" for i
    by (simp add: r'_def ring_index_def)
  have nth': "ring_slots r' ! ring_index r i =
      (if i = ?n then Init v else ring_slots r ! ring_index r i)" if "i \<le> ?n" for i
    using that room ring_index_less [OF inv] ring_index_inject [of i r ?n]
    by (auto simp: r'_def)
  show "ring_inv r'"
    using inv room n' nth' unfolding ring_inv_def ix
    by (auto simp: r'_def ring_pow2_def word_le_nat_alt less_Suc_eq)
  show "ring_contents r' = ring_contents r @ [v]"
    unfolding ring_contents_def ix n' by (simp add: nth')
  show "ring_room r' = ring_room r" by (simp add: r'_def ring_room_def)
qed

lemma ring_pop_empty:
  assumes "ring_contents r = []"
  shows "ring_pop r = (None, r)"
proof -
  have "unat (ring_len r) = 0" using assms by (metis length_ring_contents list.size(3))
  then show ?thesis by (simp add: ring_defs unat_eq_0)
qed

lemma ring_pop_cons:
  assumes inv: "ring_inv r" and ne: "ring_contents r = v # vs"
  defines "r' \<equiv> r\<lparr>ring_head := ring_head r + 1, ring_slots := (ring_slots r)[ring_index r 0 := Uninit]\<rparr>"
  shows "ring_pop r = (Some v, r')" and "ring_inv r'"
    and "ring_contents r' = vs" and "ring_room r' = ring_room r"
    and "ring_slots r ! ring_index r 0 = Init v"
proof -
  let ?n = "unat (ring_len r)" and ?ix = "\<lambda>i. ring_index r i"
  have n: "?n = Suc (length vs)" using ne by (metis length_ring_contents length_Cons)
  then have neq: "ring_head r \<noteq> ring_tail r" by (auto simp: ring_len_def)
  have cons: "map (\<lambda>i. assume_init_read (ring_slots r ! ?ix i)) [0..<Suc (length vs)] = v # vs"
    using ne n by (simp add: ring_contents_def)
  then have hd: "assume_init_read (ring_slots r ! ?ix 0) = v"
    and vs: "vs = map (\<lambda>i. assume_init_read (ring_slots r ! ?ix (Suc i))) [0..<length vs]"
    by (simp_all del: upt_Suc add: upt_conv_Cons map_Suc_upt [symmetric] comp_def)
  show "ring_pop r = (Some v, r')"
    using neq hd ring_head_index [OF ring_inv_pow2 [OF inv]] by (simp add: ring_defs r'_def)
  have n': "unat (ring_len r') = length vs"
    using word_distance_decreases [OF neq] n by (simp add: r'_def ring_len_def)
  have ix: "ring_index r' i = ?ix (Suc i)" for i
    by (rule ring_index_advance [OF ring_inv_pow2 [OF inv]]) (simp_all add: r'_def)
  have cap: "?n \<le> unat (ring_cap r)" using inv by (simp add: ring_inv_def word_le_nat_alt)
  have nth': "ring_slots r' ! ?ix (Suc i) = ring_slots r ! ?ix (Suc i)" if "i < length vs" for i
    using that n cap ring_index_inject [of 0 r "Suc i"] by (simp add: r'_def)
  show "ring_inv r'"
    using inv n n' cap nth' unfolding ring_inv_def ix
    by (auto simp: r'_def ring_pow2_def word_le_nat_alt)
  show "ring_contents r' = vs" unfolding ring_contents_def ix n'
    by (subst vs) (simp add: nth' cong: map_cong)
  show "ring_room r' = ring_room r" by (simp add: r'_def ring_room_def)
  have "ring_slots r ! ?ix 0 \<noteq> Uninit" using inv n by (simp add: ring_inv_def)
  with hd show "ring_slots r ! ?ix 0 = Init v" by (cases "ring_slots r ! ?ix 0") auto
qed

interpretation spsc: bounded_fifo ring_push ring_pop ring_contents ring_room ring_inv
proof (unfold_locales, goal_cases)
  case (1 q) then show ?case by (simp add: ring_inv_def ring_room_def word_le_nat_alt)
next
  case (2 q v) then show ?case using ring_push_ok [of q v] by (simp add: ring_room_def)
next
  case (3 q) then show ?case by (simp add: ring_pop_empty)
next
  case (4 q v vs) then show ?case using ring_pop_cons [of q v vs] by simp
next
  case (5 q v) then show ?case using ring_push_full [of q v] by (simp add: ring_room_def)
qed

lemma drain_ring_result:
  assumes "ring_inv r"
  shows "\<exists>r'. drain_ring r out = (out @ ring_contents r, r') \<and> ring_inv r' \<and>
    ring_contents r' = [] \<and> ring_room r' = ring_room r"
  using drain_ring.simps assms by (rule spsc.drain_result)

section \<open>Properties\<close>

text \<open>Refinement: whatever sequence of pushes and pops a client runs, an SPSC ring answers
  exactly as a first-in first-out queue bounded by its capacity does, and ends holding the same
  values; this holds from every consistent state, so also while the 64-bit cursors wrap.\<close>

theorem spsc_refines_fifo:
  assumes "ring_inv r"
  shows "fst (run_ops ring_push ring_pop ops r) =
      fst (run_ops (fifo_push (unat (ring_cap r))) fifo_pop ops (ring_contents r))
    \<and> ring_contents (snd (run_ops ring_push ring_pop ops r)) =
      snd (run_ops (fifo_push (unat (ring_cap r))) fifo_pop ops (ring_contents r))"
  using spsc.run_refines [OF assms, of ops] by (simp add: ring_room_def)

definition wrap_ring :: "nat spsc_ring" where
  "wrap_ring = \<lparr>ring_slots = [Uninit, Init 7], ring_head = - 1, ring_tail = 0, ring_cap = 2\<rparr>"

lemma wrap_ring_inv: "ring_inv wrap_ring"
proof -
  have "ring_len wrap_ring = 1" and "ring_cap wrap_ring = 2 ^ 1"
    by (simp_all add: wrap_ring_def ring_len_def)
  moreover have "ring_index wrap_ring 0 = 1"
    by (simp add: ring_index_def wrap_ring_def unat_minus_one_word_eq)
  ultimately show ?thesis
    unfolding ring_inv_def ring_pow2_def by (intro conjI) (auto simp: wrap_ring_def intro: exI [of _ "1::nat"])
qed

theorem spsc_refines_fifo_witness:
  "fst (run_ops ring_push ring_pop [Push 8, Push 9, Pop, Push 9, Pop, Pop, Pop] wrap_ring) =
    [Pushed (Inr ()), Pushed (Inl 9), Popped (Some 7), Pushed (Inr ()), Popped (Some 8),
     Popped (Some 9), Popped None]"
proof -
  have "ring_contents wrap_ring = [7]" and "unat (ring_cap wrap_ring) = 2"
    by (simp_all add: ring_contents_def ring_index_def wrap_ring_def ring_len_def
        unat_minus_one_word_eq)
  then show ?thesis
    using spsc_refines_fifo [OF wrap_ring_inv, of "[Push 8, Push 9, Pop, Push 9, Pop, Pop, Pop]"]
    by (simp add: fifo_push_def)
qed

text \<open>Construction: a ring created for a requested capacity of at most \<open>2 ^ 63\<close> is
  consistent and empty and its real capacity is the power of two that is at least the request.\<close>

theorem with_capacity_ok:
  assumes "unat c \<le> 2 ^ 63"
  shows "ring_inv (with_capacity c) \<and> ring_contents (with_capacity c) = [] \<and>
    unat c \<le> unat (ring_cap (with_capacity c)) \<and> is_empty (with_capacity c)"
  using with_capacity_inv [OF assms]
  by (simp add: ring_room_def is_empty_def ring_len_def with_capacity_def Let_def)

theorem with_capacity_ok_witness:
  "unat (5 :: usize) \<le> 2 ^ 63 \<and> ring_inv (with_capacity 5 :: nat spsc_ring)"
proof -
  have h: "unat (5 :: usize) \<le> 2 ^ 63" by simp
  show ?thesis using h with_capacity_ok [OF h, where 'a = nat] by blast
qed

text \<open>Draining: the pop-until-empty loop of the ring's clients ends, returns every pending
  value in the order of the pushes after what the output vector already held, and empties the
  ring.\<close>

theorem drain_ring_all:
  assumes "ring_inv r"
  shows "fst (drain_ring r out) = out @ ring_contents r
    \<and> is_empty (snd (drain_ring r out)) \<and> ring_inv (snd (drain_ring r out))"
proof -
  obtain r' where "drain_ring r out = (out @ ring_contents r, r')" "ring_inv r'"
      "ring_contents r' = []"
    using drain_ring_result [OF assms] by blast
  moreover from this have "unat (ring_len r') = 0" by (metis length_ring_contents list.size(3))
  ultimately show ?thesis by (simp add: is_empty_def unat_eq_0)
qed

theorem drain_ring_all_witness:
  "fst (drain_ring wrap_ring [1]) = [1, 7]"
proof -
  have "ring_contents wrap_ring = [7]"
    by (simp add: ring_contents_def ring_index_def wrap_ring_def ring_len_def
        unat_minus_one_word_eq)
  then show ?thesis using drain_ring_all [OF wrap_ring_inv, of "[1]"] by simp
qed

end
