(* ===== verification/Spsc_Concurrent.thy ===== *)
theory Spsc_Concurrent
  imports Spsc_Ring
begin

text \<open>
  The SPSC ring under concurrency: one producer thread and one consumer thread run the bodies of
  \<open>do_push\<close> and \<open>do_pop\<close> (spsc.rs) one memory access at a time, interleaved in any order. The
  program counters hold what each thread keeps in its registers between two accesses. Accesses
  are sequentially consistent, which is what the Acquire loads and Release stores of the two
  cursors give the two threads of this protocol. \<open>pushed\<close> and \<open>popped\<close> record the
  values accepted and handed out so far.
\<close>

datatype 'a producer_pc =
    P_Idle
  | P_Tail usize 'a     \<comment> \<open>own cursor loaded\<close>
  | P_Room usize 'a     \<comment> \<open>consumer cursor loaded, room found\<close>
  | P_Written usize 'a  \<comment> \<open>slot filled, cursor not yet published\<close>

datatype 'a consumer_pc =
    C_Idle
  | C_Head usize      \<comment> \<open>own cursor loaded\<close>
  | C_Ready usize     \<comment> \<open>producer cursor loaded, a value is there\<close>
  | C_Taken usize 'a  \<comment> \<open>value read, cursor not yet published\<close>

record 'a spsc_state =
  shared :: "'a spsc_ring"
  producer :: "'a producer_pc"
  consumer :: "'a consumer_pc"
  pushed :: "'a list"
  popped :: "'a list"

definition spsc_init :: "usize \<Rightarrow> 'a spsc_state" where
  "spsc_init c = \<lparr>shared = with_capacity c, producer = P_Idle, consumer = C_Idle,
     pushed = [], popped = []\<rparr>"

inductive spsc_step :: "'a spsc_state \<Rightarrow> 'a spsc_state \<Rightarrow> bool" where
  p_load_tail: "producer s = P_Idle \<Longrightarrow>
    spsc_step s (s\<lparr>producer := P_Tail (ring_tail (shared s)) v\<rparr>)"
| p_full: "producer s = P_Tail t v \<Longrightarrow> ring_cap (shared s) \<le> t - ring_head (shared s) \<Longrightarrow>
    spsc_step s (s\<lparr>producer := P_Idle\<rparr>)"
| p_room: "producer s = P_Tail t v \<Longrightarrow> \<not> ring_cap (shared s) \<le> t - ring_head (shared s) \<Longrightarrow>
    spsc_step s (s\<lparr>producer := P_Room t v\<rparr>)"
| p_write: "producer s = P_Room t v \<Longrightarrow>
    spsc_step s (s\<lparr>producer := P_Written t v,
      shared := (shared s)\<lparr>ring_slots :=
        (ring_slots (shared s))[unat (t AND (ring_cap (shared s) - 1)) := Init v]\<rparr>\<rparr>)"
| p_publish: "producer s = P_Written t v \<Longrightarrow>
    spsc_step s (s\<lparr>producer := P_Idle, shared := (shared s)\<lparr>ring_tail := t + 1\<rparr>,
      pushed := pushed s @ [v]\<rparr>)"
| c_load_head: "consumer s = C_Idle \<Longrightarrow>
    spsc_step s (s\<lparr>consumer := C_Head (ring_head (shared s))\<rparr>)"
| c_empty: "consumer s = C_Head h \<Longrightarrow> h = ring_tail (shared s) \<Longrightarrow>
    spsc_step s (s\<lparr>consumer := C_Idle\<rparr>)"
| c_ready: "consumer s = C_Head h \<Longrightarrow> h \<noteq> ring_tail (shared s) \<Longrightarrow>
    spsc_step s (s\<lparr>consumer := C_Ready h\<rparr>)"
| c_read: "consumer s = C_Ready h \<Longrightarrow> i = unat (h AND (ring_cap (shared s) - 1)) \<Longrightarrow>
    spsc_step s (s\<lparr>consumer := C_Taken h (assume_init_read (ring_slots (shared s) ! i)),
      shared := (shared s)\<lparr>ring_slots := (ring_slots (shared s))[i := Uninit]\<rparr>\<rparr>)"
| c_publish: "consumer s = C_Taken h v \<Longrightarrow>
    spsc_step s (s\<lparr>consumer := C_Idle, shared := (shared s)\<lparr>ring_head := h + 1\<rparr>,
      popped := popped s @ [v]\<rparr>)"

inductive spsc_reachable :: "usize \<Rightarrow> 'a spsc_state \<Rightarrow> bool" for c where
  start: "spsc_reachable c (spsc_init c)"
| step: "spsc_reachable c s \<Longrightarrow> spsc_step s t \<Longrightarrow> spsc_reachable c t"

section \<open>Invariant\<close>

text \<open>The values between the cursors, with the oldest already moved out while the consumer holds
  it; where each program counter's registers agree with the shared cursors.\<close>

definition pending_ok :: "'a spsc_ring \<Rightarrow> 'a consumer_pc \<Rightarrow> 'a list \<Rightarrow> bool" where
  "pending_ok r c vs \<longleftrightarrow> length vs = unat (ring_len r) \<and>
     (\<forall>i < length vs. ring_slots r ! ring_index r i = Init (vs ! i) \<or>
        i = 0 \<and> (\<exists>h. c = C_Taken h (vs ! 0)))"

fun producer_ok :: "'a spsc_ring \<Rightarrow> 'a producer_pc \<Rightarrow> bool" where
  "producer_ok r P_Idle \<longleftrightarrow> True"
| "producer_ok r (P_Tail t v) \<longleftrightarrow> t = ring_tail r"
| "producer_ok r (P_Room t v) \<longleftrightarrow> t = ring_tail r \<and> unat (ring_len r) < unat (ring_cap r)"
| "producer_ok r (P_Written t v) \<longleftrightarrow> t = ring_tail r \<and> unat (ring_len r) < unat (ring_cap r) \<and>
     ring_slots r ! ring_index r (unat (ring_len r)) = Init v"

fun consumer_ok :: "'a spsc_ring \<Rightarrow> 'a list \<Rightarrow> 'a consumer_pc \<Rightarrow> bool" where
  "consumer_ok r vs C_Idle \<longleftrightarrow> True"
| "consumer_ok r vs (C_Head h) \<longleftrightarrow> h = ring_head r"
| "consumer_ok r vs (C_Ready h) \<longleftrightarrow> h = ring_head r \<and> vs \<noteq> []"
| "consumer_ok r vs (C_Taken h v) \<longleftrightarrow> h = ring_head r \<and> vs \<noteq> [] \<and> v = hd vs"

definition conc_inv :: "'a spsc_state \<Rightarrow> 'a list \<Rightarrow> bool" where
  "conc_inv s vs \<longleftrightarrow>
     ring_pow2 (shared s) \<and> length (ring_slots (shared s)) = unat (ring_cap (shared s)) \<and>
     unat (ring_len (shared s)) \<le> unat (ring_cap (shared s)) \<and>
     pushed s = popped s @ vs \<and> pending_ok (shared s) (consumer s) vs \<and>
     producer_ok (shared s) (producer s) \<and> consumer_ok (shared s) vs (consumer s)"

lemma conc_inv_init:
  assumes "unat c \<le> 2 ^ 63"
  shows "conc_inv (spsc_init c) []"
  using with_capacity_inv [OF assms]
  by (simp add: conc_inv_def spsc_init_def ring_inv_def pending_ok_def word_le_nat_alt)
    (simp add: with_capacity_def ring_len_def Let_def)

lemma ring_frame [simp]:
  "ring_index (r\<lparr>ring_slots := x\<rparr>) i = ring_index r i"
  "ring_index (r\<lparr>ring_tail := t\<rparr>) i = ring_index r i"
  "ring_len (r\<lparr>ring_slots := x\<rparr>) = ring_len r"
  "ring_pow2 (r\<lparr>ring_slots := x\<rparr>) = ring_pow2 r"
  "ring_pow2 (r\<lparr>ring_tail := t\<rparr>) = ring_pow2 r"
  "ring_pow2 (r\<lparr>ring_head := t\<rparr>) = ring_pow2 r"
  by (simp_all add: ring_index_def ring_len_def ring_pow2_def)

text \<open>One preservation lemma for each step that writes shared memory.\<close>

lemma p_write_inv:
  assumes inv: "conc_inv s vs" and pc: "producer s = P_Room t v"
  defines "r \<equiv> shared s"
  shows "conc_inv (s\<lparr>producer := P_Written t v, shared := r\<lparr>ring_slots :=
    (ring_slots r)[unat (t AND (ring_cap r - 1)) := Init v]\<rparr>\<rparr>) vs"
proof -
  let ?n = "unat (ring_len r)"
  have r: "ring_pow2 r" "length (ring_slots r) = unat (ring_cap r)" "t = ring_tail r"
    "?n < unat (ring_cap r)" "length vs = ?n"
    using inv pc by (simp_all add: conc_inv_def r_def pending_ok_def)
  have ix: "unat (t AND (ring_cap r - 1)) = ring_index r ?n"
    using ring_tail_index [OF r(1)] r(3) by simp
  have "ring_index r ?n \<noteq> ring_index r i" if "i < ?n" for i
    using that r(4) ring_index_inject [of i r ?n] by simp
  then have "pending_ok (r\<lparr>ring_slots := (ring_slots r)[ring_index r ?n := Init v]\<rparr>) (consumer s) vs"
    using inv r(5) by (simp add: conc_inv_def r_def [symmetric] pending_ok_def)
  moreover have "consumer_ok (r\<lparr>ring_slots := x\<rparr>) vs (consumer s)" for x
    using inv by (cases "consumer s") (simp_all add: conc_inv_def r_def)
  ultimately show ?thesis
    using inv r ring_index_bound [OF r(1)] unfolding ix
    by (simp add: conc_inv_def r_def [symmetric])
qed

lemma p_publish_inv:
  assumes inv: "conc_inv s vs" and pc: "producer s = P_Written t v"
  defines "r \<equiv> shared s"
  shows "conc_inv (s\<lparr>producer := P_Idle, shared := r\<lparr>ring_tail := t + 1\<rparr>,
    pushed := pushed s @ [v]\<rparr>) (vs @ [v])"
proof -
  let ?r' = "r\<lparr>ring_tail := t + 1\<rparr>"
  have t: "t = ring_tail r" "unat (ring_len r) < unat (ring_cap r)"
    "ring_slots r ! ring_index r (unat (ring_len r)) = Init v"
    "length vs = unat (ring_len r)"
    using inv pc by (simp_all add: conc_inv_def r_def pending_ok_def)
  have n': "unat (ring_len ?r') = Suc (unat (ring_len r))"
    by (rule ring_len_advance_tail [OF t(2)]) (simp_all add: t(1))
  have "pending_ok ?r' (consumer s) (vs @ [v])"
    unfolding pending_ok_def n'
  proof (intro conjI allI impI)
    show "length (vs @ [v]) = Suc (unat (ring_len r))" using t(4) by simp
    fix i assume "i < length (vs @ [v])"
    then have "i < length vs \<or> i = length vs" by auto
    then show "ring_slots ?r' ! ring_index ?r' i = Init ((vs @ [v]) ! i) \<or>
        i = 0 \<and> (\<exists>h. consumer s = C_Taken h ((vs @ [v]) ! 0))"
      using inv t(3,4) by (auto simp: conc_inv_def r_def [symmetric] pending_ok_def nth_append)
  qed
  moreover have "consumer_ok ?r' (vs @ [v]) (consumer s)"
    using inv by (cases "consumer s") (simp_all add: conc_inv_def r_def)
  ultimately show ?thesis
    using inv t(2) n' by (simp add: conc_inv_def r_def [symmetric])
qed

lemma c_read_inv:
  assumes inv: "conc_inv s vs" and pc: "consumer s = C_Ready h"
  defines "r \<equiv> shared s"
  defines "i \<equiv> unat (h AND (ring_cap r - 1))"
  shows "ring_slots r ! i = Init (hd vs)" and "vs \<noteq> []"
    and "conc_inv (s\<lparr>consumer := C_Taken h (hd vs),
      shared := r\<lparr>ring_slots := (ring_slots r)[i := Uninit]\<rparr>\<rparr>) vs"
proof -
  let ?n = "unat (ring_len r)"
  have r: "ring_pow2 r" "length (ring_slots r) = unat (ring_cap r)" "h = ring_head r"
    "?n \<le> unat (ring_cap r)" "length vs = ?n" "vs \<noteq> []"
    "\<forall>i < ?n. ring_slots r ! ring_index r i = Init (vs ! i)"
    using inv pc by (simp_all add: conc_inv_def r_def pending_ok_def)
  have ix: "i = ring_index r 0"
    using ring_head_index [OF r(1)] r(3) by (simp add: i_def)
  have pos: "0 < ?n" using r(5,6) by (metis length_greater_0_conv)
  then show "ring_slots r ! i = Init (hd vs)" and "vs \<noteq> []"
    using r(6,7) by (simp_all add: ix hd_conv_nth)
  have other: "ring_index r 0 \<noteq> ring_index r j" if "0 < j" "j < unat (ring_cap r)" for j
    using that ring_index_inject [of j r 0] by simp
  let ?r' = "r\<lparr>ring_slots := (ring_slots r)[i := Uninit]\<rparr>"
  have "pending_ok ?r' (C_Taken h (hd vs)) vs"
    using r other pos unfolding pending_ok_def ix
    by (auto simp: hd_conv_nth gr0_conv_Suc)
  moreover have "producer_ok ?r' (producer s)"
    using inv other [of ?n] pos unfolding ix
    by (cases "producer s") (simp_all add: conc_inv_def r_def)
  ultimately show "conc_inv (s\<lparr>consumer := C_Taken h (hd vs), shared := ?r'\<rparr>) vs"
    using inv r by (simp add: conc_inv_def r_def [symmetric])
qed

lemma c_publish_inv:
  assumes inv: "conc_inv s vs" and pc: "consumer s = C_Taken h v"
  defines "r \<equiv> shared s"
  shows "v = hd vs" and "vs \<noteq> []"
    and "conc_inv (s\<lparr>consumer := C_Idle, shared := r\<lparr>ring_head := h + 1\<rparr>,
      popped := popped s @ [v]\<rparr>) (tl vs)"
proof -
  let ?r' = "r\<lparr>ring_head := h + 1\<rparr>"
  have r: "ring_pow2 r" "h = ring_head r" "length vs = unat (ring_len r)"
    using inv pc by (simp_all add: conc_inv_def r_def pending_ok_def)
  show v: "v = hd vs" "vs \<noteq> []" using inv pc by (simp_all add: conc_inv_def)
  have "ring_head r \<noteq> ring_tail r" using r(3) v(2) by (auto simp: ring_len_def)
  then have n: "unat (ring_len r) = Suc (unat (ring_len ?r'))"
    using word_distance_decreases [of "ring_head r" "ring_tail r"] r(2) by (simp add: ring_len_def)
  have ix: "ring_index ?r' i = ring_index r (Suc i)" for i
    by (rule ring_index_advance [OF r(1)]) (simp_all add: r(2))
  have "pending_ok ?r' C_Idle (tl vs)"
    using inv n r(3) unfolding conc_inv_def pending_ok_def ix r_def [symmetric]
    by (auto simp: nth_tl)
  moreover have "producer_ok ?r' (producer s)"
    using inv n by (cases "producer s") (auto simp: conc_inv_def r_def [symmetric] ix)
  ultimately show "conc_inv (s\<lparr>consumer := C_Idle, shared := ?r', popped := popped s @ [v]\<rparr>) (tl vs)"
    using inv n v by (simp add: conc_inv_def r_def [symmetric])
qed

lemma conc_inv_step:
  assumes "spsc_step s t" and "conc_inv s vs"
  shows "\<exists>vs'. conc_inv t vs'"
  using assms
proof (cases rule: spsc_step.cases)
  case (p_load_tail v)
  then show ?thesis using assms(2) by (auto simp: conc_inv_def)
next
  case (p_room t v)
  then have "unat (ring_len (shared s)) < unat (ring_cap (shared s))"
    using assms(2) by (simp add: conc_inv_def ring_len_def word_le_nat_alt)
  then show ?thesis using p_room assms(2) by (auto simp: conc_inv_def)
next
  case (p_write t v)
  then show ?thesis using p_write_inv [OF assms(2)] by auto
next
  case (p_publish t v)
  then show ?thesis using p_publish_inv [OF assms(2)] by auto
next
  case (c_ready h)
  then have "unat (ring_len (shared s)) \<noteq> 0"
    using assms(2) by (simp add: conc_inv_def ring_len_def unat_eq_0)
  then have "vs \<noteq> []" using assms(2) by (auto simp: conc_inv_def pending_ok_def)
  then show ?thesis using c_ready assms(2) by (auto simp: conc_inv_def pending_ok_def)
next
  case (c_read h i)
  then show ?thesis using c_read_inv [OF assms(2)] by auto
next
  case (c_publish h v)
  then show ?thesis using c_publish_inv [OF assms(2)] by auto
qed (use assms(2) in \<open>auto simp: conc_inv_def pending_ok_def\<close>)

lemma reachable_conc_inv:
  assumes "spsc_reachable c s" and "unat c \<le> 2 ^ 63"
  shows "\<exists>vs. conc_inv s vs"
  using assms
proof (induction rule: spsc_reachable.induct)
  case start
  then show ?case using conc_inv_init by blast
next
  case (step s t)
  then show ?case using conc_inv_step by blast
qed

section \<open>Properties\<close>

text \<open>C6. Concurrent FIFO: in every state that any interleaving of the producer's and the consumer's
  memory accesses can reach, the values handed out are a prefix of the values accepted, in order
  and without loss or duplication, and at most the capacity of them are still pending.\<close>

theorem spsc_concurrent_fifo:
  assumes "spsc_reachable c s" and "unat c \<le> 2 ^ 63"
  shows "\<exists>vs. pushed s = popped s @ vs \<and> length vs = unat (ring_len (shared s)) \<and>
    length vs \<le> unat (ring_cap (shared s))"
  using reachable_conc_inv [OF assms] by (auto simp: conc_inv_def pending_ok_def)

text \<open>C9. Memory safety under concurrency: when the consumer is about to read a slot, that slot is
  initialised and holds the next value in order; and when the producer is about to write a slot at
  the same time, it is a different one. So no interleaving reads an uninitialised cell, tears a
  value or overwrites one that was not consumed.\<close>

theorem spsc_concurrent_safe:
  assumes "spsc_reachable c s" and "unat c \<le> 2 ^ 63" and "consumer s = C_Ready h"
  shows "length (popped s) < length (pushed s) \<and>
    ring_slots (shared s) ! unat (h AND (ring_cap (shared s) - 1)) =
      Init (pushed s ! length (popped s)) \<and>
    (\<forall>t v. producer s = P_Room t v \<longrightarrow>
      unat (t AND (ring_cap (shared s) - 1)) \<noteq> unat (h AND (ring_cap (shared s) - 1)))"
proof -
  let ?r = "shared s"
  obtain vs where inv: "conc_inv s vs" using reachable_conc_inv [OF assms(1,2)] by blast
  have vs: "pushed s = popped s @ vs" "length vs = unat (ring_len ?r)" "ring_pow2 ?r"
    "h = ring_head ?r" using inv assms(3) by (simp_all add: conc_inv_def pending_ok_def)
  note rd = c_read_inv [OF inv assms(3)]
  have "pushed s ! length (popped s) = hd vs" "length (popped s) < length (pushed s)"
    using rd(2) vs(1) by (simp_all add: nth_append hd_conv_nth)
  moreover have "unat (t AND (ring_cap ?r - 1)) \<noteq> unat (h AND (ring_cap ?r - 1))"
    if "producer s = P_Room t v" for t v
  proof -
    have t: "t = ring_tail ?r" "unat (ring_len ?r) < unat (ring_cap ?r)"
      using inv that by (simp_all add: conc_inv_def)
    have "0 < unat (ring_len ?r)" using rd(2) vs(2) by (metis length_greater_0_conv)
    then show ?thesis
      using t vs(4) ring_tail_index [OF vs(3)] ring_head_index [OF vs(3)]
        ring_index_inject [of "unat (ring_len ?r)" ?r 0] by simp
  qed
  ultimately show ?thesis using rd(1) by simp
qed

definition demo_ring :: "nat spsc_ring" where
  "demo_ring = \<lparr>ring_slots = [Uninit, Uninit], ring_head = 0, ring_tail = 0, ring_cap = 2\<rparr>"

definition demo_state :: "nat spsc_state" where
  "demo_state = \<lparr>shared = \<lparr>ring_slots = [Init 5, Uninit], ring_head = 0, ring_tail = 1, ring_cap = 2\<rparr>,
     producer = P_Room 1 6, consumer = C_Ready 0, pushed = [5], popped = []\<rparr>"

lemma demo_with_capacity: "with_capacity 2 = demo_ring"
proof -
  have "next_power_of_two (max 2 1 :: usize) = 2"
    by (simp add: next_power_of_two_def max_def word_le_nat_alt)
  moreover have "unat (2 :: usize) = Suc (Suc 0)" by simp
  then have "replicate (unat (2 :: usize)) x = [x, x]" for x :: "nat maybe_uninit"
    by (simp only: replicate.simps)
  ultimately show ?thesis by (simp only: with_capacity_def demo_ring_def Let_def)
qed

lemma demo_reachable: "spsc_reachable 2 demo_state"
proof -
  let ?s0 = "\<lparr>shared = demo_ring, producer = P_Idle, consumer = C_Idle, pushed = [], popped = []\<rparr>"
  have "spsc_reachable 2 ?s0"
    using spsc_reachable.start [of 2, where 'a = nat] by (simp add: spsc_init_def demo_with_capacity)
  from spsc_reachable.step [OF this spsc_step.p_load_tail, of 5]
  have "spsc_reachable 2 (?s0\<lparr>producer := P_Tail 0 5\<rparr>)" by (simp add: demo_ring_def)
  from spsc_reachable.step [OF this spsc_step.p_room [of _ 0 5]]
  have "spsc_reachable 2 (?s0\<lparr>producer := P_Room 0 5\<rparr>)" by (simp add: demo_ring_def)
  from spsc_reachable.step [OF this spsc_step.p_write [of _ 0 5]]
  have "spsc_reachable 2 (?s0\<lparr>producer := P_Written 0 5,
      shared := demo_ring\<lparr>ring_slots := [Init 5, Uninit]\<rparr>\<rparr>)" by (simp add: demo_ring_def)
  from spsc_reachable.step [OF this spsc_step.p_publish [of _ 0 5]]
  have "spsc_reachable 2 (demo_state\<lparr>producer := P_Idle, consumer := C_Idle\<rparr>)"
    by (simp add: demo_ring_def demo_state_def)
  from spsc_reachable.step [OF this spsc_step.p_load_tail, of 6]
  have "spsc_reachable 2 (demo_state\<lparr>producer := P_Tail 1 6, consumer := C_Idle\<rparr>)"
    by (simp add: demo_state_def)
  from spsc_reachable.step [OF this spsc_step.p_room [of _ 1 6]]
  have "spsc_reachable 2 (demo_state\<lparr>consumer := C_Idle\<rparr>)"
    by (simp add: demo_state_def word_le_nat_alt)
  from spsc_reachable.step [OF this spsc_step.c_load_head]
  have "spsc_reachable 2 (demo_state\<lparr>consumer := C_Head 0\<rparr>)" by (simp add: demo_state_def)
  from spsc_reachable.step [OF this spsc_step.c_ready [of _ 0]]
  show ?thesis by (simp add: demo_state_def)
qed

theorem spsc_concurrent_fifo_witness:
  "spsc_reachable 2 demo_state \<and>
    (\<exists>vs. pushed demo_state = popped demo_state @ vs \<and> length vs \<le> 2)"
  using demo_reachable spsc_concurrent_fifo [OF demo_reachable] by (auto simp: demo_state_def)

theorem spsc_concurrent_safe_witness:
  "consumer demo_state = C_Ready 0 \<and> ring_slots (shared demo_state) ! 0 = Init 5 \<and>
    producer demo_state = P_Room 1 6 \<and> unat ((1 :: usize) AND (2 - 1)) \<noteq> unat ((0 :: usize) AND (2 - 1))"
proof -
  have c: "consumer demo_state = C_Ready 0" and p: "producer demo_state = P_Room 1 6"
    by (simp_all add: demo_state_def)
  from spsc_concurrent_safe [OF demo_reachable _ c] p show ?thesis
    by (simp add: demo_state_def)
qed

end
