(* ===== verification/Mpmc_Ring.thy ===== *)
theory Mpmc_Ring
  imports Spsc_Ring
begin

text \<open>
  The bounded MPMC queue of the core crate (mpmc.rs), run by one thread at a time. Every cell
  carries a sequence number; a push claims the cell of \<open>enqueue_pos\<close> by a compare-exchange and
  publishes it by advancing the cell's sequence, a pop does the same on the other cursor. The
  weak compare-exchange may fail spuriously: the argument \<open>sp\<close> of the loops says for each
  attempt whether it does. A loop that never returns is \<open>None\<close>.
\<close>

record 'a mpmc_cell =
  cell_seq :: usize
  cell_value :: "'a maybe_uninit"

record 'a mpmc_ring =
  mp_cells :: "'a mpmc_cell list"
  enqueue_pos :: usize
  dequeue_pos :: usize
  mp_cap :: usize

definition mpmc_with_capacity :: "usize \<Rightarrow> 'a mpmc_ring" where
  "mpmc_with_capacity capacity =
     (let cap = next_power_of_two (max capacity 1)
      in \<lparr>mp_cells = map (\<lambda>i. \<lparr>cell_seq = word_of_nat i, cell_value = Uninit\<rparr>) [0..<unat cap],
          enqueue_pos = 0, dequeue_pos = 0, mp_cap = cap\<rparr>)"

definition mp_index :: "'a mpmc_ring \<Rightarrow> usize \<Rightarrow> nat" where
  "mp_index q pos = unat (pos AND (mp_cap q - 1))"

definition mp_publish_push :: "'a mpmc_ring \<Rightarrow> usize \<Rightarrow> 'a \<Rightarrow> 'a mpmc_ring" where
  "mp_publish_push q pos v = q\<lparr>enqueue_pos := pos + 1,
     mp_cells := (mp_cells q)[mp_index q pos := \<lparr>cell_seq = pos + 1, cell_value = Init v\<rparr>]\<rparr>"

definition mp_publish_pop :: "'a mpmc_ring \<Rightarrow> usize \<Rightarrow> 'a mpmc_ring" where
  "mp_publish_pop q pos = q\<lparr>dequeue_pos := pos + 1,
     mp_cells := (mp_cells q)[mp_index q pos := \<lparr>cell_seq = pos + mp_cap q, cell_value = Uninit\<rparr>]\<rparr>"

partial_function (option) mpmc_push_loop ::
  "bool list \<Rightarrow> usize \<Rightarrow> 'a mpmc_ring \<Rightarrow> 'a \<Rightarrow> (('a + unit) \<times> 'a mpmc_ring) option" where
  "mpmc_push_loop sp pos q v =
     (let diff = sint (cell_seq (mp_cells q ! mp_index q pos) - pos) in
      if diff = 0 then
        if (sp \<noteq> [] \<and> hd sp) \<or> enqueue_pos q \<noteq> pos
        then mpmc_push_loop (tl sp) (enqueue_pos q) q v
        else Some (Inr (), mp_publish_push q pos v)
      else if diff < 0 then Some (Inl v, q)
      else mpmc_push_loop sp (enqueue_pos q) q v)"

partial_function (option) mpmc_pop_loop ::
  "bool list \<Rightarrow> usize \<Rightarrow> 'a mpmc_ring \<Rightarrow> ('a option \<times> 'a mpmc_ring) option" where
  "mpmc_pop_loop sp pos q =
     (let diff = sint (cell_seq (mp_cells q ! mp_index q pos) - (pos + 1)) in
      if diff = 0 then
        if (sp \<noteq> [] \<and> hd sp) \<or> dequeue_pos q \<noteq> pos
        then mpmc_pop_loop (tl sp) (dequeue_pos q) q
        else Some (Some (assume_init_read (cell_value (mp_cells q ! mp_index q pos))), mp_publish_pop q pos)
      else if diff < 0 then Some (None, q)
      else mpmc_pop_loop sp (dequeue_pos q) q)"

definition mpmc_push :: "bool list \<Rightarrow> 'a mpmc_ring \<Rightarrow> 'a \<Rightarrow> (('a + unit) \<times> 'a mpmc_ring) option" where
  "mpmc_push sp q v = mpmc_push_loop sp (enqueue_pos q) q v"

definition mpmc_pop :: "bool list \<Rightarrow> 'a mpmc_ring \<Rightarrow> ('a option \<times> 'a mpmc_ring) option" where
  "mpmc_pop sp q = mpmc_pop_loop sp (dequeue_pos q) q"

definition mpmc_len :: "'a mpmc_ring \<Rightarrow> usize" where
  "mpmc_len q = enqueue_pos q - dequeue_pos q"

definition mpmc_is_empty :: "'a mpmc_ring \<Rightarrow> bool" where
  "mpmc_is_empty q \<longleftrightarrow> mpmc_len q = 0"

section \<open>One uncontended attempt decides\<close>

text \<open>With the cursor up to date, the loop returns what its first successful attempt returns,
  however many attempts fail spuriously before.\<close>

lemma mpmc_push_ok:
  assumes "cell_seq (mp_cells q ! mp_index q (enqueue_pos q)) = enqueue_pos q"
  shows "mpmc_push sp q v = Some (Inr (), mp_publish_push q (enqueue_pos q) v)"
proof -
  have "mpmc_push_loop sp (enqueue_pos q) q v = Some (Inr (), mp_publish_push q (enqueue_pos q) v)"
  proof (induction sp)
    case Nil
    show ?case by (subst mpmc_push_loop.simps) (simp add: assms)
  next
    case (Cons b sp)
    then show ?case by (subst mpmc_push_loop.simps) (simp add: assms)
  qed
  then show ?thesis by (simp add: mpmc_push_def)
qed

lemma mpmc_push_err:
  assumes "sint (cell_seq (mp_cells q ! mp_index q (enqueue_pos q)) - enqueue_pos q) < 0"
  shows "mpmc_push sp q v = Some (Inl v, q)"
  unfolding mpmc_push_def by (subst mpmc_push_loop.simps) (use assms in simp)

lemma mpmc_pop_ok:
  assumes "cell_seq (mp_cells q ! mp_index q (dequeue_pos q)) = dequeue_pos q + 1"
  shows "mpmc_pop sp q =
    Some (Some (assume_init_read (cell_value (mp_cells q ! mp_index q (dequeue_pos q)))),
      mp_publish_pop q (dequeue_pos q))"
proof -
  have "mpmc_pop_loop sp (dequeue_pos q) q =
    Some (Some (assume_init_read (cell_value (mp_cells q ! mp_index q (dequeue_pos q)))),
      mp_publish_pop q (dequeue_pos q))"
  proof (induction sp)
    case Nil
    show ?case by (subst mpmc_pop_loop.simps) (simp add: assms)
  next
    case (Cons b sp)
    then show ?case by (subst mpmc_pop_loop.simps) (simp add: assms)
  qed
  then show ?thesis by (simp add: mpmc_pop_def)
qed

lemma mpmc_pop_none:
  assumes "sint (cell_seq (mp_cells q ! mp_index q (dequeue_pos q)) - (dequeue_pos q + 1)) < 0"
  shows "mpmc_pop sp q = Some (None, q)"
  unfolding mpmc_pop_def by (subst mpmc_pop_loop.simps) (use assms in simp)

text \<open>Dropping the queue pops until it is empty; the result lists the values dropped.\<close>

partial_function (option) mpmc_drop :: "'a mpmc_ring \<Rightarrow> 'a list option" where
  "mpmc_drop q = Option.bind (mpmc_pop [] q) (\<lambda>(r, q').
     case r of None \<Rightarrow> Some [] | Some v \<Rightarrow> Option.bind (mpmc_drop q') (\<lambda>vs. Some (v # vs)))"

section \<open>Invariant and abstraction\<close>

definition mp_slot :: "'a mpmc_ring \<Rightarrow> nat \<Rightarrow> nat" where
  "mp_slot q i = (unat (dequeue_pos q) + i) mod unat (mp_cap q)"

definition mpmc_contents :: "'a mpmc_ring \<Rightarrow> 'a list" where
  "mpmc_contents q = map (\<lambda>i. assume_init_read (cell_value (mp_cells q ! mp_slot q i)))
     [0..<unat (mpmc_len q)]"

definition mpmc_room :: "'a mpmc_ring \<Rightarrow> nat" where
  "mpmc_room q = unat (mp_cap q)"

definition mpmc_inv :: "'a mpmc_ring \<Rightarrow> bool" where
  "mpmc_inv q \<longleftrightarrow> (\<exists>k < 64. mp_cap q = 2 ^ k) \<and> length (mp_cells q) = unat (mp_cap q) \<and>
     unat (mpmc_len q) \<le> unat (mp_cap q) \<and>
     (\<forall>i < unat (mp_cap q). cell_seq (mp_cells q ! mp_slot q i) =
        dequeue_pos q + word_of_nat i + (if i < unat (mpmc_len q) then 1 else 0)) \<and>
     (\<forall>i < unat (mpmc_len q). cell_value (mp_cells q ! mp_slot q i) \<noteq> Uninit)"

lemma mp_index_slot:
  assumes "mpmc_inv q"
  shows "mp_index q (dequeue_pos q + word_of_nat i) = mp_slot q i"
proof -
  obtain k where k: "k < 64" "mp_cap q = 2 ^ k" using assms by (auto simp: mpmc_inv_def)
  then show ?thesis
    using unat_and_mask_pow2 [of k "dequeue_pos q + word_of_nat i"]
      unat_add_of_nat_mod [of k "dequeue_pos q" i]
    by (simp add: mp_index_def mp_slot_def unat_exp_word64)
qed

lemma mp_index_enqueue:
  assumes "mpmc_inv q"
  shows "mp_index q (enqueue_pos q) = mp_slot q (unat (mpmc_len q))"
  using mp_index_slot [OF assms, of "unat (mpmc_len q)"] by (simp add: mpmc_len_def)

lemma mp_index_dequeue: "mpmc_inv q \<Longrightarrow> mp_index q (dequeue_pos q) = mp_slot q 0"
  using mp_index_slot [of q 0] by simp

lemma mp_slot_inject:
  assumes "i < unat (mp_cap q)" and "j < unat (mp_cap q)"
  shows "mp_slot q i = mp_slot q j \<longleftrightarrow> i = j"
  using assms mod_add_inject [of "unat (dequeue_pos q)" i "unat (mp_cap q)" j]
  by (auto simp: mp_slot_def)

lemma mp_cap_pos: "mpmc_inv q \<Longrightarrow> 0 < unat (mp_cap q)"
  by (auto simp: mpmc_inv_def unat_exp_word64)

lemma mp_slot_less: "mpmc_inv q \<Longrightarrow> mp_slot q i < length (mp_cells q)"
  using mp_cap_pos [of q] by (simp add: mpmc_inv_def mp_slot_def)

lemma mp_seq:
  assumes "mpmc_inv q" and "i < unat (mp_cap q)"
  shows "cell_seq (mp_cells q ! mp_slot q i) =
    dequeue_pos q + word_of_nat i + (if i < unat (mpmc_len q) then 1 else 0)"
  using assms by (simp add: mpmc_inv_def)

lemma length_mpmc_contents [simp]: "length (mpmc_contents q) = unat (mpmc_len q)"
  by (simp add: mpmc_contents_def)

lemma mpmc_with_capacity_inv:
  assumes "unat c \<le> 2 ^ 63"
  shows "mpmc_inv (mpmc_with_capacity c)" and "mpmc_contents (mpmc_with_capacity c) = []"
    and "unat c \<le> mpmc_room (mpmc_with_capacity c)"
proof -
  let ?m = "max c 1 :: usize"
  have m: "unat ?m \<le> 2 ^ 63" "unat c \<le> unat ?m"
    using assms by (auto simp: max_def word_le_nat_alt)
  obtain j where j: "j \<le> 63" "next_power_of_two ?m = 2 ^ j"
      "unat (next_power_of_two ?m) = 2 ^ j" "unat ?m \<le> 2 ^ j"
    by (rule next_power_of_two_bounded [OF m(1)]) auto
  have len: "mpmc_len (mpmc_with_capacity c) = 0"
    by (simp add: mpmc_with_capacity_def mpmc_len_def Let_def)
  show "mpmc_inv (mpmc_with_capacity c)"
    unfolding mpmc_inv_def len using j
    by (auto simp: mpmc_with_capacity_def Let_def mp_slot_def intro!: exI [of _ j])
  show "mpmc_contents (mpmc_with_capacity c) = []" by (simp add: mpmc_contents_def len)
  show "unat c \<le> mpmc_room (mpmc_with_capacity c)"
    using j m by (simp add: mpmc_room_def mpmc_with_capacity_def Let_def)
qed

lemma mpmc_push_room:
  fixes v :: 'a
  assumes inv: "mpmc_inv q" and room: "unat (mpmc_len q) < unat (mp_cap q)"
  defines "q' \<equiv> mp_publish_push q (enqueue_pos q) v"
  shows "mpmc_push sp q v = Some (Inr (), q')" and "mpmc_inv q'"
    and "mpmc_contents q' = mpmc_contents q @ [v]" and "mpmc_room q' = mpmc_room q"
proof -
  let ?n = "unat (mpmc_len q)"
  have enq: "enqueue_pos q = dequeue_pos q + word_of_nat ?n" by (simp add: mpmc_len_def)
  show "mpmc_push sp q v = Some (Inr (), q')" unfolding q'_def
    by (rule mpmc_push_ok) (use mp_index_enqueue [OF inv] mp_seq [OF inv room] enq in simp)
  have slot: "mp_slot q' i = mp_slot q i" "dequeue_pos q' = dequeue_pos q" "mp_cap q' = mp_cap q"
      for i by (simp_all add: q'_def mp_publish_push_def mp_slot_def)
  have len: "mpmc_len q' = mpmc_len q + 1"
    by (simp add: q'_def mp_publish_push_def mpmc_len_def)
  have "?n < 2 ^ 64 - 1"
    using room unsigned_less [of "mp_cap q", where 'a = nat] by simp
  then have n': "unat (mpmc_len q') = Suc ?n" unfolding len by (simp add: unat_word_ariths)
  have cells: "mp_cells q' ! mp_slot q i = (if i = ?n then
      \<lparr>cell_seq = enqueue_pos q + 1, cell_value = Init v\<rparr> else mp_cells q ! mp_slot q i)"
    if "i < unat (mp_cap q)" for i
    using that room mp_slot_inject [of i q ?n] mp_slot_less [OF inv] mp_index_enqueue [OF inv]
    by (auto simp: q'_def mp_publish_push_def)
  have "length (mp_cells q') = length (mp_cells q)" by (simp add: q'_def mp_publish_push_def)
  then show "mpmc_inv q'"
    using inv room enq unfolding mpmc_inv_def slot n'
    by (auto simp: cells less_Suc_eq)
  show "mpmc_contents q' = mpmc_contents q @ [v]"
    unfolding mpmc_contents_def slot n' using room by (simp add: cells)
  show "mpmc_room q' = mpmc_room q" by (simp add: mpmc_room_def slot)
qed

lemma mpmc_pop_empty:
  assumes inv: "mpmc_inv q" and empty: "mpmc_contents q = []"
  shows "mpmc_pop sp q = Some (None, q)"
proof (rule mpmc_pop_none)
  have "unat (mpmc_len q) = 0" using empty by (metis length_mpmc_contents list.size(3))
  then have "cell_seq (mp_cells q ! mp_index q (dequeue_pos q)) = dequeue_pos q"
    using mp_seq [OF inv mp_cap_pos [OF inv]] mp_index_dequeue [OF inv] by simp
  then show "sint (cell_seq (mp_cells q ! mp_index q (dequeue_pos q)) - (dequeue_pos q + 1)) < 0"
    by simp
qed

lemma mpmc_pop_cons:
  assumes inv: "mpmc_inv q" and ne: "mpmc_contents q = v # vs"
  defines "q' \<equiv> mp_publish_pop q (dequeue_pos q)"
  shows "mpmc_pop sp q = Some (Some v, q')" and "mpmc_inv q'"
    and "mpmc_contents q' = vs" and "mpmc_room q' = mpmc_room q"
proof -
  let ?n = "unat (mpmc_len q)" and ?c = "unat (mp_cap q)"
  have n: "?n = Suc (length vs)" using ne by (metis length_mpmc_contents length_Cons)
  have neq: "dequeue_pos q \<noteq> enqueue_pos q" using n by (auto simp: mpmc_len_def)
  have cap: "0 < ?c" "?n \<le> ?c" using inv mp_cap_pos [OF inv] by (simp_all add: mpmc_inv_def)
  have cons: "map (\<lambda>i. assume_init_read (cell_value (mp_cells q ! mp_slot q i))) [0..<Suc (length vs)] = v # vs"
    using ne n by (simp add: mpmc_contents_def)
  then have hd: "assume_init_read (cell_value (mp_cells q ! mp_slot q 0)) = v"
    and vs: "vs = map (\<lambda>i. assume_init_read (cell_value (mp_cells q ! mp_slot q (Suc i)))) [0..<length vs]"
    by (simp_all del: upt_Suc add: upt_conv_Cons map_Suc_upt [symmetric] comp_def)
  show "mpmc_pop sp q = Some (Some v, q')" unfolding q'_def
    using mpmc_pop_ok [of q sp] mp_index_dequeue [OF inv] mp_seq [OF inv cap(1)] n hd by simp
  have q': "dequeue_pos q' = dequeue_pos q + 1" "mp_cap q' = mp_cap q"
    by (simp_all add: q'_def mp_publish_pop_def)
  have n': "unat (mpmc_len q') = length vs"
    using word_distance_decreases [OF neq] n
    by (simp add: q'_def mp_publish_pop_def mpmc_len_def)
  obtain k where k: "k < 64" "mp_cap q = 2 ^ k" using inv by (auto simp: mpmc_inv_def)
  have slot: "mp_slot q' i = mp_slot q (Suc i)" for i
    using unat_add_of_nat_mod [of k "dequeue_pos q + 1" i]
      unat_add_of_nat_mod [of k "dequeue_pos q" "Suc i"] k
    by (simp add: mp_slot_def q' unat_exp_word64 ac_simps)
  have wrap: "mp_slot q ?c = mp_slot q 0" by (simp add: mp_slot_def)
  have cells: "mp_cells q' ! mp_slot q (Suc i) = (if Suc i = ?c then
      \<lparr>cell_seq = dequeue_pos q + mp_cap q, cell_value = Uninit\<rparr> else mp_cells q ! mp_slot q (Suc i))"
    if "i < ?c" for i
    using that wrap mp_slot_inject [of 0 q "Suc i"] mp_slot_less [OF inv] mp_index_dequeue [OF inv]
      cap by (cases "Suc i = ?c") (auto simp: q'_def mp_publish_pop_def)
  have seqs: "cell_seq (mp_cells q' ! mp_slot q (Suc i)) =
      dequeue_pos q' + word_of_nat i + (if i < length vs then 1 else 0)" if "i < ?c" for i
  proof (cases "Suc i = ?c")
    case True
    have "word_of_nat ?c = mp_cap q" by simp
    then have "mp_cap q = word_of_nat (Suc i)" unfolding True [symmetric] by (rule sym)
    then have "dequeue_pos q + mp_cap q = dequeue_pos q' + word_of_nat i"
      by (simp only: q' of_nat_Suc ac_simps)
    moreover have "cell_seq (mp_cells q' ! mp_slot q (Suc i)) = dequeue_pos q + mp_cap q"
      using cells [OF that] True by simp
    moreover have "\<not> i < length vs" using n cap(2) True by linarith
    ultimately show ?thesis by simp
  next
    case False
    with that n show ?thesis by (simp add: cells q' mp_seq [OF inv, of "Suc i"] ac_simps)
  qed
  have "cell_value (mp_cells q' ! mp_slot q (Suc i)) = cell_value (mp_cells q ! mp_slot q (Suc i))"
    if "i < length vs" for i using that n cap by (simp add: cells)
  note vals = this
  have "length (mp_cells q') = length (mp_cells q)" by (simp add: q'_def mp_publish_pop_def)
  then show "mpmc_inv q'"
    using inv n cap k unfolding mpmc_inv_def slot n' q'(2) by (auto simp: seqs vals)
  show "mpmc_contents q' = vs" unfolding mpmc_contents_def slot n'
    by (subst vs) (simp add: vals cong: map_cong)
  show "mpmc_room q' = mpmc_room q" by (simp add: mpmc_room_def q')
qed

lemma mpmc_push_full:
  assumes inv: "mpmc_inv q" and full: "unat (mpmc_len q) = unat (mp_cap q)" and "1 < unat (mp_cap q)"
  shows "mpmc_push sp q v = Some (Inl v, q)"
proof (rule mpmc_push_err)
  obtain k where k: "k < 64" "mp_cap q = 2 ^ k" using inv by (auto simp: mpmc_inv_def)
  have "mpmc_len q = mp_cap q" using full by (simp add: word_unat_eq_iff)
  then have "enqueue_pos q = dequeue_pos q + mp_cap q" by (simp add: mpmc_len_def algebra_simps)
  moreover have "mp_index q (enqueue_pos q) = mp_slot q 0"
    using mp_index_enqueue [OF inv] full by (simp add: mp_slot_def)
  ultimately have "cell_seq (mp_cells q ! mp_index q (enqueue_pos q)) - enqueue_pos q = 1 - 2 ^ k"
    using mp_seq [OF inv mp_cap_pos [OF inv]] full assms(3) k by (simp add: algebra_simps)
  moreover have "sint (1 - 2 ^ k :: usize) < 0"
  proof -
    have "1 \<le> k" using assms(3) k by (cases k) auto
    then have q: "(1::nat) < 2 ^ k" by (intro one_less_power) auto
    have p: "(2::nat) ^ k \<le> 2 ^ 63" using k by (intro power_increasing) auto
    have "unat (1 - 2 ^ k :: usize) = 2 ^ 64 + 1 - 2 ^ k"
      by (subst unat_sub_if_size) (use unat_exp_word64 [OF k(1)] p q in \<open>simp add: word_size\<close>)
    with p q show ?thesis by (simp add: sint_neg_iff)
  qed
  ultimately show "sint (cell_seq (mp_cells q ! mp_index q (enqueue_pos q)) - enqueue_pos q) < 0"
    by simp
qed

section \<open>The queue implements the FIFO contracts\<close>

text \<open>Any capacity implements the contract for clients that never overfill; from capacity two on
  the queue implements the whole contract.\<close>

interpretation mpmc: fifo_queue "\<lambda>q v. the (mpmc_push sp q v)" "\<lambda>q. the (mpmc_pop sp q)"
    mpmc_contents mpmc_room mpmc_inv for sp
proof (unfold_locales, goal_cases)
  case (1 q) then show ?case by (simp add: mpmc_inv_def mpmc_room_def)
next
  case (2 q v) then show ?case using mpmc_push_room [of q] by (simp add: mpmc_room_def)
next
  case (3 q) then show ?case by (simp add: mpmc_pop_empty)
next
  case (4 q v vs) then show ?case using mpmc_pop_cons [of q v vs] by simp
qed

interpretation mpmc2: bounded_fifo "\<lambda>q v. the (mpmc_push sp q v)" "\<lambda>q. the (mpmc_pop sp q)"
    mpmc_contents mpmc_room "\<lambda>q. mpmc_inv q \<and> 1 < mpmc_room q" for sp
proof (unfold_locales, goal_cases)
  case (1 q) then show ?case by (simp add: mpmc_inv_def mpmc_room_def)
next
  case (2 q v) then show ?case using mpmc.push_room [of q sp v] by auto
next
  case (3 q) then show ?case by (simp add: mpmc.pop_empty)
next
  case (4 q v vs) then show ?case using mpmc.pop_cons [of q v vs sp] by auto
next
  case (5 q v) then show ?case by (simp add: mpmc_push_full mpmc_room_def)
qed

lemma mpmc_pop_returns:
  assumes "mpmc_inv q"
  obtains r where "mpmc_pop sp q = Some r"
  using mpmc_pop_empty [OF assms] mpmc_pop_cons [OF assms] by (cases "mpmc_contents q") auto

lemma mpmc_push_returns:
  assumes "mpmc_inv q" and "1 < mpmc_room q"
  obtains r where "mpmc_push sp q v = Some r"
proof (cases "unat (mpmc_len q) < unat (mp_cap q)")
  case True
  then show ?thesis using mpmc_push_room(1) [OF assms(1)] that by blast
next
  case False
  then have "unat (mpmc_len q) = unat (mp_cap q)" using assms(1) by (simp add: mpmc_inv_def)
  then show ?thesis using mpmc_push_full [OF assms(1)] assms(2) that by (simp add: mpmc_room_def)
qed

section \<open>A queue of capacity one\<close>

definition one_overfull :: "'a \<Rightarrow> 'a mpmc_ring" where
  "one_overfull b = \<lparr>mp_cells = [\<lparr>cell_seq = 2, cell_value = Init b\<rparr>],
     enqueue_pos = 2, dequeue_pos = 0, mp_cap = 1\<rparr>"

lemma one_overfull_pop_diverges: "mpmc_pop_loop sp 0 (one_overfull b) = None"
proof (rule ccontr)
  assume "mpmc_pop_loop sp 0 (one_overfull b) \<noteq> None"
  then obtain r where r: "mpmc_pop_loop sp 0 (one_overfull b) = Some r" by blast
  have "\<not> (0 = (0 :: usize) \<and> one_overfull b = one_overfull b)"
  proof (rule mpmc_pop_loop.raw_induct [where P = "\<lambda>sp pos q r. \<not> (pos = 0 \<and> q = one_overfull b)", OF _ r])
    fix f :: "bool list \<Rightarrow> usize \<Rightarrow> 'a mpmc_ring \<Rightarrow> ('a option \<times> 'a mpmc_ring) option"
    fix sp pos q y
    assume IH: "\<And>sp pos q y. f sp pos q = Some y \<Longrightarrow> \<not> (pos = 0 \<and> q = one_overfull b)"
      and eq: "(let diff = sint (cell_seq (mp_cells q ! mp_index q pos) - (pos + 1)) in
      if diff = 0 then
        if (sp \<noteq> [] \<and> hd sp) \<or> dequeue_pos q \<noteq> pos
        then f (tl sp) (dequeue_pos q) q
        else Some (Some (assume_init_read (cell_value (mp_cells q ! mp_index q pos))), mp_publish_pop q pos)
      else if diff < 0 then Some (None, q)
      else f sp (dequeue_pos q) q) = Some y"
    show "\<not> (pos = 0 \<and> q = one_overfull b)"
    proof
      assume "pos = 0 \<and> q = one_overfull b"
      with eq have "f sp 0 (one_overfull b) = Some y"
        by (simp add: one_overfull_def mp_index_def)
      with IH show False by blast
    qed
  qed
  then show False by simp
qed

section \<open>Properties\<close>

text \<open>An MPMC queue of capacity two or more, used by one thread at a time, is a bounded FIFO:
  whatever compare-exchange attempts fail spuriously, push and pop return, with the results and
  the contents of the specification queue, and keep the invariant. The positions may wrap.\<close>

theorem mpmc_refines_fifo:
  assumes "mpmc_inv q" and "1 < unat (mp_cap q)"
  shows "(\<exists>q1. mpmc_push sp q v = Some (fst (fifo_push (unat (mp_cap q)) (mpmc_contents q) v), q1) \<and>
      mpmc_contents q1 = snd (fifo_push (unat (mp_cap q)) (mpmc_contents q) v) \<and> mpmc_inv q1) \<and>
    (\<exists>q2. mpmc_pop sp q = Some (fst (fifo_pop (mpmc_contents q)), q2) \<and>
      mpmc_contents q2 = snd (fifo_pop (mpmc_contents q)) \<and> mpmc_inv q2)"
proof
  have inv: "mpmc_inv q \<and> 1 < mpmc_room q" using assms by (simp add: mpmc_room_def)
  obtain a q1 where "mpmc_push sp q v = Some (a, q1)"
    using mpmc_push_returns [of q sp v] inv by (metis surj_pair)
  then show "\<exists>q1. mpmc_push sp q v = Some (fst (fifo_push (unat (mp_cap q)) (mpmc_contents q) v), q1) \<and>
      mpmc_contents q1 = snd (fifo_push (unat (mp_cap q)) (mpmc_contents q) v) \<and> mpmc_inv q1"
    using mpmc2.push_result [OF inv, of sp v] by (auto simp: fifo_push_def mpmc_room_def)
  obtain b q2 where "mpmc_pop sp q = Some (b, q2)"
    using mpmc_pop_returns [of q sp] inv by (metis surj_pair)
  then show "\<exists>q2. mpmc_pop sp q = Some (fst (fifo_pop (mpmc_contents q)), q2) \<and>
      mpmc_contents q2 = snd (fifo_pop (mpmc_contents q)) \<and> mpmc_inv q2"
    using mpmc.pop_result [OF conjunct1 [OF inv], of sp] by (cases "mpmc_contents q") auto
qed

theorem mpmc_refines_fifo_witness:
  "mpmc_inv (mpmc_with_capacity 2 :: nat mpmc_ring) \<and>
    (\<exists>q1. mpmc_push [True] (mpmc_with_capacity 2) (7 :: nat) = Some (Inr (), q1) \<and>
      mpmc_contents q1 = [7])"
proof -
  let ?q = "mpmc_with_capacity 2 :: nat mpmc_ring"
  have c: "unat (2 :: usize) \<le> 2 ^ 63" by simp
  have inv: "mpmc_inv ?q" by (rule mpmc_with_capacity_inv [OF c])
  have empty: "mpmc_contents ?q = []" by (rule mpmc_with_capacity_inv [OF c])
  have "unat (2 :: usize) \<le> mpmc_room ?q" by (rule mpmc_with_capacity_inv [OF c])
  then have room: "2 \<le> unat (mp_cap ?q)" by (simp add: mpmc_room_def)
  then have "1 < unat (mp_cap ?q)" by linarith
  from mpmc_refines_fifo [OF inv this, of "[True]" 7] inv empty room show ?thesis
    by (auto simp: fifo_push_def)
qed

text \<open>Dropping a queue ends and drops exactly the values it holds, in order.\<close>

lemma mpmc_drop_all: "mpmc_inv q \<Longrightarrow> mpmc_drop q = Some (mpmc_contents q)"
proof (induction "mpmc_contents q" arbitrary: q)
  case Nil
  then show ?case by (subst mpmc_drop.simps) (simp add: mpmc_pop_empty)
next
  case (Cons v vs)
  note p = mpmc_pop_cons [OF Cons.prems Cons.hyps(2) [symmetric]]
  have "mpmc_drop (mp_publish_pop q (dequeue_pos q)) = Some vs" using Cons.hyps(1) [OF p(3) [symmetric] p(2)] p(3) by simp
  then show ?case by (subst mpmc_drop.simps) (simp add: p(1) Cons.hyps(2) [symmetric])
qed

text \<open>At capacity one the queue is not a bounded FIFO: a second push into the full queue is
  accepted and overwrites the pending value, and every later pop spins forever.\<close>

theorem mpmc_capacity_one_loses:
  fixes a b :: 'a
  shows "\<exists>q1. mpmc_push [] (mpmc_with_capacity 1) a = Some (Inr (), q1) \<and>
    mpmc_push [] q1 b = Some (Inr (), one_overfull b) \<and>
    (\<forall>sp. mpmc_pop sp (one_overfull b) = None)"
proof -
  let ?q0 = "\<lparr>mp_cells = [\<lparr>cell_seq = 0, cell_value = Uninit :: 'a maybe_uninit\<rparr>],
    enqueue_pos = 0, dequeue_pos = 0, mp_cap = 1\<rparr>"
  let ?q1 = "\<lparr>mp_cells = [\<lparr>cell_seq = 1, cell_value = Init a\<rparr>], enqueue_pos = 1, dequeue_pos = 0, mp_cap = 1\<rparr>"
  have "mpmc_with_capacity 1 = ?q0"
    by (simp add: mpmc_with_capacity_def next_power_of_two_def Let_def)
  moreover have "mpmc_push [] ?q0 a = Some (Inr (), ?q1)"
    by (subst mpmc_push_ok) (simp_all add: mp_index_def mp_publish_push_def)
  moreover have "mpmc_push [] ?q1 b = Some (Inr (), one_overfull b)"
    by (subst mpmc_push_ok) (simp_all add: mp_index_def mp_publish_push_def one_overfull_def)
  moreover have "mpmc_pop sp (one_overfull b) = None" for sp
    using one_overfull_pop_diverges [of sp b] by (simp add: mpmc_pop_def one_overfull_def)
  ultimately show ?thesis by (intro exI [of _ ?q1]) simp
qed

end
