(* ===== verification/Mpmc_Concurrent.thy ===== *)
theory Mpmc_Concurrent
  imports Mpmc_Ring "HOL-Library.Multiset"
begin

text \<open>
  The MPMC queue (mpmc.rs) under concurrency: any number of threads, interleaved at the granularity of
  the loads, stores and compare-exchanges of the code, in every order and with spurious failures of the
  weak exchange. The interleaving is sequentially consistent, which the Acquire and Release accesses to the
  cells' sequence numbers give for this protocol. The positions are compared as 64-bit words; an abstract
  machine over unbounded positions carries the invariant, and the words simulate it as long as no
  position wraps.

  The lemmas show that for a capacity of at least two the pops take the values in the order the
  pushes claimed their positions, each once, and that no two threads touch a cell at the same time.
\<close>

section \<open>Threads\<close>

text \<open>Where a thread stands in \<open>push\<close> or \<open>pop\<close>: the position loaded; the sequence number found equal, before the
  compare-exchange; a stale position, to be loaded again; the position claimed, before the value is
  written or read; before the sequence number is published.\<close>

datatype ('a, 'p) mp_pc = MpIdle | PushLoaded 'a 'p | PushClaim 'a 'p | PushReload 'a | PushWrite 'a 'p | PushPublish 'p
  | PopLoaded 'p | PopClaim 'p | PopReload | PopRead 'p | PopRelease 'p 'a

text \<open>Beside the ring and the threads, two records of the run: the values in the order their positions were
  claimed, and the positions and values of the pops that have returned.\<close>

record 'a mp_threads =
  mt_ring :: "'a mpmc_ring"
  mt_pc :: "nat \<Rightarrow> ('a, usize) mp_pc"
  mt_hist :: "'a list"
  mt_out :: "(usize \<times> 'a) list"

definition mt_init :: "usize \<Rightarrow> 'a mp_threads" where
  "mt_init capacity = \<lparr>mt_ring = mpmc_with_capacity capacity, mt_pc = (\<lambda>_. MpIdle), mt_hist = [], mt_out = []\<rparr>"

definition goto :: "nat \<Rightarrow> ('a, usize) mp_pc \<Rightarrow> 'a mp_threads \<Rightarrow> 'a mp_threads" where
  "goto t c s = s\<lparr>mt_pc := (mt_pc s)(t := c)\<rparr>"

definition cell_at :: "'a mpmc_ring \<Rightarrow> usize \<Rightarrow> 'a mpmc_cell" where
  "cell_at q pos = mp_cells q ! mp_index q pos"

definition set_cell :: "usize \<Rightarrow> 'a mpmc_cell \<Rightarrow> 'a mp_threads \<Rightarrow> 'a mp_threads" where
  "set_cell pos c s = s\<lparr>mt_ring := (mt_ring s)\<lparr>mp_cells := (mp_cells (mt_ring s))[mp_index (mt_ring s) pos := c]\<rparr>\<rparr>"

text \<open>The next atomic step of thread \<open>t\<close>; \<open>sp\<close> makes a weak exchange fail.\<close>

definition mp_advance :: "bool \<Rightarrow> nat \<Rightarrow> 'a mp_threads \<Rightarrow> 'a mp_threads" where
  "mp_advance sp t s =
     (let q = mt_ring s in
      case mt_pc s t of
        MpIdle \<Rightarrow> s
      | PushLoaded v pos \<Rightarrow>
          (let diff = sint (cell_seq (cell_at q pos) - pos)
           in goto t (if diff = 0 then PushClaim v pos else if diff < 0 then MpIdle else PushReload v) s)
      | PushReload v \<Rightarrow> goto t (PushLoaded v (enqueue_pos q)) s
      | PushClaim v pos \<Rightarrow>
          if sp \<or> enqueue_pos q \<noteq> pos then goto t (PushLoaded v (enqueue_pos q)) s
          else goto t (PushWrite v pos) (s\<lparr>mt_ring := q\<lparr>enqueue_pos := pos + 1\<rparr>, mt_hist := mt_hist s @ [v]\<rparr>)
      | PushWrite v pos \<Rightarrow> goto t (PushPublish pos) (set_cell pos ((cell_at q pos)\<lparr>cell_value := Init v\<rparr>) s)
      | PushPublish pos \<Rightarrow> goto t MpIdle (set_cell pos ((cell_at q pos)\<lparr>cell_seq := pos + 1\<rparr>) s)
      | PopLoaded pos \<Rightarrow>
          (let diff = sint (cell_seq (cell_at q pos) - (pos + 1))
           in goto t (if diff = 0 then PopClaim pos else if diff < 0 then MpIdle else PopReload) s)
      | PopReload \<Rightarrow> goto t (PopLoaded (dequeue_pos q)) s
      | PopClaim pos \<Rightarrow>
          if sp \<or> dequeue_pos q \<noteq> pos then goto t (PopLoaded (dequeue_pos q)) s
          else goto t (PopRead pos) (s\<lparr>mt_ring := q\<lparr>dequeue_pos := pos + 1\<rparr>\<rparr>)
      | PopRead pos \<Rightarrow>
          goto t (PopRelease pos (assume_init_read (cell_value (cell_at q pos)))) (set_cell pos ((cell_at q pos)\<lparr>cell_value := Uninit\<rparr>) s)
      | PopRelease pos v \<Rightarrow>
          goto t MpIdle (set_cell pos ((cell_at q pos)\<lparr>cell_seq := pos + mp_cap q\<rparr>) s)\<lparr>mt_out := mt_out s @ [(pos, v)]\<rparr>)"

datatype 'a mp_act = StartPush nat 'a | StartPop nat | Advance bool nat

fun mp_do :: "'a mp_act \<Rightarrow> 'a mp_threads \<Rightarrow> 'a mp_threads" where
  "mp_do (StartPush t v) s = (if mt_pc s t = MpIdle then goto t (PushLoaded v (enqueue_pos (mt_ring s))) s else s)"
| "mp_do (StartPop t) s = (if mt_pc s t = MpIdle then goto t (PopLoaded (dequeue_pos (mt_ring s))) s else s)"
| "mp_do (Advance sp t) s = mp_advance sp t s"

section \<open>The abstract machine\<close>

record 'a amp =
  a_seq :: "nat \<Rightarrow> nat"
  a_val :: "nat \<Rightarrow> 'a maybe_uninit"
  a_deq :: nat
  a_pc :: "nat \<Rightarrow> ('a, nat) mp_pc"
  a_hist :: "'a list"
  a_out :: "(nat \<times> 'a) list"

abbreviation a_goto :: "nat \<Rightarrow> ('a, nat) mp_pc \<Rightarrow> 'a amp \<Rightarrow> 'a amp" where
  "a_goto t c a \<equiv> a\<lparr>a_pc := (a_pc a)(t := c)\<rparr>"

abbreviation a_enq :: "'a amp \<Rightarrow> nat" where
  "a_enq a \<equiv> length (a_hist a)"

text \<open>A thread that finds a sequence number different from what it expects may give up or try again.\<close>

inductive amp_step :: "nat \<Rightarrow> 'a amp \<Rightarrow> 'a amp \<Rightarrow> bool" for C where
  stay: "amp_step C a a"
| push_load: "a_pc a t \<in> {MpIdle, PushReload v, PushClaim v p} \<Longrightarrow> amp_step C a (a_goto t (PushLoaded v (a_enq a)) a)"
| push_see: "a_pc a t = PushLoaded v p \<Longrightarrow> a_seq a (p mod C) = p \<Longrightarrow> amp_step C a (a_goto t (PushClaim v p) a)"
| push_miss: "a_pc a t = PushLoaded v p \<Longrightarrow> c \<in> {MpIdle, PushReload v} \<Longrightarrow> amp_step C a (a_goto t c a)"
| push_claim: "a_pc a t = PushClaim v p \<Longrightarrow> a_enq a = p \<Longrightarrow> amp_step C a (a_goto t (PushWrite v p) (a\<lparr>a_hist := a_hist a @ [v]\<rparr>))"
| push_write: "a_pc a t = PushWrite v p \<Longrightarrow> amp_step C a (a_goto t (PushPublish p) (a\<lparr>a_val := (a_val a)(p mod C := Init v)\<rparr>))"
| push_publish: "a_pc a t = PushPublish p \<Longrightarrow> amp_step C a (a_goto t MpIdle (a\<lparr>a_seq := (a_seq a)(p mod C := p + 1)\<rparr>))"
| pop_load: "a_pc a t \<in> {MpIdle, PopReload, PopClaim p} \<Longrightarrow> amp_step C a (a_goto t (PopLoaded (a_deq a)) a)"
| pop_see: "a_pc a t = PopLoaded p \<Longrightarrow> a_seq a (p mod C) = p + 1 \<Longrightarrow> amp_step C a (a_goto t (PopClaim p) a)"
| pop_miss: "a_pc a t = PopLoaded p \<Longrightarrow> c \<in> {MpIdle, PopReload} \<Longrightarrow> amp_step C a (a_goto t c a)"
| pop_claim: "a_pc a t = PopClaim p \<Longrightarrow> a_deq a = p \<Longrightarrow> amp_step C a (a_goto t (PopRead p) (a\<lparr>a_deq := p + 1\<rparr>))"
| pop_read: "a_pc a t = PopRead p \<Longrightarrow>
    amp_step C a (a_goto t (PopRelease p (assume_init_read (a_val a (p mod C)))) (a\<lparr>a_val := (a_val a)(p mod C := Uninit)\<rparr>))"
| pop_release: "a_pc a t = PopRelease p v \<Longrightarrow>
    amp_step C a (a_goto t MpIdle (a\<lparr>a_seq := (a_seq a)(p mod C := p + C), a_out := a_out a @ [(p, v)]\<rparr>))"

section \<open>The invariant\<close>

fun write_at_pos :: "('a, 'p) mp_pc \<Rightarrow> 'p \<Rightarrow> bool" where
  "write_at_pos (PushWrite v q) p \<longleftrightarrow> q = p"
| "write_at_pos (PushPublish q) p \<longleftrightarrow> q = p"
| "write_at_pos _ p \<longleftrightarrow> False"

fun read_at_pos :: "('a, 'p) mp_pc \<Rightarrow> 'p \<Rightarrow> bool" where
  "read_at_pos (PopRead q) p \<longleftrightarrow> q = p"
| "read_at_pos (PopRelease q v) p \<longleftrightarrow> q = p"
| "read_at_pos _ p \<longleftrightarrow> False"

abbreviation writes :: "'a amp \<Rightarrow> nat \<Rightarrow> nat \<Rightarrow> bool" where
  "writes a t p \<equiv> write_at_pos (a_pc a t) p"

abbreviation reads :: "'a amp \<Rightarrow> nat \<Rightarrow> nat \<Rightarrow> bool" where
  "reads a t p \<equiv> read_at_pos (a_pc a t) p"

definition cell_ok :: "nat \<Rightarrow> 'a amp \<Rightarrow> nat \<Rightarrow> bool" where
  "cell_ok C a p \<longleftrightarrow>
     (if p < a_enq a then (a_seq a (p mod C) = p + 1 \<and> a_val a (p mod C) = Init (a_hist a ! p)) \<or> (a_seq a (p mod C) = p \<and> (\<exists>t. writes a t p))
      else a_seq a (p mod C) = p \<or> (C \<le> p \<and> a_seq a (p mod C) = p - C + 1 \<and> (\<exists>t. reads a t (p - C))))"

fun thread_ok :: "nat \<Rightarrow> 'a amp \<Rightarrow> ('a, nat) mp_pc \<Rightarrow> bool" where
  "thread_ok C a (PushLoaded v p) \<longleftrightarrow> p \<le> a_enq a"
| "thread_ok C a (PushClaim v p) \<longleftrightarrow> p \<le> a_enq a \<and> (p = a_enq a \<longrightarrow> p < a_deq a + C \<and> a_seq a (p mod C) = p)"
| "thread_ok C a (PushWrite v p) \<longleftrightarrow> a_deq a \<le> p \<and> p < a_enq a \<and> a_seq a (p mod C) = p \<and> a_hist a ! p = v"
| "thread_ok C a (PushPublish p) \<longleftrightarrow> a_deq a \<le> p \<and> p < a_enq a \<and> a_seq a (p mod C) = p \<and> a_val a (p mod C) = Init (a_hist a ! p)"
| "thread_ok C a (PopLoaded p) \<longleftrightarrow> p \<le> a_deq a"
| "thread_ok C a (PopClaim p) \<longleftrightarrow> p \<le> a_deq a \<and> (p = a_deq a \<longrightarrow> p < a_enq a \<and> a_seq a (p mod C) = p + 1)"
| "thread_ok C a (PopRead p) \<longleftrightarrow> p < a_deq a \<and> a_enq a \<le> p + C \<and> a_seq a (p mod C) = p + 1 \<and> a_val a (p mod C) = Init (a_hist a ! p)"
| "thread_ok C a (PopRelease p v) \<longleftrightarrow> p < a_deq a \<and> a_enq a \<le> p + C \<and> a_seq a (p mod C) = p + 1 \<and> v = a_hist a ! p"
| "thread_ok C a _ \<longleftrightarrow> True"

definition out_ok :: "'a amp \<Rightarrow> bool" where
  "out_ok a \<longleftrightarrow> (\<forall>(p, v) \<in> set (a_out a). p < a_deq a \<and> v = a_hist a ! p \<and> (\<forall>t. \<not> reads a t p)) \<and> distinct (map fst (a_out a)) \<and>
     (\<forall>p < a_deq a. p \<in> fst ` set (a_out a) \<or> (\<exists>t. reads a t p))"

definition amp_inv :: "nat \<Rightarrow> 'a amp \<Rightarrow> bool" where
  "amp_inv C a \<longleftrightarrow> a_deq a \<le> a_enq a \<and> a_enq a \<le> a_deq a + C \<and> (\<forall>p. a_deq a \<le> p \<and> p < a_deq a + C \<longrightarrow> cell_ok C a p) \<and>
     (\<forall>t. thread_ok C a (a_pc a t)) \<and> (\<forall>t t' p. writes a t p \<longrightarrow> writes a t' p \<longrightarrow> t = t') \<and> (\<forall>t t' p. reads a t p \<longrightarrow> reads a t' p \<longrightarrow> t = t') \<and> out_ok a"

lemma mod_window: "p mod C = p' mod C \<Longrightarrow> p \<le> p' \<Longrightarrow> p' < p + C \<Longrightarrow> p = (p' :: nat)"
  by (metis add_diff_cancel_left' le_add_diff_inverse mod_eq_dvd_iff_nat nat_add_left_cancel_less nat_dvd_not_less neq0_conv add.right_neutral)

lemma mod_window2:
  fixes p p' :: nat
  assumes "p mod C = p' mod C" and "p < p' + C" and "p' < p + C"
  shows "p = p'"
  using assms mod_window [of p C p'] mod_window [of p' C p] by (cases "p \<le> p'") auto

text \<open>Steps that only move a thread which holds no cell.\<close>

fun holds :: "('a, 'p) mp_pc \<Rightarrow> bool" where
  "holds (PushWrite v p) = True"
| "holds (PushPublish p) = True"
| "holds (PopRead p) = True"
| "holds (PopRelease p v) = True"
| "holds _ = False"

lemma thread_ok_pc [simp]: "thread_ok C (a\<lparr>a_pc := f\<rparr>) c = thread_ok C a c"
  by (cases c) auto

lemma not_holds [simp]: "\<not> holds c \<Longrightarrow> \<not> write_at_pos c p" "\<not> holds c \<Longrightarrow> \<not> read_at_pos c p"
  by (cases c; simp)+

lemma goto_inv:
  assumes "amp_inv C a" and "\<not> holds (a_pc a t)" and "\<not> holds c" and "thread_ok C a c"
  shows "amp_inv C (a_goto t c a)"
proof -
  have same: "writes (a_goto t c a) u p = writes a u p" "reads (a_goto t c a) u p = reads a u p" for u p
    using assms(2,3) by simp_all
  have "cell_ok C (a_goto t c a) = cell_ok C a" "out_ok (a_goto t c a) = out_ok a"
    unfolding cell_ok_def out_ok_def same by (simp_all add: fun_eq_iff)
  then show ?thesis using assms(1,4) unfolding amp_inv_def same by simp
qed

lemma invD:
  assumes "amp_inv C a"
  shows "a_deq a \<le> a_enq a" and "a_enq a \<le> a_deq a + C" and "thread_ok C a (a_pc a t)"
    and "a_deq a \<le> p \<Longrightarrow> p < a_deq a + C \<Longrightarrow> cell_ok C a p"
    and "writes a t p \<Longrightarrow> writes a t' p \<Longrightarrow> t = t'" and "reads a t p \<Longrightarrow> reads a t' p \<Longrightarrow> t = t'" and "out_ok a"
  using assms by (auto simp: amp_inv_def)

lemma amp_invI:
  assumes "\<And>t t' p. writes a t p \<Longrightarrow> writes a t' p \<Longrightarrow> t = t'" and "\<And>t t' p. reads a t p \<Longrightarrow> reads a t' p \<Longrightarrow> t = t'"
    and "\<And>t. thread_ok C a (a_pc a t)" and "\<And>p. a_deq a \<le> p \<Longrightarrow> p < a_deq a + C \<Longrightarrow> cell_ok C a p"
    and "out_ok a" and "a_deq a \<le> a_enq a" and "a_enq a \<le> a_deq a + C"
  shows "amp_inv C a"
  unfolding amp_inv_def using assms by blast

lemma see_push:
  assumes "amp_inv C a" and "2 \<le> C" and "a_pc a t = PushLoaded v p" and "a_seq a (p mod C) = p"
  shows "thread_ok C a (PushClaim v p)"
proof -
  have p: "p \<le> a_enq a" using invD(3) [OF assms(1), of t] assms(3) by simp
  moreover have "p < a_deq a + C" if "p = a_enq a"
  proof (rule ccontr)
    assume "\<not> p < a_deq a + C"
    then have e: "p = a_deq a + C" using invD(2) [OF assms(1)] that by simp
    then have "a_deq a < a_enq a" "p mod C = a_deq a mod C" using that assms(2) by simp_all
    moreover have "cell_ok C a (a_deq a)" using invD(4) [OF assms(1), of "a_deq a"] assms(2) by simp
    ultimately have "a_seq a (p mod C) \<in> {a_deq a, a_deq a + 1}" by (auto simp: cell_ok_def)
    then show False using assms(2,4) e by auto
  qed
  ultimately show ?thesis using assms(4) by auto
qed

lemma see_pop:
  assumes "amp_inv C a" and "2 \<le> C" and "a_pc a t = PopLoaded p" and "a_seq a (p mod C) = p + 1"
  shows "thread_ok C a (PopClaim p)"
proof -
  have p: "p \<le> a_deq a" using invD(3) [OF assms(1), of t] assms(3) by simp
  moreover have "p < a_enq a" if "p = a_deq a"
  proof (rule ccontr)
    assume "\<not> p < a_enq a"
    moreover have "cell_ok C a p" using invD(4) [OF assms(1), of p] assms(2) that by simp
    ultimately show False using assms(2,4) by (auto simp: cell_ok_def)
  qed
  ultimately show ?thesis using assms(4) by auto
qed

text \<open>Positions of holders lie within one window of the capacity, so that different positions are
  different cells.\<close>

lemma holder_window:
  assumes "amp_inv C a"
  shows "writes a t p \<Longrightarrow> a_deq a \<le> p \<and> p < a_enq a \<and> a_seq a (p mod C) = p"
    and "reads a t p \<Longrightarrow> p < a_deq a \<and> a_enq a \<le> p + C \<and> a_seq a (p mod C) = p + 1"
  using invD(3) [OF assms, of t] by (cases "a_pc a t"; simp)+

lemma out_okD:
  assumes "out_ok a"
  shows "(p, v) \<in> set (a_out a) \<Longrightarrow> p < a_deq a \<and> v = a_hist a ! p" and "p \<in> fst ` set (a_out a) \<Longrightarrow> \<not> reads a t p"
    and "distinct (map fst (a_out a))" and "p < a_deq a \<Longrightarrow> p \<in> fst ` set (a_out a) \<or> (\<exists>t. reads a t p)"
  using assms by (auto simp: out_ok_def)

lemma out_okI:
  assumes "\<And>p v. (p, v) \<in> set (a_out a) \<Longrightarrow> p < a_deq a \<and> v = a_hist a ! p"
    and "\<And>p t. p \<in> fst ` set (a_out a) \<Longrightarrow> \<not> reads a t p"
    and "distinct (map fst (a_out a))" and "\<And>p. p < a_deq a \<Longrightarrow> p \<in> fst ` set (a_out a) \<or> (\<exists>t. reads a t p)"
  shows "out_ok a"
  unfolding out_ok_def
proof (intro conjI ballI)
  fix e
  assume e: "e \<in> set (a_out a)"
  moreover have "fst e \<in> fst ` set (a_out a)" using e by simp
  ultimately show "case e of (p, v) \<Rightarrow> p < a_deq a \<and> v = a_hist a ! p \<and> (\<forall>t. \<not> reads a t p)"
    using assms(1) [of "fst e" "snd e"] assms(2) [of "fst e"] by (simp add: split_beta)
qed (use assms(3,4) in auto)

lemma cell_ok_mono:
  assumes "cell_ok C a x" and "a_seq b (x mod C) = a_seq a (x mod C)" and "a_val b (x mod C) = a_val a (x mod C)" and "x < a_enq b \<longleftrightarrow> x < a_enq a"
    and "x < a_enq a \<Longrightarrow> a_hist b ! x = a_hist a ! x" and "\<And>u. writes a u x \<Longrightarrow> writes b u x" and "\<And>u. C \<le> x \<Longrightarrow> reads a u (x - C) \<Longrightarrow> reads b u (x - C)"
  shows "cell_ok C b x"
  using assms unfolding cell_ok_def by (auto split: if_splits)

lemma claim_push_inv:
  assumes "amp_inv C a" and "2 \<le> C" and "a_pc a t = PushClaim v p" and "a_enq a = p"
  shows "amp_inv C (a_goto t (PushWrite v p) (a\<lparr>a_hist := a_hist a @ [v]\<rparr>))" (is "amp_inv C ?a")
proof -
  note I = invD [OF assms(1)] and W = holder_window [OF assms(1)]
  have c: "p < a_deq a + C" "a_seq a (p mod C) = p" using I(3) [of t] assms(3,4) by simp_all
  have nh: "\<not> writes a t x" "\<not> reads a t x" for x using assms(3) by simp_all
  have room: "p < r + C" if "reads a u r" for u r
  proof (rule ccontr)
    assume "\<not> p < r + C"
    then have "p = r + C" using W(2) [OF that] assms(4) by simp
    then show False using W(2) [OF that] c(2) assms(2) by simp
  qed
  have thr: "thread_ok C ?a (a_pc a u)" if "u \<noteq> t" for u
    using I(1) I(3) [of u] room [of u] assms(4) by (cases "a_pc a u") (auto simp: nth_append)
  have "thread_ok C ?a (PushWrite v p)" using I(1) c assms(4) by (auto simp: nth_append)
  then have T: "thread_ok C ?a (a_pc ?a u)" for u using thr by simp
  have cells: "cell_ok C ?a x" if "a_deq a \<le> x" "x < a_deq a + C" for x
  proof (cases "x = p")
    case True
    then have "writes ?a t x" by simp
    then have "\<exists>u. writes ?a u x" by blast
    then show ?thesis using True c(2) assms(4) by (simp add: cell_ok_def)
  next
    case False
    show ?thesis by (rule cell_ok_mono [OF I(4) [OF that]]) (use False nh assms(4) in \<open>auto simp: nth_append\<close>)
  qed
  have rd: "reads ?a u x = reads a u x" for u x using nh by auto
  have outs: "out_ok ?a" using I(1,7) unfolding out_ok_def rd by (auto simp: nth_append)
  have wr: "writes ?a u x \<longleftrightarrow> writes a u x \<or> u = t \<and> x = p" for u x using nh by auto
  have nw: "\<not> writes a u p" for u using W(1) [of u p] assms(4) by auto
  have wu: "u = u'" if "writes ?a u x" "writes ?a u' x" for u u' x
    using that I(5) [of u x u'] nw [of u] nw [of u'] unfolding wr by auto
  have ru: "u = u'" if "reads ?a u x" "reads ?a u' x" for u u' x
    using that I(6) [of u x u'] unfolding rd by auto
  show ?thesis by (rule amp_invI [OF wu ru T]) (use I(1) c(1) assms(4) cells outs in simp_all)
qed

lemma claim_pop_inv:
  assumes "amp_inv C a" and "2 \<le> C" and "a_pc a t = PopClaim p" and "a_deq a = p"
  shows "amp_inv C (a_goto t (PopRead p) (a\<lparr>a_deq := p + 1\<rparr>))" (is "amp_inv C ?a")
proof -
  note I = invD [OF assms(1)] and W = holder_window [OF assms(1)]
  have c: "p < a_enq a" "a_seq a (p mod C) = p + 1" using I(3) [of t] assms(3,4) by simp_all
  have nh: "\<not> writes a t x" "\<not> reads a t x" for x using assms(3) by simp_all
  have "cell_ok C a p" using I(4) [of p] assms(2,4) by simp
  then have val: "a_val a (p mod C) = Init (a_hist a ! p)" using c by (auto simp: cell_ok_def)
  have nw: "\<not> writes a u p" for u using W(1) [of u p] c(2) by auto
  have thr: "thread_ok C ?a (a_pc a u)" if "u \<noteq> t" for u
    using I(3) [of u] nw [of u] assms(4) by (cases "a_pc a u") (auto simp: le_less)
  have "thread_ok C ?a (PopRead p)" using I(2) c val assms(4) by simp
  then have T: "thread_ok C ?a (a_pc ?a u)" for u using thr by simp
  have cells: "cell_ok C ?a x" if "p + 1 \<le> x" "x < p + 1 + C" for x
  proof (cases "x = p + C")
    case True
    then show ?thesis using c(2) I(2) assms(4) by (auto simp: cell_ok_def)
  next
    case False
    then have "cell_ok C a x" using I(4) [of x] that assms(4) by simp
    then show ?thesis by (rule cell_ok_mono) (use nh in auto)
  qed
  note O = out_okD [OF I(7)]
  have nr: "\<not> reads a u p" for u using W(2) [of u p] assms(4) by auto
  have rd: "reads ?a u x \<longleftrightarrow> reads a u x \<or> u = t \<and> x = p" for u x using nh by auto
  have outs: "out_ok ?a"
  proof (rule out_okI)
    show "\<not> reads ?a u x" if "x \<in> fst ` set (a_out ?a)" for x u
      using that O(1) O(2) [of x u] assms(4) unfolding rd by fastforce
    show "x \<in> fst ` set (a_out ?a) \<or> (\<exists>u. reads ?a u x)" if "x < a_deq ?a" for x
      using O(4) [of x] that assms(4) unfolding rd by (auto simp: less_Suc_eq)
    show "x < a_deq ?a \<and> w = a_hist ?a ! x" if "(x, w) \<in> set (a_out ?a)" for x w
      using O(1) [of x w] that assms(4) by simp
  qed (use O(3) in simp)
  have ru: "u = u'" if "reads ?a u x" "reads ?a u' x" for u u' x
    using that I(6) [of u x u'] nr [of u] nr [of u'] unfolding rd by auto
  have wr: "writes ?a u x = writes a u x" for u x using nh by auto
  have wu: "u = u'" if "writes ?a u x" "writes ?a u' x" for u u' x
    using that I(5) [of u x u'] unfolding wr by auto
  show ?thesis by (rule amp_invI [OF wu ru T]) (use I(2) c(1) assms(4) cells outs in simp_all)
qed

text \<open>The step of a thread that holds a cell leaves every other cell, and so every other holder, alone.\<close>

lemma write_inv:
  assumes "amp_inv C a" and "a_pc a t = PushWrite v p"
  shows "amp_inv C (a_goto t (PushPublish p) (a\<lparr>a_val := (a_val a)(p mod C := Init v)\<rparr>))" (is "amp_inv C ?a")
proof -
  note I = invD [OF assms(1)] and W = holder_window [OF assms(1)]
  have c: "a_deq a \<le> p" "p < a_enq a" "a_seq a (p mod C) = p" "a_hist a ! p = v" using I(3) [of t] assms(2) by simp_all
  have same: "writes ?a u x = writes a u x" "reads ?a u x = reads a u x" for u x using assms(2) by simp_all
  have near: "x mod C = p mod C \<Longrightarrow> x < p + C \<Longrightarrow> p < x + C \<Longrightarrow> x = p" for x using mod_window2 [of x C p] by simp
  have "thread_ok C ?a (a_pc a u)" if "u \<noteq> t" for u
  proof -
    have "q mod C \<noteq> p mod C" if "writes a u q" for q
      using near [of q] I(2) I(5) [of u q t] W(1) [OF that] c that assms(2) \<open>u \<noteq> t\<close> by auto
    moreover have "q mod C \<noteq> p mod C" if "reads a u q" for q
      using near [of q] W(2) [OF that] c by auto
    ultimately show ?thesis using I(3) [of u] by (cases "a_pc a u") auto
  qed
  then have T: "thread_ok C ?a (a_pc ?a u)" for u using c by simp
  have cells: "cell_ok C ?a x" if "a_deq a \<le> x" "x < a_deq a + C" for x
  proof (cases "x mod C = p mod C")
    case True
    then have "x = p" using near [of x] that c I(2) by simp
    moreover have "\<exists>u. writes ?a u p" using assms(2) same by (metis write_at_pos.simps(1))
    ultimately show ?thesis using c by (simp add: cell_ok_def)
  next
    case False
    show ?thesis by (rule cell_ok_mono [OF I(4) [OF that]]) (use False same in auto)
  qed
  have "out_ok ?a = out_ok a" unfolding out_ok_def same by simp
  then show ?thesis using I(1,2,5,6,7) T cells unfolding amp_inv_def same by simp
qed

lemma cell_publish_inv:
  assumes "amp_inv C a" and "a_pc a t = PushPublish p"
  shows "amp_inv C (a_goto t MpIdle (a\<lparr>a_seq := (a_seq a)(p mod C := p + 1)\<rparr>))" (is "amp_inv C ?a")
proof -
  note I = invD [OF assms(1)] and W = holder_window [OF assms(1)]
  have c: "a_deq a \<le> p" "p < a_enq a" "a_seq a (p mod C) = p" "a_val a (p mod C) = Init (a_hist a ! p)" using I(3) [of t] assms(2) by simp_all
  have wr: "writes ?a u x \<longleftrightarrow> writes a u x \<and> u \<noteq> t" and rd: "reads ?a u x = reads a u x" for u x using assms(2) by simp_all
  have near: "x mod C = p mod C \<Longrightarrow> x < p + C \<Longrightarrow> p < x + C \<Longrightarrow> x = p" for x using mod_window2 [of x C p] by simp
  have "thread_ok C ?a (a_pc a u)" if "u \<noteq> t" for u
  proof -
    have "q mod C \<noteq> p mod C" if "writes a u q" for q
      using near [of q] I(2) I(5) [of u q t] W(1) [OF that] c that assms(2) \<open>u \<noteq> t\<close> by auto
    moreover have "q mod C \<noteq> p mod C" if "reads a u q" for q
      using near [of q] W(2) [OF that] c by auto
    ultimately show ?thesis using I(2) I(3) [of u] near [of "a_enq a"] near [of "a_deq a"] c by (cases "a_pc a u") auto
  qed
  then have T: "thread_ok C ?a (a_pc ?a u)" for u by simp
  have cells: "cell_ok C ?a x" if "a_deq a \<le> x" "x < a_deq a + C" for x
  proof (cases "x mod C = p mod C")
    case True
    then have "x = p" using near [of x] that c I(2) by simp
    then show ?thesis using c by (simp add: cell_ok_def)
  next
    case False
    then have "\<not> writes a t x" using assms(2) by auto
    then show ?thesis by (intro cell_ok_mono [OF I(4) [OF that]]) (use False wr rd in auto)
  qed
  have "out_ok ?a = out_ok a" unfolding out_ok_def rd by simp
  then show ?thesis using I(1,2,5,6,7) T cells unfolding amp_inv_def wr rd by auto
qed

lemma read_inv:
  assumes "amp_inv C a" and "a_pc a t = PopRead p"
  shows "amp_inv C (a_goto t (PopRelease p (assume_init_read (a_val a (p mod C)))) (a\<lparr>a_val := (a_val a)(p mod C := Uninit)\<rparr>))"
    (is "amp_inv C ?a")
proof -
  note I = invD [OF assms(1)] and W = holder_window [OF assms(1)]
  have c: "p < a_deq a" "a_enq a \<le> p + C" "a_seq a (p mod C) = p + 1" "a_val a (p mod C) = Init (a_hist a ! p)"
    using I(3) [of t] assms(2) by simp_all
  have same: "writes ?a u x = writes a u x" "reads ?a u x = reads a u x" for u x using assms(2) by simp_all
  have near: "x mod C = p mod C \<Longrightarrow> x < p + C \<Longrightarrow> p < x + C \<Longrightarrow> x = p" for x using mod_window2 [of x C p] by simp
  have "thread_ok C ?a (a_pc a u)" if "u \<noteq> t" for u
  proof -
    have "q mod C \<noteq> p mod C" if "writes a u q" for q
      using near [of q] W(1) [OF that] c by auto
    moreover have "q mod C \<noteq> p mod C" if "reads a u q" for q
      using near [of q] I(1) I(6) [of u q t] W(2) [OF that] c that assms(2) \<open>u \<noteq> t\<close> by auto
    ultimately show ?thesis using I(3) [of u] by (cases "a_pc a u") auto
  qed
  then have T: "thread_ok C ?a (a_pc ?a u)" for u using c by simp
  have cells: "cell_ok C ?a x" if "a_deq a \<le> x" "x < a_deq a + C" for x
  proof (cases "x mod C = p mod C")
    case True
    then have "\<not> x < p + C" using near [of x] that c by auto
    then have "\<not> x < a_enq a" using c by simp
    then show ?thesis using I(4) [OF that] unfolding cell_ok_def same by simp
  next
    case False
    show ?thesis by (rule cell_ok_mono [OF I(4) [OF that]]) (use False same in auto)
  qed
  have "out_ok ?a = out_ok a" unfolding out_ok_def same by simp
  then show ?thesis using I(1,2,5,6,7) T cells unfolding amp_inv_def same by simp
qed

lemma release_inv:
  assumes "amp_inv C a" and "a_pc a t = PopRelease p v"
  shows "amp_inv C (a_goto t MpIdle (a\<lparr>a_seq := (a_seq a)(p mod C := p + C), a_out := a_out a @ [(p, v)]\<rparr>))" (is "amp_inv C ?a")
proof -
  note I = invD [OF assms(1)] and W = holder_window [OF assms(1)]
  have c: "p < a_deq a" "a_enq a \<le> p + C" "a_seq a (p mod C) = p + 1" "v = a_hist a ! p" using I(3) [of t] assms(2) by simp_all
  have wr: "writes ?a u x = writes a u x" and rd: "reads ?a u x \<longleftrightarrow> reads a u x \<and> u \<noteq> t" for u x using assms(2) by simp_all
  have near: "x mod C = p mod C \<Longrightarrow> x < p + C \<Longrightarrow> p < x + C \<Longrightarrow> x = p" for x using mod_window2 [of x C p] by simp
  have next_lap: "x mod C = p mod C \<Longrightarrow> p < x \<Longrightarrow> x < p + C + C \<Longrightarrow> x = p + C" for x
    using mod_window2 [of x C "p + C"] by (cases "x < p + C") (auto dest: near)
  have "thread_ok C ?a (a_pc a u)" if "u \<noteq> t" for u
  proof -
    have "q mod C \<noteq> p mod C" if "writes a u q" for q
      using near [of q] W(1) [OF that] c by auto
    moreover have "q mod C \<noteq> p mod C" if "reads a u q" for q
      using near [of q] I(1) I(6) [of u q t] W(2) [OF that] c that assms(2) \<open>u \<noteq> t\<close> by auto
    ultimately show ?thesis using I(1) I(3) [of u] next_lap [of "a_enq a"] near [of "a_deq a"] c by (cases "a_pc a u") auto
  qed
  then have T: "thread_ok C ?a (a_pc ?a u)" for u by simp
  have cells: "cell_ok C ?a x" if "a_deq a \<le> x" "x < a_deq a + C" for x
  proof (cases "x mod C = p mod C")
    case True
    then have "x = p + C" using next_lap [of x] that c I(1) by simp
    then show ?thesis using c by (simp add: cell_ok_def)
  next
    case False
    have "\<not> reads a t (x - C)" if "C \<le> x" using False assms(2) that by (auto simp: mod_if)
    then show ?thesis by (intro cell_ok_mono [OF I(4) [OF that]]) (use False wr rd in auto)
  qed
  note O = out_okD [OF I(7)]
  have "out_ok ?a"
  proof (rule out_okI)
    show "\<not> reads ?a u x" if "x \<in> fst ` set (a_out ?a)" for x u
      using that O(2) [of x u] I(6) [of u p t] assms(2) unfolding rd by auto
    show "distinct (map fst (a_out ?a))" using O(2) [of p t] O(3) assms(2) by auto
    show "x \<in> fst ` set (a_out ?a) \<or> (\<exists>u. reads ?a u x)" if "x < a_deq ?a" for x
    proof (cases "x = p")
      case False
      then have "\<not> reads a t x" using assms(2) by simp
      then show ?thesis using O(4) [of x] that unfolding rd by (metis (no_types, lifting) amp.select_convs(3,6) amp.surjective amp.update_convs(1,4,6) image_Un UnI1 set_append)
    qed simp
  qed (use O(1) c in auto)
  then show ?thesis using I(1,2,5,6) T cells unfolding amp_inv_def wr rd by auto
qed

theorem amp_step_inv:
  assumes "amp_step C a b" and "amp_inv C a" and "2 \<le> C"
  shows "amp_inv C b"
  using assms
proof (induction rule: amp_step.induct)
  case (push_load a t v p)
  then show ?case using goto_inv [of C a t "PushLoaded v (a_enq a)"] by auto
next
  case (push_see a t v p)
  then show ?case using goto_inv [of C a t "PushClaim v p"] see_push [of C a t v p] by simp
next
  case (push_miss a t v p c)
  then show ?case using goto_inv [of C a t c] by auto
next
  case (pop_load a t p)
  then show ?case using goto_inv [of C a t "PopLoaded (a_deq a)"] by auto
next
  case (pop_see a t p)
  then show ?case using goto_inv [of C a t "PopClaim p"] see_pop [of C a t p] by simp
next
  case (pop_miss a t p c)
  then show ?case using goto_inv [of C a t c] by auto
next
  case (push_claim a t v p)
  then show ?case by (intro claim_push_inv)
next
  case (pop_claim a t p)
  then show ?case by (intro claim_pop_inv)
next
  case (push_write a t v p)
  then show ?case by (intro write_inv)
next
  case (push_publish a t p)
  then show ?case by (intro cell_publish_inv)
next
  case (pop_read a t p)
  then show ?case by (intro read_inv)
next
  case (pop_release a t p v)
  then show ?case by (intro release_inv)
qed

section \<open>The words simulate the abstract machine\<close>

definition conc :: "nat \<Rightarrow> 'a amp \<Rightarrow> 'a mp_threads" where
  "conc C a =
     \<lparr>mt_ring = \<lparr>mp_cells = map (\<lambda>i. \<lparr>cell_seq = word_of_nat (a_seq a i), cell_value = a_val a i\<rparr>) [0..<C],
                 enqueue_pos = word_of_nat (a_enq a), dequeue_pos = word_of_nat (a_deq a), mp_cap = word_of_nat C\<rparr>,
      mt_pc = (\<lambda>t. map_mp_pc (\<lambda>v. v) word_of_nat (a_pc a t)), mt_hist = a_hist a, mt_out = map (\<lambda>(p, v). (word_of_nat p, v)) (a_out a)\<rparr>"

lemma conc_simps [simp]:
  "mt_hist (conc C a) = a_hist a" "mt_pc (conc C a) t = map_mp_pc (\<lambda>v. v) word_of_nat (a_pc a t)"
  "enqueue_pos (mt_ring (conc C a)) = word_of_nat (a_enq a)" "dequeue_pos (mt_ring (conc C a)) = word_of_nat (a_deq a)"
  "mp_cap (mt_ring (conc C a)) = word_of_nat C" "mt_out (conc C a) = map (\<lambda>(p, v). (word_of_nat p, v)) (a_out a)"
  by (simp_all add: conc_def)

lemma idle_conc [simp]: "map_mp_pc f g c = MpIdle \<longleftrightarrow> c = MpIdle"
  by (cases c) simp_all

lemma goto_conc: "goto t (map_mp_pc (\<lambda>v. v) word_of_nat c) (conc C a) = conc C (a_goto t c a)"
  by (auto simp: goto_def conc_def)

lemma index_conc:
  assumes "C = 2 ^ k" and "k < 64"
  shows "mp_index (mt_ring (conc C a)) (word_of_nat p) = p mod C"
proof -
  have "(2::nat) ^ k dvd 2 ^ 64" using assms(2) by (intro le_imp_power_dvd) simp
  then show ?thesis using unat_and_mask_pow2 [of k "word_of_nat p :: usize"] assms
    by (simp add: mp_index_def unat_of_nat mod_mod_cancel)
qed

lemma cell_conc:
  assumes "C = 2 ^ k" and "k < 64"
  shows "cell_at (mt_ring (conc C a)) (word_of_nat p) = \<lparr>cell_seq = word_of_nat (a_seq a (p mod C)), cell_value = a_val a (p mod C)\<rparr>"
  using index_conc [OF assms, of a p] assms(1) by (simp add: cell_at_def) (simp add: conc_def)

lemma set_cell_conc:
  assumes "C = 2 ^ k" and "k < 64"
  shows "set_cell (word_of_nat p) \<lparr>cell_seq = word_of_nat n, cell_value = v\<rparr> (conc C a) =
    conc C (a\<lparr>a_seq := (a_seq a)(p mod C := n), a_val := (a_val a)(p mod C := v)\<rparr>)"
  using assms(1) unfolding set_cell_def index_conc [OF assms] by (simp add: conc_def) (auto intro!: nth_equalityI simp: nth_list_update)

lemma word_of_nat_eq: "m < 2 ^ 64 \<Longrightarrow> n < 2 ^ 64 \<Longrightarrow> (word_of_nat m = (word_of_nat n :: usize)) = (m = n)"
  by (auto dest!: arg_cong [where f = unat] simp: unat_of_nat)

text \<open>The sequence numbers stay within a lap of the positions claimed.\<close>

lemma seq_bound:
  assumes "amp_inv C a" and "0 < C"
  shows "a_seq a (p mod C) \<le> a_enq a + C"
proof -
  define q where "q = a_deq a + (p + C - a_deq a mod C) mod C"
  have lt: "a_deq a mod C < C" using assms(2) by simp
  have "q mod C = (a_deq a mod C + (p + C - a_deq a mod C)) mod C" unfolding q_def by (simp add: mod_simps)
  also have "\<dots> = p mod C" using lt by simp
  finally have m: "q mod C = p mod C" .
  have w: "a_deq a \<le> q" "q < a_deq a + C" using assms(2) by (simp_all add: q_def)
  then have "cell_ok C a q" by (rule invD(4) [OF assms(1)])
  then show ?thesis using w invD(1) [OF assms(1)] unfolding cell_ok_def m by (auto split: if_splits)
qed

text \<open>A thread looks at a sequence number.\<close>

lemma push_look_sim:
  assumes inv: "amp_inv C a" and C: "C = 2 ^ k" "k < 64" "2 \<le> C" and bound: "a_enq a + C < 2 ^ 64"
    and PushLoaded: "a_pc a t = PushLoaded v p"
  shows "\<exists>b. amp_step C a b \<and> mp_advance sp t (conc C a) = conc C b"
proof -
  note cell = cell_conc [OF C(1,2)] and upd = set_cell_conc [OF C(1,2)]
  have pos: "a_seq a (p mod C) < 2 ^ 64" for p using seq_bound [OF inv, of p] C(3) bound by simp
  have deq: "a_deq a < 2 ^ 64" "a_enq a < 2 ^ 64" using invD(1) [OF inv] bound by simp_all
  have th: "thread_ok C a (a_pc a t)" by (rule invD(3) [OF inv])
  have "p < 2 ^ 64" using th PushLoaded bound by simp
  then have eq: "word_of_nat (a_seq a (p mod C)) = (word_of_nat p :: usize) \<longleftrightarrow> a_seq a (p mod C) = p" using pos [of p] by (intro word_of_nat_eq)
  define c where "c = (if a_seq a (p mod C) = p then PushClaim v p else
    if sint (word_of_nat (a_seq a (p mod C)) - word_of_nat p :: usize) < 0 then MpIdle else PushReload v)"
  have "amp_step C a (a_goto t c a)"
    using amp_step.push_see [OF PushLoaded] amp_step.push_miss [OF PushLoaded, of c C] unfolding c_def by (auto split: if_splits)
  moreover have "mp_advance sp t (conc C a) = goto t (map_mp_pc (\<lambda>v. v) word_of_nat c) (conc C a)"
    using PushLoaded eq by (simp add: mp_advance_def cell c_def signed_eq_0_iff)
  ultimately show ?thesis using goto_conc by metis
qed

lemma pop_look_sim:
  assumes inv: "amp_inv C a" and C: "C = 2 ^ k" "k < 64" "2 \<le> C" and bound: "a_enq a + C < 2 ^ 64"
    and PopLoaded: "a_pc a t = PopLoaded p"
  shows "\<exists>b. amp_step C a b \<and> mp_advance sp t (conc C a) = conc C b"
proof -
  note cell = cell_conc [OF C(1,2)] and upd = set_cell_conc [OF C(1,2)]
  have pos: "a_seq a (p mod C) < 2 ^ 64" for p using seq_bound [OF inv, of p] C(3) bound by simp
  have deq: "a_deq a < 2 ^ 64" "a_enq a < 2 ^ 64" using invD(1) [OF inv] bound by simp_all
  have th: "thread_ok C a (a_pc a t)" by (rule invD(3) [OF inv])
  have p: "p < 2 ^ 64" "p + 1 < 2 ^ 64" using th PopLoaded deq invD(1) [OF inv] bound C(3) by simp_all
  then have "word_of_nat (a_seq a (p mod C)) = (word_of_nat (p + 1) :: usize) \<longleftrightarrow> a_seq a (p mod C) = p + 1" using pos [of p] by (intro word_of_nat_eq)
  then have eq: "word_of_nat (a_seq a (p mod C)) - (word_of_nat p + 1 :: usize) = 0 \<longleftrightarrow> a_seq a (p mod C) = p + 1" by (simp add: add.commute)
  define c :: "('a, nat) mp_pc" where "c = (if a_seq a (p mod C) = p + 1 then PopClaim p else
    if sint (word_of_nat (a_seq a (p mod C)) - (word_of_nat p + 1) :: usize) < 0 then MpIdle else PopReload)"
  have "amp_step C a (a_goto t c a)"
    using amp_step.pop_see [OF PopLoaded] amp_step.pop_miss [OF PopLoaded, of c C] unfolding c_def by (auto split: if_splits)
  moreover have "mp_advance sp t (conc C a) = goto t (map_mp_pc (\<lambda>v. v) word_of_nat c) (conc C a)"
    using PopLoaded eq by (simp add: mp_advance_def cell c_def signed_eq_0_iff)
  ultimately show ?thesis using goto_conc by metis
qed

text \<open>A thread tries to claim its position.\<close>

lemma push_claim_sim:
  assumes inv: "amp_inv C a" and C: "C = 2 ^ k" "k < 64" "2 \<le> C" and bound: "a_enq a + C < 2 ^ 64"
    and PushClaim: "a_pc a t = PushClaim v p"
  shows "\<exists>b. amp_step C a b \<and> mp_advance sp t (conc C a) = conc C b"
proof -
  have pos: "a_seq a (p mod C) < 2 ^ 64" for p using seq_bound [OF inv, of p] C(3) bound by simp
  have deq: "a_deq a < 2 ^ 64" "a_enq a < 2 ^ 64" using invD(1) [OF inv] bound by simp_all
  have th: "thread_ok C a (a_pc a t)" by (rule invD(3) [OF inv])
  have eq: "word_of_nat (a_enq a) = (word_of_nat p :: usize) \<longleftrightarrow> a_enq a = p" using PushClaim th deq by (intro word_of_nat_eq) auto
  show ?thesis
  proof (cases "sp \<or> a_enq a \<noteq> p")
    case True
    then show ?thesis using PushClaim eq amp_step.push_load [of a t v p C] goto_conc [of t "PushLoaded v (a_enq a)" C a]
      by (auto simp: mp_advance_def)
  next
    case False
    then show ?thesis using PushClaim amp_step.push_claim [OF PushClaim]
      by (auto simp: mp_advance_def goto_def conc_def fun_eq_iff intro!: exI)
  qed
qed

lemma pop_claim_sim:
  assumes inv: "amp_inv C a" and C: "C = 2 ^ k" "k < 64" "2 \<le> C" and bound: "a_enq a + C < 2 ^ 64"
    and PopClaim: "a_pc a t = PopClaim p"
  shows "\<exists>b. amp_step C a b \<and> mp_advance sp t (conc C a) = conc C b"
proof -
  have pos: "a_seq a (p mod C) < 2 ^ 64" for p using seq_bound [OF inv, of p] C(3) bound by simp
  have deq: "a_deq a < 2 ^ 64" "a_enq a < 2 ^ 64" using invD(1) [OF inv] bound by simp_all
  have th: "thread_ok C a (a_pc a t)" by (rule invD(3) [OF inv])
  have eq: "word_of_nat (a_deq a) = (word_of_nat p :: usize) \<longleftrightarrow> a_deq a = p" using PopClaim th deq by (intro word_of_nat_eq) auto
  show ?thesis
  proof (cases "sp \<or> a_deq a \<noteq> p")
    case True
    then show ?thesis using PopClaim eq amp_step.pop_load [of a t p C] goto_conc [of t "PopLoaded (a_deq a)" C a]
      by (auto simp: mp_advance_def)
  next
    case False
    then show ?thesis using PopClaim amp_step.pop_claim [OF PopClaim]
      by (auto simp: mp_advance_def goto_def conc_def fun_eq_iff intro!: exI)
  qed
qed

text \<open>A thread works on the cell it has claimed.\<close>

lemma holder_sim:
  assumes C: "C = 2 ^ k" "k < 64" and "holds (a_pc a t)"
  shows "\<exists>b. amp_step C a b \<and> mp_advance sp t (conc C a) = conc C b"
proof -
  note cell = cell_conc [OF C(1,2)] and upd = set_cell_conc [OF C(1,2)]
  show ?thesis
  proof (cases "a_pc a t")
    case (PushWrite v p)
    have "mp_advance sp t (conc C a) = conc C (a_goto t (PushPublish p) (a\<lparr>a_val := (a_val a)(p mod C := Init v)\<rparr>))"
      using PushWrite by (simp add: mp_advance_def cell upd goto_conc [of t "PushPublish p" C, simplified])
    then show ?thesis using amp_step.push_write [OF PushWrite, of C] by auto
  next
    case (PushPublish p)
    have "mp_advance sp t (conc C a) = conc C (a_goto t MpIdle (a\<lparr>a_seq := (a_seq a)(p mod C := p + 1)\<rparr>))"
      using PushPublish by (simp add: mp_advance_def cell upd [of p "p + 1", simplified] add.commute [of "word_of_nat p" 1] goto_conc [of t MpIdle C, simplified])
    then show ?thesis using amp_step.push_publish [OF PushPublish, of C] by auto
  next
    case (PopRead p)
    have "mp_advance sp t (conc C a) =
        conc C (a_goto t (PopRelease p (assume_init_read (a_val a (p mod C)))) (a\<lparr>a_val := (a_val a)(p mod C := Uninit)\<rparr>))"
      using PopRead goto_conc [of t "PopRelease p (assume_init_read (a_val a (p mod C)))" C] by (simp add: mp_advance_def cell upd)
    then show ?thesis using amp_step.pop_read [OF PopRead, of C] by auto
  next
    case (PopRelease p v)
    have "mp_advance sp t (conc C a) = conc C (a_goto t MpIdle (a\<lparr>a_seq := (a_seq a)(p mod C := p + C), a_out := a_out a @ [(p, v)]\<rparr>))"
      using PopRelease by (simp add: mp_advance_def cell upd [of p "p + C", simplified]) (simp add: conc_def goto_def fun_eq_iff)
    then show ?thesis using amp_step.pop_release [OF PopRelease, of C] by auto
  qed (use assms(3) in simp_all)
qed

lemma advance_sim:
  assumes inv: "amp_inv C a" and C: "C = 2 ^ k" "k < 64" "2 \<le> C" and bound: "a_enq a + C < 2 ^ 64"
  shows "\<exists>b. amp_step C a b \<and> mp_advance sp t (conc C a) = conc C b"
proof (cases "a_pc a t")
  case MpIdle
  then show ?thesis using amp_step.stay [of C a] by (auto simp: mp_advance_def)
next
  case (PushReload v)
  then show ?thesis using amp_step.push_load [of a t v 0 C] goto_conc [of t "PushLoaded v (a_enq a)" C a] by (auto simp: mp_advance_def)
next
  case PopReload
  then show ?thesis using amp_step.pop_load [of a t 0 C] goto_conc [of t "PopLoaded (a_deq a)" C a] by (auto simp: mp_advance_def)
qed (use push_look_sim [OF assms] pop_look_sim [OF assms] push_claim_sim [OF assms] pop_claim_sim [OF assms] holder_sim [OF C(1,2), of a t sp] in simp_all)

lemma do_sim:
  assumes "amp_inv C a" and "C = 2 ^ k" "k < 64" "2 \<le> C" and "a_enq a + C < 2 ^ 64"
  shows "\<exists>b. amp_step C a b \<and> mp_do act (conc C a) = conc C b"
proof (cases act)
  case (StartPush t v)
  show ?thesis
  proof (cases "a_pc a t = MpIdle")
    case True
    then show ?thesis using StartPush amp_step.push_load [of a t v 0 C] goto_conc [of t "PushLoaded v (a_enq a)" C a] by auto
  next
    case False
    then show ?thesis using StartPush amp_step.stay [of C a] by auto
  qed
next
  case (StartPop t)
  show ?thesis
  proof (cases "a_pc a t = MpIdle")
    case True
    then show ?thesis using StartPop amp_step.pop_load [of a t 0 C] goto_conc [of t "PopLoaded (a_deq a)" C a] by auto
  next
    case False
    then show ?thesis using StartPop amp_step.stay [of C a] by auto
  qed
next
  case (Advance sp t)
  then show ?thesis using advance_sim [OF assms, of sp t] by simp
qed

definition a_init :: "'a amp" where
  "a_init = \<lparr>a_seq = (\<lambda>i. i), a_val = (\<lambda>_. Uninit), a_deq = 0, a_pc = (\<lambda>_. MpIdle), a_hist = [], a_out = []\<rparr>"

lemma a_init_inv: "amp_inv C a_init"
  by (rule amp_invI) (auto simp: a_init_def cell_ok_def out_ok_def)

lemma capacity_two:
  assumes "2 \<le> unat c" and "unat c \<le> 2 ^ 63"
  obtains k where "k < 64" and "unat (next_power_of_two c) = 2 ^ k" and "2 \<le> (2 :: nat) ^ k" and "mt_init c = conc (2 ^ k) a_init"
proof -
  have m: "max c 1 = c" using assms(1) by (auto simp: max_def word_le_nat_alt)
  obtain k where k: "k \<le> 63" "next_power_of_two c = 2 ^ k" "unat (next_power_of_two c) = 2 ^ k" "unat c \<le> 2 ^ k"
    using next_power_of_two_bounded [OF assms(2)] by auto
  show ?thesis
    by (rule that [of k]) (use k assms(1) m in \<open>auto simp: mpmc_with_capacity_def mt_init_def conc_def a_init_def Let_def\<close>)
qed

lemma hist_grows: "length (mt_hist s) \<le> length (mt_hist (mp_do act s))"
proof (cases act)
  case (Advance sp t)
  then show ?thesis by (simp add: mp_advance_def Let_def goto_def set_cell_def split: mp_pc.split)
qed (simp_all add: goto_def)

text \<open>Every run that has not wrapped its positions is a run of the abstract machine.\<close>

lemma run_sim:
  fixes acts :: "'a mp_act list"
  assumes "2 \<le> unat c" and "unat c \<le> 2 ^ 63"
    and "length (mt_hist (fold mp_do acts (mt_init c))) + unat (next_power_of_two c) < 2 ^ 64"
  obtains a where "amp_inv (unat (next_power_of_two c)) a" and "fold mp_do acts (mt_init c) = conc (unat (next_power_of_two c)) a"
proof -
  obtain k where k: "k < 64" "unat (next_power_of_two c) = 2 ^ k" "2 \<le> (2 :: nat) ^ k" "mt_init c = (conc (2 ^ k) a_init :: 'a mp_threads)"
    by (rule capacity_two [OF assms(1,2)])
  have "\<exists>a. amp_inv (2 ^ k) a \<and> fold mp_do acts (mt_init c) = conc (2 ^ k) a" using assms(3)
  proof (induction acts rule: rev_induct)
    case Nil
    then show ?case using k(4) a_init_inv by auto
  next
    case (snoc act acts)
    let ?s = "fold mp_do acts (mt_init c)"
    have "length (mt_hist ?s) + 2 ^ k < 2 ^ 64" using snoc.prems hist_grows [of ?s act] k(2) by simp
    moreover from this obtain a where a: "amp_inv (2 ^ k) a" "?s = conc (2 ^ k) a" using snoc.IH k(2) by auto
    ultimately obtain b where "amp_step (2 ^ k) a b" "mp_do act ?s = conc (2 ^ k) b"
      using do_sim [OF a(1) HOL.refl k(1,3), of act] by auto
    then show ?case using amp_step_inv [OF _ a(1) k(3)] by auto
  qed
  then show ?thesis using that k(2) by auto
qed

section \<open>What every schedule keeps\<close>

lemma write_at_conc: "write_at_pos (map_mp_pc (\<lambda>v. v) f c) w \<longleftrightarrow> (\<exists>p. w = f p \<and> write_at_pos c p)"
  by (cases c) auto

lemma read_at_conc: "read_at_pos (map_mp_pc (\<lambda>v. v) f c) w \<longleftrightarrow> (\<exists>p. w = f p \<and> read_at_pos c p)"
  by (cases c) auto

text \<open>Two holders never share a cell.\<close>

lemma holders_apart:
  assumes "amp_inv C a" and "t \<noteq> u" and "writes a t p \<or> reads a t p" and "writes a u q \<or> reads a u q"
  shows "p mod C \<noteq> q mod C"
proof
  assume m: "p mod C = q mod C"
  note I = invD [OF assms(1)] and W = holder_window [OF assms(1)]
  have "p < q + C \<and> q < p + C"
    using assms(3,4) W(1) [of t p] W(1) [of u q] W(2) [of t p] W(2) [of u q] I(1,2) by auto
  then have "p = q" using m mod_window2 by blast
  then show False using assms(2,3,4) I(5) [of t p u] I(6) [of t p u] W(1) [of t p] W(1) [of u q] W(2) [of t p] W(2) [of u q] by auto
qed

text \<open>The values of the pops, when every position below the dequeue position has been returned.\<close>

lemma outputs_are_prefix:
  assumes "distinct (map fst out)" and "fst ` set out = {..<n}" and "\<And>p v. (p, v) \<in> set out \<Longrightarrow> v = xs ! p" and "n \<le> length xs"
  shows "mset (map snd out) = mset (take n xs)"
proof -
  have "mset (map fst out) = mset_set {..<n}" using assms(1,2) by (metis mset_set_set set_map)
  also have "\<dots> = mset [0..<n]" by (metis atLeast0LessThan mset_upt)
  finally have pos: "mset (map fst out) = mset [0..<n]" .
  have "map snd out = map (nth xs) (map fst out)" using assms(3) by auto
  then have "mset (map snd out) = image_mset (nth xs) (mset [0..<n])" using pos by (metis mset_map)
  also have "\<dots> = mset (map (nth xs) [0..<n])" by simp
  also have "map (nth xs) [0..<n] = take n xs" using assms(4) by (auto intro: nth_equalityI)
  finally show ?thesis .
qed

lemma outputs_complete:
  assumes "amp_inv C a" and "\<And>t. a_pc a t = MpIdle"
  shows "mset (map snd (a_out a)) = mset (take (a_deq a) (a_hist a))"
proof (rule outputs_are_prefix)
  note O = out_okD [OF invD(7) [OF assms(1)]]
  show "fst ` set (a_out a) = {..<a_deq a}" using O(1) O(4) assms(2) by fastforce
qed (use invD(1) [OF assms(1)] out_okD [OF invD(7) [OF assms(1)]] in auto)

text \<open>A schedule of two pushes and a pop: the pushes race for the first position, the loser claims the second and publishes
  first, and the pop has claimed the first.\<close>

definition demo_acts :: "nat mp_act list" where
  "demo_acts = [StartPush 0 7, StartPush 1 8, Advance False 0, Advance False 1, Advance False 0, Advance False 1, Advance False 1,
     Advance False 1, Advance False 1, Advance False 1, Advance False 0, Advance False 0, StartPop 2, Advance False 2, Advance False 2]"

lemma demo_cap: "next_power_of_two (max 2 1 :: usize) = 2" "next_power_of_two (2 :: usize) = 2"
  by (simp_all add: next_power_of_two_def max_def word_le_nat_alt)

lemmas demo_eval = demo_acts_def mt_init_def mpmc_with_capacity_def demo_cap Let_def mp_advance_def goto_def set_cell_def cell_at_def
  mp_index_def upt_rec

lemma demo_popping: "mt_pc (fold mp_do demo_acts (mt_init 2)) 2 = PopRead 0" "mt_hist (fold mp_do demo_acts (mt_init 2)) = [7, 8]"
  by (simp_all add: demo_eval)

lemma demo_popped:
  "mt_out (fold mp_do (demo_acts @ [Advance False 2, Advance False 2]) (mt_init 2)) = [(0, 7)]"
  "mt_hist (fold mp_do (demo_acts @ [Advance False 2, Advance False 2]) (mt_init 2)) = [7, 8]"
  by (simp_all add: demo_eval)

text \<open>C7. Concurrent first-in first-out. For a queue of capacity at least two and every interleaving of any
  number of pushing and popping threads, as long as the positions do not wrap: the pops return distinct positions and, for
  each, the value of the push that claimed it, in the order of the claims; the queue never holds more
  than its capacity; and when all threads are idle exactly the values of the first \<open>dequeue_pos\<close> pushes have been returned.\<close>

theorem mpmc_concurrent_fifo:
  fixes acts :: "'a mp_act list"
  assumes "2 \<le> unat c" and "unat c \<le> 2 ^ 63"
  defines "s \<equiv> fold mp_do acts (mt_init c)"
  assumes "length (mt_hist s) + unat (next_power_of_two c) < 2 ^ 64"
  shows "distinct (map fst (mt_out s)) \<and>
    (\<forall>(pos, v) \<in> set (mt_out s). unat pos < unat (dequeue_pos (mt_ring s)) \<and> v = mt_hist s ! unat pos) \<and>
    unat (dequeue_pos (mt_ring s)) \<le> length (mt_hist s) \<and>
    length (mt_hist s) \<le> unat (dequeue_pos (mt_ring s)) + unat (next_power_of_two c) \<and>
    ((\<forall>t. mt_pc s t = MpIdle) \<longrightarrow> mset (map snd (mt_out s)) = mset (take (unat (dequeue_pos (mt_ring s))) (mt_hist s)))"
proof -
  obtain a where a: "amp_inv (unat (next_power_of_two c)) a" and s: "s = conc (unat (next_power_of_two c)) a"
    using run_sim [OF assms(1,2) assms(4) [unfolded s_def]] unfolding s_def by blast
  note I = invD [OF a] and O = out_okD [OF invD(7) [OF a]]
  have "a_enq a < 2 ^ 64" using assms(4) s by simp
  then have small: "unat (word_of_nat p :: usize) = p" if "p \<le> a_deq a" for p using that I(1) by (simp add: unat_of_nat)
  have "inj_on (word_of_nat :: nat \<Rightarrow> usize) (set (map fst (a_out a)))"
    by (rule inj_on_inverseI [where g = unat]) (use O(1) small in force)
  then have "distinct (map word_of_nat (map fst (a_out a)) :: usize list)" using O(3) by (simp only: distinct_map simp_thms)
  moreover have "map fst (mt_out s) = map word_of_nat (map fst (a_out a))" unfolding s by auto
  ultimately have d: "distinct (map fst (mt_out s))" by (simp only:)
  have v: "unat pos < a_deq a \<and> v = a_hist a ! unat pos" if "(pos, v) \<in> set (mt_out s)" for pos v
    using that O(1) small unfolding s by fastforce
  have m: "map snd (mt_out s) = map snd (a_out a)" unfolding s by auto
  have D: "unat (dequeue_pos (mt_ring s)) = a_deq a" "mt_hist s = a_hist a" unfolding s using small by simp_all
  have "mset (map snd (a_out a)) = mset (take (a_deq a) (a_hist a))" if "\<forall>t. mt_pc s t = MpIdle"
    using that outputs_complete [OF a] unfolding s by simp
  then show ?thesis unfolding m D using d v I(1,2) by auto
qed

theorem mpmc_concurrent_fifo_witness:
  "mt_out (fold mp_do (demo_acts @ [Advance False 2, Advance False 2]) (mt_init 2)) = [(0, 7)] \<and>
   unat (dequeue_pos (mt_ring (fold mp_do (demo_acts @ [Advance False 2, Advance False 2]) (mt_init 2)))) \<le> 2"
  using mpmc_concurrent_fifo [of 2 "demo_acts @ [Advance False 2, Advance False 2]"] demo_popped
  by (simp add: demo_cap del: fold_append)

text \<open>C8. No data race. For a queue of capacity at least two and every interleaving of any number of pushing and popping
  threads, as long as the positions do not wrap: two threads that have claimed positions never work on the same
  cell, and a pop about to read a cell finds it initialised, with the value pushed at its position.\<close>

theorem mpmc_concurrent_race_free:
  fixes acts :: "'a mp_act list"
  assumes "2 \<le> unat c" and "unat c \<le> 2 ^ 63"
  defines "s \<equiv> fold mp_do acts (mt_init c)"
  assumes "length (mt_hist s) + unat (next_power_of_two c) < 2 ^ 64"
  shows "(t \<noteq> u \<and> (write_at_pos (mt_pc s t) pos \<or> read_at_pos (mt_pc s t) pos) \<and> (write_at_pos (mt_pc s u) pos' \<or> read_at_pos (mt_pc s u) pos')
      \<longrightarrow> mp_index (mt_ring s) pos \<noteq> mp_index (mt_ring s) pos') \<and>
    (mt_pc s t = PopRead pos \<longrightarrow> cell_value (cell_at (mt_ring s) pos) = Init (mt_hist s ! unat pos))"
proof -
  let ?C = "unat (next_power_of_two c)"
  obtain a where a: "amp_inv ?C a" and s: "s = conc ?C a"
    using run_sim [OF assms(1,2) assms(4) [unfolded s_def]] unfolding s_def by blast
  obtain k where k: "?C = 2 ^ k" "k < 64" using capacity_two [OF assms(1,2)] by metis
  note index = index_conc [OF k]
  have "mp_index (mt_ring s) pos \<noteq> mp_index (mt_ring s) pos'"
    if "t \<noteq> u" "write_at_pos (mt_pc s t) pos \<or> read_at_pos (mt_pc s t) pos" "write_at_pos (mt_pc s u) pos' \<or> read_at_pos (mt_pc s u) pos'"
    using that holders_apart [OF a that(1)] unfolding s by (auto simp: write_at_conc read_at_conc index)
  moreover have "cell_value (cell_at (mt_ring s) pos) = Init (mt_hist s ! unat pos)" if pc: "mt_pc s t = PopRead pos"
  proof -
    obtain p where p: "a_pc a t = PopRead p" "pos = word_of_nat p" using pc unfolding s by (cases "a_pc a t") auto
    have ok: "p < a_deq a \<and> a_val a (p mod ?C) = Init (a_hist a ! p)" using invD(3) [OF a, of t] p by simp
    then have "unat pos = p" using p(2) invD(1) [OF a] assms(4) s by (simp add: unat_of_nat)
    then show ?thesis using ok p(2) unfolding s by (simp add: cell_conc [OF k])
  qed
  ultimately show ?thesis by blast
qed

theorem mpmc_concurrent_race_free_witness:
  "cell_value (cell_at (mt_ring (fold mp_do demo_acts (mt_init 2))) 0) = Init 7"
  using mpmc_concurrent_race_free [of 2 demo_acts 2 0 0 0] demo_popping by (simp add: demo_cap)

end
