(* ===== verification/Mode_Machine.thy ===== *)
theory Mode_Machine
  imports Spsc_Ring
begin

text \<open>
  The central mode state machine of the core crate: the modes, the dense table of legal
  transitions (mode.rs) and the machine with its atomic current mode and its ring of transition
  events (machine.rs). The first part runs the operations one after another; the last part runs
  the operations of two threads one atomic access at a time.
\<close>

section \<open>Modes and the transition table (mode.rs)\<close>

datatype mode = Auto | Assist | FullTeleop | EmergencyStop

instantiation mode :: enum
begin
definition enum_mode :: "mode list" where "enum_mode = [Auto, Assist, FullTeleop, EmergencyStop]"
definition enum_all_mode :: "(mode \<Rightarrow> bool) \<Rightarrow> bool" where
  "enum_all_mode P \<longleftrightarrow> P Auto \<and> P Assist \<and> P FullTeleop \<and> P EmergencyStop"
definition enum_ex_mode :: "(mode \<Rightarrow> bool) \<Rightarrow> bool" where
  "enum_ex_mode P \<longleftrightarrow> P Auto \<or> P Assist \<or> P FullTeleop \<or> P EmergencyStop"
instance
proof
  have "m \<in> {Auto, Assist, FullTeleop, EmergencyStop}" for m :: mode by (cases m) auto
  then show "UNIV = set (enum_class.enum :: mode list)" by (auto simp: enum_mode_def)
  show "distinct (enum_class.enum :: mode list)" by (simp add: enum_mode_def)
  show "enum_class.enum_all P = Ball UNIV P" for P :: "mode \<Rightarrow> bool"
    unfolding enum_all_mode_def by (auto intro: mode.induct)
  show "enum_class.enum_ex P = Bex UNIV P" for P :: "mode \<Rightarrow> bool"
    unfolding enum_ex_mode_def by (auto intro: mode.exhaust) (metis mode.exhaust)
qed
end

definition mode_ALL :: "mode list" where
  "mode_ALL = [Auto, Assist, FullTeleop, EmergencyStop]"

fun as_u8 :: "mode \<Rightarrow> u8" where
  "as_u8 Auto = 0"
| "as_u8 Assist = 1"
| "as_u8 FullTeleop = 2"
| "as_u8 EmergencyStop = 3"

definition from_u8 :: "u8 \<Rightarrow> mode option" where
  "from_u8 v = (if v = 0 then Some Auto else if v = 1 then Some Assist
     else if v = 2 then Some FullTeleop else if v = 3 then Some EmergencyStop else None)"

fun mode_name :: "mode \<Rightarrow> string" where
  "mode_name Auto = ''AUTO''"
| "mode_name Assist = ''ASSIST''"
| "mode_name FullTeleop = ''TELEOP''"
| "mode_name EmergencyStop = ''ESTOP''"

record transition =
  tr_from :: mode
  tr_to :: mode
  tr_at_unix_ns :: u64

datatype mode_error = Disallowed mode mode

fun mode_error_fmt :: "mode_error \<Rightarrow> string" where
  "mode_error_fmt (Disallowed f t) =
     ''mode transition '' @ mode_name f @ '' -> '' @ mode_name t @ '' is not permitted''"

record transition_table =
  allowed :: "bool list list"

definition allows :: "transition_table \<Rightarrow> mode \<Rightarrow> mode \<Rightarrow> bool" where
  "allows t f to = allowed t ! unat (as_u8 f) ! unat (as_u8 to)"

definition set_allowed :: "transition_table \<Rightarrow> mode \<Rightarrow> mode \<Rightarrow> bool \<Rightarrow> transition_table" where
  "set_allowed t f to b =
     t\<lparr>allowed := (allowed t)[unat (as_u8 f) := (allowed t ! unat (as_u8 f))[unat (as_u8 to) := b]]\<rparr>"

definition deny_entry :: "transition_table \<Rightarrow> mode \<Rightarrow> transition_table" where
  "deny_entry t to = fold (\<lambda>m t. set_allowed t m to False) mode_ALL t"

definition spec_default :: transition_table where
  "spec_default =
    (let t = \<lparr>allowed = replicate 4 (replicate 4 False)\<rparr>;
         t = set_allowed t Auto Assist True;
         t = set_allowed t Assist Auto True;
         t = set_allowed t Assist FullTeleop True;
         t = set_allowed t FullTeleop Assist True;
         t = fold (\<lambda>m t. set_allowed t m EmergencyStop True) mode_ALL t
     in set_allowed t EmergencyStop Assist True)"

definition table_wf :: "transition_table \<Rightarrow> bool" where
  "table_wf t \<longleftrightarrow> length (allowed t) = 4 \<and> (\<forall>row \<in> set (allowed t). length row = 4)"

lemma from_u8_as_u8 [simp]: "from_u8 (as_u8 m) = Some m"
  by (cases m) (simp_all add: from_u8_def)

lemma as_u8_inject [simp]: "as_u8 m = as_u8 m' \<longleftrightarrow> m = m'"
  by (metis from_u8_as_u8 option.inject)

lemma unat_as_u8_inject [simp]: "unat (as_u8 m) = unat (as_u8 m') \<longleftrightarrow> m = m'"
  by (simp flip: word_unat_eq_iff)

lemma unat_as_u8_less [simp]: "unat (as_u8 m) < 4"
  by (cases m) simp_all

lemma table_row: "table_wf t \<Longrightarrow> length (allowed t ! unat (as_u8 f)) = 4"
  by (simp add: table_wf_def)

lemma set_allowed_wf [intro, simp]:
  assumes "table_wf t"
  shows "table_wf (set_allowed t f to b)"
  using assms table_row [OF assms] unat_as_u8_less [of f]
  by (auto simp: table_wf_def set_allowed_def dest!: set_update_subset_insert [THEN subsetD])

lemma allows_set_allowed:
  assumes "table_wf t"
  shows "allows (set_allowed t f to b) f' to' = (if f' = f \<and> to' = to then b else allows t f' to')"
  using assms table_row [OF assms] unat_as_u8_less [of f] unat_as_u8_less [of to]
  by (auto simp: allows_def set_allowed_def table_wf_def nth_list_update)

text \<open>The default table as a formula: every edge into the emergency stop, and the staged edges
  through \<open>Assist\<close>.\<close>

definition spec_edge :: "mode \<Rightarrow> mode \<Rightarrow> bool" where
  "spec_edge f to \<longleftrightarrow> to = EmergencyStop \<or> (f = Assist \<and> to \<noteq> Assist) \<or> (to = Assist \<and> f \<noteq> Assist)"

lemma table_wf_empty: "table_wf \<lparr>allowed = replicate 4 (replicate 4 False)\<rparr>"
  by (simp add: table_wf_def)

lemma allows_empty: "\<not> allows \<lparr>allowed = replicate 4 (replicate 4 False)\<rparr> f to"
  by (simp add: allows_def)

lemma spec_default_wf: "table_wf spec_default"
  by (simp add: spec_default_def mode_ALL_def table_wf_empty Let_def)

lemma spec_default_edges: "allows spec_default f to \<longleftrightarrow> spec_edge f to"
  by (cases f; cases to) (simp_all add: spec_default_def mode_ALL_def table_wf_empty Let_def
      allows_set_allowed allows_empty spec_edge_def)

lemma deny_entry_allows:
  assumes "table_wf t"
  shows "allows (deny_entry t to) f to' \<longleftrightarrow> to' \<noteq> to \<and> allows t f to'"
  by (cases f) (use assms in \<open>auto simp: deny_entry_def mode_ALL_def allows_set_allowed\<close>)

section \<open>The state machine (machine.rs)\<close>

record state_machine =
  sm_current :: u8
  sm_rules :: transition_table
  sm_events :: "transition spsc_ring"

definition DEFAULT_EVENT_RING :: usize where
  "DEFAULT_EVENT_RING = 64"

definition with_event_ring :: "usize \<Rightarrow> state_machine" where
  "with_event_ring c = \<lparr>sm_current = as_u8 Auto, sm_rules = spec_default,
     sm_events = with_capacity c\<rparr>"

definition machine_new :: state_machine where
  "machine_new = with_event_ring DEFAULT_EVENT_RING"

definition current :: "state_machine \<Rightarrow> mode" where
  "current m = (case from_u8 (sm_current m) of Some md \<Rightarrow> md | None \<Rightarrow> EmergencyStop)"

definition commit :: "u64 \<Rightarrow> mode \<Rightarrow> mode \<Rightarrow> state_machine \<Rightarrow> state_machine" where
  "commit now f to m = m\<lparr>sm_current := as_u8 to,
     sm_events := snd (ring_push (sm_events m) \<lparr>tr_from = f, tr_to = to, tr_at_unix_ns = now\<rparr>)\<rparr>"

definition try_transition :: "u64 \<Rightarrow> mode \<Rightarrow> state_machine \<Rightarrow> (mode_error + mode) \<times> state_machine" where
  "try_transition now to m =
     (let f = current m in
      if \<not> allows (sm_rules m) f to then (Inl (Disallowed f to), m)
      else (Inr f, commit now f to m))"

definition force_emergency_stop :: "u64 \<Rightarrow> state_machine \<Rightarrow> mode \<times> state_machine" where
  "force_emergency_stop now m =
     (let f = current m in
      if f = EmergencyStop then (f, m) else (f, commit now f EmergencyStop m))"

definition take_transitions :: "state_machine \<Rightarrow> transition list \<Rightarrow> (transition list \<times> nat) \<times> state_machine" where
  "take_transitions m out =
     (case drain_ring (sm_events m) out of
        (out', r) \<Rightarrow> ((out', length out' - length out), m\<lparr>sm_events := r\<rparr>))"

lemmas machine_defs = current_def commit_def try_transition_def force_emergency_stop_def Let_def

text \<open>The invariant: the table is the default one, the stored discriminant is a mode, and the
  ring is consistent and holds only legal edges.\<close>

definition legal_transition :: "transition \<Rightarrow> bool" where
  "legal_transition t \<longleftrightarrow> spec_edge (tr_from t) (tr_to t)"

definition machine_inv :: "state_machine \<Rightarrow> bool" where
  "machine_inv m \<longleftrightarrow> sm_rules m = spec_default \<and> from_u8 (sm_current m) \<noteq> None \<and>
     ring_inv (sm_events m) \<and> (\<forall>t \<in> set (ring_contents (sm_events m)). legal_transition t)"

lemma current_commit [simp]: "current (commit now f to m) = to"
  by (simp add: machine_defs)

lemma rules_commit [simp]: "sm_rules (commit now f to m) = sm_rules m"
  by (simp add: commit_def)

lemma with_event_ring_inv:
  assumes "unat c \<le> 2 ^ 63"
  shows "machine_inv (with_event_ring c)" and "current (with_event_ring c) = Auto"
proof -
  show "machine_inv (with_event_ring c)"
    by (simp add: machine_inv_def with_event_ring_def with_capacity_inv [OF assms]
        del: as_u8.simps)
  show "current (with_event_ring c) = Auto"
    by (simp add: current_def with_event_ring_def del: as_u8.simps)
qed

lemma commit_inv:
  assumes "machine_inv m" and "spec_edge f to"
  shows "machine_inv (commit now f to m)"
  using assms
  by (auto simp: machine_inv_def commit_def legal_transition_def spsc.push_result split: if_splits)

lemma try_transition_inv: "machine_inv m \<Longrightarrow> machine_inv (snd (try_transition now to m))"
  by (auto simp: try_transition_def Let_def machine_inv_def [of m] spec_default_edges
      intro!: commit_inv)

lemma force_emergency_stop_inv: "machine_inv m \<Longrightarrow> machine_inv (snd (force_emergency_stop now m))"
  by (auto simp: force_emergency_stop_def Let_def spec_edge_def intro!: commit_inv)

lemma take_transitions_inv:
  assumes "machine_inv m"
  shows "machine_inv (snd (take_transitions m out))"
    and "fst (take_transitions m out) =
      (out @ ring_contents (sm_events m), length (ring_contents (sm_events m)))"
    and "current (snd (take_transitions m out)) = current m"
proof -
  obtain r where r: "drain_ring (sm_events m) out = (out @ ring_contents (sm_events m), r)"
      "ring_inv r" "ring_contents r = []"
    using drain_ring_result [of "sm_events m" out] assms by (auto simp: machine_inv_def)
  then show "machine_inv (snd (take_transitions m out))"
    using assms by (simp add: take_transitions_def machine_inv_def)
  show "fst (take_transitions m out) =
      (out @ ring_contents (sm_events m), length (ring_contents (sm_events m)))"
    and "current (snd (take_transitions m out)) = current m"
    using r by (simp_all add: take_transitions_def current_def)
qed

section \<open>Runs of one controlling thread\<close>

datatype machine_op = Try u64 mode | Force u64 | Drain

fun machine_step :: "machine_op \<Rightarrow> state_machine \<Rightarrow> state_machine" where
  "machine_step (Try now to) m = snd (try_transition now to m)"
| "machine_step (Force now) m = snd (force_emergency_stop now m)"
| "machine_step Drain m = snd (take_transitions m [])"

lemma machine_step_inv: "machine_inv m \<Longrightarrow> machine_inv (machine_step op m)"
  by (cases op) (simp_all add: try_transition_inv force_emergency_stop_inv take_transitions_inv)

lemma machine_run_inv: "machine_inv m \<Longrightarrow> machine_inv (fold machine_step ops m)"
  by (induction ops arbitrary: m) (simp_all add: machine_step_inv)

lemma machine_step_edge:
  assumes "machine_inv m"
  shows "current (machine_step op m) = current m \<or> spec_edge (current m) (current (machine_step op m))"
  using assms
  by (cases op) (simp_all add: try_transition_def force_emergency_stop_def Let_def spec_edge_def
      machine_inv_def spec_default_edges take_transitions_inv(3) [OF assms])

text \<open>Staged handover: in every run of the machine from its construction, each operation either
  keeps the mode or moves along an edge of the policy; so no operation ever jumps between \<open>Auto\<close>
  and \<open>FullTeleop\<close>, and the emergency stop is only left into \<open>Assist\<close>. Every
  transition that an observer later drains is such an edge too.\<close>

theorem machine_staged_handover:
  assumes "unat c \<le> 2 ^ 63" and "m = fold machine_step ops (with_event_ring c)"
  shows "(current (machine_step op m) = current m \<or>
      current (machine_step op m) = EmergencyStop \<or> current (machine_step op m) = Assist \<or>
      (current m = Assist \<and> current (machine_step op m) \<in> {Auto, FullTeleop}))
    \<and> (\<forall>t \<in> set (fst (fst (take_transitions m []))). spec_edge (tr_from t) (tr_to t))"
proof -
  have inv: "machine_inv m" unfolding assms(2)
    by (rule machine_run_inv [OF with_event_ring_inv(1) [OF assms(1)]])
  have "current (machine_step op m) = current m \<or>
      current (machine_step op m) = EmergencyStop \<or> current (machine_step op m) = Assist \<or>
      (current m = Assist \<and> current (machine_step op m) \<in> {Auto, FullTeleop})"
    using machine_step_edge [OF inv, of op] mode.exhaust [of "current (machine_step op m)"]
    by (auto simp: spec_edge_def)
  moreover have "\<forall>t \<in> set (fst (fst (take_transitions m []))). spec_edge (tr_from t) (tr_to t)"
    using inv by (simp add: take_transitions_inv(2) machine_inv_def legal_transition_def)
  ultimately show ?thesis by blast
qed

theorem machine_staged_handover_witness:
  "unat (64 :: usize) \<le> 2 ^ 63 \<and>
    current (fold machine_step [Try 1 FullTeleop, Try 2 Assist, Try 3 FullTeleop]
      (with_event_ring 64)) = FullTeleop \<and>
    list_all (\<lambda>t. spec_edge (tr_from t) (tr_to t)) (fst (fst (take_transitions (fold machine_step
        [Try 1 FullTeleop, Try 2 Assist, Try 3 FullTeleop] (with_event_ring 64)) [])))"
proof -
  have h: "unat (64 :: usize) \<le> 2 ^ 63" by simp
  have "current (fold machine_step [Try 1 FullTeleop, Try 2 Assist, Try 3 FullTeleop]
      (with_event_ring 64)) = FullTeleop"
    by (simp add: try_transition_def Let_def with_event_ring_inv(2) [OF h])
      (simp add: with_event_ring_def spec_default_edges spec_edge_def)
  with h machine_staged_handover [OF h refl, of Drain
      "[Try 1 FullTeleop, Try 2 Assist, Try 3 FullTeleop]"]
  show ?thesis unfolding list_all_iff by blast
qed

text \<open>Refusals: a transition is refused exactly when the table forbids it, the error names both
  modes, and a refusal changes nothing; an accepted one returns the previous mode and moves to the
  requested one. From the emergency stop the default policy refuses everything but the operator's
  acknowledgment into \<open>Assist\<close> and a repeated stop.\<close>

theorem try_transition_result:
  "try_transition now to m =
    (if allows (sm_rules m) (current m) to then (Inr (current m), commit now (current m) to m)
     else (Inl (Disallowed (current m) to), m))
   \<and> current (commit now (current m) to m) = to
   \<and> (allows spec_default EmergencyStop to \<longleftrightarrow> to = Assist \<or> to = EmergencyStop)"
  by (simp add: try_transition_def Let_def spec_default_edges spec_edge_def) blast

text \<open>An emergency stop is never refused: whatever the table, the stored discriminant (also a
  corrupt one) and the state of the event ring are, the machine reads emergency stop afterwards,
  and stopping again changes nothing.\<close>

theorem force_emergency_stop_unconditional:
  "current (snd (force_emergency_stop now m)) = EmergencyStop \<and>
   fst (force_emergency_stop now m) = current m \<and>
   force_emergency_stop now' (snd (force_emergency_stop now m)) =
     (EmergencyStop, snd (force_emergency_stop now m))"
  by (simp add: force_emergency_stop_def Let_def)

section \<open>Two controlling threads\<close>

text \<open>
  \<open>try_transition\<close> and \<open>force_emergency_stop\<close> both take \<open>&self\<close> and are documented as callable
  from any thread. Each loads the atomic mode, decides, and stores in a second access. A thread's
  program counter holds what it loaded; \<open>commits\<close> lists the stores in the order they happened.
\<close>

datatype thread_pc = Ready | Trying mode mode | Stopping mode

record shared_mode =
  atomic :: u8
  pcs :: "nat \<Rightarrow> thread_pc"
  commits :: "(mode \<times> mode) list"

definition load_mode :: "shared_mode \<Rightarrow> mode" where
  "load_mode s = (case from_u8 (atomic s) of Some m \<Rightarrow> m | None \<Rightarrow> EmergencyStop)"

inductive mode_step :: "shared_mode \<Rightarrow> shared_mode \<Rightarrow> bool" where
  try_load: "pcs s i = Ready \<Longrightarrow>
    mode_step s (s\<lparr>pcs := (pcs s)(i := Trying (load_mode s) to)\<rparr>)"
| try_refuse: "pcs s i = Trying f to \<Longrightarrow> \<not> allows spec_default f to \<Longrightarrow>
    mode_step s (s\<lparr>pcs := (pcs s)(i := Ready)\<rparr>)"
| try_store: "pcs s i = Trying f to \<Longrightarrow> allows spec_default f to \<Longrightarrow>
    mode_step s (s\<lparr>atomic := as_u8 to, pcs := (pcs s)(i := Ready), commits := commits s @ [(f, to)]\<rparr>)"
| stop_load: "pcs s i = Ready \<Longrightarrow>
    mode_step s (s\<lparr>pcs := (pcs s)(i := Stopping (load_mode s))\<rparr>)"
| stop_skip: "pcs s i = Stopping EmergencyStop \<Longrightarrow>
    mode_step s (s\<lparr>pcs := (pcs s)(i := Ready)\<rparr>)"
| stop_store: "pcs s i = Stopping f \<Longrightarrow> f \<noteq> EmergencyStop \<Longrightarrow>
    mode_step s (s\<lparr>atomic := as_u8 EmergencyStop, pcs := (pcs s)(i := Ready),
      commits := commits s @ [(f, EmergencyStop)]\<rparr>)"

inductive mode_reachable :: "shared_mode \<Rightarrow> bool" where
  start: "mode_reachable \<lparr>atomic = as_u8 Auto, pcs = (\<lambda>_. Ready), commits = []\<rparr>"
| step: "mode_reachable s \<Longrightarrow> mode_step s t \<Longrightarrow> mode_reachable t"

lemma mode_step_valid:
  assumes "mode_step s t" and "from_u8 (atomic s) \<noteq> None"
    and "\<forall>(f, to) \<in> set (commits s). spec_edge f to"
  shows "from_u8 (atomic t) \<noteq> None \<and> (\<forall>(f, to) \<in> set (commits t). spec_edge f to)"
  using assms by (induction rule: mode_step.induct)
    (auto simp: spec_default_edges spec_edge_def simp del: as_u8.simps)

text \<open>Whatever the interleaving of any number of threads, an observer never reads a torn or
  unknown mode, and every recorded transition is an edge of the policy.\<close>

theorem concurrent_modes_valid:
  assumes "mode_reachable s"
  shows "from_u8 (atomic s) \<noteq> None \<and> (\<forall>(f, to) \<in> set (commits s). spec_edge f to)"
  using assms
proof (induction rule: mode_reachable.induct)
  case start
  then show ?case by (simp del: as_u8.simps)
next
  case (step s t)
  then show ?case using mode_step_valid by blast
qed

text \<open>C39. The emergency stop is not latched under concurrency: there is a run in which one thread's
  emergency stop completes and nobody acknowledges it, yet the machine ends in \<open>Assist\<close>, because
  another thread had loaded \<open>Auto\<close> before the stop and stored its own transition after it.\<close>

theorem emergency_stop_lost_race:
  "\<exists>s. mode_reachable s \<and> commits s = [(Auto, EmergencyStop), (Auto, Assist)] \<and>
    load_mode s = Assist \<and> (\<forall>i. pcs s i = Ready)"
proof -
  let ?s0 = "\<lparr>atomic = as_u8 Auto, pcs = (\<lambda>_. Ready), commits = []\<rparr>"
  have load: "load_mode (?s0\<lparr>pcs := p\<rparr>) = Auto" for p
    by (simp add: load_mode_def del: as_u8.simps)
  from mode_reachable.step [OF mode_reachable.start mode_step.try_load [of _ 0 Assist]]
  have "mode_reachable (?s0\<lparr>pcs := (\<lambda>_. Ready)(0 := Trying Auto Assist)\<rparr>)"
    using load [of "\<lambda>_. Ready"] by simp
  from mode_reachable.step [OF this mode_step.stop_load [of _ 1]]
  have "mode_reachable (?s0\<lparr>pcs := (\<lambda>_. Ready)(0 := Trying Auto Assist, 1 := Stopping Auto)\<rparr>)"
    using load by simp
  from mode_reachable.step [OF this mode_step.stop_store [of _ 1 Auto]]
  have "mode_reachable \<lparr>atomic = as_u8 EmergencyStop, pcs = (\<lambda>_. Ready)(0 := Trying Auto Assist),
      commits = [(Auto, EmergencyStop)]\<rparr>" by (simp add: fun_upd_twist fun_upd_idem)
  from mode_reachable.step [OF this mode_step.try_store [of _ 0 Auto Assist]]
  have "mode_reachable \<lparr>atomic = as_u8 Assist, pcs = (\<lambda>_. Ready),
      commits = [(Auto, EmergencyStop), (Auto, Assist)]\<rparr>"
    by (simp add: spec_default_edges spec_edge_def fun_upd_idem)
  then show ?thesis
    by (intro exI [of _ "\<lparr>atomic = as_u8 Assist, pcs = (\<lambda>_. Ready),
      commits = [(Auto, EmergencyStop), (Auto, Assist)]\<rparr>"])
      (simp add: load_mode_def del: as_u8.simps)
qed

theorem concurrent_modes_valid_witness:
  "mode_reachable \<lparr>atomic = as_u8 Auto, pcs = (\<lambda>_. Ready), commits = []\<rparr> \<and>
    from_u8 (as_u8 Auto) \<noteq> None"
  using mode_reachable.start concurrent_modes_valid [OF mode_reachable.start] by simp

end
