(* ===== verification/Buffer_Pool.thy ===== *)
theory Buffer_Pool
  imports Mpmc_Ring
begin

text \<open>
  The pre-allocated buffer pool of the core crate (pool.rs): slots, a free list of slot indices
  in an MPMC queue, an initialised flag per slot and a counter of the slots checked out. A
  \<open>Pooled\<close> guard is the index it holds; dropping it releases the index. Since Rust ownership lets
  only a live guard be dropped, runs keep the list of live guards beside the pool.
\<close>

record 'a buffer_pool =
  pool_slots :: "'a maybe_uninit list"
  pool_free :: "u32 mpmc_ring"
  pool_initialized :: "bool list"
  pool_outstanding :: usize

primrec push_indices :: "nat \<Rightarrow> u32 mpmc_ring \<Rightarrow> u32 mpmc_ring option" where
  "push_indices 0 q = Some q"
| "push_indices (Suc n) q =
     Option.bind (push_indices n q) (\<lambda>q'. map_option snd (mpmc_push [] q' (word_of_nat n)))"

definition pool_new :: "usize \<Rightarrow> 'a buffer_pool option" where
  "pool_new sz =
     (let size = max sz 1 in
      map_option (\<lambda>free. \<lparr>pool_slots = replicate (unat size) Uninit, pool_free = free,
          pool_initialized = replicate (unat size) False, pool_outstanding = 0\<rparr>)
        (push_indices (unat (ucast size :: u32)) (mpmc_with_capacity size)))"

definition pool_capacity :: "'a buffer_pool \<Rightarrow> nat" where
  "pool_capacity p = length (pool_slots p)"

definition in_use :: "'a buffer_pool \<Rightarrow> usize" where
  "in_use p = pool_outstanding p"

text \<open>\<open>get_with\<close>: \<open>sp\<close> are the spurious compare-exchange failures, \<open>x\<close> the value that the
  initialiser would build.\<close>

definition get_with :: "bool list \<Rightarrow> 'a \<Rightarrow> 'a buffer_pool \<Rightarrow> (u32 option \<times> 'a buffer_pool) option" where
  "get_with sp x p =
     (case mpmc_pop sp (pool_free p) of
        None \<Rightarrow> None
      | Some (None, q) \<Rightarrow> Some (None, p\<lparr>pool_free := q\<rparr>)
      | Some (Some idx, q) \<Rightarrow>
          (let p = p\<lparr>pool_free := q, pool_outstanding := pool_outstanding p + 1\<rparr> in
           if \<not> pool_initialized p ! unat idx
           then Some (Some idx, p\<lparr>pool_slots := (pool_slots p)[unat idx := Init x],
                  pool_initialized := (pool_initialized p)[unat idx := True]\<rparr>)
           else Some (Some idx, p)))"

definition pool_release :: "bool list \<Rightarrow> u32 \<Rightarrow> 'a buffer_pool \<Rightarrow> 'a buffer_pool option" where
  "pool_release sp idx p =
     map_option (\<lambda>r. p\<lparr>pool_free := snd r, pool_outstanding := pool_outstanding p - 1\<rparr>)
       (mpmc_push sp (pool_free p) idx)"

definition guard_deref :: "'a buffer_pool \<Rightarrow> u32 \<Rightarrow> 'a" where
  "guard_deref p idx = assume_init_read (pool_slots p ! unat idx)"

definition guard_write :: "u32 \<Rightarrow> 'a \<Rightarrow> 'a buffer_pool \<Rightarrow> 'a buffer_pool" where
  "guard_write idx x p = p\<lparr>pool_slots := (pool_slots p)[unat idx := Init x]\<rparr>"

section \<open>Ownership invariant\<close>

text \<open>Every slot index is in exactly one place: the free list or a live guard. A live guard's slot
  is initialised.\<close>

definition pool_inv :: "'a buffer_pool \<Rightarrow> u32 list \<Rightarrow> bool" where
  "pool_inv p held \<longleftrightarrow> mpmc_inv (pool_free p) \<and>
     length (pool_slots p) \<le> mpmc_room (pool_free p) \<and> length (pool_slots p) < 2 ^ 32 \<and>
     length (pool_initialized p) = length (pool_slots p) \<and>
     distinct (mpmc_contents (pool_free p) @ held) \<and>
     unat ` set (mpmc_contents (pool_free p) @ held) = {..<length (pool_slots p)} \<and>
     unat (pool_outstanding p) = length held \<and>
     (\<forall>i < length (pool_slots p). pool_initialized p ! i \<longleftrightarrow> pool_slots p ! i \<noteq> Uninit) \<and>
     (\<forall>i \<in> set held. pool_slots p ! unat i \<noteq> Uninit)"

lemma card_unat_distinct:
  assumes "distinct (xs :: 'a::len word list)"
  shows "card (unat ` set xs) = length xs"
proof -
  have "inj_on unat (set xs)" by (rule inj_onI) (simp add: word_unat_eq_iff)
  then show ?thesis using assms by (simp add: card_image distinct_card)
qed

lemma push_indices_result:
  assumes "mpmc_inv q" and "mpmc_contents q = []" and "n \<le> mpmc_room q"
  shows "\<exists>q'. push_indices n q = Some q' \<and> mpmc_inv q' \<and> mpmc_room q' = mpmc_room q \<and>
    mpmc_contents q' = map word_of_nat [0..<n]"
  using assms(3)
proof (induction n)
  case 0
  then show ?case using assms by simp
next
  case (Suc n)
  then obtain q' where q': "push_indices n q = Some q'" "mpmc_inv q'" "mpmc_room q' = mpmc_room q"
      "mpmc_contents q' = map word_of_nat [0..<n]" by auto
  then have "length (mpmc_contents q') = n" by (metis length_map length_upt minus_nat.diff_0)
  then have "unat (mpmc_len q') < unat (mp_cap q')"
    using Suc.prems q'(3) by (simp add: mpmc_room_def)
  from mpmc_push_room [OF q'(2) this] q' show ?case by auto
qed

lemma word32_upt:
  assumes "n < 2 ^ 32"
  shows "distinct (map (word_of_nat :: nat \<Rightarrow> u32) [0..<n])"
    and "unat ` set (map (word_of_nat :: nat \<Rightarrow> u32) [0..<n]) = {..<n}"
proof -
  have u: "unat (word_of_nat i :: u32) = i" if "i < n" for i
    using that assms unfolding unat_of_nat by (intro mod_less) simp
  have "i = j" if "i < n" "j < n" "(word_of_nat i :: u32) = word_of_nat j" for i j
    using that u by metis
  then show "distinct (map (word_of_nat :: nat \<Rightarrow> u32) [0..<n])"
    by (auto simp: distinct_map inj_on_def)
  show "unat ` set (map (word_of_nat :: nat \<Rightarrow> u32) [0..<n]) = {..<n}"
    using u by (auto simp: image_image image_iff)
qed

lemma pool_new_inv:
  assumes "unat sz < 2 ^ 32"
  shows "\<exists>p. pool_new sz = Some p \<and> pool_inv p [] \<and> pool_capacity p = max (unat sz) 1"
proof -
  let ?s = "max sz 1 :: usize" and ?n = "max (unat sz) 1"
  have n: "unat ?s = ?n" by (auto simp: max_def word_le_nat_alt)
  have lt: "?n < 2 ^ 32" using assms by simp
  have u: "unat (ucast ?s :: u32) = ?n"
    unfolding unsigned_ucast_eq n using lt by (simp add: take_bit_eq_mod)
  have c: "unat ?s \<le> 2 ^ 63" using n lt by simp
  have inv: "mpmc_inv (mpmc_with_capacity ?s :: u32 mpmc_ring)"
    by (rule mpmc_with_capacity_inv [OF c])
  have empty: "mpmc_contents (mpmc_with_capacity ?s :: u32 mpmc_ring) = []"
    by (rule mpmc_with_capacity_inv [OF c])
  have "unat ?s \<le> mpmc_room (mpmc_with_capacity ?s :: u32 mpmc_ring)"
    by (rule mpmc_with_capacity_inv [OF c])
  then have room: "?n \<le> mpmc_room (mpmc_with_capacity ?s :: u32 mpmc_ring)" unfolding n .
  obtain q where q: "push_indices ?n (mpmc_with_capacity ?s) = Some q" "mpmc_inv q"
      "mpmc_room q = mpmc_room (mpmc_with_capacity ?s :: u32 mpmc_ring)"
      "mpmc_contents q = map word_of_nat [0..<?n]"
    using push_indices_result [OF inv empty room] by blast
  with room lt n u word32_upt [OF lt] show ?thesis
    by (simp add: pool_new_def pool_inv_def pool_capacity_def Let_def del: set_map)
qed

lemma get_with_none:
  assumes "pool_inv p held" and "mpmc_contents (pool_free p) = []"
  shows "get_with sp x p = Some (None, p)"
  using assms mpmc_pop_empty [of "pool_free p" sp] by (simp add: get_with_def pool_inv_def)

lemma get_with_some:
  assumes inv: "pool_inv p held" and free: "mpmc_contents (pool_free p) = idx # rest"
  shows "\<exists>p'. get_with sp x p = Some (Some idx, p') \<and> pool_inv p' (idx # held) \<and> idx \<notin> set held \<and>
    (\<forall>i. i \<noteq> unat idx \<longrightarrow> pool_slots p' ! i = pool_slots p ! i) \<and>
    (pool_slots p ! unat idx \<noteq> Uninit \<longrightarrow> pool_slots p' = pool_slots p) \<and>
    (pool_slots p ! unat idx = Uninit \<longrightarrow> pool_slots p' ! unat idx = Init x)"
proof -
  let ?n = "length (pool_slots p)"
  have q: "mpmc_inv (pool_free p)" and n: "?n \<le> mpmc_room (pool_free p)" "?n < 2 ^ 32"
    "length (pool_initialized p) = ?n" and d: "distinct ((idx # rest) @ held)"
    and s: "unat ` set ((idx # rest) @ held) = {..<?n}"
    and o: "unat (pool_outstanding p) = length held"
    and i: "\<And>i. i < ?n \<Longrightarrow> pool_initialized p ! i \<longleftrightarrow> pool_slots p ! i \<noteq> Uninit"
    and h: "\<And>i. i \<in> set held \<Longrightarrow> pool_slots p ! unat i \<noteq> Uninit"
    using inv free by (simp_all add: pool_inv_def)
  obtain q' where pop: "mpmc_pop sp (pool_free p) = Some (Some idx, q')" "mpmc_inv q'"
      "mpmc_contents q' = rest" "mpmc_room q' = mpmc_room (pool_free p)"
    using mpmc_pop_cons [OF q free] by blast
  have idx: "unat idx < ?n" using s by auto
  have "unat ` set held \<subseteq> {..<?n} - {unat idx}"
    using d s by (auto simp: word_unat_eq_iff [symmetric])
  then have "card (unat ` set held) \<le> card ({..<?n} - {unat idx})" by (intro card_mono) auto
  moreover have "card (unat ` set held) = length held"
    using d by (intro card_unat_distinct) simp
  ultimately have "length held < ?n" using idx by simp
  then have o': "unat (pool_outstanding p + 1) = Suc (length held)"
    using o n(2) by (simp add: unat_word_ariths)
  have s': "unat ` set (rest @ idx # held) = {..<?n}" using s by auto
  have d': "distinct (rest @ idx # held)" using d by auto
  show ?thesis
    using pop q n d' s' o' i h idx d
    by (auto simp: get_with_def Let_def pool_inv_def nth_list_update)
qed

lemma pool_release_inv:
  assumes inv: "pool_inv p (held1 @ idx # held2)"
  shows "\<exists>p'. pool_release sp idx p = Some p' \<and> pool_inv p' (held1 @ held2) \<and>
    pool_slots p' = pool_slots p"
proof -
  let ?n = "length (pool_slots p)" and ?q = "pool_free p"
  have q: "mpmc_inv ?q" and n: "?n \<le> mpmc_room ?q" "?n < 2 ^ 32"
    "length (pool_initialized p) = ?n" and d: "distinct (mpmc_contents ?q @ held1 @ idx # held2)"
    and s: "unat ` set (mpmc_contents ?q @ held1 @ idx # held2) = {..<?n}"
    and o: "unat (pool_outstanding p) = Suc (length (held1 @ held2))"
    using inv by (simp_all add: pool_inv_def)
  have "card (unat ` set (mpmc_contents ?q @ held1 @ idx # held2)) =
      length (mpmc_contents ?q @ held1 @ idx # held2)"
    using d by (rule card_unat_distinct)
  then have "unat (mpmc_len ?q) < ?n" using s by simp
  then have "unat (mpmc_len ?q) < unat (mp_cap ?q)" using n by (simp add: mpmc_room_def)
  then obtain q' where
    push: "mpmc_push sp ?q idx = Some (Inr (), q')" "mpmc_inv q'" "mpmc_room q' = mpmc_room ?q"
      "mpmc_contents q' = mpmc_contents ?q @ [idx]"
    using mpmc_push_room [OF q, where v = idx] by blast
  have "pool_outstanding p \<noteq> 0" using o by auto
  then have o': "unat (pool_outstanding p - 1) = length (held1 @ held2)"
    using o by (simp add: unat_minus_one)
  have "unat ` set ((mpmc_contents ?q @ [idx]) @ held1 @ held2) = {..<?n}" using s by auto
  moreover have "distinct ((mpmc_contents ?q @ [idx]) @ held1 @ held2)" using d by auto
  ultimately show ?thesis
    using push n o' inv by (simp add: pool_release_def pool_inv_def)
qed

lemma guard_write_inv:
  assumes "pool_inv p held" and "idx \<in> set held"
  shows "pool_inv (guard_write idx x p) held"
proof -
  have lt: "unat idx < length (pool_slots p)" and ni: "pool_slots p ! unat idx \<noteq> Uninit"
    using assms by (auto simp: pool_inv_def)
  have "(pool_slots p)[unat idx := Init x] ! i \<noteq> Uninit \<longleftrightarrow> pool_slots p ! i \<noteq> Uninit" for i
    using lt ni by (cases "i = unat idx") simp_all
  then show ?thesis using assms by (simp add: pool_inv_def guard_write_def)
qed

section \<open>Properties\<close>

text \<open>Exclusive checkout: from a consistent pool, \<open>get_with\<close> always returns; it hands out a slot
  that no live guard holds, initialised (by the given initialiser exactly when it had never been
  used, otherwise with its previous contents), and touches no other slot; it returns nothing only
  when every slot is held. The pool stays consistent and its counter exact.\<close>

theorem pool_get_exclusive:
  assumes "pool_inv p held"
  shows "\<exists>r p'. get_with sp x p = Some (r, p') \<and>
    (case r of
       None \<Rightarrow> length held = pool_capacity p \<and> p' = p
     | Some idx \<Rightarrow> idx \<notin> set held \<and> unat idx < pool_capacity p \<and> pool_inv p' (idx # held) \<and>
         unat (in_use p') = Suc (length held) \<and>
         (\<forall>i. i \<noteq> unat idx \<longrightarrow> pool_slots p' ! i = pool_slots p ! i) \<and>
         guard_deref p' idx = (if pool_slots p ! unat idx = Uninit then x else guard_deref p idx))"
proof (cases "mpmc_contents (pool_free p)")
  case Nil
  have "length held = pool_capacity p"
  proof -
    have "distinct held" "unat ` set held = {..<pool_capacity p}"
      using assms Nil by (simp_all add: pool_inv_def pool_capacity_def)
    moreover have "card (unat ` set held) = length held"
      using \<open>distinct held\<close> by (rule card_unat_distinct)
    ultimately show ?thesis by simp
  qed
  with get_with_none [OF assms Nil] show ?thesis by fastforce
next
  case (Cons idx rest)
  from get_with_some [OF assms Cons, of sp x] obtain p' where
    p': "get_with sp x p = Some (Some idx, p')" "pool_inv p' (idx # held)" "idx \<notin> set held"
      "\<forall>i. i \<noteq> unat idx \<longrightarrow> pool_slots p' ! i = pool_slots p ! i"
      "pool_slots p ! unat idx \<noteq> Uninit \<longrightarrow> pool_slots p' = pool_slots p"
      "pool_slots p ! unat idx = Uninit \<longrightarrow> pool_slots p' ! unat idx = Init x" by blast
  have "unat idx < pool_capacity p"
    using assms Cons by (auto simp: pool_inv_def pool_capacity_def)
  moreover have "unat (in_use p') = Suc (length held)"
    using p'(2) by (simp add: pool_inv_def in_use_def)
  ultimately show ?thesis using p' by (auto simp: guard_deref_def)
qed

text \<open>Recycling: dropping any live guard always succeeds (the free list never overflows), returns
  the slot to the pool with its contents intact and keeps the pool consistent with the remaining
  guards.\<close>

theorem pool_release_recycles:
  assumes "pool_inv p (held1 @ idx # held2)"
  shows "\<exists>p'. pool_release sp idx p = Some p' \<and> pool_inv p' (held1 @ held2) \<and>
    unat (in_use p') = length held1 + length held2 \<and> pool_slots p' = pool_slots p"
proof -
  obtain p' where p': "pool_release sp idx p = Some p'" "pool_inv p' (held1 @ held2)"
      "pool_slots p' = pool_slots p"
    using pool_release_inv [OF assms, of sp] by blast
  moreover have "unat (in_use p') = length held1 + length held2"
    using p'(2) by (simp add: pool_inv_def in_use_def)
  ultimately show ?thesis by blast
qed

lemma pool_one_inv: "\<exists>p :: nat buffer_pool. pool_new 1 = Some p \<and> pool_inv p []"
  using pool_new_inv [of 1] by auto

theorem pool_get_exclusive_witness:
  "\<exists>(p :: nat buffer_pool) r p'. pool_inv p [] \<and> get_with [True, True] 9 p = Some (r, p')"
proof -
  obtain p :: "nat buffer_pool" where "pool_inv p []" using pool_one_inv by blast
  with pool_get_exclusive [OF this, of "[True, True]" 9] show ?thesis by blast
qed

theorem pool_release_recycles_witness:
  "\<exists>(p :: nat buffer_pool) p'. pool_inv p [0] \<and> pool_release [] 0 p = Some p' \<and> pool_inv p' []"
proof -
  obtain p :: "nat buffer_pool" where p: "pool_new 1 = Some p" "pool_inv p []"
    using pool_one_inv by blast
  have u: "unat (ucast (1 :: usize) :: u32) = Suc 0" by simp
  have "mpmc_contents (pool_free p) = [0]"
  proof -
    have c: "unat (1 :: usize) \<le> 2 ^ 63" by simp
    have "push_indices 1 (mpmc_with_capacity 1) = Some (pool_free p)"
      using p(1) by (auto simp: pool_new_def)
    moreover have "mpmc_contents (mpmc_with_capacity 1 :: u32 mpmc_ring) = []"
      by (rule mpmc_with_capacity_inv [OF c])
    moreover have "mpmc_inv (mpmc_with_capacity 1 :: u32 mpmc_ring)"
      by (rule mpmc_with_capacity_inv [OF c])
    moreover have "unat (1 :: usize) \<le> mpmc_room (mpmc_with_capacity 1 :: u32 mpmc_ring)"
      by (rule mpmc_with_capacity_inv [OF c])
    ultimately show ?thesis
      using push_indices_result [of "mpmc_with_capacity 1" 1] by auto
  qed
  from get_with_some [OF p(2) this, of "[]" 3] obtain p1 :: "nat buffer_pool"
    where "pool_inv p1 ([] @ 0 # [])" by auto
  from pool_release_recycles [OF this, of "[]"] this show ?thesis by auto
qed

end
