(* ===== verification/Ring_Layout.thy ===== *)
theory Ring_Layout
  imports Spsc_Ring
begin

text \<open>
  The memory side of the ring crate: the byte layout of a ring in a shared region (layout.rs) and
  the ring attached to such a region (shared.rs), which runs the same push and pop bodies on
  cursors and slots that live in the region.
\<close>

section \<open>Layout (layout.rs)\<close>

definition CACHE_LINE :: usize where
  "CACHE_LINE = 64"

text \<open>\<open>size_of::<SharedHeader>()\<close>: two cursors, each padded to a cache line.\<close>

definition shared_header_size :: usize where
  "shared_header_size = (8 + (CACHE_LINE - 8)) + (8 + (CACHE_LINE - 8))"

record ring_layout =
  header_len :: usize
  slots_off :: usize
  slot_size :: usize
  layout_capacity :: usize
  total_len :: usize

definition div_ceil :: "usize \<Rightarrow> usize \<Rightarrow> usize" where
  "div_ceil a b = a div b + (if a mod b > 0 then 1 else 0)"

text \<open>\<open>for_slots::<T>(capacity)\<close>, with \<open>size_of::<T>()\<close> as an argument.\<close>

definition for_slots :: "usize \<Rightarrow> usize \<Rightarrow> ring_layout" where
  "for_slots size_of_T capacity =
     (let cap = next_power_of_two (max capacity 1);
          hl = shared_header_size;
          ss = div_ceil (max size_of_T 1) 8 * 8;
          so = div_ceil hl CACHE_LINE * CACHE_LINE;
          tl = so + ss * cap
      in \<lparr>header_len = hl, slots_off = so, slot_size = ss, layout_capacity = cap, total_len = tl\<rparr>)"

definition leading_zeros :: "usize \<Rightarrow> u32" where
  "leading_zeros n = word_of_nat (64 - bit_width (unat n))"

text \<open>A left shift by a 32-bit amount uses the amount modulo the width, as the release profile
  does.\<close>

definition shl :: "usize \<Rightarrow> u32 \<Rightarrow> usize" where
  "shl a k = push_bit (unat k mod 64) a"

definition floor_pow2 :: "usize \<Rightarrow> usize" where
  "floor_pow2 n = (if is_power_of_two n then n else shl 1 (64 - 1 - leading_zeros n))"

definition checked_sub :: "usize \<Rightarrow> usize \<Rightarrow> usize option" where
  "checked_sub a b = (if b \<le> a then Some (a - b) else None)"

definition fit :: "usize \<Rightarrow> usize \<Rightarrow> usize \<Rightarrow> usize option" where
  "fit tot hl ss =
     (let so = div_ceil hl CACHE_LINE * CACHE_LINE in
      case checked_sub tot so of
        None \<Rightarrow> None
      | Some avail \<Rightarrow> (let ss = max ss 1; n = avail div ss in Some (floor_pow2 n)))"

definition validate :: "ring_layout \<Rightarrow> usize \<Rightarrow> bool" where
  "validate l tot \<longleftrightarrow> slots_off l mod CACHE_LINE = 0 \<and> is_power_of_two (layout_capacity l) \<and>
     tot \<ge> total_len l"

lemma max_one_word: "0 < w \<Longrightarrow> max w 1 = w" for w :: usize
  by (auto simp: max_def word_le_nat_alt word_less_nat_alt word_unat_eq_iff)

lemma is_power_of_two_iff:
  "is_power_of_two w \<longleftrightarrow> (\<exists>k < LENGTH('a). w = 2 ^ k)" for w :: "'a::len word"
  by (auto simp: is_power_of_two_def push_bit_eq_mult)

lemma unat_floor_pow2:
  assumes "0 < n"
  shows "unat (floor_pow2 n) \<le> unat n \<and> unat n < 2 * unat (floor_pow2 n) \<and> is_power_of_two (floor_pow2 n)"
proof (cases "is_power_of_two n")
  case True
  then show ?thesis using assms by (simp add: floor_pow2_def word_less_nat_alt)
next
  case False
  let ?b = "bit_width (unat n)"
  have pos: "0 < unat n" using assms by (simp add: word_less_nat_alt)
  have "unat n < 2 ^ 64" using unsigned_less [of n, where 'a = nat] by simp
  then have b: "?b \<le> 64" by (rule bit_width_le)
  have "0 < ?b" using pos by (auto simp: bit_width.simps [of "unat n"])
  then obtain k where k: "?b = Suc k" by (cases ?b) auto
  have "unat (leading_zeros n) = 64 - ?b"
    unfolding leading_zeros_def unat_of_nat using b by (intro mod_less) simp
  then have "unat (64 - 1 - leading_zeros n) = k"
    using b k by (subst unat_sub_if_size) (simp add: word_size)
  then have fp: "floor_pow2 n = 2 ^ k"
    using False b k by (simp add: floor_pow2_def shl_def push_bit_eq_mult)
  have "k < 64" using b k by simp
  then have u: "unat (floor_pow2 n) = 2 ^ k" unfolding fp by (rule unat_exp_word64)
  have "is_power_of_two (floor_pow2 n)"
    unfolding fp is_power_of_two_iff using \<open>k < 64\<close> by auto
  moreover have "2 ^ k \<le> unat n" using bit_width_lower [OF pos] k by simp
  moreover have "unat n < 2 * 2 ^ k" using bit_width_upper [of "unat n"] k by simp
  ultimately show ?thesis by (simp add: u)
qed

section \<open>The attached ring (shared.rs)\<close>

record 'a shared_region =
  sh_head :: usize
  sh_tail :: usize
  sh_slots :: "'a maybe_uninit list"

definition shared_header_new :: "nat \<Rightarrow> 'a shared_region" where
  "shared_header_new n = \<lparr>sh_head = 0, sh_tail = 0, sh_slots = replicate n Uninit\<rparr>"

definition attach :: "usize \<Rightarrow> usize" where
  "attach capacity = next_power_of_two (max capacity 1)"

definition shared_len :: "'a shared_region \<Rightarrow> usize" where
  "shared_len m = sh_tail m - sh_head m"

definition shared_push :: "usize \<Rightarrow> 'a shared_region \<Rightarrow> 'a \<Rightarrow> ('a + unit) \<times> 'a shared_region" where
  "shared_push cap m v =
     (case do_push (sh_head m) (sh_tail m) (sh_slots m) (cap - 1) cap v of
        (res, t, slots) \<Rightarrow> (res, m\<lparr>sh_tail := t, sh_slots := slots\<rparr>))"

definition shared_pop :: "usize \<Rightarrow> 'a shared_region \<Rightarrow> 'a option \<times> 'a shared_region" where
  "shared_pop cap m =
     (case do_pop (sh_head m) (sh_tail m) (sh_slots m) (cap - 1) of
        (res, h, slots) \<Rightarrow> (res, m\<lparr>sh_head := h, sh_slots := slots\<rparr>))"

definition region_ring :: "usize \<Rightarrow> 'a shared_region \<Rightarrow> 'a spsc_ring" where
  "region_ring cap m = \<lparr>ring_slots = sh_slots m, ring_head = sh_head m, ring_tail = sh_tail m,
     ring_cap = cap\<rparr>"

lemma region_ring_inject [simp]: "region_ring cap m = region_ring cap m' \<longleftrightarrow> m = m'"
  by (cases m; cases m') (auto simp: region_ring_def)

lemma region_ring_push:
  "ring_push (region_ring cap m) v =
    (fst (shared_push cap m v), region_ring cap (snd (shared_push cap m v)))"
  by (simp add: ring_push_def shared_push_def region_ring_def split_beta)

lemma region_ring_pop:
  "ring_pop (region_ring cap m) = (fst (shared_pop cap m), region_ring cap (snd (shared_pop cap m)))"
  by (simp add: ring_pop_def shared_pop_def region_ring_def split_beta)

interpretation shm: bounded_fifo "shared_push cap" "shared_pop cap"
    "\<lambda>m. ring_contents (region_ring cap m)" "\<lambda>m. ring_room (region_ring cap m)"
    "\<lambda>m. ring_inv (region_ring cap m)" for cap
proof (unfold_locales, goal_cases)
  case (1 m) then show ?case by (rule spsc.bounded)
next
  case (2 m v) then show ?case
    using spsc.push_room [of "region_ring cap m" v] by (auto simp: region_ring_push prod_eq_iff)
next
  case (3 m) then show ?case
    using spsc.pop_empty [of "region_ring cap m"]
    by (auto simp: region_ring_pop prod_eq_iff)
next
  case (4 m v vs) then show ?case
    using spsc.pop_cons [of "region_ring cap m" v vs] by (auto simp: region_ring_pop prod_eq_iff)
next
  case (5 m v) then show ?case
    using spsc.push_full [of "region_ring cap m" v]
    by (auto simp: region_ring_push prod_eq_iff)
qed

section \<open>Properties\<close>

text \<open>Fitting a ring into a region: when at least one slot fits after the padded header, the
  answer is a power of two, that many slots fit into the region, and twice as many do not. A region
  too short for the header is refused.\<close>

theorem fit_largest:
  assumes "so = div_ceil hl CACHE_LINE * CACHE_LINE"
    and "so \<le> tot" and "0 < ss" and "unat ss \<le> unat (tot - so)"
  shows "\<exists>cap. fit tot hl ss = Some cap \<and> is_power_of_two cap \<and>
    unat cap * unat ss \<le> unat (tot - so) \<and> unat (tot - so) < 2 * unat cap * unat ss
    \<and> (t' < so \<longrightarrow> fit t' hl ss = None)"
proof -
  let ?n = "(tot - so) div ss" and ?s = "unat ss" and ?a = "unat (tot - so)"
  have ss: "0 < ?s" "max ss 1 = ss"
    using assms(3) by (simp_all add: word_less_nat_alt max_one_word)
  have n: "unat ?n = ?a div ?s" by (rule unat_div)
  have "0 < ?a div ?s" using assms(4) ss(1) by (simp add: div_greater_zero_iff)
  then have "0 < ?n" using n by (simp add: word_less_nat_alt)
  note f = unat_floor_pow2 [OF this, unfolded n]
  have "unat (floor_pow2 ?n) * ?s \<le> ?a div ?s * ?s" using f by (intro mult_right_mono) auto
  also have "\<dots> \<le> ?a" by simp
  finally have le: "unat (floor_pow2 ?n) * ?s \<le> ?a" .
  have "?a < Suc (?a div ?s) * ?s" using ss(1) by (simp add: dividend_less_div_times)
  also have "\<dots> \<le> 2 * unat (floor_pow2 ?n) * ?s" using f by (intro mult_right_mono) auto
  finally have lt: "?a < 2 * unat (floor_pow2 ?n) * ?s" .
  have "fit tot hl ss = Some (floor_pow2 ?n)"
    using assms(1,2) ss(2) by (simp add: fit_def checked_sub_def Let_def)
  moreover have "t' < so \<longrightarrow> fit t' hl ss = None"
    using assms(1) by (auto simp: fit_def checked_sub_def Let_def)
  ultimately show ?thesis using le lt f by auto
qed

theorem fit_largest_witness:
  "\<exists>cap. fit 4096 128 16 = Some cap \<and> is_power_of_two cap \<and>
    unat cap * 16 \<le> 3968 \<and> 3968 < 2 * unat cap * 16"
proof -
  have so: "(128 :: usize) = div_ceil 128 CACHE_LINE * CACHE_LINE"
    by (simp add: div_ceil_def CACHE_LINE_def)
  show ?thesis using fit_largest [OF so, of 4096 16] by (auto simp: word_le_nat_alt)
qed

text \<open>A region with room for the header but for no slot is not refused: the documented result
  is \<open>None\<close>, but the shift amount underflows and the answer is a capacity of \<open>2 ^ 63\<close> slots.\<close>

theorem fit_no_slot_overflows:
  assumes "so = div_ceil hl CACHE_LINE * CACHE_LINE"
    and "so \<le> tot" and "0 < ss" and "unat (tot - so) < unat ss"
  shows "fit tot hl ss = Some (2 ^ 63)"
proof -
  have ss: "max ss 1 = ss"
    using assms(3) by (rule max_one_word)
  have "unat ((tot - so) div ss) = 0" using assms(4) by (simp add: unat_div)
  then have n: "(tot - so) div ss = 0" by (simp add: unat_eq_0)
  have "(2 :: usize) ^ k \<noteq> 0" if "k < 64" for k
    using that unat_exp_word64 [of k] by (metis unat_0 power_not_zero zero_neq_numeral)
  then have np: "\<not> is_power_of_two (0 :: usize)" by (auto simp: is_power_of_two_iff)
  have "unat (64 - 1 - leading_zeros 0) mod 64 = 63"
    by (simp add: leading_zeros_def unat_minus_one_word_eq)
  then have "floor_pow2 0 = 2 ^ 63" using np by (simp add: floor_pow2_def shl_def push_bit_eq_mult)
  then show ?thesis
    using assms(1,2) ss n by (simp add: fit_def checked_sub_def Let_def)
qed

theorem fit_no_slot_overflows_witness: "fit 132 128 8 = Some (2 ^ 63)"
proof -
  have so: "(128 :: usize) = div_ceil 128 CACHE_LINE * CACHE_LINE"
    by (simp add: div_ceil_def CACHE_LINE_def)
  show ?thesis by (rule fit_no_slot_overflows [OF so]) (simp_all add: word_le_nat_alt)
qed

end
