(* ===== verification/Message_Bus.thy ===== *)
theory Message_Bus
  imports Spsc_Ring
begin

text \<open>
  The fan-out message bus of the core crate (bus.rs): one SPSC ring per subscriber; a publish
  copies the message into every ring that has room. Indexing a subscriber that does not exist
  panics in the source and is \<open>None\<close> here.
\<close>

record 'a message_bus =
  subscribers :: "'a spsc_ring list"
  per_subscriber_capacity :: usize

definition bus_new :: "usize \<Rightarrow> 'a message_bus" where
  "bus_new c = \<lparr>subscribers = [], per_subscriber_capacity = c\<rparr>"

definition subscribe :: "'a message_bus \<Rightarrow> nat \<times> 'a message_bus" where
  "subscribe b =
     (let b' = b\<lparr>subscribers := subscribers b @ [with_capacity (per_subscriber_capacity b)]\<rparr>
      in (length (subscribers b') - 1, b'))"

definition subscriber_count :: "'a message_bus \<Rightarrow> nat" where
  "subscriber_count b = length (subscribers b)"

fun publish_rings :: "'a \<Rightarrow> 'a spsc_ring list \<Rightarrow> nat \<times> 'a spsc_ring list" where
  "publish_rings v [] = (0, [])"
| "publish_rings v (r # rs) =
     (case ring_push r v of (res, r') \<Rightarrow>
        (case publish_rings v rs of (n, rs') \<Rightarrow>
           ((case res of Inr _ \<Rightarrow> Suc n | Inl _ \<Rightarrow> n), r' # rs')))"

definition publish :: "'a \<Rightarrow> 'a message_bus \<Rightarrow> nat \<times> 'a message_bus" where
  "publish v b = (case publish_rings v (subscribers b) of (n, rs) \<Rightarrow> (n, b\<lparr>subscribers := rs\<rparr>))"

definition with_ring :: "nat \<Rightarrow> ('a spsc_ring \<Rightarrow> 'b \<times> 'a spsc_ring) \<Rightarrow> 'a message_bus \<Rightarrow>
    ('b \<times> 'a message_bus) option" where
  "with_ring sid f b =
     (if sid < length (subscribers b)
      then (case f (subscribers b ! sid) of (x, r) \<Rightarrow>
              Some (x, b\<lparr>subscribers := (subscribers b)[sid := r]\<rparr>))
      else None)"

definition try_deliver :: "nat \<Rightarrow> 'a \<Rightarrow> 'a message_bus \<Rightarrow> (bool \<times> 'a message_bus) option" where
  "try_deliver sid v b =
     with_ring sid (\<lambda>r. case ring_push r v of (res, r') \<Rightarrow> (res = Inr (), r')) b"

definition poll :: "nat \<Rightarrow> 'a list \<Rightarrow> 'a message_bus \<Rightarrow> (('a list \<times> nat) \<times> 'a message_bus) option" where
  "poll sid out b =
     with_ring sid (\<lambda>r. case drain_ring r out of (out', r') \<Rightarrow>
        ((out', length out' - length out), r')) b"

definition pending :: "nat \<Rightarrow> 'a message_bus \<Rightarrow> usize option" where
  "pending sid b = (if sid < length (subscribers b) then Some (ring_len (subscribers b ! sid)) else None)"

definition bus_inv :: "'a message_bus \<Rightarrow> bool" where
  "bus_inv b \<longleftrightarrow> (\<forall>r \<in> set (subscribers b). ring_inv r)"

lemma publish_rings_result:
  assumes "\<forall>r \<in> set rs. ring_inv r"
  shows "fst (publish_rings v rs) = length (filter (\<lambda>r. length (ring_contents r) < ring_room r) rs)"
    and "snd (publish_rings v rs) = map (\<lambda>r. snd (ring_push r v)) rs"
proof -
  have "publish_rings v rs = (length (filter (\<lambda>r. length (ring_contents r) < ring_room r) rs),
      map (\<lambda>r. snd (ring_push r v)) rs)"
    using assms
  proof (induction rs)
    case (Cons r rs)
    then have "ring_inv r" by simp
    from spsc.push_result(4) [OF this, of v] Cons show ?case
      by (cases "ring_push r v") auto
  qed simp
  then show "fst (publish_rings v rs) = length (filter (\<lambda>r. length (ring_contents r) < ring_room r) rs)"
    and "snd (publish_rings v rs) = map (\<lambda>r. snd (ring_push r v)) rs" by simp_all
qed

lemma subscribe_inv:
  assumes "bus_inv b" and "unat (per_subscriber_capacity b) \<le> 2 ^ 63"
  shows "bus_inv (snd (subscribe b))"
  using assms with_capacity_inv(1) [OF assms(2)] by (auto simp: bus_inv_def subscribe_def Let_def)

lemma publish_inv: "bus_inv b \<Longrightarrow> bus_inv (snd (publish v b))"
  by (auto simp: bus_inv_def publish_def publish_rings_result split_beta spsc.push_result)

section \<open>Properties\<close>

text \<open>Fan-out: a publish reports exactly the number of subscribers that had room; every one of
  those has the message as its newest pending value, and the ring of a subscriber without room is
  left as it was. No subscriber's fullness affects another.\<close>

theorem publish_fanout:
  assumes "bus_inv b"
  shows "fst (publish v b) =
      length (filter (\<lambda>r. length (ring_contents r) < unat (ring_cap r)) (subscribers b))
    \<and> bus_inv (snd (publish v b))
    \<and> map ring_contents (subscribers (snd (publish v b))) =
      map (\<lambda>r. if length (ring_contents r) < unat (ring_cap r) then ring_contents r @ [v]
               else ring_contents r) (subscribers b)"
  using assms publish_inv [OF assms]
  by (auto simp: bus_inv_def publish_def publish_rings_result split_beta spsc.push_result
      ring_room_def)

text \<open>Delivery: polling a subscriber returns its pending messages in publication order behind
  what the output vector held, reports their number, empties that ring only, and never fails for
  an existing subscriber.\<close>

theorem poll_delivers:
  assumes "bus_inv b" and "sid < subscriber_count b"
  shows "\<exists>b'. poll sid out b = Some ((out @ ring_contents (subscribers b ! sid),
      length (ring_contents (subscribers b ! sid))), b')
    \<and> bus_inv b' \<and> pending sid b' = Some 0
    \<and> (\<forall>j. j \<noteq> sid \<longrightarrow> subscribers b' ! j = subscribers b ! j)"
proof -
  let ?r = "subscribers b ! sid"
  have lt: "sid < length (subscribers b)" using assms(2) by (simp add: subscriber_count_def)
  then have "ring_inv ?r" using assms(1) by (simp add: bus_inv_def)
  from drain_ring_result [OF this, of out] obtain r' where
    r': "drain_ring ?r out = (out @ ring_contents ?r, r')" "ring_inv r'" "ring_contents r' = []"
    by blast
  have "unat (ring_len r') = 0" using r'(3) by (metis length_ring_contents list.size(3))
  then have len: "ring_len r' = 0" by (simp add: unat_eq_0)
  let ?b' = "b\<lparr>subscribers := (subscribers b)[sid := r']\<rparr>"
  have "poll sid out b = Some ((out @ ring_contents ?r, length (ring_contents ?r)), ?b')"
    using r'(1) lt by (simp add: poll_def with_ring_def)
  moreover have "bus_inv ?b'"
    using assms(1) r'(2) by (auto simp: bus_inv_def dest: set_update_subset_insert [THEN subsetD])
  moreover have "pending sid ?b' = Some 0" using lt len by (simp add: pending_def)
  ultimately show ?thesis by (intro exI [of _ ?b']) simp
qed

definition demo_bus :: "nat message_bus" where
  "demo_bus = \<lparr>subscribers = [wrap_ring, wrap_ring], per_subscriber_capacity = 2\<rparr>"

lemma demo_bus_inv: "bus_inv demo_bus"
  by (simp add: bus_inv_def demo_bus_def wrap_ring_inv)

lemma demo_bus_rings: "ring_contents wrap_ring = [7]" "unat (ring_cap wrap_ring) = 2"
    "unat (ring_len wrap_ring) = 1"
  by (simp_all add: ring_contents_def ring_index_def wrap_ring_def ring_len_def
      unat_minus_one_word_eq)

theorem publish_fanout_witness:
  "bus_inv demo_bus \<and> fst (publish 8 demo_bus) = 2 \<and>
    map ring_contents (subscribers (snd (publish 8 demo_bus))) = [[7, 8], [7, 8]]"
  using demo_bus_inv publish_fanout [OF demo_bus_inv, of 8]
  by (simp add: demo_bus_def demo_bus_rings)

theorem poll_delivers_witness:
  "\<exists>b'. poll 1 [3] demo_bus = Some (([3, 7], 1), b') \<and> pending 1 b' = Some 0"
  using poll_delivers [OF demo_bus_inv, of 1 "[3]"]
  by (auto simp: demo_bus_def demo_bus_rings subscriber_count_def)

end
