(* ===== verification/Wire_Types.thy ===== *)
theory Wire_Types
  imports Mode_Machine
begin

text \<open>
  The plain-old-data wire structs of the core crate (ser/mod.rs, ser/cmd.rs, ser/telemetry.rs) and
  the byte view of such a struct (cast.rs of the ring crate). A float field is its 32 or 64 bit
  pattern: the code under verification only copies, transmits and checksums it. A struct is
  \<open>repr(C)\<close> without padding, so its raw image is the concatenation of the little-endian images of
  its fields (the wire targets are little-endian).
\<close>

section \<open>Casting bytes (cast.rs)\<close>

datatype cast_error = TooShort nat nat | Misaligned nat

definition check_len :: "nat \<Rightarrow> bytes \<Rightarrow> cast_error + unit" where
  "check_len needed bs = (if length bs < needed then Inl (TooShort needed (length bs)) else Inr ())"

definition check_align :: "nat \<Rightarrow> nat \<Rightarrow> cast_error + unit" where
  "check_align needed addr = (if addr mod needed \<noteq> 0 then Inl (Misaligned needed) else Inr ())"

text \<open>\<open>ref_from_bytes::<T>\<close> for a type of the given size and alignment whose image is read by
  \<open>dec\<close>; \<open>addr\<close> is the address of the first byte of the slice.\<close>

definition ref_from_bytes :: "nat \<Rightarrow> nat \<Rightarrow> (bytes \<Rightarrow> 'a) \<Rightarrow> nat \<Rightarrow> bytes \<Rightarrow> cast_error + 'a" where
  "ref_from_bytes sz al dec addr bs =
     (case check_len sz bs of
        Inl e \<Rightarrow> Inl e
      | Inr _ \<Rightarrow> (case check_align al addr of
          Inl e \<Rightarrow> Inl e
        | Inr _ \<Rightarrow> Inr (dec (take sz bs))))"

definition split_prefix :: "nat \<Rightarrow> nat \<Rightarrow> (bytes \<Rightarrow> 'a) \<Rightarrow> nat \<Rightarrow> bytes \<Rightarrow> cast_error + ('a \<times> bytes)" where
  "split_prefix sz al dec addr bs =
     (case check_len sz bs of
        Inl e \<Rightarrow> Inl e
      | Inr _ \<Rightarrow> (case check_align al addr of
          Inl e \<Rightarrow> Inl e
        | Inr _ \<Rightarrow> Inr (dec (take sz bs), drop sz bs)))"

text \<open>The field of \<open>n\<close> bytes at an offset of an image.\<close>

definition field_at :: "nat \<Rightarrow> nat \<Rightarrow> bytes \<Rightarrow> 'a::len word" where
  "field_at off n bs = from_le (take n (drop off bs))"

definition array_at :: "nat \<Rightarrow> nat \<Rightarrow> nat \<Rightarrow> bytes \<Rightarrow> 'a::len word list" where
  "array_at off n k bs = map (\<lambda>i. field_at (off + n * i) n bs) [0..<k]"

section \<open>Frame header (ser/mod.rs)\<close>

definition FRAME_MAGIC :: u32 where "FRAME_MAGIC = 0x54505431"
definition PROTOCOL_VERSION :: u16 where "PROTOCOL_VERSION = 1"

record wire_frame =
  wf_magic :: u32
  wf_version :: u16
  wf_payload_len :: u16

definition wire_frame_bytes :: "wire_frame \<Rightarrow> bytes" where
  "wire_frame_bytes h = le_bytes 4 (wf_magic h) @ le_bytes 2 (wf_version h) @ le_bytes 2 (wf_payload_len h)"

definition wire_frame_of :: "bytes \<Rightarrow> wire_frame" where
  "wire_frame_of bs = \<lparr>wf_magic = field_at 0 4 bs, wf_version = field_at 4 2 bs,
     wf_payload_len = field_at 6 2 bs\<rparr>"

section \<open>Control command (ser/cmd.rs)\<close>

definition MAGIC_COMMAND :: u32 where "MAGIC_COMMAND = 0x434D4401"
definition FLAG_AI_ORIGIN :: u8 where "FLAG_AI_ORIGIN = 2"

record control_command =
  cmd_magic :: u32
  cmd_version :: u16
  cmd_reserved :: u16
  cmd_seq :: u64
  cmd_timestamp_ns :: u64
  cmd_mode :: u8
  cmd_flags :: u8
  cmd_axis_count :: u8
  cmd_pad0 :: u8
  cmd_axes :: "u32 list"
  cmd_crc :: u32

definition command_wf :: "control_command \<Rightarrow> bool" where
  "command_wf c \<longleftrightarrow> length (cmd_axes c) = 6"

definition command_zeroed :: "mode \<Rightarrow> control_command" where
  "command_zeroed m = \<lparr>cmd_magic = MAGIC_COMMAND, cmd_version = 1, cmd_reserved = 0, cmd_seq = 0,
     cmd_timestamp_ns = 0, cmd_mode = as_u8 m, cmd_flags = 0, cmd_axis_count = 6, cmd_pad0 = 0,
     cmd_axes = replicate 6 0, cmd_crc = 0\<rparr>"

definition command_mode :: "control_command \<Rightarrow> mode option" where
  "command_mode c = from_u8 (cmd_mode c)"

definition command_set_mode :: "mode \<Rightarrow> control_command \<Rightarrow> control_command" where
  "command_set_mode m c = c\<lparr>cmd_mode := as_u8 m\<rparr>"

definition is_ai_origin :: "control_command \<Rightarrow> bool" where
  "is_ai_origin c \<longleftrightarrow> cmd_flags c AND FLAG_AI_ORIGIN \<noteq> 0"

definition set_ai_origin :: "control_command \<Rightarrow> control_command" where
  "set_ai_origin c = c\<lparr>cmd_flags := cmd_flags c OR FLAG_AI_ORIGIN\<rparr>"

definition clear_ai_origin :: "control_command \<Rightarrow> control_command" where
  "clear_ai_origin c = c\<lparr>cmd_flags := cmd_flags c AND NOT FLAG_AI_ORIGIN\<rparr>"

definition command_bytes :: "control_command \<Rightarrow> bytes" where
  "command_bytes c = le_bytes 4 (cmd_magic c) @ le_bytes 2 (cmd_version c) @ le_bytes 2 (cmd_reserved c) @
     le_bytes 8 (cmd_seq c) @ le_bytes 8 (cmd_timestamp_ns c) @ le_bytes 1 (cmd_mode c) @
     le_bytes 1 (cmd_flags c) @ le_bytes 1 (cmd_axis_count c) @ le_bytes 1 (cmd_pad0 c) @
     concat (map (le_bytes 4) (cmd_axes c)) @ le_bytes 4 (cmd_crc c)"

definition command_of :: "bytes \<Rightarrow> control_command" where
  "command_of bs = \<lparr>cmd_magic = field_at 0 4 bs, cmd_version = field_at 4 2 bs,
     cmd_reserved = field_at 6 2 bs, cmd_seq = field_at 8 8 bs, cmd_timestamp_ns = field_at 16 8 bs,
     cmd_mode = field_at 24 1 bs, cmd_flags = field_at 25 1 bs, cmd_axis_count = field_at 26 1 bs,
     cmd_pad0 = field_at 27 1 bs, cmd_axes = array_at 28 4 6 bs, cmd_crc = field_at 52 4 bs\<rparr>"

section \<open>Telemetry (ser/telemetry.rs)\<close>

definition MAGIC_TELEMETRY :: u32 where "MAGIC_TELEMETRY = 0x544C4D00"

datatype telemetry_kind = Generic | Battery | Pose | Temperature

fun as_u16 :: "telemetry_kind \<Rightarrow> u16" where
  "as_u16 Generic = 0"
| "as_u16 Battery = 1"
| "as_u16 Pose = 2"
| "as_u16 Temperature = 3"

definition from_u16 :: "u16 \<Rightarrow> telemetry_kind option" where
  "from_u16 v = (if v = 0 then Some Generic else if v = 1 then Some Battery
     else if v = 2 then Some Pose else if v = 3 then Some Temperature else None)"

record imu_sample =
  imu_magic :: u32
  imu_version :: u16
  imu_reserved :: u16
  imu_seq :: u64
  imu_timestamp_ns :: u64
  imu_gyro_rps :: "u32 list"
  imu_accel_g :: "u32 list"

definition imu_zeroed :: "u64 \<Rightarrow> u64 \<Rightarrow> imu_sample" where
  "imu_zeroed sq ts = \<lparr>imu_magic = MAGIC_TELEMETRY OR 1, imu_version = 1, imu_reserved = 0,
     imu_seq = sq, imu_timestamp_ns = ts, imu_gyro_rps = replicate 3 0, imu_accel_g = replicate 3 0\<rparr>"

record gps_sample =
  gps_magic :: u32
  gps_version :: u16
  gps_reserved :: u16
  gps_seq :: u64
  gps_timestamp_ns :: u64
  gps_lat_deg :: u64
  gps_lon_deg :: u64
  gps_alt_m :: u64
  gps_speed_mps :: u32
  gps_course_deg :: u32
  gps_sats :: u32
  gps_fix_ok :: u32

definition gps_zeroed :: "u64 \<Rightarrow> u64 \<Rightarrow> gps_sample" where
  "gps_zeroed sq ts = \<lparr>gps_magic = MAGIC_TELEMETRY OR 2, gps_version = 1, gps_reserved = 0,
     gps_seq = sq, gps_timestamp_ns = ts, gps_lat_deg = 0, gps_lon_deg = 0, gps_alt_m = 0,
     gps_speed_mps = 0, gps_course_deg = 0, gps_sats = 0, gps_fix_ok = 0\<rparr>"

record telemetry_packet =
  tlm_magic :: u32
  tlm_kind :: u16
  tlm_reserved :: u16
  tlm_seq :: u64
  tlm_timestamp_ns :: u64
  tlm_values :: "u32 list"

definition telemetry_wf :: "telemetry_packet \<Rightarrow> bool" where
  "telemetry_wf p \<longleftrightarrow> length (tlm_values p) = 8"

definition telemetry_zeroed :: "telemetry_kind \<Rightarrow> u64 \<Rightarrow> u64 \<Rightarrow> telemetry_packet" where
  "telemetry_zeroed k sq ts = \<lparr>tlm_magic = MAGIC_TELEMETRY, tlm_kind = as_u16 k, tlm_reserved = 0,
     tlm_seq = sq, tlm_timestamp_ns = ts, tlm_values = replicate 8 0\<rparr>"

definition telemetry_bytes :: "telemetry_packet \<Rightarrow> bytes" where
  "telemetry_bytes p = le_bytes 4 (tlm_magic p) @ le_bytes 2 (tlm_kind p) @ le_bytes 2 (tlm_reserved p) @
     le_bytes 8 (tlm_seq p) @ le_bytes 8 (tlm_timestamp_ns p) @ concat (map (le_bytes 4) (tlm_values p))"

definition telemetry_of :: "bytes \<Rightarrow> telemetry_packet" where
  "telemetry_of bs = \<lparr>tlm_magic = field_at 0 4 bs, tlm_kind = field_at 4 2 bs,
     tlm_reserved = field_at 6 2 bs, tlm_seq = field_at 8 8 bs, tlm_timestamp_ns = field_at 16 8 bs,
     tlm_values = array_at 24 4 8 bs\<rparr>"

section \<open>Reading back what was written\<close>

text \<open>Reading a field of an image laid out field by field: skip the fields before it, then read it.\<close>

lemma length_concat_le_bytes [simp]: "length (concat (map (le_bytes n) ws)) = n * length ws"
  by (induction ws) simp_all

lemma field_at_here:
  "LENGTH('a) = 8 * n \<Longrightarrow> field_at 0 n (le_bytes n (w :: 'a::len word) @ rest) = w"
  "LENGTH('a) = 8 * n \<Longrightarrow> field_at 0 n (le_bytes n (w :: 'a::len word)) = w"
  by (simp_all add: field_at_def from_le_le_bytes)

lemma field_at_skip:
  "length pre \<le> off \<Longrightarrow> field_at off n (pre @ rest) = field_at (off - length pre) n rest"
  by (simp add: field_at_def)

lemma array_at_skip:
  "length pre \<le> off \<Longrightarrow> array_at off n k (pre @ rest) = array_at (off - length pre) n k rest"
  by (simp add: array_at_def field_at_skip)

lemma array_at_Suc: "array_at off n (Suc k) bs = field_at off n bs # array_at (off + n) n k bs"
  by (simp add: array_at_def map_upt_Suc ac_simps del: upt_Suc)

lemma array_at_here:
  fixes ws :: "'a::len word list"
  assumes "LENGTH('a) = 8 * n" and "length ws = k"
  shows "array_at 0 n k (concat (map (le_bytes n) ws) @ rest) = ws"
  using assms(2)
proof (induction ws arbitrary: k)
  case (Cons w ws)
  then show ?case using assms(1)
    by (auto simp: array_at_Suc field_at_here array_at_skip)
qed (simp add: array_at_def)

lemmas image_simps = field_at_here field_at_skip array_at_skip array_at_here
  array_at_here [where rest = "[]", simplified]

text \<open>The other direction: writing back a field that was read gives the bytes read.\<close>

lemma le_bytes_field_at:
  assumes "off + n \<le> length bs" and "LENGTH('a) = 8 * n"
  shows "le_bytes n (field_at off n bs :: 'a::len word) = take n (drop off bs)"
  using assms unfolding field_at_def by (intro le_bytes_from_le) simp_all

lemma wire_frame_roundtrip [simp]:
  "wire_frame_of (wire_frame_bytes h) = h" "length (wire_frame_bytes h) = 8"
  by (simp_all add: wire_frame_of_def wire_frame_bytes_def image_simps)

lemma length_command_bytes: "command_wf c \<Longrightarrow> length (command_bytes c) = 56"
  by (simp add: command_bytes_def command_wf_def)

lemma length_telemetry_bytes: "telemetry_wf p \<Longrightarrow> length (telemetry_bytes p) = 56"
  by (simp add: telemetry_bytes_def telemetry_wf_def)

lemma command_of_bytes: "command_wf c \<Longrightarrow> command_of (command_bytes c) = c"
  by (simp add: command_of_def command_bytes_def command_wf_def image_simps)

lemma telemetry_of_bytes: "telemetry_wf p \<Longrightarrow> telemetry_of (telemetry_bytes p) = p"
  by (simp add: telemetry_of_def telemetry_bytes_def telemetry_wf_def image_simps)

section \<open>Properties\<close>

text \<open>Raw-cast round trip: the raw image of a control command is 56 bytes long, and casting any
  buffer that starts with it (at an address aligned to 8) gives the command back, every field
  included; a shorter or misaligned buffer is refused with the matching error.\<close>

theorem command_cast_roundtrip:
  assumes "command_wf c"
  shows "length (command_bytes c) = 56 \<and>
    ref_from_bytes 56 8 command_of (8 * a) (command_bytes c @ rest) = Inr c \<and>
    (n < 56 \<longrightarrow> ref_from_bytes 56 8 command_of (8 * a) (take n (command_bytes c)) =
       Inl (TooShort 56 n)) \<and>
    (b mod 8 \<noteq> 0 \<longrightarrow> ref_from_bytes 56 8 command_of b (command_bytes c @ rest) = Inl (Misaligned 8))"
  using length_command_bytes [OF assms] command_of_bytes [OF assms]
  by (simp add: ref_from_bytes_def check_len_def check_align_def)

theorem command_cast_roundtrip_witness:
  "command_wf (command_zeroed FullTeleop) \<and>
    ref_from_bytes 56 8 command_of (8 * 2) (command_bytes (command_zeroed FullTeleop) @ [1, 2]) =
      Inr (command_zeroed FullTeleop) \<and>
    ref_from_bytes 56 8 command_of (8 * 2) (take 55 (command_bytes (command_zeroed FullTeleop))) =
      Inl (TooShort 56 55) \<and>
    ref_from_bytes 56 8 command_of 4 (command_bytes (command_zeroed FullTeleop) @ [1, 2]) =
      Inl (Misaligned 8)"
proof -
  have wf: "command_wf (command_zeroed FullTeleop)"
    by (simp add: command_wf_def command_zeroed_def)
  have "(55 :: nat) < 56" and "(4 :: nat) mod 8 \<noteq> 0" by simp_all
  with wf command_cast_roundtrip [OF wf, of 2 "[1, 2]" 55 4] show ?thesis by blast
qed

text \<open>The mode and the AI-origin tag of a command can be set in place and read back, and setting
  one leaves every other field, in particular the other flags, as they were.\<close>

theorem command_tagging:
  "command_mode (command_set_mode m c) = Some m \<and>
   is_ai_origin (set_ai_origin c) \<and> \<not> is_ai_origin (clear_ai_origin c) \<and>
   cmd_flags (set_ai_origin c) AND NOT FLAG_AI_ORIGIN = cmd_flags c AND NOT FLAG_AI_ORIGIN \<and>
   cmd_flags (clear_ai_origin c) AND NOT FLAG_AI_ORIGIN = cmd_flags c AND NOT FLAG_AI_ORIGIN \<and>
   command_set_mode m c = c\<lparr>cmd_mode := as_u8 m\<rparr> \<and> command_mode (command_zeroed m) = Some m"
proof -
  have nz: "FLAG_AI_ORIGIN \<noteq> 0" by (simp add: FLAG_AI_ORIGIN_def)
  have "(x OR y) AND y = y" "(x OR y) AND NOT y = x AND NOT y" "(x AND NOT y) AND y = 0"
    for x y :: u8 by (rule bit_eqI, auto simp: bit_simps)+
  then show ?thesis
    using nz by (simp add: command_mode_def command_set_mode_def is_ai_origin_def set_ai_origin_def
        clear_ai_origin_def command_zeroed_def and.assoc del: as_u8.simps)
qed

end
