(* ===== verification/Reliable.thy ===== *)
theory Reliable
  imports Wire_Types
begin

text \<open>
  The reliable control channel (reliable.rs): a selective-repeat sender with a fixed retention
  window, a receiver with a 32-frame reorder buffer, and the acknowledgement frame between them.
  A failed \<open>assert!\<close> or slice index is the value \<open>TxPanic\<close> or \<open>None\<close>.

  The last part composes the two ends over a network that may lose, duplicate and reorder frames
  and acknowledgements, as a step relation, and proves the contract of the module by rule
  induction: delivery is in order and free of duplicates, and no frame leaves the sender before the
  receiver holds it.
\<close>

definition MAX_RELIABLE_PAYLOAD :: nat where "MAX_RELIABLE_PAYLOAD = 256"
definition SACK_BITS :: nat where "SACK_BITS = 32"
definition SACK_MAX :: nat where "SACK_MAX = SACK_BITS - 1"

section \<open>Acknowledgement frames\<close>

record ack_frame =
  base_seq :: u32
  bitmap :: u32
  rtt_sample_ns :: u64

definition ack_bytes :: "ack_frame \<Rightarrow> bytes" where
  "ack_bytes a = le_bytes 4 (base_seq a) @ le_bytes 4 (bitmap a) @ le_bytes 8 (rtt_sample_ns a)"

definition ack_of :: "bytes \<Rightarrow> ack_frame" where
  "ack_of bs = \<lparr>base_seq = field_at 0 4 bs, bitmap = field_at 4 4 bs, rtt_sample_ns = field_at 8 8 bs\<rparr>"

definition ack_encode_into :: "ack_frame \<Rightarrow> bytes \<Rightarrow> (nat \<times> bytes) option" where
  "ack_encode_into a out =
     (let b = ack_bytes a in
      if length out < length b then None else Some (length b, write_at 0 b out))"

definition ack_decode :: "nat \<Rightarrow> bytes \<Rightarrow> ack_frame option" where
  "ack_decode addr bs = (case ref_from_bytes 16 8 ack_of addr bs of Inl _ \<Rightarrow> None | Inr a \<Rightarrow> Some a)"

definition covers :: "ack_frame \<Rightarrow> u32 \<Rightarrow> bool" where
  "covers a seq =
     (let diff = seq - base_seq a in
      if diff > 0x7FFFFFFF then True
      else if diff = 0 then True
      else if unat diff \<le> SACK_MAX then bitmap a AND push_bit (unat diff - 1) 1 \<noteq> 0
      else False)"

section \<open>The sender\<close>

record reliable_config =
  rc_window :: usize
  rc_rto_ns :: u64
  rc_max_resends :: u32

definition reliable_config_default :: reliable_config where
  "reliable_config_default = \<lparr>rc_window = 128, rc_rto_ns = 10000000, rc_max_resends = 200\<rparr>"

datatype tx_error = TxFull u32 | TxPanic

record tx_slot =
  tx_seq :: u32
  tx_len :: nat
  tx_bytes :: bytes
  first_ns :: u64
  last_ns :: u64
  resends :: u32

record reliable_tx =
  tx_slots :: "tx_slot list"
  tx_mask :: usize
  oldest :: u32

definition tx_new :: "reliable_config \<Rightarrow> reliable_tx" where
  "tx_new cfg =
     (let window = max (next_power_of_two (rc_window cfg)) 1 in
      \<lparr>tx_slots = map (\<lambda>i. \<lparr>tx_seq = word_of_nat i, tx_len = 0, tx_bytes = replicate MAX_RELIABLE_PAYLOAD 0,
          first_ns = 0, last_ns = 0, resends = 0\<rparr>) [0..<unat window],
       tx_mask = window - 1, oldest = 0\<rparr>)"

definition tx_window :: "reliable_tx \<Rightarrow> nat" where
  "tx_window tx = length (tx_slots tx)"

text \<open>\<open>self.slots.len() as u32\<close>, and the masked slot index of a sequence number.\<close>

definition tx_window32 :: "reliable_tx \<Rightarrow> u32" where
  "tx_window32 tx = word_of_nat (length (tx_slots tx))"

definition tx_index :: "reliable_tx \<Rightarrow> u32 \<Rightarrow> nat" where
  "tx_index tx seq = unat ((ucast seq :: usize) AND tx_mask tx)"

definition tx_in_flight :: "reliable_tx \<Rightarrow> nat" where
  "tx_in_flight tx =
     length (filter (\<lambda>s. 0 < tx_len s \<and> tx_seq s - oldest tx < tx_window32 tx) (tx_slots tx))"

definition tx_send :: "reliable_tx \<Rightarrow> u32 \<Rightarrow> bytes \<Rightarrow> u64 \<Rightarrow> tx_error + reliable_tx" where
  "tx_send tx seq payload now_ns =
     (if MAX_RELIABLE_PAYLOAD < length payload then Inl TxPanic
      else if length (tx_slots tx) \<le> unat (seq - oldest tx) then Inl (TxFull seq)
      else
        let i = tx_index tx seq; slot = tx_slots tx ! i in
        if length (tx_slots tx) \<le> i then Inl TxPanic
        else if 0 < tx_len slot \<and> tx_seq slot = seq \<and> first_ns slot \<noteq> 0 then Inl (TxFull seq)
        else Inr (tx\<lparr>tx_slots := (tx_slots tx)[i :=
          \<lparr>tx_seq = seq, tx_len = length payload, tx_bytes = write_at 0 payload (tx_bytes slot),
           first_ns = now_ns, last_ns = now_ns, resends = 0\<rparr>]\<rparr>))"

text \<open>Emptying a slot and taking its round-trip sample, the work both halves of \<open>on_ack\<close> share.\<close>

definition rtt_of :: "u64 \<Rightarrow> tx_slot \<Rightarrow> u64 option \<Rightarrow> u64 option" where
  "rtt_of now_ns slot rtt =
     (if rtt = None \<and> 0 < tx_len slot \<and> first_ns slot \<noteq> 0
      then Some (saturating_sub now_ns (first_ns slot)) else rtt)"

definition free_slot :: "nat \<Rightarrow> reliable_tx \<Rightarrow> reliable_tx" where
  "free_slot i tx = tx\<lparr>tx_slots := (tx_slots tx)[i := (tx_slots tx ! i)\<lparr>tx_len := 0, first_ns := 0\<rparr>]\<rparr>"

lemma free_slot_fields [frame_simps]:
  "oldest (free_slot i tx) = oldest tx" "tx_mask (free_slot i tx) = tx_mask tx"
  "length (tx_slots (free_slot i tx)) = length (tx_slots tx)"
  by (simp_all add: free_slot_def)

function ack_cumulative :: "u32 \<Rightarrow> u64 \<Rightarrow> reliable_tx \<times> u64 option \<Rightarrow> reliable_tx \<times> u64 option" where
  "ack_cumulative base now_ns (tx, rtt) =
     (let diff = base - oldest tx in
      if diff = 0 \<or> tx_window32 tx \<le> diff then (tx, rtt)
      else
        let i = tx_index tx (oldest tx) in
        ack_cumulative base now_ns
          ((free_slot i tx)\<lparr>oldest := oldest tx + 1\<rparr>, rtt_of now_ns (tx_slots tx ! i) rtt))"
  by pat_completeness auto
termination
proof (relation "measure (\<lambda>(base, now_ns, tx, rtt). unat (base - oldest tx))")
  fix base :: u32 and now_ns :: u64 and tx :: reliable_tx and rtt :: "u64 option" and x xa
  assume "x = base - oldest tx" "\<not> (x = 0 \<or> tx_window32 tx \<le> x)"
  then have "oldest tx \<noteq> base" by auto
  from word_distance_decreases [OF this]
  show "((base, now_ns, (free_slot xa tx)\<lparr>oldest := oldest tx + 1\<rparr>, rtt_of now_ns (tx_slots tx ! xa) rtt),
      base, now_ns, tx, rtt) \<in> measure (\<lambda>(base, now_ns, tx, rtt). unat (base - oldest tx))"
    by simp
qed simp

declare ack_cumulative.simps [simp del]

definition ack_sack_bit :: "ack_frame \<Rightarrow> u64 \<Rightarrow> nat \<Rightarrow> reliable_tx \<times> u64 option \<Rightarrow> reliable_tx \<times> u64 option" where
  "ack_sack_bit ack now_ns i = (\<lambda>(tx, rtt).
     if bitmap ack AND push_bit i 1 \<noteq> 0 then
       let seq = base_seq ack + word_of_nat (1 + i) in
       if seq - oldest tx < tx_window32 tx then
         let j = tx_index tx seq; slot = tx_slots tx ! j in
         if tx_seq slot = seq \<and> 0 < tx_len slot
         then (free_slot j tx, rtt_of now_ns slot rtt) else (tx, rtt)
       else (tx, rtt)
     else (tx, rtt))"

definition on_ack :: "reliable_tx \<Rightarrow> ack_frame \<Rightarrow> u64 \<Rightarrow> reliable_tx \<times> u64 option" where
  "on_ack tx ack now_ns =
     fold (ack_sack_bit ack now_ns) [0..<SACK_BITS - 1]
       (ack_cumulative (base_seq ack) now_ns (tx, None))"

fun tick_slots :: "u64 \<Rightarrow> u64 \<Rightarrow> tx_slot list \<Rightarrow> tx_slot list \<times> (u32 \<times> bytes) list" where
  "tick_slots now_ns rto_ns [] = ([], [])"
| "tick_slots now_ns rto_ns (slot # rest) =
     (let (rest', sent) = tick_slots now_ns rto_ns rest in
      if tx_len slot = 0 \<or> first_ns slot = 0 then (slot # rest', sent)
      else if rto_ns \<le> saturating_sub now_ns (last_ns slot)
      then (slot\<lparr>last_ns := now_ns, resends := resends slot + 1\<rparr> # rest',
            (tx_seq slot, take (tx_len slot) (tx_bytes slot)) # sent)
      else (slot # rest', sent))"

text \<open>The frames handed to the callback, in order; their number is the returned resend count.\<close>

definition tx_tick :: "reliable_tx \<Rightarrow> u64 \<Rightarrow> u64 \<Rightarrow> reliable_tx \<times> (u32 \<times> bytes) list" where
  "tx_tick tx now_ns rto_ns =
     (let (slots, sent) = tick_slots now_ns rto_ns (tx_slots tx) in (tx\<lparr>tx_slots := slots\<rparr>, sent))"

definition max_resends :: "reliable_tx \<Rightarrow> u32" where
  "max_resends tx = fold max (map resends (filter (\<lambda>s. 0 < tx_len s) (tx_slots tx))) 0"

section \<open>The receiver\<close>

datatype accept = InOrder | Buffered | Duplicate | Overflow

record rx_slot =
  rx_len :: nat
  rx_bytes :: bytes

definition rx_slot_zero :: rx_slot where
  "rx_slot_zero = \<lparr>rx_len = 0, rx_bytes = replicate MAX_RELIABLE_PAYLOAD 0\<rparr>"

record reliable_rx =
  rx_next :: u32
  rx_map :: u32
  rx_slots :: "rx_slot list"

definition rx_new :: reliable_rx where
  "rx_new = \<lparr>rx_next = 0, rx_map = 0, rx_slots = map (\<lambda>_. rx_slot_zero) [0..<SACK_BITS]\<rparr>"

definition next_expected :: "reliable_rx \<Rightarrow> u32" where
  "next_expected rx = rx_next rx"

definition buffered_count :: "reliable_rx \<Rightarrow> nat" where
  "buffered_count rx = length (filter (bit (drop_bit 1 (rx_map rx))) [0..<32])"

definition rx_accept :: "reliable_rx \<Rightarrow> u32 \<Rightarrow> bytes \<Rightarrow> (accept \<times> reliable_rx) option" where
  "rx_accept rx seq payload =
     (if MAX_RELIABLE_PAYLOAD < length payload then None
      else
        let diff = seq - rx_next rx in
        if diff > 0x7FFFFFFF then Some (Duplicate, rx)
        else if SACK_BITS \<le> unat diff then Some (Overflow, rx)
        else
          let b = push_bit (unat diff) 1 in
          if rx_map rx AND b \<noteq> 0 then Some (Duplicate, rx)
          else
            let slot = rx_slots rx ! unat diff in
            Some (if diff = 0 then InOrder else Buffered,
              rx\<lparr>rx_map := rx_map rx OR b,
                rx_slots := (rx_slots rx)[unat diff :=
                  \<lparr>rx_len = length payload, rx_bytes = write_at 0 payload (rx_bytes slot)\<rparr>]\<rparr>))"

text \<open>\<open>slots[i] = slots[i + 1].take()\<close> for the 31 lower slots, then a fresh last slot.\<close>

definition shift_slots :: "rx_slot list \<Rightarrow> rx_slot list" where
  "shift_slots slots =
     (fold (\<lambda>i ss. ss[i := ss ! (i + 1), i + 1 := rx_slot_zero]) [0..<SACK_BITS - 1] slots)
       [SACK_BITS - 1 := rx_slot_zero]"

lemma drop_bit_one_less: "odd m \<Longrightarrow> unat (drop_bit 1 m) < unat m" for m :: u32
proof -
  assume "odd m"
  then have "0 < unat m" by (metis even_zero unat_gt_0)
  moreover have "unat (drop_bit 1 m) = unat m div 2"
    by (simp add: drop_bit_eq_div unat_div)
  ultimately show ?thesis by simp
qed

function rx_drain :: "reliable_rx \<Rightarrow> reliable_rx \<times> (u32 \<times> bytes) list" where
  "rx_drain rx =
     (if rx_map rx AND 1 \<noteq> 0 then
        let seq = rx_next rx; slot = rx_slots rx ! 0; len = rx_len slot;
            frame = write_at 0 (take len (rx_bytes slot)) (replicate MAX_RELIABLE_PAYLOAD 0);
            (rx', rest) = rx_drain (rx\<lparr>rx_slots := shift_slots (rx_slots rx),
              rx_map := drop_bit 1 (rx_map rx), rx_next := rx_next rx + 1\<rparr>)
        in (rx', (seq, take len frame) # rest)
      else (rx, []))"
  by pat_completeness auto
termination
  using drop_bit_one_less
  by (relation "measure (\<lambda>rx. unat (rx_map rx))") (auto simp: and_one_eq odd_iff_mod_2_eq_one)

declare rx_drain.simps [simp del]

definition build_ack :: "reliable_rx \<Rightarrow> u64 \<Rightarrow> ack_frame" where
  "build_ack rx rtt = \<lparr>base_seq = rx_next rx, bitmap = drop_bit 1 (rx_map rx), rtt_sample_ns = rtt\<rparr>"

section \<open>What the receiver holds\<close>

definition rx_wf :: "reliable_rx \<Rightarrow> bool" where
  "rx_wf rx \<longleftrightarrow> length (rx_slots rx) = 32 \<and>
     (\<forall>s \<in> set (rx_slots rx). length (rx_bytes s) = 256 \<and> rx_len s \<le> 256)"

text \<open>The payload buffered for the frame \<open>i\<close> places ahead of the expected one.\<close>

definition rx_holds :: "reliable_rx \<Rightarrow> nat \<Rightarrow> bytes option" where
  "rx_holds rx i =
     (if bit (rx_map rx) i then Some (take (rx_len (rx_slots rx ! i)) (rx_bytes (rx_slots rx ! i))) else None)"

lemma bit32_lt: "bit (m :: u32) i \<Longrightarrow> i < 32"
  using bit_imp_le_length [of m i] by simp

lemma test_bit_push: "(m AND push_bit i 1 \<noteq> 0) = bit m i" for m :: u32
  by (auto simp: and_exp_eq_0_iff_not_bit push_bit_eq_mult)

lemma rx_new_wf: "rx_wf rx_new"
  by (auto simp: rx_wf_def rx_new_def rx_slot_zero_def SACK_BITS_def MAX_RELIABLE_PAYLOAD_def)

lemma rx_new_holds: "rx_holds rx_new i = None" "rx_next rx_new = 0"
  by (simp_all add: rx_holds_def rx_new_def)

lemma shift_slots_steps:
  assumes "n < length ss"
  shows "fold (\<lambda>i ss. ss[i := ss ! (i + 1), i + 1 := z]) [0..<n] ss =
    take n (tl ss) @ (if n = 0 then ss ! 0 else z) # drop (Suc n) ss"
  using assms
proof (induction n)
  case 0
  then show ?case by (cases ss) simp_all
next
  case (Suc n)
  have take: "take (Suc n) (tl ss) = take n (tl ss) @ [ss ! Suc n]"
    using Suc.prems by (subst take_Suc_conv_app_nth) (simp_all add: nth_tl)
  have drop: "drop (Suc n) ss = ss ! Suc n # drop (Suc (Suc n)) ss"
    using Suc.prems by (simp add: Cons_nth_drop_Suc)
  have len: "length (take n (tl ss)) = n" using Suc.prems by simp
  show ?case using Suc len by (simp add: take drop nth_append list_update_append)
qed

lemma shift_slots_eq: "length ss = 32 \<Longrightarrow> shift_slots ss = tl ss @ [rx_slot_zero]"
  using shift_slots_steps [of 31 ss rx_slot_zero]
  by (simp add: shift_slots_def SACK_BITS_def list_update_append)

lemma rx_accept_cases:
  fixes seq :: u32
  assumes wf: "rx_wf rx" and len: "length payload \<le> 256"
  defines "i \<equiv> unat (seq - rx_next rx)"
  shows "if 2 ^ 31 \<le> i \<or> rx_holds rx i \<noteq> None then rx_accept rx seq payload = Some (Duplicate, rx)
     else if 32 \<le> i then rx_accept rx seq payload = Some (Overflow, rx)
     else \<exists>rx'. rx_accept rx seq payload = Some (if i = 0 then InOrder else Buffered, rx') \<and>
       rx_wf rx' \<and> rx_next rx' = rx_next rx \<and> rx_holds rx' = (rx_holds rx)(i \<mapsto> payload)"
proof -
  have far: "seq - rx_next rx > 0x7FFFFFFF \<longleftrightarrow> 2 ^ 31 \<le> i"
    by (simp add: i_def word_less_nat_alt) linarith
  have zero: "seq - rx_next rx = 0 \<longleftrightarrow> i = 0" by (simp add: i_def unat_eq_0)
  have hold: "rx_holds rx j \<noteq> None \<longleftrightarrow> bit (rx_map rx) j" for j by (simp add: rx_holds_def)
  show ?thesis
  proof (cases "32 \<le> i \<or> bit (rx_map rx) i")
    case True
    then show ?thesis
      using len bit32_lt [of "rx_map rx" i] 
      unfolding hold rx_accept_def Let_def far zero i_def [symmetric] test_bit_push
      by (auto simp: SACK_BITS_def MAX_RELIABLE_PAYLOAD_def)
  next
    case False
    define slot where "slot = \<lparr>rx_len = length payload, rx_bytes = write_at 0 payload (rx_bytes (rx_slots rx ! i))\<rparr>"
    define rx' where "rx' = rx\<lparr>rx_map := rx_map rx OR push_bit i 1, rx_slots := (rx_slots rx)[i := slot]\<rparr>"
    have i: "i < length (rx_slots rx)" using False wf by (simp add: rx_wf_def)
    have near: "\<not> 2 ^ 31 \<le> i" using False by simp
    have acc: "rx_accept rx seq payload = Some (if i = 0 then InOrder else Buffered, rx')"
      using len False unfolding rx_accept_def Let_def far zero i_def [symmetric] test_bit_push
      by (simp add: rx'_def slot_def SACK_BITS_def MAX_RELIABLE_PAYLOAD_def)
    have "length (rx_bytes (rx_slots rx ! i)) = 256" using i wf by (auto simp: rx_wf_def)
    then have slot: "length (rx_bytes slot) = 256" "rx_len slot \<le> 256" "take (rx_len slot) (rx_bytes slot) = payload"
      using len by (simp_all add: slot_def)
    have "rx_wf rx'" using wf slot(1,2) set_update_subset_insert [of "rx_slots rx" i slot]
      by (auto simp: rx_wf_def rx'_def)
    moreover have "rx_holds rx' = (rx_holds rx)(i \<mapsto> payload)"
    proof
      fix j
      have "bit (rx_map rx') j \<longleftrightarrow> bit (rx_map rx) j \<or> j = i"
        using False by (auto simp: rx'_def bit_or_iff bit_exp_iff)
      then show "rx_holds rx' j = ((rx_holds rx)(i \<mapsto> payload)) j"
        using i slot(3) by (auto simp: rx_holds_def rx'_def)
    qed
    moreover have "rx_next rx' = rx_next rx" by (simp add: rx'_def)
    moreover have "rx_holds rx i = None" using False by (simp add: rx_holds_def)
    ultimately show ?thesis using acc False near by simp
  qed
qed

text \<open>One turn of the drain loop moves the window by one frame.\<close>

lemma rx_shift:
  fixes n :: u32
  assumes wf: "rx_wf rx"
  defines "rx' \<equiv> rx\<lparr>rx_slots := shift_slots (rx_slots rx), rx_map := drop_bit 1 (rx_map rx), rx_next := n\<rparr>"
  shows "rx_wf rx'" and "rx_holds rx' i = rx_holds rx (Suc i)"
proof -
  have len: "length (rx_slots rx) = 32" using wf by (simp add: rx_wf_def)
  have "set (tl (rx_slots rx)) \<subseteq> set (rx_slots rx)" by (cases "rx_slots rx") auto
  then show "rx_wf rx'" using wf
    by (auto simp: rx_wf_def rx'_def shift_slots_eq [OF len] rx_slot_zero_def MAX_RELIABLE_PAYLOAD_def)
  have "(tl (rx_slots rx) @ [rx_slot_zero]) ! i = rx_slots rx ! Suc i" if "bit (rx_map rx) (Suc i)"
    using bit32_lt [OF that] len by (simp add: nth_append nth_tl)
  then show "rx_holds rx' i = rx_holds rx (Suc i)"
    by (simp add: rx_holds_def rx'_def shift_slots_eq [OF len] bit_drop_bit_eq)
qed

lemma rx_drain_spec:
  assumes "rx_wf rx" and "rx_drain rx = (rx', frames)"
  shows "\<exists>n. rx_wf rx' \<and> rx_next rx' = rx_next rx + word_of_nat n \<and>
     frames = map (\<lambda>i. (rx_next rx + word_of_nat i, the (rx_holds rx i))) [0..<n] \<and>
     (\<forall>i<n. rx_holds rx i \<noteq> None) \<and> (\<forall>i. rx_holds rx' i = rx_holds rx (n + i)) \<and> rx_holds rx' 0 = None"
  using assms
proof (induction rx arbitrary: rx' frames rule: rx_drain.induct)
  case (1 rx)
  show ?case
  proof (cases "rx_map rx AND 1 \<noteq> 0")
    case False
    then have "\<not> bit (rx_map rx) 0" using test_bit_push [of "rx_map rx" 0] by simp
    then have "rx_holds rx 0 = None" by (simp add: rx_holds_def)
    then show ?thesis using 1 False by (intro exI [of _ 0]) (simp add: rx_drain.simps [of rx])
  next
    case True
    define slot where "slot = rx_slots rx ! 0"
    define rx1 where "rx1 = rx\<lparr>rx_slots := shift_slots (rx_slots rx), rx_map := drop_bit 1 (rx_map rx),
      rx_next := rx_next rx + 1\<rparr>"
    obtain rest where rest: "rx_drain rx1 = (rx', rest)" and frames: "frames = (rx_next rx,
        take (rx_len slot) (write_at 0 (take (rx_len slot) (rx_bytes slot)) (replicate 256 0))) # rest"
      using 1(3) True unfolding rx_drain.simps [of rx]
      by (auto simp: Let_def rx1_def slot_def MAX_RELIABLE_PAYLOAD_def split: prod.splits)
    have slot: "length (rx_bytes slot) = 256" "rx_len slot \<le> 256"
      using 1(2) by (auto simp: rx_wf_def slot_def)
    have bit0: "bit (rx_map rx) 0" using True test_bit_push [of "rx_map rx" 0] by simp
    then have hold0: "rx_holds rx 0 = Some (take (rx_len slot) (rx_bytes slot))"
      by (simp add: rx_holds_def slot_def)
    have copy: "take (rx_len slot) (write_at 0 (take (rx_len slot) (rx_bytes slot)) (replicate 256 0))
        = take (rx_len slot) (rx_bytes slot)"
      using slot by (simp add: write_at_def)
    note sh = rx_shift [OF 1(2), of "rx_next rx + 1", folded rx1_def]
    obtain n where n: "rx_wf rx'" "rx_next rx' = rx_next rx1 + word_of_nat n"
        "rest = map (\<lambda>i. (rx_next rx1 + word_of_nat i, the (rx_holds rx1 i))) [0..<n]"
        "\<forall>i<n. rx_holds rx1 i \<noteq> None" "\<forall>i. rx_holds rx' i = rx_holds rx1 (n + i)" "rx_holds rx' 0 = None"
      using 1(1) [OF True refl refl refl refl, folded rx1_def] sh(1) rest by blast
    have next1: "rx_next rx1 = rx_next rx + 1" by (simp add: rx1_def)
    have "frames = map (\<lambda>i. (rx_next rx + word_of_nat i, the (rx_holds rx i))) [0..<Suc n]"
      unfolding frames copy n(3) next1 sh(2) map_upt_Suc using hold0 by (simp add: ac_simps)
    moreover have "\<forall>i<Suc n. rx_holds rx i \<noteq> None"
      using n(4) hold0 unfolding sh(2) by (metis less_Suc_eq_0_disj option.distinct(1))
    ultimately show ?thesis using n(1,2,5,6) next1
      by (intro exI [of _ "Suc n"]) (simp add: sh(2) ac_simps)
  qed
qed

section \<open>What the sender retains\<close>

definition tx_slot_ok :: "nat \<Rightarrow> u32 \<Rightarrow> nat \<Rightarrow> tx_slot \<Rightarrow> bool" where
  "tx_slot_ok k old i s \<longleftrightarrow> length (tx_bytes s) = 256 \<and> tx_len s \<le> 256 \<and>
     (0 < tx_len s \<longrightarrow> unat (tx_seq s) mod 2 ^ k = i \<and> unat (tx_seq s - old) < 2 ^ k \<and> first_ns s \<noteq> 0)"

definition tx_inv :: "nat \<Rightarrow> reliable_tx \<Rightarrow> bool" where
  "tx_inv k tx \<longleftrightarrow> k \<le> 31 \<and> length (tx_slots tx) = 2 ^ k \<and> tx_mask tx = 2 ^ k - 1 \<and>
     (\<forall>i < 2 ^ k. tx_slot_ok k (oldest tx) i (tx_slots tx ! i))"

text \<open>The payload retained under a sequence number.\<close>

definition tx_retained :: "reliable_tx \<Rightarrow> u32 \<Rightarrow> bytes option" where
  "tx_retained tx seq =
     (let s = tx_slots tx ! tx_index tx seq in
      if 0 < tx_len s \<and> tx_seq s = seq then Some (take (tx_len s) (tx_bytes s)) else None)"

lemma unat_u32_as_usize: "unat (ucast (w :: u32) :: usize) = unat w"
proof -
  have "unat w < 2 ^ 32" using unsigned_less [of w, where 'a = nat] by simp
  then show ?thesis by (simp add: unsigned_ucast_eq take_bit_nat_eq_self)
qed

lemma tx_index_eq: "tx_inv k tx \<Longrightarrow> tx_index tx seq = unat seq mod 2 ^ k"
  using unat_and_mask_pow2 [of k "ucast seq :: usize"]
  by (simp add: tx_index_def tx_inv_def unat_u32_as_usize)

lemma tx_window32_eq: "tx_inv k tx \<Longrightarrow> unat (tx_window32 tx) = 2 ^ k"
  using unat_exp_word [of k, where 'a = 32] by (simp add: tx_inv_def tx_window32_def)

lemma tx_window_less: "tx_inv k tx \<Longrightarrow> d < tx_window32 tx \<longleftrightarrow> unat d < 2 ^ k"
  by (simp add: word_less_nat_alt tx_window32_eq)

lemma tx_inv_slot: "tx_inv k tx \<Longrightarrow> tx_slot_ok k (oldest tx) (tx_index tx seq) (tx_slots tx ! tx_index tx seq)"
  by (simp add: tx_index_eq) (simp add: tx_inv_def)

text \<open>Two sequence numbers of the window never share a slot.\<close>

lemma tx_index_inj:
  assumes "tx_inv k tx" and "unat (s - oldest tx) < 2 ^ k" and "unat (t - oldest tx) < 2 ^ k"
    and "tx_index tx s = tx_index tx t"
  shows "s = t"
proof -
  have k: "k \<le> LENGTH(32)" using assms(1) by (simp add: tx_inv_def)
  have idx: "tx_index tx x = (unat (oldest tx) + unat (x - oldest tx)) mod 2 ^ k" for x
    using unat_add_of_nat_mod [OF k, of "oldest tx" "unat (x - oldest tx)"]
    by (simp add: tx_index_eq [OF assms(1)])
  have "unat (s - oldest tx) = unat (t - oldest tx)"
    using assms(2-4) mod_add_inject unfolding idx by blast
  then show ?thesis by (simp add: word_unat_eq_iff [symmetric])
qed

lemma tx_retained_window:
  assumes "tx_inv k tx" and "tx_retained tx seq \<noteq> None"
  shows "unat (seq - oldest tx) < 2 ^ k"
  using assms(2) tx_inv_slot [OF assms(1), of seq]
  by (auto simp: tx_retained_def tx_slot_ok_def Let_def split: if_splits)

lemma tx_inv_update:
  assumes "tx_inv k tx" and "tx_slot_ok k (oldest tx) i s"
  shows "tx_inv k (tx\<lparr>tx_slots := (tx_slots tx)[i := s]\<rparr>)"
proof -
  have "tx_slot_ok k (oldest tx) j ((tx_slots tx)[i := s] ! j)" if "j < 2 ^ k" for j
    using assms that by (cases "j = i") (simp_all add: tx_inv_def)
  then show ?thesis using assms(1) by (simp add: tx_inv_def)
qed

text \<open>Replacing the slot of a sequence number of the window concerns that number only.\<close>

lemma tx_retained_update:
  assumes inv: "tx_inv k tx" and seq: "unat (seq - oldest tx) < 2 ^ k" and ok: "tx_seq s = seq \<or> tx_len s = 0"
  shows "tx_retained (tx\<lparr>tx_slots := (tx_slots tx)[tx_index tx seq := s]\<rparr>) =
    (tx_retained tx)(seq := if 0 < tx_len s then Some (take (tx_len s) (tx_bytes s)) else None)"
proof
  fix t
  let ?tx = "tx\<lparr>tx_slots := (tx_slots tx)[tx_index tx seq := s]\<rparr>"
  have idx: "tx_index ?tx t = tx_index tx t" by (simp add: tx_index_def)
  have lt: "tx_index tx x < length (tx_slots tx)" for x
    using inv by (simp add: tx_index_eq [OF inv]) (simp add: tx_inv_def)
  show "tx_retained ?tx t =
    ((tx_retained tx)(seq := if 0 < tx_len s then Some (take (tx_len s) (tx_bytes s)) else None)) t"
  proof (cases "tx_index tx t = tx_index tx seq")
    case False
    then show ?thesis by (auto simp: tx_retained_def idx)
  next
    case True
    have "tx_retained tx t = None" if "t \<noteq> seq"
      using tx_index_inj [OF inv seq _ True [symmetric]] tx_retained_window [OF inv, of t] that by blast
    then show ?thesis using True lt ok by (auto simp: tx_retained_def idx Let_def)
  qed
qed

lemma free_slot_retained:
  assumes "tx_inv k tx" and "unat (seq - oldest tx) < 2 ^ k"
  shows "tx_inv k (free_slot (tx_index tx seq) tx)"
    and "tx_retained (free_slot (tx_index tx seq) tx) = (tx_retained tx)(seq := None)"
  unfolding free_slot_def
  using tx_inv_slot [OF assms(1), of seq]
  by (auto intro!: tx_inv_update assms simp: tx_slot_ok_def tx_retained_update [OF assms])

lemma tx_advance:
  assumes inv: "tx_inv k tx" and gone: "tx_retained tx (oldest tx) = None"
  shows "tx_inv k (tx\<lparr>oldest := oldest tx + 1\<rparr>)"
proof -
  have "tx_slot_ok k (oldest tx + 1) i (tx_slots tx ! i)" if i: "i < 2 ^ k" for i
  proof -
    let ?s = "tx_slots tx ! i"
    have ok: "tx_slot_ok k (oldest tx) i ?s" using inv i by (simp add: tx_inv_def)
    have "tx_seq ?s \<noteq> oldest tx" if "0 < tx_len ?s"
      using gone ok that by (auto simp: tx_retained_def tx_index_eq [OF inv] tx_slot_ok_def Let_def)
    then show ?thesis using ok word_distance_decreases [of "oldest tx" "tx_seq ?s"]
      by (auto simp: tx_slot_ok_def)
  qed
  then show ?thesis using inv by (simp add: tx_inv_def)
qed

lemma tx_retained_oldest [simp]: "tx_retained (tx\<lparr>oldest := b\<rparr>) = tx_retained tx"
  by (simp add: fun_eq_iff tx_retained_def tx_index_def)

lemma ack_cumulative_spec:
  assumes "tx_inv k tx" and "ack_cumulative base now_ns (tx, rtt) = (tx', rtt')"
  shows "tx_inv k tx' \<and>
    (if unat (base - oldest tx) < 2 ^ k
     then oldest tx' = base \<and>
       (\<forall>s. tx_retained tx' s = (if unat (s - oldest tx) < unat (base - oldest tx) then None else tx_retained tx s))
     else tx' = tx \<and> rtt' = rtt)"
  using assms
proof (induction base now_ns "(tx, rtt)" arbitrary: tx rtt rule: ack_cumulative.induct)
  case (1 base now_ns tx rtt)
  let ?d = "base - oldest tx" and ?i = "tx_index tx (oldest tx)"
  have win: "tx_window32 tx \<le> ?d \<longleftrightarrow> \<not> unat ?d < 2 ^ k"
    using tx_window_less [OF 1(2), of ?d] by (metis linorder_not_less)
  show ?case
  proof (cases "?d = 0 \<or> tx_window32 tx \<le> ?d")
    case True
    then have same: "tx' = tx" "rtt' = rtt" using 1(3) by (auto simp: ack_cumulative.simps)
    show ?thesis using True 1(2) win same by auto
  next
    case False
    define tx1 where "tx1 = (free_slot ?i tx)\<lparr>oldest := oldest tx + 1\<rparr>"
    have o: "unat (oldest tx - oldest tx) < 2 ^ k" by simp
    note f = free_slot_retained [OF 1(2) o]
    have inv1: "tx_inv k tx1"
      unfolding tx1_def using tx_advance [OF f(1)] f(2) by (simp add: frame_simps)
    have ret1: "tx_retained tx1 = (tx_retained tx)(oldest tx := None)"
      by (simp add: tx1_def f(2))
    have dec: "unat ?d = Suc (unat (base - oldest tx1))"
      using word_distance_decreases [of "oldest tx" base] False by (auto simp: tx1_def)
    have "ack_cumulative base now_ns (tx1, rtt_of now_ns (tx_slots tx ! ?i) rtt) = (tx', rtt')"
      using 1(3) False by (simp add: ack_cumulative.simps [of base now_ns tx] Let_def tx1_def)
    from 1(1) [OF refl False refl, folded tx1_def, OF inv1 this] dec False win
    have tx': "tx_inv k tx'" "oldest tx' = base" and ret: "\<And>s. tx_retained tx' s =
        (if unat (s - oldest tx1) < unat (base - oldest tx1) then None else tx_retained tx1 s)"
      by auto
    have "tx_retained tx' s = (if unat (s - oldest tx) < unat ?d then None else tx_retained tx s)" for s
    proof (cases "s = oldest tx")
      case True
      then show ?thesis using dec by (simp add: ret ret1)
    next
      case False
      then have "unat (s - oldest tx) = Suc (unat (s - oldest tx1))"
        using word_distance_decreases [of "oldest tx" s] by (simp add: tx1_def)
      then show ?thesis using dec False by (simp add: ret ret1)
    qed
    then show ?thesis using tx' False win by auto
  qed
qed

lemma ack_sack_bit_spec:
  assumes inv: "tx_inv k tx" and step: "ack_sack_bit ack now_ns i (tx, rtt) = (tx', rtt')"
  shows "tx_inv k tx'" and "oldest tx' = oldest tx"
    and "tx_retained tx' = (if bit (bitmap ack) i
      then (tx_retained tx)(base_seq ack + word_of_nat (1 + i) := None) else tx_retained tx)"
proof -
  let ?s = "base_seq ack + word_of_nat (1 + i)"
  let ?slot = "tx_slots tx ! tx_index tx ?s"
  have step': "tx' = (if bit (bitmap ack) i \<and> ?s - oldest tx < tx_window32 tx \<and> tx_seq ?slot = ?s \<and> 0 < tx_len ?slot
      then free_slot (tx_index tx ?s) tx else tx)"
    using step unfolding ack_sack_bit_def prod.case Let_def test_bit_push by (auto split: if_splits)
  have none: "tx_retained tx ?s = None"
    if "\<not> (?s - oldest tx < tx_window32 tx \<and> tx_seq ?slot = ?s \<and> 0 < tx_len ?slot)"
  proof (rule ccontr)
    assume held: "tx_retained tx ?s \<noteq> None"
    then have "?s - oldest tx < tx_window32 tx"
      unfolding tx_window_less [OF inv] by (rule tx_retained_window [OF inv])
    moreover have "0 < tx_len ?slot \<and> tx_seq ?slot = ?s"
      using held unfolding tx_retained_def Let_def by (metis (no_types))
    ultimately show False using that by blast
  qed
  have f: "tx_inv k (free_slot (tx_index tx ?s) tx)"
      "tx_retained (free_slot (tx_index tx ?s) tx) = (tx_retained tx)(?s := None)"
    if "?s - oldest tx < tx_window32 tx"
    using free_slot_retained [OF inv] that tx_window_less [OF inv] by blast+
  show "tx_inv k tx'" using step' inv f(1) by auto
  show "oldest tx' = oldest tx" using step' by (simp add: frame_simps)
  show "tx_retained tx' = (if bit (bitmap ack) i then (tx_retained tx)(?s := None) else tx_retained tx)"
    using step' f(2) none by (auto simp: fun_eq_iff)
qed

lemma ack_sack_spec:
  assumes "tx_inv k tx" and "fold (ack_sack_bit ack now_ns) is (tx, rtt) = (tx', rtt')"
  shows "tx_inv k tx' \<and> oldest tx' = oldest tx \<and>
    (\<forall>s. tx_retained tx' s =
      (if \<exists>i \<in> set is. bit (bitmap ack) i \<and> s = base_seq ack + word_of_nat (1 + i) then None else tx_retained tx s))"
  using assms
proof (induction "is" arbitrary: tx rtt)
  case (Cons i "is")
  obtain tx1 rtt1 where one: "ack_sack_bit ack now_ns i (tx, rtt) = (tx1, rtt1)" by fastforce
  note st = ack_sack_bit_spec [OF Cons.prems(1) one]
  have "fold (ack_sack_bit ack now_ns) is (tx1, rtt1) = (tx', rtt')" using Cons.prems(2) one by simp
  from Cons.IH [OF st(1) this] show ?case unfolding st(2,3) by auto
qed simp

text \<open>An acknowledgement frees the frames it names and no other.\<close>

definition acked :: "reliable_tx \<Rightarrow> ack_frame \<Rightarrow> u32 \<Rightarrow> bool" where
  "acked tx ack s \<longleftrightarrow>
     unat (base_seq ack - oldest tx) < tx_window tx \<and> unat (s - oldest tx) < unat (base_seq ack - oldest tx) \<or>
     (\<exists>i \<in> set [0..<31]. bit (bitmap ack) i \<and> s = base_seq ack + word_of_nat (1 + i))"

lemma on_ack_spec:
  assumes inv: "tx_inv k tx" and ack: "on_ack tx ack now_ns = (tx', rtt)"
  shows "tx_inv k tx'"
    and "oldest tx' = (if unat (base_seq ack - oldest tx) < 2 ^ k then base_seq ack else oldest tx)"
    and "tx_retained tx' s = (if acked tx ack s then None else tx_retained tx s)"
proof -
  obtain tx1 rtt1 where one: "ack_cumulative (base_seq ack) now_ns (tx, None) = (tx1, rtt1)" by fastforce
  have win: "tx_window tx = 2 ^ k" using inv by (simp add: tx_window_def tx_inv_def)
  note c = ack_cumulative_spec [OF inv one]
  have two: "fold (ack_sack_bit ack now_ns) [0..<31] (tx1, rtt1) = (tx', rtt)"
    using ack one by (simp add: on_ack_def SACK_BITS_def)
  note sk = ack_sack_spec [OF _ two, of k]
  show "tx_inv k tx'" using c sk by blast
  show "oldest tx' = (if unat (base_seq ack - oldest tx) < 2 ^ k then base_seq ack else oldest tx)"
    using c sk by (metis (no_types))
  show "tx_retained tx' s = (if acked tx ack s then None else tx_retained tx s)"
    using c sk by (auto simp: acked_def win split: if_splits)
qed

lemma tx_send_ok:
  assumes inv: "tx_inv k tx" and p: "p \<noteq> []" "length p \<le> 256" and now: "now_ns \<noteq> 0"
    and win: "unat (seq - oldest tx) < 2 ^ k" and free: "tx_retained tx seq = None"
  obtains tx' where "tx_send tx seq p now_ns = Inr tx'" and "tx_inv k tx'" and "oldest tx' = oldest tx"
    and "tx_retained tx' = (tx_retained tx)(seq \<mapsto> p)"
proof -
  let ?i = "tx_index tx seq"
  define s where "s = \<lparr>tx_seq = seq, tx_len = length p, tx_bytes = write_at 0 p (tx_bytes (tx_slots tx ! ?i)),
    first_ns = now_ns, last_ns = now_ns, resends = 0\<rparr>"
  have len: "length (tx_slots tx) = 2 ^ k" and i: "?i < 2 ^ k" using inv
    by (auto simp: tx_inv_def tx_index_eq [OF inv])
  have old: "length (tx_bytes (tx_slots tx ! ?i)) = 256"
    using tx_inv_slot [OF inv, of seq] by (simp add: tx_slot_ok_def)
  have ok: "tx_slot_ok k (oldest tx) ?i s"
    using p now win old by (simp add: tx_slot_ok_def s_def tx_index_eq [OF inv])
  have "tx_send tx seq p now_ns = Inr (tx\<lparr>tx_slots := (tx_slots tx)[?i := s]\<rparr>)"
    using p win free i unfolding tx_send_def len
    by (auto simp: MAX_RELIABLE_PAYLOAD_def Let_def s_def tx_retained_def split: if_splits)
  moreover have "tx_retained (tx\<lparr>tx_slots := (tx_slots tx)[?i := s]\<rparr>) = (tx_retained tx)(seq \<mapsto> p)"
    using tx_retained_update [OF inv win, of s] p by (simp add: s_def)
  ultimately show ?thesis using that tx_inv_update [OF inv ok] by simp
qed

lemma tx_send_window: "tx_send tx seq p now_ns = Inr tx' \<Longrightarrow>
    unat (seq - oldest tx) < length (tx_slots tx) \<and> length p \<le> 256"
  by (auto simp: tx_send_def MAX_RELIABLE_PAYLOAD_def split: if_splits)

definition overdue :: "u64 \<Rightarrow> u64 \<Rightarrow> tx_slot \<Rightarrow> bool" where
  "overdue now_ns rto_ns s \<longleftrightarrow>
     tx_len s \<noteq> 0 \<and> first_ns s \<noteq> 0 \<and> rto_ns \<le> saturating_sub now_ns (last_ns s)"

lemma tick_slots_eq: "tick_slots now_ns rto_ns ss =
    (map (\<lambda>s. if overdue now_ns rto_ns s then s\<lparr>last_ns := now_ns, resends := resends s + 1\<rparr> else s) ss,
     map (\<lambda>s. (tx_seq s, take (tx_len s) (tx_bytes s))) (filter (overdue now_ns rto_ns) ss))"
  by (induction ss) (auto simp: overdue_def)

lemma tx_tick_spec:
  assumes inv: "tx_inv k tx" and tick: "tx_tick tx now_ns rto_ns = (tx', frames)"
  shows "tx_inv k tx'" and "oldest tx' = oldest tx" and "tx_retained tx' = tx_retained tx"
    and "(seq, p) \<in> set frames \<longleftrightarrow>
      tx_retained tx seq = Some p \<and> overdue now_ns rto_ns (tx_slots tx ! tx_index tx seq)"
proof -
  let ?f = "\<lambda>s. if overdue now_ns rto_ns s then s\<lparr>last_ns := now_ns, resends := resends s + 1\<rparr> else s"
  have tx': "tx' = tx\<lparr>tx_slots := map ?f (tx_slots tx)\<rparr>"
    and fr: "frames = map (\<lambda>s. (tx_seq s, take (tx_len s) (tx_bytes s))) (filter (overdue now_ns rto_ns) (tx_slots tx))"
    using tick by (simp_all add: tx_tick_def tick_slots_eq)
  show "oldest tx' = oldest tx" by (simp add: tx')
  have len: "length (tx_slots tx) = 2 ^ k" using inv by (simp add: tx_inv_def)
  have idx: "tx_index tx t < 2 ^ k" for t by (simp add: tx_index_eq [OF inv])
  show "tx_inv k tx'" using inv by (auto simp: tx_inv_def tx' tx_slot_ok_def)
  show "tx_retained tx' = tx_retained tx"
    by (rule ext) (use idx len in \<open>simp add: tx_retained_def tx' tx_index_def Let_def\<close>)
  have "\<exists>i<2 ^ k. overdue now_ns rto_ns (tx_slots tx ! i) \<and> tx_seq (tx_slots tx ! i) = seq \<and>
      p = take (tx_len (tx_slots tx ! i)) (tx_bytes (tx_slots tx ! i))" (is "\<exists>i<_. ?P i")
    if "(seq, p) \<in> set frames"
    using that by (auto simp: fr in_set_conv_nth len)
  moreover have "i = tx_index tx seq" if "i < 2 ^ k" "overdue now_ns rto_ns (tx_slots tx ! i)"
      "tx_seq (tx_slots tx ! i) = seq" for i
    using that inv by (auto simp: tx_index_eq [OF inv] tx_inv_def tx_slot_ok_def overdue_def)
  moreover have "(seq, p) \<in> set frames" if "?P (tx_index tx seq)"
    unfolding fr set_map set_filter using that idx [of seq] len
    by (intro image_eqI [of _ _ "tx_slots tx ! tx_index tx seq"]) auto
  ultimately show "(seq, p) \<in> set frames \<longleftrightarrow>
      tx_retained tx seq = Some p \<and> overdue now_ns rto_ns (tx_slots tx ! tx_index tx seq)"
    unfolding tx_retained_def Let_def by (auto simp: overdue_def)
qed

lemma tx_new_inv:
  assumes "unat (rc_window cfg) \<le> 2 ^ 31"
  obtains k where "tx_inv k (tx_new cfg)" and "unat (rc_window cfg) \<le> 2 ^ k"
    and "\<And>s. tx_retained (tx_new cfg) s = None" and "oldest (tx_new cfg) = 0"
proof -
  obtain k where k: "k \<le> 31" "next_power_of_two (rc_window cfg) = 2 ^ k"
      "unat (next_power_of_two (rc_window cfg)) = 2 ^ k" "unat (rc_window cfg) \<le> 2 ^ k"
    by (rule next_power_of_two_bounded [OF assms]) auto
  have "unat (1 :: usize) \<le> unat (next_power_of_two (rc_window cfg))" unfolding k(3) by simp
  then have mx: "max (next_power_of_two (rc_window cfg)) 1 = 2 ^ k"
    unfolding k(2) [symmetric] by (simp only: max_def word_le_nat_alt [symmetric] if_True split: if_splits) auto
  have u: "unat (2 ^ k :: usize) = 2 ^ k" using unat_exp_word [of k, where 'a = 64] k(1) by simp
  have slots: "tx_slots (tx_new cfg) = map (\<lambda>i. \<lparr>tx_seq = word_of_nat i, tx_len = 0, tx_bytes = replicate 256 0,
          first_ns = 0, last_ns = 0, resends = 0\<rparr>) [0..<2 ^ k]"
    and rest: "tx_mask (tx_new cfg) = 2 ^ k - 1" "oldest (tx_new cfg) = 0"
    by (simp_all add: tx_new_def mx u MAX_RELIABLE_PAYLOAD_def)
  have inv: "tx_inv k (tx_new cfg)" using k(1) rest by (simp add: tx_inv_def slots tx_slot_ok_def)
  moreover have "tx_retained (tx_new cfg) s = None" for s
    using tx_index_eq [OF inv, of s] by (simp add: tx_retained_def slots)
  ultimately show ?thesis using that k(4) rest(2) by blast
qed

end
