(* ===== verification/Reliable_Link.thy ===== *)
theory Reliable_Link
  imports Reliable
begin

text \<open>
  The reliable channel end to end: a sender and a receiver of Reliable joined by a network that may
  drop, duplicate and reorder frames and acknowledgements. A step is one call of the code at one
  end; the network is the set of every frame and acknowledgement ever emitted, of which any element
  may arrive at any time, any number of times, or never.
\<close>

record link =
  l_tx :: reliable_tx
  l_rx :: reliable_rx
  l_sent :: "bytes list"
  l_net :: "(u32 \<times> bytes) set"
  l_acks :: "ack_frame set"
  l_out :: "(u32 \<times> bytes) list"

definition link_init :: "reliable_config \<Rightarrow> link" where
  "link_init cfg = \<lparr>l_tx = tx_new cfg, l_rx = rx_new, l_sent = [], l_net = {}, l_acks = {}, l_out = []\<rparr>"

text \<open>The sequence number of the \<open>n\<close>-th frame; the application numbers its frames from 0, sends no
  empty payload and reads a running clock, and the run stays in the first half of the sequence
  space.\<close>

inductive link_step :: "link \<Rightarrow> link \<Rightarrow> bool" where
  send: "tx_send (l_tx s) (word_of_nat (length (l_sent s))) p now = Inr tx' \<Longrightarrow> p \<noteq> [] \<Longrightarrow> now \<noteq> 0 \<Longrightarrow>
    length (l_sent s) < 2 ^ 31 \<Longrightarrow>
    link_step s (s\<lparr>l_tx := tx', l_sent := l_sent s @ [p],
      l_net := insert (word_of_nat (length (l_sent s)), p) (l_net s)\<rparr>)"
| resend: "tx_tick (l_tx s) now rto = (tx', frames) \<Longrightarrow>
    link_step s (s\<lparr>l_tx := tx', l_net := l_net s \<union> set frames\<rparr>)"
| arrive: "(q, p) \<in> l_net s \<Longrightarrow> rx_accept (l_rx s) q p = Some (res, rx') \<Longrightarrow> link_step s (s\<lparr>l_rx := rx'\<rparr>)"
| drain: "rx_drain (l_rx s) = (rx', frames) \<Longrightarrow> link_step s (s\<lparr>l_rx := rx', l_out := l_out s @ frames\<rparr>)"
| ack: "link_step s (s\<lparr>l_acks := insert (build_ack (l_rx s) rtt) (l_acks s)\<rparr>)"
| ack_arrives: "a \<in> l_acks s \<Longrightarrow> on_ack (l_tx s) a now = (tx', rtt) \<Longrightarrow> link_step s (s\<lparr>l_tx := tx'\<rparr>)"

inductive link_reachable :: "reliable_config \<Rightarrow> link \<Rightarrow> bool" for cfg where
  init: "link_reachable cfg (link_init cfg)"
| step: "link_reachable cfg s \<Longrightarrow> link_step s t \<Longrightarrow> link_reachable cfg t"

section \<open>Sequence numbers of the first half of the space\<close>

lemma unat_seq: "n \<le> 2 ^ 31 \<Longrightarrow> unat (word_of_nat n :: u32) = n"
  by (simp add: unat_of_nat)

lemma seq_inj: "(word_of_nat m :: u32) = word_of_nat n \<Longrightarrow> m \<le> 2 ^ 31 \<Longrightarrow> n \<le> 2 ^ 31 \<Longrightarrow> m = n"
  by (metis unat_seq)

lemma seq_diff:
  assumes "a \<le> 2 ^ 31" and "n \<le> 2 ^ 31"
  shows "unat (word_of_nat n - word_of_nat a :: u32) = (if a \<le> n then n - a else 2 ^ 32 - (a - n))"
  using assms unat_seq [OF assms(1)] unat_seq [OF assms(2)] by (simp add: unat_sub_if_size word_size) linarith

section \<open>The invariant\<close>

definition delivered :: "link \<Rightarrow> nat" where
  "delivered s = length (l_out s)"

text \<open>Frame \<open>n\<close> has been handed on or sits in the reorder buffer.\<close>

definition received :: "link \<Rightarrow> nat \<Rightarrow> bool" where
  "received s n \<longleftrightarrow> n < delivered s \<or> delivered s \<le> n \<and> rx_holds (l_rx s) (n - delivered s) \<noteq> None"

definition is_sent :: "link \<Rightarrow> u32 \<Rightarrow> bytes \<Rightarrow> bool" where
  "is_sent s q p \<longleftrightarrow> (\<exists>n < length (l_sent s). q = word_of_nat n \<and> p = l_sent s ! n)"

definition ack_sound :: "link \<Rightarrow> ack_frame \<Rightarrow> bool" where
  "ack_sound s a \<longleftrightarrow> (\<exists>b \<le> delivered s. base_seq a = word_of_nat b \<and>
     (\<forall>i < 31. bit (bitmap a) i \<longrightarrow> received s (b + 1 + i)))"

definition sender_inv :: "nat \<Rightarrow> link \<Rightarrow> bool" where
  "sender_inv k s \<longleftrightarrow> tx_inv k (l_tx s) \<and>
     (\<exists>a \<le> delivered s. oldest (l_tx s) = word_of_nat a) \<and>
     length (l_sent s) \<le> 2 ^ 31 \<and> (\<forall>p \<in> set (l_sent s). length p \<le> 256) \<and>
     (\<forall>q p. tx_retained (l_tx s) q = Some p \<longrightarrow> is_sent s q p) \<and>
     (\<forall>n < length (l_sent s). \<not> received s n \<longrightarrow> tx_retained (l_tx s) (word_of_nat n) = Some (l_sent s ! n))"

definition receiver_inv :: "link \<Rightarrow> bool" where
  "receiver_inv s \<longleftrightarrow> rx_wf (l_rx s) \<and> rx_next (l_rx s) = word_of_nat (delivered s) \<and>
     delivered s \<le> length (l_sent s) \<and>
     (\<forall>i p. rx_holds (l_rx s) i = Some p \<longrightarrow>
        delivered s + i < length (l_sent s) \<and> p = l_sent s ! (delivered s + i)) \<and>
     l_out s = map (\<lambda>n. (word_of_nat n, l_sent s ! n)) [0..<delivered s]"

definition net_inv :: "link \<Rightarrow> bool" where
  "net_inv s \<longleftrightarrow> (\<forall>(q, p) \<in> l_net s. is_sent s q p) \<and> (\<forall>a \<in> l_acks s. ack_sound s a)"

definition link_inv :: "nat \<Rightarrow> link \<Rightarrow> bool" where
  "link_inv k s \<longleftrightarrow> sender_inv k s \<and> receiver_inv s \<and> net_inv s"

lemmas link_inv_defs = link_inv_def sender_inv_def receiver_inv_def net_inv_def

lemma received_sent: "receiver_inv s \<Longrightarrow> received s n \<Longrightarrow> n < length (l_sent s)"
  unfolding receiver_inv_def received_def by (metis le_add_diff_inverse linorder_not_le order_trans not_None_eq)

lemma link_init_inv:
  assumes "unat (rc_window cfg) \<le> 2 ^ 31"
  shows "\<exists>k. link_inv k (link_init cfg)"
proof -
  obtain k where "tx_inv k (tx_new cfg)" "\<And>s. tx_retained (tx_new cfg) s = None" "oldest (tx_new cfg) = 0"
    by (rule tx_new_inv [OF assms]) auto
  then have "link_inv k (link_init cfg)"
    by (simp add: link_inv_defs link_init_def delivered_def rx_new_wf rx_new_holds)
  then show ?thesis by blast
qed

lemma send_inv:
  assumes inv: "link_inv k s" and send: "tx_send (l_tx s) (word_of_nat (length (l_sent s))) p now = Inr tx'"
    and p: "p \<noteq> []" "now \<noteq> 0" "length (l_sent s) < 2 ^ 31"
  shows "link_inv k (s\<lparr>l_tx := tx', l_sent := l_sent s @ [p],
    l_net := insert (word_of_nat (length (l_sent s)), p) (l_net s)\<rparr>)" (is "link_inv k ?t")
proof -
  let ?L = "length (l_sent s)" and ?q = "word_of_nat (length (l_sent s)) :: u32"
  have tx: "tx_inv k (l_tx s)" using inv by (simp add: link_inv_defs)
  have neq: "?q \<noteq> word_of_nat n" if "n < ?L" for n
    using seq_inj [of ?L n] that p(3) by auto
  then have fresh: "\<not> is_sent s ?q x" for x by (auto simp: is_sent_def)
  then have free: "tx_retained (l_tx s) ?q = None" using inv unfolding link_inv_defs by (metis not_None_eq)
  have len: "length p \<le> 256" "unat (?q - oldest (l_tx s)) < 2 ^ k"
    using tx_send_window [OF send] tx by (simp_all add: tx_inv_def)
  obtain tx'' where "tx_send (l_tx s) ?q p now = Inr tx''" and tx'': "tx_inv k tx''"
      "oldest tx'' = oldest (l_tx s)" "tx_retained tx'' = (tx_retained (l_tx s))(?q \<mapsto> p)"
    using tx_send_ok [OF tx p(1) len(1) p(2) len(2) free] by blast
  with send have tx'': "tx_inv k tx'" "oldest tx' = oldest (l_tx s)"
    "tx_retained tx' = (tx_retained (l_tx s))(?q \<mapsto> p)" by simp_all
  have keep: "is_sent ?t q x" if "is_sent s q x" for q x
    using that by (auto simp: is_sent_def nth_append intro: less_SucI)
  have new: "is_sent ?t ?q p" by (auto simp: is_sent_def nth_append intro!: exI [of _ ?L])
  have same: "delivered ?t = delivered s" "received ?t = received s" "ack_sound ?t = ack_sound s"
    by (simp_all add: delivered_def received_def ack_sound_def fun_eq_iff)
  have "sender_inv k ?t"
    using inv tx'' len(1) p(3) keep new neq neq [symmetric] unfolding link_inv_def sender_inv_def same
    by (auto simp: less_Suc_eq nth_append)
  moreover have "receiver_inv ?t"
    using inv unfolding link_inv_def receiver_inv_def same by (auto simp: nth_append less_Suc_eq)
  moreover have "net_inv ?t"
    using inv keep new unfolding link_inv_def net_inv_def same by auto
  ultimately show ?thesis by (simp add: link_inv_def)
qed

lemma resend_inv:
  assumes inv: "link_inv k s" and tick: "tx_tick (l_tx s) now rto = (tx', frames)"
  shows "link_inv k (s\<lparr>l_tx := tx', l_net := l_net s \<union> set frames\<rparr>)" (is "link_inv k ?t")
proof -
  have tx: "tx_inv k (l_tx s)" using inv by (simp add: link_inv_defs)
  note sp = tx_tick_spec [OF tx tick]
  have same: "delivered ?t = delivered s" "received ?t = received s" "ack_sound ?t = ack_sound s" "is_sent ?t = is_sent s"
    by (simp_all add: delivered_def received_def ack_sound_def is_sent_def fun_eq_iff)
  have "\<forall>(q, p) \<in> set frames. is_sent s q p"
    using inv sp(4) unfolding link_inv_def sender_inv_def by blast
  then show ?thesis using inv sp(1-3) unfolding link_inv_defs same by auto
qed

lemma arrive_inv:
  assumes inv: "link_inv k s" and net: "(q, p) \<in> l_net s" and acc: "rx_accept (l_rx s) q p = Some (res, rx')"
  shows "link_inv k (s\<lparr>l_rx := rx'\<rparr>)" (is "link_inv k ?t")
proof (cases "rx' = l_rx s")
  case False
  obtain n where n: "n < length (l_sent s)" "q = word_of_nat n" "p = l_sent s ! n"
    using inv net by (auto simp: link_inv_defs is_sent_def)
  have r: "rx_wf (l_rx s)" "rx_next (l_rx s) = word_of_nat (delivered s)" "delivered s \<le> length (l_sent s)"
      "length (l_sent s) \<le> 2 ^ 31" "length p \<le> 256"
    using inv n by (simp_all add: link_inv_defs)
  let ?i = "unat (q - rx_next (l_rx s))"
  have i: "?i = (if delivered s \<le> n then n - delivered s else 2 ^ 32 - (delivered s - n))"
    unfolding n(2) r(2) using r(3,4) n(1) by (intro seq_diff) linarith+
  have rx': "?i < 32" "rx_wf rx'" "rx_next rx' = rx_next (l_rx s)" "rx_holds rx' = (rx_holds (l_rx s))(?i \<mapsto> p)"
    using rx_accept_cases [OF r(1,5), of q] acc False by (auto split: if_splits)
  have near: "delivered s \<le> n" "?i = n - delivered s"
    using i rx'(1) r(3,4) by (auto split: if_splits)
  have del: "delivered ?t = delivered s" by (simp add: delivered_def)
  have rec: "received ?t m" if "received s m" for m
    using that by (auto simp: received_def del rx'(4))
  have "is_sent ?t = is_sent s" by (simp add: is_sent_def fun_eq_iff)
  moreover have "receiver_inv ?t"
    using inv n rx' near unfolding link_inv_def receiver_inv_def del by (auto split: if_splits)
  moreover have "ack_sound ?t a" if "ack_sound s a" for a
    using that rec unfolding ack_sound_def del by blast
  ultimately show ?thesis
    using inv rec unfolding link_inv_def sender_inv_def net_inv_def del by auto
qed (use inv in simp)

lemma drain_inv:
  assumes inv: "link_inv k s" and dr: "rx_drain (l_rx s) = (rx', frames)"
  shows "link_inv k (s\<lparr>l_rx := rx', l_out := l_out s @ frames\<rparr>)" (is "link_inv k ?t")
proof -
  let ?d = "delivered s"
  have r: "rx_wf (l_rx s)" "rx_next (l_rx s) = word_of_nat ?d" "?d \<le> length (l_sent s)"
      "\<And>i p. rx_holds (l_rx s) i = Some p \<Longrightarrow> ?d + i < length (l_sent s) \<and> p = l_sent s ! (?d + i)"
      "l_out s = map (\<lambda>n. (word_of_nat n, l_sent s ! n)) [0..<?d]"
    using inv by (simp_all add: link_inv_defs)
  obtain n where n: "rx_wf rx'" "rx_next rx' = rx_next (l_rx s) + word_of_nat n"
      "frames = map (\<lambda>i. (rx_next (l_rx s) + word_of_nat i, the (rx_holds (l_rx s) i))) [0..<n]"
      "\<forall>i<n. rx_holds (l_rx s) i \<noteq> None" "\<And>i. rx_holds rx' i = rx_holds (l_rx s) (n + i)"
    using rx_drain_spec [OF r(1) dr] by blast
  have del: "delivered ?t = ?d + n" by (simp add: delivered_def n(3))
  have le: "?d + n \<le> length (l_sent s)"
  proof (cases n)
    case (Suc m)
    then show ?thesis using n(4) r(4) [of m] by fastforce
  qed (use r(3) in simp)
  have rec: "received ?t = received s"
  proof (rule ext, unfold received_def del, simp add: n(5))
    fix j
    show "(j < ?d + n \<or> ?d + n \<le> j \<and> (\<exists>y. rx_holds (l_rx s) (n + (j - (?d + n))) = Some y)) =
      (j < ?d \<or> ?d \<le> j \<and> (\<exists>y. rx_holds (l_rx s) (j - ?d) = Some y))"
    proof (cases "j < ?d + n")
      case True
      then have "?d \<le> j \<Longrightarrow> j - ?d < n" by linarith
      then show ?thesis using True n(4) by auto
    qed auto
  qed
  have "map (\<lambda>i. (rx_next (l_rx s) + word_of_nat i, the (rx_holds (l_rx s) i))) [0..<n] =
      map (\<lambda>j. (word_of_nat j, l_sent s ! j)) [?d..<?d + n]"
    by (rule nth_equalityI) (use n(4) r(2,4) in \<open>auto simp: ac_simps\<close>)
  then have "l_out ?t = map (\<lambda>j. (word_of_nat j, l_sent s ! j)) [0..<?d + n]"
    by (simp add: n(3) r(5) upt_add_eq_append [of 0 ?d n] del: upt_add_eq_append)
  moreover have "rx_next rx' = word_of_nat (?d + n)" by (simp add: n(2) r(2))
  moreover have "?d + n + i < length (l_sent s) \<and> p = l_sent s ! (?d + n + i)" if "rx_holds rx' i = Some p" for i p
    using r(4) [of "n + i" p] that by (simp add: n(5) add.assoc)
  ultimately have "receiver_inv ?t"
    using n(1) le unfolding receiver_inv_def del by simp
  moreover have "is_sent ?t = is_sent s" by (simp add: is_sent_def fun_eq_iff)
  moreover have "ack_sound ?t a" if "ack_sound s a" for a
    using that unfolding ack_sound_def rec del by (meson trans_le_add1)
  ultimately show ?thesis
    using inv unfolding link_inv_def sender_inv_def net_inv_def rec del by (auto intro: trans_le_add1)
qed

lemma ack_inv:
  assumes inv: "link_inv k s"
  shows "link_inv k (s\<lparr>l_acks := insert (build_ack (l_rx s) rtt) (l_acks s)\<rparr>)" (is "link_inv k ?t")
proof -
  have same: "delivered ?t = delivered s" "received ?t = received s" "ack_sound ?t = ack_sound s" "is_sent ?t = is_sent s"
    by (simp_all add: delivered_def received_def ack_sound_def is_sent_def fun_eq_iff)
  have "received s (delivered s + 1 + i)" if "bit (drop_bit 1 (rx_map (l_rx s))) i" for i
    using that by (simp add: received_def rx_holds_def bit_drop_bit_eq)
  then have "ack_sound s (build_ack (l_rx s) rtt)"
    using inv by (auto simp: ack_sound_def build_ack_def link_inv_defs)
  then show ?thesis using inv unfolding link_inv_defs same by auto
qed

lemma ack_arrives_inv:
  assumes inv: "link_inv k s" and a: "a \<in> l_acks s" and on: "on_ack (l_tx s) a now = (tx', rtt)"
  shows "link_inv k (s\<lparr>l_tx := tx'\<rparr>)" (is "link_inv k ?t")
proof -
  have tx: "tx_inv k (l_tx s)" and k: "(2::nat) ^ k \<le> 2 ^ 31" and win: "tx_window (l_tx s) = 2 ^ k"
    using inv power_increasing [of k 31 "2::nat"] by (simp_all add: link_inv_defs tx_inv_def tx_window_def)
  have r: "delivered s \<le> length (l_sent s)" "length (l_sent s) \<le> 2 ^ 31" "receiver_inv s"
    using inv by (simp_all add: link_inv_defs)
  obtain o' where old: "o' \<le> delivered s" "oldest (l_tx s) = word_of_nat o'"
    using inv unfolding link_inv_def sender_inv_def by blast
  obtain b where b: "b \<le> delivered s" "base_seq a = word_of_nat b"
      "\<And>i. i < 31 \<Longrightarrow> bit (bitmap a) i \<Longrightarrow> received s (b + 1 + i)"
    using inv a unfolding link_inv_def net_inv_def ack_sound_def by blast
  have "received s n" if n: "n < length (l_sent s)" and acked: "acked (l_tx s) a (word_of_nat n)" for n
  proof -
    have cum: "n < b \<or> n < o'"
      if "unat (base_seq a - oldest (l_tx s)) < 2 ^ k"
        "unat (word_of_nat n - oldest (l_tx s)) < unat (base_seq a - oldest (l_tx s))"
      using that seq_diff [of o' b] seq_diff [of o' n] k n r old(1) b(1) unfolding old(2) b(2)
      by (auto split: if_splits)
    have sack: "received s n" if "i < 31" "bit (bitmap a) i" "word_of_nat n = base_seq a + word_of_nat (1 + i)" for i
    proof -
      have rec: "received s (b + 1 + i)" using b(3) that by blast
      have "(word_of_nat n :: u32) = word_of_nat (b + 1 + i)" using that(3) b(2) by (simp add: ac_simps)
      then have "n = b + 1 + i"
        using received_sent [OF r(3) rec] n r(2) by (intro seq_inj) linarith+
      then show ?thesis using rec by simp
    qed
    show ?thesis
      using acked cum sack b(1) old(1) unfolding acked_def win by (auto simp: received_def)
  qed
  note rec = this
  note sp = on_ack_spec [OF tx on]
  have same: "delivered ?t = delivered s" "received ?t = received s" "ack_sound ?t = ack_sound s" "is_sent ?t = is_sent s"
    by (simp_all add: delivered_def received_def ack_sound_def is_sent_def fun_eq_iff)
  have "\<exists>x \<le> delivered s. oldest tx' = word_of_nat x"
    using sp(2) old b by metis
  then have "sender_inv k ?t"
    using inv sp(1,3) rec unfolding link_inv_def sender_inv_def same by (auto split: if_splits)
  then show ?thesis using inv unfolding link_inv_def receiver_inv_def net_inv_def same by auto
qed

lemma link_step_inv: "link_step s t \<Longrightarrow> link_inv k s \<Longrightarrow> link_inv k t"
proof (induction rule: link_step.induct)
  case (send s p now tx')
  then show ?case by (intro send_inv)
next
  case (resend s now rto tx' frames)
  then show ?case by (intro resend_inv)
next
  case (arrive q p s res rx')
  then show ?case by (intro arrive_inv)
next
  case (drain s rx' frames)
  then show ?case by (intro drain_inv)
next
  case (ack s rtt)
  then show ?case by (intro ack_inv)
next
  case (ack_arrives a s now tx' rtt)
  then show ?case by (intro ack_arrives_inv)
qed

lemma link_reachable_inv:
  "link_reachable cfg s \<Longrightarrow> unat (rc_window cfg) \<le> 2 ^ 31 \<Longrightarrow> \<exists>k. link_inv k s"
  by (induction rule: link_reachable.induct) (use link_init_inv link_step_inv in metis)+

section \<open>Progress\<close>

text \<open>What a receiver that gets frames in some order holds afterwards; a frame whose acceptance panics would
  change nothing here, but none of the frames below does.\<close>

fun accept_all :: "(u32 \<times> bytes) list \<Rightarrow> reliable_rx \<Rightarrow> reliable_rx" where
  "accept_all [] rx = rx"
| "accept_all ((q, p) # fs) rx = accept_all fs (case rx_accept rx q p of Some (_, rx') \<Rightarrow> rx' | None \<Rightarrow> rx)"

text \<open>The frame that the receiver waits for, and the retransmission timer of a frame having run out.\<close>

definition timer_out :: "link \<Rightarrow> nat \<Rightarrow> u64 \<Rightarrow> u64 \<Rightarrow> bool" where
  "timer_out s n now rto \<longleftrightarrow>
     rto \<le> saturating_sub now (last_ns (tx_slots (l_tx s) ! tx_index (l_tx s) (word_of_nat n)))"

lemma accept_mono:
  assumes "rx_wf rx" and "length p \<le> 256" and "rx_accept rx q p = Some (res, rx')"
  shows "rx_wf rx' \<and> rx_next rx' = rx_next rx \<and> (\<forall>i x. rx_holds rx i = Some x \<longrightarrow> rx_holds rx' i = Some x)"
  using rx_accept_cases [OF assms(1,2), of q] assms(1,3) by (auto split: if_splits)

lemma accept_total: "rx_wf rx \<Longrightarrow> length p \<le> 256 \<Longrightarrow> \<exists>res rx'. rx_accept rx q p = Some (res, rx')"
  using rx_accept_cases [of rx p q] by (auto split: if_splits)

lemma accept_all_link:
  assumes "link_inv k s" and "set fs \<subseteq> l_net s"
  shows "link_inv k (s\<lparr>l_rx := accept_all fs (l_rx s)\<rparr>) \<and> rx_next (accept_all fs (l_rx s)) = rx_next (l_rx s) \<and>
    (\<forall>i. rx_holds (l_rx s) i \<noteq> None \<longrightarrow> rx_holds (accept_all fs (l_rx s)) i \<noteq> None) \<and>
    (\<forall>p. (rx_next (l_rx s), p) \<in> set fs \<longrightarrow> rx_holds (accept_all fs (l_rx s)) 0 \<noteq> None)"
  using assms
proof (induction fs arbitrary: s)
  case (Cons f fs)
  obtain q p where f: "f = (q, p)" by force
  have wf: "rx_wf (l_rx s)" and len: "length p \<le> 256"
    using Cons.prems f by (auto simp: link_inv_defs is_sent_def)
  obtain res rx1 where acc: "rx_accept (l_rx s) q p = Some (res, rx1)" using accept_total [OF wf len] by blast
  let ?s = "s\<lparr>l_rx := rx1\<rparr>"
  have "link_inv k ?s" using arrive_inv [OF Cons.prems(1) _ acc] Cons.prems(2) f by simp
  note IH = Cons.IH [OF this]
  note m = accept_mono [OF wf len acc]
  have "rx_holds rx1 0 \<noteq> None" if "q = rx_next (l_rx s)"
    using rx_accept_cases [OF wf len, of q] acc that by (auto split: if_splits)
  then show ?case using IH Cons.prems(2) m by (auto simp: f acc)
qed simp

lemma arrive_next:
  assumes inv: "link_inv k s" and net: "(word_of_nat (delivered s), p) \<in> l_net s"
  obtains res rx' where "rx_accept (l_rx s) (word_of_nat (delivered s)) p = Some (res, rx')"
    and "rx_wf rx'" and "rx_holds rx' 0 \<noteq> None"
proof -
  have r: "rx_wf (l_rx s)" "rx_next (l_rx s) = word_of_nat (delivered s)" using inv by (simp_all add: link_inv_defs)
  have "length p \<le> 256" using inv net by (auto simp: link_inv_defs is_sent_def)
  from rx_accept_cases [OF r(1) this, of "word_of_nat (delivered s)"]
  show ?thesis using that r by (auto split: if_splits)
qed

lemma drain_ready:
  assumes "rx_wf rx" and "rx_holds rx 0 \<noteq> None" and "rx_drain rx = (rx', frames)"
  shows "frames \<noteq> []"
proof
  assume "frames = []"
  with rx_drain_spec [OF assms(1,3)] have "rx_holds rx' 0 = rx_holds rx 0" "rx_holds rx' 0 = None" by auto
  with assms(2) show False by simp
qed

lemma deliver_next:
  assumes inv: "link_inv k s" and net: "(word_of_nat (delivered s), p) \<in> l_net s"
  obtains t where "link_step\<^sup>*\<^sup>* s t" and "l_sent t = l_sent s" and "length (l_out s) < length (l_out t)"
proof -
  obtain res rx1 where acc: "rx_accept (l_rx s) (word_of_nat (delivered s)) p = Some (res, rx1)"
      and rx1: "rx_wf rx1" "rx_holds rx1 0 \<noteq> None"
    using arrive_next [OF assms] by blast
  obtain rx2 frames where dr: "rx_drain rx1 = (rx2, frames)" by fastforce
  define s1 where "s1 = s\<lparr>l_rx := rx1\<rparr>"
  define t where "t = s1\<lparr>l_rx := rx2, l_out := l_out s1 @ frames\<rparr>"
  have "link_step s s1" unfolding s1_def by (rule link_step.arrive [OF net acc])
  moreover have "link_step s1 t" unfolding t_def by (rule link_step.drain) (simp add: s1_def dr)
  ultimately have "link_step\<^sup>*\<^sup>* s t" by simp
  then show ?thesis using that drain_ready [OF rx1 dr] by (simp add: t_def s1_def)
qed

text \<open>A tick after the timer of the frame the receiver waits for ran out puts that frame on the network.\<close>

lemma tick_resends:
  assumes inv: "link_inv k s" and missing: "rx_holds (l_rx s) 0 = None" and n: "delivered s < length (l_sent s)"
    and due: "timer_out s (delivered s) now rto" and tick: "tx_tick (l_tx s) now rto = (tx', frames)"
  shows "(word_of_nat (delivered s), l_sent s ! delivered s) \<in> set frames"
proof -
  have "\<not> received s (delivered s)" using missing by (simp add: received_def)
  then have p: "tx_retained (l_tx s) (word_of_nat (delivered s)) = Some (l_sent s ! delivered s)"
    using inv n by (simp add: link_inv_defs)
  have tx: "tx_inv k (l_tx s)" using inv by (simp add: link_inv_defs)
  have "overdue now rto (tx_slots (l_tx s) ! tx_index (l_tx s) (word_of_nat (delivered s)))"
    using p due tx_inv_slot [OF tx, of "word_of_nat (delivered s)"]
    by (auto simp: overdue_def timer_out_def tx_slot_ok_def tx_retained_def Let_def split: if_splits)
  then show ?thesis using tx_tick_spec(4) [OF tx tick] p by blast
qed

section \<open>A run of the link\<close>

definition demo_config :: reliable_config where
  "demo_config = \<lparr>rc_window = 4, rc_rto_ns = 10, rc_max_resends = 3\<rparr>"

lemma demo_window: "unat (rc_window demo_config) \<le> 2 ^ 31"
  by (simp add: demo_config_def)

lemma demo_sent: "\<exists>s. link_reachable demo_config s \<and> l_sent s = [[7, 8]] \<and> l_out s = [] \<and> (0, [7, 8]) \<in> l_net s"
proof -
  obtain k where k: "tx_inv k (tx_new demo_config)" "\<And>s. tx_retained (tx_new demo_config) s = None"
      "oldest (tx_new demo_config) = 0"
    by (rule tx_new_inv [OF demo_window]) auto
  have "unat (0 - oldest (tx_new demo_config)) < 2 ^ k" by (simp add: k(3))
  then obtain tx' where "tx_send (tx_new demo_config) 0 [7, 8] 5 = Inr tx'"
    using tx_send_ok [OF k(1), of "[7, 8]" 5 0] k(2) by auto
  then have "link_step (link_init demo_config) ((link_init demo_config)\<lparr>l_tx := tx', l_sent := [[7, 8]],
      l_net := {(0, [7, 8])}\<rparr>)"
    using link_step.send [of "link_init demo_config" "[7, 8]" 5 tx'] by (simp add: link_init_def)
  from link_reachable.step [OF link_reachable.init this] show ?thesis
    by (rule exI [where P = "\<lambda>s. link_reachable demo_config s \<and> _ s", OF conjI]) (simp add: link_init_def)
qed

lemma demo_delivered: "\<exists>s. link_reachable demo_config s \<and> l_sent s = [[7, 8]] \<and> l_out s \<noteq> []"
proof -
  obtain s where s: "link_reachable demo_config s" "l_sent s = [[7, 8]]" "l_out s = []" "(0, [7, 8]) \<in> l_net s"
    using demo_sent by blast
  obtain k where inv: "link_inv k s" using link_reachable_inv [OF s(1) demo_window] by blast
  obtain t where t: "link_step\<^sup>*\<^sup>* s t" "l_sent t = l_sent s" "length (l_out s) < length (l_out t)"
    using deliver_next [OF inv, of "[7, 8]"] s(3,4) by (auto simp: delivered_def)
  have "link_reachable demo_config t"
    using t(1) s(1) by (induction rule: rtranclp_induct) (auto intro: link_reachable.step)
  then show ?thesis using t s by auto
qed

section \<open>Properties\<close>

text \<open>C3. Ordered, duplicate-free delivery: whatever the network drops, repeats and reorders, the
  frames handed to the application are the first frames sent, each once, in order, with the payload
  it was sent with.\<close>

theorem reliable_ordered_delivery:
  assumes "link_reachable cfg s" and "unat (rc_window cfg) \<le> 2 ^ 31"
  shows "length (l_out s) \<le> length (l_sent s) \<and>
    l_out s = map (\<lambda>n. (word_of_nat n, l_sent s ! n)) [0..<length (l_out s)]"
  using link_reachable_inv [OF assms] by (auto simp: link_inv_defs delivered_def)

theorem reliable_ordered_delivery_witness:
  "\<exists>s. link_reachable demo_config s \<and> l_sent s = [[7, 8]] \<and> l_out s = [(0, [7, 8])]"
proof -
  obtain s where s: "link_reachable demo_config s" "l_sent s = [[7, 8]]" "l_out s \<noteq> []"
    using demo_delivered by blast
  have "length (l_out s) = 1"
    using reliable_ordered_delivery [OF s(1) demo_window] s(2,3) by (simp add: le_Suc_eq)
  then have "l_out s = [(0, [7, 8])]"
    using reliable_ordered_delivery [OF s(1) demo_window] s(2) by simp
  then show ?thesis using s by blast
qed

text \<open>C4. Loss recovery: a frame that was sent has been delivered, or sits in the reorder buffer of
  the receiver, or is still retained by the sender with its payload. No acknowledgement, however
  stale, makes the sender forget a frame the receiver does not hold.\<close>

theorem reliable_no_loss:
  assumes "link_reachable cfg s" and "unat (rc_window cfg) \<le> 2 ^ 31" and "n < length (l_sent s)"
  shows "n < length (l_out s) \<or> rx_holds (l_rx s) (n - length (l_out s)) = Some (l_sent s ! n) \<or>
    tx_retained (l_tx s) (word_of_nat n) = Some (l_sent s ! n)"
proof -
  obtain k where "link_inv k s" using link_reachable_inv [OF assms(1,2)] by blast
  then have "received s n \<or> tx_retained (l_tx s) (word_of_nat n) = Some (l_sent s ! n)"
    and "\<And>i p. rx_holds (l_rx s) i = Some p \<Longrightarrow> p = l_sent s ! (length (l_out s) + i)"
    using assms(3) by (auto simp: link_inv_defs delivered_def)
  then show ?thesis by (fastforce simp: received_def delivered_def)
qed

theorem reliable_no_loss_witness:
  "\<exists>s. link_reachable demo_config s \<and> l_sent s = [[7, 8]] \<and> l_out s = [] \<and>
    (rx_holds (l_rx s) 0 = Some [7, 8] \<or> tx_retained (l_tx s) 0 = Some [7, 8])"
proof -
  obtain s where s: "link_reachable demo_config s" "l_sent s = [[7, 8]]" "l_out s = []"
    using demo_sent by blast
  then show ?thesis using reliable_no_loss [OF s(1) demo_window, of 0] by (intro exI [of _ s]) simp
qed

text \<open>C5. Progress by retransmission alone: whatever was lost before, when the timer of the frame the receiver
  waits for has run out, one tick of the sender emits frames such that a receiver that gets nothing but
  these, in any order and any number of times, hands on at least that frame at its next drain: the next
  undelivered frames, in order, with the payloads they were sent with.\<close>

theorem reliable_progress:
  assumes "link_reachable cfg s" and "unat (rc_window cfg) \<le> 2 ^ 31" and "length (l_out s) < length (l_sent s)"
    and "timer_out s (length (l_out s)) now rto" and "tx_tick (l_tx s) now rto = (tx', frames)" and "set fs = set frames"
    and "rx_drain (accept_all fs (l_rx s)) = (rx', out)"
  shows "\<exists>m > 0. length (l_out s) + m \<le> length (l_sent s) \<and>
    out = map (\<lambda>n. (word_of_nat n, l_sent s ! n)) [length (l_out s)..<length (l_out s) + m]"
proof -
  let ?d = "length (l_out s)"
  let ?t = "s\<lparr>l_tx := tx', l_net := l_net s \<union> set frames\<rparr>"
  obtain k where inv: "link_inv k s" using link_reachable_inv [OF assms(1,2)] by blast
  have t: "link_inv k ?t" by (rule resend_inv [OF inv assms(5)])
  have "set fs \<subseteq> l_net ?t" using assms(6) by simp
  note a = accept_all_link [OF t this, simplified]
  have next_seq: "rx_next (l_rx s) = word_of_nat ?d" using inv by (simp add: link_inv_defs delivered_def)
  have ready: "rx_holds (accept_all fs (l_rx s)) 0 \<noteq> None"
    using tick_resends [OF inv _ _ _ assms(5)] assms(3,4,6) a next_seq by (fastforce simp: delivered_def)
  let ?u = "?t\<lparr>l_rx := accept_all fs (l_rx s)\<rparr>"
  have u: "link_inv k ?u" using a by simp
  then have "rx_wf (accept_all fs (l_rx s))" by (simp add: link_inv_defs)
  from drain_ready [OF this ready assms(7)] have "out \<noteq> []" .
  moreover have "link_inv k (?u\<lparr>l_rx := rx', l_out := l_out ?u @ out\<rparr>)"
    by (rule drain_inv [OF u]) (simp add: assms(7))
  then have "l_out s @ out = map (\<lambda>n. (word_of_nat n, l_sent s ! n)) [0..<?d + length out]" "?d + length out \<le> length (l_sent s)"
    by (simp_all add: link_inv_defs delivered_def)
  moreover from this(1) have "out = drop ?d (map (\<lambda>n. (word_of_nat n, l_sent s ! n)) [0..<?d + length out])"
    by (metis append_eq_conv_conj)
  ultimately show ?thesis by (intro exI [of _ "length out"]) (simp add: drop_map)
qed

theorem reliable_progress_witness:
  "\<exists>s. link_reachable demo_config s \<and> l_sent s = [[7, 8]] \<and> l_out s = [] \<and>
    snd (rx_drain (accept_all (snd (tx_tick (l_tx s) 100 0)) (l_rx s))) = [(0, [7, 8])]"
proof -
  obtain s where s: "link_reachable demo_config s" "l_sent s = [[7, 8]]" "l_out s = []"
    using demo_sent by blast
  obtain tx' frames where t: "tx_tick (l_tx s) 100 0 = (tx', frames)" by fastforce
  obtain rx' out where d: "rx_drain (accept_all frames (l_rx s)) = (rx', out)" by fastforce
  have "timer_out s (length (l_out s)) 100 0" by (simp add: timer_out_def)
  from reliable_progress [OF s(1) demo_window _ this t refl d] s(2,3)
  obtain m where "0 < m" "m \<le> 1" "out = map (\<lambda>n. (word_of_nat n, [[7, 8]] ! n)) [0..<m]" by auto
  moreover from this have "m = 1" by simp
  ultimately have "out = [(0, [7, 8])]" by simp
  then show ?thesis using s t d by (intro exI [of _ s]) simp
qed

text \<open>A full window is never released: an acknowledgement of exactly the whole window, the one
  the receiver sends once it has every frame of it, frees nothing, and the next frame is refused
  with \<open>TxFull\<close>.\<close>

theorem on_ack_full_window_stuck:
  assumes "length (tx_slots tx) \<le> 2 ^ 31" and "0 < length (tx_slots tx)" and "length p \<le> 256"
  shows "on_ack tx \<lparr>base_seq = oldest tx + tx_window32 tx, bitmap = 0, rtt_sample_ns = r\<rparr> now = (tx, None) \<and>
    tx_send tx (oldest tx + tx_window32 tx) p now = Inl (TxFull (oldest tx + tx_window32 tx))"
proof
  let ?ack = "\<lparr>base_seq = oldest tx + tx_window32 tx, bitmap = 0, rtt_sample_ns = r\<rparr>"
  have "fold (ack_sack_bit ?ack now) is (tx, None) = (tx, None)" for "is"
    by (induction "is") (simp_all add: ack_sack_bit_def)
  then show "on_ack tx ?ack now = (tx, None)"
    by (simp add: on_ack_def ack_cumulative.simps)
  show "tx_send tx (oldest tx + tx_window32 tx) p now = Inl (TxFull (oldest tx + tx_window32 tx))"
    using assms unat_seq [OF assms(1)] by (simp add: tx_send_def MAX_RELIABLE_PAYLOAD_def tx_window32_def)
qed

theorem on_ack_full_window_stuck_witness:
  "tx_window32 (tx_new demo_config) = 4 \<and>
   on_ack (tx_new demo_config) \<lparr>base_seq = 4, bitmap = 0, rtt_sample_ns = 0\<rparr> 9 = (tx_new demo_config, None) \<and>
   tx_send (tx_new demo_config) 4 [1] 9 = Inl (TxFull 4)"
proof -
  have len: "length (tx_slots (tx_new demo_config)) = 4"
    by (simp add: tx_new_def demo_config_def next_power_of_two_def max_def word_le_nat_alt)
  have old: "oldest (tx_new demo_config) = 0" by (simp add: tx_new_def Let_def)
  have win: "tx_window32 (tx_new demo_config) = 4" by (simp add: tx_window32_def len)
  show ?thesis
    using on_ack_full_window_stuck [of "tx_new demo_config" "[1]" 0 9] by (simp add: len old win)
qed

end
