(* ===== verification/Crc.thy ===== *)
theory Crc
  imports Wire_Types
begin

text \<open>
  The CRC-32 of the link crate (crc.rs): the table is built bit by bit, the checksum is driven by
  the table one byte at a time. The reference is the bitwise shift register with the reflected
  polynomial; the table-driven routine equals it, and its state updates are injective, which gives
  the error-detection guarantee the framing relies on.
\<close>

text \<open>One round of the inner \<open>while k < 8\<close> loop of \<open>build_table\<close>.\<close>

definition crc_bit :: "u32 \<Rightarrow> u32" where
  "crc_bit c = (if c AND 1 \<noteq> 0 then 0xEDB88320 XOR drop_bit 1 c else drop_bit 1 c)"

definition build_table :: "u32 list" where
  "build_table = map (\<lambda>i. (crc_bit ^^ 8) (word_of_nat i)) [0..<256]"

definition crc_byte :: "u32 \<Rightarrow> u8 \<Rightarrow> u32" where
  "crc_byte c b = build_table ! unat ((c XOR ucast b) AND 0xFF) XOR drop_bit 8 c"

definition crc32 :: "bytes \<Rightarrow> u32" where
  "crc32 data = NOT (foldl crc_byte (NOT 0) data)"

definition command_crc :: "control_command \<Rightarrow> u32" where
  "command_crc cmd = crc32 (command_bytes (cmd\<lparr>cmd_crc := 0\<rparr>))"

section \<open>The bitwise reference\<close>

definition crc_byte_bitwise :: "u32 \<Rightarrow> u8 \<Rightarrow> u32" where
  "crc_byte_bitwise c b = (crc_bit ^^ 8) (c XOR ucast b)"

lemma and_1_odd: "x AND 1 = (if odd x then 1 else 0)" for x :: u32
  by (simp add: and_one_eq odd_iff_mod_2_eq_one even_iff_mod_2_eq_zero)

lemma crc_bit_odd: "crc_bit c = (if odd c then 0xEDB88320 else 0) XOR drop_bit 1 c"
  by (simp add: crc_bit_def and_1_odd)

lemma xor_right_cancel: "a XOR c = b XOR c \<longleftrightarrow> a = b" for a b c :: "'a::len word"
  by (metis xor.assoc xor.right_neutral xor_self_eq)

lemma xor_left_cancel: "c XOR a = c XOR b \<longleftrightarrow> a = b" for a b c :: "'a::len word"
  by (metis xor.commute xor_right_cancel)

lemma crc_bit_xor: "crc_bit (a XOR b) = crc_bit a XOR crc_bit b"
proof -
  have odd: "odd (a XOR b) \<longleftrightarrow> odd a \<noteq> odd b"
    by (metis bit_0 bit_xor_iff)
  have shift: "drop_bit 1 (a XOR b) = drop_bit 1 a XOR drop_bit 1 b" by (rule drop_bit_xor)
  define p :: u32 where "p = 0xEDB88320"
  have "crc_bit (a XOR b) = (if odd (a XOR b) then p else 0) XOR (drop_bit 1 a XOR drop_bit 1 b)"
    unfolding crc_bit_odd shift p_def ..
  also have "\<dots> = ((if odd a then p else 0) XOR drop_bit 1 a) XOR ((if odd b then p else 0) XOR drop_bit 1 b)"
    unfolding odd by (rule bit_eqI) (auto simp: bit_xor_iff)
  finally show ?thesis unfolding crc_bit_odd p_def .
qed

lemma crc_bits_xor: "(crc_bit ^^ n) (a XOR b) = (crc_bit ^^ n) a XOR (crc_bit ^^ n) b"
  by (induction n) (simp_all add: crc_bit_xor)

text \<open>Bits that have not reached the low end are only shifted.\<close>

lemma crc_bits_shift:
  assumes "take_bit n c = 0"
  shows "(crc_bit ^^ n) c = drop_bit n c"
  using assms
proof (induction n arbitrary: c)
  case (Suc n)
  have low: "\<not> bit c i" if "i < Suc n" for i
    using arg_cong [OF Suc.prems, of "\<lambda>w. bit w i"] that by (simp add: bit_take_bit_iff)
  have "even c" using low [of 0] by (simp add: bit_0)
  then have "crc_bit c = drop_bit 1 c" by (simp add: crc_bit_odd)
  have rest: "take_bit n (drop_bit 1 c) = 0"
    by (rule bit_eqI) (use low in \<open>auto simp: bit_take_bit_iff bit_drop_bit_eq\<close>)
  from \<open>crc_bit c = drop_bit 1 c\<close>
  have "(crc_bit ^^ Suc n) c = (crc_bit ^^ n) (drop_bit 1 c)" by (simp add: funpow_swap1)
  also have "\<dots> = drop_bit (Suc n) c" using Suc.IH [OF rest] by simp
  finally show ?case .
qed simp

lemma low_byte_mask: "(0xFF :: u32) = mask 8"
  by (simp add: mask_eq_exp_minus_1)

lemma build_table_nth: "build_table ! unat (x AND 0xFF) = (crc_bit ^^ 8) (x AND 0xFF)"
proof -
  have "unat (x AND 0xFF :: u32) < 256" using unat_and_mask_pow2 [of 8 x] by simp
  then show ?thesis by (simp add: build_table_def)
qed

lemma split_low_byte:
  fixes c m :: u32 and b :: u8
  assumes m: "m = mask 8"
  shows "c XOR ucast b = ((c XOR ucast b) AND m) XOR ((c XOR ucast b) AND NOT m)"
    and "take_bit 8 ((c XOR ucast b) AND NOT m) = 0"
    and "drop_bit 8 ((c XOR ucast b) AND NOT m) = drop_bit 8 c"
proof -
  show "c XOR ucast b = ((c XOR ucast b) AND m) XOR ((c XOR ucast b) AND NOT m)"
    by (rule bit_word_eqI) (auto simp: bit_simps)
  show "take_bit 8 ((c XOR ucast b) AND NOT m) = 0"
    unfolding m by (rule bit_word_eqI) (auto simp: bit_simps)
  show "drop_bit 8 ((c XOR ucast b) AND NOT m) = drop_bit 8 c"
    unfolding m
    by (rule bit_word_eqI) (auto simp: bit_simps dest: bit_imp_le_length)
qed

lemma crc_byte_eq_bitwise: "crc_byte c b = crc_byte_bitwise c b"
proof -
  note sp = split_low_byte [OF low_byte_mask, of c b]
  have "(crc_bit ^^ 8) (c XOR ucast b) =
      (crc_bit ^^ 8) ((c XOR ucast b) AND 0xFF) XOR
      (crc_bit ^^ 8) ((c XOR ucast b) AND NOT 0xFF)"
    using arg_cong [OF sp(1), of "crc_bit ^^ 8"] unfolding crc_bits_xor [symmetric] .
  also have "(crc_bit ^^ 8) ((c XOR ucast b) AND NOT 0xFF) = drop_bit 8 c"
    using crc_bits_shift [OF sp(2)] sp(3) by metis
  finally show ?thesis
    unfolding crc_byte_def crc_byte_bitwise_def build_table_nth by simp
qed

section \<open>Injectivity of the state updates\<close>

lemma crc_bit_top: "bit (crc_bit x) 31 \<longleftrightarrow> odd x"
proof -
  have "\<not> bit (drop_bit 1 x) 31" by (auto simp: bit_drop_bit_eq dest: bit_imp_le_length)
  then show ?thesis by (simp add: crc_bit_odd bit_xor_iff)
qed

lemma crc_bit_inj: "crc_bit c = crc_bit d \<Longrightarrow> c = d"
proof -
  assume eq: "crc_bit c = crc_bit d"
  have b0: "odd c \<longleftrightarrow> odd d" using arg_cong [OF eq, of "\<lambda>w. bit w 31"] by (simp only: crc_bit_top)
  have shift: "drop_bit 1 c = drop_bit 1 d"
    using eq unfolding crc_bit_odd b0 xor_left_cancel .
  show "c = d"
  proof (rule bit_word_eqI)
    fix n
    show "bit c n \<longleftrightarrow> bit d n"
      using b0 arg_cong [OF shift, of "\<lambda>w. bit w (n - 1)"]
      by (cases n) (simp_all add: bit_0 bit_drop_bit_eq)
  qed
qed

lemma crc_bits_inj: "(crc_bit ^^ n) c = (crc_bit ^^ n) d \<Longrightarrow> c = d"
  by (induction n) (auto dest: crc_bit_inj)

lemma crc_byte_inj_state: "crc_byte c b = crc_byte d b \<Longrightarrow> c = d"
  unfolding crc_byte_eq_bitwise crc_byte_bitwise_def
  by (drule crc_bits_inj) (simp add: xor_right_cancel)

lemma crc_byte_inj_byte: "crc_byte c a = crc_byte c b \<Longrightarrow> a = b"
proof -
  assume "crc_byte c a = crc_byte c b"
  then have "c XOR ucast a = c XOR (ucast b :: u32)"
    unfolding crc_byte_eq_bitwise crc_byte_bitwise_def by (rule crc_bits_inj)
  then have "(ucast a :: u32) = ucast b"
    by (simp only: xor_left_cancel)
  then have eq: "bit (ucast a :: u32) n \<longleftrightarrow> bit (ucast b :: u32) n" for n by simp
  show "a = b"
  proof (rule bit_word_eqI)
    fix n assume "n < LENGTH(8)"
    then show "bit a n \<longleftrightarrow> bit b n" using eq [of n] by (simp add: bit_ucast_iff)
  qed
qed

lemma crc_bytes_inj_state: "foldl crc_byte c bs = foldl crc_byte d bs \<Longrightarrow> c = d"
  by (induction bs arbitrary: c d) (auto dest: crc_byte_inj_state)

lemma crc32_byte_change:
  assumes "a \<noteq> b"
  shows "crc32 (pre @ a # post) \<noteq> crc32 (pre @ b # post)"
proof
  assume "crc32 (pre @ a # post) = crc32 (pre @ b # post)"
  then have "foldl crc_byte (crc_byte (foldl crc_byte (NOT 0) pre) a) post =
      foldl crc_byte (crc_byte (foldl crc_byte (NOT 0) pre) b) post"
    by (simp add: crc32_def)
  then have "crc_byte (foldl crc_byte (NOT 0) pre) a = crc_byte (foldl crc_byte (NOT 0) pre) b"
    by (rule crc_bytes_inj_state)
  then show False using assms crc_byte_inj_byte by blast
qed

lemma crc32_update:
  assumes "i < length data" and "data ! i \<noteq> b"
  shows "crc32 (data[i := b]) \<noteq> crc32 data"
  using crc32_byte_change [OF assms(2), of "take i data" "drop (Suc i) data"]
    id_take_nth_drop [OF assms(1)] upd_conv_take_nth_drop [OF assms(1), of b]
  by metis

lemma command_crc_stamp: "command_crc (cmd\<lparr>cmd_crc := x\<rparr>) = command_crc cmd"
  by (simp add: command_crc_def)

section \<open>Properties\<close>

text \<open>C38. Equivalence: the table-driven CRC-32 computes the bitwise reflected CRC with polynomial
  \<open>0xEDB88320\<close>, initial value and final complement of all ones, on every input.\<close>

theorem crc32_eq_bitwise:
  "crc32 data = NOT (foldl (\<lambda>c b. (crc_bit ^^ 8) (c XOR ucast b)) (NOT 0) data)"
proof -
  have "foldl crc_byte c data = foldl (\<lambda>c b. (crc_bit ^^ 8) (c XOR ucast b)) c data" for c
    by (induction data arbitrary: c) (simp_all add: crc_byte_eq_bitwise crc_byte_bitwise_def)
  then show ?thesis by (simp add: crc32_def)
qed

text \<open>Error detection: changing one byte of a message, at any position and to any other value,
  changes its CRC-32.\<close>

theorem crc32_detects_byte_change:
  assumes "i < length data" and "data ! i \<noteq> b"
  shows "crc32 (data[i := b]) \<noteq> crc32 data"
  using assms by (rule crc32_update)

theorem crc32_detects_byte_change_witness:
  "(1 :: nat) < length [1, 2, 3 :: u8] \<and> crc32 ([1, 2, 3][1 := 9]) \<noteq> crc32 [1, 2, 3]"
  using crc32_detects_byte_change [of 1 "[1, 2, 3]" 9] by simp

end
