(* ===== verification/Mesh.thy ===== *)
theory Mesh
  imports Wire_Types
begin

text \<open>
  Swarm neighbour discovery (mesh.rs): the 40-byte beacon and the open-addressed neighbour table.
  The table of a run without expiry is a finite map from unit ids to entries: every entry lies on
  its own probe chain, so \<open>find\<close> and \<open>observe\<close> read and update one key. \<open>expire\<close> punches holes into
  the chains, which is shown to break exactly that.
\<close>

definition MESH_MAGIC :: u32 where "MESH_MAGIC = 0x4D534801"
definition BEACON_LEN :: nat where "BEACON_LEN = 40"

record mesh_beacon =
  mb_magic :: u32
  mb_version :: u16
  mb_flags :: u8
  mb_pad0 :: u8
  mb_unit_id :: u64
  mb_seq :: u32
  mb_pad1 :: u32
  mb_ts_ns :: u64
  mb_listen_port :: u16
  mb_pad2 :: u16
  mb_pad3 :: u32

definition beacon_new :: "u64 \<Rightarrow> u32 \<Rightarrow> u64 \<Rightarrow> u16 \<Rightarrow> mesh_beacon" where
  "beacon_new unit_id seq ts port = \<lparr>mb_magic = MESH_MAGIC, mb_version = 1, mb_flags = 0, mb_pad0 = 0,
     mb_unit_id = unit_id, mb_seq = seq, mb_pad1 = 0, mb_ts_ns = ts, mb_listen_port = port,
     mb_pad2 = 0, mb_pad3 = 0\<rparr>"

definition beacon_bytes :: "mesh_beacon \<Rightarrow> bytes" where
  "beacon_bytes b = le_bytes 4 (mb_magic b) @ le_bytes 2 (mb_version b) @ le_bytes 1 (mb_flags b) @
     le_bytes 1 (mb_pad0 b) @ le_bytes 8 (mb_unit_id b) @ le_bytes 4 (mb_seq b) @ le_bytes 4 (mb_pad1 b) @
     le_bytes 8 (mb_ts_ns b) @ le_bytes 2 (mb_listen_port b) @ le_bytes 2 (mb_pad2 b) @ le_bytes 4 (mb_pad3 b)"

definition beacon_of :: "bytes \<Rightarrow> mesh_beacon" where
  "beacon_of bs = \<lparr>mb_magic = field_at 0 4 bs, mb_version = field_at 4 2 bs, mb_flags = field_at 6 1 bs,
     mb_pad0 = field_at 7 1 bs, mb_unit_id = field_at 8 8 bs, mb_seq = field_at 16 4 bs,
     mb_pad1 = field_at 20 4 bs, mb_ts_ns = field_at 24 8 bs, mb_listen_port = field_at 32 2 bs,
     mb_pad2 = field_at 34 2 bs, mb_pad3 = field_at 36 4 bs\<rparr>"

definition beacon_encode_into :: "mesh_beacon \<Rightarrow> bytes \<Rightarrow> (nat \<times> bytes) option" where
  "beacon_encode_into b out =
     (let bs = beacon_bytes b in
      if length out < length bs then None else Some (length bs, write_at 0 bs out))"

definition beacon_decode :: "bytes \<Rightarrow> mesh_beacon option" where
  "beacon_decode bs =
     (if length bs < BEACON_LEN then None
      else let beacon = beacon_of (take BEACON_LEN bs) in
        if mb_magic beacon = MESH_MAGIC \<and> mb_version beacon = 1 then Some beacon else None)"

section \<open>The neighbour table\<close>

text \<open>\<open>std::net::SocketAddr\<close>; a V6 address carries flow information and a scope id.\<close>

datatype socket_addr = SocketV4 u32 u16 | SocketV6 "128 word" u16 u32 u32

record neighbor_entry =
  ne_unit_id :: u64
  ne_addr :: socket_addr
  ne_last_seen_ns :: u64
  ne_last_seq :: u32
  ne_last_flap_ns :: u64

record mesh_config =
  max_clock_skew_ns :: u64
  flap_cooldown_ns :: u64

definition mesh_config_default :: mesh_config where
  "mesh_config_default = \<lparr>max_clock_skew_ns = 30000000000, flap_cooldown_ns = 2000000000\<rparr>"

record neighbor_table =
  nt_slots :: "neighbor_entry option list"
  nt_len :: nat
  nt_cfg :: mesh_config

definition nt_with_config :: "nat \<Rightarrow> mesh_config \<Rightarrow> neighbor_table" where
  "nt_with_config capacity cfg = \<lparr>nt_slots = map (\<lambda>_. None) [0..<max capacity 1], nt_len = 0, nt_cfg = cfg\<rparr>"

definition nt_with_capacity :: "nat \<Rightarrow> neighbor_table" where
  "nt_with_capacity capacity = nt_with_config capacity mesh_config_default"

definition nt_is_empty :: "neighbor_table \<Rightarrow> bool" where
  "nt_is_empty t \<longleftrightarrow> nt_len t = 0"

definition probe_start :: "u64 \<Rightarrow> nat" where
  "probe_start unit_id = unat (drop_bit 47 (unit_id * 0x9E3779B97F4A7C15))"

text \<open>The branch of \<open>observe\<close> for an entry of the same unit: the updated entry and the result.\<close>

definition observe_known ::
    "mesh_config \<Rightarrow> neighbor_entry \<Rightarrow> socket_addr \<Rightarrow> u32 \<Rightarrow> u64 \<Rightarrow> neighbor_entry \<times> bool" where
  "observe_known cfg e addr seq now_ns =
     (let advanced = 0 < sint (seq - ne_last_seq e); addr_changed = ne_addr e \<noteq> addr in
      if addr_changed then
        if saturating_sub now_ns (ne_last_flap_ns e) < flap_cooldown_ns cfg
        then (e\<lparr>ne_last_seen_ns := now_ns\<rparr>, False)
        else
          let e1 = e\<lparr>ne_addr := addr, ne_last_flap_ns := now_ns, ne_last_seen_ns := now_ns\<rparr>
          in (if advanced then e1\<lparr>ne_last_seq := seq\<rparr> else e1, True)
      else if advanced then (e\<lparr>ne_last_seq := seq, ne_last_seen_ns := now_ns\<rparr>, True)
      else (e\<lparr>ne_last_seen_ns := now_ns\<rparr>, False))"

definition fresh_entry :: "u64 \<Rightarrow> socket_addr \<Rightarrow> u32 \<Rightarrow> u64 \<Rightarrow> neighbor_entry" where
  "fresh_entry unit_id addr seq now_ns = \<lparr>ne_unit_id = unit_id, ne_addr = addr, ne_last_seen_ns = now_ns,
     ne_last_seq = seq, ne_last_flap_ns = now_ns\<rparr>"

text \<open>The probe loop of \<open>observe\<close>, with the number of rounds left.\<close>

fun observe_loop :: "nat \<Rightarrow> nat \<Rightarrow> u64 \<Rightarrow> socket_addr \<Rightarrow> u32 \<Rightarrow> u64 \<Rightarrow> neighbor_table \<Rightarrow> bool \<times> neighbor_table" where
  "observe_loop 0 idx unit_id addr seq now_ns t = (False, t)"
| "observe_loop (Suc n) idx unit_id addr seq now_ns t =
     (case nt_slots t ! idx of
        Some e \<Rightarrow>
          if ne_unit_id e = unit_id then
            let (e', res) = observe_known (nt_cfg t) e addr seq now_ns
            in (res, t\<lparr>nt_slots := (nt_slots t)[idx := Some e']\<rparr>)
          else observe_loop n ((idx + 1) mod length (nt_slots t)) unit_id addr seq now_ns t
      | None \<Rightarrow> (True, t\<lparr>nt_slots := (nt_slots t)[idx := Some (fresh_entry unit_id addr seq now_ns)],
            nt_len := nt_len t + 1\<rparr>))"

definition observe :: "neighbor_table \<Rightarrow> u64 \<Rightarrow> socket_addr \<Rightarrow> u32 \<Rightarrow> u64 \<Rightarrow> u64 \<Rightarrow> bool \<times> neighbor_table" where
  "observe t unit_id addr seq beacon_ts_ns now_ns =
     (if abs_diff beacon_ts_ns now_ns > max_clock_skew_ns (nt_cfg t) then (False, t)
      else
        let cap = length (nt_slots t)
        in observe_loop cap (probe_start unit_id mod cap) unit_id addr seq now_ns t)"

fun find_loop :: "nat \<Rightarrow> nat \<Rightarrow> u64 \<Rightarrow> neighbor_entry option list \<Rightarrow> neighbor_entry option" where
  "find_loop 0 idx unit_id slots = None"
| "find_loop (Suc n) idx unit_id slots =
     (case slots ! idx of
        Some e \<Rightarrow> if ne_unit_id e = unit_id then Some e
          else find_loop n ((idx + 1) mod length slots) unit_id slots
      | None \<Rightarrow> None)"

definition nt_find :: "neighbor_table \<Rightarrow> u64 \<Rightarrow> neighbor_entry option" where
  "nt_find t unit_id =
     (let cap = length (nt_slots t) in find_loop cap (probe_start unit_id mod cap) unit_id (nt_slots t))"

definition is_expired :: "u64 \<Rightarrow> u64 \<Rightarrow> neighbor_entry option \<Rightarrow> bool" where
  "is_expired now_ns ttl_ns slot =
     (case slot of Some e \<Rightarrow> saturating_sub now_ns (ne_last_seen_ns e) > ttl_ns | None \<Rightarrow> False)"

definition expire :: "neighbor_table \<Rightarrow> u64 \<Rightarrow> u64 \<Rightarrow> nat \<times> neighbor_table" where
  "expire t now_ns ttl_ns =
     (let removed = length (filter (is_expired now_ns ttl_ns) (nt_slots t)) in
      (removed, t\<lparr>nt_slots := map (\<lambda>s. if is_expired now_ns ttl_ns s then None else s) (nt_slots t),
        nt_len := nt_len t - removed\<rparr>))"

definition nt_iter :: "neighbor_table \<Rightarrow> neighbor_entry list" where
  "nt_iter t = List.map_filter (\<lambda>s. s) (nt_slots t)"

section \<open>Where a probe stops\<close>

fun probe :: "nat \<Rightarrow> nat \<Rightarrow> u64 \<Rightarrow> neighbor_entry option list \<Rightarrow> nat option" where
  "probe 0 idx u slots = None"
| "probe (Suc n) idx u slots =
     (case slots ! idx of
        Some e \<Rightarrow> if ne_unit_id e = u then Some idx else probe n ((idx + 1) mod length slots) u slots
      | None \<Rightarrow> Some idx)"

definition home :: "u64 \<Rightarrow> neighbor_entry option list \<Rightarrow> nat option" where
  "home u slots = probe (length slots) (probe_start u mod length slots) u slots"

lemma find_loop_probe:
  "find_loop n idx u slots = (case probe n idx u slots of Some i \<Rightarrow> slots ! i | None \<Rightarrow> None)"
  by (induction n arbitrary: idx) (auto split: option.splits)

lemma nt_find_home: "nt_find t u = (case home u (nt_slots t) of Some i \<Rightarrow> nt_slots t ! i | None \<Rightarrow> None)"
  by (simp add: nt_find_def home_def Let_def find_loop_probe)

lemma observe_loop_probe:
  "observe_loop n idx u addr seq now t =
     (case probe n idx u (nt_slots t) of
        None \<Rightarrow> (False, t)
      | Some i \<Rightarrow> (case nt_slots t ! i of
          Some e \<Rightarrow> (snd (observe_known (nt_cfg t) e addr seq now),
            t\<lparr>nt_slots := (nt_slots t)[i := Some (fst (observe_known (nt_cfg t) e addr seq now))]\<rparr>)
        | None \<Rightarrow> (True, t\<lparr>nt_slots := (nt_slots t)[i := Some (fresh_entry u addr seq now)],
            nt_len := nt_len t + 1\<rparr>)))"
  by (induction n arbitrary: idx) (auto split: option.splits prod.splits)

lemma mod_length_less: "i < length xs \<Longrightarrow> k mod length xs < length xs"
  by (rule mod_less_divisor) auto

lemma probe_result:
  assumes "probe n idx u slots = Some i" and "idx < length slots"
  shows "i < length slots \<and> (\<forall>e. slots ! i = Some e \<longrightarrow> ne_unit_id e = u)"
  using assms by (induction n arbitrary: idx) (auto simp: mod_length_less split: option.splits if_splits)

lemma home_result: "home u slots = Some i \<Longrightarrow> i < length slots \<and> (\<forall>e. slots ! i = Some e \<longrightarrow> ne_unit_id e = u)"
  using probe_result [of "length slots" "probe_start u mod length slots" u slots i]
  by (cases "slots = []") (auto simp: home_def)

text \<open>Filling an empty slot elsewhere does not disturb a probe that ends at an entry.\<close>

lemma probe_fill:
  assumes "probe n idx u slots = Some j" and "slots ! j \<noteq> None" and "slots ! i = None"
  shows "probe n idx u (slots[i := v]) = Some j"
  using assms
proof (induction n arbitrary: idx)
  case (Suc n)
  have "idx \<noteq> i"
  proof
    assume "idx = i"
    then have "j = i" using Suc.prems(1,3) by simp
    then show False using Suc.prems(2,3) by simp
  qed
  then show ?case using Suc by (auto split: option.splits if_splits)
qed simp

text \<open>Replacing an entry by one of the same unit does not disturb any probe.\<close>

lemma probe_replace:
  assumes "slots ! i = Some e" and "ne_unit_id e' = ne_unit_id e" and "i < length slots"
  shows "probe n idx u (slots[i := Some e']) = probe n idx u slots"
proof (induction n arbitrary: idx)
  case (Suc n)
  then show ?case using assms by (cases "idx = i") (auto split: option.splits)
qed simp

lemma probe_none:
  assumes "probe n idx u slots = None" and "d < n" and "idx < length slots"
  shows "slots ! ((idx + d) mod length slots) \<noteq> None"
  using assms
proof (induction n arbitrary: idx d)
  case (Suc n)
  show ?case
  proof (cases d)
    case 0
    then show ?thesis using Suc.prems by (auto split: option.splits)
  next
    case (Suc d')
    have "probe n ((idx + 1) mod length slots) u slots = None"
      using Suc.prems(1) by (auto split: option.splits if_splits)
    moreover have "(idx + 1) mod length slots < length slots" using Suc.prems(3) by (rule mod_length_less)
    ultimately have "slots ! (((idx + 1) mod length slots + d') mod length slots) \<noteq> None"
      using Suc.IH Suc.prems(2) \<open>d = Suc d'\<close> by simp
    then show ?thesis using \<open>d = Suc d'\<close> by (simp add: mod_simps)
  qed
qed simp

lemma home_none_full:
  assumes "home u slots = None" and "i < length slots"
  shows "slots ! i \<noteq> None"
proof -
  let ?c = "length slots" and ?s = "probe_start u mod length slots"
  have s: "?s < ?c" using assms(2) by (rule mod_length_less)
  let ?d = "(i + ?c - ?s) mod ?c"
  have "?d < ?c" using assms(2) by (rule mod_length_less)
  moreover have "(?s + ?d) mod ?c = i"
  proof -
    have "(?s + ?d) mod ?c = (?s + (i + ?c - ?s)) mod ?c" by (simp add: mod_simps)
    also have "\<dots> = (i + ?c) mod ?c" using s by simp
    finally show ?thesis using assms(2) by simp
  qed
  ultimately show ?thesis
    using probe_none [of ?c ?s u slots ?d] assms(1) s unfolding home_def by metis
qed

section \<open>The chain invariant\<close>

definition count_live :: "neighbor_entry option list \<Rightarrow> nat" where
  "count_live slots = length (filter (\<lambda>s. s \<noteq> None) slots)"

definition nt_inv :: "neighbor_table \<Rightarrow> bool" where
  "nt_inv t \<longleftrightarrow> nt_slots t \<noteq> [] \<and> nt_len t = count_live (nt_slots t) \<and>
     (\<forall>i < length (nt_slots t). \<forall>e. nt_slots t ! i = Some e \<longrightarrow> home (ne_unit_id e) (nt_slots t) = Some i)"

lemma nt_new_inv: "nt_inv (nt_with_config capacity cfg)"
  by (auto simp: nt_inv_def nt_with_config_def count_live_def simp del: upt_Suc)

lemma nt_find_iff:
  assumes "nt_inv t"
  shows "nt_find t u = Some e \<longleftrightarrow> Some e \<in> set (nt_slots t) \<and> ne_unit_id e = u"
proof
  assume "nt_find t u = Some e"
  then obtain i where "home u (nt_slots t) = Some i" "nt_slots t ! i = Some e"
    by (auto simp: nt_find_home split: option.splits)
  then show "Some e \<in> set (nt_slots t) \<and> ne_unit_id e = u"
    using home_result [of u "nt_slots t" i] nth_mem by fastforce
next
  assume "Some e \<in> set (nt_slots t) \<and> ne_unit_id e = u"
  then obtain i where "i < length (nt_slots t)" "nt_slots t ! i = Some e" "ne_unit_id e = u"
    by (auto simp: in_set_conv_nth)
  then show "nt_find t u = Some e" using assms by (auto simp: nt_inv_def nt_find_home)
qed

lemma count_live_fill: "i < length slots \<Longrightarrow> slots ! i = None \<Longrightarrow> count_live (slots[i := Some e]) = Suc (count_live slots)"
proof (induction slots arbitrary: i)
  case (Cons s slots)
  then show ?case by (cases i) (auto simp: count_live_def)
qed simp

lemma count_live_replace: "i < length slots \<Longrightarrow> slots ! i = Some e \<Longrightarrow> count_live (slots[i := Some e']) = count_live slots"
proof (induction slots arbitrary: i)
  case (Cons s slots)
  then show ?case by (cases i) (auto simp: count_live_def)
qed simp

lemma fill_home:
  assumes "home u slots = Some i" and "slots ! i = None" and "ne_unit_id e = u" and "i < length slots"
  shows "home u (slots[i := Some e]) = Some i"
proof -
  have "probe n idx u (slots[i := Some e]) = Some i" if "probe n idx u slots = Some i" for n idx
    using that assms(2-4)
  proof (induction n arbitrary: idx)
    case (Suc n)
    then show ?case by (cases "idx = i") (auto split: option.splits if_splits)
  qed simp
  then show ?thesis using assms(1) by (simp add: home_def)
qed

lemma nt_inv_fill:
  assumes inv: "nt_inv t" and h: "home (ne_unit_id e) (nt_slots t) = Some i" and i: "nt_slots t ! i = None"
  shows "nt_inv (t\<lparr>nt_slots := (nt_slots t)[i := Some e], nt_len := nt_len t + 1\<rparr>)"
proof -
  have lt: "i < length (nt_slots t)" using home_result [OF h] by simp
  have "home (ne_unit_id e') ((nt_slots t)[i := Some e]) = Some j"
    if "j < length (nt_slots t)" "(nt_slots t)[i := Some e] ! j = Some e'" for j e'
  proof (cases "j = i")
    case True
    then show ?thesis using that fill_home [OF h i refl lt] lt by simp
  next
    case False
    then have "nt_slots t ! j = Some e'" using that(2) by simp
    moreover from this have "home (ne_unit_id e') (nt_slots t) = Some j" using inv that(1) by (simp add: nt_inv_def)
    ultimately show ?thesis using probe_fill i unfolding home_def by (metis length_list_update option.distinct(1))
  qed
  then show ?thesis using inv lt i by (auto simp: nt_inv_def count_live_fill)
qed

lemma nt_inv_replace:
  assumes inv: "nt_inv t" and i: "i < length (nt_slots t)" "nt_slots t ! i = Some e" and e': "ne_unit_id e' = ne_unit_id e"
  shows "nt_inv (t\<lparr>nt_slots := (nt_slots t)[i := Some e']\<rparr>)"
proof -
  have home: "home u ((nt_slots t)[i := Some e']) = home u (nt_slots t)" for u
    using probe_replace [OF i(2) e' i(1)] by (simp add: home_def)
  have "home (ne_unit_id e'') (nt_slots t) = Some j"
    if "j < length (nt_slots t)" "(nt_slots t)[i := Some e'] ! j = Some e''" for j e''
    using that inv i e' by (cases "j = i") (auto simp: nt_inv_def)
  then show ?thesis using inv i by (auto simp: nt_inv_def home count_live_replace)
qed

lemma observe_known_unit [simp]: "ne_unit_id (fst (observe_known cfg e addr seq now)) = ne_unit_id e"
  by (simp add: observe_known_def Let_def)

lemma find_update_other:
  assumes "nt_inv t" and "nt_inv t'" and "nt_slots t' = (nt_slots t)[i := Some e]" and "i < length (nt_slots t)"
    and "\<And>x. nt_slots t ! i = Some x \<Longrightarrow> ne_unit_id x = ne_unit_id e"
  shows "nt_find t' = (nt_find t)(ne_unit_id e \<mapsto> e)"
proof
  fix u
  have mem: "Some x \<in> set ((nt_slots t)[i := Some e]) \<longleftrightarrow> x = e \<or> Some x \<in> set (nt_slots t)"
    if "ne_unit_id x \<noteq> ne_unit_id e \<or> x = e" for x
  proof (cases "x = e")
    case True
    then show ?thesis using assms(4) by (simp add: set_update_memI)
  next
    case False
    with that have "nt_slots t ! i \<noteq> Some x" using assms(5) by blast
    then show ?thesis using False assms(4) by (auto simp: in_set_conv_nth nth_list_update)
  qed
  show "nt_find t' u = ((nt_find t)(ne_unit_id e \<mapsto> e)) u"
  proof (cases "u = ne_unit_id e")
    case True
    then show ?thesis using nt_find_iff [OF assms(2), of u e] mem [of e] by (simp add: assms(3))
  next
    case False
    have "nt_find t' u = Some x \<longleftrightarrow> nt_find t u = Some x" for x
      unfolding nt_find_iff [OF assms(1)] nt_find_iff [OF assms(2)] assms(3) using False mem [of x] by auto
    then show ?thesis using False by (metis fun_upd_other not_None_eq)
  qed
qed

lemma observe_spec:
  assumes inv: "nt_inv t" and skew: "\<not> abs_diff ts now > max_clock_skew_ns (nt_cfg t)"
    and obs: "observe t u addr seq ts now = (res, t')"
  shows "nt_inv t' \<and> (case nt_find t u of
       Some e \<Rightarrow> nt_find t' = (nt_find t)(u \<mapsto> fst (observe_known (nt_cfg t) e addr seq now)) \<and>
         res = snd (observe_known (nt_cfg t) e addr seq now)
     | None \<Rightarrow> if None \<in> set (nt_slots t)
         then nt_find t' = (nt_find t)(u \<mapsto> fresh_entry u addr seq now) \<and> res else t' = t \<and> \<not> res)"
proof (cases "home u (nt_slots t)")
  case None
  then have "None \<notin> set (nt_slots t)" using home_none_full [OF None] by (auto simp: in_set_conv_nth)
  moreover have "res = False" "t' = t"
    using obs skew None by (auto simp: observe_def Let_def observe_loop_probe home_def)
  ultimately show ?thesis using None inv by (simp add: nt_find_home)
next
  case (Some i)
  note h = home_result [OF Some]
  have find: "nt_find t u = nt_slots t ! i" using Some by (simp add: nt_find_home)
  have step: "(res, t') = (case nt_slots t ! i of
          Some e \<Rightarrow> (snd (observe_known (nt_cfg t) e addr seq now),
            t\<lparr>nt_slots := (nt_slots t)[i := Some (fst (observe_known (nt_cfg t) e addr seq now))]\<rparr>)
        | None \<Rightarrow> (True, t\<lparr>nt_slots := (nt_slots t)[i := Some (fresh_entry u addr seq now)], nt_len := nt_len t + 1\<rparr>))"
    using obs skew Some by (simp add: observe_def Let_def observe_loop_probe home_def)
  show ?thesis
  proof (cases "nt_slots t ! i")
    case None
    let ?e = "fresh_entry u addr seq now"
    have unit: "ne_unit_id ?e = u" by (simp add: fresh_entry_def)
    have t': "t' = t\<lparr>nt_slots := (nt_slots t)[i := Some ?e], nt_len := nt_len t + 1\<rparr>" and res
      using step None by auto
    have inv': "nt_inv t'" unfolding t' using nt_inv_fill [OF inv, of ?e i] Some None unit by simp
    have "nt_find t' = (nt_find t)(u \<mapsto> ?e)"
      using find_update_other [OF inv inv', of i ?e] h None unit by (simp add: t')
    moreover have "None \<in> set (nt_slots t)" using None h nth_mem by metis
    ultimately show ?thesis using inv' find None \<open>res\<close> by simp
  next
    case (Some e)
    let ?e = "fst (observe_known (nt_cfg t) e addr seq now)"
    have unit: "ne_unit_id ?e = u" using h Some by simp
    have t': "t' = t\<lparr>nt_slots := (nt_slots t)[i := Some ?e]\<rparr>"
      and res: "res = snd (observe_known (nt_cfg t) e addr seq now)"
      using step Some by auto
    have inv': "nt_inv t'" unfolding t' using nt_inv_replace [OF inv _ Some, of ?e] h by simp
    have "nt_find t' = (nt_find t)(u \<mapsto> ?e)"
      using find_update_other [OF inv inv', of i ?e] h Some unit by (simp add: t')
    then show ?thesis using inv' find Some res by simp
  qed
qed

lemma observe_skewed: "abs_diff ts now > max_clock_skew_ns (nt_cfg t) \<Longrightarrow> observe t u addr seq ts now = (False, t)"
  by (simp add: observe_def)

lemma length_beacon_bytes [simp]: "length (beacon_bytes b) = 40"
  by (simp add: beacon_bytes_def)

lemma beacon_of_bytes [simp]: "beacon_of (beacon_bytes b) = b"
  by (simp add: beacon_of_def beacon_bytes_def image_simps)

lemma beacon_roundtrip:
  "mb_magic b = MESH_MAGIC \<Longrightarrow> mb_version b = 1 \<Longrightarrow> beacon_decode (beacon_bytes b @ rest) = Some b"
  by (simp add: beacon_decode_def BEACON_LEN_def)

section \<open>Properties\<close>

text \<open>Functional refinement: on a table whose probe chains are whole, a plausible beacon acts on the
  map of known neighbours as one update at its unit id: a known unit is refreshed by the flap and
  sequence rules, an unknown one is inserted while a slot is free, a full table ignores it. The
  chains stay whole.\<close>

theorem observe_refines_map:
  assumes "nt_inv t" and "abs_diff ts now \<le> max_clock_skew_ns (nt_cfg t)" and "observe t u addr seq ts now = (res, t')"
  shows "nt_inv t' \<and> (case nt_find t u of
       Some e \<Rightarrow> nt_find t' = (nt_find t)(u \<mapsto> fst (observe_known (nt_cfg t) e addr seq now)) \<and>
         res = snd (observe_known (nt_cfg t) e addr seq now)
     | None \<Rightarrow> if None \<in> set (nt_slots t)
         then nt_find t' = (nt_find t)(u \<mapsto> fresh_entry u addr seq now) \<and> res else t' = t \<and> \<not> res)"
  using observe_spec [OF assms(1) _ assms(3)] assms(2) by (simp add: not_less)

theorem observe_refines_map_witness:
  "let t' = snd (observe (nt_with_capacity 2) 3 (SocketV4 1 2) 7 100 100)
   in nt_find t' 3 = Some (fresh_entry 3 (SocketV4 1 2) 7 100) \<and> nt_find t' 4 = None"
proof -
  let ?t = "nt_with_capacity 2"
  have inv: "nt_inv ?t" by (simp add: nt_with_capacity_def nt_new_inv)
  have slots: "nt_slots ?t = [None, None]" by (simp add: nt_with_capacity_def nt_with_config_def upt_rec)
  have none: "nt_find ?t u = None" for u using nt_find_iff [OF inv, of u] slots by (cases "nt_find ?t u") auto
  obtain res t' where obs: "observe ?t 3 (SocketV4 1 2) 7 100 100 = (res, t')" by fastforce
  have "abs_diff 100 100 \<le> max_clock_skew_ns (nt_cfg ?t)" by (simp add: abs_diff_def)
  from observe_refines_map [OF inv this obs] show ?thesis by (simp add: obs none slots)
qed

text \<open>Route hijack protection: the address stored for a known unit changes only when the flap
  cool-down since its last accepted change has elapsed, the new address is the one the beacon came
  from, and the change restarts the cool-down.\<close>

theorem address_change_rate_limited:
  assumes "nt_inv t" and "nt_find t u = Some e" and "observe t u addr seq ts now = (res, t')"
    and "nt_find t' u = Some e'" and "ne_addr e' \<noteq> ne_addr e"
  shows "flap_cooldown_ns (nt_cfg t) \<le> saturating_sub now (ne_last_flap_ns e) \<and> ne_addr e' = addr \<and>
    ne_last_flap_ns e' = now \<and> res"
proof (cases "abs_diff ts now > max_clock_skew_ns (nt_cfg t)")
  case True
  then have "t' = t" using assms(3) by (simp add: observe_skewed)
  then show ?thesis using assms by simp
next
  case False
  then have "e' = fst (observe_known (nt_cfg t) e addr seq now)" "res = snd (observe_known (nt_cfg t) e addr seq now)"
    using observe_spec [OF assms(1) False assms(3)] assms(2,4) by auto
  then show ?thesis using assms(5)
    by (auto simp: observe_known_def Let_def not_less split: if_splits)
qed

theorem address_change_rate_limited_witness:
  "let t = snd (observe (nt_with_capacity 1) 3 (SocketV4 1 2) 7 100 100);
       (res, t') = observe t 3 (SocketV4 9 2) 8 2000000100 2000000100
   in (case nt_find t' 3 of Some e' \<Rightarrow> ne_addr e' = SocketV4 9 2 \<and> ne_last_flap_ns e' = 2000000100 | None \<Rightarrow> False) \<and> res"
proof -
  define t where "t = nt_with_capacity 1\<lparr>nt_slots := [Some (fresh_entry 3 (SocketV4 1 2) 7 100)], nt_len := 1\<rparr>"
  define e' where "e' = \<lparr>ne_unit_id = 3, ne_addr = SocketV4 9 2, ne_last_seen_ns = 2000000100, ne_last_seq = 8,
    ne_last_flap_ns = 2000000100\<rparr>"
  have t: "snd (observe (nt_with_capacity 1) 3 (SocketV4 1 2) 7 100 100) = t"
    by (simp add: t_def observe_def nt_with_capacity_def nt_with_config_def abs_diff_def)
  have inv: "nt_inv t"
    by (simp add: t_def nt_inv_def count_live_def home_def fresh_entry_def)
  have obs: "observe t 3 (SocketV4 9 2) 8 2000000100 2000000100 = (True, t\<lparr>nt_slots := [Some e']\<rparr>)"
    by (simp add: t_def e'_def observe_def abs_diff_def nt_with_capacity_def nt_with_config_def fresh_entry_def
        observe_known_def mesh_config_default_def saturating_sub_def word_less_nat_alt word_le_nat_alt)
  have find: "nt_find t 3 = Some (fresh_entry 3 (SocketV4 1 2) 7 100)" "nt_find (t\<lparr>nt_slots := [Some e']\<rparr>) 3 = Some e'"
    by (simp_all add: nt_find_def t_def fresh_entry_def e'_def)
  have "ne_addr e' \<noteq> ne_addr (fresh_entry 3 (SocketV4 1 2) 7 100)" by (simp add: e'_def fresh_entry_def)
  from address_change_rate_limited [OF inv find(1) obs find(2) this]
  show ?thesis unfolding t Let_def obs by (simp add: find(2))
qed

text \<open>Expiry breaks probe chains: after the entry at the head of a chain expires, a live neighbour
  further down can no longer be found, and its next beacon is stored a second time.\<close>

theorem expire_breaks_lookup:
  "let a = SocketV4 1 2;
       t1 = snd (observe (nt_with_capacity 2) 1 a 7 100 100);
       t2 = snd (observe t1 3 a 7 900 900);
       (removed, t3) = expire t2 1000 500;
       (is_new, t4) = observe t3 3 a 8 1000 1000
   in nt_find t2 3 = Some (fresh_entry 3 a 7 900) \<and> removed = 1 \<and>
      nt_iter t3 = [fresh_entry 3 a 7 900] \<and> nt_find t3 3 = None \<and>
      is_new \<and> nt_len t4 = 2 \<and> map ne_unit_id (nt_iter t4) = [3, 3]"
proof -
  define a where "a = SocketV4 1 2"
  define e1 where "e1 = fresh_entry 1 a 7 100"
  define e3 where "e3 = fresh_entry 3 a 7 900"
  define e3' where "e3' = fresh_entry 3 a 8 1000"
  define t where "t = nt_with_capacity 2"
  have slots: "nt_slots t = [None, None]" "nt_len t = 0" "nt_cfg t = mesh_config_default"
    by (simp_all add: t_def nt_with_capacity_def nt_with_config_def upt_rec)
  have id: "ne_unit_id e1 = 1" "ne_unit_id e3 = 3" "ne_unit_id e3' = 3"
    by (simp_all add: e1_def e3_def e3'_def fresh_entry_def)
  have "probe_start 1 mod 2 = 0" "probe_start 3 mod 2 = 0" by (simp_all add: probe_start_def)
  then have start: "probe_start 1 mod Suc (Suc 0) = 0" "probe_start 3 mod Suc (Suc 0) = 0"
    by (simp_all only: numeral_2_eq_2)
  have skew: "\<not> abs_diff n n > s" for n s :: u64 by (simp add: abs_diff_def)
  have t1: "snd (observe t 1 a 7 100 100) = t\<lparr>nt_slots := [Some e1, None], nt_len := 1\<rparr>"
    by (simp add: observe_def skew slots start e1_def)
  have t2: "snd (observe (t\<lparr>nt_slots := [Some e1, None], nt_len := 1\<rparr>) 3 a 7 900 900) =
      t\<lparr>nt_slots := [Some e1, Some e3], nt_len := 2\<rparr>"
    by (simp add: observe_def skew slots start id e3_def)
  have t3: "expire (t\<lparr>nt_slots := [Some e1, Some e3], nt_len := 2\<rparr>) 1000 500 =
      (1, t\<lparr>nt_slots := [None, Some e3], nt_len := 1\<rparr>)"
    by (simp add: expire_def is_expired_def e1_def e3_def fresh_entry_def saturating_sub_def
        word_le_nat_alt word_less_nat_alt)
  have t4: "observe (t\<lparr>nt_slots := [None, Some e3], nt_len := 1\<rparr>) 3 a 8 1000 1000 =
      (True, t\<lparr>nt_slots := [Some e3', Some e3], nt_len := 2\<rparr>)"
    by (simp add: observe_def skew slots start e3'_def)
  show ?thesis
    unfolding Let_def a_def [symmetric] t_def [symmetric] t1 t2 t3 e3_def [symmetric] prod.case t4
    by (simp add: nt_find_def start id nt_iter_def List.map_filter_def)
qed

end
