(* ===== verification/Backpressure.thy ===== *)
theory Backpressure
  imports Prelude
begin

text \<open>
  The backpressure signal of the link crate (backpressure.rs): a token bucket in 16.16 fixed point,
  the congestion estimate and the bitrate the encoder is told to use. Every field is an atomic
  written by one thread, so an operation is a state update; \<open>+\<close> and \<open>*\<close> wrap as in a release
  build.
\<close>

definition TOKEN_SCALE :: u64 where "TOKEN_SCALE = push_bit 16 1"

datatype congestion = Normal | Elevated | High | Critical

fun bitrate_fraction_bp :: "congestion \<Rightarrow> u64" where
  "bitrate_fraction_bp Normal = 10000"
| "bitrate_fraction_bp Elevated = 7000"
| "bitrate_fraction_bp High = 4500"
| "bitrate_fraction_bp Critical = 2500"

fun congestion_as_u8 :: "congestion \<Rightarrow> u8" where
  "congestion_as_u8 Normal = 0"
| "congestion_as_u8 Elevated = 1"
| "congestion_as_u8 High = 2"
| "congestion_as_u8 Critical = 3"

definition congestion_from_u8 :: "u8 \<Rightarrow> congestion option" where
  "congestion_from_u8 v = (if v = 0 then Some Normal else if v = 1 then Some Elevated
     else if v = 2 then Some High else if v = 3 then Some Critical else None)"

text \<open>The derived \<open>Ord\<close> compares discriminants.\<close>

instantiation congestion :: linorder
begin

definition less_eq_congestion :: "congestion \<Rightarrow> congestion \<Rightarrow> bool" where
  "less_eq_congestion a b \<longleftrightarrow> congestion_as_u8 a \<le> congestion_as_u8 b"

definition less_congestion :: "congestion \<Rightarrow> congestion \<Rightarrow> bool" where
  "less_congestion a b \<longleftrightarrow> congestion_as_u8 a < congestion_as_u8 b"

instance
proof
  fix a b :: congestion
  assume "a \<le> b" "b \<le> a"
  then have "congestion_as_u8 a = congestion_as_u8 b" by (simp add: less_eq_congestion_def)
  then show "a = b" by (cases a; cases b) simp_all
qed (auto simp: less_eq_congestion_def less_congestion_def)

end

record backpressure =
  bp_capacity_bps :: u64
  bp_tokens :: u64
  bp_last_refill_ns :: u64
  bp_queue_depth :: usize
  bp_peak_queue_depth :: usize
  bp_blocked_sends :: u64
  bp_blocked_window :: u64
  bp_window_start_ns :: u64
  bp_dropped_frames :: u64
  bp_rtt_ewma_ns :: u64

definition bp_new :: "u64 \<Rightarrow> backpressure" where
  "bp_new cap = \<lparr>bp_capacity_bps = max cap 1, bp_tokens = 0, bp_last_refill_ns = 0, bp_queue_depth = 0,
     bp_peak_queue_depth = 0, bp_blocked_sends = 0, bp_blocked_window = 0, bp_window_start_ns = 0,
     bp_dropped_frames = 0, bp_rtt_ewma_ns = 0\<rparr>"

definition bp_default :: backpressure where
  "bp_default = bp_new 100000000"

definition set_capacity_bps :: "u64 \<Rightarrow> backpressure \<Rightarrow> backpressure" where
  "set_capacity_bps bps bp = bp\<lparr>bp_capacity_bps := max bps 1\<rparr>"

definition note_rtt_ns :: "u64 \<Rightarrow> backpressure \<Rightarrow> backpressure" where
  "note_rtt_ns sample bp =
     (let old = bp_rtt_ewma_ns bp;
          nxt = (if old = 0 then sample else old - old div 4 + sample div 4)
      in bp\<lparr>bp_rtt_ewma_ns := nxt\<rparr>)"

definition set_queue_depth :: "usize \<Rightarrow> backpressure \<Rightarrow> backpressure" where
  "set_queue_depth depth bp =
     bp\<lparr>bp_queue_depth := depth, bp_peak_queue_depth := max (bp_peak_queue_depth bp) depth\<rparr>"

definition note_send_blocked :: "u64 \<Rightarrow> backpressure \<Rightarrow> backpressure" where
  "note_send_blocked now_ns bp =
     (let start = bp_window_start_ns bp;
          bp1 = (if start = 0 \<or> saturating_sub now_ns start > 100000000
                 then bp\<lparr>bp_blocked_window := 1, bp_window_start_ns := max now_ns 1\<rparr>
                 else bp\<lparr>bp_blocked_window := bp_blocked_window bp + 1\<rparr>)
      in bp1\<lparr>bp_blocked_sends := bp_blocked_sends bp1 + 1\<rparr>)"

definition note_drop :: "backpressure \<Rightarrow> backpressure" where
  "note_drop bp = bp\<lparr>bp_dropped_frames := bp_dropped_frames bp + 1\<rparr>"

definition refill :: "u64 \<Rightarrow> backpressure \<Rightarrow> backpressure" where
  "refill now_ns bp =
     (let last = bp_last_refill_ns bp in
      if now_ns \<le> last then bp
      else
        let cap_bps = bp_capacity_bps bp;
            gained = saturating_mul (saturating_mul cap_bps (now_ns - last) div 8000000000) TOKEN_SCALE;
            bp1 = bp\<lparr>bp_last_refill_ns := now_ns\<rparr>
        in if gained > 0 then
             let burst_cap = cap_bps div 8 * TOKEN_SCALE
             in bp1\<lparr>bp_tokens := min (bp_tokens bp1 + gained) (max burst_cap TOKEN_SCALE)\<rparr>
           else bp1)"

definition admit :: "usize \<Rightarrow> u64 \<Rightarrow> backpressure \<Rightarrow> bool \<times> backpressure" where
  "admit nbytes now_ns bp =
     (let bp1 = refill now_ns bp; want = saturating_mul nbytes TOKEN_SCALE in
      if want \<le> bp_tokens bp1 then (True, bp1\<lparr>bp_tokens := bp_tokens bp1 - want\<rparr>)
      else (False, note_drop bp1))"

definition available_bytes :: "backpressure \<Rightarrow> u64" where
  "available_bytes bp = bp_tokens bp div TOKEN_SCALE"

definition congestion_level :: "backpressure \<Rightarrow> congestion" where
  "congestion_level bp =
     (let depth = bp_queue_depth bp; blocked = min (bp_blocked_window bp) 64;
          score = saturating_add (saturating_mul depth 2) blocked
      in if score = 0 then Normal else if score \<le> 7 then Elevated else if score \<le> 39 then High else Critical)"

definition suggested_bitrate_bps :: "backpressure \<Rightarrow> u64" where
  "suggested_bitrate_bps bp =
     bp_capacity_bps bp * bitrate_fraction_bp (congestion_level bp) div 10000"

section \<open>The token bucket\<close>

lemma refill_fields [frame_simps]:
  "bp_capacity_bps (refill now bp) = bp_capacity_bps bp"
  "bp_dropped_frames (refill now bp) = bp_dropped_frames bp"
  by (simp_all add: refill_def Let_def)

lemma unat_TOKEN_SCALE: "unat TOKEN_SCALE = 2 ^ 16"
  by (simp add: TOKEN_SCALE_def)

lemma unat_last_refill: "unat (bp_last_refill_ns (refill now bp)) = max (unat now) (unat (bp_last_refill_ns bp))"
  by (auto simp: refill_def Let_def word_le_nat_alt)

text \<open>The credit of one refill is at most what the link carries in the elapsed time: saturation and
  wrap-around only lower it.\<close>

lemma unat_plus_le: "unat (a + b) \<le> unat a + unat b" for a b :: "'a::len word"
  by (simp add: unat_word_ariths)

lemma refill_credit:
  "8000000000 * unat (bp_tokens (refill now bp)) + 2 ^ 16 * (unat (bp_capacity_bps bp) * unat (bp_last_refill_ns bp))
   \<le> 8000000000 * unat (bp_tokens bp) +
     2 ^ 16 * (unat (bp_capacity_bps bp) * unat (bp_last_refill_ns (refill now bp)))"
proof (cases "now \<le> bp_last_refill_ns bp")
  case True
  then show ?thesis by (simp add: refill_def)
next
  case False
  define l where "l = bp_last_refill_ns bp"
  define c where "c = bp_capacity_bps bp"
  define g where "g = saturating_mul (saturating_mul c (now - l) div 8000000000) TOKEN_SCALE"
  have lt: "unat l < unat now" using False by (simp add: l_def word_le_nat_alt)
  have last: "bp_last_refill_ns (refill now bp) = now" using False by (simp add: refill_def Let_def)
  have dt: "unat (now - l) = unat now - unat l"
    using lt by (simp add: unat_sub word_le_nat_alt)
  have "unat (saturating_mul c (now - l) div 8000000000) \<le> unat c * (unat now - unat l) div 8000000000"
    by (simp add: unat_div unat_saturating_mul dt div_le_mono)
  then have "unat g \<le> 2 ^ 16 * (unat c * (unat now - unat l) div 8000000000)"
    unfolding g_def unat_saturating_mul unat_TOKEN_SCALE by (simp add: min.coboundedI1)
  moreover have "8000000000 * (unat c * (unat now - unat l) div 8000000000) \<le> unat c * (unat now - unat l)"
    by simp
  moreover have "8000000000 * g \<le> 2 ^ 16 * x" if "g \<le> 2 ^ 16 * q" "8000000000 * q \<le> x" for g x q :: nat
    using that by simp
  ultimately have g: "8000000000 * unat g \<le> 2 ^ 16 * (unat c * (unat now - unat l))" by blast
  have "bp_tokens (refill now bp) \<le> bp_tokens bp + g \<or> bp_tokens (refill now bp) = bp_tokens bp"
    using False by (auto simp: refill_def Let_def g_def c_def l_def)
  then have "unat (bp_tokens (refill now bp)) \<le> unat (bp_tokens bp) + unat g"
    using unat_plus_le [of "bp_tokens bp" g] by (auto simp: word_le_nat_alt)
  then have "8000000000 * unat (bp_tokens (refill now bp)) \<le>
      8000000000 * unat (bp_tokens bp) + 2 ^ 16 * (unat c * (unat now - unat l))"
    using g by linarith
  moreover have "unat c * unat now = unat c * (unat now - unat l) + unat c * unat l"
    using lt by (simp add: add_mult_distrib2 [symmetric])
  ultimately show ?thesis unfolding last c_def [symmetric] l_def [symmetric] by simp
qed

text \<open>A sequence of admission requests, and the bytes granted.\<close>

fun admit_all :: "(usize \<times> u64) list \<Rightarrow> backpressure \<Rightarrow> nat \<times> backpressure" where
  "admit_all [] bp = (0, bp)"
| "admit_all ((n, now) # reqs) bp =
     (let (ok, bp1) = admit n now bp; (granted, bp2) = admit_all reqs bp1
      in ((if ok then unat n else 0) + granted, bp2))"

lemma admit_step:
  assumes "admit n now bp = (ok, bp')" and "unat n < 2 ^ 48"
  shows "bp_capacity_bps bp' = bp_capacity_bps bp" "bp_last_refill_ns bp' = bp_last_refill_ns (refill now bp)"
    and "unat (bp_tokens bp') + 2 ^ 16 * (if ok then unat n else 0) = unat (bp_tokens (refill now bp))"
proof -
  have want: "unat (saturating_mul n TOKEN_SCALE) = 2 ^ 16 * unat n"
    using assms(2) by (simp add: unat_saturating_mul unat_TOKEN_SCALE)
  show "bp_capacity_bps bp' = bp_capacity_bps bp" "bp_last_refill_ns bp' = bp_last_refill_ns (refill now bp)"
    using assms(1) by (auto simp: admit_def Let_def note_drop_def frame_simps split: if_splits)
  show "unat (bp_tokens bp') + 2 ^ 16 * (if ok then unat n else 0) = unat (bp_tokens (refill now bp))"
    using assms(1) want
    by (auto simp: admit_def Let_def note_drop_def unat_sub word_le_nat_alt split: if_splits)
qed

lemma admit_all_budget:
  assumes "\<forall>(n, now) \<in> set reqs. unat n < 2 ^ 48" and "admit_all reqs bp = (granted, bp')"
  shows "8000000000 * (unat (bp_tokens bp') + 2 ^ 16 * granted) +
      2 ^ 16 * (unat (bp_capacity_bps bp) * unat (bp_last_refill_ns bp))
    \<le> 8000000000 * unat (bp_tokens bp) + 2 ^ 16 * (unat (bp_capacity_bps bp) * unat (bp_last_refill_ns bp')) \<and>
      bp_capacity_bps bp' = bp_capacity_bps bp"
  using assms
proof (induction reqs arbitrary: bp granted)
  case (Cons r reqs)
  obtain n now where r: "r = (n, now)" by fastforce
  obtain ok bp1 where one: "admit n now bp = (ok, bp1)" by fastforce
  obtain g where rest: "admit_all reqs bp1 = (g, bp')" and granted: "granted = (if ok then unat n else 0) + g"
    using Cons.prems(2) by (auto simp: r one split: prod.splits)
  have n: "unat n < 2 ^ 48" using Cons.prems(1) r by auto
  note st = admit_step [OF one n]
  note cr = refill_credit [of now bp]
  have ih: "8000000000 * (unat (bp_tokens bp') + 2 ^ 16 * g) +
      2 ^ 16 * (unat (bp_capacity_bps bp) * unat (bp_last_refill_ns (refill now bp)))
    \<le> 8000000000 * unat (bp_tokens bp1) + 2 ^ 16 * (unat (bp_capacity_bps bp) * unat (bp_last_refill_ns bp'))"
    and cap: "bp_capacity_bps bp' = bp_capacity_bps bp"
    using Cons.IH [OF _ rest] Cons.prems(1) st(1,2) by auto
  show ?case using cr ih st(3) cap unfolding granted by (simp add: algebra_simps)
qed simp

section \<open>Congestion\<close>

lemma unat_score:
  "unat (saturating_add (saturating_mul (d :: u64) 2) b) = min (2 * unat d + unat b) (2 ^ 64 - 1)"
  by (auto simp: unat_saturating_add unat_saturating_mul min_def)

lemma congestion_of_score:
  "congestion_level bp =
     (let n = 2 * unat (bp_queue_depth bp) + min (unat (bp_blocked_window bp)) 64
      in if n = 0 then Normal else if n \<le> 7 then Elevated else if n \<le> 39 then High else Critical)"
proof -
  have m: "unat (min b 64 :: u64) = min (unat b) 64" for b
    by (auto simp: min_def word_le_nat_alt)
  define sc where "sc = saturating_add (saturating_mul (bp_queue_depth bp) 2) (min (bp_blocked_window bp) 64)"
  have sc: "unat sc = min (2 * unat (bp_queue_depth bp) + min (unat (bp_blocked_window bp)) 64) (2 ^ 64 - 1)"
    unfolding sc_def unat_score m ..
  have "sc = 0 \<longleftrightarrow> unat sc = 0" "sc \<le> 7 \<longleftrightarrow> unat sc \<le> 7" "sc \<le> 39 \<longleftrightarrow> unat sc \<le> 39"
    by (simp_all add: unat_eq_0 word_le_nat_alt)
  then show ?thesis
    unfolding congestion_level_def Let_def sc_def [symmetric] by (auto simp: sc min_def)
qed

lemma congestion_mono:
  assumes "bp_queue_depth a \<le> bp_queue_depth b" and "bp_blocked_window a \<le> bp_blocked_window b"
  shows "congestion_level a \<le> congestion_level b"
proof -
  have "2 * unat (bp_queue_depth a) + min (unat (bp_blocked_window a)) 64 \<le>
      2 * unat (bp_queue_depth b) + min (unat (bp_blocked_window b)) 64"
    using assms unfolding word_le_nat_alt by linarith
  then show ?thesis
    unfolding congestion_of_score Let_def by (auto simp: less_eq_congestion_def)
qed

lemma fraction_antimono: "a \<le> b \<Longrightarrow> unat (bitrate_fraction_bp b) \<le> unat (bitrate_fraction_bp a)"
  by (cases a; cases b) (simp_all add: less_eq_congestion_def word_le_nat_alt)

lemma fraction_bounds: "2500 \<le> unat (bitrate_fraction_bp c)" "unat (bitrate_fraction_bp c) \<le> 10000"
  by (cases c; simp)+

lemma unat_suggested:
  assumes "unat (bp_capacity_bps bp) \<le> 10 ^ 15"
  shows "unat (suggested_bitrate_bps bp) =
    unat (bp_capacity_bps bp) * unat (bitrate_fraction_bp (congestion_level bp)) div 10000"
proof -
  have "unat (bp_capacity_bps bp) * unat (bitrate_fraction_bp (congestion_level bp)) \<le> 10 ^ 15 * 10000"
    using assms fraction_bounds(2) by (rule mult_le_mono)
  then have "unat (bp_capacity_bps bp) * unat (bitrate_fraction_bp (congestion_level bp)) < 2 ^ 64" by simp
  then show ?thesis by (simp add: suggested_bitrate_bps_def unat_div unat_word_ariths)
qed

section \<open>Properties\<close>

text \<open>Rate limiting: over any sequence of admission requests, at any times, the bytes granted are at
  most the credit of the bucket at the start plus what the link carries between the first and the
  last refill, although the arithmetic saturates and wraps.\<close>

theorem admit_rate_bound:
  assumes "\<forall>(n, now) \<in> set reqs. unat n < 2 ^ 48" and "admit_all reqs bp = (granted, bp')"
  shows "8000000000 * (2 ^ 16 * granted) + 2 ^ 16 * (unat (bp_capacity_bps bp) * unat (bp_last_refill_ns bp))
    \<le> 8000000000 * unat (bp_tokens bp) + 2 ^ 16 * (unat (bp_capacity_bps bp) * unat (bp_last_refill_ns bp'))"
  using admit_all_budget [OF assms] by simp

theorem admit_rate_bound_witness:
  "let (granted, bp') = admit_all [(1000, 1000000), (200, 1000000)] (bp_new 8000000)
   in granted = 1000 \<and> 8000000000 * (2 ^ 16 * granted) \<le> 2 ^ 16 * (8000000 * unat (bp_last_refill_ns bp'))"
proof -
  have r: "admit_all [(1000, 1000000), (200, 1000000)] (bp_new 8000000) =
      (1000, (bp_new 8000000)\<lparr>bp_last_refill_ns := 1000000, bp_dropped_frames := 1\<rparr>)"
    by (simp add: admit_def refill_def bp_new_def note_drop_def TOKEN_SCALE_def saturating_mul_def Let_def
        min_def max_def word_le_nat_alt word_less_nat_alt)
  show ?thesis using admit_rate_bound [OF _ r] unfolding r by (simp add: bp_new_def max_def word_le_nat_alt)
qed

text \<open>The bitrate suggested to the encoder never exceeds the capacity, never falls below a quarter
  of it (rounded down), and does not rise when the queue or the number of blocked sends grows.\<close>

theorem suggested_bitrate_sound:
  assumes "unat (bp_capacity_bps a) \<le> 10 ^ 15" and "bp_capacity_bps b = bp_capacity_bps a"
    and "bp_queue_depth a \<le> bp_queue_depth b" and "bp_blocked_window a \<le> bp_blocked_window b"
  shows "suggested_bitrate_bps b \<le> suggested_bitrate_bps a \<and> suggested_bitrate_bps a \<le> bp_capacity_bps a \<and>
    unat (bp_capacity_bps a) div 4 \<le> unat (suggested_bitrate_bps b) \<and> congestion_level a \<le> congestion_level b"
proof -
  let ?c = "unat (bp_capacity_bps a)"
  let ?f = "\<lambda>x. unat (bitrate_fraction_bp (congestion_level x))"
  have mono: "congestion_level a \<le> congestion_level b" using assms(3,4) by (rule congestion_mono)
  have ua: "unat (suggested_bitrate_bps a) = ?c * ?f a div 10000" and ub: "unat (suggested_bitrate_bps b) = ?c * ?f b div 10000"
    using assms(1,2) by (simp_all add: unat_suggested)
  have "?c * ?f b \<le> ?c * ?f a" using fraction_antimono [OF mono] by simp
  then have "suggested_bitrate_bps b \<le> suggested_bitrate_bps a"
    unfolding word_le_nat_alt ua ub by (rule div_le_mono)
  moreover have "?c * ?f a div 10000 \<le> ?c * 10000 div 10000"
    using fraction_bounds(2) by (intro div_le_mono mult_le_mono2)
  then have "suggested_bitrate_bps a \<le> bp_capacity_bps a" unfolding word_le_nat_alt ua by simp
  moreover have "?c * 2500 div 10000 \<le> ?c * ?f b div 10000"
    using fraction_bounds(1) by (intro div_le_mono mult_le_mono2)
  then have "?c div 4 \<le> unat (suggested_bitrate_bps b)" unfolding ub by simp
  ultimately show ?thesis using mono by blast
qed

theorem suggested_bitrate_sound_witness:
  "let a = bp_new 1000000; b = set_queue_depth 5 (note_send_blocked 7 a)
   in suggested_bitrate_bps b \<le> suggested_bitrate_bps a \<and> suggested_bitrate_bps a \<le> 1000000 \<and>
      congestion_level a \<le> congestion_level b"
  using suggested_bitrate_sound [of "bp_new 1000000" "set_queue_depth 5 (note_send_blocked 7 (bp_new 1000000))"]
  by (simp add: bp_new_def set_queue_depth_def note_send_blocked_def max_def word_le_nat_alt)

text \<open>Sub-byte credit is lost: refills so close together that each is worth less than one byte
  leave the bucket unchanged however many of them there are, while the refill clock moves on.\<close>

theorem refill_loses_subbyte_credit:
  assumes "bp_last_refill_ns bp = 0" and "unat (bp_capacity_bps bp) * d < 8000000000" and "d * n < 2 ^ 64" and "0 < d"
  shows "fold (\<lambda>i. refill (word_of_nat (d * i))) [1..<Suc n] bp = bp\<lparr>bp_last_refill_ns := word_of_nat (d * n)\<rparr>"
  using assms
proof (induction n)
  case 0
  then show ?case by simp
next
  case (Suc n)
  let ?bp = "bp\<lparr>bp_last_refill_ns := word_of_nat (d * n)\<rparr>"
  have ih: "fold (\<lambda>i. refill (word_of_nat (d * i))) [1..<Suc n] bp = ?bp" using Suc by simp
  have u: "unat (word_of_nat (d * Suc n) :: u64) = d * Suc n" "unat (word_of_nat (d * n) :: u64) = d * n"
    using Suc.prems(3) unfolding unat_of_nat by (auto intro!: mod_less)
  have later: "\<not> (word_of_nat (d * Suc n) :: u64) \<le> word_of_nat (d * n)"
    unfolding word_le_nat_alt u using Suc.prems(4) by simp
  have dt: "unat (word_of_nat (d * Suc n) - word_of_nat (d * n) :: u64) = d"
    using later u by (subst unat_sub) (simp_all add: word_le_nat_alt)
  have "unat (saturating_mul (bp_capacity_bps bp) (word_of_nat (d * Suc n) - word_of_nat (d * n)) div 8000000000) = 0"
    unfolding unat_div unat_saturating_mul dt using Suc.prems(2) by simp
  then have "saturating_mul (bp_capacity_bps bp) (word_of_nat (d * Suc n) - word_of_nat (d * n)) div 8000000000 = 0"
    by (simp only: unat_eq_0)
  then have "refill (word_of_nat (d * Suc n)) ?bp = bp\<lparr>bp_last_refill_ns := word_of_nat (d * Suc n)\<rparr>"
    using later unfolding refill_def Let_def by (simp add: saturating_mul_def)
  moreover have "[1..<Suc (Suc n)] = [1..<Suc n] @ [Suc n]" by simp
  ultimately show ?case using ih by (simp only: fold_append comp_apply fold_simps)
qed

theorem refill_loses_subbyte_credit_witness:
  "bp_tokens (fold (\<lambda>i. refill (word_of_nat (50 * i))) [1..<Suc 20000000] bp_default) = 0"
  using refill_loses_subbyte_credit [of bp_default 50 20000000]
  by (simp add: bp_default_def bp_new_def max_def word_le_nat_alt del: upt_Suc upt_rec_numeral)

end
