(* ===== verification/Mux.thy ===== *)
theory Mux
  imports Crc Reliable Mesh Backpressure
begin

text \<open>
  The UDP multiplexer of the link crate (mux.rs): the 16-byte header, the CRC trailer, one frame
  writer per channel, and the frame parser \<open>demux\<close>. The rkyv archive format is third-party code: the
  record \<open>codec\<close> stands for its serializers and validating accessors, and the locale \<open>wire_codec\<close>
  states what the multiplexer relies on. The socket is the operating system: the result of a
  \<open>send_to\<close> or \<open>recv_from\<close> is an argument.
\<close>

definition MAX_DATAGRAM :: nat where "MAX_DATAGRAM = 1500"
definition HEADER_LEN :: nat where "HEADER_LEN = 16"
definition TRAILER_LEN :: nat where "TRAILER_LEN = 4"
definition MAX_PAYLOAD :: nat where "MAX_PAYLOAD = MAX_DATAGRAM - HEADER_LEN - TRAILER_LEN"

lemmas mux_consts = MAX_DATAGRAM_def HEADER_LEN_def TRAILER_LEN_def MAX_PAYLOAD_def

datatype channel = Control | Telemetry | Media | Ice | Mesh | Secure

fun channel_as_u8 :: "channel \<Rightarrow> u8" where
  "channel_as_u8 Control = 1"
| "channel_as_u8 Telemetry = 2"
| "channel_as_u8 Media = 3"
| "channel_as_u8 Ice = 4"
| "channel_as_u8 Mesh = 5"
| "channel_as_u8 Secure = 6"

definition channel_from_u8 :: "u8 \<Rightarrow> channel option" where
  "channel_from_u8 v = (if v = 1 then Some Control else if v = 2 then Some Telemetry
     else if v = 3 then Some Media else if v = 4 then Some Ice else if v = 5 then Some Mesh
     else if v = 6 then Some Secure else None)"

lemma channel_roundtrip [simp]: "channel_from_u8 (channel_as_u8 ch) = Some ch"
  by (cases ch) (simp_all add: channel_from_u8_def)

definition FLAG_ACK :: u8 where "FLAG_ACK = 1"
definition FLAG_RELIABLE :: u8 where "FLAG_RELIABLE = 2"
definition SECURE_INNER_CONTROL :: u8 where "SECURE_INNER_CONTROL = 1"
definition SECURE_INNER_TELEMETRY :: u8 where "SECURE_INNER_TELEMETRY = 2"

record link_stats =
  tx_frames :: u64
  tx_payload_bytes :: u64
  tx_errors :: u64
  rx_frames :: u64
  rx_malformed :: u64
  rx_crc_errors :: u64
  rx_rejected :: u64

definition link_stats_default :: link_stats where
  "link_stats_default = \<lparr>tx_frames = 0, tx_payload_bytes = 0, tx_errors = 0, rx_frames = 0,
     rx_malformed = 0, rx_crc_errors = 0, rx_rejected = 0\<rparr>"

text \<open>A demultiplexed frame, with the archived view of a command or packet read out.\<close>

datatype inbound =
    InControl control_command socket_addr bool
  | InTelemetry telemetry_packet socket_addr
  | InIce bytes socket_addr
  | InMesh mesh_beacon socket_addr
  | InAck ack_frame socket_addr
  | InSecure bytes socket_addr u8

datatype frame_error = Malformed | CrcMismatch | Payload

datatype io_error = WouldBlock | TimedOut | InvalidData string | OtherError string

text \<open>The receive buffer, 16-byte aligned: its address is 16 times \<open>rxb_unit\<close>.\<close>

record rx_buffer =
  rxb_unit :: nat
  rxb_buf :: bytes

definition rx_buffer_new :: "nat \<Rightarrow> rx_buffer" where
  "rx_buffer_new u = \<lparr>rxb_unit = u, rxb_buf = replicate MAX_DATAGRAM 0\<rparr>"

record codec =
  serialize_command :: "control_command \<Rightarrow> bytes option"
  access_command :: "bytes \<Rightarrow> control_command option"
  serialize_telemetry :: "telemetry_packet \<Rightarrow> bytes option"
  access_telemetry :: "bytes \<Rightarrow> telemetry_packet option"

record udp_mux =
  mx_scratch :: bytes
  mx_stats :: link_stats
  mx_backpressure :: backpressure

definition mux_new :: udp_mux where
  "mux_new = \<lparr>mx_scratch = [], mx_stats = link_stats_default, mx_backpressure = bp_default\<rparr>"

section \<open>Framing\<close>

definition write_header :: "bytes \<Rightarrow> channel \<Rightarrow> u8 \<Rightarrow> u16 \<Rightarrow> bytes" where
  "write_header out ch frame_flags payload_len =
     (let hdr = \<lparr>wf_magic = FRAME_MAGIC, wf_version = PROTOCOL_VERSION, wf_payload_len = payload_len\<rparr>;
          out1 = write_at 0 (wire_frame_bytes hdr) out;
          out2 = out1[8 := channel_as_u8 ch];
          out3 = out2[9 := frame_flags]
      in write_at 10 (replicate (HEADER_LEN - 10) 0) out3)"

definition finish_frame :: "bytes \<Rightarrow> nat \<Rightarrow> nat \<times> bytes" where
  "finish_frame out end =
     (let sum = crc32 (take end out) in (end + TRAILER_LEN, write_at end (le_bytes 4 sum) out))"

definition write_control_frame ::
    "codec \<Rightarrow> udp_mux \<Rightarrow> control_command \<Rightarrow> u8 \<Rightarrow> bytes \<Rightarrow> (io_error + nat \<times> bytes) \<times> udp_mux" where
  "write_control_frame cdc mx cmd frame_flags out =
     (let stamped = cmd\<lparr>cmd_crc := command_crc cmd\<rparr> in
      case serialize_command cdc stamped of
        None \<Rightarrow> (Inl (OtherError ''serialize''), mx)
      | Some bs \<Rightarrow>
          let mx' = mx\<lparr>mx_scratch := bs\<rparr>; n = length bs in
          if n > MAX_PAYLOAD then (Inl (InvalidData ''control payload exceeds MTU''), mx')
          else
            let out1 = write_header out Control frame_flags (word_of_nat n);
                out2 = write_at HEADER_LEN (take n (mx_scratch mx')) out1
            in (Inr (finish_frame out2 (HEADER_LEN + n)), mx'))"

definition write_telemetry_frame ::
    "codec \<Rightarrow> udp_mux \<Rightarrow> telemetry_packet \<Rightarrow> bytes \<Rightarrow> (io_error + nat \<times> bytes) \<times> udp_mux" where
  "write_telemetry_frame cdc mx pkt out =
     (case serialize_telemetry cdc pkt of
        None \<Rightarrow> (Inl (OtherError ''serialize''), mx)
      | Some bs \<Rightarrow>
          let mx' = mx\<lparr>mx_scratch := bs\<rparr>; n = length bs in
          if n > MAX_PAYLOAD then (Inl (InvalidData ''telemetry payload exceeds MTU''), mx')
          else
            let out1 = write_header out Telemetry 0 (word_of_nat n);
                out2 = write_at HEADER_LEN (take n (mx_scratch mx')) out1
            in (Inr (finish_frame out2 (HEADER_LEN + n)), mx'))"

text \<open>The beacon and the acknowledgement are encoded in place behind the header; \<open>None\<close> is the panic
  of \<open>copy_from_slice\<close> on a buffer that is too short.\<close>

definition write_mesh_frame :: "mesh_beacon \<Rightarrow> bytes \<Rightarrow> (nat \<times> bytes) option" where
  "write_mesh_frame beacon out =
     (case beacon_encode_into beacon (drop HEADER_LEN out) of
        None \<Rightarrow> None
      | Some (n, tail) \<Rightarrow>
          Some (finish_frame (write_header (take HEADER_LEN out @ tail) Mesh 0 (word_of_nat n)) (HEADER_LEN + n)))"

definition write_ack_frame :: "ack_frame \<Rightarrow> bytes \<Rightarrow> (nat \<times> bytes) option" where
  "write_ack_frame ack out =
     (case ack_encode_into ack (drop HEADER_LEN out) of
        None \<Rightarrow> None
      | Some (n, tail) \<Rightarrow>
          Some (finish_frame (write_header (take HEADER_LEN out @ tail) Control FLAG_ACK (word_of_nat n))
            (HEADER_LEN + n)))"

definition write_ice_frame :: "bytes \<Rightarrow> bytes \<Rightarrow> io_error + nat \<times> bytes" where
  "write_ice_frame bs out =
     (if length bs > MAX_PAYLOAD then Inl (InvalidData ''ICE payload exceeds MTU'')
      else Inr (finish_frame
        (write_header (write_at HEADER_LEN bs out) Ice 0 (word_of_nat (length bs))) (HEADER_LEN + length bs)))"

definition write_secure_frame :: "bytes \<Rightarrow> u8 \<Rightarrow> bytes \<Rightarrow> io_error + nat \<times> bytes" where
  "write_secure_frame sealed frame_flags out =
     (if length sealed > MAX_PAYLOAD then Inl (InvalidData ''secure payload exceeds MTU'')
      else Inr (finish_frame
        (write_header (write_at HEADER_LEN sealed out) Secure frame_flags (word_of_nat (length sealed)))
        (HEADER_LEN + length sealed)))"

section \<open>Transmit and receive\<close>

definition send_framed :: "udp_mux \<Rightarrow> io_error + nat \<Rightarrow> u64 \<Rightarrow> (io_error + nat) \<times> udp_mux" where
  "send_framed mx sent now_ns =
     (let st = mx_stats mx in
      case sent of
        Inr n \<Rightarrow> (Inr n, mx\<lparr>mx_stats := st\<lparr>tx_frames := tx_frames st + 1,
          tx_payload_bytes := tx_payload_bytes st + word_of_nat (n - (HEADER_LEN + TRAILER_LEN))\<rparr>\<rparr>)
      | Inl e \<Rightarrow>
          let mx' = mx\<lparr>mx_stats := st\<lparr>tx_errors := tx_errors st + 1\<rparr>\<rparr> in
          if e = WouldBlock \<or> e = TimedOut
          then (Inl e, mx'\<lparr>mx_backpressure := note_send_blocked now_ns (mx_backpressure mx')\<rparr>)
          else (Inl e, mx'))"

definition demux_payload ::
    "codec \<Rightarrow> nat \<Rightarrow> u8 \<Rightarrow> u8 \<Rightarrow> bytes \<Rightarrow> socket_addr \<Rightarrow> frame_error + inbound" where
  "demux_payload cdc addr ch fl payload from =
     (case channel_from_u8 ch of
        Some Control \<Rightarrow>
          if fl AND FLAG_ACK \<noteq> 0 then
            (case ack_decode addr payload of Some ack \<Rightarrow> Inr (InAck ack from) | None \<Rightarrow> Inl Payload)
          else
            (case access_command cdc payload of
               Some cmd \<Rightarrow>
                 if command_crc cmd = cmd_crc cmd
                 then Inr (InControl cmd from (fl AND FLAG_RELIABLE \<noteq> 0)) else Inl CrcMismatch
             | None \<Rightarrow> Inl Payload)
      | Some Telemetry \<Rightarrow>
          (case access_telemetry cdc payload of Some pkt \<Rightarrow> Inr (InTelemetry pkt from) | None \<Rightarrow> Inl Payload)
      | Some Ice \<Rightarrow> Inr (InIce payload from)
      | Some Mesh \<Rightarrow>
          (case beacon_decode payload of Some beacon \<Rightarrow> Inr (InMesh beacon from) | None \<Rightarrow> Inl Payload)
      | Some Secure \<Rightarrow> Inr (InSecure payload from fl)
      | Some Media \<Rightarrow> Inl Payload
      | None \<Rightarrow> Inl Payload)"

definition demux :: "codec \<Rightarrow> rx_buffer \<Rightarrow> nat \<Rightarrow> socket_addr \<Rightarrow> frame_error + inbound" where
  "demux cdc rb n from =
     (let buf = rxb_buf rb; addr = 16 * rxb_unit rb in
      if n < HEADER_LEN + TRAILER_LEN then Inl Malformed
      else
        case ref_from_bytes 8 4 wire_frame_of addr (take 8 buf) of
          Inl _ \<Rightarrow> Inl Malformed
        | Inr hdr \<Rightarrow>
            if wf_magic hdr \<noteq> FRAME_MAGIC \<or> wf_version hdr \<noteq> PROTOCOL_VERSION then Inl Malformed
            else
              let payload_len = unat (wf_payload_len hdr); end = HEADER_LEN + payload_len; tot = end + TRAILER_LEN in
              if tot \<noteq> n then Inl Malformed
              else if crc32 (take end buf) \<noteq> from_le (take TRAILER_LEN (drop end buf)) then Inl CrcMismatch
              else demux_payload cdc (addr + HEADER_LEN) (buf ! 8) (buf ! 9)
                (take payload_len (drop HEADER_LEN buf)) from)"

text \<open>\<open>fill\<close> on a Unix target: the datagram lands at the start of the buffer, cut to its size.\<close>

definition mux_fill ::
    "rx_buffer \<Rightarrow> io_error + bytes \<times> socket_addr \<Rightarrow> io_error + (nat \<times> socket_addr \<times> rx_buffer) option" where
  "mux_fill rb res =
     (case res of
        Inr (d, from) \<Rightarrow>
          let d' = take (length (rxb_buf rb)) d
          in Inr (Some (length d', from, rb\<lparr>rxb_buf := write_at 0 d' (rxb_buf rb)\<rparr>))
      | Inl e \<Rightarrow> if e = WouldBlock \<or> e = TimedOut then Inr None else Inl e)"

definition recv_frame ::
    "codec \<Rightarrow> udp_mux \<Rightarrow> rx_buffer \<Rightarrow> io_error + bytes \<times> socket_addr \<Rightarrow>
     (io_error + (frame_error + inbound) option) \<times> udp_mux \<times> rx_buffer" where
  "recv_frame cdc mx rb res =
     (case mux_fill rb res of
        Inl e \<Rightarrow> (Inl e, mx, rb)
      | Inr None \<Rightarrow> (Inr None, mx, rb)
      | Inr (Some (n, from, rb')) \<Rightarrow>
          let st = demux cdc rb' n from in
          (Inr (Some st),
           case st of
             Inr _ \<Rightarrow> mx\<lparr>mx_stats := (mx_stats mx)\<lparr>rx_frames := rx_frames (mx_stats mx) + 1\<rparr>\<rparr>
           | Inl _ \<Rightarrow> mx, rb'))"

section \<open>The datagram\<close>

definition frame_head :: "channel \<Rightarrow> u8 \<Rightarrow> nat \<Rightarrow> bytes" where
  "frame_head ch fl n = wire_frame_bytes \<lparr>wf_magic = FRAME_MAGIC, wf_version = PROTOCOL_VERSION,
     wf_payload_len = word_of_nat n\<rparr> @ [channel_as_u8 ch, fl] @ replicate 6 0"

definition datagram :: "channel \<Rightarrow> u8 \<Rightarrow> bytes \<Rightarrow> bytes" where
  "datagram ch fl payload =
     (let body = frame_head ch fl (length payload) @ payload in body @ le_bytes 4 (crc32 body))"

lemma length_frame_head [simp]: "length (frame_head ch fl n) = 16"
  by (simp add: frame_head_def)

lemma length_datagram [simp]: "length (datagram ch fl payload) = 20 + length payload"
  by (simp add: datagram_def Let_def)

lemma write_header_eq:
  assumes "16 \<le> length out"
  shows "write_header out ch fl (word_of_nat n) = frame_head ch fl n @ drop 16 out"
proof -
  let ?h = "wire_frame_bytes \<lparr>wf_magic = FRAME_MAGIC, wf_version = PROTOCOL_VERSION, wf_payload_len = word_of_nat n\<rparr>"
  define rest where "rest = drop 16 out"
  obtain a b where ab: "drop 8 out = a # b # drop 10 out"
  proof
    show "drop 8 out = out ! 8 # out ! 9 # drop 10 out"
      using assms Cons_nth_drop_Suc [of 8 out] Cons_nth_drop_Suc [of 9 out] by simp
  qed
  have len: "length ?h = 8" by simp
  have "write_at 0 ?h out = ?h @ a # b # drop 10 out" using ab by (simp add: write_at_def)
  then have "(write_at 0 ?h out)[8 := channel_as_u8 ch, 9 := fl] = ?h @ channel_as_u8 ch # fl # drop 10 out"
    using len by (simp add: list_update_append)
  then show ?thesis
    using len by (simp add: write_header_def frame_head_def Let_def HEADER_LEN_def write_at_def)
qed

lemma finish_frame_eq:
  assumes "take n out = frame_head ch fl (length p) @ p" and "n = 16 + length p" and "n + 4 \<le> length out"
  shows "\<exists>out'. finish_frame out n = (20 + length p, out') \<and> take (20 + length p) out' = datagram ch fl p \<and>
    length out' = length out"
  using assms by (simp add: finish_frame_def Let_def TRAILER_LEN_def write_at_def datagram_def)

lemma out_split:
  assumes "take n out = d" and "length d = n"
  shows "out = d @ drop n out"
  using assms append_take_drop_id [of n out] by simp

lemma frame_head_fields:
  assumes "length p < 2 ^ 16"
  shows "wire_frame_of (take 8 (frame_head ch fl (length p) @ rest)) =
      \<lparr>wf_magic = FRAME_MAGIC, wf_version = PROTOCOL_VERSION, wf_payload_len = word_of_nat (length p)\<rparr>"
    and "(frame_head ch fl (length p) @ rest) ! 8 = channel_as_u8 ch"
    and "(frame_head ch fl (length p) @ rest) ! 9 = fl"
    and "unat (word_of_nat (length p) :: u16) = length p"
  using assms by (simp_all add: frame_head_def nth_append unat_of_nat)

text \<open>What the parser makes of a buffer that starts with a datagram.\<close>

lemma demux_datagram:
  assumes "length p < 2 ^ 16" and "take (20 + length p) (rxb_buf rb) = datagram ch fl p"
  shows "demux cdc rb (20 + length p) from =
    demux_payload cdc (16 * rxb_unit rb + 16) (channel_as_u8 ch) fl p from"
proof -
  let ?h = "frame_head ch fl (length p)" and ?c = "le_bytes 4 (crc32 (frame_head ch fl (length p) @ p))"
  have buf: "rxb_buf rb = ?h @ p @ ?c @ drop (20 + length p) (rxb_buf rb)"
    using out_split [OF assms(2)] by (simp add: datagram_def Let_def)
  define rest where "rest = drop (20 + length p) (rxb_buf rb)"
  have buf: "rxb_buf rb = ?h @ p @ ?c @ rest" using buf by (simp only: rest_def)
  have take: "take (16 + length p) (rxb_buf rb) = ?h @ p" by (simp add: buf)
  have crc: "from_le (take 4 (drop (16 + length p) (rxb_buf rb))) = crc32 (?h @ p)"
    by (simp add: buf from_le_le_bytes)
  have pay: "take (length p) (drop 16 (rxb_buf rb)) = p" by (simp add: buf)
  note f = frame_head_fields(1-3) [OF assms(1), of ch fl "p @ ?c @ rest", folded buf]
    frame_head_fields(4) [OF assms(1)]
  have len: "8 \<le> length (rxb_buf rb)" by (simp add: buf)
  have al: "16 * rxb_unit rb mod 4 = 0" by (metis dvd_eq_mod_eq_0 dvd_mult2 dvd_triv_left mult.commute
      mult_2_right num_double numeral_times_numeral semiring_norm(13))
  have hdr: "ref_from_bytes 8 4 wire_frame_of (16 * rxb_unit rb) (take 8 (rxb_buf rb)) =
      Inr \<lparr>wf_magic = FRAME_MAGIC, wf_version = PROTOCOL_VERSION, wf_payload_len = word_of_nat (length p)\<rparr>"
    using len al f(1) by (simp add: ref_from_bytes_def check_len_def check_align_def)
  show ?thesis
    unfolding demux_def Let_def hdr by (simp add: mux_consts f(2-4) take crc pay)
qed

section \<open>The writers produce datagrams\<close>

lemma header_then_payload:
  assumes "length out = 1500" and "length p \<le> 1480"
  shows "\<exists>out'. finish_frame (write_at 16 p (write_header out ch fl (word_of_nat (length p)))) (16 + length p) =
      (20 + length p, out') \<and> take (20 + length p) out' = datagram ch fl p \<and> length out' = 1500"
proof -
  have "write_at 16 p (write_header out ch fl (word_of_nat (length p))) =
      frame_head ch fl (length p) @ p @ drop (16 + length p) out"
    using assms by (simp add: write_header_eq write_at_def add.commute)
  then show ?thesis
    using finish_frame_eq [of "16 + length p" "write_at 16 p (write_header out ch fl (word_of_nat (length p)))" ch fl p]
      assms by simp
qed

lemma payload_then_header:
  assumes "length out = 1500" and "length p \<le> 1480"
  shows "\<exists>out'. finish_frame (write_header (write_at 16 p out) ch fl (word_of_nat (length p))) (16 + length p) =
      (20 + length p, out') \<and> take (20 + length p) out' = datagram ch fl p \<and> length out' = 1500"
proof -
  have "write_header (write_at 16 p out) ch fl (word_of_nat (length p)) =
      frame_head ch fl (length p) @ p @ drop (16 + length p) out"
    using assms by (simp add: write_header_eq) (simp add: write_at_def)
  then show ?thesis
    using finish_frame_eq [of "16 + length p" "write_header (write_at 16 p out) ch fl (word_of_nat (length p))" ch fl p]
      assms by simp
qed

text \<open>A frame of a 1500-byte packet buffer, and the buffer of a receiver of that packet.\<close>

definition frames :: "nat \<times> bytes \<Rightarrow> channel \<Rightarrow> u8 \<Rightarrow> bytes \<Rightarrow> bool" where
  "frames res ch fl p \<longleftrightarrow> fst res = 20 + length p \<and> take (fst res) (snd res) = datagram ch fl p \<and>
     length (snd res) = 1500"

lemma write_ice_frames:
  "length out = 1500 \<Longrightarrow> length p \<le> 1480 \<Longrightarrow> \<exists>r. write_ice_frame p out = Inr r \<and> frames r Ice 0 p"
  using payload_then_header [of out p Ice 0] by (auto simp: write_ice_frame_def frames_def mux_consts)

lemma write_secure_frames:
  "length out = 1500 \<Longrightarrow> length p \<le> 1480 \<Longrightarrow> \<exists>r. write_secure_frame p fl out = Inr r \<and> frames r Secure fl p"
  using payload_then_header [of out p Secure fl] by (auto simp: write_secure_frame_def frames_def mux_consts)

lemma length_ack_bytes [simp]: "length (ack_bytes a) = 16"
  by (simp add: ack_bytes_def)

lemma ack_of_bytes [simp]: "ack_of (ack_bytes a) = a"
  by (simp add: ack_of_def ack_bytes_def image_simps)

lemma take_write_tail: "16 \<le> length out \<Longrightarrow> take 16 out @ write_at 0 bs (drop 16 out) = write_at 16 bs out"
  by (simp add: write_at_def add.commute)

lemma write_mesh_frames:
  "length out = 1500 \<Longrightarrow> \<exists>r. write_mesh_frame b out = Some r \<and> frames r Mesh 0 (beacon_bytes b)"
  using payload_then_header [of out "beacon_bytes b" Mesh 0]
  by (auto simp: write_mesh_frame_def beacon_encode_into_def frames_def HEADER_LEN_def Let_def take_write_tail)

lemma write_ack_frames:
  "length out = 1500 \<Longrightarrow> \<exists>r. write_ack_frame a out = Some r \<and> frames r Control FLAG_ACK (ack_bytes a)"
  using payload_then_header [of out "ack_bytes a" Control FLAG_ACK]
  by (auto simp: write_ack_frame_def ack_encode_into_def frames_def HEADER_LEN_def Let_def take_write_tail)

lemma write_control_frames:
  assumes "length out = 1500" and "serialize_command cdc (cmd\<lparr>cmd_crc := command_crc cmd\<rparr>) = Some bs" and "length bs \<le> 1480"
  shows "\<exists>r mx'. write_control_frame cdc mx cmd fl out = (Inr r, mx') \<and> frames r Control fl bs"
  using header_then_payload [OF assms(1,3), of Control fl] assms(2,3)
  by (auto simp: write_control_frame_def frames_def mux_consts Let_def)

lemma write_telemetry_frames:
  assumes "length out = 1500" and "serialize_telemetry cdc pkt = Some bs" and "length bs \<le> 1480"
  shows "\<exists>r mx'. write_telemetry_frame cdc mx pkt out = (Inr r, mx') \<and> frames r Telemetry 0 bs"
  using header_then_payload [OF assms(1,3), of Telemetry 0] assms(2,3)
  by (auto simp: write_telemetry_frame_def frames_def mux_consts Let_def)

text \<open>Reception of a framed packet: the receiver's buffer starts with the bytes sent.\<close>

lemma demux_frames:
  assumes "frames r ch fl p" and "take (fst r) (rxb_buf rb) = take (fst r) (snd r)"
  shows "demux cdc rb (fst r) from = demux_payload cdc (16 * rxb_unit rb + 16) (channel_as_u8 ch) fl p from"
proof -
  have "20 + length p \<le> 1500" using assms(1) by (auto simp: frames_def dest!: arg_cong [of _ "datagram ch fl p" length])
  then have "length p < 2 ^ 16" by simp
  then show ?thesis using demux_datagram [of p rb ch fl] assms unfolding frames_def by metis
qed

section \<open>Corruption\<close>

lemma trailer_update:
  assumes "k < 4" and "le_bytes 4 (c :: u32) ! k \<noteq> b"
  shows "from_le ((le_bytes 4 c)[k := b]) \<noteq> c"
proof
  assume "from_le ((le_bytes 4 c)[k := b]) = c"
  then have "le_bytes 4 c = le_bytes 4 (from_le ((le_bytes 4 c)[k := b]) :: u32)" by simp
  also have "\<dots> = (le_bytes 4 c)[k := b]" by (rule le_bytes_from_le) simp_all
  finally show False using assms by (metis length_le_bytes nth_list_update_eq)
qed

lemma corrupt_crc:
  assumes i: "i < length body + 4" and b: "(body @ le_bytes 4 (crc32 body)) ! i \<noteq> b"
  defines "d \<equiv> (body @ le_bytes 4 (crc32 body))[i := b]"
  shows "crc32 (take (length body) d) \<noteq> from_le (take 4 (drop (length body) d))"
proof (cases "i < length body")
  case True
  then show ?thesis
    using crc32_update [OF True, of b] b by (simp add: d_def list_update_append nth_append from_le_le_bytes)
next
  case False
  then have "i - length body < 4" using i by linarith
  then show ?thesis
    using trailer_update [of "i - length body" "crc32 body" b] False b
    by (auto simp: d_def list_update_append nth_append)
qed

lemma demux_crc_mismatch:
  assumes "crc32 (take m (rxb_buf rb)) \<noteq> from_le (take 4 (drop m (rxb_buf rb)))"
  shows "demux cdc rb (m + 4) from = Inl Malformed \<or> demux cdc rb (m + 4) from = Inl CrcMismatch"
proof -
  have "16 + unat (wf_payload_len hdr) + 4 = m + 4 \<longleftrightarrow> 16 + unat (wf_payload_len hdr) = m" for hdr by simp
  then show ?thesis using assms
    by (auto simp: demux_def Let_def mux_consts split: sum.splits)
qed

section \<open>The codec interface\<close>

locale wire_codec =
  fixes cdc :: codec
  assumes command_law: "command_wf c \<Longrightarrow>
      \<exists>bs. serialize_command cdc c = Some bs \<and> length bs \<le> MAX_PAYLOAD \<and> access_command cdc bs = Some c"
    and telemetry_law: "telemetry_wf p \<Longrightarrow>
      \<exists>bs. serialize_telemetry cdc p = Some bs \<and> length bs \<le> MAX_PAYLOAD \<and> access_telemetry cdc bs = Some p"
begin

lemma control_roundtrip:
  assumes "command_wf cmd" and "fl AND FLAG_ACK = 0" and "length out = 1500"
  shows "\<exists>n out' mx'. write_control_frame cdc mx cmd fl out = (Inr (n, out'), mx') \<and>
    (\<forall>rb from. take n (rxb_buf rb) = take n out' \<longrightarrow>
      demux cdc rb n from = Inr (InControl (cmd\<lparr>cmd_crc := command_crc cmd\<rparr>) from (fl AND FLAG_RELIABLE \<noteq> 0)))"
proof -
  let ?c = "cmd\<lparr>cmd_crc := command_crc cmd\<rparr>"
  have "command_wf ?c" using assms(1) by (simp add: command_wf_def)
  then obtain bs where bs: "serialize_command cdc ?c = Some bs" "length bs \<le> 1480" "access_command cdc bs = Some ?c"
    using command_law by (auto simp: mux_consts)
  obtain r mx' where r: "write_control_frame cdc mx cmd fl out = (Inr r, mx')" "frames r Control fl bs"
    using write_control_frames [OF assms(3) bs(1,2)] by blast
  have "demux_payload cdc a (channel_as_u8 Control) fl bs src = Inr (InControl ?c src (fl AND FLAG_RELIABLE \<noteq> 0))" for a src
    unfolding demux_payload_def channel_roundtrip using assms(2) bs(3) by (simp add: command_crc_stamp)
  then show ?thesis using r demux_frames [OF r(2)] by (cases r) auto
qed

lemma telemetry_roundtrip:
  assumes "telemetry_wf pkt" and "length out = 1500"
  shows "\<exists>n out' mx'. write_telemetry_frame cdc mx pkt out = (Inr (n, out'), mx') \<and>
    (\<forall>rb from. take n (rxb_buf rb) = take n out' \<longrightarrow> demux cdc rb n from = Inr (InTelemetry pkt from))"
proof -
  obtain bs where bs: "serialize_telemetry cdc pkt = Some bs" "length bs \<le> 1480" "access_telemetry cdc bs = Some pkt"
    using telemetry_law [OF assms(1)] by (auto simp: mux_consts)
  obtain r mx' where r: "write_telemetry_frame cdc mx pkt out = (Inr r, mx')" "frames r Telemetry 0 bs"
    using write_telemetry_frames [OF assms(2) bs(1,2)] by blast
  have "demux_payload cdc a (channel_as_u8 Telemetry) 0 bs src = Inr (InTelemetry pkt src)" for a src
    unfolding demux_payload_def channel_roundtrip using bs(3) by simp
  then show ?thesis using r demux_frames [OF r(2)] by (cases r) auto
qed

end

text \<open>The archive of a struct of little-endian primitives is its raw image, accepted at its exact
  length: the codec the raw-cast functions of the repository give.\<close>

definition raw_codec :: codec where
  "raw_codec = \<lparr>serialize_command = (\<lambda>c. Some (command_bytes c)),
     access_command = (\<lambda>bs. if length bs = 56 then Some (command_of bs) else None),
     serialize_telemetry = (\<lambda>p. Some (telemetry_bytes p)),
     access_telemetry = (\<lambda>bs. if length bs = 56 then Some (telemetry_of bs) else None)\<rparr>"

interpretation raw: wire_codec raw_codec
  by unfold_locales
    (auto simp: raw_codec_def mux_consts length_command_bytes command_of_bytes length_telemetry_bytes telemetry_of_bytes)

section \<open>Properties\<close>

text \<open>C11. Command round trip: a control command written into a packet is received as the same command,
  stamped with its checksum, with its reliability flag, by a receiver whose buffer starts with the
  packet, whatever the rest of the buffer holds.\<close>

theorem control_frame_roundtrip:
  assumes "wire_codec cdc" and "command_wf cmd" and "fl AND FLAG_ACK = 0" and "length out = 1500"
  shows "\<exists>n out' mx'. write_control_frame cdc mx cmd fl out = (Inr (n, out'), mx') \<and>
    (\<forall>rb from. take n (rxb_buf rb) = take n out' \<longrightarrow>
      demux cdc rb n from = Inr (InControl (cmd\<lparr>cmd_crc := command_crc cmd\<rparr>) from (fl AND FLAG_RELIABLE \<noteq> 0)))"
  using assms by (rule wire_codec.control_roundtrip)

theorem control_frame_roundtrip_witness:
  "\<exists>n out' mx'. write_control_frame raw_codec mux_new (command_zeroed Assist) FLAG_RELIABLE (replicate 1500 0) =
      (Inr (n, out'), mx') \<and>
    demux raw_codec \<lparr>rxb_unit = 4, rxb_buf = out'\<rparr> n (SocketV4 1 443) =
      Inr (InControl ((command_zeroed Assist)\<lparr>cmd_crc := command_crc (command_zeroed Assist)\<rparr>)
        (SocketV4 1 443) True)"
proof -
  have "command_wf (command_zeroed Assist)" by (simp add: command_wf_def command_zeroed_def)
  moreover have "FLAG_RELIABLE AND FLAG_ACK = 0" "FLAG_RELIABLE AND FLAG_RELIABLE \<noteq> 0"
    by (simp_all add: FLAG_RELIABLE_def FLAG_ACK_def)
  ultimately show ?thesis
    using control_frame_roundtrip [OF raw.wire_codec_axioms, of "command_zeroed Assist" FLAG_RELIABLE
        "replicate 1500 0" mux_new] by fastforce
qed

text \<open>Round trips of the other channels: beacons, acknowledgements, ICE bytes and sealed envelopes
  that fit the MTU arrive as they were sent, sealed envelopes with their inner-channel tag.\<close>

theorem frame_roundtrips:
  assumes "length out = 1500" and "length p \<le> MAX_PAYLOAD"
  shows "(\<exists>n out'. write_ice_frame p out = Inr (n, out') \<and>
      (\<forall>rb from. take n (rxb_buf rb) = take n out' \<longrightarrow> demux cdc rb n from = Inr (InIce p from))) \<and>
    (\<exists>n out'. write_secure_frame p fl out = Inr (n, out') \<and>
      (\<forall>rb from. take n (rxb_buf rb) = take n out' \<longrightarrow> demux cdc rb n from = Inr (InSecure p from fl))) \<and>
    (\<exists>n out'. write_mesh_frame (beacon_new u s ts port) out = Some (n, out') \<and>
      (\<forall>rb from. take n (rxb_buf rb) = take n out' \<longrightarrow>
        demux cdc rb n from = Inr (InMesh (beacon_new u s ts port) from))) \<and>
    (\<exists>n out'. write_ack_frame a out = Some (n, out') \<and>
      (\<forall>rb from. take n (rxb_buf rb) = take n out' \<longrightarrow> demux cdc rb n from = Inr (InAck a from)))"
proof -
  have p: "length p \<le> 1480" using assms(2) by (simp add: mux_consts)
  let ?b = "beacon_new u s ts port"
  obtain i where i: "write_ice_frame p out = Inr i" "frames i Ice 0 p" using write_ice_frames [OF assms(1) p] by blast
  obtain e where e: "write_secure_frame p fl out = Inr e" "frames e Secure fl p"
    using write_secure_frames [OF assms(1) p] by blast
  obtain m where m: "write_mesh_frame ?b out = Some m" "frames m Mesh 0 (beacon_bytes ?b)"
    using write_mesh_frames [OF assms(1)] by blast
  obtain k where k: "write_ack_frame a out = Some k" "frames k Control FLAG_ACK (ack_bytes a)"
    using write_ack_frames [OF assms(1)] by blast
  have "beacon_decode (beacon_bytes ?b) = Some ?b"
    using beacon_roundtrip [of ?b "[]"] by (simp add: beacon_new_def)
  moreover have "FLAG_ACK AND FLAG_ACK \<noteq> 0" by (simp add: FLAG_ACK_def)
  moreover have "ack_decode (16 * x + 16) (ack_bytes a) = Some a" for x
    using mod_mult_self1 [of 0 8 "2 * x + 2"]
    by (simp add: ack_decode_def ref_from_bytes_def check_len_def check_align_def algebra_simps)
  ultimately have "\<And>x from. demux_payload cdc x (channel_as_u8 Mesh) 0 (beacon_bytes ?b) from = Inr (InMesh ?b from)"
    "\<And>x from. demux_payload cdc (16 * x + 16) (channel_as_u8 Control) FLAG_ACK (ack_bytes a) from = Inr (InAck a from)"
    "\<And>x from. demux_payload cdc x (channel_as_u8 Ice) 0 p from = Inr (InIce p from)"
    "\<And>x from. demux_payload cdc x (channel_as_u8 Secure) fl p from = Inr (InSecure p from fl)"
    unfolding demux_payload_def channel_roundtrip by simp_all
  then show ?thesis
    using i e m k demux_frames [OF i(2)] demux_frames [OF e(2)] demux_frames [OF m(2)] demux_frames [OF k(2)]
    by (cases i; cases e; cases m; cases k) auto
qed

theorem frame_roundtrips_witness:
  "\<exists>n out'. write_ice_frame [1, 2, 3] (replicate 1500 0) = Inr (n, out') \<and>
     demux raw_codec \<lparr>rxb_unit = 4, rxb_buf = out'\<rparr> n (SocketV4 1 443) = Inr (InIce [1, 2, 3] (SocketV4 1 443))"
  using frame_roundtrips [of "replicate 1500 0" "[1, 2, 3]" raw_codec 1 1 1 1 1
      "\<lparr>base_seq = 0, bitmap = 0, rtt_sample_ns = 0\<rparr>"]
  by (fastforce simp: mux_consts)

text \<open>C10. Corruption: a packet of any channel in which one byte, of the header, the payload or the
  trailer, was changed in transit is refused as malformed or for its checksum; it never reaches a
  consumer.\<close>

theorem corrupted_frame_rejected:
  assumes "take (20 + length p) (rxb_buf rb) = (datagram ch fl p)[i := b]"
    and "i < 20 + length p" and "datagram ch fl p ! i \<noteq> b"
  shows "demux cdc rb (20 + length p) from = Inl Malformed \<or> demux cdc rb (20 + length p) from = Inl CrcMismatch"
proof -
  define body where "body = frame_head ch fl (length p) @ p"
  have len: "length body = 16 + length p" by (simp add: body_def)
  have d: "datagram ch fl p = body @ le_bytes 4 (crc32 body)" by (simp add: datagram_def body_def Let_def)
  have "crc32 (take (length body) ((datagram ch fl p)[i := b])) \<noteq>
      from_le (take 4 (drop (length body) ((datagram ch fl p)[i := b])))"
    unfolding d by (rule corrupt_crc) (use assms(2,3) d len in simp_all)
  then have "crc32 (take (length body) (rxb_buf rb)) \<noteq> from_le (take 4 (drop (length body) (rxb_buf rb)))"
    unfolding assms(1) [symmetric] len by (simp add: drop_take)
  from demux_crc_mismatch [OF this] show ?thesis by (simp add: len add.commute)
qed

theorem corrupted_frame_rejected_witness:
  "let d = (datagram Ice 0 [1, 2, 3])[17 := 9] in
   demux raw_codec \<lparr>rxb_unit = 4, rxb_buf = d\<rparr> 23 (SocketV4 1 443) = Inl Malformed \<or>
   demux raw_codec \<lparr>rxb_unit = 4, rxb_buf = d\<rparr> 23 (SocketV4 1 443) = Inl CrcMismatch"
proof -
  have "datagram Ice 0 [1, 2, 3] ! 17 = 2" by (simp add: datagram_def Let_def nth_append)
  then show ?thesis
    using corrupted_frame_rejected [of "[1, 2, 3]" "\<lparr>rxb_unit = 4, rxb_buf = (datagram Ice 0 [1, 2, 3])[17 := 9]\<rparr>"
        Ice 0 17 9 raw_codec "SocketV4 1 443"] by simp
qed

end
