(* ===== verification/Uring.thy ===== *)
theory Uring
  imports Mux "HOL-Library.Multiset"
begin

text \<open>
  The io_uring transmit queue (uring.rs): a bounded pool of submission slots over one UDP descriptor.

  The io_uring package and the kernel behind it are not in the repository. Their calls are the record
  \<open>uring_calls\<close> on an arbitrary state of the queue pair, and the locale \<open>uring_kernel\<close> states the documented
  behaviour the code relies on: an entry that was pushed is executed at most once, by any later call, in
  any order; what it sends is the message of the entry, and only an entry whose completion carries no
  error has sent it. Submitting and waiting may fail, whatever was executed. A submission entry keeps
  the destination and the bytes its slot held when it was pushed; a slot is not written again before its
  completion was reaped.
\<close>

section \<open>The package\<close>

record sqe =
  sqe_user :: u64
  sqe_name :: "socket_addr option"
  sqe_bytes :: bytes

record 'q uring_calls =
  uc_push :: "sqe \<Rightarrow> 'q \<Rightarrow> 'q option"
  uc_submit :: "'q \<Rightarrow> (io_error + nat) \<times> 'q"
  uc_submit_and_wait :: "nat \<Rightarrow> 'q \<Rightarrow> (io_error + nat) \<times> 'q"
  uc_completion :: "'q \<Rightarrow> (u64 \<times> int) list \<times> 'q"

section \<open>The transmit queue\<close>

definition DEFAULT_SLOTS :: nat where "DEFAULT_SLOTS = 64"

definition NO_SLOT :: u16 where "NO_SLOT = - 1"

datatype stage_error = Busy

datatype slot_state = Free | Staged | InFlight

text \<open>\<open>us_addr\<close> is \<open>None\<close> for the zeroed storage of a slot that was never staged.\<close>

record uring_slot =
  us_state :: slot_state
  us_buf :: bytes
  us_len :: nat
  us_addr :: "socket_addr option"
  us_next_free :: u16

record 'q uring_tx =
  ur_ring :: 'q
  ur_slots :: "uring_slot list"
  ur_free_head :: u16
  ur_staged :: nat
  ur_inflight :: nat

text \<open>The result of creating the ring is the argument.\<close>

definition uring_new :: "io_error + 'q \<Rightarrow> nat \<Rightarrow> io_error + 'q uring_tx" where
  "uring_new created slots =
     (let n = max slots 1 in
      case created of
        Inl e \<Rightarrow> Inl e
      | Inr q \<Rightarrow> Inr \<lparr>ur_ring = q,
          ur_slots = map (\<lambda>i. \<lparr>us_state = Free, us_buf = replicate MAX_DATAGRAM 0, us_len = 0, us_addr = None,
            us_next_free = (if i + 1 < n then word_of_nat (i + 1) else NO_SLOT)\<rparr>) [0..<n],
          ur_free_head = 0, ur_staged = 0, ur_inflight = 0\<rparr>)"

definition uring_available :: "'q uring_tx \<Rightarrow> nat" where
  "uring_available u = length (ur_slots u) - ur_staged u - ur_inflight u"

text \<open>The flow label and the scope of an IPv6 address are not copied.\<close>

fun fill_sockaddr :: "socket_addr \<Rightarrow> socket_addr" where
  "fill_sockaddr (SocketV4 ip port) = SocketV4 ip port"
| "fill_sockaddr (SocketV6 ip port flow scope) = SocketV6 ip port 0 0"

definition uring_stage :: "socket_addr \<Rightarrow> (bytes \<Rightarrow> nat \<times> bytes) \<Rightarrow> 'q uring_tx \<Rightarrow> (stage_error + unit) \<times> 'q uring_tx" where
  "uring_stage peer fill u =
     (if ur_free_head u = NO_SLOT then (Inl Busy, u)
      else
        let idx = unat (ur_free_head u);
            slot = ur_slots u ! idx;
            (n, buf) = fill (us_buf slot)
        in (Inr (), u\<lparr>ur_free_head := us_next_free slot, ur_staged := ur_staged u + 1,
              ur_slots := (ur_slots u)[idx := slot\<lparr>us_buf := buf, us_len := n, us_addr := Some (fill_sockaddr peer), us_state := Staged\<rparr>]\<rparr>))"

definition sqe_of :: "nat \<Rightarrow> uring_slot \<Rightarrow> sqe" where
  "sqe_of idx slot = \<lparr>sqe_user = word_of_nat idx, sqe_name = us_addr slot, sqe_bytes = take (us_len slot) (us_buf slot)\<rparr>"

text \<open>The loop of \<open>submit_staged\<close>, with the number of entries pushed.\<close>

fun push_staged :: "'q uring_calls \<Rightarrow> nat list \<Rightarrow> 'q uring_tx \<Rightarrow> nat \<Rightarrow> 'q uring_tx \<times> nat" where
  "push_staged K [] u pushed = (u, pushed)"
| "push_staged K (idx # idxs) u pushed =
     (let slot = ur_slots u ! idx in
      if us_state slot \<noteq> Staged then push_staged K idxs u pushed
      else
        (case uc_push K (sqe_of idx slot) (ur_ring u) of
           None \<Rightarrow> (u, pushed)
         | Some q \<Rightarrow> push_staged K idxs
             (u\<lparr>ur_ring := q, ur_slots := (ur_slots u)[idx := slot\<lparr>us_state := InFlight\<rparr>]\<rparr>) (pushed + 1)))"

definition submit_staged :: "'q uring_calls \<Rightarrow> 'q uring_tx \<Rightarrow> (io_error + nat) \<times> 'q uring_tx" where
  "submit_staged K u =
     (case push_staged K [0..<length (ur_slots u)] u 0 of
        (u1, pushed) \<Rightarrow>
          let u2 = u1\<lparr>ur_staged := ur_staged u1 - pushed, ur_inflight := ur_inflight u1 + pushed\<rparr> in
          if 0 < pushed then
            (case uc_submit K (ur_ring u2) of
               (Inl e, q) \<Rightarrow> (Inl e, u2\<lparr>ur_ring := q\<rparr>)
             | (Inr _, q) \<Rightarrow> (Inr pushed, u2\<lparr>ur_ring := q\<rparr>))
          else (Inr pushed, u2))"

definition uring_wait :: "'q uring_calls \<Rightarrow> nat \<Rightarrow> 'q uring_tx \<Rightarrow> (io_error + unit) \<times> 'q uring_tx" where
  "uring_wait K n u =
     (case uc_submit_and_wait K n (ur_ring u) of
        (Inl e, q) \<Rightarrow> (Inl e, u\<lparr>ur_ring := q\<rparr>)
      | (Inr _, q) \<Rightarrow> (Inr (), u\<lparr>ur_ring := q\<rparr>))"

text \<open>One completion of \<open>reap\<close>; the errors passed to the callback are collected by \<open>uring_reap\<close>.\<close>

definition reap_one :: "u64 \<times> int \<Rightarrow> 'q uring_tx \<Rightarrow> 'q uring_tx" where
  "reap_one cqe u =
     (let idx = unat (fst cqe); u1 = u\<lparr>ur_inflight := ur_inflight u - 1\<rparr> in
      if idx < length (ur_slots u1) then
        u1\<lparr>ur_slots := (ur_slots u1)[idx := (ur_slots u1 ! idx)\<lparr>us_state := Free, us_next_free := ur_free_head u1\<rparr>],
           ur_free_head := word_of_nat idx\<rparr>
      else u1)"

definition uring_reap :: "'q uring_calls \<Rightarrow> 'q uring_tx \<Rightarrow> int list \<times> nat \<times> 'q uring_tx" where
  "uring_reap K u =
     (case uc_completion K (ur_ring u) of
        (cqes, q) \<Rightarrow> (filter (\<lambda>r. r < 0) (map snd cqes), length cqes, fold reap_one cqes (u\<lparr>ur_ring := q\<rparr>)))"

lemma reap_ring [simp]: "ur_ring (fold reap_one cqes u) = ur_ring u"
  by (induction cqes arbitrary: u) (simp_all add: reap_one_def Let_def)

text \<open>The steps of the service between staging a datagram and deciding whether it went out: submission,
  waiting for everything in flight, reaping. The first component says whether the code takes the
  datagram for sent, the second whether submission or waiting failed.\<close>

definition ring_turn :: "'q uring_calls \<Rightarrow> 'q uring_tx \<Rightarrow> bool \<times> bool \<times> 'q uring_tx" where
  "ring_turn K u =
     (let (sub, u1) = submit_staged K u;
          submitted = (sub = Inr 1);
          (completed, u2) = (if submitted then (case uring_wait K (ur_inflight u1) u1 of (r, u') \<Rightarrow> (r = Inr (), u')) else (False, u1));
          (errs, _, u3) = uring_reap K u2
      in (completed \<and> errs = [], \<not> completed, u3))"

lemma ring_turn_parts:
  assumes "submit_staged K u = (Inr 1, u1)" and "ur_inflight u1 = 1" and "uc_submit_and_wait K 1 (ur_ring u1) = (rw, q2)"
    and "uc_completion K q2 = (cs, q3)"
  shows "fst (snd (ring_turn K u)) \<longleftrightarrow> (\<exists>e. rw = Inl e)" and "ur_ring (snd (snd (ring_turn K u))) = q3"
  using assms by (auto simp: ring_turn_def uring_wait_def uring_reap_def Let_def split: sum.splits)

lemma ring_turn_ok: "ring_turn K u = (ok, trouble, u') \<Longrightarrow> ok \<Longrightarrow> \<not> trouble"
  by (auto simp: ring_turn_def Let_def split: prod.splits)

section \<open>What the code relies on\<close>

text \<open>What any call may do: some of the pending entries are executed, each once and with a result, and those
  without an error have sent their message.\<close>

definition executed :: "('q \<Rightarrow> sqe list) \<Rightarrow> ('q \<Rightarrow> (u64 \<times> int) list) \<Rightarrow> ('q \<Rightarrow> (socket_addr option \<times> bytes) list) \<Rightarrow> 'q \<Rightarrow> 'q \<Rightarrow> bool" where
  "executed pending landed sent q q' \<longleftrightarrow>
     (\<exists>ex. mset (pending q) = mset (map fst ex) + mset (pending q') \<and>
        landed q' = landed q @ map (\<lambda>(e, r). (sqe_user e, r)) ex \<and>
        sent q' = sent q @ map (\<lambda>(e, r). (sqe_name e, sqe_bytes e)) (filter (\<lambda>(e, r). 0 \<le> r) ex))"

text \<open>A queue with nothing on its way.\<close>

definition quiet :: "('q \<Rightarrow> sqe list) \<Rightarrow> ('q \<Rightarrow> (u64 \<times> int) list) \<Rightarrow> 'q uring_tx \<Rightarrow> bool" where
  "quiet pending landed u \<longleftrightarrow> pending (ur_ring u) = [] \<and> landed (ur_ring u) = [] \<and> ur_staged u = 0 \<and> ur_inflight u = 0 \<and>
     (\<forall>s \<in> set (ur_slots u). us_state s = Free \<and> length (us_buf s) = MAX_DATAGRAM) \<and>
     unat (ur_free_head u) < length (ur_slots u) \<and> length (ur_slots u) < 2 ^ 16"

locale uring_kernel =
  fixes K :: "'q uring_calls" and pending :: "'q \<Rightarrow> sqe list" and landed :: "'q \<Rightarrow> (u64 \<times> int) list"
    and sent :: "'q \<Rightarrow> (socket_addr option \<times> bytes) list"
  assumes push_law: "uc_push K e q = Some q' \<Longrightarrow> pending q' = pending q @ [e] \<and> landed q' = landed q \<and> sent q' = sent q"
    and submit_law: "uc_submit K q = (r, q') \<Longrightarrow> executed pending landed sent q q'"
    and wait_law: "uc_submit_and_wait K n q = (r, q') \<Longrightarrow> executed pending landed sent q q' \<and> ((\<exists>m. r = Inr m) \<longrightarrow> n \<le> length (landed q'))"
    and completion_law: "uc_completion K q = (cs, q') \<Longrightarrow>
      \<exists>q1. executed pending landed sent q q1 \<and> cs = landed q1 \<and> pending q' = pending q1 \<and> landed q' = [] \<and> sent q' = sent q1"
begin

lemma executes_none: "executed pending landed sent q q' \<Longrightarrow> pending q = [] \<Longrightarrow> pending q' = [] \<and> landed q' = landed q \<and> sent q' = sent q"
  by (auto simp: executed_def)

text \<open>One entry on its way: still pending, or executed with a result.\<close>

definition entry_at :: "sqe \<Rightarrow> (socket_addr option \<times> bytes) list \<Rightarrow> int option \<Rightarrow> 'q \<Rightarrow> bool" where
  "entry_at e L r q \<longleftrightarrow>
     (case r of
        None \<Rightarrow> pending q = [e] \<and> landed q = [] \<and> sent q = L
      | Some x \<Rightarrow> pending q = [] \<and> landed q = [(sqe_user e, x)] \<and> sent q = L @ (if 0 \<le> x then [(sqe_name e, sqe_bytes e)] else []))"

lemma executes_entry:
  assumes "executed pending landed sent q q'" and "entry_at e L r q"
  shows "\<exists>r'. entry_at e L r' q' \<and> (r \<noteq> None \<longrightarrow> r' = r)"
proof (cases r)
  case None
  obtain ex where ex: "mset (pending q) = mset (map fst ex) + mset (pending q')"
      "landed q' = landed q @ map (\<lambda>(e, r). (sqe_user e, r)) ex"
      "sent q' = sent q @ map (\<lambda>(e, r). (sqe_name e, sqe_bytes e)) (filter (\<lambda>(e, r). 0 \<le> r) ex)"
    using assms(1) unfolding executed_def by blast
  have p: "pending q = [e]" "landed q = []" "sent q = L" using assms(2) None by (simp_all add: entry_at_def)
  have "length ex + length (pending q') = 1" using arg_cong [OF ex(1), of size] p by simp
  then consider "ex = []" "length (pending q') = 1" | x where "ex = [x]" "pending q' = []"
    by (cases ex) auto
  then show ?thesis
  proof cases
    case 1
    then have "pending q' = [e]" using ex(1) p by (cases "pending q'") auto
    then show ?thesis using 1 ex p None by (intro exI [of _ None]) (simp add: entry_at_def)
  next
    case 2
    then have "fst x = e" using ex(1) p by simp
    then show ?thesis using 2 ex p None by (intro exI [of _ "Some (snd x)"]) (auto simp: entry_at_def split: prod.splits)
  qed
next
  case (Some x)
  then have "pending q = []" using assms(2) by (simp add: entry_at_def)
  from executes_none [OF assms(1) this] show ?thesis using assms(2) Some by (intro exI [of _ r]) (simp add: entry_at_def)
qed

lemma uring_new_quiet:
  assumes "pending q = []" and "landed q = []" and "slots < 2 ^ 16" and "uring_new (Inr q) slots = Inr u"
  shows "quiet pending landed u"
  using assms by (auto simp: uring_new_def quiet_def Let_def)

lemma completion_entry:
  assumes "entry_at e L r q" and "uc_completion K q = (cs, q')"
  obtains r' where "r \<noteq> None \<longrightarrow> r' = r" and "pending q' = (if r' = None then [e] else [])" and "landed q' = []"
    and "cs = (case r' of None \<Rightarrow> [] | Some x \<Rightarrow> [(sqe_user e, x)])"
    and "sent q' = L @ (case r' of None \<Rightarrow> [] | Some x \<Rightarrow> if 0 \<le> x then [(sqe_name e, sqe_bytes e)] else [])"
proof -
  obtain q1 where q1: "executed pending landed sent q q1" "cs = landed q1" "pending q' = pending q1" "landed q' = []" "sent q' = sent q1"
    using completion_law [OF assms(2)] by blast
  obtain r' where r': "entry_at e L r' q1" "r \<noteq> None \<longrightarrow> r' = r" using executes_entry [OF q1(1) assms(1)] by blast
  then show ?thesis using that [of r'] q1 by (cases r') (auto simp: entry_at_def)
qed

lemma completion_quiet:
  assumes "pending q = []" and "landed q = []" and "uc_completion K q = (cs, q')"
  shows "cs = [] \<and> pending q' = [] \<and> landed q' = [] \<and> sent q' = sent q"
  using completion_law [OF assms(3)] executes_none assms(1,2) by fastforce

lemma submit_pushed_one:
  assumes "push_staged K [0..<length (ur_slots u)] u 0 = (u\<lparr>ur_ring := q0, ur_slots := S\<rparr>, 1)" and "uc_submit K q0 = (rs, q1)"
    and "ur_staged u = 1" and "ur_inflight u = 0"
  shows "submit_staged K u = (case rs of Inl e \<Rightarrow> Inl e | Inr _ \<Rightarrow> Inr 1,
    u\<lparr>ur_ring := q1, ur_staged := 0, ur_inflight := 1, ur_slots := S\<rparr>)"
  using assms(2-4) by (simp add: submit_staged_def assms(1) split: sum.splits)

text \<open>A staged slot among free ones: the loop of \<open>submit_staged\<close> finds it.\<close>

lemma push_staged_skip:
  "(\<And>i. i \<in> set is \<Longrightarrow> us_state (ur_slots u ! i) \<noteq> Staged) \<Longrightarrow> push_staged K (is @ js) u p = push_staged K js u p"
  by (induction "is") simp_all

lemma push_one_staged:
  assumes "idx < length (ur_slots u)" and "us_state (ur_slots u ! idx) = Staged"
    and "\<And>i. i < length (ur_slots u) \<Longrightarrow> i \<noteq> idx \<Longrightarrow> us_state (ur_slots u ! i) = Free"
  shows "push_staged K [0..<length (ur_slots u)] u 0 =
    (case uc_push K (sqe_of idx (ur_slots u ! idx)) (ur_ring u) of
       None \<Rightarrow> (u, 0)
     | Some q \<Rightarrow> (u\<lparr>ur_ring := q, ur_slots := (ur_slots u)[idx := (ur_slots u ! idx)\<lparr>us_state := InFlight\<rparr>]\<rparr>, 1))"
proof -
  let ?n = "length (ur_slots u)"
  have split: "[0..<?n] = [0..<idx] @ idx # [Suc idx..<?n]"
    using assms(1) upt_add_eq_append [of 0 idx "?n - idx"] by (simp add: upt_conv_Cons)
  have front: "push_staged K [0..<?n] u 0 = push_staged K (idx # [Suc idx..<?n]) u 0"
    unfolding split by (rule push_staged_skip) (use assms(1,3) in auto)
  have rest: "push_staged K [Suc idx..<?n] (u\<lparr>ur_ring := q, ur_slots := (ur_slots u)[idx := (ur_slots u ! idx)\<lparr>us_state := InFlight\<rparr>]\<rparr>) 1 =
      (u\<lparr>ur_ring := q, ur_slots := (ur_slots u)[idx := (ur_slots u ! idx)\<lparr>us_state := InFlight\<rparr>]\<rparr>, 1)" for q
    using push_staged_skip [of "[Suc idx..<?n]" "u\<lparr>ur_ring := q, ur_slots := (ur_slots u)[idx := (ur_slots u ! idx)\<lparr>us_state := InFlight\<rparr>]\<rparr>" "[]" 1]
      assms(3) by simp
  show ?thesis unfolding front using assms(2) rest by (simp add: Let_def split: option.splits)
qed

end

text \<open>The closure of the service: as much of the datagram as fits the slot.\<close>

definition copy_into :: "bytes \<Rightarrow> bytes \<Rightarrow> nat \<times> bytes" where
  "copy_into buf slot = (let n = min (length buf) (length slot) in (n, write_at 0 (take n buf) slot))"

definition staged_slot :: "socket_addr \<Rightarrow> bytes \<Rightarrow> uring_slot \<Rightarrow> uring_slot" where
  "staged_slot peer buf slot = slot\<lparr>us_buf := write_at 0 buf (us_buf slot), us_len := length buf,
     us_addr := Some (fill_sockaddr peer), us_state := Staged\<rparr>"

context uring_kernel
begin

lemma quiet_slot:
  assumes "quiet pending landed u"
  shows "unat (ur_free_head u) < length (ur_slots u)" and "ur_free_head u \<noteq> NO_SLOT"
    and "length (us_buf (ur_slots u ! unat (ur_free_head u))) = MAX_DATAGRAM"
proof -
  show idx: "unat (ur_free_head u) < length (ur_slots u)" using assms by (simp add: quiet_def)
  then show "length (us_buf (ur_slots u ! unat (ur_free_head u))) = MAX_DATAGRAM" using assms by (simp add: quiet_def)
  show "ur_free_head u \<noteq> NO_SLOT"
  proof
    assume "ur_free_head u = NO_SLOT"
    moreover have "unat NO_SLOT = 2 ^ 16 - 1" by (simp add: NO_SLOT_def unat_minus_one_word_eq)
    ultimately show False using idx assms unfolding quiet_def by simp
  qed
qed

lemma stage_quiet:
  assumes "quiet pending landed u" and "length buf \<le> MAX_DATAGRAM"
  defines "idx \<equiv> unat (ur_free_head u)"
  shows "uring_stage peer (copy_into buf) u = (Inr (), u\<lparr>ur_free_head := us_next_free (ur_slots u ! idx), ur_staged := 1,
      ur_slots := (ur_slots u)[idx := staged_slot peer buf (ur_slots u ! idx)]\<rparr>)"
  using quiet_slot [OF assms(1)] assms(1,2)
  by (simp add: uring_stage_def copy_into_def idx_def staged_slot_def Let_def quiet_def min_def)

lemma sqe_of_staged: "length buf \<le> length (us_buf slot) \<Longrightarrow> sqe_of idx (staged_slot peer buf slot) =
    \<lparr>sqe_user = word_of_nat idx, sqe_name = Some (fill_sockaddr peer), sqe_bytes = buf\<rparr>"
  by (simp add: sqe_of_def staged_slot_def)

text \<open>A completion of the slot that was in flight restores the queue.\<close>

lemma reap_restores:
  assumes q: "quiet pending landed u" and "pending q = []" and "landed q = []" and len: "length buf \<le> MAX_DATAGRAM"
  defines "idx \<equiv> unat (ur_free_head u)"
  shows "quiet pending landed (reap_one (word_of_nat idx, x) (u\<lparr>ur_free_head := h, ur_staged := 0, ur_inflight := 1,
    ur_slots := (ur_slots u)[idx := (staged_slot peer buf (ur_slots u ! idx))\<lparr>us_state := InFlight\<rparr>], ur_ring := q\<rparr>))"
proof -
  have idx: "idx < length (ur_slots u)" "idx < 2 ^ 16" using q by (simp_all add: quiet_def idx_def)
  have user: "unat (word_of_nat idx :: u64) = idx" using idx by (simp add: unat_of_nat)
  have free: "(word_of_nat idx :: u16) = ur_free_head u" by (simp add: idx_def)
  have b: "length (us_buf (ur_slots u ! idx)) = MAX_DATAGRAM" using quiet_slot(3) [OF q] by (simp add: idx_def)
  then have "length (write_at 0 buf (us_buf (ur_slots u ! idx))) = MAX_DATAGRAM" using len by (simp add: length_write_at)
  then have "\<forall>s \<in> set ((ur_slots u)[idx := (ur_slots u ! idx)\<lparr>us_buf := write_at 0 buf (us_buf (ur_slots u ! idx)),
      us_len := length buf, us_addr := Some (fill_sockaddr peer), us_state := Free, us_next_free := h\<rparr>]).
      us_state s = Free \<and> length (us_buf s) = MAX_DATAGRAM"
    using q by (auto simp: quiet_def dest!: set_update_subset_insert [THEN subsetD])
  then show ?thesis using assms(2,3) q idx free
    by (simp add: reap_one_def quiet_def staged_slot_def user Let_def)
qed

lemma push_quiet:
  assumes q: "quiet pending landed u" and len: "length buf \<le> MAX_DATAGRAM" and st: "uring_stage peer (copy_into buf) u = (r, u1)"
  defines "idx \<equiv> unat (ur_free_head u)"
  shows "push_staged K [0..<length (ur_slots u1)] u1 0 =
      (case uc_push K \<lparr>sqe_user = word_of_nat idx, sqe_name = Some (fill_sockaddr peer), sqe_bytes = buf\<rparr> (ur_ring u) of
         None \<Rightarrow> (u1, 0)
       | Some q \<Rightarrow> (u1\<lparr>ur_ring := q, ur_slots := (ur_slots u)[idx := (staged_slot peer buf (ur_slots u ! idx))\<lparr>us_state := InFlight\<rparr>]\<rparr>, 1))"
    and "ur_staged u1 = 1" and "ur_inflight u1 = 0" and "ur_ring u1 = ur_ring u"
proof -
  let ?s = "staged_slot peer buf (ur_slots u ! idx)"
  have idx: "idx < length (ur_slots u)" using quiet_slot(1) [OF q] by (simp add: idx_def)
  have u1: "u1 = u\<lparr>ur_free_head := us_next_free (ur_slots u ! idx), ur_staged := 1, ur_slots := (ur_slots u)[idx := ?s]\<rparr>"
    using st stage_quiet [OF q len, of peer] by (simp add: idx_def)
  have e: "sqe_of idx ?s = \<lparr>sqe_user = word_of_nat idx, sqe_name = Some (fill_sockaddr peer), sqe_bytes = buf\<rparr>"
    using sqe_of_staged len quiet_slot(3) [OF q] by (simp add: idx_def)
  have "us_state (ur_slots u1 ! i) = Free" if "i < length (ur_slots u1)" "i \<noteq> idx" for i using that q by (simp add: u1 quiet_def)
  from push_one_staged [OF _ _ this, where idx = idx] idx e
  show "push_staged K [0..<length (ur_slots u1)] u1 0 =
      (case uc_push K \<lparr>sqe_user = word_of_nat idx, sqe_name = Some (fill_sockaddr peer), sqe_bytes = buf\<rparr> (ur_ring u) of
         None \<Rightarrow> (u1, 0)
       | Some q \<Rightarrow> (u1\<lparr>ur_ring := q, ur_slots := (ur_slots u)[idx := ?s\<lparr>us_state := InFlight\<rparr>]\<rparr>, 1))"
    by (cases "uc_push K \<lparr>sqe_user = word_of_nat idx, sqe_name = Some (fill_sockaddr peer), sqe_bytes = buf\<rparr> (ur_ring u)")
      (simp_all add: u1 staged_slot_def)
  show "ur_staged u1 = 1" "ur_inflight u1 = 0" "ur_ring u1 = ur_ring u" using q by (simp_all add: u1 quiet_def)
qed

lemma turn_quiet:
  assumes q: "quiet pending landed u" and len: "length buf \<le> MAX_DATAGRAM"
    and st: "uring_stage peer (copy_into buf) u = (r, u1)" and turn: "ring_turn K u1 = (ok, trouble, u4)"
  shows "r = Inr () \<and> (\<exists>k \<le> 1. sent (ur_ring u4) = sent (ur_ring u) @ replicate k (Some (fill_sockaddr peer), buf) \<and>
    (ok \<longrightarrow> k = 1) \<and> (\<not> trouble \<longrightarrow> quiet pending landed u4 \<and> (ok \<longleftrightarrow> k = 1)))"
proof -
  let ?idx = "unat (ur_free_head u)"
  let ?s = "staged_slot peer buf (ur_slots u ! ?idx)" and ?L = "sent (ur_ring u)"
  let ?e = "\<lparr>sqe_user = word_of_nat ?idx, sqe_name = Some (fill_sockaddr peer), sqe_bytes = buf\<rparr>"
  have u1: "r = Inr ()" "u1 = u\<lparr>ur_free_head := us_next_free (ur_slots u ! ?idx), ur_staged := 1, ur_slots := (ur_slots u)[?idx := ?s]\<rparr>"
    using st stage_quiet [OF q len, of peer] by simp_all
  note push = push_quiet(1) [OF q len st] and f = push_quiet(2,3) [OF q len st]
  show ?thesis
  proof (cases "uc_push K ?e (ur_ring u)")
    case None
    obtain cs q' where c: "uc_completion K (ur_ring u) = (cs, q')" by fastforce
    have "cs = []" "sent q' = ?L" using completion_quiet [OF _ _ c] q by (auto simp: quiet_def)
    then have "\<not> ok" "trouble" "sent (ur_ring u4) = ?L"
      using turn push None c by (auto simp: ring_turn_def submit_staged_def uring_reap_def u1(2) Let_def)
    then show ?thesis using u1(1) by (intro conjI exI [of _ 0]) simp_all
  next
    case (Some q0)
    obtain rs q1 where sub: "uc_submit K q0 = (rs, q1)" by fastforce
    let ?u2 = "u1\<lparr>ur_ring := q1, ur_staged := 0, ur_inflight := 1, ur_slots := (ur_slots u)[?idx := ?s\<lparr>us_state := InFlight\<rparr>]\<rparr>"
    have "entry_at ?e ?L None q0" using push_law [OF Some] q by (simp add: entry_at_def quiet_def)
    from executes_entry [OF submit_law [OF sub] this] obtain r1 where r1: "entry_at ?e ?L r1 q1" by blast
    have s: "submit_staged K u1 = (case rs of Inl e \<Rightarrow> Inl e | Inr _ \<Rightarrow> Inr 1, ?u2)"
      by (rule submit_pushed_one [OF push [unfolded Some option.case] sub f])
    show ?thesis
    proof (cases rs)
      case (Inl err)
      obtain cs q' where c: "uc_completion K q1 = (cs, q')" by fastforce
      obtain r' where "r1 \<noteq> None \<longrightarrow> r' = r1" "pending q' = (if r' = None then [?e] else [])" "landed q' = []"
          "cs = (case r' of None \<Rightarrow> [] | Some x \<Rightarrow> [(sqe_user ?e, x)])"
          and r': "sent q' = ?L @ (case r' of None \<Rightarrow> [] | Some x \<Rightarrow> if 0 \<le> x then [(sqe_name ?e, sqe_bytes ?e)] else [])"
        by (rule completion_entry [OF r1 c])
      have "\<not> ok" "trouble" "sent (ur_ring u4) = sent q'"
        using turn s c Inl by (auto simp: ring_turn_def uring_reap_def Let_def)
      then show ?thesis using u1(1) r'
        by (intro conjI exI [of _ "case r' of None \<Rightarrow> 0 | Some x \<Rightarrow> if 0 \<le> x then 1 else 0"]) (auto split: option.splits)
    next
      case (Inr m)
      obtain rw q2 where w: "uc_submit_and_wait K 1 q1 = (rw, q2)" by fastforce
      obtain r2 where r2: "entry_at ?e ?L r2 q2" using executes_entry [OF _ r1] wait_law [OF w] by blast
      obtain cs q' where c: "uc_completion K q2 = (cs, q')" by fastforce
      obtain r' where r': "r2 \<noteq> None \<longrightarrow> r' = r2" "pending q' = (if r' = None then [?e] else [])" "landed q' = []"
          "cs = (case r' of None \<Rightarrow> [] | Some x \<Rightarrow> [(sqe_user ?e, x)])"
          "sent q' = ?L @ (case r' of None \<Rightarrow> [] | Some x \<Rightarrow> if 0 \<le> x then [(sqe_name ?e, sqe_bytes ?e)] else [])"
        by (rule completion_entry [OF r2 c])
      let ?k = "case r' of None \<Rightarrow> 0 | Some x \<Rightarrow> if 0 \<le> x then 1 else (0 :: nat)"
      have t: "ok = ((\<exists>m. rw = Inr m) \<and> filter (\<lambda>r. r < 0) (map snd cs) = [])" "trouble = (\<nexists>m. rw = Inr m)"
          "u4 = fold reap_one cs (?u2\<lparr>ur_ring := q'\<rparr>)"
        using turn s c w Inr by (auto simp: ring_turn_def uring_reap_def uring_wait_def Let_def split: sum.splits)
      have left: "sent (ur_ring u4) = ?L @ replicate ?k (Some (fill_sockaddr peer), buf)"
        unfolding t(3) using r'(5) by (simp split: option.splits)
      show ?thesis
      proof (cases "\<exists>m. rw = Inr m")
        case True
        then have "1 \<le> length (landed q2)" using wait_law [OF w] by blast
        then obtain x where x: "r2 = Some x" using r2 by (cases r2) (simp_all add: entry_at_def)
        then have cs: "cs = [(word_of_nat ?idx, x)]" "r' = Some x" using r'(1,4) by simp_all
        have "quiet pending landed u4" using reap_restores [OF q _ r'(3) len, where x = x and h = "us_next_free (ur_slots u ! ?idx)" and peer = peer] r'(2) cs
          by (simp add: t(3) u1(2))
        moreover have "ok \<longleftrightarrow> ?k = 1" using t(1) True cs by simp
        ultimately show ?thesis using u1(1) left by (intro conjI exI [of _ ?k]) (auto split: option.splits)
      next
        case False
        then show ?thesis using u1(1) left t(1,2) by (intro conjI exI [of _ ?k]) (auto split: option.splits)
      qed
    qed
  qed
qed

end

section \<open>A plain kernel\<close>

text \<open>Every entry is executed at the next submission; the list says which of the waits to come are interrupted
  by a signal.\<close>

record plain_queue =
  pq_pending :: "sqe list"
  pq_landed :: "(u64 \<times> int) list"
  pq_sent :: "(socket_addr option \<times> bytes) list"
  pq_signals :: "bool list"

definition plain_run :: "plain_queue \<Rightarrow> plain_queue" where
  "plain_run q = q\<lparr>pq_pending := [], pq_landed := pq_landed q @ map (\<lambda>e. (sqe_user e, int (length (sqe_bytes e)))) (pq_pending q),
     pq_sent := pq_sent q @ map (\<lambda>e. (sqe_name e, sqe_bytes e)) (pq_pending q)\<rparr>"

definition plain_uring :: "plain_queue uring_calls" where
  "plain_uring = \<lparr>uc_push = (\<lambda>e q. Some (q\<lparr>pq_pending := pq_pending q @ [e]\<rparr>)),
     uc_submit = (\<lambda>q. (Inr (length (pq_pending q)), plain_run q)),
     uc_submit_and_wait = (\<lambda>n q. (if n \<le> length (pq_landed (plain_run q)) \<and> pq_signals q \<noteq> [] \<and> \<not> hd (pq_signals q) \<or>
         n \<le> length (pq_landed (plain_run q)) \<and> pq_signals q = [] then Inr (length (pq_pending q)) else Inl (OtherError ''interrupted''),
       (plain_run q)\<lparr>pq_signals := tl (pq_signals q)\<rparr>)),
     uc_completion = (\<lambda>q. (pq_landed q, q\<lparr>pq_landed := []\<rparr>))\<rparr>"

definition plain_start :: "bool list \<Rightarrow> plain_queue" where
  "plain_start signals = \<lparr>pq_pending = [], pq_landed = [], pq_sent = [], pq_signals = signals\<rparr>"

lemma executed_plain: "executed pq_pending pq_landed pq_sent q (plain_run q)"
  unfolding executed_def plain_run_def
  by (rule exI [of _ "map (\<lambda>e. (e, int (length (sqe_bytes e)))) (pq_pending q)"]) (simp add: comp_def filter_map)

lemma executed_signals: "executed pq_pending pq_landed pq_sent q q' \<Longrightarrow> executed pq_pending pq_landed pq_sent q (q'\<lparr>pq_signals := x\<rparr>)"
  by (simp add: executed_def)

lemma executed_refl: "executed pq_pending pq_landed pq_sent q q"
  unfolding executed_def by (rule exI [of _ "[]"]) simp

interpretation plain_uring: uring_kernel plain_uring pq_pending pq_landed pq_sent
proof
  show "\<exists>q1. executed pq_pending pq_landed pq_sent q q1 \<and> cs = pq_landed q1 \<and> pq_pending q' = pq_pending q1 \<and> pq_landed q' = [] \<and> pq_sent q' = pq_sent q1"
    if "uc_completion plain_uring q = (cs, q')" for q q' cs
    using that executed_refl [of q] by (intro exI [of _ q]) (auto simp: plain_uring_def)
qed (auto simp: plain_uring_def executed_plain executed_signals split: if_splits)

text \<open>On the plain kernel every staged datagram leaves; the code takes it for unsent when a signal interrupts
  the wait.\<close>

lemma plain_turn:
  assumes q: "quiet pq_pending pq_landed u" and len: "length buf \<le> MAX_DATAGRAM"
    and st: "uring_stage peer (copy_into buf) u = (r, u1)" and turn: "ring_turn plain_uring u1 = (ok, trouble, u4)"
  shows "pq_sent (ur_ring u4) = pq_sent (ur_ring u) @ [(Some (fill_sockaddr peer), buf)]"
    and "trouble \<longleftrightarrow> pq_signals (ur_ring u) \<noteq> [] \<and> hd (pq_signals (ur_ring u))"
proof -
  let ?e = "\<lparr>sqe_user = word_of_nat (unat (ur_free_head u)), sqe_name = Some (fill_sockaddr peer), sqe_bytes = buf\<rparr>"
  let ?q = "(ur_ring u)\<lparr>pq_pending := pq_pending (ur_ring u) @ [?e]\<rparr>"
  have "uc_push plain_uring ?e (ur_ring u) = Some ?q" by (simp add: plain_uring_def)
  note push = plain_uring.push_quiet(1) [OF q len st, unfolded this option.case]
  have "uc_submit plain_uring ?q = (Inr (length (pq_pending ?q)), plain_run ?q)" by (simp add: plain_uring_def)
  note s = plain_uring.submit_pushed_one [OF push this plain_uring.push_quiet(2,3) [OF q len st]]
  have p: "pq_pending (ur_ring u) = []" "pq_landed (ur_ring u) = []" using q by (simp_all add: quiet_def)
  let ?U = "pq_signals (ur_ring u) \<noteq> [] \<and> hd (pq_signals (ur_ring u))" and ?q1 = "plain_run ?q"
  let ?q2 = "(plain_run ?q1)\<lparr>pq_signals := tl (pq_signals ?q1)\<rparr>"
  have w: "uc_submit_and_wait plain_uring 1 ?q1 = (if ?U then Inl (OtherError ''interrupted'') else Inr 0, ?q2)"
    using p by (auto simp: plain_uring_def plain_run_def)
  have c: "uc_completion plain_uring ?q2 = (pq_landed ?q2, ?q2\<lparr>pq_landed := []\<rparr>)" by (simp add: plain_uring_def)
  obtain u2 where s2: "submit_staged plain_uring u1 = (Inr 1, u2)" and u2: "ur_ring u2 = ?q1" "ur_inflight u2 = 1"
    using s by simp
  note t = ring_turn_parts [OF s2 u2(2) w [folded u2(1)] c [folded u2(1)], unfolded turn fst_conv snd_conv]
  show "trouble \<longleftrightarrow> ?U" using t(1) by simp
  show "pq_sent (ur_ring u4) = pq_sent (ur_ring u) @ [(Some (fill_sockaddr peer), buf)]" using t(2) u2(1) p by (simp add: plain_run_def)
qed

end
