(* ===== verification/Net_Service.thy ===== *)
theory Net_Service
  imports Uring Spsc_Ring
begin

text \<open>
  The network service (service.rs): the state one network thread owns, the transmit paths, the
  receive loop \<open>drain_now\<close> and the timers of \<open>background\<close>.

  The operating system is the record \<open>net_env\<close>: the clock is a function of the number of readings
  taken so far, a socket send a function of the number of attempts made so far, and the calls of the
  io_uring package are those of Uring on an arbitrary state of the queue. The core keeps these two
  counters, the transmit queue when one is attached, and the datagrams the socket took, in order; those
  sent through the queue are part of the state of the queue. The callback of the caller may not touch the private fields of the core, which the theorems that need
  it state as a hypothesis.
\<close>

record service_config =
  sc_unit_id :: u64
  sc_listen_port :: u16
  sc_beacon_interval_ns :: u64
  sc_mesh_ttl_ns :: u64
  sc_beacon_peers :: "socket_addr list"
  sc_primary_peer :: "socket_addr option"
  sc_reliable_control :: bool
  sc_rto_ns :: u64

definition service_config_default :: service_config where
  "service_config_default = \<lparr>sc_unit_id = 0, sc_listen_port = 0, sc_beacon_interval_ns = 200000000,
     sc_mesh_ttl_ns = 5000000000, sc_beacon_peers = [], sc_primary_peer = None,
     sc_reliable_control = False, sc_rto_ns = 10000000\<rparr>"

datatype event =
    EvControl control_command socket_addr bool
  | EvTelemetry telemetry_packet socket_addr
  | EvIce bytes socket_addr
  | EvNeighborUp u64 socket_addr
  | EvSecure bytes socket_addr u8

record 'q net_env =
  env_codec :: codec
  env_clock :: "nat \<Rightarrow> u64"
  env_send_to :: "nat \<Rightarrow> socket_addr \<Rightarrow> bytes \<Rightarrow> io_error + nat"
  env_uring :: "'q uring_calls"
  env_local_port :: "u16 option"

record 'q service_core =
  sv_mux :: udp_mux
  sv_rx :: rx_buffer
  sv_tx :: bytes
  sv_cfg :: service_config
  sv_mesh :: neighbor_table
  sv_rel_tx :: reliable_tx
  sv_rel_rx :: reliable_rx
  sv_outbox :: "control_command spsc_ring"
  sv_last_beacon_ns :: u64
  sv_beacon_seq :: u32
  sv_reads :: nat
  sv_tries :: nat
  sv_wire :: "(socket_addr \<times> bytes) list"
  sv_uring :: "'q uring_tx option"

text \<open>\<open>created\<close> is the result of creating the io_uring queue; without one the socket is used.\<close>

definition service_new :: "service_config \<Rightarrow> control_command spsc_ring \<Rightarrow> nat \<Rightarrow> io_error + 'q \<Rightarrow> 'q service_core" where
  "service_new cfg safety_out rx_unit created = \<lparr>sv_mux = mux_new, sv_rx = rx_buffer_new rx_unit,
     sv_tx = replicate MAX_DATAGRAM 0, sv_cfg = cfg, sv_mesh = nt_with_capacity 128,
     sv_rel_tx = tx_new reliable_config_default, sv_rel_rx = rx_new, sv_outbox = safety_out,
     sv_last_beacon_ns = 0, sv_beacon_seq = 0, sv_reads = 0, sv_tries = 0, sv_wire = [],
     sv_uring = (case uring_new created DEFAULT_SLOTS of Inr u \<Rightarrow> Some u | Inl _ \<Rightarrow> None)\<rparr>"

fun set_port :: "u16 \<Rightarrow> socket_addr \<Rightarrow> socket_addr" where
  "set_port port (SocketV4 ip _) = SocketV4 ip port"
| "set_port port (SocketV6 ip _ flow scope) = SocketV6 ip port flow scope"

section \<open>Transmit paths\<close>

definition now_ns :: "'q net_env \<Rightarrow> 'q service_core \<Rightarrow> u64 \<times> 'q service_core" where
  "now_ns env sv = (env_clock env (sv_reads sv), sv\<lparr>sv_reads := sv_reads sv + 1\<rparr>)"

text \<open>The socket send of the multiplexer, with the datagram recorded when the kernel takes it.\<close>

definition sv_send_framed :: "'q net_env \<Rightarrow> 'q service_core \<Rightarrow> socket_addr \<Rightarrow> bytes \<Rightarrow> u64 \<Rightarrow> (io_error + nat) \<times> 'q service_core" where
  "sv_send_framed env sv dst buf now =
     (let res = env_send_to env (sv_tries sv) dst buf; (r, mx) = send_framed (sv_mux sv) res now in
      (r, sv\<lparr>sv_mux := mx, sv_tries := sv_tries sv + 1,
         sv_wire := (case res of Inr _ \<Rightarrow> sv_wire sv @ [(dst, buf)] | Inl _ \<Rightarrow> sv_wire sv)\<rparr>))"

text \<open>With a queue attached the datagram is staged and waited for; when the queue is full, or the code does
  not take the datagram for sent, it goes out through the socket.\<close>

definition transmit :: "'q net_env \<Rightarrow> 'q service_core \<Rightarrow> socket_addr \<Rightarrow> bytes \<Rightarrow> u64 \<Rightarrow> (io_error + nat) \<times> 'q service_core" where
  "transmit env sv dst buf now =
     (case sv_uring sv of
        None \<Rightarrow> sv_send_framed env sv dst buf now
      | Some u \<Rightarrow>
          (case uring_stage dst (copy_into buf) u of
             (Inl _, u1) \<Rightarrow> sv_send_framed env (sv\<lparr>sv_uring := Some u1\<rparr>) dst buf now
           | (Inr _, u1) \<Rightarrow>
               (case ring_turn (env_uring env) u1 of
                  (went_out, _, u2) \<Rightarrow>
                    let sv1 = sv\<lparr>sv_uring := Some u2\<rparr> in
                    if went_out then
                      (Inr (length buf),
                       sv1\<lparr>sv_mux := (sv_mux sv1)\<lparr>mx_stats := (mx_stats (sv_mux sv1))\<lparr>tx_frames := tx_frames (mx_stats (sv_mux sv1)) + 1\<rparr>\<rparr>\<rparr>)
                    else sv_send_framed env sv1 dst buf now)))"

definition primary_dst :: "'q service_core \<Rightarrow> socket_addr option" where
  "primary_dst sv =
     (case sc_primary_peer (sv_cfg sv) of
        Some p \<Rightarrow> Some p
      | None \<Rightarrow> (case nt_iter (sv_mesh sv) of [] \<Rightarrow> None | n # _ \<Rightarrow> Some (ne_addr n)))"

text \<open>\<open>map(|_| ())\<close> on the result of a transmission.\<close>

definition sent_ok :: "(io_error + nat) \<times> 'q service_core \<Rightarrow> (io_error + unit) \<times> 'q service_core" where
  "sent_ok r = (case r of (Inr _, sv) \<Rightarrow> (Inr (), sv) | (Inl e, sv) \<Rightarrow> (Inl e, sv))"

definition send_control :: "'q net_env \<Rightarrow> 'q service_core \<Rightarrow> control_command \<Rightarrow> socket_addr \<Rightarrow> (io_error + unit) \<times> 'q service_core" where
  "send_control env sv cmd dst =
     (let (now, sv1) = now_ns env sv;
          frame_flags = (if sc_reliable_control (sv_cfg sv1) then FLAG_RELIABLE else 0);
          (res, mx) = write_control_frame (env_codec env) (sv_mux sv1) cmd frame_flags (sv_tx sv1);
          sv2 = sv1\<lparr>sv_mux := mx\<rparr>
      in case res of
           Inl e \<Rightarrow> (Inl e, sv2)
         | Inr (n, tx) \<Rightarrow>
             let sv3 = sv2\<lparr>sv_tx := tx\<rparr>;
                 sv4 = (if sc_reliable_control (sv_cfg sv3) \<and> n \<le> MAX_RELIABLE_PAYLOAD
                        then (case tx_send (sv_rel_tx sv3) (ucast (cmd_seq cmd)) (take n tx) now of
                                Inr rel \<Rightarrow> sv3\<lparr>sv_rel_tx := rel\<rparr>
                              | Inl _ \<Rightarrow> sv3)
                        else sv3)
             in sent_ok (transmit env sv4 dst (take n tx) now))"

definition send_telemetry :: "'q net_env \<Rightarrow> 'q service_core \<Rightarrow> telemetry_packet \<Rightarrow> socket_addr \<Rightarrow> (io_error + unit) \<times> 'q service_core" where
  "send_telemetry env sv pkt dst =
     (let (now, sv1) = now_ns env sv;
          (res, mx) = write_telemetry_frame (env_codec env) (sv_mux sv1) pkt (sv_tx sv1);
          sv2 = sv1\<lparr>sv_mux := mx\<rparr>
      in case res of
           Inl e \<Rightarrow> (Inl e, sv2)
         | Inr (n, tx) \<Rightarrow>
             let sv3 = sv2\<lparr>sv_tx := tx\<rparr>;
                 (ok, bp) = admit (word_of_nat n) now (mx_backpressure (sv_mux sv3));
                 sv4 = sv3\<lparr>sv_mux := (sv_mux sv3)\<lparr>mx_backpressure := bp\<rparr>\<rparr>
             in if \<not> ok then (Inr (), sv4)
                else sent_ok (transmit env sv4 dst (take n tx) now))"

definition send_ice :: "'q net_env \<Rightarrow> 'q service_core \<Rightarrow> bytes \<Rightarrow> socket_addr \<Rightarrow> (io_error + unit) \<times> 'q service_core" where
  "send_ice env sv bs dst =
     (let (now, sv1) = now_ns env sv in
      case write_ice_frame bs (sv_tx sv1) of
        Inl e \<Rightarrow> (Inl e, sv1)
      | Inr (n, tx) \<Rightarrow> sent_ok (transmit env (sv1\<lparr>sv_tx := tx\<rparr>) dst (take n tx) now))"

definition send_secure :: "'q net_env \<Rightarrow> 'q service_core \<Rightarrow> bytes \<Rightarrow> u8 \<Rightarrow> socket_addr \<Rightarrow> (io_error + unit) \<times> 'q service_core" where
  "send_secure env sv sealed inner dst =
     (let (now, sv1) = now_ns env sv in
      case write_secure_frame sealed inner (sv_tx sv1) of
        Inl e \<Rightarrow> (Inl e, sv1)
      | Inr (n, tx) \<Rightarrow> sent_ok (transmit env (sv1\<lparr>sv_tx := tx\<rparr>) dst (take n tx) now))"

text \<open>The transmit buffer is 1500 bytes long, so encoding a beacon or an acknowledgement into it never
  panics; the \<open>None\<close> branches below are not reached.\<close>

definition send_beacon_to :: "'q net_env \<Rightarrow> 'q service_core \<Rightarrow> socket_addr \<Rightarrow> (io_error + unit) \<times> 'q service_core" where
  "send_beacon_to env sv dst =
     (let (now, sv1) = now_ns env sv;
          port = (case env_local_port env of Some p \<Rightarrow> p | None \<Rightarrow> sc_listen_port (sv_cfg sv1));
          beacon = beacon_new (sc_unit_id (sv_cfg sv1)) (sv_beacon_seq sv1) now port
      in case write_mesh_frame beacon (sv_tx sv1) of
           None \<Rightarrow> (Inl (OtherError ''panic''), sv1)
         | Some (n, tx) \<Rightarrow> sent_ok (transmit env (sv1\<lparr>sv_tx := tx\<rparr>) dst (take n tx) now))"

definition beacon_fanout :: "'q net_env \<Rightarrow> 'q service_core \<Rightarrow> 'q service_core" where
  "beacon_fanout env sv =
     (let peers = sc_beacon_peers (sv_cfg sv) @ map ne_addr (nt_iter (sv_mesh sv))
      in fold (\<lambda>dst sv'. snd (send_beacon_to env sv' dst)) peers sv)"

section \<open>The receive loop\<close>

definition handle_control :: "'q net_env \<Rightarrow> 'q service_core \<Rightarrow> control_command \<Rightarrow> socket_addr \<Rightarrow> bool \<Rightarrow> u64 \<Rightarrow> 'q service_core" where
  "handle_control env sv cmd from reliable now =
     (if reliable then
        let sv1 = (case rx_accept (sv_rel_rx sv) (ucast (cmd_seq cmd)) [] of
                     Some (_, rx) \<Rightarrow> sv\<lparr>sv_rel_rx := rx\<rparr> | None \<Rightarrow> sv);
            ack = build_ack (sv_rel_rx sv1) 0
        in case write_ack_frame ack (sv_tx sv1) of
             Some (n, tx) \<Rightarrow> snd (transmit env (sv1\<lparr>sv_tx := tx\<rparr>) from (take n tx) now)
           | None \<Rightarrow> sv1
      else sv)"

definition handle_beacon :: "'q net_env \<Rightarrow> 'q service_core \<Rightarrow> mesh_beacon \<Rightarrow> socket_addr \<Rightarrow> u64 \<Rightarrow> event option \<times> 'q service_core" where
  "handle_beacon env sv beacon src now =
     (let peer = set_port (mb_listen_port beacon) src;
          (fresh, mesh) = observe (sv_mesh sv) (mb_unit_id beacon) peer (mb_seq beacon) (mb_ts_ns beacon) now;
          sv1 = sv\<lparr>sv_mesh := mesh\<rparr>
      in if fresh then (Some (EvNeighborUp (mb_unit_id beacon) peer), snd (send_beacon_to env sv1 peer))
         else (None, sv1))"

definition handle_ack :: "'q service_core \<Rightarrow> ack_frame \<Rightarrow> u64 \<Rightarrow> 'q service_core" where
  "handle_ack sv ack now =
     (case on_ack (sv_rel_tx sv) ack now of
        (rel, Some rtt) \<Rightarrow> sv\<lparr>sv_rel_tx := rel,
          sv_mux := (sv_mux sv)\<lparr>mx_backpressure := note_rtt_ns rtt (mx_backpressure (sv_mux sv))\<rparr>\<rparr>
      | (rel, None) \<Rightarrow> sv\<lparr>sv_rel_tx := rel\<rparr>)"

definition handle_frame :: "'q net_env \<Rightarrow> 'q service_core \<Rightarrow> inbound \<Rightarrow> event option \<times> 'q service_core" where
  "handle_frame env sv0 frame =
     (let (now, sv) = now_ns env sv0 in
      case frame of
        InControl cmd from reliable \<Rightarrow> (Some (EvControl cmd from reliable), handle_control env sv cmd from reliable now)
      | InTelemetry pkt from \<Rightarrow> (Some (EvTelemetry pkt from), sv)
      | InIce bs from \<Rightarrow> (Some (EvIce bs from), sv)
      | InSecure sealed from inner \<Rightarrow> (Some (EvSecure sealed from inner), sv)
      | InMesh beacon src \<Rightarrow> handle_beacon env sv beacon src now
      | InAck ack _ \<Rightarrow> (None, handle_ack sv ack now))"

definition count_reject :: "frame_error \<Rightarrow> 'q service_core \<Rightarrow> 'q service_core" where
  "count_reject e sv =
     (let st = mx_stats (sv_mux sv);
          st' = (case e of
             Malformed \<Rightarrow> st\<lparr>rx_malformed := rx_malformed st + 1\<rparr>
           | CrcMismatch \<Rightarrow> st\<lparr>rx_crc_errors := rx_crc_errors st + 1\<rparr>
           | Payload \<Rightarrow> st\<lparr>rx_rejected := rx_rejected st + 1\<rparr>)
      in sv\<lparr>sv_mux := (sv_mux sv)\<lparr>mx_stats := st'\<rparr>\<rparr>)"

text \<open>\<open>drain_now\<close> over the results the socket returns, in order; the end of the list is a socket that
  would block. The events passed to the sink are collected.\<close>

fun drain_now ::
    "'q net_env \<Rightarrow> (event \<Rightarrow> 'q service_core \<Rightarrow> 'q service_core) \<Rightarrow> (io_error + bytes \<times> socket_addr) list \<Rightarrow>
     'q service_core \<Rightarrow> event list \<times> 'q service_core" where
  "drain_now env sink [] sv = ([], sv)"
| "drain_now env sink (r # rs) sv =
     (case recv_frame (env_codec env) (sv_mux sv) (sv_rx sv) r of
        (res, mx, rb) \<Rightarrow>
          let sv1 = sv\<lparr>sv_mux := mx, sv_rx := rb\<rparr> in
          (case res of
             Inl _ \<Rightarrow> ([], sv1)
           | Inr None \<Rightarrow> ([], sv1)
           | Inr (Some (Inl e)) \<Rightarrow> drain_now env sink rs (count_reject e sv1)
           | Inr (Some (Inr frame)) \<Rightarrow>
               (case handle_frame env sv1 frame of
                  (Some ev, sv2) \<Rightarrow>
                    (case drain_now env sink rs (sink ev sv2) of (evs, sv3) \<Rightarrow> (ev # evs, sv3))
                | (None, sv2) \<Rightarrow> drain_now env sink rs sv2)))"

section \<open>The timers\<close>

text \<open>The outbox loop of \<open>background\<close>: \<open>n\<close> bounds the turns; every turn pops a command, so the number
  of commands in the ring plus one is enough.\<close>

fun flush_outbox :: "'q net_env \<Rightarrow> nat \<Rightarrow> 'q service_core \<Rightarrow> 'q service_core" where
  "flush_outbox env 0 sv = sv"
| "flush_outbox env (Suc n) sv =
     (case ring_pop (sv_outbox sv) of
        (None, q) \<Rightarrow> sv\<lparr>sv_outbox := q\<rparr>
      | (Some cmd, q) \<Rightarrow>
          let sv1 = sv\<lparr>sv_outbox := q\<rparr> in
          (case primary_dst sv1 of
             Some dst \<Rightarrow>
               (case send_control env sv1 cmd dst of
                  (Inl _, sv2) \<Rightarrow> sv2
                | (Inr _, sv2) \<Rightarrow> flush_outbox env n sv2)
           | None \<Rightarrow> sv1))"

definition resend_overdue :: "'q net_env \<Rightarrow> 'q service_core \<Rightarrow> 'q service_core" where
  "resend_overdue env sv =
     (case primary_dst sv of
        None \<Rightarrow> sv
      | Some dst \<Rightarrow>
          let (now, sv1) = now_ns env sv;
              (rel, frames) = tx_tick (sv_rel_tx sv1) now (sc_rto_ns (sv_cfg sv1))
          in fold (\<lambda>(_, framed) sv'. snd (sv_send_framed env sv' dst framed now)) frames (sv1\<lparr>sv_rel_tx := rel\<rparr>))"

definition background :: "'q net_env \<Rightarrow> 'q service_core \<Rightarrow> 'q service_core" where
  "background env sv =
     (let (now, sv1) = now_ns env sv;
          sv2 = flush_outbox env (Suc (unat (ring_len (sv_outbox sv1)))) sv1;
          sv3 = (if saturating_sub now (sv_last_beacon_ns sv2) \<ge> sc_beacon_interval_ns (sv_cfg sv2) then
                   let sv' = beacon_fanout env (sv2\<lparr>sv_beacon_seq := sv_beacon_seq sv2 + 1, sv_last_beacon_ns := now\<rparr>)
                   in sv'\<lparr>sv_mesh := snd (expire (sv_mesh sv') now (sc_mesh_ttl_ns (sv_cfg sv')))\<rparr>
                 else sv2)
      in resend_overdue env sv3)"

text \<open>One tick: the socket handler runs when the loop reports readability, the heartbeat drain and the
  timers run always.\<close>

definition service_poll ::
    "'q net_env \<Rightarrow> (event \<Rightarrow> 'q service_core \<Rightarrow> 'q service_core) \<Rightarrow> (io_error + bytes \<times> socket_addr) list option \<Rightarrow>
     (io_error + bytes \<times> socket_addr) list \<Rightarrow> 'q service_core \<Rightarrow> event list \<times> 'q service_core" where
  "service_poll env sink ready heartbeat sv =
     (let (evs1, sv1) = (case ready of Some rs \<Rightarrow> drain_now env sink rs sv | None \<Rightarrow> ([], sv));
          (evs2, sv2) = drain_now env sink heartbeat sv1
      in (evs1 @ evs2, background env sv2))"

section \<open>What transmission leaves alone\<close>

text \<open>The receive counters, and the view of the core that no transmission changes.\<close>

definition rx_total :: "'q service_core \<Rightarrow> u64" where
  "rx_total sv = rx_frames (mx_stats (sv_mux sv)) + rx_malformed (mx_stats (sv_mux sv)) +
     rx_crc_errors (mx_stats (sv_mux sv)) + rx_rejected (mx_stats (sv_mux sv))"

lemma rx_total_upd [simp]:
  "rx_total (sv\<lparr>sv_tx := tx\<rparr>) = rx_total sv" "rx_total (sv\<lparr>sv_reads := n\<rparr>) = rx_total sv"
  "rx_total (sv\<lparr>sv_rel_rx := rx\<rparr>) = rx_total sv" "rx_total (sv\<lparr>sv_rel_tx := tr\<rparr>) = rx_total sv"
  "rx_total (sv\<lparr>sv_mesh := m\<rparr>) = rx_total sv" "rx_total (sv\<lparr>sv_rx := rb\<rparr>) = rx_total sv"
  by (simp_all add: rx_total_def)

lemma send_framed_rx:
  "rx_frames (mx_stats (snd (send_framed mx r now))) = rx_frames (mx_stats mx)"
  "rx_malformed (mx_stats (snd (send_framed mx r now))) = rx_malformed (mx_stats mx)"
  "rx_crc_errors (mx_stats (snd (send_framed mx r now))) = rx_crc_errors (mx_stats mx)"
  "rx_rejected (mx_stats (snd (send_framed mx r now))) = rx_rejected (mx_stats mx)"
  by (simp_all add: send_framed_def Let_def split: sum.splits)

definition transmit_view :: "'q service_core \<Rightarrow> u64 \<times> reliable_tx \<times> reliable_rx \<times> neighbor_table \<times> control_command spsc_ring \<times> service_config" where
  "transmit_view sv = (rx_total sv, sv_rel_tx sv, sv_rel_rx sv, sv_mesh sv, sv_outbox sv, sv_cfg sv)"

lemma sv_send_framed_view: "transmit_view (snd (sv_send_framed env sv dst buf now)) = transmit_view sv"
  using send_framed_rx [of "sv_mux sv" "env_send_to env (sv_tries sv) dst buf" now]
  by (auto simp: sv_send_framed_def transmit_view_def rx_total_def Let_def split: prod.splits)

lemma transmit_view [frame_simps]: "transmit_view (snd (transmit env sv dst buf now)) = transmit_view sv"
proof -
  have u: "transmit_view (sv\<lparr>sv_uring := q\<rparr>) = transmit_view sv" for q by (simp add: transmit_view_def rx_total_def)
  then show ?thesis
    by (auto simp: transmit_def sv_send_framed_view Let_def split: option.splits prod.splits sum.splits)
      (simp add: transmit_view_def rx_total_def)
qed

lemma sent_ok_view [frame_simps]: "transmit_view (snd (sent_ok r)) = transmit_view (snd r)"
  by (auto simp: sent_ok_def split: prod.splits sum.splits)

lemma transmit_view_upd [frame_simps]:
  "transmit_view (sv\<lparr>sv_tx := tx\<rparr>) = transmit_view sv" "transmit_view (sv\<lparr>sv_reads := n\<rparr>) = transmit_view sv"
  by (simp_all add: transmit_view_def rx_total_def)

lemma send_beacon_view [frame_simps]: "transmit_view (snd (send_beacon_to env sv dst)) = transmit_view sv"
  by (auto simp: send_beacon_to_def now_ns_def frame_simps split: option.splits prod.splits)

lemma beacon_fanout_view [frame_simps]: "transmit_view (beacon_fanout env sv) = transmit_view sv"
proof -
  have "transmit_view (fold (\<lambda>dst sv'. snd (send_beacon_to env sv' dst)) peers sv) = transmit_view sv" for peers sv
    by (induction peers arbitrary: sv) (simp_all add: send_beacon_view)
  then show ?thesis by (simp add: beacon_fanout_def)
qed

lemma write_control_stats: "mx_stats (snd (write_control_frame cdc mx cmd fl out)) = mx_stats mx"
  by (simp add: write_control_frame_def Let_def split: option.splits)

lemma transmit_view_dest:
  assumes "transmit_view a = transmit_view b"
  shows "rx_total a = rx_total b" "sv_rel_tx a = sv_rel_tx b" "sv_rel_rx a = sv_rel_rx b" "sv_mesh a = sv_mesh b"
    "sv_outbox a = sv_outbox b" "sv_cfg a = sv_cfg b"
  using assms by (simp_all add: transmit_view_def)

lemma send_control_keeps:
  "sv_rel_rx (snd (send_control env sv cmd dst)) = sv_rel_rx sv" "sv_outbox (snd (send_control env sv cmd dst)) = sv_outbox sv"
  "sv_mesh (snd (send_control env sv cmd dst)) = sv_mesh sv" "sv_cfg (snd (send_control env sv cmd dst)) = sv_cfg sv"
  by (auto simp: send_control_def now_ns_def Let_def transmit_view_dest [OF sent_ok_view] transmit_view_dest [OF transmit_view]
      split: prod.splits sum.splits)

section \<open>Accounting and acknowledgements\<close>

lemma handle_frame_rx_total: "rx_total (snd (handle_frame env sv frame)) = rx_total sv"
proof -
  have c: "rx_total (handle_control env sv cmd src rel now) = rx_total sv" for sv cmd src rel now
    by (auto simp: handle_control_def Let_def transmit_view_dest [OF transmit_view]
        split: option.splits prod.splits)
  have b: "rx_total (snd (handle_beacon env sv bc src now)) = rx_total sv" for sv bc src now
    by (auto simp: handle_beacon_def Let_def transmit_view_dest [OF send_beacon_view] split: prod.splits)
  have a: "rx_total (handle_ack sv ack now) = rx_total sv" for sv ack now
    by (auto simp: handle_ack_def rx_total_def split: prod.splits option.splits)
  show ?thesis
    by (cases frame) (simp_all add: handle_frame_def now_ns_def c b a)
qed

lemma rx_accept_next: "rx_accept rx seq p = Some (res, rx') \<Longrightarrow> rx_next rx' = rx_next rx"
  by (auto simp: rx_accept_def Let_def split: if_splits)

lemma handle_frame_next: "rx_next (sv_rel_rx (snd (handle_frame env sv frame))) = rx_next (sv_rel_rx sv)"
proof -
  have c: "rx_next (sv_rel_rx (handle_control env sv cmd src rel now)) = rx_next (sv_rel_rx sv)" for sv cmd src rel now
    by (auto simp: handle_control_def Let_def transmit_view_dest [OF transmit_view] dest: rx_accept_next
        split: option.splits prod.splits)
  have b: "sv_rel_rx (snd (handle_beacon env sv bc src now)) = sv_rel_rx sv" for sv bc src now
    by (auto simp: handle_beacon_def Let_def transmit_view_dest [OF send_beacon_view] split: prod.splits)
  have a: "sv_rel_rx (handle_ack sv ack now) = sv_rel_rx sv" for sv ack now
    by (auto simp: handle_ack_def split: prod.splits option.splits)
  show ?thesis by (cases frame) (simp_all add: handle_frame_def now_ns_def c b a)
qed

lemma count_reject_total: "rx_total (count_reject e sv) = rx_total sv + 1"
  by (cases e) (simp_all add: count_reject_def rx_total_def Let_def)

lemma recv_datagram:
  "\<exists>n src' rb'. recv_frame cdc mx rb (Inr (d, src)) =
     (Inr (Some (demux cdc rb' n src')),
      (case demux cdc rb' n src' of
         Inr _ \<Rightarrow> mx\<lparr>mx_stats := (mx_stats mx)\<lparr>rx_frames := rx_frames (mx_stats mx) + 1\<rparr>\<rparr> | Inl _ \<Rightarrow> mx), rb')"
  by (auto simp: recv_frame_def mux_fill_def Let_def)

lemma drain_now_total:
  assumes sink: "\<And>ev sv. rx_total (sink ev sv) = rx_total sv"
  shows "rx_total (snd (drain_now env sink (map Inr ds) sv)) = rx_total sv + word_of_nat (length ds)"
proof (induction ds arbitrary: sv)
  case (Cons x ds)
  obtain d src where x: "x = (d, src)" by fastforce
  obtain n src' rb' where r: "recv_frame (env_codec env) (sv_mux sv) (sv_rx sv) (Inr (d, src)) =
     (Inr (Some (demux (env_codec env) rb' n src')),
      (case demux (env_codec env) rb' n src' of
         Inr _ \<Rightarrow> (sv_mux sv)\<lparr>mx_stats := (mx_stats (sv_mux sv))\<lparr>rx_frames := rx_frames (mx_stats (sv_mux sv)) + 1\<rparr>\<rparr>
       | Inl _ \<Rightarrow> sv_mux sv), rb')"
    using recv_datagram by blast
  show ?case
  proof (cases "demux (env_codec env) rb' n src'")
    case (Inl e)
    then show ?thesis by (simp add: x r Cons count_reject_total)
  next
    case (Inr frame)
    let ?sv = "sv\<lparr>sv_mux := (sv_mux sv)\<lparr>mx_stats := (mx_stats (sv_mux sv))\<lparr>rx_frames := rx_frames (mx_stats (sv_mux sv)) + 1\<rparr>\<rparr>, sv_rx := rb'\<rparr>"
    have one: "rx_total ?sv = rx_total sv + 1" by (simp add: rx_total_def Let_def)
    obtain ev sv2 where h: "handle_frame env ?sv frame = (ev, sv2)" by fastforce
    have "rx_total sv2 = rx_total sv + 1" using handle_frame_rx_total [of env ?sv frame] one by (simp add: h)
    then show ?thesis using Inr by (cases ev) (simp_all add: x r h Cons sink case_prod_unfold)
  qed
qed simp

lemma drain_now_next:
  assumes sink: "\<And>ev sv. rx_next (sv_rel_rx (sink ev sv)) = rx_next (sv_rel_rx sv)"
  shows "rx_next (sv_rel_rx (snd (drain_now env sink rs sv))) = rx_next (sv_rel_rx sv)"
proof (induction rs arbitrary: sv)
  case (Cons r rs)
  obtain res mx rb where r: "recv_frame (env_codec env) (sv_mux sv) (sv_rx sv) r = (res, mx, rb)" by (metis prod_cases3)
  have rej: "sv_rel_rx (count_reject e sv') = sv_rel_rx sv'" for e sv' by (simp add: count_reject_def Let_def)
  show ?case
  proof (cases "\<exists>frame. res = Inr (Some (Inr frame))")
    case True
    then obtain frame where fr: "res = Inr (Some (Inr frame))" by blast
    obtain ev sv2 where h: "handle_frame env (sv\<lparr>sv_mux := mx, sv_rx := rb\<rparr>) frame = (ev, sv2)" by fastforce
    have "rx_next (sv_rel_rx sv2) = rx_next (sv_rel_rx sv)"
      using handle_frame_next [of env "sv\<lparr>sv_mux := mx, sv_rx := rb\<rparr>" frame] by (simp add: h)
    then show ?thesis using fr
      by (cases ev) (simp_all add: r h Cons sink case_prod_unfold)
  next
    case False
    then show ?thesis by (auto simp: r Cons rej Let_def split: sum.splits option.splits)
  qed
qed simp

lemma flush_outbox_rel_rx: "sv_rel_rx (flush_outbox env n sv) = sv_rel_rx sv"
proof (induction n arbitrary: sv)
  case (Suc n)
  have keep: "sv_rel_rx sv' = sv_rel_rx sv1" if "send_control env sv1 cmd dst = (r, sv')" for sv1 cmd dst r sv'
    using send_control_keeps(1) [of env sv1 cmd dst] that by simp
  show ?case by (auto simp: Suc Let_def dest: keep split: prod.splits option.splits sum.splits)
qed simp

lemma resend_rel_rx: "sv_rel_rx (resend_overdue env sv) = sv_rel_rx sv"
proof -
  have "sv_rel_rx (fold (\<lambda>(_, framed) sv'. snd (sv_send_framed env sv' dst framed now)) fs sv) = sv_rel_rx sv"
    for dst now sv and fs :: "(u32 \<times> bytes) list"
    by (induction fs arbitrary: sv) (auto simp: transmit_view_dest [OF sv_send_framed_view])
  then show ?thesis by (simp add: resend_overdue_def now_ns_def Let_def split: option.splits prod.splits)
qed

lemma background_rel_rx: "sv_rel_rx (background env sv) = sv_rel_rx sv"
  by (simp add: background_def now_ns_def Let_def resend_rel_rx flush_outbox_rel_rx
      transmit_view_dest [OF beacon_fanout_view] del: flush_outbox.simps)

section \<open>Sending a command\<close>

text \<open>The datagrams that left through the queue, and whether a transmission in this state meets a failing call
  of the queue: its submission or its wait reports an error, or the entry is not accepted.\<close>

definition ring_sent :: "('q \<Rightarrow> (socket_addr option \<times> bytes) list) \<Rightarrow> 'q service_core \<Rightarrow> (socket_addr option \<times> bytes) list" where
  "ring_sent sent sv = (case sv_uring sv of None \<Rightarrow> [] | Some u \<Rightarrow> sent (ur_ring u))"

definition ring_trouble :: "'q net_env \<Rightarrow> 'q service_core \<Rightarrow> socket_addr \<Rightarrow> bytes \<Rightarrow> bool" where
  "ring_trouble env sv dst buf =
     (case sv_uring sv of
        None \<Rightarrow> False
      | Some u \<Rightarrow> fst (snd (ring_turn (env_uring env) (snd (uring_stage dst (copy_into buf) u)))))"

lemma send_framed_out:
  assumes "sv_send_framed env sv dst buf now = (Inr n, sv')"
  shows "sv_wire sv' = sv_wire sv @ [(dst, buf)]" and "sv_uring sv' = sv_uring sv"
  using assms by (auto simp: sv_send_framed_def send_framed_def Let_def split: sum.splits prod.splits if_splits)

lemma transmit_out:
  assumes "uring_kernel (env_uring env) pending landed sent" and "pred_option (quiet pending landed) (sv_uring sv)"
    and "length buf \<le> MAX_DATAGRAM" and "transmit env sv dst buf now = (Inr n, sv')"
  shows "\<exists>j k. j \<le> 1 \<and> k \<le> 1 \<and> 1 \<le> j + k \<and> sv_wire sv' = sv_wire sv @ replicate j (dst, buf) \<and>
    ring_sent sent sv' = ring_sent sent sv @ replicate k (Some (fill_sockaddr dst), buf) \<and>
    (\<not> ring_trouble env sv dst buf \<longrightarrow> j + k = 1 \<and> pred_option (quiet pending landed) (sv_uring sv'))"
proof (cases "sv_uring sv")
  case None
  then show ?thesis using send_framed_out [of env sv dst buf now n sv'] assms(4)
    by (intro exI [of _ 1] exI [of _ 0]) (simp add: transmit_def ring_sent_def)
next
  case (Some u)
  obtain r u1 where st: "uring_stage dst (copy_into buf) u = (r, u1)" by fastforce
  obtain ok trouble u2 where t: "ring_turn (env_uring env) u1 = (ok, trouble, u2)" by (metis prod_cases3)
  have "quiet pending landed u" using assms(2) Some by simp
  from uring_kernel.turn_quiet [OF assms(1) this assms(3) st t] obtain k where r: "r = Inr ()" and k: "k \<le> 1"
      "sent (ur_ring u2) = sent (ur_ring u) @ replicate k (Some (fill_sockaddr dst), buf)" "ok \<longrightarrow> k = 1"
      "\<not> trouble \<longrightarrow> quiet pending landed u2 \<and> (ok \<longleftrightarrow> k = 1)" by blast
  have tr: "ring_trouble env sv dst buf = trouble" by (simp add: ring_trouble_def Some st t)
  show ?thesis
  proof (cases ok)
    case True
    then have "sv_wire sv' = sv_wire sv" "sv_uring sv' = Some u2"
      using assms(4) Some st t r by (auto simp: transmit_def Let_def)
    then show ?thesis using True k tr Some by (intro exI [of _ 0] exI [of _ 1]) (auto simp: ring_sent_def)
  next
    case False
    then have "sv_send_framed env (sv\<lparr>sv_uring := Some u2\<rparr>) dst buf now = (Inr n, sv')"
      using assms(4) Some st t r by (simp add: transmit_def Let_def)
    from send_framed_out [OF this] show ?thesis using False k tr Some
      by (intro exI [of _ 1] exI [of _ k]) (auto simp: ring_sent_def)
  qed
qed

lemma send_control_transmits:
  assumes "send_control env sv cmd dst = (Inr (), sv')"
    and "write_control_frame (env_codec env) (sv_mux sv) cmd (if sc_reliable_control (sv_cfg sv) then FLAG_RELIABLE else 0) (sv_tx sv) =
      (Inr (n, tx), mx)"
  obtains sv4 k where "transmit env sv4 dst (take n tx) (env_clock env (sv_reads sv)) = (Inr k, sv')"
    and "sv_wire sv4 = sv_wire sv" and "sv_uring sv4 = sv_uring sv"
  using assms by (auto simp: send_control_def now_ns_def Let_def sent_ok_def split: sum.splits prod.splits if_splits)

text \<open>A datagram that fits the receive buffer and demultiplexes to a frame is handled as that frame.\<close>

lemma drain_one:
  assumes "length (rxb_buf (sv_rx sv)) = 1500" and "length d \<le> 1500"
    and "\<And>rb. take (length d) (rxb_buf rb) = d \<Longrightarrow> demux (env_codec env) rb (length d) src = Inr frame"
  shows "\<exists>sv1 r sv2. handle_frame env sv1 frame = (r, sv2) \<and>
    fst (drain_now env sink [Inr (d, src)] sv) = (case r of Some ev \<Rightarrow> [ev] | None \<Rightarrow> [])"
proof -
  let ?rb = "(sv_rx sv)\<lparr>rxb_buf := write_at 0 d (rxb_buf (sv_rx sv))\<rparr>"
  have "demux (env_codec env) ?rb (length d) src = Inr frame"
    by (rule assms(3)) simp
  then obtain mx where r: "recv_frame (env_codec env) (sv_mux sv) (sv_rx sv) (Inr (d, src)) = (Inr (Some (Inr frame)), mx, ?rb)"
    using assms(1,2) by (simp add: recv_frame_def mux_fill_def Let_def)
  obtain ev sv2 where h: "handle_frame env (sv\<lparr>sv_mux := mx, sv_rx := ?rb\<rparr>) frame = (ev, sv2)" by fastforce
  then show ?thesis
    by (intro exI [of _ "sv\<lparr>sv_mux := mx, sv_rx := ?rb\<rparr>"] exI [of _ ev] exI [of _ sv2])
      (auto simp: r h split: option.splits)
qed

lemma flags_no_ack: "(if b then FLAG_RELIABLE else 0) AND FLAG_ACK = 0"
  "((if b then FLAG_RELIABLE else 0) AND FLAG_RELIABLE \<noteq> 0) = b"
  by (simp_all add: FLAG_RELIABLE_def FLAG_ACK_def)

lemma frames_bound: "frames r ch fl p \<Longrightarrow> fst r \<le> 1500 \<and> length (take (fst r) (snd r)) = fst r"
  by (auto simp: frames_def dest!: arg_cong [of _ "datagram ch fl p" length])

lemma send_control_succeeds:
  assumes "wire_codec (env_codec env)" and "command_wf cmd" and "length (sv_tx sv) = 1500"
    and "\<And>k d b. env_send_to env k d b = Inr (length b)"
  shows "\<exists>sv'. send_control env sv cmd dst = (Inr (), sv')"
proof -
  let ?fl = "if sc_reliable_control (sv_cfg sv) then FLAG_RELIABLE else 0"
  obtain n tx mx where w: "write_control_frame (env_codec env) (sv_mux sv) cmd ?fl (sv_tx sv) = (Inr (n, tx), mx)"
    using wire_codec.control_roundtrip [OF assms(1,2) flags_no_ack(1) assms(3), of "sv_mux sv"] by blast
  have "\<exists>k sv2. sv_send_framed env sv1 dst b now = (Inr k, sv2)" for sv1 b now
    by (simp add: sv_send_framed_def send_framed_def assms(4) Let_def)
  then have "\<exists>k sv2. transmit env sv1 dst b now = (Inr k, sv2)" for sv1 b now
    unfolding transmit_def by (simp add: Let_def split: option.split prod.split sum.split)
  then have ok: "\<exists>sv2. sent_ok (transmit env sv1 dst b now) = (Inr (), sv2)" for sv1 b now
    unfolding sent_ok_def by (metis (no_types, lifting) prod.case sum.case(2))
  show ?thesis using ok by (simp add: send_control_def now_ns_def w Let_def)
qed

lemma sent_frame_delivered:
  assumes "wire_codec (env_codec env)" and "env_codec env' = env_codec env" and "command_wf cmd"
    and "length (sv_tx sv) = 1500" and "length (rxb_buf (sv_rx rv)) = 1500"
  obtains n tx mx where "write_control_frame (env_codec env) (sv_mux sv) cmd (if sc_reliable_control (sv_cfg sv) then FLAG_RELIABLE else 0) (sv_tx sv) =
      (Inr (n, tx), mx)" and "length (take n tx) \<le> MAX_DATAGRAM"
    and "fst (drain_now env' sink [Inr (take n tx, src)] rv) =
      [EvControl (cmd\<lparr>cmd_crc := command_crc cmd\<rparr>) src (sc_reliable_control (sv_cfg sv))]"
proof -
  let ?fl = "if sc_reliable_control (sv_cfg sv) then FLAG_RELIABLE else 0" and ?c = "cmd\<lparr>cmd_crc := command_crc cmd\<rparr>"
  obtain n tx mx where w: "write_control_frame (env_codec env) (sv_mux sv) cmd ?fl (sv_tx sv) = (Inr (n, tx), mx)"
    and dm: "\<And>rb src. take n (rxb_buf rb) = take n tx \<Longrightarrow>
      demux (env_codec env) rb n src = Inr (InControl ?c src (?fl AND FLAG_RELIABLE \<noteq> 0))"
    using wire_codec.control_roundtrip [OF assms(1,3) flags_no_ack(1) assms(4), of "sv_mux sv"] by blast
  have len: "length (take n tx) = n" "n \<le> 1500"
  proof -
    have "command_wf ?c" using assms(3) by (simp add: command_wf_def)
    then obtain bs where "serialize_command (env_codec env) ?c = Some bs" "length bs \<le> 1480"
      using wire_codec.command_law [OF assms(1)] by (auto simp: mux_consts)
    from write_control_frames [OF assms(4) this, of "sv_mux sv" ?fl] w
    show "length (take n tx) = n" "n \<le> 1500" using frames_bound by fastforce+
  qed
  have "demux (env_codec env') rb (length (take n tx)) src = Inr (InControl ?c src (sc_reliable_control (sv_cfg sv)))"
    if "take (length (take n tx)) (rxb_buf rb) = take n tx" for rb
    using dm [of rb src] that unfolding len(1) flags_no_ack(2) assms(2) by blast
  from drain_one [OF assms(5) _ this] len
  have "fst (drain_now env' sink [Inr (take n tx, src)] rv) = [EvControl ?c src (sc_reliable_control (sv_cfg sv))]"
    by (auto simp: handle_frame_def now_ns_def)
  then show ?thesis using that w len by (simp add: MAX_DATAGRAM_def)
qed

lemma send_control_no_uring:
  assumes "send_control env sv cmd dst = (Inr (), sv')" and "sv_uring sv = None"
  shows "sv_uring sv' = None"
proof -
  have "sv_uring (snd (transmit env sv4 dst b now)) = None" if "sv_uring sv4 = None" for sv4 b now
    using that by (simp add: transmit_def sv_send_framed_def Let_def split: prod.splits)
  then have "sv_uring (snd (sent_ok (transmit env sv4 dst b now))) = None" if "sv_uring sv4 = None" for sv4 b now
    using that by (metis (no_types, lifting) sent_ok_def snd_conv sum.case_eq_if prod.collapse case_prod_conv)
  then show ?thesis using assms
    by (fastforce simp: send_control_def now_ns_def Let_def dest: arg_cong [of _ _ snd] split: sum.splits prod.splits)
qed

section \<open>A small network\<close>

definition demo_env :: "plain_queue net_env" where
  "demo_env = \<lparr>env_codec = raw_codec, env_clock = (\<lambda>n. word_of_nat n), env_send_to = (\<lambda>_ _ b. Inr (length b)),
     env_uring = plain_uring, env_local_port = Some 443\<rparr>"

definition demo_core :: "io_error + plain_queue \<Rightarrow> plain_queue service_core" where
  "demo_core created = service_new service_config_default (snd (ring_push (with_capacity 4) (command_zeroed Assist))) 7 created"

definition demo_service :: "plain_queue service_core" where
  "demo_service = demo_core (Inl (OtherError ''io_uring is not supported''))"

lemma demo_outbox: "ring_inv (sv_outbox demo_service)" "ring_contents (sv_outbox demo_service) = [command_zeroed Assist]"
proof -
  have "unat (4 :: usize) \<le> 2 ^ 63" by simp
  then have c: "ring_inv (with_capacity 4 :: control_command spsc_ring)"
      "ring_contents (with_capacity 4 :: control_command spsc_ring) = []"
      "unat (4 :: usize) \<le> ring_room (with_capacity 4 :: control_command spsc_ring)"
    by (rule with_capacity_inv)+
  then have "0 < ring_room (with_capacity 4 :: control_command spsc_ring)" by simp
  with spsc.push_room_result [OF c(1)] c(2)
  show "ring_inv (sv_outbox demo_service)" "ring_contents (sv_outbox demo_service) = [command_zeroed Assist]"
    by (simp_all add: demo_service_def demo_core_def service_new_def)
qed

lemma demo_fields: "length (sv_tx (demo_core c)) = 1500" "length (rxb_buf (sv_rx (demo_core c))) = 1500"
  "sv_wire (demo_core c) = []" "\<not> sc_reliable_control (sv_cfg (demo_core c))"
  by (simp_all add: demo_core_def service_new_def MAX_DATAGRAM_def rx_buffer_new_def service_config_default_def)

lemma demo_codec: "wire_codec (env_codec demo_env)" by (simp add: demo_env_def raw.wire_codec_axioms)

lemma demo_kernel: "uring_kernel (env_uring demo_env) pq_pending pq_landed pq_sent"
  by (simp add: demo_env_def plain_uring.uring_kernel_axioms)

lemma demo_wf: "command_wf (command_zeroed Assist)" by (simp add: command_wf_def command_zeroed_def)

lemma demo_sends: "\<exists>sv'. send_control demo_env (demo_core c) (command_zeroed Assist) dst = (Inr (), sv')"
  using send_control_succeeds [OF demo_codec demo_wf demo_fields(1)] by (auto simp: demo_env_def)

section \<open>Properties\<close>

text \<open>C1. End to end: when one unit sends a control command and the send reports success, one datagram left
  through the socket, through the io_uring queue or through both, at most once each and nothing else with
  it; a unit that receives a copy hands its application exactly one event: the command, stamped with its
  checksum, with the sender's reliability mode. The queue, when one is attached, has nothing on its way
  when the send starts. If no call of the queue fails during the send, or no queue is attached, the
  datagram left exactly once and the queue is empty again, so that the same holds of the next send.\<close>

theorem command_delivery:
  assumes "uring_kernel (env_uring env) pending landed sent" and "pred_option (quiet pending landed) (sv_uring sv)"
    and "wire_codec (env_codec env)" and "env_codec env' = env_codec env" and "command_wf cmd"
    and "length (sv_tx sv) = 1500" and "length (rxb_buf (sv_rx rv)) = 1500"
    and "send_control env sv cmd dst = (Inr (), sv')"
  shows "\<exists>d j k. sv_wire sv' = sv_wire sv @ replicate j (dst, d) \<and>
    ring_sent sent sv' = ring_sent sent sv @ replicate k (Some (fill_sockaddr dst), d) \<and>
    j \<le> 1 \<and> k \<le> 1 \<and> 1 \<le> j + k \<and>
    (\<not> ring_trouble env sv dst d \<longrightarrow> j + k = 1 \<and> pred_option (quiet pending landed) (sv_uring sv')) \<and>
    fst (drain_now env' sink [Inr (d, src)] rv) =
      [EvControl (cmd\<lparr>cmd_crc := command_crc cmd\<rparr>) src (sc_reliable_control (sv_cfg sv))]"
proof -
  obtain n tx mx where w: "write_control_frame (env_codec env) (sv_mux sv) cmd (if sc_reliable_control (sv_cfg sv) then FLAG_RELIABLE else 0) (sv_tx sv) =
      (Inr (n, tx), mx)" and len: "length (take n tx) \<le> MAX_DATAGRAM"
    and d: "fst (drain_now env' sink [Inr (take n tx, src)] rv) =
      [EvControl (cmd\<lparr>cmd_crc := command_crc cmd\<rparr>) src (sc_reliable_control (sv_cfg sv))]"
    by (rule sent_frame_delivered [OF assms(3-7)])
  obtain sv4 m where t: "transmit env sv4 dst (take n tx) (env_clock env (sv_reads sv)) = (Inr m, sv')"
      "sv_wire sv4 = sv_wire sv" "sv_uring sv4 = sv_uring sv"
    by (rule send_control_transmits [OF assms(8) w])
  have "ring_sent sent sv4 = ring_sent sent sv" "ring_trouble env sv4 dst b = ring_trouble env sv dst b" for b
    by (simp_all add: ring_sent_def ring_trouble_def t(3))
  moreover have "pred_option (quiet pending landed) (sv_uring sv4)" using assms(2) t(3) by simp
  ultimately show ?thesis using transmit_out [OF assms(1) _ len t(1)] d t(2) by metis
qed

theorem command_delivery_witness:
  "\<exists>sv' d. send_control demo_env demo_service (command_zeroed Assist) (SocketV4 9 443) = (Inr (), sv') \<and>
     sv_wire sv' = [(SocketV4 9 443, d)] \<and>
     fst (drain_now demo_env (\<lambda>_ sv. sv) [Inr (d, SocketV4 8 443)] demo_service) =
       [EvControl ((command_zeroed Assist)\<lparr>cmd_crc := command_crc (command_zeroed Assist)\<rparr>) (SocketV4 8 443) False]"
proof -
  obtain sv' where s: "send_control demo_env demo_service (command_zeroed Assist) (SocketV4 9 443) = (Inr (), sv')"
    using demo_sends [of "Inl (OtherError ''io_uring is not supported'')"] by (auto simp: demo_service_def)
  have none: "sv_uring demo_service = None" by (simp add: demo_service_def demo_core_def service_new_def uring_new_def)
  have len: "length (sv_tx demo_service) = 1500" "length (rxb_buf (sv_rx demo_service)) = 1500"
      "sv_wire demo_service = []" "\<not> sc_reliable_control (sv_cfg demo_service)"
    using demo_fields by (simp_all add: demo_service_def)
  obtain d j k where o: "sv_wire sv' = replicate j (SocketV4 9 443, d)" "j \<le> 1" "j + k = 1"
      "ring_sent pq_sent sv' = replicate k (Some (SocketV4 9 443), d)"
      "fst (drain_now demo_env (\<lambda>_ sv. sv) [Inr (d, SocketV4 8 443)] demo_service) =
       [EvControl ((command_zeroed Assist)\<lparr>cmd_crc := command_crc (command_zeroed Assist)\<rparr>) (SocketV4 8 443) False]"
    using command_delivery [OF demo_kernel _ demo_codec refl demo_wf len(1,2) s, of "\<lambda>_ sv. sv" "SocketV4 8 443"] len(3,4) none
    by (auto simp: ring_sent_def ring_trouble_def)
  have "sv_uring sv' = None" by (rule send_control_no_uring [OF s none])
  then have "k = 0" using o(4) by (simp add: ring_sent_def)
  then show ?thesis using s o by auto
qed

text \<open>A signal that interrupts the wait for the completion makes the command leave twice: the entry was
  submitted, and the code, which does not know what became of it, sends the same datagram through the
  socket; the send reports success.\<close>

theorem interrupted_wait_duplicates:
  "\<exists>sv' d. send_control demo_env (demo_core (Inr (plain_start [True]))) (command_zeroed Assist) (SocketV4 9 443) = (Inr (), sv') \<and>
     sv_wire sv' = [(SocketV4 9 443, d)] \<and> ring_sent pq_sent sv' = [(Some (SocketV4 9 443), d)] \<and>
     fst (drain_now demo_env (\<lambda>_ sv. sv) [Inr (d, SocketV4 8 443)] demo_service) =
       [EvControl ((command_zeroed Assist)\<lparr>cmd_crc := command_crc (command_zeroed Assist)\<rparr>) (SocketV4 8 443) False]"
proof -
  let ?sv = "demo_core (Inr (plain_start [True]))"
  have rx: "length (rxb_buf (sv_rx demo_service)) = 1500" using demo_fields by (simp add: demo_service_def)
  obtain sv' where s: "send_control demo_env ?sv (command_zeroed Assist) (SocketV4 9 443) = (Inr (), sv')"
    using demo_sends by blast
  obtain n tx mx where w: "write_control_frame (env_codec demo_env) (sv_mux ?sv) (command_zeroed Assist)
      (if sc_reliable_control (sv_cfg ?sv) then FLAG_RELIABLE else 0) (sv_tx ?sv) = (Inr (n, tx), mx)"
    and len: "length (take n tx) \<le> MAX_DATAGRAM"
    and d: "fst (drain_now demo_env (\<lambda>_ sv. sv) [Inr (take n tx, SocketV4 8 443)] demo_service) =
      [EvControl ((command_zeroed Assist)\<lparr>cmd_crc := command_crc (command_zeroed Assist)\<rparr>) (SocketV4 8 443) (sc_reliable_control (sv_cfg ?sv))]"
    by (rule sent_frame_delivered [OF demo_codec refl demo_wf demo_fields(1) rx])
  obtain sv4 m where t: "transmit demo_env sv4 (SocketV4 9 443) (take n tx) (env_clock demo_env (sv_reads ?sv)) = (Inr m, sv')"
      "sv_wire sv4 = sv_wire ?sv" "sv_uring sv4 = sv_uring ?sv"
    by (rule send_control_transmits [OF s w])
  obtain u where u: "uring_new (Inr (plain_start [True])) DEFAULT_SLOTS = Inr u" "sv_uring sv4 = Some u"
    using t(3) by (simp add: demo_core_def service_new_def uring_new_def Let_def)
  have q: "quiet pq_pending pq_landed u"
    by (rule plain_uring.uring_new_quiet [OF _ _ _ u(1)]) (simp_all add: plain_start_def DEFAULT_SLOTS_def)
  have ring: "pq_signals (ur_ring u) = [True]" "pq_sent (ur_ring u) = []"
    using u(1) by (auto simp: uring_new_def plain_start_def Let_def)
  obtain r u1 where st: "uring_stage (SocketV4 9 443) (copy_into (take n tx)) u = (r, u1)" by fastforce
  obtain ok trouble u2 where tn: "ring_turn plain_uring u1 = (ok, trouble, u2)" by (metis prod_cases3)
  have "trouble" using plain_turn(2) [OF q len st tn] ring(1) by simp
  then have ok: "\<not> ok" using ring_turn_ok [OF tn] by blast
  have r: "r = Inr ()" using plain_uring.turn_quiet [OF q len st tn] by blast
  have out: "pq_sent (ur_ring u2) = [(Some (SocketV4 9 443), take n tx)]" using plain_turn(1) [OF q len st tn] ring(2) by simp
  have "sv_send_framed demo_env (sv4\<lparr>sv_uring := Some u2\<rparr>) (SocketV4 9 443) (take n tx) (env_clock demo_env (sv_reads ?sv)) = (Inr m, sv')"
    using t(1) u(2) st tn r ok by (simp add: transmit_def demo_env_def Let_def)
  from send_framed_out [OF this] have "sv_wire sv' = [(SocketV4 9 443, take n tx)]" "sv_uring sv' = Some u2"
    using t(2) demo_fields(3) by simp_all
  then show ?thesis using s d out demo_fields(4) by (auto simp: ring_sent_def)
qed

text \<open>Accounting: every datagram received is counted exactly once, as a frame, as malformed, as a
  checksum error or as rejected, and none of them stops the receive loop.\<close>

theorem drain_accounting:
  assumes "\<And>ev sv. rx_total (sink ev sv) = rx_total sv"
  shows "rx_total (snd (drain_now env sink (map Inr ds) sv)) = rx_total sv + word_of_nat (length ds)"
  using assms by (rule drain_now_total)

theorem drain_accounting_witness:
  "rx_total (snd (drain_now demo_env (\<lambda>_ sv. sv) (map Inr [([], SocketV4 1 2), ([1, 2, 3], SocketV4 1 2)]) demo_service)) = 2"
  using drain_accounting [of "\<lambda>_ sv. sv" demo_env "[([], SocketV4 1 2), ([1, 2, 3], SocketV4 1 2)]" demo_service]
  by (simp add: demo_service_def demo_core_def service_new_def mux_new_def link_stats_default_def rx_total_def)

text \<open>The receiver of the reliable channel never advances: no tick of the service moves the
  cumulative acknowledgement point, because the frames it accepts are never drained.\<close>

theorem service_never_advances_ack:
  assumes "\<And>ev sv. rx_next (sv_rel_rx (sink ev sv)) = rx_next (sv_rel_rx sv)"
  shows "rx_next (sv_rel_rx (snd (service_poll env sink ready heartbeat sv))) = rx_next (sv_rel_rx sv)"
  using drain_now_next [of sink env, OF assms]
  by (auto simp: service_poll_def Let_def background_rel_rx split: option.splits prod.splits) (metis snd_conv)+

theorem service_never_advances_ack_witness:
  "rx_next (sv_rel_rx (snd (service_poll demo_env (\<lambda>_ sv. sv) None [Inr ([], SocketV4 1 2)] demo_service))) = 0"
  using service_never_advances_ack [of "\<lambda>_ sv. sv" demo_env None "[Inr ([], SocketV4 1 2)]" demo_service]
  by (simp add: demo_service_def demo_core_def service_new_def rx_new_def)

text \<open>A command taken from the safety ring is lost when no peer is known or the send fails: it has
  left the ring, and it is not put back.\<close>

theorem outbox_command_lost:
  assumes "ring_inv (sv_outbox sv)" and "ring_contents (sv_outbox sv) = cmd # cmds"
    and "primary_dst sv = None \<or>
      (\<exists>dst e. primary_dst sv = Some dst \<and>
        fst (send_control env (sv\<lparr>sv_outbox := snd (ring_pop (sv_outbox sv))\<rparr>) cmd dst) = Inl e)"
  shows "ring_contents (sv_outbox (flush_outbox env (Suc n) sv)) = cmds \<and>
    (primary_dst sv = None \<longrightarrow> sv_wire (flush_outbox env (Suc n) sv) = sv_wire sv)"
proof -
  obtain q where q: "ring_pop (sv_outbox sv) = (Some cmd, q)" "ring_contents q = cmds"
    using spsc.pop_cons [OF assms(1,2)] by blast
  have dst: "primary_dst (sv\<lparr>sv_outbox := q\<rparr>) = primary_dst sv"
    by (simp add: primary_dst_def split: option.splits list.splits)
  show ?thesis
  proof (cases "primary_dst sv")
    case None
    then show ?thesis by (simp add: q dst)
  next
    case (Some d)
    then obtain e sv2 where s: "send_control env (sv\<lparr>sv_outbox := q\<rparr>) cmd d = (Inl e, sv2)"
      using assms(3) q(1) by (cases "send_control env (sv\<lparr>sv_outbox := q\<rparr>) cmd d") auto
    have "sv_outbox sv2 = q" using send_control_keeps(2) [of env "sv\<lparr>sv_outbox := q\<rparr>" cmd d] s by simp
    then show ?thesis using Some by (simp add: q dst s)
  qed
qed

theorem outbox_command_lost_witness:
  "primary_dst demo_service = None \<and> ring_contents (sv_outbox demo_service) = [command_zeroed Assist] \<and>
   ring_contents (sv_outbox (flush_outbox demo_env (Suc 1) demo_service)) = [] \<and>
   sv_wire (flush_outbox demo_env (Suc 1) demo_service) = []"
proof -
  have none: "primary_dst demo_service = None" and wire: "sv_wire demo_service = []"
    by (simp_all add: demo_service_def demo_core_def service_new_def primary_dst_def service_config_default_def
        nt_iter_def nt_with_capacity_def nt_with_config_def List.map_filter_def)
  then show ?thesis
    using outbox_command_lost [of demo_service "command_zeroed Assist" "[]" demo_env 1] demo_outbox by simp
qed

end
