(* ===== verification/Security.thy ===== *)
theory Security
  imports Wire_Types
begin

text \<open>
  The zero-trust model of the security crate: roles, permissions and policy (rbac.rs), the signed
  attestation and its wire form (identity.rs), the trust store and the broker (zerotrust.rs).
  Ed25519 is third-party code: its verification \<open>vfy pub msg sig\<close> and signing \<open>sign key msg\<close> are
  parameters of the definitions that use them, and the theorem that needs the correctness of the
  scheme states it as a hypothesis.
\<close>

section \<open>Role-based access control (rbac.rs)\<close>

datatype role = Guest | Observer | Operator | Admin | AiAgent

definition role_all :: "role list" where
  "role_all = [Guest, Observer, Operator, Admin, AiAgent]"

datatype permission =
  ViewTelemetry | SendControl | EngageAutonomy | TakeManualControl | ManageFleet | AuditLog

record policy =
  grants :: "role \<rightharpoonup> permission set"

definition policy_default :: policy where
  "policy_default = \<lparr>grants = Map.empty
     (Guest \<mapsto> {},
      Observer \<mapsto> {ViewTelemetry, AuditLog},
      Operator \<mapsto> {ViewTelemetry, SendControl, EngageAutonomy, TakeManualControl},
      AiAgent \<mapsto> {ViewTelemetry, SendControl, EngageAutonomy},
      Admin \<mapsto> {ViewTelemetry, SendControl, EngageAutonomy, TakeManualControl, ManageFleet, AuditLog})\<rparr>"

definition policy_grant :: "role \<Rightarrow> permission list \<Rightarrow> policy \<Rightarrow> policy" where
  "policy_grant r perms p =
     p\<lparr>grants := (grants p)(r \<mapsto> (case grants p r of Some s \<Rightarrow> s | None \<Rightarrow> {}) \<union> set perms)\<rparr>"

definition revoke_all :: "role \<Rightarrow> policy \<Rightarrow> policy" where
  "revoke_all r p = (case grants p r of Some _ \<Rightarrow> p\<lparr>grants := (grants p)(r \<mapsto> {})\<rparr> | None \<Rightarrow> p)"

definition role_has :: "policy \<Rightarrow> role \<Rightarrow> permission \<Rightarrow> bool" where
  "role_has p r perm = (case grants p r of Some s \<Rightarrow> perm \<in> s | None \<Rightarrow> False)"

record principal =
  pr_id :: string
  pr_roles :: "role set"
  pr_device_id :: u64
  pr_authenticated :: bool

definition policy_authorize :: "policy \<Rightarrow> principal \<Rightarrow> permission \<Rightarrow> bool" where
  "policy_authorize pol p perm =
     (if \<not> pr_authenticated p then False else \<exists>r \<in> pr_roles p. role_has pol r perm)"

definition principal_guest :: "string \<Rightarrow> principal" where
  "principal_guest nm = \<lparr>pr_id = nm, pr_roles = {}, pr_device_id = 0, pr_authenticated = False\<rparr>"

definition has_role :: "principal \<Rightarrow> role \<Rightarrow> bool" where
  "has_role p r \<longleftrightarrow> r \<in> pr_roles p"

definition dispatch_permission :: "rstring \<Rightarrow> permission option" where
  "dispatch_permission tool =
     (if tool = lit ''list_units'' then Some ViewTelemetry
      else if tool = lit ''get_telemetry'' then Some ViewTelemetry
      else if tool = lit ''assign_unit'' then Some ManageFleet
      else if tool = lit ''engage_autonomy'' then Some EngageAutonomy
      else if tool = lit ''take_manual_control'' then Some TakeManualControl
      else if tool = lit ''send_control'' then Some SendControl
      else if tool = lit ''manage_fleet'' then Some ManageFleet
      else if tool = lit ''read_audit'' then Some AuditLog
      else None)"

definition authorize_dispatch :: "policy \<Rightarrow> principal \<Rightarrow> rstring \<Rightarrow> bool" where
  "authorize_dispatch pol p tool =
     (case dispatch_permission tool of Some perm \<Rightarrow> policy_authorize pol p perm | None \<Rightarrow> False)"

section \<open>Identity and attestation (identity.rs, error.rs)\<close>

datatype sec_error = InvalidKeyLength | Crypto | KeyGen | AttestationFailed | Handshake string
  | BufferTooSmall | RingFull | Serialize | UnknownUnit

fun role_byte :: "role \<Rightarrow> u8" where
  "role_byte Guest = 0"
| "role_byte Observer = 1"
| "role_byte Operator = 2"
| "role_byte Admin = 3"
| "role_byte AiAgent = 4"

definition role_from_byte :: "u8 \<Rightarrow> role" where
  "role_from_byte b = (if b = 0 then Guest else if b = 1 then Observer else if b = 2 then Operator
     else if b = 3 then Admin else if b = 4 then AiAgent else Guest)"

definition SIGNING_PUB_LEN :: nat where "SIGNING_PUB_LEN = 32"
definition AGREEMENT_PUB_LEN :: nat where "AGREEMENT_PUB_LEN = 32"
definition SIGNATURE_LEN :: nat where "SIGNATURE_LEN = 64"
definition ATTESTATION_WIRE_LEN :: nat where
  "ATTESTATION_WIRE_LEN = 8 + 1 + SIGNING_PUB_LEN + AGREEMENT_PUB_LEN + SIGNATURE_LEN"

lemmas attestation_lens = SIGNING_PUB_LEN_def AGREEMENT_PUB_LEN_def SIGNATURE_LEN_def ATTESTATION_WIRE_LEN_def

record attestation =
  at_unit_id :: u64
  at_role :: role
  at_signing_pub :: bytes
  at_eph_pub :: bytes
  at_sig :: bytes

text \<open>The lengths of the three byte arrays, which Rust has in their types.\<close>

definition attestation_wf :: "attestation \<Rightarrow> bool" where
  "attestation_wf a \<longleftrightarrow> length (at_signing_pub a) = SIGNING_PUB_LEN \<and>
     length (at_eph_pub a) = AGREEMENT_PUB_LEN \<and> length (at_sig a) = SIGNATURE_LEN"

definition signed_message :: "u64 \<Rightarrow> role \<Rightarrow> bytes \<Rightarrow> bytes" where
  "signed_message unit_id r eph_pub =
     (let m0 = replicate 41 0; m1 = write_at 0 (le_bytes 8 unit_id) m0; m2 = m1[8 := role_byte r]
      in write_at 9 eph_pub m2)"

record 'k device_identity =
  di_unit_id :: u64
  di_role :: role
  di_signing :: 'k
  di_signing_pub :: bytes

definition attestation_sign :: "('k \<Rightarrow> bytes \<Rightarrow> bytes) \<Rightarrow> 'k device_identity \<Rightarrow> bytes \<Rightarrow> attestation" where
  "attestation_sign sign ident eph_pub =
     (let msg = signed_message (di_unit_id ident) (di_role ident) eph_pub; sig = sign (di_signing ident) msg
      in \<lparr>at_unit_id = di_unit_id ident, at_role = di_role ident, at_signing_pub = di_signing_pub ident,
          at_eph_pub = eph_pub, at_sig = sig\<rparr>)"

definition attestation_verify :: "(bytes \<Rightarrow> bytes \<Rightarrow> bytes \<Rightarrow> bool) \<Rightarrow> attestation \<Rightarrow> bool" where
  "attestation_verify vfy a =
     vfy (at_signing_pub a) (signed_message (at_unit_id a) (at_role a) (at_eph_pub a)) (at_sig a)"

definition to_bytes :: "attestation \<Rightarrow> bytes" where
  "to_bytes a =
     (let b0 = replicate ATTESTATION_WIRE_LEN 0;
          b1 = write_at 0 (le_bytes 8 (at_unit_id a)) b0;
          b2 = b1[8 := role_byte (at_role a)];
          b3 = write_at 9 (at_signing_pub a) b2;
          o1 = 9 + SIGNING_PUB_LEN;
          b4 = write_at o1 (at_eph_pub a) b3;
          o2 = o1 + AGREEMENT_PUB_LEN
      in write_at o2 (at_sig a) b4)"

definition from_bytes :: "bytes \<Rightarrow> sec_error + attestation" where
  "from_bytes bs =
     (if length bs < ATTESTATION_WIRE_LEN then Inl Serialize
      else
        let o1 = 9 + SIGNING_PUB_LEN; o2 = o1 + AGREEMENT_PUB_LEN in
        Inr \<lparr>at_unit_id = from_le (take 8 bs), at_role = role_from_byte (bs ! 8),
          at_signing_pub = take SIGNING_PUB_LEN (drop 9 bs),
          at_eph_pub = take AGREEMENT_PUB_LEN (drop o1 bs),
          at_sig = take SIGNATURE_LEN (drop o2 bs)\<rparr>)"

section \<open>Trust store and broker (zerotrust.rs)\<close>

record trust_store =
  ts_keys :: "u64 \<rightharpoonup> bytes"
  ts_roles :: "u64 \<rightharpoonup> role"

definition trust_new :: trust_store where
  "trust_new = \<lparr>ts_keys = Map.empty, ts_roles = Map.empty\<rparr>"

definition enroll :: "u64 \<Rightarrow> bytes \<Rightarrow> role \<Rightarrow> trust_store \<Rightarrow> trust_store" where
  "enroll unit_id signing_pub r ts =
     ts\<lparr>ts_keys := (ts_keys ts)(unit_id \<mapsto> signing_pub), ts_roles := (ts_roles ts)(unit_id \<mapsto> r)\<rparr>"

definition trust_verify :: "(bytes \<Rightarrow> bytes \<Rightarrow> bytes \<Rightarrow> bool) \<Rightarrow> trust_store \<Rightarrow> attestation \<Rightarrow> sec_error + role" where
  "trust_verify vfy ts a =
     (case ts_keys ts (at_unit_id a) of
        None \<Rightarrow> Inl UnknownUnit
      | Some enrolled \<Rightarrow>
          if enrolled \<noteq> at_signing_pub a then Inl AttestationFailed
          else if \<not> attestation_verify vfy a then Inl AttestationFailed
          else Inr (case ts_roles ts (at_unit_id a) of Some r \<Rightarrow> r | None \<Rightarrow> Guest))"

record broker =
  br_trust :: trust_store
  br_policy :: policy

definition with_trust :: "trust_store \<Rightarrow> broker" where
  "with_trust ts = \<lparr>br_trust = ts, br_policy = policy_default\<rparr>"

fun show_nat :: "nat \<Rightarrow> string" where
  "show_nat n = (if n < 10 then [char_of (48 + n)] else show_nat (n div 10) @ [char_of (48 + n mod 10)])"

declare show_nat.simps [simp del]

definition authenticate :: "(bytes \<Rightarrow> bytes \<Rightarrow> bytes \<Rightarrow> bool) \<Rightarrow> broker \<Rightarrow> attestation \<Rightarrow> sec_error + principal" where
  "authenticate vfy b a =
     (case trust_verify vfy (br_trust b) a of
        Inl e \<Rightarrow> Inl e
      | Inr r \<Rightarrow> Inr \<lparr>pr_id = ''unit-'' @ show_nat (unat (at_unit_id a)), pr_roles = {r},
          pr_device_id = at_unit_id a, pr_authenticated = True\<rparr>)"

definition broker_authorize :: "broker \<Rightarrow> principal \<Rightarrow> permission \<Rightarrow> bool" where
  "broker_authorize b p perm = policy_authorize (br_policy b) p perm"

definition broker_authorize_dispatch :: "broker \<Rightarrow> principal \<Rightarrow> rstring \<Rightarrow> bool" where
  "broker_authorize_dispatch b p tool = authorize_dispatch (br_policy b) p tool"

section \<open>Lemmas\<close>

lemma role_byte_roundtrip [simp]: "role_from_byte (role_byte r) = r"
  by (cases r) (simp_all add: role_from_byte_def)

lemma write_first: "length bs \<le> length buf \<Longrightarrow> write_at 0 bs buf = bs @ drop (length bs) buf"
  by (simp add: write_at_def)

lemma write_next:
  "length pre = off \<Longrightarrow> length bs \<le> length rest \<Longrightarrow> write_at off bs (pre @ rest) = (pre @ bs) @ drop (length bs) rest"
  by (simp add: write_at_def)

lemma signed_message_eq: "length e = 32 \<Longrightarrow> signed_message u r e = le_bytes 8 u @ role_byte r # e"
proof -
  assume e: "length e = 32"
  have "write_at 0 (le_bytes 8 u) (replicate 41 0) = le_bytes 8 u @ 0 # replicate 32 0"
    by (simp add: write_first drop_replicate flip: replicate_Suc)
  then have "(write_at 0 (le_bytes 8 u) (replicate 41 0))[8 := role_byte r] = (le_bytes 8 u @ [role_byte r]) @ replicate 32 0"
    by (simp add: list_update_append)
  then show ?thesis using e by (simp add: signed_message_def Let_def) (simp add: write_at_def)
qed

lemma to_bytes_eq:
  assumes "attestation_wf a"
  shows "to_bytes a = le_bytes 8 (at_unit_id a) @ role_byte (at_role a) # at_signing_pub a @ at_eph_pub a @ at_sig a"
proof -
  have len: "length (at_signing_pub a) = 32" "length (at_eph_pub a) = 32" "length (at_sig a) = 64"
    using assms by (simp_all add: attestation_wf_def attestation_lens)
  have "write_at 0 (le_bytes 8 (at_unit_id a)) (replicate 137 0) = le_bytes 8 (at_unit_id a) @ 0 # replicate 128 0"
    by (simp add: write_first drop_replicate flip: replicate_Suc)
  then have "(write_at 0 (le_bytes 8 (at_unit_id a)) (replicate 137 0))[8 := role_byte (at_role a)] =
      (le_bytes 8 (at_unit_id a) @ [role_byte (at_role a)]) @ replicate 128 0"
    by (simp add: list_update_append)
  then show ?thesis using len
    by (simp add: to_bytes_def Let_def attestation_lens write_next drop_replicate)
      (simp add: write_at_def)
qed

lemma attestation_bytes_roundtrip: "attestation_wf a \<Longrightarrow> from_bytes (to_bytes a @ rest) = Inr a"
  by (simp add: to_bytes_eq from_bytes_def attestation_lens attestation_wf_def Let_def from_le_le_bytes nth_append)

lemma authenticate_iff:
  "authenticate vfy b a = Inr p \<longleftrightarrow>
     ts_keys (br_trust b) (at_unit_id a) = Some (at_signing_pub a) \<and> attestation_verify vfy a \<and>
     p = \<lparr>pr_id = ''unit-'' @ show_nat (unat (at_unit_id a)),
       pr_roles = {case ts_roles (br_trust b) (at_unit_id a) of Some r \<Rightarrow> r | None \<Rightarrow> Guest},
       pr_device_id = at_unit_id a, pr_authenticated = True\<rparr>"
  by (auto simp: authenticate_def trust_verify_def split: option.splits sum.splits)

section \<open>Properties\<close>

text \<open>C19. Zero trust: the broker lets a presenter use a permission exactly when the claimed unit is
  enrolled with the very key presented, the signature over unit, claimed role and session key
  verifies under it, and the role enrolled for the unit holds the permission. The role claimed in
  the attestation plays no part in the decision.\<close>

theorem zero_trust_decision:
  "(\<exists>p. authenticate vfy b a = Inr p \<and> broker_authorize b p perm) \<longleftrightarrow>
   ts_keys (br_trust b) (at_unit_id a) = Some (at_signing_pub a) \<and>
   vfy (at_signing_pub a) (signed_message (at_unit_id a) (at_role a) (at_eph_pub a)) (at_sig a) \<and>
   role_has (br_policy b) (case ts_roles (br_trust b) (at_unit_id a) of Some r \<Rightarrow> r | None \<Rightarrow> Guest) perm"
  by (auto simp: authenticate_iff broker_authorize_def policy_authorize_def attestation_verify_def)

text \<open>Admission of an enrolled unit: the attestation a unit signs with its own key survives
  serialization and, presented to a broker that enrolled the unit's key with some role, yields an
  authenticated principal with that role, attributed to the unit.\<close>

theorem enrolled_unit_admitted:
  assumes "\<And>msg. vfy (di_signing_pub ident) msg (sign (di_signing ident) msg)"
    and "length (di_signing_pub ident) = SIGNING_PUB_LEN" and "length e = AGREEMENT_PUB_LEN"
    and "\<And>msg. length (sign (di_signing ident) msg) = SIGNATURE_LEN"
    and "b = with_trust (enroll (di_unit_id ident) (di_signing_pub ident) r ts)"
  shows "\<exists>a p. from_bytes (to_bytes (attestation_sign sign ident e)) = Inr a \<and> authenticate vfy b a = Inr p \<and>
    pr_authenticated p \<and> pr_roles p = {r} \<and> pr_device_id p = di_unit_id ident"
proof -
  let ?a = "attestation_sign sign ident e"
  have "attestation_wf ?a" using assms(2-4) by (simp add: attestation_wf_def attestation_sign_def Let_def)
  then have "from_bytes (to_bytes ?a) = Inr ?a" using attestation_bytes_roundtrip [of ?a "[]"] by simp
  moreover have "ts_keys (br_trust b) (at_unit_id ?a) = Some (at_signing_pub ?a)" "attestation_verify vfy ?a"
      "ts_roles (br_trust b) (at_unit_id ?a) = Some r" "at_unit_id ?a = di_unit_id ident"
    using assms(1,5) by (simp_all add: with_trust_def enroll_def attestation_sign_def attestation_verify_def Let_def)
  ultimately show ?thesis using authenticate_iff [of vfy b ?a] by auto
qed

theorem enrolled_unit_admitted_witness:
  "\<exists>a p. from_bytes (to_bytes (attestation_sign (\<lambda>k m. replicate 64 k) \<lparr>di_unit_id = 7, di_role = Operator,
       di_signing = 5, di_signing_pub = replicate 32 5\<rparr> (replicate 32 1))) = Inr a \<and>
     authenticate (\<lambda>pk m s. s = replicate 64 (hd pk)) (with_trust (enroll 7 (replicate 32 5) Observer trust_new)) a = Inr p \<and>
     pr_roles p = {Observer}"
  using enrolled_unit_admitted [of "\<lambda>pk m s. s = replicate 64 (hd pk)"
      "\<lparr>di_unit_id = 7, di_role = Operator, di_signing = 5, di_signing_pub = replicate 32 5\<rparr>" "\<lambda>k m. replicate 64 k"
      "replicate 32 1" "with_trust (enroll 7 (replicate 32 5) Observer trust_new)" Observer trust_new]
  by (auto simp: attestation_lens)

end
