(* ===== verification/Handover.thy ===== *)
theory Handover
  imports Wire_Types
begin

text \<open>
  The handover between a domain's autonomy and an operator (lifecycle.rs, dti.rs and session.rs of
  the domain bridge). The adapter and the assistance link are traits the domain implements: the
  record \<open>domain_interface\<close> holds the adapter's hooks as functions on an arbitrary adapter state, and
  the answer of the link is an argument.
\<close>

datatype handover_state =
  Autonomous | RequestingTeleop | TeleopActive | ReturningToAutonomy | HandoverStop

fun handover_name :: "handover_state \<Rightarrow> string" where
  "handover_name Autonomous = ''AUTONOMOUS''"
| "handover_name RequestingTeleop = ''REQUESTING_TELEOP''"
| "handover_name TeleopActive = ''TELEOP_ACTIVE''"
| "handover_name ReturningToAutonomy = ''RETURNING_TO_AUTONOMY''"
| "handover_name HandoverStop = ''EMERGENCY_STOP''"

definition can_transition_to :: "handover_state \<Rightarrow> handover_state \<Rightarrow> bool" where
  "can_transition_to s t =
     (if t = HandoverStop then True
      else (s, t) \<in> {(Autonomous, RequestingTeleop), (RequestingTeleop, Autonomous),
        (RequestingTeleop, TeleopActive), (TeleopActive, ReturningToAutonomy),
        (ReturningToAutonomy, TeleopActive), (ReturningToAutonomy, Autonomous),
        (HandoverStop, ReturningToAutonomy)})"

fun to_mode :: "handover_state \<Rightarrow> mode" where
  "to_mode Autonomous = Auto"
| "to_mode RequestingTeleop = Auto"
| "to_mode ReturningToAutonomy = Assist"
| "to_mode TeleopActive = FullTeleop"
| "to_mode HandoverStop = EmergencyStop"

datatype domain_error =
  IllegalTransition handover_state handover_state | NotEngaged handover_state | Adapter string

datatype operator_id = OperatorId bytes

datatype assistance_reason = SensorFault | ActuatorFault | GeofenceViolation | Degraded | OtherReason

record 'd domain_interface =
  on_teleop_engage :: "operator_id \<Rightarrow> 'd \<Rightarrow> (domain_error + unit) \<times> 'd"
  on_teleop_disengage :: "'d \<Rightarrow> (domain_error + unit) \<times> 'd"
  on_control_command :: "control_command \<Rightarrow> 'd \<Rightarrow> (domain_error + unit) \<times> 'd"
  on_emergency_stop :: "'d \<Rightarrow> 'd"

record 'd domain_session =
  ds_adapter :: 'd
  ds_state :: handover_state
  ds_operator :: "operator_id option"

definition session_new :: "'d \<Rightarrow> 'd domain_session" where
  "session_new ad = \<lparr>ds_adapter = ad, ds_state = Autonomous, ds_operator = None\<rparr>"

definition session_mode :: "'d domain_session \<Rightarrow> mode" where
  "session_mode s = to_mode (ds_state s)"

definition check :: "'d domain_session \<Rightarrow> handover_state list \<Rightarrow> handover_state \<Rightarrow> domain_error + unit" where
  "check s froms t =
     (if ds_state s \<in> set froms \<and> can_transition_to (ds_state s) t then Inr ()
      else Inl (IllegalTransition (ds_state s) t))"

definition request_assistance :: "(assistance_reason \<Rightarrow> domain_error + unit) \<Rightarrow> assistance_reason \<Rightarrow>
    'd domain_session \<Rightarrow> (domain_error + unit) \<times> 'd domain_session" where
  "request_assistance link reason s =
     (case check s [Autonomous] RequestingTeleop of
        Inl e \<Rightarrow> (Inl e, s)
      | Inr _ \<Rightarrow> (case link reason of
          Inl e \<Rightarrow> (Inl e, s)
        | Inr _ \<Rightarrow> (Inr (), s\<lparr>ds_state := RequestingTeleop\<rparr>)))"

definition cancel_request :: "'d domain_session \<Rightarrow> (domain_error + unit) \<times> 'd domain_session" where
  "cancel_request s =
     (case check s [RequestingTeleop] Autonomous of
        Inl e \<Rightarrow> (Inl e, s) | Inr _ \<Rightarrow> (Inr (), s\<lparr>ds_state := Autonomous\<rparr>))"

definition engage :: "'d domain_interface \<Rightarrow> operator_id \<Rightarrow> 'd domain_session \<Rightarrow> (domain_error + unit) \<times> 'd domain_session" where
  "engage dti operator s =
     (case check s [RequestingTeleop, ReturningToAutonomy] TeleopActive of
        Inl e \<Rightarrow> (Inl e, s)
      | Inr _ \<Rightarrow> (case on_teleop_engage dti operator (ds_adapter s) of
          (Inl e, ad) \<Rightarrow> (Inl e, s\<lparr>ds_adapter := ad\<rparr>)
        | (Inr _, ad) \<Rightarrow> (Inr (), s\<lparr>ds_adapter := ad, ds_state := TeleopActive, ds_operator := Some operator\<rparr>)))"

definition disengage :: "'d domain_interface \<Rightarrow> 'd domain_session \<Rightarrow> (domain_error + unit) \<times> 'd domain_session" where
  "disengage dti s =
     (case check s [TeleopActive] ReturningToAutonomy of
        Inl e \<Rightarrow> (Inl e, s)
      | Inr _ \<Rightarrow> (case on_teleop_disengage dti (ds_adapter s) of
          (Inl e, ad) \<Rightarrow> (Inl e, s\<lparr>ds_adapter := ad\<rparr>)
        | (Inr _, ad) \<Rightarrow> (Inr (), s\<lparr>ds_adapter := ad, ds_state := ReturningToAutonomy, ds_operator := None\<rparr>)))"

definition complete_handover :: "'d domain_session \<Rightarrow> (domain_error + unit) \<times> 'd domain_session" where
  "complete_handover s =
     (case check s [ReturningToAutonomy] Autonomous of
        Inl e \<Rightarrow> (Inl e, s) | Inr _ \<Rightarrow> (Inr (), s\<lparr>ds_state := Autonomous\<rparr>))"

definition emergency_stop :: "'d domain_interface \<Rightarrow> 'd domain_session \<Rightarrow> 'd domain_session" where
  "emergency_stop dti s =
     (if ds_state s = HandoverStop then s
      else s\<lparr>ds_adapter := on_emergency_stop dti (ds_adapter s), ds_state := HandoverStop, ds_operator := None\<rparr>)"

definition command :: "'d domain_interface \<Rightarrow> control_command \<Rightarrow> 'd domain_session \<Rightarrow> (domain_error + unit) \<times> 'd domain_session" where
  "command dti cmd s =
     (if ds_state s \<noteq> TeleopActive then (Inl (NotEngaged (ds_state s)), s)
      else if command_mode cmd = Some EmergencyStop then (Inr (), emergency_stop dti s)
      else (case on_control_command dti cmd (ds_adapter s) of (r, ad) \<Rightarrow> (r, s\<lparr>ds_adapter := ad\<rparr>)))"

definition acknowledge_emergency_stop :: "'d domain_session \<Rightarrow> (domain_error + unit) \<times> 'd domain_session" where
  "acknowledge_emergency_stop s =
     (case check s [HandoverStop] ReturningToAutonomy of
        Inl e \<Rightarrow> (Inl e, s) | Inr _ \<Rightarrow> (Inr (), s\<lparr>ds_state := ReturningToAutonomy\<rparr>))"

section \<open>Runs of a session\<close>

datatype session_op =
    Request assistance_reason "domain_error + unit" | Cancel | Engage operator_id | Disengage | Complete
  | Command control_command | Stop | Acknowledge

fun session_step :: "'d domain_interface \<Rightarrow> session_op \<Rightarrow> 'd domain_session \<Rightarrow> (domain_error + unit) \<times> 'd domain_session" where
  "session_step dti (Request reason answer) s = request_assistance (\<lambda>_. answer) reason s"
| "session_step dti Cancel s = cancel_request s"
| "session_step dti (Engage operator) s = engage dti operator s"
| "session_step dti Disengage s = disengage dti s"
| "session_step dti Complete s = complete_handover s"
| "session_step dti (Command cmd) s = command dti cmd s"
| "session_step dti Stop s = (Inr (), emergency_stop dti s)"
| "session_step dti Acknowledge s = acknowledge_emergency_stop s"

definition session_run :: "'d domain_interface \<Rightarrow> session_op list \<Rightarrow> 'd domain_session \<Rightarrow> 'd domain_session" where
  "session_run dti ops s = fold (\<lambda>op s. snd (session_step dti op s)) ops s"

lemmas session_defs = request_assistance_def cancel_request_def engage_def disengage_def complete_handover_def
  command_def emergency_stop_def acknowledge_emergency_stop_def check_def can_transition_to_def

definition session_inv :: "'d domain_session \<Rightarrow> bool" where
  "session_inv s \<longleftrightarrow> (ds_operator s \<noteq> None \<longleftrightarrow> ds_state s = TeleopActive)"

lemma session_step_inv: "session_inv s \<Longrightarrow> session_inv (snd (session_step dti op s))"
  by (cases op) (auto simp: session_inv_def session_defs split: sum.splits prod.splits if_splits)

lemma session_run_inv: "session_inv s \<Longrightarrow> session_inv (session_run dti ops s)"
  unfolding session_run_def by (induction ops arbitrary: s) (simp_all add: session_step_inv)

lemma session_step_edge:
  "ds_state (snd (session_step dti op s)) = ds_state s \<or>
   can_transition_to (ds_state s) (ds_state (snd (session_step dti op s)))"
  by (cases op) (auto simp: session_defs split: sum.splits prod.splits if_splits)

lemma session_step_latched:
  "ds_state s = HandoverStop \<Longrightarrow> op \<noteq> Acknowledge \<Longrightarrow> snd (session_step dti op s) = s"
  by (cases op) (auto simp: session_defs)

lemma session_step_adapter:
  "ds_adapter (snd (session_step dti op s)) \<noteq> ds_adapter s \<Longrightarrow>
     ds_state s = TeleopActive \<or> (\<exists>x. op = Engage x) \<or> op = Stop"
  by (cases op) (auto simp: session_defs split: sum.splits prod.splits if_splits)

lemma session_step_error:
  "session_step dti op s = (Inl e, s') \<Longrightarrow> ds_state s' = ds_state s \<and> ds_operator s' = ds_operator s"
  by (cases op) (auto simp: session_defs split: sum.splits prod.splits if_splits)

text \<open>An adapter that counts the calls it gets and is reset by a stop.\<close>

definition demo_dti :: "nat domain_interface" where
  "demo_dti = \<lparr>on_teleop_engage = (\<lambda>_ n. (Inr (), n + 1)), on_teleop_disengage = (\<lambda>n. (Inr (), n + 1)),
     on_control_command = (\<lambda>_ n. (Inr (), n + 1)), on_emergency_stop = (\<lambda>n. 0)\<rparr>"

section \<open>Properties\<close>

text \<open>C20. The handover lifecycle: in every run of a session, an operator is recorded exactly while teleop
  is active; each call keeps the state or follows an edge of the lifecycle; a failed call changes
  neither state nor operator; the adapter is reached only while teleop is active, by an engagement
  or by an emergency stop; and a stopped session stays exactly as it is until it is acknowledged.\<close>

theorem session_lifecycle:
  assumes "s = session_run dti ops (session_new ad)" and "session_step dti op s = (r, s')"
  shows "(ds_operator s \<noteq> None) = (ds_state s = TeleopActive) \<and>
    (ds_state s' = ds_state s \<or> can_transition_to (ds_state s) (ds_state s')) \<and>
    (r \<noteq> Inr () \<longrightarrow> ds_state s' = ds_state s \<and> ds_operator s' = ds_operator s) \<and>
    (ds_adapter s' \<noteq> ds_adapter s \<longrightarrow> ds_state s = TeleopActive \<or> (\<exists>x. op = Engage x) \<or> op = Stop) \<and>
    (ds_state s = HandoverStop \<and> op \<noteq> Acknowledge \<longrightarrow> s' = s)"
proof -
  have "session_inv (session_new ad)" by (simp add: session_inv_def session_new_def)
  then have "session_inv s" unfolding assms(1) by (rule session_run_inv)
  then have op: "(ds_operator s \<noteq> None) = (ds_state s = TeleopActive)" by (simp add: session_inv_def)
  have s': "snd (session_step dti op s) = s'" using assms(2) by simp
  have "ds_state s' = ds_state s \<and> ds_operator s' = ds_operator s" if "r \<noteq> Inr ()"
    using that session_step_error [of dti op s _ s'] assms(2) by (cases r) auto
  then show ?thesis
    using op session_step_edge [of dti op s] session_step_latched [of s op dti] session_step_adapter [of dti op s]
    unfolding s' by (intro conjI impI) simp_all
qed

theorem session_lifecycle_witness:
  "let s = session_run demo_dti [Request Degraded (Inr ()), Engage (OperatorId [])] (session_new 0);
       s' = snd (session_step demo_dti Stop s)
   in ds_state s = TeleopActive \<and> ds_operator s \<noteq> None \<and> ds_state s' = HandoverStop \<and>
      can_transition_to (ds_state s) (ds_state s')"
  using session_lifecycle [OF refl, of demo_dti Stop "[Request Degraded (Inr ()), Engage (OperatorId [])]" 0]
  by (simp add: session_run_def session_defs session_new_def demo_dti_def)

text \<open>Against the core's mode policy: every edge of the lifecycle keeps the mode or is an edge of
  the default transition table, except the operator's first engagement, which jumps from \<open>Auto\<close>
  to \<open>FullTeleop\<close>, the step the core policy forbids.\<close>

theorem handover_mode_edges:
  assumes "can_transition_to s t"
  shows "(to_mode s = to_mode t \<or> allows spec_default (to_mode s) (to_mode t)) \<longleftrightarrow>
    \<not> (s = RequestingTeleop \<and> t = TeleopActive)"
  using assms
  by (cases s; cases t) (simp_all add: can_transition_to_def spec_default_edges spec_edge_def)

theorem handover_mode_edges_witness:
  "can_transition_to RequestingTeleop TeleopActive \<and> \<not> allows spec_default Auto FullTeleop"
  using handover_mode_edges [of RequestingTeleop TeleopActive] by (simp add: can_transition_to_def)

end
