(* ===== verification/Mavlink.thy ===== *)
theory Mavlink
  imports Wire_Types
begin

text \<open>
  The MAVLink framing of the hardware layer (mavlink.rs): dialect table, CRC-16, the parser of one
  complete frame, the streaming parser fed byte by byte, and the two message decoders. The streaming
  parser recovers every frame of a well-formed stream whose frames carry no magic byte behind their
  length byte; a magic byte inside a payload makes it lose the frame.
\<close>

definition MAVLINK_1_MAGIC :: u8 where "MAVLINK_1_MAGIC = 0xFE"
definition MAVLINK_2_MAGIC :: u8 where "MAVLINK_2_MAGIC = 0xFD"
definition MAVLINK_2_SIGNATURE_LEN :: nat where "MAVLINK_2_SIGNATURE_LEN = 13"
definition MAVLINK_MAX_PAYLOAD :: nat where "MAVLINK_MAX_PAYLOAD = 255"

lemmas mav_consts = MAVLINK_1_MAGIC_def MAVLINK_2_MAGIC_def MAVLINK_2_SIGNATURE_LEN_def MAVLINK_MAX_PAYLOAD_def

definition DIALECT :: "(u32 \<times> u8 \<times> u8) list" where
  "DIALECT = [(0, 9, 50), (30, 28, 39), (33, 28, 104), (1, 31, 124), (24, 12, 167)]"

definition dialect_for :: "u32 \<Rightarrow> (u8 \<times> u8) option" where
  "dialect_for msgid = map_option (\<lambda>(_, len, extra). (len, extra)) (find (\<lambda>(i, _, _). i = msgid) DIALECT)"

definition mav_crc_bit :: "u16 \<Rightarrow> u16" where
  "mav_crc_bit crc = (if crc AND 1 \<noteq> 0 then drop_bit 1 crc XOR 0x8408 else drop_bit 1 crc)"

definition mav_crc16 :: "bytes \<Rightarrow> u16" where
  "mav_crc16 data = foldl (\<lambda>crc b. (mav_crc_bit ^^ 8) (crc XOR ucast b)) 0xFFFF data"

datatype mav_error = Magic | Truncated | CrcError

record mav_frame =
  mf_version :: u8
  mf_seq :: u8
  mf_sysid :: u8
  mf_compid :: u8
  mf_msgid :: u32
  mf_payload_len :: u8
  mf_payload :: bytes
  mf_crc :: u16
  mf_signed :: u8

definition mav_payload :: "mav_frame \<Rightarrow> bytes" where
  "mav_payload f = take (unat (mf_payload_len f)) (mf_payload f)"

definition frame_len :: "u8 \<Rightarrow> nat \<Rightarrow> bool \<Rightarrow> nat" where
  "frame_len version payload_len is_signed =
     (let header_total = (if version = 1 then 6 else 11);
          sig = (if version = 2 \<and> is_signed then MAVLINK_2_SIGNATURE_LEN else 0)
      in header_total + payload_len + 2 + sig)"

definition parse_frame :: "bytes \<Rightarrow> mav_error + mav_frame" where
  "parse_frame buf =
     (if buf = [] then Inl Magic
      else if buf ! 0 \<noteq> MAVLINK_1_MAGIC \<and> buf ! 0 \<noteq> MAVLINK_2_MAGIC then Inl Magic
      else
        let version = (if buf ! 0 = MAVLINK_1_MAGIC then 1 else 2 :: u8);
            min_header = (if version = 1 then 2 else 3)
        in if length buf < min_header then Inl Truncated
           else
             let payload_len = unat (buf ! 1); header_after = (if version = 1 then 5 else 10) in
             if payload_len > MAVLINK_MAX_PAYLOAD then Inl Truncated
             else
               let is_signed = (version = 2 \<and> buf ! 2 AND 1 \<noteq> 0); tot = frame_len version payload_len is_signed in
               if length buf < tot then Inl Truncated
               else
                 let crc_pos = 1 + header_after + payload_len;
                     crc = from_le [buf ! crc_pos, buf ! (crc_pos + 1)];
                     msgid = (if version = 1 then ucast (buf ! 5)
                       else ucast (buf ! 7) OR push_bit 8 (ucast (buf ! 8)) OR push_bit 16 (ucast (buf ! 9)));
                     pstart = 1 + header_after;
                     frame = \<lparr>mf_version = version,
                       mf_seq = (if version = 1 then buf ! 2 else buf ! 4),
                       mf_sysid = (if version = 1 then buf ! 3 else buf ! 5),
                       mf_compid = (if version = 1 then buf ! 4 else buf ! 6),
                       mf_msgid = msgid, mf_payload_len = word_of_nat payload_len,
                       mf_payload = write_at 0 (take payload_len (drop pstart buf)) (replicate MAVLINK_MAX_PAYLOAD 0),
                       mf_crc = crc, mf_signed = (if is_signed then 1 else 0)\<rparr>
                 in case dialect_for msgid of
                      Some (expected_len, extra) \<Rightarrow>
                        if unat expected_len = payload_len \<and>
                           mav_crc16 (take (crc_pos - 1) (drop 1 buf)) XOR ucast extra \<noteq> crc
                        then Inl CrcError else Inr frame
                    | None \<Rightarrow> Inr frame)"

section \<open>The streaming parser\<close>

record mav_parser =
  mp_buf :: bytes
  mp_len :: nat

definition parser_new :: mav_parser where
  "parser_new = \<lparr>mp_buf = replicate (MAVLINK_MAX_PAYLOAD + 32) 0, mp_len = 0\<rparr>"

definition is_magic :: "u8 \<Rightarrow> bool" where
  "is_magic b \<longleftrightarrow> b = MAVLINK_1_MAGIC \<or> b = MAVLINK_2_MAGIC"

definition feed :: "mav_parser \<Rightarrow> u8 \<Rightarrow> mav_frame option \<times> mav_parser" where
  "feed p b =
     (if mp_len p = 0 then
        (None, if is_magic b then p\<lparr>mp_buf := (mp_buf p)[0 := b], mp_len := 1\<rparr> else p)
      else if mp_len p > 1 \<and> is_magic b then (None, p\<lparr>mp_buf := (mp_buf p)[0 := b], mp_len := 1\<rparr>)
      else if mp_len p \<ge> length (mp_buf p) then (None, p\<lparr>mp_len := 0\<rparr>)
      else
        let p1 = p\<lparr>mp_buf := (mp_buf p)[mp_len p := b], mp_len := mp_len p + 1\<rparr> in
        if mp_len p1 \<ge> 2 then
          let version = (if mp_buf p1 ! 0 = MAVLINK_1_MAGIC then 1 else 2 :: u8);
              pl = unat (mp_buf p1 ! 1);
              is_signed = (version = 2 \<and> mp_buf p1 ! 2 AND 1 \<noteq> 0);
              tot = frame_len version pl is_signed
          in if mp_len p1 \<ge> tot then
               (case parse_frame (take tot (mp_buf p1)) of
                  Inl _ \<Rightarrow> (None, p1)
                | Inr frame \<Rightarrow> (Some frame, p1\<lparr>mp_len := 0\<rparr>))
             else (None, p1)
        else (None, p1))"

text \<open>Feeding a byte string: the frames returned, in order.\<close>

fun feed_all :: "mav_parser \<Rightarrow> bytes \<Rightarrow> mav_frame list \<times> mav_parser" where
  "feed_all p [] = ([], p)"
| "feed_all p (b # bs) =
     (case feed p b of (r, p1) \<Rightarrow> case feed_all p1 bs of (fs, p2) \<Rightarrow>
        ((case r of Some f \<Rightarrow> f # fs | None \<Rightarrow> fs), p2))"

section \<open>Decoders\<close>

record heartbeat =
  hb_custom_mode :: u32
  hb_type :: u8
  hb_autopilot :: u8
  hb_base_mode :: u8
  hb_system_status :: u8
  hb_mavlink_version :: u8

record attitude =
  att_time_boot_ms :: u32
  att_roll :: u32
  att_pitch :: u32
  att_yaw :: u32
  att_rollspeed :: u32
  att_pitchspeed :: u32
  att_yawspeed :: u32

definition le_u32 :: "bytes \<Rightarrow> nat \<Rightarrow> u32" where
  "le_u32 b off = from_le [b ! off, b ! (off + 1), b ! (off + 2), b ! (off + 3)]"

definition decode_heartbeat :: "mav_frame \<Rightarrow> heartbeat option" where
  "decode_heartbeat f =
     (if mf_msgid f \<noteq> 0 \<or> mf_payload_len f < 9 then None
      else Some \<lparr>hb_custom_mode = le_u32 (mf_payload f) 0, hb_type = mf_payload f ! 4,
        hb_autopilot = mf_payload f ! 5, hb_base_mode = mf_payload f ! 6,
        hb_system_status = mf_payload f ! 7, hb_mavlink_version = mf_payload f ! 8\<rparr>)"

definition decode_attitude :: "mav_frame \<Rightarrow> attitude option" where
  "decode_attitude f =
     (if mf_msgid f \<noteq> 30 \<or> mf_payload_len f < 28 then None
      else Some \<lparr>att_time_boot_ms = le_u32 (mf_payload f) 0, att_roll = le_u32 (mf_payload f) 4,
        att_pitch = le_u32 (mf_payload f) 8, att_yaw = le_u32 (mf_payload f) 12,
        att_rollspeed = le_u32 (mf_payload f) 16, att_pitchspeed = le_u32 (mf_payload f) 20,
        att_yawspeed = le_u32 (mf_payload f) 24\<rparr>)"

section \<open>Frames of a stream\<close>

definition wire_len :: "bytes \<Rightarrow> nat" where
  "wire_len f = (let version = (if f ! 0 = MAVLINK_1_MAGIC then 1 else 2 :: u8)
     in frame_len version (unat (f ! 1)) (version = 2 \<and> f ! 2 AND 1 \<noteq> 0))"

text \<open>A frame as a transmitter emits it, without a magic byte behind the length byte.\<close>

definition clean_frame :: "bytes \<Rightarrow> mav_frame \<Rightarrow> bool" where
  "clean_frame f fr \<longleftrightarrow> 2 \<le> length f \<and> length f = wire_len f \<and> is_magic (f ! 0) \<and>
     list_all (\<lambda>b. \<not> is_magic b) (drop 2 f) \<and> parse_frame f = Inr fr"

definition parser_ok :: "mav_parser \<Rightarrow> bool" where
  "parser_ok p \<longleftrightarrow> length (mp_buf p) = 287"

lemma parser_new_ok: "parser_ok parser_new" "mp_len parser_new = 0"
  by (simp_all add: parser_ok_def parser_new_def mav_consts)

lemma frame_len_bounds: "8 \<le> frame_len v (unat (n :: u8)) s" "frame_len v (unat (n :: u8)) s \<le> 281"
  using unsigned_less [of n, where 'a = nat] by (auto simp: frame_len_def Let_def mav_consts)

lemma wire_len_bounds: "8 \<le> wire_len f" "wire_len f \<le> 281"
  by (simp_all add: wire_len_def Let_def frame_len_bounds)

text \<open>The parser has captured the first \<open>k\<close> bytes of \<open>f\<close>.\<close>

definition captured :: "mav_parser \<Rightarrow> nat \<Rightarrow> bytes \<Rightarrow> bool" where
  "captured p k f \<longleftrightarrow> parser_ok p \<and> mp_len p = k \<and> take k (mp_buf p) = take k f"

lemma captured_nth: "captured p k f \<Longrightarrow> k \<le> length f \<Longrightarrow> i < k \<Longrightarrow> mp_buf p ! i = f ! i"
  unfolding captured_def by (metis nth_take)

lemma feed_start:
  assumes "parser_ok p" and "mp_len p = 0" and "is_magic b"
  shows "\<exists>p'. feed p b = (None, p') \<and> captured p' 1 (b # bs)"
  using assms by (cases "mp_buf p") (auto simp: feed_def captured_def parser_ok_def)

lemma captured_append:
  assumes "captured p k f" and "k < length f" and "k < 287"
  shows "captured (p\<lparr>mp_buf := (mp_buf p)[k := f ! k], mp_len := k + 1\<rparr>) (k + 1) f"
  using assms by (auto simp: captured_def parser_ok_def take_Suc_conv_app_nth)

lemma feed_more:
  assumes cap: "captured p k f" and k: "1 \<le> k" "k < length f" and fr: "clean_frame f fr"
  shows "if Suc k < length f then \<exists>p'. feed p (f ! k) = (None, p') \<and> captured p' (Suc k) f
    else \<exists>p'. feed p (f ! k) = (Some fr, p') \<and> parser_ok p' \<and> mp_len p' = 0"
proof -
  define p1 where "p1 = p\<lparr>mp_buf := (mp_buf p)[k := f ! k], mp_len := k + 1\<rparr>"
  have len: "length f = wire_len f" "length f \<le> 281" "8 \<le> length f"
    using fr wire_len_bounds [of f] by (simp_all add: clean_frame_def)
  have cap1: "captured p1 (Suc k) f" unfolding p1_def using captured_append [OF cap k(2)] k(2) len(2) by simp
  have nth: "mp_buf p1 ! i = f ! i" if "i \<le> k" for i
    using captured_nth [OF cap1] k(2) that by simp
  have p: "mp_len p = k" "length (mp_buf p) = 287" using cap by (simp_all add: captured_def parser_ok_def)
  have magic: "\<not> (1 < k \<and> is_magic (f ! k))"
  proof
    assume a: "1 < k \<and> is_magic (f ! k)"
    then have "2 + (k - 2) = k" "2 \<le> length f" "k - 2 < length (drop 2 f)" using k(2) by auto
    then have "f ! k = drop 2 f ! (k - 2)" "k - 2 < length (drop 2 f)" by (metis nth_drop)+
    then have "f ! k \<in> set (drop 2 f)" by (metis nth_mem)
    then show False using fr a by (auto simp: clean_frame_def list_all_iff)
  qed
  define v where "v = (if mp_buf p1 ! 0 = MAVLINK_1_MAGIC then 1 else 2 :: u8)"
  define tot where "tot = frame_len v (unat (mp_buf p1 ! 1)) (v = 2 \<and> mp_buf p1 ! 2 AND 1 \<noteq> 0)"
  have step: "feed p (f ! k) = (if tot \<le> Suc k then (case parse_frame (take tot (mp_buf p1)) of
      Inl _ \<Rightarrow> (None, p1) | Inr frame \<Rightarrow> (Some frame, p1\<lparr>mp_len := 0\<rparr>)) else (None, p1))"
  proof -
    have "\<not> 287 \<le> k" "k \<noteq> 0" using k len(2) by linarith+
    moreover have "mp_len p1 = Suc k" by (simp add: p1_def)
    ultimately show ?thesis using magic k(1)
      unfolding feed_def p p1_def [symmetric] Let_def tot_def v_def by auto
  qed
  have tot8: "8 \<le> tot" by (simp add: tot_def frame_len_bounds)
  have tot: "tot = length f" if "2 \<le> k"
    using that k nth [of 0] nth [of 1] nth [of 2] unfolding tot_def v_def len(1) wire_len_def Let_def by simp
  show ?thesis
  proof (cases "Suc k < length f")
    case True
    then have "\<not> tot \<le> Suc k" using tot tot8 by (cases "2 \<le> k") auto
    then show ?thesis using True step cap1 by simp
  next
    case False
    then have full: "Suc k = length f" "2 \<le> k" using k(2) len(3) by linarith+
    then have "take tot (mp_buf p1) = f" using tot cap1 by (simp add: captured_def)
    then have "feed p (f ! k) = (Some fr, p1\<lparr>mp_len := 0\<rparr>)"
      using step tot full fr by (simp add: clean_frame_def)
    then show ?thesis using False cap1 by (auto simp: captured_def parser_ok_def)
  qed
qed

lemma feed_tail:
  assumes "clean_frame f fr" and "captured p k f" and "1 \<le> k" and "k < length f"
  shows "\<exists>p'. feed_all p (drop k f @ rest) = (case feed_all p' rest of (fs, p2) \<Rightarrow> (fr # fs, p2)) \<and>
    parser_ok p' \<and> mp_len p' = 0"
  using assms(2-4)
proof (induction "length f - k" arbitrary: p k)
  case (Suc d)
  have dr: "drop k f = f ! k # drop (Suc k) f" using Suc.prems(3) by (simp add: Cons_nth_drop_Suc)
  show ?case
  proof (cases "Suc k < length f")
    case True
    then obtain p' where p': "feed p (f ! k) = (None, p')" "captured p' (Suc k) f"
      using feed_more [OF Suc.prems assms(1)] by auto
    have "d = length f - Suc k" "1 \<le> Suc k" using Suc.hyps(2) by auto
    from Suc.hyps(1) [OF this(1) p'(2) this(2) True] show ?thesis
      by (auto simp: dr p'(1) split: prod.splits)
  next
    case False
    then obtain p' where "feed p (f ! k) = (Some fr, p')" "parser_ok p'" "mp_len p' = 0"
      using feed_more [OF Suc.prems assms(1)] by auto
    then show ?thesis using False by (intro exI [of _ p']) (simp add: dr split: prod.splits)
  qed
qed simp

lemma feed_frame:
  assumes fr: "clean_frame f fr" and p: "parser_ok p" "mp_len p = 0"
  shows "\<exists>p'. feed_all p (f @ rest) = (case feed_all p' rest of (fs, p2) \<Rightarrow> (fr # fs, p2)) \<and>
    parser_ok p' \<and> mp_len p' = 0"
proof -
  obtain b bs where f: "f = b # bs" using fr by (cases f) (auto simp: clean_frame_def)
  obtain p1 where p1: "feed p b = (None, p1)" "captured p1 1 f"
    using feed_start [OF p, of b bs] fr by (auto simp: f clean_frame_def)
  have "1 < length f" using fr by (simp add: clean_frame_def)
  from feed_tail [OF fr p1(2) _ this, of rest] show ?thesis by (auto simp: f p1(1) split: prod.splits)
qed

section \<open>Properties\<close>

text \<open>Stream parsing: fed any concatenation of complete frames whose bytes behind the length byte
  are not magic, an idle parser returns exactly these frames, in order, and is idle again.\<close>

theorem mav_stream_roundtrip:
  assumes "list_all2 clean_frame fs frs" and "parser_ok p" and "mp_len p = 0"
  shows "\<exists>p'. feed_all p (concat fs) = (frs, p') \<and> parser_ok p' \<and> mp_len p' = 0"
  using assms
proof (induction fs frs arbitrary: p rule: list_all2_induct)
  case (Cons f fs fr frs)
  obtain p1 where p1: "feed_all p (f @ concat fs) = (case feed_all p1 (concat fs) of (gs, p2) \<Rightarrow> (fr # gs, p2))"
      "parser_ok p1" "mp_len p1 = 0"
    using feed_frame [OF Cons.hyps(1) Cons.prems, of "concat fs"] by blast
  then show ?case using Cons.IH [OF p1(2,3)] by auto
qed simp

theorem mav_stream_roundtrip_witness:
  "\<exists>fr p'. parse_frame [0xFE, 1, 7, 1, 2, 200, 5, 0, 0] = Inr fr \<and> mav_payload fr = [5] \<and>
     feed_all parser_new [0xFE, 1, 7, 1, 2, 200, 5, 0, 0] = ([fr], p') \<and> mp_len p' = 0"
proof -
  let ?f = "[0xFE, 1, 7, 1, 2, 200, 5, 0, 0] :: bytes"
  obtain fr where fr: "parse_frame ?f = Inr fr" "mav_payload fr = [5]"
    by (simp add: parse_frame_def mav_consts frame_len_def dialect_for_def DIALECT_def mav_payload_def write_at_def)
  have "clean_frame ?f fr"
    using fr(1) by (simp add: clean_frame_def wire_len_def frame_len_def mav_consts is_magic_def)
  then have "list_all2 clean_frame [?f] [fr]" by simp
  from mav_stream_roundtrip [OF this parser_new_ok] fr show ?thesis by auto
qed

text \<open>A magic byte in a payload loses the frame: the complete frame below parses, but the streaming
  parser restarts at its payload byte and returns nothing.\<close>

theorem mav_magic_payload_lost:
  "(\<exists>fr. parse_frame [0xFE, 1, 7, 1, 2, 200, 0xFD, 0, 0] = Inr fr \<and> mav_payload fr = [0xFD]) \<and>
   fst (feed_all parser_new [0xFE, 1, 7, 1, 2, 200, 0xFD, 0, 0]) = []"
proof
  show "\<exists>fr. parse_frame [0xFE, 1, 7, 1, 2, 200, 0xFD, 0, 0] = Inr fr \<and> mav_payload fr = [0xFD]"
    by (simp add: parse_frame_def mav_consts frame_len_def dialect_for_def DIALECT_def mav_payload_def write_at_def)
  define buf :: bytes where "buf = replicate 287 0"
  have new: "parser_new = \<lparr>mp_buf = buf, mp_len = 0\<rparr>" by (simp add: parser_new_def buf_def mav_consts)
  have len: "length buf = 287" by (simp add: buf_def)
  show "fst (feed_all parser_new [0xFE, 1, 7, 1, 2, 200, 0xFD, 0, 0]) = []"
    by (simp add: new feed_def is_magic_def mav_consts frame_len_def len nth_list_update)
qed

end
