(* ===== verification/Ieee_Float.thy ===== *)
theory Ieee_Float
  imports Complex_Main Prelude
begin

text \<open>
  The binary floating-point types of Rust. A value of type \<open>f32\<close> or \<open>f64\<close> is its bit pattern, a word;
  \<open>fl_val\<close> reads the value of a pattern with \<open>m\<close> fraction bits and \<open>e\<close> exponent bits as an exact
  rational, and \<open>fl_bits\<close> rounds a rational to the nearest pattern, ties to even, as IEEE 754 requires
  of every basic operation. Comparisons, \<open>clamp\<close>, \<open>min\<close>, \<open>max\<close> and the casts are those of the Rust
  standard library; results that are not a number have one canonical pattern.

  The lemmas show that rounding is monotone and keeps representable values, which is what the
  components that compute with floats rely on.
\<close>

type_synonym f32 = u32
type_synonym f64 = u64

section \<open>Values\<close>

text \<open>The flag of an infinity or a finite value says that it is negative; a finite value carries its
  magnitude, so that both zeros exist.\<close>

datatype fval = NaN | Infinity bool | Finite bool rat

definition sgn_val :: "bool \<Rightarrow> rat \<Rightarrow> rat" where
  "sgn_val s q = (if s then - q else q)"

definition two_pow :: "int \<Rightarrow> rat" where
  "two_pow k = (if 0 \<le> k then 2 ^ nat k else inverse (2 ^ nat (- k)))"

definition e_min :: "nat \<Rightarrow> int" where
  "e_min e = 2 - 2 ^ (e - 1)"

definition mag_val :: "nat \<Rightarrow> nat \<Rightarrow> nat \<Rightarrow> rat" where
  "mag_val m e n =
     (let ex = n div 2 ^ m; fr = n mod 2 ^ m in
      if ex = 0 then rat_of_nat fr * two_pow (e_min e - int m)
      else rat_of_nat (2 ^ m + fr) * two_pow (e_min e - int m + int (ex - 1)))"

definition fl_val :: "nat \<Rightarrow> nat \<Rightarrow> nat \<Rightarrow> fval" where
  "fl_val m e n =
     (let s = (2 ^ (m + e) \<le> n); a = n mod 2 ^ (m + e); top = (2 ^ e - 1) * 2 ^ m in
      if a < top then Finite s (mag_val m e a) else if a = top then Infinity s else NaN)"

section \<open>Rounding\<close>

definition round_even :: "rat \<Rightarrow> int" where
  "round_even x =
     (let f = \<lfloor>x\<rfloor>; d = x - of_int f in
      if d < 1 / 2 then f else if d > 1 / 2 then f + 1 else if even f then f else f + 1)"

definition ilog2 :: "rat \<Rightarrow> int" where
  "ilog2 x =
     (let (a, b) = quotient_of x; d = int (bit_width (nat a)) - int (bit_width (nat b)) in
      if two_pow d \<le> x then d else d - 1)"

definition mag_bits :: "nat \<Rightarrow> nat \<Rightarrow> rat \<Rightarrow> nat" where
  "mag_bits m e x =
     (if x \<le> 0 then 0
      else let k = max (ilog2 x) (e_min e); n = round_even (x * two_pow (int m - k))
           in nat ((k - e_min e) * 2 ^ m + n))"

definition fl_bits :: "nat \<Rightarrow> nat \<Rightarrow> fval \<Rightarrow> nat" where
  "fl_bits m e v =
     (let top = (2 ^ e - 1) * 2 ^ m; sg = (\<lambda>s. if s then 2 ^ (m + e) else 0) in
      case v of
        NaN \<Rightarrow> top + 2 ^ (m - 1)
      | Infinity s \<Rightarrow> sg s + top
      | Finite s q \<Rightarrow> sg s + min (mag_bits m e q) top)"

section \<open>Operations on values\<close>

fun fv_neg :: "fval \<Rightarrow> fval" where
  "fv_neg NaN = NaN"
| "fv_neg (Infinity s) = Infinity (\<not> s)"
| "fv_neg (Finite s q) = Finite (\<not> s) q"

fun fv_add :: "fval \<Rightarrow> fval \<Rightarrow> fval" where
  "fv_add NaN _ = NaN"
| "fv_add _ NaN = NaN"
| "fv_add (Infinity s) (Infinity t) = (if s = t then Infinity s else NaN)"
| "fv_add (Infinity s) (Finite _ _) = Infinity s"
| "fv_add (Finite _ _) (Infinity t) = Infinity t"
| "fv_add (Finite s p) (Finite t q) =
     (let r = sgn_val s p + sgn_val t q in if r = 0 then Finite (s \<and> t) 0 else Finite (r < 0) \<bar>r\<bar>)"

definition fv_sub :: "fval \<Rightarrow> fval \<Rightarrow> fval" where
  "fv_sub a b = fv_add a (fv_neg b)"

fun fv_mul :: "fval \<Rightarrow> fval \<Rightarrow> fval" where
  "fv_mul NaN _ = NaN"
| "fv_mul _ NaN = NaN"
| "fv_mul (Infinity s) (Infinity t) = Infinity (s \<noteq> t)"
| "fv_mul (Infinity s) (Finite t q) = (if q = 0 then NaN else Infinity (s \<noteq> t))"
| "fv_mul (Finite s p) (Infinity t) = (if p = 0 then NaN else Infinity (s \<noteq> t))"
| "fv_mul (Finite s p) (Finite t q) = Finite (s \<noteq> t) (p * q)"

fun fv_div :: "fval \<Rightarrow> fval \<Rightarrow> fval" where
  "fv_div NaN _ = NaN"
| "fv_div _ NaN = NaN"
| "fv_div (Infinity s) (Infinity t) = NaN"
| "fv_div (Infinity s) (Finite t q) = Infinity (s \<noteq> t)"
| "fv_div (Finite s p) (Infinity t) = Finite (s \<noteq> t) 0"
| "fv_div (Finite s p) (Finite t q) =
     (if q = 0 then (if p = 0 then NaN else Infinity (s \<noteq> t)) else Finite (s \<noteq> t) (p / q))"

fun fv_lt :: "fval \<Rightarrow> fval \<Rightarrow> bool" where
  "fv_lt NaN _ = False"
| "fv_lt _ NaN = False"
| "fv_lt (Infinity s) (Infinity t) = (s \<and> \<not> t)"
| "fv_lt (Infinity s) (Finite _ _) = s"
| "fv_lt (Finite _ _) (Infinity t) = (\<not> t)"
| "fv_lt (Finite s p) (Finite t q) = (sgn_val s p < sgn_val t q)"

fun fv_eq :: "fval \<Rightarrow> fval \<Rightarrow> bool" where
  "fv_eq NaN _ = False"
| "fv_eq _ NaN = False"
| "fv_eq (Infinity s) (Infinity t) = (s = t)"
| "fv_eq (Infinity _) (Finite _ _) = False"
| "fv_eq (Finite _ _) (Infinity _) = False"
| "fv_eq (Finite s p) (Finite t q) = (sgn_val s p = sgn_val t q)"

definition fv_le :: "fval \<Rightarrow> fval \<Rightarrow> bool" where
  "fv_le a b \<longleftrightarrow> fv_lt a b \<or> fv_eq a b"

section \<open>The two formats\<close>

definition f32_val :: "f32 \<Rightarrow> fval" where "f32_val w = fl_val 23 8 (unat w)"
definition f32_of :: "fval \<Rightarrow> f32" where "f32_of v = word_of_nat (fl_bits 23 8 v)"
definition f64_val :: "f64 \<Rightarrow> fval" where "f64_val w = fl_val 52 11 (unat w)"
definition f64_of :: "fval \<Rightarrow> f64" where "f64_of v = word_of_nat (fl_bits 52 11 v)"

text \<open>A decimal literal of the source: the nearest value of its type.\<close>

definition f32_lit :: "rat \<Rightarrow> f32" where "f32_lit q = f32_of (Finite (q < 0) \<bar>q\<bar>)"
definition f64_lit :: "rat \<Rightarrow> f64" where "f64_lit q = f64_of (Finite (q < 0) \<bar>q\<bar>)"

definition f32_add :: "f32 \<Rightarrow> f32 \<Rightarrow> f32" where "f32_add a b = f32_of (fv_add (f32_val a) (f32_val b))"
definition f32_sub :: "f32 \<Rightarrow> f32 \<Rightarrow> f32" where "f32_sub a b = f32_of (fv_sub (f32_val a) (f32_val b))"
definition f32_mul :: "f32 \<Rightarrow> f32 \<Rightarrow> f32" where "f32_mul a b = f32_of (fv_mul (f32_val a) (f32_val b))"
definition f32_div :: "f32 \<Rightarrow> f32 \<Rightarrow> f32" where "f32_div a b = f32_of (fv_div (f32_val a) (f32_val b))"
definition f32_neg :: "f32 \<Rightarrow> f32" where "f32_neg a = a XOR push_bit 31 1"
definition f32_abs :: "f32 \<Rightarrow> f32" where "f32_abs a = a AND NOT (push_bit 31 1)"
definition f32_lt :: "f32 \<Rightarrow> f32 \<Rightarrow> bool" where "f32_lt a b = fv_lt (f32_val a) (f32_val b)"
definition f32_le :: "f32 \<Rightarrow> f32 \<Rightarrow> bool" where "f32_le a b = fv_le (f32_val a) (f32_val b)"
definition f32_eq :: "f32 \<Rightarrow> f32 \<Rightarrow> bool" where "f32_eq a b = fv_eq (f32_val a) (f32_val b)"
definition f32_is_nan :: "f32 \<Rightarrow> bool" where "f32_is_nan a \<longleftrightarrow> f32_val a = NaN"

definition f64_add :: "f64 \<Rightarrow> f64 \<Rightarrow> f64" where "f64_add a b = f64_of (fv_add (f64_val a) (f64_val b))"
definition f64_sub :: "f64 \<Rightarrow> f64 \<Rightarrow> f64" where "f64_sub a b = f64_of (fv_sub (f64_val a) (f64_val b))"
definition f64_mul :: "f64 \<Rightarrow> f64 \<Rightarrow> f64" where "f64_mul a b = f64_of (fv_mul (f64_val a) (f64_val b))"
definition f64_div :: "f64 \<Rightarrow> f64 \<Rightarrow> f64" where "f64_div a b = f64_of (fv_div (f64_val a) (f64_val b))"
definition f64_lt :: "f64 \<Rightarrow> f64 \<Rightarrow> bool" where "f64_lt a b = fv_lt (f64_val a) (f64_val b)"
definition f64_le :: "f64 \<Rightarrow> f64 \<Rightarrow> bool" where "f64_le a b = fv_le (f64_val a) (f64_val b)"
definition f64_eq :: "f64 \<Rightarrow> f64 \<Rightarrow> bool" where "f64_eq a b = fv_eq (f64_val a) (f64_val b)"
definition f64_is_nan :: "f64 \<Rightarrow> bool" where "f64_is_nan a \<longleftrightarrow> f64_val a = NaN"

text \<open>\<open>clamp\<close> panics (here \<open>None\<close>) unless its bounds are ordered; a value that is not a number passes
  unchanged. \<open>max\<close> and \<open>min\<close> ignore an argument that is not a number.\<close>

definition f32_clamp :: "f32 \<Rightarrow> f32 \<Rightarrow> f32 \<Rightarrow> f32 option" where
  "f32_clamp x lo hi =
     (if \<not> f32_le lo hi then None
      else let y = (if f32_lt x lo then lo else x) in Some (if f32_lt hi y then hi else y))"

definition f64_clamp :: "f64 \<Rightarrow> f64 \<Rightarrow> f64 \<Rightarrow> f64 option" where
  "f64_clamp x lo hi =
     (if \<not> f64_le lo hi then None
      else let y = (if f64_lt x lo then lo else x) in Some (if f64_lt hi y then hi else y))"

definition f32_max :: "f32 \<Rightarrow> f32 \<Rightarrow> f32" where
  "f32_max a b = (if f32_is_nan a then b else if f32_is_nan b then a else if f32_lt a b then b else a)"

definition f32_min :: "f32 \<Rightarrow> f32 \<Rightarrow> f32" where
  "f32_min a b = (if f32_is_nan a then b else if f32_is_nan b then a else if f32_lt b a then b else a)"

definition f64_max :: "f64 \<Rightarrow> f64 \<Rightarrow> f64" where
  "f64_max a b = (if f64_is_nan a then b else if f64_is_nan b then a else if f64_lt a b then b else a)"

definition f64_min :: "f64 \<Rightarrow> f64 \<Rightarrow> f64" where
  "f64_min a b = (if f64_is_nan a then b else if f64_is_nan b then a else if f64_lt b a then b else a)"

definition f64_of_f32 :: "f32 \<Rightarrow> f64" where "f64_of_f32 a = f64_of (f32_val a)"
definition f32_of_f64 :: "f64 \<Rightarrow> f32" where "f32_of_f64 a = f32_of (f64_val a)"
definition f64_of_u64 :: "u64 \<Rightarrow> f64" where "f64_of_u64 n = f64_of (Finite False (rat_of_nat (unat n)))"
definition f32_of_u64 :: "u64 \<Rightarrow> f32" where "f32_of_u64 n = f32_of (Finite False (rat_of_nat (unat n)))"

definition f64_as_u64 :: "f64 \<Rightarrow> u64" where
  "f64_as_u64 a = (case f64_val a of
       NaN \<Rightarrow> 0
     | Infinity s \<Rightarrow> if s then 0 else - 1
     | Finite s q \<Rightarrow> if s then 0 else if q < 2 ^ 64 then word_of_nat (nat \<lfloor>q\<rfloor>) else - 1)"

section \<open>Powers of two\<close>

lemma two_pow_eq: "two_pow k = 2 powi k"
  by (auto simp: two_pow_def power_int_def power_one_over inverse_eq_divide)

lemma two_pow_pos [simp]: "0 < two_pow k"
  by (simp add: two_pow_eq)

lemma two_pow_add: "two_pow (j + k) = two_pow j * two_pow k"
  by (simp add: two_pow_eq power_int_add)

lemma two_pow_mono: "j \<le> k \<Longrightarrow> two_pow j \<le> two_pow k"
  by (simp add: two_pow_eq power_int_increasing)

lemma two_pow_less: "two_pow j < two_pow k \<Longrightarrow> j < k"
  using two_pow_mono [of k j] by linarith

lemma two_pow_nat [simp]: "two_pow (int n) = 2 ^ n"
  by (simp add: two_pow_def)

lemma bit_width_bounds: "0 < a \<Longrightarrow> (2::nat) ^ (bit_width a - 1) \<le> a \<and> a < 2 ^ bit_width a"
  using bit_width_lower [of a] bit_width_upper [of a] by (cases "bit_width a") auto

lemma ilog2_bounds:
  assumes "0 < x"
  shows "two_pow (ilog2 x) \<le> x" and "x < two_pow (ilog2 x + 1)"
proof -
  obtain a b where q: "quotient_of x = (a, b)" by fastforce
  have b: "0 < b" and x: "x = of_int a / of_int b" using q quotient_of_denom_pos quotient_of_div by auto
  have a: "0 < a" using assms x b by (simp add: zero_less_divide_iff)
  define i j where "i = bit_width (nat a)" and "j = bit_width (nat b)"
  have ij: "0 < i" "0 < j" using bit_width_upper [of "nat a"] bit_width_upper [of "nat b"] a b
    by (auto simp: i_def j_def intro!: Nat.gr0I)
  have na: "(2::nat) ^ (i - 1) \<le> nat a" "nat a < 2 ^ i" and nb: "(2::nat) ^ (j - 1) \<le> nat b" "nat b < 2 ^ j"
    using bit_width_bounds [of "nat a"] bit_width_bounds [of "nat b"] a b by (auto simp: i_def j_def)
  have A: "(2::rat) ^ (i - 1) \<le> of_int a" "of_int a < (2::rat) ^ i"
    and B: "(2::rat) ^ (j - 1) \<le> of_int b" "of_int b < (2::rat) ^ j"
    using na nb a b by (metis of_nat_le_iff of_nat_less_iff of_nat_power of_nat_numeral of_nat_nat less_imp_le)+
  have up: "x < two_pow (int i - int j + 1)"
  proof -
    have "x < 2 ^ i / 2 ^ (j - 1)" unfolding x using A B b a
      by (intro frac_less) auto
    also have "\<dots> = two_pow (int i - int (j - 1))" by (simp add: two_pow_eq power_int_diff)
    finally show ?thesis using ij by (simp add: of_nat_diff algebra_simps)
  qed
  have lo: "two_pow (int i - int j - 1) \<le> x"
  proof -
    have "two_pow (int (i - 1) - int j) = 2 ^ (i - 1) / 2 ^ j" by (simp add: two_pow_eq power_int_diff)
    also have "\<dots> \<le> x" unfolding x using A B b a by (intro frac_le) auto
    finally show ?thesis using ij by (simp add: of_nat_diff algebra_simps)
  qed
  show "two_pow (ilog2 x) \<le> x" "x < two_pow (ilog2 x + 1)"
    using up lo by (auto simp: ilog2_def q Let_def i_def [symmetric] j_def [symmetric] not_le)
qed

lemma ilog2_unique: "two_pow k \<le> x \<Longrightarrow> x < two_pow (k + 1) \<Longrightarrow> ilog2 x = k"
proof -
  assume k: "two_pow k \<le> x" "x < two_pow (k + 1)"
  then have "0 < x" using two_pow_pos [of k] by linarith
  note b = ilog2_bounds [OF this]
  have "two_pow k < two_pow (ilog2 x + 1)" "two_pow (ilog2 x) < two_pow (k + 1)" using k b by linarith+
  then have "k < ilog2 x + 1" "ilog2 x < k + 1" using two_pow_less by blast+
  then show ?thesis by linarith
qed

lemma ilog2_mono: "0 < x \<Longrightarrow> x \<le> y \<Longrightarrow> ilog2 x \<le> ilog2 y"
proof -
  assume xy: "0 < x" "x \<le> y"
  have "two_pow (ilog2 x) < two_pow (ilog2 y + 1)"
    using ilog2_bounds(1) [OF xy(1)] ilog2_bounds(2) [of y] xy by linarith
  then have "ilog2 x < ilog2 y + 1" by (rule two_pow_less)
  then show ?thesis by linarith
qed

section \<open>Rounding is monotone and exact\<close>

lemma round_even_near: "of_int (round_even x) - 1 / 2 \<le> x \<and> x \<le> of_int (round_even x) + 1 / 2"
  using floor_correct [of x] unfolding round_even_def Let_def by (auto split: if_splits) (linarith+)?

lemma round_even_mono: "x \<le> y \<Longrightarrow> round_even x \<le> round_even y"
proof (cases "\<lfloor>x\<rfloor> = \<lfloor>y\<rfloor>")
  case True
  assume "x \<le> y"
  with True show ?thesis by (auto simp: round_even_def Let_def)
next
  case False
  assume "x \<le> y"
  then have "\<lfloor>x\<rfloor> + 1 \<le> \<lfloor>y\<rfloor>" using False floor_mono [of x y] by linarith
  moreover have "round_even x \<le> \<lfloor>x\<rfloor> + 1" "\<lfloor>y\<rfloor> \<le> round_even y" by (auto simp: round_even_def Let_def)
  ultimately show ?thesis by linarith
qed

lemma round_even_of_int [simp]: "round_even (of_int i) = i"
  by (simp add: round_even_def Let_def)

lemma round_even_nonneg: "0 \<le> x \<Longrightarrow> 0 \<le> round_even x"
  using round_even_mono [of 0 x] round_even_of_int [of 0] by simp

text \<open>The integer that \<open>mag_bits\<close> rounds to lies between \<open>2^m\<close> and \<open>2^(m+1)\<close> for a normal result.\<close>

lemma scaled_bounds:
  assumes "0 < x" and "k = max (ilog2 x) (e_min e)"
  shows "0 \<le> x * two_pow (int m - k)" and "x * two_pow (int m - k) < 2 ^ Suc m"
    and "e_min e \<le> ilog2 x \<Longrightarrow> 2 ^ m \<le> x * two_pow (int m - k)"
proof -
  show "0 \<le> x * two_pow (int m - k)" using assms(1) less_imp_le [OF two_pow_pos] by simp
  have "x < two_pow (k + 1)" using ilog2_bounds(2) [OF assms(1)] two_pow_mono [of "ilog2 x + 1" "k + 1"] assms(2) by linarith
  then have "x * two_pow (int m - k) < two_pow (k + 1) * two_pow (int m - k)" by (intro mult_strict_right_mono) simp_all
  also have "\<dots> = 2 ^ Suc m" using two_pow_add [of "k + 1" "int m - k"] two_pow_nat [of "Suc m"] by (simp add: ac_simps)
  finally show "x * two_pow (int m - k) < 2 ^ Suc m" .
  assume "e_min e \<le> ilog2 x"
  then have "two_pow k * two_pow (int m - k) \<le> x * two_pow (int m - k)"
    using assms ilog2_bounds(1) [OF assms(1)] less_imp_le [OF two_pow_pos] by (intro mult_right_mono) (simp_all add: max_absorb1)
  then show "2 ^ m \<le> x * two_pow (int m - k)" using two_pow_add [of k "int m - k"] by simp
qed

lemma mag_bits_mono: "x \<le> y \<Longrightarrow> mag_bits m e x \<le> mag_bits m e y"
proof (cases "0 < x")
  case True
  assume xy: "x \<le> y"
  with True have y: "0 < y" by simp
  define i j where "i = max (ilog2 x) (e_min e)" and "j = max (ilog2 y) (e_min e)"
  have ij: "i \<le> j" "e_min e \<le> i" using ilog2_mono [OF True xy] by (auto simp: i_def j_def)
  define a b where "a = round_even (x * two_pow (int m - i))" and "b = round_even (y * two_pow (int m - j))"
  have mb: "mag_bits m e x = nat ((i - e_min e) * 2 ^ m + a)" "mag_bits m e y = nat ((j - e_min e) * 2 ^ m + b)"
    using True y by (simp_all add: mag_bits_def Let_def i_def j_def a_def b_def)
  show ?thesis
  proof (cases "i = j")
    case True
    have "x * two_pow (int m - i) \<le> y * two_pow (int m - i)"
      using xy less_imp_le [OF two_pow_pos] by (intro mult_right_mono) simp_all
    then have "a \<le> b" unfolding a_def b_def True by (rule round_even_mono)
    then show ?thesis unfolding mb True by (intro nat_mono) simp
  next
    case False
    with ij have lt: "i < j" by simp
    then have "e_min e \<le> ilog2 y" using ij by (auto simp: j_def max_def split: if_splits)
    then have "of_int (2 ^ m) \<le> y * two_pow (int m - j)" using scaled_bounds(3) [OF y j_def] by simp
    from round_even_mono [OF this] have b: "2 ^ m \<le> b" by (simp only: round_even_of_int b_def)
    have "x * two_pow (int m - i) \<le> of_int (2 ^ Suc m)" using scaled_bounds(2) [OF True i_def, of m] by simp
    from round_even_mono [OF this] have a: "a \<le> 2 ^ Suc m" by (simp only: round_even_of_int a_def)
    have "(i - e_min e) * 2 ^ m + a \<le> (i - e_min e + 1) * 2 ^ m + 2 ^ m" using a by (simp add: algebra_simps)
    also have "\<dots> \<le> (j - e_min e) * 2 ^ m + b" using lt b by (intro add_mono mult_right_mono) simp_all
    finally show ?thesis unfolding mb by (rule nat_mono)
  qed
qed (simp add: mag_bits_def)

lemma mag_val_nonneg [simp]: "0 \<le> mag_val m e n"
  using less_imp_le [OF two_pow_pos] by (simp add: mag_val_def Let_def)

lemma mag_val_zero_iff: "mag_val m e n = 0 \<longleftrightarrow> n = 0"
proof -
  have "two_pow k \<noteq> 0" for k using two_pow_pos [of k] by linarith
  moreover have "n div 2 ^ m = 0 \<and> n mod 2 ^ m = 0 \<longleftrightarrow> n = 0" by (metis div_mult_mod_eq mult_zero_left add_0 div_0 mod_0)
  moreover have "0 < rat_of_nat (2 ^ m + n mod 2 ^ m)" by (simp add: add_pos_nonneg)
  ultimately show ?thesis by (auto simp: mag_val_def Let_def)
qed

lemma mag_bits_of_val: "mag_bits m e (mag_val m e n) = n"
proof (cases "n = 0")
  case True
  then show ?thesis by (simp add: mag_bits_def mag_val_def)
next
  case False
  then have pos: "0 < mag_val m e n" using mag_val_nonneg [of m e n] mag_val_zero_iff [of m e n] by linarith
  define ex fr where "ex = n div 2 ^ m" and "fr = n mod 2 ^ m"
  have n: "n = ex * 2 ^ m + fr" and fr: "fr < 2 ^ m" unfolding ex_def fr_def by (simp_all only: div_mult_mod_eq) simp
  show ?thesis
  proof (cases "ex = 0")
    case True
    then have v: "mag_val m e n = rat_of_nat fr * two_pow (e_min e - int m)" by (simp add: mag_val_def Let_def ex_def fr_def)
    have "rat_of_nat fr < 2 ^ m" using fr by (metis of_nat_less_iff of_nat_numeral of_nat_power)
    then have "mag_val m e n < two_pow (int m) * two_pow (e_min e - int m)" unfolding v by (intro mult_strict_right_mono) simp_all
    then have "two_pow (ilog2 (mag_val m e n)) < two_pow (e_min e)"
      using ilog2_bounds(1) [OF pos] two_pow_add [of "int m" "e_min e - int m"] by simp
    then have "ilog2 (mag_val m e n) < e_min e" by (rule two_pow_less)
    then have k: "max (ilog2 (mag_val m e n)) (e_min e) = e_min e" by simp
    have "mag_val m e n * two_pow (int m - e_min e) = of_int (int fr)"
      unfolding v using two_pow_add [of "e_min e - int m" "int m - e_min e"] by (simp add: two_pow_def mult.assoc)
    then have "mag_bits m e (mag_val m e n) = nat (int fr)"
      using pos by (simp only: mag_bits_def k Let_def round_even_of_int) simp
    then show ?thesis using n True by simp
  next
    case False
    define k where "k = e_min e + int (ex - 1)"
    have v: "mag_val m e n = rat_of_nat (2 ^ m + fr) * two_pow (k - int m)" using False
      by (simp add: mag_val_def Let_def ex_def [symmetric] fr_def [symmetric] k_def algebra_simps)
    have "(2::rat) ^ m \<le> rat_of_nat (2 ^ m + fr)" "rat_of_nat (2 ^ m + fr) < 2 ^ Suc m"
      using fr by (simp, metis of_nat_less_iff of_nat_numeral of_nat_power add_strict_left_mono mult_2 power_Suc)
    then have "two_pow (int m) * two_pow (k - int m) \<le> mag_val m e n"
        "mag_val m e n < two_pow (int (Suc m)) * two_pow (k - int m)"
      unfolding v two_pow_nat using less_imp_le [OF two_pow_pos] by (auto intro!: mult_right_mono mult_strict_right_mono)
    then have "two_pow k \<le> mag_val m e n" "mag_val m e n < two_pow (k + 1)"
      unfolding two_pow_add [symmetric] by (simp_all add: ac_simps)
    then have "ilog2 (mag_val m e n) = k" by (rule ilog2_unique)
    moreover have "e_min e \<le> k" by (simp add: k_def)
    ultimately have k: "max (ilog2 (mag_val m e n)) (e_min e) = k" by simp
    have "mag_val m e n * two_pow (int m - k) = of_int (int (2 ^ m + fr))"
      unfolding v using two_pow_add [of "k - int m" "int m - k"] by (simp add: two_pow_def mult.assoc)
    then have "mag_bits m e (mag_val m e n) = nat (int (ex - 1) * 2 ^ m + int (2 ^ m + fr))"
      using pos by (simp only: mag_bits_def k Let_def round_even_of_int) (simp add: k_def)
    also have "\<dots> = (ex - 1) * 2 ^ m + (2 ^ m + fr)" 
      by (metis nat_int of_nat_add of_nat_mult of_nat_numeral of_nat_power)
    also have "\<dots> = n" using False n by (cases ex) simp_all
    finally show ?thesis .
  qed
qed

lemma mag_val_mono: "n \<le> n' \<Longrightarrow> mag_val m e n \<le> mag_val m e n'"
  using mag_bits_mono [of "mag_val m e n'" "mag_val m e n" m e] unfolding mag_bits_of_val by (cases "n = n'") force+

section \<open>Rounding a value to a format\<close>

definition rnd :: "nat \<Rightarrow> nat \<Rightarrow> fval \<Rightarrow> fval" where
  "rnd m e v = fl_val m e (fl_bits m e v)"

definition fv_wf :: "fval \<Rightarrow> bool" where
  "fv_wf v \<longleftrightarrow> (\<forall>s q. v = Finite s q \<longrightarrow> 0 \<le> q)"

lemma fl_bits_less:
  assumes "0 < m"
  shows "fl_bits m e v < 2 ^ Suc (m + e)"
proof -
  have "(2 ^ e - 1) * 2 ^ m + 2 ^ m = (2::nat) ^ (m + e)" by (simp add: power_add algebra_simps)
  moreover have "(2::nat) ^ (m - 1) < 2 ^ m" "(0::nat) < 2 ^ m" using assms by simp_all
  ultimately have "(2 ^ e - 1) * 2 ^ m + 2 ^ (m - 1) < (2::nat) ^ (m + e)" "(2 ^ e - 1) * 2 ^ m < (2::nat) ^ (m + e)"
    by linarith+
  then show ?thesis by (cases v) (auto simp: fl_bits_def Let_def min_def)
qed

lemma rnd_simps:
  assumes "0 < m"
  shows "rnd m e NaN = NaN" and "rnd m e (Infinity s) = Infinity s"
    and "rnd m e (Finite s q) =
      (if mag_bits m e q < (2 ^ e - 1) * 2 ^ m then Finite s (mag_val m e (mag_bits m e q)) else Infinity s)"
proof -
  define top P :: nat where "top = (2 ^ e - 1) * 2 ^ m" and "P = 2 ^ (m + e)"
  have "(2 ^ e - 1) * 2 ^ m + 2 ^ m = (2::nat) ^ (m + e)" by (simp add: power_add algebra_simps)
  moreover have "(2::nat) ^ (m - 1) < 2 ^ m" "(0::nat) < 2 ^ m" using assms by simp_all
  ultimately have lt: "top + 2 ^ (m - 1) < P" "top < P" unfolding top_def P_def by linarith+
  have sg: "P \<le> (if s then P else 0) + a \<longleftrightarrow> s" "((if s then P else 0) + a) mod P = a" if "a < P" for a s
    using that by auto
  show "rnd m e NaN = NaN" using sg [OF lt(1), of False]
    unfolding rnd_def fl_val_def fl_bits_def Let_def top_def [symmetric] P_def [symmetric] by simp
  show "rnd m e (Infinity s) = Infinity s" using sg [OF lt(2), of s]
    unfolding rnd_def fl_val_def fl_bits_def Let_def top_def [symmetric] P_def [symmetric] by simp
  have "min (mag_bits m e q) top < P" using lt(2) by simp
  note sq = sg [OF this, of s]
  show "rnd m e (Finite s q) =
      (if mag_bits m e q < (2 ^ e - 1) * 2 ^ m then Finite s (mag_val m e (mag_bits m e q)) else Infinity s)"
    unfolding rnd_def fl_val_def fl_bits_def Let_def top_def [symmetric] P_def [symmetric] fval.case sq
    by (auto simp: min_def)
qed

lemma rnd_wf: "0 < m \<Longrightarrow> fv_wf (rnd m e v)"
  by (cases v) (auto simp: rnd_simps fv_wf_def)

lemma fl_val_wf: "fv_wf (fl_val m e n)"
  by (auto simp: fl_val_def Let_def fv_wf_def split: if_splits)

lemma rnd_fl_val: "0 < m \<Longrightarrow> rnd m e (fl_val m e n) = fl_val m e n"
  by (auto simp: fl_val_def Let_def rnd_simps mag_bits_of_val)

lemma fv_le_refl: "v \<noteq> NaN \<Longrightarrow> fv_le v v"
  by (cases v) (auto simp: fv_le_def)

lemma fv_le_trans: "fv_le a b \<Longrightarrow> fv_le b c \<Longrightarrow> fv_le a c"
  by (cases a; cases b; cases c) (auto simp: fv_le_def)

lemma fv_le_not_nan: "fv_le a b \<Longrightarrow> a \<noteq> NaN \<and> b \<noteq> NaN"
  by (cases a; cases b) (auto simp: fv_le_def)

lemma fv_not_lt: "a \<noteq> NaN \<Longrightarrow> b \<noteq> NaN \<Longrightarrow> \<not> fv_lt a b \<longleftrightarrow> fv_le b a"
  by (cases a; cases b) (auto simp: fv_le_def)

lemma fv_le_finite: "fv_le (Finite s p) (Finite t q) \<longleftrightarrow> sgn_val s p \<le> sgn_val t q"
  by (auto simp: fv_le_def)

lemma fv_le_neg: "fv_le a b \<Longrightarrow> fv_le (fv_neg b) (fv_neg a)"
  by (cases a; cases b) (auto simp: fv_le_def sgn_val_def split: if_splits)

lemma fv_neg_neg [simp]: "fv_neg (fv_neg v) = v"
  by (cases v) simp_all

lemma rnd_mono:
  assumes "0 < m" and "0 < e" and "fv_wf a" and "fv_wf b" and "fv_le a b"
  shows "fv_le (rnd m e a) (rnd m e b)"
proof (cases a)
  case (Finite s p)
  show ?thesis
  proof (cases b)
    case b: (Finite t q)
    have pq: "0 \<le> p" "0 \<le> q" "sgn_val s p \<le> sgn_val t q" using assms Finite b by (auto simp: fv_wf_def fv_le_finite)
    note mono = mag_bits_mono [of p q m e] mag_bits_mono [of q p m e]
      mag_val_mono [of "mag_bits m e p" "mag_bits m e q" m e] mag_val_mono [of "mag_bits m e q" "mag_bits m e p" m e]
    have zero: "mag_bits m e 0 = 0" "mag_val m e 0 = 0" by (simp_all add: mag_bits_def mag_val_zero_iff)
    note nn = mag_val_nonneg [of m e "mag_bits m e p"] mag_val_nonneg [of m e "mag_bits m e q"]
    show ?thesis
    proof (cases s; cases t)
      assume "\<not> s" "\<not> t"
      then show ?thesis using pq(3) mono unfolding Finite b
        by (auto simp: rnd_simps [OF assms(1)] fv_le_finite sgn_val_def) (auto simp: fv_le_def)
    next
      assume "s" "t"
      then show ?thesis using pq(3) mono unfolding Finite b
        by (auto simp: rnd_simps [OF assms(1)] fv_le_finite sgn_val_def) (auto simp: fv_le_def)
    next
      assume "s" "\<not> t"
      moreover have "- mag_val m e (mag_bits m e p) \<le> mag_val m e (mag_bits m e q)" using nn by linarith
      ultimately show ?thesis unfolding Finite b
        by (auto simp: rnd_simps [OF assms(1)] fv_le_finite sgn_val_def) (auto simp: fv_le_def)
    next
      assume "\<not> s" "t"
      then have "p = 0" "q = 0" using pq by (auto simp: sgn_val_def)
      then show ?thesis unfolding Finite b
        using one_less_power [of "2::nat" e] assms(2)
        by (auto simp: rnd_simps [OF assms(1)] fv_le_finite sgn_val_def zero)
    qed
  qed (use assms(5) Finite in \<open>auto simp: rnd_simps [OF assms(1)] fv_le_def\<close>)
next
  case (Infinity s)
  then show ?thesis using assms(5) by (cases b) (auto simp: rnd_simps [OF assms(1)] fv_le_def)
qed (use assms(5) in \<open>auto simp: fv_le_def\<close>)

section \<open>Facts about the formats\<close>

lemma f32_val_of: "f32_val (f32_of v) = rnd 23 8 v"
  using fl_bits_less [of 23 8 v] by (simp add: f32_val_def f32_of_def rnd_def unat_of_nat)

lemma f64_val_of: "f64_val (f64_of v) = rnd 52 11 v"
  using fl_bits_less [of 52 11 v] by (simp add: f64_val_def f64_of_def rnd_def unat_of_nat)

lemma f32_val_wf [simp]: "fv_wf (f32_val a)"
  by (simp add: f32_val_def fl_val_wf)

lemma f64_val_wf [simp]: "fv_wf (f64_val a)"
  by (simp add: f64_val_def fl_val_wf)

lemma f32_val_rnd: "rnd 23 8 (f32_val a) = f32_val a"
  by (simp add: f32_val_def rnd_fl_val)

lemma f64_val_rnd: "rnd 52 11 (f64_val a) = f64_val a"
  by (simp add: f64_val_def rnd_fl_val)

lemma word_high_bit: "(2::nat) ^ 31 \<le> unat (w :: u32) \<longleftrightarrow> bit w 31"
proof -
  have "bit (unat w) 31 \<longleftrightarrow> odd (unat w div 2 ^ 31)" by (rule bit_iff_odd)
  then have "bit w 31 \<longleftrightarrow> odd (unat w div 2 ^ 31)" by (simp add: bit_unsigned_iff)
  moreover have "unat w div 2 ^ 31 < 2" using unsigned_less [of w, where 'a = nat] by (simp add: less_mult_imp_div_less)
  moreover have "2 ^ 31 \<le> unat w \<longleftrightarrow> unat w div 2 ^ 31 \<noteq> 0" by (simp add: div_eq_0_iff not_less)
  ultimately show ?thesis by (auto simp only: less_2_cases_iff) auto
qed

lemma word_low_bits: "unat (w :: u32) mod 2 ^ 31 = unat (take_bit 31 w)"
  by (metis unsigned_take_bit_eq take_bit_eq_mod)

lemma f32_val_alt:
  "f32_val w = (let s = bit w 31; a = unat (take_bit 31 w); top = (2 ^ 8 - 1) * 2 ^ 23 in
     if a < top then Finite s (mag_val 23 8 a) else if a = top then Infinity s else NaN)"
proof -
  have "(2::nat) ^ (23 + 8) = 2 ^ 31" by simp
  then show ?thesis unfolding f32_val_def fl_val_def word_high_bit [symmetric] word_low_bits [symmetric] by (simp only:)
qed

lemma f32_val_neg: "f32_val (f32_neg a) = fv_neg (f32_val a)"
proof -
  have "take_bit 31 (a XOR push_bit 31 1) = take_bit 31 a"
    by (rule bit_word_eqI) (auto simp: bit_take_bit_iff bit_xor_iff bit_push_bit_iff)
  moreover have "bit (a XOR push_bit 31 1) 31 \<longleftrightarrow> \<not> bit a 31"
    unfolding bit_xor_iff bit_push_bit_iff by simp
  ultimately show ?thesis unfolding f32_neg_def f32_val_alt Let_def by simp
qed

lemma f32_le_refl: "\<not> f32_is_nan a \<Longrightarrow> f32_le a a"
  by (simp add: f32_le_def f32_is_nan_def fv_le_refl)

lemma f32_le_trans: "f32_le a b \<Longrightarrow> f32_le b c \<Longrightarrow> f32_le a c"
  unfolding f32_le_def by (rule fv_le_trans)

lemma f32_not_lt: "\<not> f32_is_nan a \<Longrightarrow> \<not> f32_is_nan b \<Longrightarrow> \<not> f32_lt a b \<longleftrightarrow> f32_le b a"
  by (simp add: f32_lt_def f32_le_def f32_is_nan_def fv_not_lt)

lemma f32_le_not_nan: "f32_le a b \<Longrightarrow> \<not> f32_is_nan a \<and> \<not> f32_is_nan b"
  unfolding f32_le_def f32_is_nan_def by (rule fv_le_not_nan)

lemma f32_lt_not_nan: "f32_lt a b \<Longrightarrow> \<not> f32_is_nan a \<and> \<not> f32_is_nan b"
  unfolding f32_lt_def f32_is_nan_def by (cases "f32_val a"; cases "f32_val b") auto

lemma f32_clamp_some: "f32_clamp x lo hi \<noteq> None \<longleftrightarrow> f32_le lo hi"
  by (simp add: f32_clamp_def Let_def)

lemma f32_clamp_bounds:
  assumes "f32_clamp x lo hi = Some y" and "\<not> f32_is_nan x"
  shows "f32_le lo y" and "f32_le y hi"
proof -
  have le: "f32_le lo hi" using assms(1) by (auto simp: f32_clamp_def split: if_splits)
  note nn = f32_le_not_nan [OF le]
  show "f32_le lo y" "f32_le y hi" using assms le nn f32_not_lt [of x lo] f32_not_lt [of hi x] f32_le_refl
    by (auto simp: f32_clamp_def Let_def split: if_splits)
qed

lemma f32_clamp_nan: "f32_clamp x lo hi = Some y \<Longrightarrow> f32_is_nan x \<Longrightarrow> y = x"
  using f32_lt_not_nan [of x lo] f32_lt_not_nan [of hi x] by (auto simp: f32_clamp_def Let_def split: if_splits)

lemma f32_clamp_not_nan: "f32_clamp x lo hi = Some y \<Longrightarrow> \<not> f32_is_nan x \<Longrightarrow> \<not> f32_is_nan y"
  using f32_clamp_bounds(1) f32_le_not_nan by blast

lemma f32_clamp_id: "f32_le lo x \<Longrightarrow> f32_le x hi \<Longrightarrow> f32_clamp x lo hi = Some x"
  using f32_le_trans [of lo x hi] f32_le_not_nan [of lo x] f32_le_not_nan [of x hi] f32_not_lt [of x lo] f32_not_lt [of hi x]
  by (auto simp: f32_clamp_def)

text \<open>An operation with an operand that is not a number has a result that is not a number.\<close>

lemma f32_nan_absorbs:
  "f32_is_nan a \<or> f32_is_nan b \<Longrightarrow> f32_is_nan (f32_add a b)"
  "f32_is_nan a \<or> f32_is_nan b \<Longrightarrow> f32_is_nan (f32_sub a b)"
  "f32_is_nan a \<or> f32_is_nan b \<Longrightarrow> f32_is_nan (f32_mul a b)"
  by (cases "f32_val a"; cases "f32_val b";
      simp add: f32_is_nan_def f32_add_def f32_sub_def f32_mul_def fv_sub_def f32_val_of rnd_simps)+

text \<open>Adding a fixed finite number is monotone.\<close>

lemma fv_wf_add: "fv_wf a \<Longrightarrow> fv_wf b \<Longrightarrow> fv_wf (fv_add a b)"
  by (cases a; cases b) (auto simp: fv_wf_def Let_def)

lemma fv_add_mono:
  assumes "a = Finite s p" and "fv_le b c"
  shows "fv_le (fv_add a b) (fv_add a c)"
proof (cases b; cases c)
  fix t q u r assume bc: "b = Finite t q" "c = Finite u r"
  define x y where "x = sgn_val s p + sgn_val t q" and "y = sgn_val s p + sgn_val u r"
  have "x \<le> y" using assms(2) bc by (simp add: fv_le_finite x_def y_def)
  have "\<exists>g h. fv_add a b = Finite g h \<and> sgn_val g h = x" "\<exists>g h. fv_add a c = Finite g h \<and> sgn_val g h = y"
    using bc assms(1) by (auto simp: Let_def sgn_val_def x_def y_def)
  with \<open>x \<le> y\<close> show ?thesis by (auto simp: fv_le_finite)
qed (use assms in \<open>auto simp: fv_le_def Let_def\<close>)

definition f32_finite :: "f32 \<Rightarrow> bool" where
  "f32_finite a \<longleftrightarrow> (case f32_val a of Finite _ _ \<Rightarrow> True | _ \<Rightarrow> False)"

lemma f32_add_mono: "f32_finite a \<Longrightarrow> f32_le b c \<Longrightarrow> f32_le (f32_add a b) (f32_add a c)"
proof -
  assume a: "f32_finite a" and bc: "f32_le b c"
  from a obtain s p where "f32_val a = Finite s p" by (auto simp: f32_finite_def split: fval.splits)
  then have "fv_le (fv_add (f32_val a) (f32_val b)) (fv_add (f32_val a) (f32_val c))"
    using bc unfolding f32_le_def by (rule fv_add_mono)
  then show ?thesis unfolding f32_le_def f32_add_def f32_val_of by (intro rnd_mono) (simp_all add: fv_wf_add)
qed

lemma f32_le_neg: "f32_le a b \<Longrightarrow> f32_le (f32_neg b) (f32_neg a)"
  by (simp add: f32_le_def f32_val_neg fv_le_neg)

section \<open>Literals and bounds\<close>

lemma f32_lit_mono: "p \<le> q \<Longrightarrow> f32_le (f32_lit p) (f32_lit q)"
  unfolding f32_le_def f32_lit_def f32_val_of
  by (rule rnd_mono) (auto simp: fv_wf_def fv_le_finite sgn_val_def)

lemma f64_lit_mono: "p \<le> q \<Longrightarrow> f64_le (f64_lit p) (f64_lit q)"
  unfolding f64_le_def f64_lit_def f64_val_of
  by (rule rnd_mono) (auto simp: fv_wf_def fv_le_finite sgn_val_def)

lemma f32_lit_not_nan [simp]: "\<not> f32_is_nan (f32_lit q)"
  using f32_le_not_nan [OF f32_lit_mono [OF order_refl, of q]] by simp

lemma f32_val_zero [simp]: "f32_val 0 = Finite False 0"
  by (simp add: f32_val_def fl_val_def mag_val_def)

lemma f64_val_zero [simp]: "f64_val 0 = Finite False 0"
  by (simp add: f64_val_def fl_val_def mag_val_def)

lemma f32_lit_zero [simp]: "f32_lit 0 = 0"
  by (simp add: f32_lit_def f32_of_def fl_bits_def mag_bits_def)

lemma f64_lit_zero [simp]: "f64_lit 0 = 0"
  by (simp add: f64_lit_def f64_of_def fl_bits_def mag_bits_def)

lemma f32_neg_le_self: "f32_le 0 x \<Longrightarrow> f32_le (f32_neg x) x"
  by (cases "f32_val x") (auto simp: f32_le_def f32_val_neg fv_le_def sgn_val_def split: if_splits)

lemma f32_neg_not_nan [simp]: "f32_is_nan (f32_neg x) \<longleftrightarrow> f32_is_nan x"
  by (cases "f32_val x") (simp_all add: f32_is_nan_def f32_val_neg)

lemma f32_max_not_nan: "\<not> f32_is_nan b \<Longrightarrow> \<not> f32_is_nan (f32_max a b)"
  by (simp add: f32_max_def)

lemma f32_max_ge: "\<not> f32_is_nan b \<Longrightarrow> f32_le b (f32_max a b)"
  using f32_not_lt [of a b] f32_le_refl by (auto simp: f32_max_def)

lemma f32_lt_le: "f32_lt a b \<Longrightarrow> f32_le a b"
  by (simp add: f32_lt_def f32_le_def fv_le_def)

lemma f32_eq_le: "f32_eq a b \<Longrightarrow> f32_le a b \<and> f32_le b a"
  by (cases "f32_val a"; cases "f32_val b") (auto simp: f32_eq_def f32_le_def fv_le_def)

lemma f32_finite_not_nan: "f32_finite a \<Longrightarrow> \<not> f32_is_nan a"
  by (auto simp: f32_finite_def f32_is_nan_def)

lemma f32_sub_nan_iff:
  "f32_finite b \<Longrightarrow> f32_is_nan (f32_sub a b) \<longleftrightarrow> f32_is_nan a"
  by (cases "f32_val a"; cases "f32_val b")
    (auto simp: f32_is_nan_def f32_sub_def fv_sub_def f32_val_of rnd_simps f32_finite_def Let_def)

lemma f64_nan_lt [simp]: "f64_is_nan a \<or> f64_is_nan b \<Longrightarrow> \<not> f64_lt a b"
  by (cases "f64_val a"; cases "f64_val b") (auto simp: f64_lt_def f64_is_nan_def)

lemma f64_nan_absorbs:
  "f64_is_nan a \<or> f64_is_nan b \<Longrightarrow> f64_is_nan (f64_sub a b)"
  by (cases "f64_val a"; cases "f64_val b";
      simp add: f64_is_nan_def f64_sub_def fv_sub_def f64_val_of rnd_simps)

end
