(* ===== verification/Json.thy ===== *)
theory Json
  imports Ieee_Float
begin

text \<open>
  The JSON codec of the cloud crate (json.rs): the value, its accessors, the writer and the parser. A
  Rust \<open>String\<close> is the list of its code points; the parser works on bytes, and \<open>utf8\<close> is the
  encoding of a string. A position in the input is the rest of the input behind it. Numbers are
  bit-exact \<open>f64\<close> values: printing is the shortest decimal that reads back as the same value, reading
  is the nearest value of the decimal, as the Rust standard library specifies both.
\<close>

definition byte :: "char \<Rightarrow> u8" where
  "byte c = of_char c"

definition utf8_char :: "nat \<Rightarrow> bytes" where
  "utf8_char c =
     (if c < 0x80 then [word_of_nat c]
      else if c < 0x800 then [word_of_nat (0xC0 + c div 64), word_of_nat (0x80 + c mod 64)]
      else if c < 0x10000 then [word_of_nat (0xE0 + c div 4096), word_of_nat (0x80 + c div 64 mod 64), word_of_nat (0x80 + c mod 64)]
      else [word_of_nat (0xF0 + c div 262144), word_of_nat (0x80 + c div 4096 mod 64),
        word_of_nat (0x80 + c div 64 mod 64), word_of_nat (0x80 + c mod 64)])"

definition utf8 :: "rstring \<Rightarrow> bytes" where
  "utf8 s = concat (map utf8_char s)"

section \<open>Values and accessors\<close>

datatype json = Null | Bool bool | Num f64 | Str rstring | Arr "json list" | Obj "(rstring \<times> json) list"

definition json_obj :: "(string \<times> json) list \<Rightarrow> json" where
  "json_obj fields = Obj (map (\<lambda>(k, v). (lit k, v)) fields)"

definition json_obj_str :: "(string \<times> rstring) list \<Rightarrow> json" where
  "json_obj_str fields = Obj (map (\<lambda>(k, v). (lit k, Str v)) fields)"

definition json_obj_num :: "(string \<times> f64) list \<Rightarrow> json" where
  "json_obj_num fields = Obj (map (\<lambda>(k, v). (lit k, Num v)) fields)"

definition json_uint :: "u64 \<Rightarrow> json" where
  "json_uint n = Num (f64_of_u64 n)"

definition json_get :: "json \<Rightarrow> string \<Rightarrow> json option" where
  "json_get j key = (case j of Obj f \<Rightarrow> map_option snd (List.find (\<lambda>(k, _). k = lit key) f) | _ \<Rightarrow> None)"

definition as_str :: "json \<Rightarrow> rstring option" where
  "as_str j = (case j of Str s \<Rightarrow> Some s | _ \<Rightarrow> None)"

definition as_u64 :: "json \<Rightarrow> u64 option" where
  "as_u64 j = (case j of Num n \<Rightarrow> Some (f64_as_u64 n) | _ \<Rightarrow> None)"

definition as_bool :: "json \<Rightarrow> bool option" where
  "as_bool j = (case j of Bool b \<Rightarrow> Some b | _ \<Rightarrow> None)"

definition as_array :: "json \<Rightarrow> json list option" where
  "as_array j = (case j of Arr items \<Rightarrow> Some items | _ \<Rightarrow> None)"

section \<open>Decimal numbers\<close>

fun show_dec :: "nat \<Rightarrow> rstring" where
  "show_dec n = (if n < 10 then [48 + n] else show_dec (n div 10) @ [48 + n mod 10])"

declare show_dec.simps [simp del]

definition show_int :: "int \<Rightarrow> rstring" where
  "show_int i = (if i < 0 then lit ''-'' @ show_dec (nat (- i)) else show_dec (nat i))"

definition ten_pow :: "int \<Rightarrow> rat" where
  "ten_pow k = (if 0 \<le> k then 10 ^ nat k else inverse (10 ^ nat (- k)))"

text \<open>A decimal \<open>d * 10^(-k)\<close> in positional notation.\<close>

definition show_decimal :: "nat \<Rightarrow> nat \<Rightarrow> rstring" where
  "show_decimal d k =
     (if k = 0 then show_dec d
      else
        let s = show_dec d; p = replicate (k + 1 - length s) 48 @ s; n = length p - k
        in take n p @ lit ''.'' @ drop n p)"

text \<open>\<open>Display\<close> of a positive finite value: the first number of significant digits for which one of the
  two neighbouring decimals reads back as the value, the nearer one if both do. The exact expansion,
  whose number of digits is bounded, ends the search.\<close>

definition dec_exponent :: "rat \<Rightarrow> int" where
  "dec_exponent q =
     (let (a, b) = quotient_of q; d = int (length (show_dec (nat a))) - int (length (show_dec (nat b)))
      in if ten_pow d \<le> q then d else d - 1)"

definition two_adic :: "rat \<Rightarrow> nat" where
  "two_adic q = bit_width (nat (snd (quotient_of q))) - 1"

definition reads_back :: "rat \<Rightarrow> nat \<times> int \<Rightarrow> bool" where
  "reads_back q c \<longleftrightarrow> f64_of (Finite False (rat_of_nat (fst c) * ten_pow (- snd c))) = f64_of (Finite False q)"

definition candidates :: "rat \<Rightarrow> nat \<Rightarrow> (nat \<times> int) list" where
  "candidates q d =
     (let k = int d - 1 - dec_exponent q; x = q * ten_pow k; lo = nat \<lfloor>x\<rfloor>
      in if x - rat_of_nat lo \<le> 1 / 2 then [(lo, k), (lo + 1, k)] else [(lo + 1, k), (lo, k)])"

definition shortest :: "rat \<Rightarrow> nat \<times> int" where
  "shortest q =
     (case List.find (reads_back q) (concat (map (candidates q) [1..<18])) of
        Some c \<Rightarrow> c
      | None \<Rightarrow> (nat \<lfloor>q * 10 ^ two_adic q\<rfloor>, int (two_adic q)))"

definition show_f64 :: "f64 \<Rightarrow> rstring" where
  "show_f64 n =
     (case f64_val n of
        NaN \<Rightarrow> lit ''NaN''
      | Infinity s \<Rightarrow> (if s then lit ''-inf'' else lit ''inf'')
      | Finite s q \<Rightarrow> (if s then lit ''-'' else []) @
          (if q = 0 then lit ''0''
           else let (d, k) = shortest q in if k < 0 then show_decimal (d * 10 ^ nat (- k)) 0 else show_decimal d (nat k)))"

definition write_num :: "f64 \<Rightarrow> rstring" where
  "write_num n =
     (case f64_val n of
        Finite s q \<Rightarrow>
          if q = rat_of_int \<lfloor>q\<rfloor> \<and> q < 10 ^ 15 then show_int (if s then - \<lfloor>q\<rfloor> else \<lfloor>q\<rfloor>) else show_f64 n
      | _ \<Rightarrow> show_f64 n)"

section \<open>Writer\<close>

definition hex_digit :: "nat \<Rightarrow> nat" where
  "hex_digit d = (if d < 10 then 48 + d else 87 + d)"

definition escape_char :: "nat \<Rightarrow> rstring" where
  "escape_char c =
     (if c = 0x22 then lit [CHR 0x5C, CHR 0x22]
      else if c = 0x5C then lit [CHR 0x5C, CHR 0x5C]
      else if c = 0x0A then lit [CHR 0x5C, CHR ''n'']
      else if c = 0x0D then lit [CHR 0x5C, CHR ''r'']
      else if c = 0x09 then lit [CHR 0x5C, CHR ''t'']
      else if c = 0x08 then lit [CHR 0x5C, CHR ''b'']
      else if c = 0x0C then lit [CHR 0x5C, CHR ''f'']
      else if c < 0x20 then lit [CHR 0x5C, CHR ''u''] @ [48, 48, hex_digit (c div 16), hex_digit (c mod 16)]
      else [c])"

definition write_json_string :: "rstring \<Rightarrow> rstring" where
  "write_json_string s = [0x22] @ concat (map escape_char s) @ [0x22]"

fun json_write :: "json \<Rightarrow> rstring"
  and write_items :: "json list \<Rightarrow> rstring"
  and write_fields :: "(rstring \<times> json) list \<Rightarrow> rstring" where
  "json_write Null = lit ''null''"
| "json_write (Bool b) = (if b then lit ''true'' else lit ''false'')"
| "json_write (Num n) = write_num n"
| "json_write (Str s) = write_json_string s"
| "json_write (Arr items) = lit ''['' @ write_items items @ lit '']''"
| "json_write (Obj fields) = lit ''{'' @ write_fields fields @ lit ''}''"
| "write_items [] = []"
| "write_items [v] = json_write v"
| "write_items (v # vs) = json_write v @ lit '','' @ write_items vs"
| "write_fields [] = []"
| "write_fields [(k, v)] = write_json_string k @ lit '':'' @ json_write v"
| "write_fields ((k, v) # fs) = write_json_string k @ lit '':'' @ json_write v @ lit '','' @ write_fields fs"

section \<open>Parser\<close>

definition is_ws :: "u8 \<Rightarrow> bool" where
  "is_ws c \<longleftrightarrow> c = 0x20 \<or> c = 0x09 \<or> c = 0x0A \<or> c = 0x0D"

definition skip_ws :: "bytes \<Rightarrow> bytes" where
  "skip_ws b = dropWhile is_ws b"

definition expect :: "bytes \<Rightarrow> string \<Rightarrow> rstring + bytes" where
  "expect b w =
     (let l = map byte w in
      if take (length l) b = l then Inr (drop (length l) b) else Inl (lit ''expected '' @ [39] @ lit w @ [39]))"

definition hex_value :: "u8 \<Rightarrow> nat option" where
  "hex_value c =
     (let n = unat c in
      if 48 \<le> n \<and> n \<le> 57 then Some (n - 48)
      else if 97 \<le> n \<and> n \<le> 102 then Some (n - 87)
      else if 65 \<le> n \<and> n \<le> 70 then Some (n - 55)
      else None)"

text \<open>\<open>u32::from_str_radix\<close> in base 16: an optional plus sign, then at least one digit.\<close>

fun hex_number :: "nat \<Rightarrow> bytes \<Rightarrow> nat option" where
  "hex_number n [] = Some n"
| "hex_number n (c # cs) = (case hex_value c of None \<Rightarrow> None | Some d \<Rightarrow> hex_number (16 * n + d) cs)"

definition from_str_radix16 :: "bytes \<Rightarrow> nat option" where
  "from_str_radix16 b =
     (let ds = (case b of c # cs \<Rightarrow> if c = 0x2B \<and> cs \<noteq> [] then cs else b | [] \<Rightarrow> []) in
      if ds = [] then None else hex_number 0 ds)"

definition is_scalar :: "nat \<Rightarrow> bool" where
  "is_scalar c \<longleftrightarrow> c < 0xD800 \<or> 0xE000 \<le> c \<and> c < 0x110000"

definition simple_escape :: "u8 \<Rightarrow> nat option" where
  "simple_escape e =
     (if e = 0x22 then Some 0x22 else if e = 0x5C then Some 0x5C else if e = 0x2F then Some 0x2F
      else if e = byte CHR ''n'' then Some 0x0A else if e = byte CHR ''r'' then Some 0x0D
      else if e = byte CHR ''t'' then Some 0x09 else if e = byte CHR ''b'' then Some 0x08
      else if e = byte CHR ''f'' then Some 0x0C else None)"

text \<open>The loop of \<open>parse_string\<close>, behind the opening quote.\<close>

fun string_loop :: "bytes \<Rightarrow> rstring \<Rightarrow> rstring + rstring \<times> bytes" where
  "string_loop [] s = Inl (lit ''unterminated string'')"
| "string_loop (c # cs) s =
     (if c = 0x22 then Inr (s, cs)
      else if c = 0x5C then
        (case cs of
           [] \<Rightarrow> Inl (lit ''unterminated escape'')
         | e # es \<Rightarrow>
             (case simple_escape e of
                Some ch \<Rightarrow> string_loop es (s @ [ch])
              | None \<Rightarrow>
                  if e = byte CHR ''u'' then
                    if length es < 4 then Inl (lit [CHR ''b'', CHR ''a'', CHR ''d'', CHR '' '', CHR 0x5C] @ lit ''u escape'')
                    else (case from_str_radix16 (take 4 es) of
                            None \<Rightarrow> Inl (lit [CHR ''b'', CHR ''a'', CHR ''d'', CHR '' '', CHR 0x5C] @ lit ''u escape'')
                          | Some code \<Rightarrow>
                              if is_scalar code then string_loop (drop 4 es) (s @ [code])
                              else Inl (lit [CHR ''b'', CHR ''a'', CHR ''d'', CHR '' '', CHR 0x5C] @ lit ''u codepoint''))
                  else Inl (lit ''bad escape '' @ [39, 0x5C, unat e, 39])))
      else string_loop cs (s @ [unat c]))"

definition parse_string :: "bytes \<Rightarrow> rstring + rstring \<times> bytes" where
  "parse_string b = string_loop (tl b) []"

definition is_digit :: "u8 \<Rightarrow> bool" where
  "is_digit c \<longleftrightarrow> 48 \<le> unat c \<and> unat c \<le> 57"

text \<open>The token of \<open>parse_number\<close>: sign, digits, fraction and exponent.\<close>

definition take_sign :: "bytes \<Rightarrow> bytes \<times> bytes" where
  "take_sign b = (case b of c # cs \<Rightarrow> if c = 0x2D then ([c], cs) else ([], b) | [] \<Rightarrow> ([], []))"

definition take_digits :: "bytes \<Rightarrow> bytes \<times> bytes" where
  "take_digits b = (takeWhile is_digit b, dropWhile is_digit b)"

definition take_frac :: "bytes \<Rightarrow> bytes \<times> bytes" where
  "take_frac b = (case b of c # cs \<Rightarrow> if c = 0x2E then (let (t, r) = take_digits cs in (c # t, r)) else ([], b) | [] \<Rightarrow> ([], []))"

definition take_exp_sign :: "bytes \<Rightarrow> bytes \<times> bytes" where
  "take_exp_sign b = (case b of c # cs \<Rightarrow> if c = 0x2B \<or> c = 0x2D then ([c], cs) else ([], b) | [] \<Rightarrow> ([], []))"

definition take_exp :: "bytes \<Rightarrow> bytes \<times> bytes" where
  "take_exp b =
     (case b of
        c # cs \<Rightarrow> if c = 0x65 \<or> c = 0x45 then (let (s, cs') = take_exp_sign cs; (t, r) = take_digits cs' in (c # s @ t, r)) else ([], b)
      | [] \<Rightarrow> ([], []))"

definition number_token :: "bytes \<Rightarrow> bytes \<times> bytes" where
  "number_token b =
     (let (t1, r1) = take_sign b; (t2, r2) = take_digits r1; (t3, r3) = take_frac r2; (t4, r4) = take_exp r3
      in (t1 @ t2 @ t3 @ t4, r4))"

definition digits_value :: "bytes \<Rightarrow> nat" where
  "digits_value ds = foldl (\<lambda>n c. 10 * n + (unat c - 48)) 0 ds"

text \<open>\<open>str::parse::<f64>\<close> on such a token: at least one digit before the exponent, and one in it.\<close>

definition exponent_value :: "bytes \<Rightarrow> int option" where
  "exponent_value b =
     (case b of
        [] \<Rightarrow> Some 0
      | c # cs \<Rightarrow>
          if c = 0x65 \<or> c = 0x45 then
            (let (sg, ds) = take_exp_sign cs in
             if ds \<noteq> [] \<and> list_all is_digit ds
             then Some (if sg = [0x2D] then - int (digits_value ds) else int (digits_value ds)) else None)
          else None)"

definition parse_f64 :: "bytes \<Rightarrow> f64 option" where
  "parse_f64 s =
     (let (sg, s1) = take_sign s; (ip, s2) = take_digits s1; (fp, s3) = take_frac s2; frac = tl fp
      in if ip = [] \<and> frac = [] then None
         else map_option (\<lambda>e. f64_of (Finite (sg \<noteq> []) (rat_of_nat (digits_value (ip @ frac)) * ten_pow (e - int (length frac)))))
                (exponent_value s3))"

definition parse_number :: "bytes \<Rightarrow> rstring + f64 \<times> bytes" where
  "parse_number b =
     (let (t, r) = number_token b in case parse_f64 t of None \<Rightarrow> Inl (lit ''invalid number'') | Some n \<Rightarrow> Inr (n, r))"

subsection \<open>Every parser consumes its input\<close>

lemma skip_ws_length: "length (skip_ws b) \<le> length b"
  by (simp add: skip_ws_def length_dropWhile_le)

lemma skip_ws_Cons: "skip_ws b = c # cs \<Longrightarrow> length cs < length b"
  using skip_ws_length [of b] by simp

lemma string_loop_length: "string_loop b s = Inr (s', r) \<Longrightarrow> length r < length b"
proof (induction b s rule: string_loop.induct)
  case (2 c cs s)
  show ?case
  proof (cases "c = 0x22 \<or> c \<noteq> 0x5C")
    case True
    then show ?thesis using 2 by (auto split: if_splits)
  next
    case False
    then obtain e es where cs: "cs = e # es" using 2 by (cases cs) auto
    show ?thesis
    proof (cases "simple_escape e")
      case None
      with False cs 2(4) obtain code where u: "from_str_radix16 (take 4 es) = Some code" "e = byte CHR ''u''" "\<not> length es < 4" "is_scalar code"
          "string_loop (drop 4 es) (s @ [code]) = Inr (s', r)"
        by (auto split: if_splits option.splits)
      have "length r < length (drop 4 es)" using 2 u cs None False by blast
      then show ?thesis using cs by simp
    next
      case (Some ch)
      then have "string_loop es (s @ [ch]) = Inr (s', r)" using 2(4) False cs by simp
      then have "length r < length es" using 2 Some cs False by blast
      then show ?thesis using cs by simp
    qed
  qed
qed simp

lemma parse_string_length: "parse_string b = Inr (s, r) \<Longrightarrow> length r < length b"
  using string_loop_length [of "tl b" "[]" s r] by (cases b) (auto simp: parse_string_def)

lemma expect_length: "expect b w = Inr r \<Longrightarrow> b \<noteq> [] \<Longrightarrow> w \<noteq> [] \<Longrightarrow> length r < length b"
  by (auto simp: expect_def Let_def split: if_splits)

lemma take_parts_append:
  "take_sign b = (t, r) \<Longrightarrow> b = t @ r" "take_digits b = (t, r) \<Longrightarrow> b = t @ r"
  "take_exp_sign b = (t, r) \<Longrightarrow> b = t @ r"
  by (auto simp: take_sign_def take_digits_def take_exp_sign_def split: list.splits if_splits)

lemma take_frac_append: "take_frac b = (t, r) \<Longrightarrow> b = t @ r"
  using take_parts_append(2) by (fastforce simp: take_frac_def split: list.splits if_splits prod.splits)

lemma take_exp_append: "take_exp b = (t, r) \<Longrightarrow> b = t @ r"
  using take_parts_append(2,3) by (fastforce simp: take_exp_def split: list.splits if_splits prod.splits)

lemma number_token_append: "number_token b = (t, r) \<Longrightarrow> b = t @ r"
  by (auto simp: number_token_def split: prod.splits dest!: take_parts_append take_frac_append take_exp_append)

lemma parse_number_length: "parse_number b = Inr (n, r) \<Longrightarrow> length r < length b"
proof -
  assume p: "parse_number b = Inr (n, r)"
  obtain t where t: "number_token b = (t, r)" "parse_f64 t \<noteq> None" using p
    by (auto simp: parse_number_def split: prod.splits option.splits)
  have "t \<noteq> []" using t(2) by (auto simp: parse_f64_def take_sign_def take_digits_def take_frac_def)
  then show ?thesis using number_token_append [OF t(1)] by simp
qed

subsection \<open>Values\<close>

function (sequential) parse_value :: "bytes \<Rightarrow> rstring + json \<times> bytes"
  and items_loop :: "bytes \<Rightarrow> json list \<Rightarrow> rstring + json \<times> bytes"
  and fields_loop :: "bytes \<Rightarrow> (rstring \<times> json) list \<Rightarrow> rstring + json \<times> bytes" where
  "parse_value b0 =
     (let b = skip_ws b0 in
      case b of
        [] \<Rightarrow> Inl (lit ''unexpected end of input'')
      | c # cs \<Rightarrow>
          if c = 0x22 then (case parse_string b of Inl e \<Rightarrow> Inl e | Inr (s, r) \<Rightarrow> Inr (Str s, r))
          else if c = 0x7B then
            (let r = skip_ws cs in
             case r of d # ds \<Rightarrow> if d = 0x7D then Inr (Obj [], ds) else fields_loop r [] | [] \<Rightarrow> fields_loop r [])
          else if c = 0x5B then
            (let r = skip_ws cs in
             case r of d # ds \<Rightarrow> if d = 0x5D then Inr (Arr [], ds) else items_loop r [] | [] \<Rightarrow> items_loop r [])
          else if c = byte CHR ''t'' then (case expect b ''true'' of Inl e \<Rightarrow> Inl e | Inr r \<Rightarrow> Inr (Bool True, r))
          else if c = byte CHR ''f'' then (case expect b ''false'' of Inl e \<Rightarrow> Inl e | Inr r \<Rightarrow> Inr (Bool False, r))
          else if c = byte CHR ''n'' then (case expect b ''null'' of Inl e \<Rightarrow> Inl e | Inr r \<Rightarrow> Inr (Null, r))
          else if c = 0x2D \<or> is_digit c then (case parse_number b of Inl e \<Rightarrow> Inl e | Inr (n, r) \<Rightarrow> Inr (Num n, r))
          else Inl (lit ''unexpected character '' @ [39, unat c, 39] @ lit '' in JSON''))"
| "items_loop b items =
     (case parse_value b of
        Inl e \<Rightarrow> Inl e
      | Inr (v, r) \<Rightarrow>
          (case skip_ws r of
             [] \<Rightarrow> Inl (lit ''unterminated array'')
           | c # cs \<Rightarrow>
               if c = 0x2C then items_loop cs (items @ [v])
               else if c = 0x5D then Inr (Arr (items @ [v]), cs)
               else Inl (lit ''expected '' @ [39, 44, 39] @ lit '' or '' @ [39, 93, 39] @ lit '' in array'')))"
| "fields_loop b fields =
     (case skip_ws b of
        [] \<Rightarrow> Inl (lit ''expected object key string'')
      | c # cs \<Rightarrow>
          if c \<noteq> 0x22 then Inl (lit ''expected object key string'')
          else
            (case parse_string (c # cs) of
               Inl e \<Rightarrow> Inl e
             | Inr (key, r) \<Rightarrow>
                 (case skip_ws r of
                    [] \<Rightarrow> Inl (lit ''expected '' @ [39, 58, 39] @ lit '' in object'')
                  | d # ds \<Rightarrow>
                      if d \<noteq> 0x3A then Inl (lit ''expected '' @ [39, 58, 39] @ lit '' in object'')
                      else
                        (case parse_value ds of
                           Inl e \<Rightarrow> Inl e
                         | Inr (v, r2) \<Rightarrow>
                             (case skip_ws r2 of
                                [] \<Rightarrow> Inl (lit ''unterminated object'')
                              | f # fs \<Rightarrow>
                                  if f = 0x2C then fields_loop fs (fields @ [(key, v)])
                                  else if f = 0x7D then Inr (Obj (fields @ [(key, v)]), fs)
                                  else Inl (lit ''expected '' @ [39, 44, 39] @ lit '' or '' @ [39, 125, 39] @ lit '' in object''))))))"
  by pat_completeness auto

lemma parser_consumes:
  "parse_value_items_loop_fields_loop_dom (Inl b) \<Longrightarrow> parse_value b = Inr (v, r) \<Longrightarrow> length r < length b"
  "parse_value_items_loop_fields_loop_dom (Inr (Inl (b, items))) \<Longrightarrow> items_loop b items = Inr (v, r) \<Longrightarrow> length r < length b"
  "parse_value_items_loop_fields_loop_dom (Inr (Inr (b, fields))) \<Longrightarrow> fields_loop b fields = Inr (v, r) \<Longrightarrow> length r < length b"
proof (induction b and b items and b fields arbitrary: v r and v r and v r rule: parse_value_items_loop_fields_loop.pinduct)
  case (1 b0)
  note d1 = \<open>parse_value_items_loop_fields_loop_dom (Inl b0)\<close>
  have "skip_ws b0 \<noteq> []" using 1 by (auto simp add: parse_value.psimps)
  then obtain c cs where b: "skip_ws b0 = c # cs" by (cases "skip_ws b0") auto
  have len: "length (c # cs) \<le> length b0" using skip_ws_length [of b0] b by simp
  have F: "length r < length b0" if "fields_loop (skip_ws cs) [] = Inr (v, r)" "c \<noteq> 0x22" "c = 0x7B"
      "skip_ws cs = [] \<or> hd (skip_ws cs) \<noteq> 0x7D"
  proof -
    have "length r < length (skip_ws cs)" using "1.IH" that b by (cases "skip_ws cs") fastforce+
    then show ?thesis using skip_ws_length [of cs] len by simp
  qed
  have I: "length r < length b0" if "items_loop (skip_ws cs) [] = Inr (v, r)" "c \<noteq> 0x22" "c \<noteq> 0x7B" "c = 0x5B"
      "skip_ws cs = [] \<or> hd (skip_ws cs) \<noteq> 0x5D"
  proof -
    have "length r < length (skip_ws cs)" using "1.IH" that b by (cases "skip_ws cs") fastforce+
    then show ?thesis using skip_ws_length [of cs] len by simp
  qed
  note leaf = parse_string_length [of "c # cs"] parse_number_length [of "c # cs"] expect_length [of "c # cs"]
  show ?case using "1.prems" F I leaf len skip_ws_Cons [of cs] unfolding parse_value.psimps [OF d1] Let_def b
    by (fastforce split: if_splits list.splits sum.splits prod.splits)
next
  case (2 b items)
  note d2 = \<open>parse_value_items_loop_fields_loop_dom (Inr (Inl (b, items)))\<close>
  obtain v' r' where p: "parse_value b = Inr (v', r')" using "2.prems"
    by (auto simp: items_loop.psimps [OF d2] split: sum.splits)
  then have r': "length r' < length b" using "2.IH" by blast
  obtain c cs where s: "skip_ws r' = c # cs" using "2.prems" p by (auto simp: items_loop.psimps [OF d2] split: list.splits)
  have cs: "length cs < length b" using skip_ws_Cons [OF s] r' by simp
  show ?case
  proof (cases "c = 0x2C")
    case True
    then have "items_loop cs (items @ [v']) = Inr (v, r)" using "2.prems" p s by (simp add: items_loop.psimps [OF d2])
    then have "length r < length cs" using "2.IH" p s True by blast
    then show ?thesis using cs by simp
  next
    case False
    then show ?thesis using "2.prems" p s cs by (auto simp: items_loop.psimps [OF d2] split: if_splits)
  qed
next
  case (3 b fields)
  note d3 = \<open>parse_value_items_loop_fields_loop_dom (Inr (Inr (b, fields)))\<close>
  obtain cs where s: "skip_ws b = 0x22 # cs" using "3.prems" by (auto simp: fields_loop.psimps [OF d3] split: list.splits if_splits)
  obtain key r1 where k: "parse_string (0x22 # cs) = Inr (key, r1)" using "3.prems" s by (auto simp: fields_loop.psimps [OF d3] split: sum.splits)
  obtain ds where c: "skip_ws r1 = 0x3A # ds" using "3.prems" s k by (auto simp: fields_loop.psimps [OF d3] split: list.splits if_splits)
  obtain v' r2 where p: "parse_value ds = Inr (v', r2)" using "3.prems" s k c by (auto simp: fields_loop.psimps [OF d3] split: sum.splits)
  then have r2: "length r2 < length ds" using "3.IH" s k c by blast
  obtain f fs where f: "skip_ws r2 = f # fs" using "3.prems" s k c p by (auto simp: fields_loop.psimps [OF d3] split: list.splits)
  have fs: "length fs < length b"
    using skip_ws_Cons [OF f] r2 skip_ws_Cons [OF c] parse_string_length [OF k] skip_ws_Cons [OF s] by simp
  show ?case
  proof (cases "f = 0x2C")
    case True
    then have "fields_loop fs (fields @ [(key, v')]) = Inr (v, r)" using "3.prems" s k c p f by (simp add: fields_loop.psimps [OF d3])
    then have "length r < length fs" using "3.IH"(2) [OF s _ k refl c _ p refl f True] by simp
    then show ?thesis using fs by simp
  next
    case False
    then have "f = 0x7D \<and> fs = r" using "3.prems" s k c p f by (simp add: fields_loop.psimps [OF d3] split: if_splits)
    then show ?thesis using fs by simp
  qed
qed

lemma skip_ws_Cons_sym: "c # cs = skip_ws b \<Longrightarrow> length cs < length b"
  by (metis skip_ws_Cons)

lemma skip_ws_inner: "c # cs = skip_ws b \<Longrightarrow> length (skip_ws cs) < length b"
  using skip_ws_Cons_sym [of c cs b] skip_ws_length [of cs] by simp

lemma key_rest: "skip_ws b = c # cs \<Longrightarrow> parse_string (c # cs) = Inr (k, r) \<Longrightarrow> skip_ws r = d # ds \<Longrightarrow> length ds < length b"
  using skip_ws_length [of b] parse_string_length [of "c # cs" k r] skip_ws_Cons [of r d ds] by simp

lemma value_rest:
  "parse_value_items_loop_fields_loop_dom (Inl b) \<Longrightarrow> parse_value b = Inr (v, r) \<Longrightarrow> skip_ws r = c # cs \<Longrightarrow> length cs < length b"
  using parser_consumes(1) [of b v r] skip_ws_Cons [of r c cs] by simp

termination parse_value
proof (relation "measures [\<lambda>x. case x of Inl b \<Rightarrow> length b | Inr (Inl (b, _)) \<Rightarrow> length b | Inr (Inr (b, _)) \<Rightarrow> length b,
    \<lambda>x. case x of Inl _ \<Rightarrow> 0 | _ \<Rightarrow> 1]", goal_cases)
  case (8 b fields x21 x22 ba x y x21a x22a)
  then show ?case using key_rest [of b 34 x22 x y 58 x22a] by simp
next
  case (9 b fields x21 x22 ba x y x21a x22a bb xa ya x21b x22b)
  then show ?case using key_rest [of b 34 x22 x y 58 x22a] value_rest [of x22a xa ya 44 x22b] by simp
qed (auto dest: skip_ws_inner value_rest skip_ws_Cons_sym)

text \<open>Trailing white space is allowed behind the value, anything else is an error.\<close>

definition json_parse :: "bytes \<Rightarrow> rstring + json" where
  "json_parse b =
     (case parse_value b of
        Inl e \<Rightarrow> Inl e
      | Inr (v, r) \<Rightarrow> if skip_ws r = [] then Inr v else Inl (lit ''trailing data after JSON value''))"

definition write_to_string :: "json \<Rightarrow> rstring" where
  "write_to_string j = json_write j"

lemmas parser_simps [simp del] = parse_value.simps items_loop.simps fields_loop.simps

end
