(* ===== verification/Fleet.thy ===== *)
theory Fleet
  imports Mux Spsc_Ring Json
begin

text \<open>
  The fleet orchestrator of the cloud crate (fleet.rs) and the media fan-out it keeps per unit
  (sfu.rs). The transport to the units and the session recorder are traits: their calls are
  parameters on arbitrary states \<open>'t\<close> and \<open>'r\<close>. A weak reference to a subscriber's ring is the ring
  itself while the subscriber holds it, and \<open>None\<close> once it was dropped. The wall clock is an argument.
\<close>

section \<open>Selective fan-out (sfu.rs)\<close>

definition MAX_MEDIA :: nat where "MAX_MEDIA = MAX_PAYLOAD"

record media_frame =
  md_channel :: u8
  md_seq :: u64
  md_len :: u16
  md_payload :: bytes

definition media_new :: "u8 \<Rightarrow> u64 \<Rightarrow> bytes \<Rightarrow> media_frame" where
  "media_new ch seq payload =
     (let n = min (length payload) MAX_MEDIA
      in \<lparr>md_channel = ch, md_seq = seq, md_len = word_of_nat n,
          md_payload = write_at 0 (take n payload) (replicate MAX_MEDIA 0)\<rparr>)"

definition media_bytes :: "media_frame \<Rightarrow> bytes" where
  "media_bytes f = take (unat (md_len f)) (md_payload f)"

record sfu_fanout =
  sfu_next :: u64
  sfu_subs :: "(u64 \<times> media_frame spsc_ring option) list"

definition sfu_new :: sfu_fanout where
  "sfu_new = \<lparr>sfu_next = 1, sfu_subs = []\<rparr>"

definition sfu_subscribe :: "usize \<Rightarrow> sfu_fanout \<Rightarrow> u64 \<times> sfu_fanout" where
  "sfu_subscribe capacity s =
     (let sid = sfu_next s; ring = with_capacity (max capacity 1)
      in (sid, s\<lparr>sfu_next := sfu_next s + 1,
            sfu_subs := filter (\<lambda>(i, _). i \<noteq> sid) (sfu_subs s) @ [(sid, Some ring)]\<rparr>))"

definition sfu_unsubscribe :: "u64 \<Rightarrow> sfu_fanout \<Rightarrow> sfu_fanout" where
  "sfu_unsubscribe sid s = s\<lparr>sfu_subs := filter (\<lambda>(i, _). i \<noteq> sid) (sfu_subs s)\<rparr>"

definition sfu_subscriber_count :: "sfu_fanout \<Rightarrow> nat" where
  "sfu_subscriber_count s = length (filter (\<lambda>(_, w). w \<noteq> None) (sfu_subs s))"

fun publish_subs :: "media_frame \<Rightarrow> (u64 \<times> media_frame spsc_ring option) list \<Rightarrow>
    nat \<times> (u64 \<times> media_frame spsc_ring option) list" where
  "publish_subs fr [] = (0, [])"
| "publish_subs fr ((sid, w) # rest) =
     (case publish_subs fr rest of (delivered, rest') \<Rightarrow>
        (case w of
           Some ring \<Rightarrow> (case ring_push ring fr of
               (Inr _, ring') \<Rightarrow> (delivered + 1, (sid, Some ring') # rest')
             | (Inl _, ring') \<Rightarrow> (delivered, (sid, Some ring') # rest'))
         | None \<Rightarrow> (delivered, rest')))"

definition sfu_publish :: "media_frame \<Rightarrow> sfu_fanout \<Rightarrow> nat \<times> sfu_fanout" where
  "sfu_publish fr s = (case publish_subs fr (sfu_subs s) of (n, subs) \<Rightarrow> (n, s\<lparr>sfu_subs := subs\<rparr>))"

section \<open>The fleet (fleet.rs)\<close>

datatype cloud_error = CloudIo io_error | CloudJson rstring | CloudHttp rstring | NotFound u64
  | AlreadyExists u64 | ModeDisallowed mode mode | Transport socket_addr io_error | RecorderError io_error
  | Unsupported rstring

record 'r unit_state =
  us_id :: u64
  us_addr :: socket_addr
  us_mode :: mode
  us_assigned_operator :: "rstring option"
  us_last_seq :: u64
  us_cmd_seq :: u64
  us_created_ns :: u64
  us_last_seen_ns :: u64
  us_sfu :: sfu_fanout
  us_recorder :: 'r

record ('r, 't) fleet =
  fl_units :: "u64 \<rightharpoonup> 'r unit_state"
  fl_transport :: 't
  fl_table :: transition_table
  fl_record_dir :: "rstring option"

definition fleet_new :: "'t \<Rightarrow> ('r, 't) fleet" where
  "fleet_new tr = \<lparr>fl_units = Map.empty, fl_transport = tr, fl_table = spec_default, fl_record_dir = None\<rparr>"

definition set_record_dir :: "rstring \<Rightarrow> ('r, 't) fleet \<Rightarrow> ('r, 't) fleet" where
  "set_record_dir dir f = f\<lparr>fl_record_dir := Some dir\<rparr>"

definition unit_new :: "u64 \<Rightarrow> socket_addr \<Rightarrow> u64 \<Rightarrow> 'r \<Rightarrow> 'r unit_state" where
  "unit_new uid addr now rec = \<lparr>us_id = uid, us_addr = addr, us_mode = Assist, us_assigned_operator = None,
     us_last_seq = 0, us_cmd_seq = 0, us_created_ns = now, us_last_seen_ns = now, us_sfu = sfu_new, us_recorder = rec\<rparr>"

definition register_unit :: "u64 \<Rightarrow> socket_addr \<Rightarrow> 'r \<Rightarrow> u64 \<Rightarrow> ('r, 't) fleet \<Rightarrow> (cloud_error + unit) \<times> ('r, 't) fleet" where
  "register_unit uid addr rec now f =
     (if fl_units f uid \<noteq> None then (Inl (AlreadyExists uid), f)
      else (Inr (), f\<lparr>fl_units := (fl_units f)(uid \<mapsto> unit_new uid addr now rec)\<rparr>))"

text \<open>\<open>mk_rec\<close> makes the recorder of a new unit: from the record directory, or one that discards.\<close>

definition provision :: "(rstring option \<Rightarrow> u64 \<Rightarrow> 'r) \<Rightarrow> u64 \<Rightarrow> socket_addr \<Rightarrow> u64 \<Rightarrow> ('r, 't) fleet \<Rightarrow> ('r, 't) fleet" where
  "provision mk_rec uid addr now f =
     (case fl_units f uid of
        Some u \<Rightarrow> f\<lparr>fl_units := (fl_units f)(uid \<mapsto> u\<lparr>us_addr := addr, us_last_seen_ns := now\<rparr>)\<rparr>
      | None \<Rightarrow> f\<lparr>fl_units := (fl_units f)(uid \<mapsto> unit_new uid addr now (mk_rec (fl_record_dir f) uid))\<rparr>)"

definition assign :: "u64 \<Rightarrow> rstring \<Rightarrow> ('r, 't) fleet \<Rightarrow> (cloud_error + unit) \<times> ('r, 't) fleet" where
  "assign uid operator f =
     (case fl_units f uid of
        None \<Rightarrow> (Inl (NotFound uid), f)
      | Some u \<Rightarrow> (Inr (), f\<lparr>fl_units := (fl_units f)(uid \<mapsto> u\<lparr>us_assigned_operator := Some operator\<rparr>)\<rparr>))"

definition path_via :: "transition_table \<Rightarrow> mode \<Rightarrow> mode \<Rightarrow> mode list option" where
  "path_via tbl src dst =
     (if src = dst then Some []
      else if allows tbl src dst then Some [dst]
      else if src \<noteq> Assist \<and> dst \<noteq> Assist \<and> allows tbl src Assist \<and> allows tbl Assist dst then Some [Assist, dst]
      else None)"

definition make_command :: "mode \<Rightarrow> u64 \<Rightarrow> u64 \<Rightarrow> control_command" where
  "make_command m seq now = (command_zeroed m)\<lparr>cmd_seq := seq, cmd_timestamp_ns := now\<rparr>"

text \<open>The loop of \<open>set_mode\<close> over the segments of the path; the clock is read for each command.\<close>

fun send_path :: "(socket_addr \<Rightarrow> control_command \<Rightarrow> 't \<Rightarrow> (io_error + unit) \<times> 't) \<Rightarrow> (mode \<Rightarrow> u64) \<Rightarrow> socket_addr \<Rightarrow>
    mode list \<Rightarrow> 'r unit_state \<Rightarrow> 't \<Rightarrow> (cloud_error + unit) \<times> 'r unit_state \<times> 't" where
  "send_path send clock addr [] u tr = (Inr (), u, tr)"
| "send_path send clock addr (nxt # path) u tr =
     (case send addr (make_command nxt (us_cmd_seq u) (clock nxt)) tr of
        (Inl e, tr') \<Rightarrow> (Inl (Transport addr e), u, tr')
      | (Inr _, tr') \<Rightarrow> send_path send clock addr path (u\<lparr>us_mode := nxt, us_cmd_seq := us_cmd_seq u + 1\<rparr>) tr')"

definition set_mode :: "(socket_addr \<Rightarrow> control_command \<Rightarrow> 't \<Rightarrow> (io_error + unit) \<times> 't) \<Rightarrow> (mode \<Rightarrow> u64) \<Rightarrow>
    u64 \<Rightarrow> mode \<Rightarrow> ('r, 't) fleet \<Rightarrow> (cloud_error + unit) \<times> ('r, 't) fleet" where
  "set_mode send clock uid target f =
     (case fl_units f uid of
        None \<Rightarrow> (Inl (NotFound uid), f)
      | Some u \<Rightarrow> (case path_via (fl_table f) (us_mode u) target of
          None \<Rightarrow> (Inl (ModeDisallowed (us_mode u) target), f)
        | Some path \<Rightarrow> (case send_path send clock (us_addr u) path u (fl_transport f) of
            (r, u', tr) \<Rightarrow> (r, f\<lparr>fl_units := (fl_units f)(uid \<mapsto> u'), fl_transport := tr\<rparr>))))"

definition engage_autonomy :: "(socket_addr \<Rightarrow> control_command \<Rightarrow> 't \<Rightarrow> (io_error + unit) \<times> 't) \<Rightarrow> (mode \<Rightarrow> u64) \<Rightarrow>
    u64 \<Rightarrow> ('r, 't) fleet \<Rightarrow> (cloud_error + unit) \<times> ('r, 't) fleet" where
  "engage_autonomy send clock uid f = set_mode send clock uid Auto f"

definition take_manual_control :: "(socket_addr \<Rightarrow> control_command \<Rightarrow> 't \<Rightarrow> (io_error + unit) \<times> 't) \<Rightarrow> (mode \<Rightarrow> u64) \<Rightarrow>
    u64 \<Rightarrow> ('r, 't) fleet \<Rightarrow> (cloud_error + unit) \<times> ('r, 't) fleet" where
  "take_manual_control send clock uid f = set_mode send clock uid FullTeleop f"

definition ingest :: "(rstring option \<Rightarrow> u64 \<Rightarrow> 'r) \<Rightarrow> (u8 \<Rightarrow> u64 \<Rightarrow> bytes \<Rightarrow> 'r \<Rightarrow> (io_error + unit) \<times> 'r) \<Rightarrow>
    u64 \<Rightarrow> socket_addr \<Rightarrow> u8 \<Rightarrow> u64 \<Rightarrow> bytes \<Rightarrow> u64 \<Rightarrow> u64 \<Rightarrow> ('r, 't) fleet \<Rightarrow> (cloud_error + unit) \<times> ('r, 't) fleet" where
  "ingest mk_rec rec_frame uid addr ch seq payload now1 now2 f =
     (let f1 = provision mk_rec uid addr now1 f in
      case fl_units f1 uid of
        None \<Rightarrow> (Inl (NotFound uid), f1)
      | Some u \<Rightarrow>
          let u1 = u\<lparr>us_last_seq := seq, us_last_seen_ns := now2\<rparr> in
          (case rec_frame ch seq payload (us_recorder u1) of
             (Inl e, r) \<Rightarrow> (Inl (RecorderError e), f1\<lparr>fl_units := (fl_units f1)(uid \<mapsto> u1\<lparr>us_recorder := r\<rparr>)\<rparr>)
           | (Inr _, r) \<Rightarrow>
               let sfu = snd (sfu_publish (media_new ch seq payload) (us_sfu u1))
               in (Inr (), f1\<lparr>fl_units := (fl_units f1)(uid \<mapsto> u1\<lparr>us_recorder := r, us_sfu := sfu\<rparr>)\<rparr>)))"

definition attach_subscriber :: "u64 \<Rightarrow> usize \<Rightarrow> ('r, 't) fleet \<Rightarrow> (cloud_error + u64) \<times> ('r, 't) fleet" where
  "attach_subscriber uid capacity f =
     (case fl_units f uid of
        None \<Rightarrow> (Inl (NotFound uid), f)
      | Some u \<Rightarrow> (case sfu_subscribe capacity (us_sfu u) of
          (sid, sfu) \<Rightarrow> (Inr sid, f\<lparr>fl_units := (fl_units f)(uid \<mapsto> u\<lparr>us_sfu := sfu\<rparr>)\<rparr>)))"

definition fleet_subscriber_count :: "u64 \<Rightarrow> ('r, 't) fleet \<Rightarrow> cloud_error + nat" where
  "fleet_subscriber_count uid f =
     (case fl_units f uid of None \<Rightarrow> Inl (NotFound uid) | Some u \<Rightarrow> Inr (sfu_subscriber_count (us_sfu u)))"

definition parse_mode :: "rstring \<Rightarrow> mode option" where
  "parse_mode nm =
     (let s = map ascii_lower nm in
      if s = lit ''auto'' then Some Auto
      else if s = lit ''assist'' then Some Assist
      else if s = lit ''teleop'' \<or> s = lit ''fullteleop'' \<or> s = lit ''full_teleop'' then Some FullTeleop
      else if s = lit ''estop'' \<or> s = lit ''emergency'' \<or> s = lit ''emergencystop'' then Some EmergencyStop
      else None)"

text \<open>Snapshots for the dashboard. \<open>n_frames\<close> counts what a recorder has stored and \<open>show_addr\<close> prints an
  address; the order in which a hash map lists its entries is the argument \<open>order\<close>.\<close>

record unit_info =
  ui_id :: u64
  ui_addr :: rstring
  ui_mode :: rstring
  ui_assigned_operator :: "rstring option"
  ui_last_seq :: u64
  ui_frames_recorded :: u64
  ui_subscribers :: nat
  ui_last_seen_ns :: u64

definition unit_info_of :: "('r \<Rightarrow> u64) \<Rightarrow> (socket_addr \<Rightarrow> rstring) \<Rightarrow> 'r unit_state \<Rightarrow> unit_info" where
  "unit_info_of n_frames show_addr u =
     \<lparr>ui_id = us_id u, ui_addr = show_addr (us_addr u), ui_mode = lit (mode_name (us_mode u)),
      ui_assigned_operator = us_assigned_operator u, ui_last_seq = us_last_seq u,
      ui_frames_recorded = n_frames (us_recorder u), ui_subscribers = sfu_subscriber_count (us_sfu u),
      ui_last_seen_ns = us_last_seen_ns u\<rparr>"

definition info_to_json :: "unit_info \<Rightarrow> json" where
  "info_to_json i = json_obj
     [(''id'', json_uint (ui_id i)), (''addr'', Str (ui_addr i)), (''mode'', Str (ui_mode i)),
      (''assigned_operator'', (case ui_assigned_operator i of Some o' \<Rightarrow> Str o' | None \<Rightarrow> Null)),
      (''last_seq'', json_uint (ui_last_seq i)), (''frames_recorded'', json_uint (ui_frames_recorded i)),
      (''subscribers'', json_uint (word_of_nat (ui_subscribers i))), (''last_seen_ns'', json_uint (ui_last_seen_ns i))]"

definition list_units :: "('r \<Rightarrow> u64) \<Rightarrow> (socket_addr \<Rightarrow> rstring) \<Rightarrow> ((u64 \<rightharpoonup> 'r unit_state) \<Rightarrow> u64 list) \<Rightarrow>
    ('r, 't) fleet \<Rightarrow> unit_info list" where
  "list_units n_frames show_addr order f =
     map (unit_info_of n_frames show_addr) (List.map_filter (fl_units f) (order (fl_units f)))"

definition fleet_get :: "u64 \<Rightarrow> ('r, 't) fleet \<Rightarrow> 'r unit_state option" where
  "fleet_get uid f = fl_units f uid"

text \<open>The text of an error; \<open>show_io\<close> is the text of an input-output error.\<close>

definition cloud_error_fmt :: "(io_error \<Rightarrow> rstring) \<Rightarrow> (socket_addr \<Rightarrow> rstring) \<Rightarrow> cloud_error \<Rightarrow> rstring" where
  "cloud_error_fmt show_io show_addr e =
     (case e of
        CloudIo e \<Rightarrow> lit ''io error: '' @ show_io e
      | CloudJson e \<Rightarrow> lit ''json error: '' @ e
      | CloudHttp e \<Rightarrow> lit ''http error: '' @ e
      | NotFound uid \<Rightarrow> lit ''unit '' @ show_dec (unat uid) @ lit '' not found''
      | AlreadyExists uid \<Rightarrow> lit ''unit '' @ show_dec (unat uid) @ lit '' already exists''
      | ModeDisallowed src dst \<Rightarrow>
          lit ''mode transition '' @ lit (mode_name src) @ lit '' -> '' @ lit (mode_name dst) @ lit '' not permitted''
      | Transport addr e \<Rightarrow> lit ''transport error: '' @ show_addr addr @ lit '': '' @ show_io e
      | RecorderError e \<Rightarrow> lit ''recorder error: '' @ show_io e
      | Unsupported msg \<Rightarrow> lit ''unsupported: '' @ msg)"

section \<open>Staged mode changes\<close>

text \<open>Each step of a path is an edge of the table.\<close>

fun legal_path :: "transition_table \<Rightarrow> mode \<Rightarrow> mode list \<Rightarrow> bool" where
  "legal_path tbl m [] = True"
| "legal_path tbl m (n # ns) = (allows tbl m n \<and> legal_path tbl n ns)"

lemma path_via_legal:
  "path_via tbl m n = Some path \<Longrightarrow> legal_path tbl m path \<and> last (m # path) = n"
  by (auto simp: path_via_def split: if_splits)

lemma path_via_none: "path_via tbl m n = None \<Longrightarrow> m \<noteq> n \<and> \<not> allows tbl m n"
  by (auto simp: path_via_def split: if_splits)

lemma send_path_prefix:
  assumes "send_path send clock addr path u tr = (r, u', tr')"
  shows "\<exists>sent rest. path = sent @ rest \<and> us_mode u' = last (us_mode u # sent) \<and>
    us_cmd_seq u' = us_cmd_seq u + word_of_nat (length sent) \<and> (r = Inr () \<longleftrightarrow> rest = [])"
  using assms
proof (induction path arbitrary: u tr)
  case (Cons nxt path)
  show ?case
  proof (cases "send addr (make_command nxt (us_cmd_seq u) (clock nxt)) tr")
    case (Pair res tr1)
    show ?thesis
    proof (cases res)
      case (Inl e)
      then show ?thesis using Cons.prems Pair by (intro exI [of _ "[]"] exI [of _ "nxt # path"]) auto
    next
      case (Inr x)
      then have "send_path send clock addr path (u\<lparr>us_mode := nxt, us_cmd_seq := us_cmd_seq u + 1\<rparr>) tr1 = (r, u', tr')"
        using Cons.prems Pair by simp
      from Cons.IH [OF this] obtain sent rest where "path = sent @ rest" "us_mode u' = last (nxt # sent)"
          "us_cmd_seq u' = us_cmd_seq u + 1 + word_of_nat (length sent)" "r = Inr () \<longleftrightarrow> rest = []" by auto
      then show ?thesis by (intro exI [of _ "nxt # sent"] exI [of _ rest]) (simp add: ac_simps)
    qed
  qed
qed simp

text \<open>A transport that records what it is asked to send: \<open>CapturingTransport\<close>.\<close>

definition capturing_send :: "socket_addr \<Rightarrow> control_command \<Rightarrow> (socket_addr \<times> control_command) list \<Rightarrow>
    (io_error + unit) \<times> (socket_addr \<times> control_command) list" where
  "capturing_send addr cmd sent = (Inr (), sent @ [(addr, cmd)])"

lemma send_path_captured:
  "send_path capturing_send clock addr path u tr = (r, u', tr') \<Longrightarrow>
     r = Inr () \<and> map (cmd_mode \<circ> snd) tr' = map (cmd_mode \<circ> snd) tr @ map as_u8 path"
  by (induction path arbitrary: u tr)
    (auto simp: capturing_send_def make_command_def command_zeroed_def simp del: as_u8.simps)

section \<open>Properties\<close>

text \<open>Staged mode change: a request for a known unit either names a mode the table cannot reach,
  directly or through \<open>Assist\<close>, and then changes nothing, or sends commands along a legal path to the
  target. The cloud's view of the mode is that of the last command the transport took, the sequence
  number counts these commands, and the request succeeds exactly when the whole path was sent. No
  other unit is touched.\<close>

theorem fleet_set_mode_staged:
  assumes "fl_units f uid = Some u" and "set_mode send clock uid target f = (r, f')"
  shows "(path_via (fl_table f) (us_mode u) target = None \<and> r = Inl (ModeDisallowed (us_mode u) target) \<and> f' = f) \<or>
    (\<exists>sent rest u'. path_via (fl_table f) (us_mode u) target = Some (sent @ rest) \<and>
      legal_path (fl_table f) (us_mode u) (sent @ rest) \<and> last (us_mode u # sent @ rest) = target \<and>
      fl_units f' = (fl_units f)(uid \<mapsto> u') \<and> us_mode u' = last (us_mode u # sent) \<and>
      us_cmd_seq u' = us_cmd_seq u + word_of_nat (length sent) \<and> (r = Inr () \<longleftrightarrow> rest = []))"
proof (cases "path_via (fl_table f) (us_mode u) target")
  case None
  then show ?thesis using assms by (simp add: set_mode_def)
next
  case (Some path)
  obtain r1 u' tr where s: "send_path send clock (us_addr u) path u (fl_transport f) = (r1, u', tr)" by (metis prod_cases3)
  obtain sent rest where p: "path = sent @ rest" "us_mode u' = last (us_mode u # sent)"
      "us_cmd_seq u' = us_cmd_seq u + word_of_nat (length sent)" "r1 = Inr () \<longleftrightarrow> rest = []"
    using send_path_prefix [OF s] by blast
  have "r = r1" "fl_units f' = (fl_units f)(uid \<mapsto> u')" using assms Some s by (auto simp: set_mode_def)
  then show ?thesis using Some p path_via_legal [OF Some] by blast
qed

theorem fleet_set_mode_staged_witness:
  "let f = snd (register_unit 5 (SocketV4 1 2) () 9 (fleet_new []));
       (r, f') = set_mode capturing_send (\<lambda>_. 3) 5 FullTeleop f
   in r = Inr () \<and> map (cmd_mode \<circ> snd) (fl_transport f') = [2] \<and> map_option us_mode (fl_units f' 5) = Some FullTeleop"
proof -
  define f where "f = snd (register_unit 5 (SocketV4 1 2) () 9 (fleet_new [] :: (unit, (socket_addr \<times> control_command) list) fleet))"
  have u: "fl_units f 5 = Some (unit_new 5 (SocketV4 1 2) 9 ())" and t: "fl_table f = spec_default" "fl_transport f = []"
    by (simp_all add: f_def register_unit_def fleet_new_def)
  have path: "path_via (fl_table f) (us_mode (unit_new 5 (SocketV4 1 2) 9 ())) FullTeleop = Some [FullTeleop]"
    by (simp add: path_via_def t unit_new_def spec_default_edges spec_edge_def)
  obtain r f' where s: "set_mode capturing_send (\<lambda>_. 3) 5 FullTeleop f = (r, f')" by fastforce
  obtain r1 u1 tr where sp: "send_path capturing_send (\<lambda>_. 3) (SocketV4 1 2) [FullTeleop] (unit_new 5 (SocketV4 1 2) 9 ()) [] = (r1, u1, tr)"
    by (metis prod_cases3)
  have "r = r1" "fl_transport f' = tr" using s u path sp t(2) by (auto simp: set_mode_def unit_new_def)
  moreover have "r1 = Inr ()" "map (cmd_mode \<circ> snd) tr = [2]" using send_path_captured [OF sp] by simp_all
  moreover have "map_option us_mode (fl_units f' 5) = Some FullTeleop"
    using fleet_set_mode_staged [OF u s] path \<open>r = r1\<close> \<open>r1 = Inr ()\<close> by auto
  ultimately show ?thesis unfolding Let_def f_def [symmetric] s by simp
qed

end
