(* ===== verification/Secure_Session.thy ===== *)
theory Secure_Session
  imports Security Mux Spsc_Ring
begin

text \<open>
  Encrypted sessions of the security crate: the AEAD box with its nonce counter (cipher.rs), the
  mutually attested key agreement (session.rs), the encrypted multiplexer (link.rs) and the fleet
  dispatch gate (cloud.rs).

  The cryptographic packages are third-party code: AES-GCM and ChaCha20-Poly1305, X25519, HKDF and
  Ed25519 are the fields of \<open>primitives\<close>, an argument of the definitions, and \<open>primitives_ok\<close> states
  what the sources rely on. Bytes drawn from the operating system are arguments, \<open>None\<close> for a failed
  draw. The outer option of the operations that call \<open>expect\<close> is \<open>None\<close> where they panic.
\<close>

section \<open>AEAD box (cipher.rs)\<close>

definition NONCE_LEN :: nat where "NONCE_LEN = 12"
definition TAG_LEN :: nat where "TAG_LEN = 16"
definition MAX_SECURE_BLOCK :: nat where "MAX_SECURE_BLOCK = 256"

lemmas cipher_consts = NONCE_LEN_def TAG_LEN_def MAX_SECURE_BLOCK_def

datatype cipher_suite = Aes256Gcm | ChaCha20Poly1305

definition suite_overhead :: "cipher_suite \<Rightarrow> nat" where
  "suite_overhead s = NONCE_LEN + TAG_LEN"

definition suite_all :: "cipher_suite list" where
  "suite_all = [Aes256Gcm, ChaCha20Poly1305]"

definition negotiate :: "cipher_suite list \<Rightarrow> cipher_suite list \<Rightarrow> cipher_suite option" where
  "negotiate ours theirs = List.find (\<lambda>s. s \<in> set theirs) ours"

text \<open>The cipher object that a suite's \<open>new_from_slice\<close> returns is its key.\<close>

datatype inner = Aes bytes | Cha bytes

record 'k primitives =
  aes_new :: "bytes \<Rightarrow> bytes option"
  cha_new :: "bytes \<Rightarrow> bytes option"
  aes_encrypt :: "bytes \<Rightarrow> bytes \<Rightarrow> bytes \<Rightarrow> bytes \<Rightarrow> (bytes \<times> bytes) option"
  aes_decrypt :: "bytes \<Rightarrow> bytes \<Rightarrow> bytes \<Rightarrow> bytes \<Rightarrow> bytes \<Rightarrow> bytes option"
  cha_encrypt :: "bytes \<Rightarrow> bytes \<Rightarrow> bytes \<Rightarrow> bytes \<Rightarrow> (bytes \<times> bytes) option"
  cha_decrypt :: "bytes \<Rightarrow> bytes \<Rightarrow> bytes \<Rightarrow> bytes \<Rightarrow> bytes \<Rightarrow> bytes option"
  x_public :: "bytes \<Rightarrow> bytes"
  x_diffie_hellman :: "bytes \<Rightarrow> bytes \<Rightarrow> bytes"
  hkdf_expand :: "bytes \<Rightarrow> bytes \<Rightarrow> bytes option"
  ed_sign :: "'k \<Rightarrow> bytes \<Rightarrow> bytes"
  ed_verify :: "bytes \<Rightarrow> bytes \<Rightarrow> bytes \<Rightarrow> bool"

definition build_inner :: "'k primitives \<Rightarrow> cipher_suite \<Rightarrow> bytes \<Rightarrow> sec_error + inner" where
  "build_inner P s key =
     (case s of
        Aes256Gcm \<Rightarrow> (case aes_new P key of Some k \<Rightarrow> Inr (Aes k) | None \<Rightarrow> Inl InvalidKeyLength)
      | ChaCha20Poly1305 \<Rightarrow> (case cha_new P key of Some k \<Rightarrow> Inr (Cha k) | None \<Rightarrow> Inl InvalidKeyLength))"

record crypto_box =
  cb_key :: inner
  cb_suite :: cipher_suite
  cb_ctr :: u64
  cb_salt :: bytes

definition crypto_new :: "'k primitives \<Rightarrow> cipher_suite \<Rightarrow> bytes \<Rightarrow> bytes option \<Rightarrow> sec_error + crypto_box" where
  "crypto_new P s key salt =
     (case build_inner P s key of
        Inl e \<Rightarrow> Inl e
      | Inr k \<Rightarrow> (case salt of
            None \<Rightarrow> Inl KeyGen
          | Some sa \<Rightarrow> Inr \<lparr>cb_key = k, cb_suite = s, cb_ctr = 0, cb_salt = sa\<rparr>))"

definition from_kdf :: "'k primitives \<Rightarrow> cipher_suite \<Rightarrow> bytes \<Rightarrow> bytes option \<Rightarrow> (sec_error + crypto_box) option" where
  "from_kdf P s kdf salt =
     (case build_inner P s kdf of
        Inl e \<Rightarrow> None
      | Inr k \<Rightarrow> Some (case salt of
            None \<Rightarrow> Inl KeyGen
          | Some sa \<Rightarrow> Inr \<lparr>cb_key = k, cb_suite = s, cb_ctr = 0, cb_salt = sa\<rparr>))"

definition box_overhead :: "crypto_box \<Rightarrow> nat" where
  "box_overhead b = suite_overhead (cb_suite b)"

definition next_nonce :: "crypto_box \<Rightarrow> bytes \<times> crypto_box" where
  "next_nonce b = (let v = cb_ctr b in (le_bytes 8 v @ cb_salt b, b\<lparr>cb_ctr := v + 1\<rparr>))"

definition inner_encrypt :: "'k primitives \<Rightarrow> inner \<Rightarrow> bytes \<Rightarrow> bytes \<Rightarrow> bytes \<Rightarrow> (bytes \<times> bytes) option" where
  "inner_encrypt P k n aad ct = (case k of Aes c \<Rightarrow> aes_encrypt P c n aad ct | Cha c \<Rightarrow> cha_encrypt P c n aad ct)"

definition inner_decrypt :: "'k primitives \<Rightarrow> inner \<Rightarrow> bytes \<Rightarrow> bytes \<Rightarrow> bytes \<Rightarrow> bytes \<Rightarrow> bytes option" where
  "inner_decrypt P k n aad ct tag =
     (case k of Aes c \<Rightarrow> aes_decrypt P c n aad ct tag | Cha c \<Rightarrow> cha_decrypt P c n aad ct tag)"

text \<open>An error leaves the caller's buffer as it happens to be, and no caller reads it; the model returns
  the buffer with a success only.\<close>

definition seal_into ::
    "'k primitives \<Rightarrow> crypto_box \<Rightarrow> bytes \<Rightarrow> bytes \<Rightarrow> bytes \<Rightarrow> (sec_error + nat \<times> bytes) \<times> crypto_box" where
  "seal_into P b plaintext aad out =
     (let need = NONCE_LEN + length plaintext + TAG_LEN in
      if length out < need then (Inl BufferTooSmall, b)
      else
        let (nonce, b') = next_nonce b;
            out1 = write_at 0 nonce out;
            out2 = write_at NONCE_LEN plaintext out1;
            ct = take (length plaintext) (drop NONCE_LEN out2)
        in case inner_encrypt P (cb_key b') nonce aad ct of
             None \<Rightarrow> (Inl Crypto, b')
           | Some (ct', tag) \<Rightarrow>
               (Inr (need, write_at (NONCE_LEN + length plaintext) tag (write_at NONCE_LEN ct' out2)), b'))"

definition seal_to_vec ::
    "'k primitives \<Rightarrow> crypto_box \<Rightarrow> bytes \<Rightarrow> bytes \<Rightarrow> (sec_error + bytes) \<times> crypto_box" where
  "seal_to_vec P b plaintext aad =
     (case seal_into P b plaintext aad (replicate (NONCE_LEN + length plaintext + TAG_LEN) 0) of
        (Inl e, b') \<Rightarrow> (Inl e, b')
      | (Inr (n, out), b') \<Rightarrow> (Inr (take n out), b'))"

definition open_in_place :: "'k primitives \<Rightarrow> crypto_box \<Rightarrow> bytes \<Rightarrow> bytes \<Rightarrow> sec_error + nat \<times> bytes" where
  "open_in_place P b buf aad =
     (if length buf < NONCE_LEN + TAG_LEN then Inl Crypto
      else
        let pt_len = length buf - NONCE_LEN - TAG_LEN;
            nonce = take NONCE_LEN buf;
            ct = take pt_len (drop NONCE_LEN buf);
            tag = drop pt_len (drop NONCE_LEN buf)
        in case inner_decrypt P (cb_key b) nonce aad ct tag of
             None \<Rightarrow> Inl Crypto
           | Some pt \<Rightarrow>
               let buf1 = write_at NONCE_LEN pt buf
               in Inr (pt_len, write_at 0 (take pt_len (drop NONCE_LEN buf1)) buf1))"

definition open_into :: "'k primitives \<Rightarrow> crypto_box \<Rightarrow> bytes \<Rightarrow> bytes \<Rightarrow> bytes \<Rightarrow> sec_error + nat \<times> bytes" where
  "open_into P b sealed aad out =
     (if length sealed < NONCE_LEN + TAG_LEN then Inl Crypto
      else
        let pt_len = length sealed - NONCE_LEN - TAG_LEN in
        if length out < pt_len then Inl BufferTooSmall
        else
          (case open_in_place P b sealed aad of
             Inl e \<Rightarrow> Inl e
           | Inr (n, work) \<Rightarrow> Inr (n, write_at 0 (take n work) out)))"

record secure_block =
  sb_buf :: bytes
  sb_len :: u32

definition block_new :: "nat \<Rightarrow> secure_block" where
  "block_new n = \<lparr>sb_buf = replicate n 0, sb_len = 0\<rparr>"

definition as_slice :: "secure_block \<Rightarrow> bytes" where
  "as_slice b = take (unat (sb_len b)) (sb_buf b)"

definition decrypt_into_ring ::
    "'k primitives \<Rightarrow> nat \<Rightarrow> crypto_box \<Rightarrow> bytes \<Rightarrow> bytes \<Rightarrow> secure_block spsc_ring \<Rightarrow>
     (sec_error + nat) \<times> secure_block spsc_ring" where
  "decrypt_into_ring P N b sealed aad ring =
     (if length sealed > N then (Inl BufferTooSmall, ring)
      else
        let block = block_new N;
            buf = write_at 0 sealed (sb_buf block)
        in case open_in_place P b (take (length sealed) buf) aad of
             Inl e \<Rightarrow> (Inl e, ring)
           | Inr (pt, opened) \<Rightarrow>
               (case ring_push ring \<lparr>sb_buf = write_at 0 opened buf, sb_len = word_of_nat pt\<rparr> of
                  (Inl _, ring') \<Rightarrow> (Inl RingFull, ring')
                | (Inr _, ring') \<Rightarrow> (Inr pt, ring')))"

section \<open>Handshake and session (session.rs)\<close>

record handshake_init =
  hi_attestation :: attestation
  hi_suites :: "cipher_suite list"

record handshake_resp =
  hr_attestation :: attestation
  hr_suite :: cipher_suite

record pending_handshake =
  ph_eph :: bytes

record secure_session =
  ss_peer_id :: u64
  ss_peer_role :: role
  ss_crypto :: crypto_box
  ss_suite :: cipher_suite

definition session_seal ::
    "'k primitives \<Rightarrow> secure_session \<Rightarrow> bytes \<Rightarrow> bytes \<Rightarrow> (sec_error + bytes) \<times> secure_session" where
  "session_seal P ss plaintext aad =
     (let (r, b) = seal_to_vec P (ss_crypto ss) plaintext aad in (r, ss\<lparr>ss_crypto := b\<rparr>))"

definition session_open :: "'k primitives \<Rightarrow> secure_session \<Rightarrow> bytes \<Rightarrow> bytes \<Rightarrow> bytes \<Rightarrow> sec_error + nat \<times> bytes" where
  "session_open P ss sealed aad out = open_into P (ss_crypto ss) sealed aad out"

definition HKDF_INFO :: bytes where
  "HKDF_INFO = map of_char ''tpt-teleop-sec-v1''"

definition generate_eph :: "'k primitives \<Rightarrow> bytes option \<Rightarrow> sec_error + bytes \<times> bytes" where
  "generate_eph P seed = (case seed of None \<Rightarrow> Inl KeyGen | Some s \<Rightarrow> Inr (s, x_public P s))"

definition derive_shared :: "'k primitives \<Rightarrow> bytes \<Rightarrow> bytes \<Rightarrow> bytes" where
  "derive_shared P our_eph peer_pub = x_diffie_hellman P our_eph peer_pub"

definition derive_key :: "'k primitives \<Rightarrow> bytes \<Rightarrow> cipher_suite \<Rightarrow> bytes option \<Rightarrow> (sec_error + crypto_box) option" where
  "derive_key P shared s salt =
     (case hkdf_expand P shared HKDF_INFO of None \<Rightarrow> None | Some key \<Rightarrow> from_kdf P s key salt)"

definition begin_handshake ::
    "'k primitives \<Rightarrow> 'k device_identity \<Rightarrow> cipher_suite list \<Rightarrow> bytes option \<Rightarrow>
     sec_error + handshake_init \<times> pending_handshake" where
  "begin_handshake P ident suites seed =
     (case generate_eph P seed of
        Inl e \<Rightarrow> Inl e
      | Inr (eph, eph_pub) \<Rightarrow>
          Inr (\<lparr>hi_attestation = attestation_sign (ed_sign P) ident eph_pub, hi_suites = suites\<rparr>, \<lparr>ph_eph = eph\<rparr>))"

definition respond_handshake ::
    "'k primitives \<Rightarrow> 'k device_identity \<Rightarrow> handshake_init \<Rightarrow> cipher_suite list \<Rightarrow> bytes option \<Rightarrow> bytes option \<Rightarrow>
     (sec_error + handshake_resp \<times> secure_session) option" where
  "respond_handshake P ident init our_suites seed salt =
     (let att = hi_attestation init in
      if \<not> attestation_verify (ed_verify P) att then Some (Inl AttestationFailed)
      else case generate_eph P seed of
        Inl e \<Rightarrow> Some (Inl e)
      | Inr (eph, eph_pub) \<Rightarrow>
          let shared = derive_shared P eph (at_eph_pub att) in
          case negotiate our_suites (hi_suites init) of
            None \<Rightarrow> Some (Inl (Handshake ''no common cipher suite''))
          | Some s \<Rightarrow>
              (case derive_key P shared s salt of
                 None \<Rightarrow> None
               | Some (Inl e) \<Rightarrow> Some (Inl e)
               | Some (Inr crypto) \<Rightarrow>
                   Some (Inr (\<lparr>hr_attestation = attestation_sign (ed_sign P) ident eph_pub, hr_suite = s\<rparr>,
                     \<lparr>ss_peer_id = at_unit_id att, ss_peer_role = at_role att, ss_crypto = crypto, ss_suite = s\<rparr>))))"

definition finish_handshake ::
    "'k primitives \<Rightarrow> pending_handshake \<Rightarrow> handshake_resp \<Rightarrow> bytes option \<Rightarrow> (sec_error + secure_session) option" where
  "finish_handshake P pending resp salt =
     (let att = hr_attestation resp in
      if \<not> attestation_verify (ed_verify P) att then Some (Inl AttestationFailed)
      else case derive_key P (derive_shared P (ph_eph pending) (at_eph_pub att)) (hr_suite resp) salt of
        None \<Rightarrow> None
      | Some (Inl e) \<Rightarrow> Some (Inl e)
      | Some (Inr crypto) \<Rightarrow>
          Some (Inr \<lparr>ss_peer_id = at_unit_id att, ss_peer_role = at_role att, ss_crypto = crypto,
            ss_suite = hr_suite resp\<rparr>))"

section \<open>Encrypted multiplexer (link.rs)\<close>

definition AAD_CONTROL :: bytes where "AAD_CONTROL = map of_char ''tpt-sec-control''"
definition AAD_TELEMETRY :: bytes where "AAD_TELEMETRY = map of_char ''tpt-sec-telemetry''"

record secure_mux =
  sm_mux :: udp_mux
  sm_session :: secure_session

definition sec_error_fmt :: "sec_error \<Rightarrow> string" where
  "sec_error_fmt e = (case e of
       InvalidKeyLength \<Rightarrow> ''invalid key length''
     | Crypto \<Rightarrow> ''cryptographic operation failed''
     | KeyGen \<Rightarrow> ''key generation failed''
     | AttestationFailed \<Rightarrow> ''attestation failed''
     | Handshake s \<Rightarrow> ''handshake failed: '' @ s
     | BufferTooSmall \<Rightarrow> ''buffer too small''
     | RingFull \<Rightarrow> ''ring full''
     | Serialize \<Rightarrow> ''serialize/deserialize failed''
     | UnknownUnit \<Rightarrow> ''unknown unit'')"

text \<open>The socket is a function on an arbitrary network state, \<open>sock dst datagram net\<close>.\<close>

definition send_sealed ::
    "'k primitives \<Rightarrow> (socket_addr \<Rightarrow> bytes \<Rightarrow> 'n \<Rightarrow> (io_error + nat) \<times> 'n) \<Rightarrow> secure_mux \<Rightarrow> bytes \<Rightarrow> bytes \<Rightarrow> u8 \<Rightarrow>
     socket_addr \<Rightarrow> u64 \<Rightarrow> 'n \<Rightarrow> (io_error + nat) \<times> secure_mux \<times> 'n" where
  "send_sealed P sock sm plaintext aad inner dst now_ns net =
     (case session_seal P (sm_session sm) plaintext aad of
        (Inl e, ss) \<Rightarrow> (Inl (OtherError (sec_error_fmt e)), sm\<lparr>sm_session := ss\<rparr>, net)
      | (Inr sealed, ss) \<Rightarrow>
          let sm1 = sm\<lparr>sm_session := ss\<rparr> in
          case write_secure_frame sealed inner (replicate MAX_DATAGRAM 0) of
            Inl e \<Rightarrow> (Inl e, sm1, net)
          | Inr (n, buf) \<Rightarrow>
              let (sent, net') = sock dst (take n buf) net;
                  (r, mx) = send_framed (sm_mux sm1) sent now_ns
              in (case r of Inl e \<Rightarrow> Inl e | Inr _ \<Rightarrow> Inr n, sm1\<lparr>sm_mux := mx\<rparr>, net'))"

definition send_secure_control ::
    "'k primitives \<Rightarrow> codec \<Rightarrow> (socket_addr \<Rightarrow> bytes \<Rightarrow> 'n \<Rightarrow> (io_error + nat) \<times> 'n) \<Rightarrow> secure_mux \<Rightarrow> control_command \<Rightarrow>
     socket_addr \<Rightarrow> u64 \<Rightarrow> 'n \<Rightarrow> (io_error + nat) \<times> secure_mux \<times> 'n" where
  "send_secure_control P cdc sock sm cmd dst now_ns net =
     (case serialize_command cdc cmd of
        None \<Rightarrow> (Inl (OtherError ''serialize''), sm, net)
      | Some bs \<Rightarrow> send_sealed P sock sm bs AAD_CONTROL SECURE_INNER_CONTROL dst now_ns net)"

definition send_secure_telemetry ::
    "'k primitives \<Rightarrow> codec \<Rightarrow> (socket_addr \<Rightarrow> bytes \<Rightarrow> 'n \<Rightarrow> (io_error + nat) \<times> 'n) \<Rightarrow> secure_mux \<Rightarrow> telemetry_packet \<Rightarrow>
     socket_addr \<Rightarrow> u64 \<Rightarrow> 'n \<Rightarrow> (io_error + nat) \<times> secure_mux \<times> 'n" where
  "send_secure_telemetry P cdc sock sm pkt dst now_ns net =
     (case serialize_telemetry cdc pkt of
        None \<Rightarrow> (Inl (OtherError ''serialize''), sm, net)
      | Some bs \<Rightarrow> send_sealed P sock sm bs AAD_TELEMETRY SECURE_INNER_TELEMETRY dst now_ns net)"

definition send_secure_raw ::
    "'k primitives \<Rightarrow> (socket_addr \<Rightarrow> bytes \<Rightarrow> 'n \<Rightarrow> (io_error + nat) \<times> 'n) \<Rightarrow> secure_mux \<Rightarrow> bytes \<Rightarrow>
     socket_addr \<Rightarrow> u64 \<Rightarrow> 'n \<Rightarrow> (io_error + nat) \<times> secure_mux \<times> 'n" where
  "send_secure_raw P sock sm plaintext dst now_ns net =
     send_sealed P sock sm plaintext AAD_CONTROL SECURE_INNER_CONTROL dst now_ns net"

definition decrypt_event_into_ring ::
    "'k primitives \<Rightarrow> nat \<Rightarrow> crypto_box \<Rightarrow> bytes \<Rightarrow> u8 \<Rightarrow> secure_block spsc_ring \<Rightarrow>
     (sec_error + nat) \<times> secure_block spsc_ring" where
  "decrypt_event_into_ring P N b sealed inner ring =
     (let aad = (if inner = SECURE_INNER_TELEMETRY then AAD_TELEMETRY else AAD_CONTROL)
      in decrypt_into_ring P N b sealed aad ring)"

definition recv_decrypt ::
    "'k primitives \<Rightarrow> codec \<Rightarrow> nat \<Rightarrow> secure_mux \<Rightarrow> rx_buffer \<Rightarrow> secure_block spsc_ring \<Rightarrow> io_error + bytes \<times> socket_addr \<Rightarrow>
     (io_error + nat) \<times> secure_mux \<times> rx_buffer \<times> secure_block spsc_ring" where
  "recv_decrypt P cdc N sm rx ring res =
     (case recv_frame cdc (sm_mux sm) rx res of
        (Inl e, mx, rx') \<Rightarrow> (Inl e, sm\<lparr>sm_mux := mx\<rparr>, rx', ring)
      | (Inr (Some (Inr (InSecure sealed src inner))), mx, rx') \<Rightarrow>
          let aad = (if inner = SECURE_INNER_TELEMETRY then AAD_TELEMETRY else AAD_CONTROL);
              (r, ring') = decrypt_into_ring P N (ss_crypto (sm_session sm)) sealed aad ring
          in (Inr (case r of Inr _ \<Rightarrow> 1 | Inl _ \<Rightarrow> 0), sm\<lparr>sm_mux := mx\<rparr>, rx', ring')
      | (Inr _, mx, rx') \<Rightarrow> (Inr 0, sm\<lparr>sm_mux := mx\<rparr>, rx', ring))"

section \<open>Fleet dispatch gate (cloud.rs)\<close>

record fleet_authz =
  fa_broker :: broker

definition authz_new :: "trust_store \<Rightarrow> policy \<Rightarrow> fleet_authz" where
  "authz_new trust pol = \<lparr>fa_broker = \<lparr>br_trust = trust, br_policy = pol\<rparr>\<rparr>"

definition authz_with_trust :: "trust_store \<Rightarrow> fleet_authz" where
  "authz_with_trust trust = \<lparr>fa_broker = with_trust trust\<rparr>"

definition authz_dispatch :: "fleet_authz \<Rightarrow> principal \<Rightarrow> rstring \<Rightarrow> bool" where
  "authz_dispatch fa p tool = broker_authorize_dispatch (fa_broker fa) p tool"

definition admit_tool :: "(bytes \<Rightarrow> bytes \<Rightarrow> bytes \<Rightarrow> bool) \<Rightarrow> fleet_authz \<Rightarrow> attestation \<Rightarrow> rstring \<Rightarrow> bool" where
  "admit_tool vfy fa att tool =
     (case authenticate vfy (fa_broker fa) att of Inr p \<Rightarrow> authz_dispatch fa p tool | Inl _ \<Rightarrow> False)"

section \<open>What the sources rely on\<close>

text \<open>An AEAD with 96-bit nonces and detached 128-bit tags: encryption of messages below the length limit
  succeeds and keeps the length, and decryption accepts exactly what encryption produces. X25519 is
  symmetric, and 32 bytes of HKDF output are always available and always a valid key.\<close>

definition aead_ok ::
    "(bytes \<Rightarrow> bytes \<Rightarrow> bytes \<Rightarrow> bytes \<Rightarrow> (bytes \<times> bytes) option) \<Rightarrow>
     (bytes \<Rightarrow> bytes \<Rightarrow> bytes \<Rightarrow> bytes \<Rightarrow> bytes \<Rightarrow> bytes option) \<Rightarrow> bool" where
  "aead_ok enc dec \<longleftrightarrow>
     (\<forall>k n aad p. length n = 12 \<and> length p < 2 ^ 32 \<longrightarrow> enc k n aad p \<noteq> None) \<and>
     (\<forall>k n aad p c t. enc k n aad p = Some (c, t) \<longrightarrow> length c = length p \<and> length t = 16) \<and>
     (\<forall>k n aad p c t. length n = 12 \<and> length t = 16 \<longrightarrow> (dec k n aad c t = Some p \<longleftrightarrow> enc k n aad p = Some (c, t)))"

definition primitives_ok :: "'k primitives \<Rightarrow> bool" where
  "primitives_ok P \<longleftrightarrow> aead_ok (aes_encrypt P) (aes_decrypt P) \<and> aead_ok (cha_encrypt P) (cha_decrypt P) \<and>
     (\<forall>k. length k = 32 \<longrightarrow> aes_new P k \<noteq> None \<and> cha_new P k \<noteq> None) \<and>
     (\<forall>s i. \<exists>k. hkdf_expand P s i = Some k \<and> length k = 32) \<and>
     (\<forall>a b. x_diffie_hellman P a (x_public P b) = x_diffie_hellman P b (x_public P a))"

definition keypair_ok :: "'k primitives \<Rightarrow> 'k device_identity \<Rightarrow> bool" where
  "keypair_ok P ident \<longleftrightarrow> (\<forall>msg. ed_verify P (di_signing_pub ident) msg (ed_sign P (di_signing ident) msg))"

definition box_wf :: "crypto_box \<Rightarrow> bool" where
  "box_wf b \<longleftrightarrow> length (cb_salt b) = 4"

section \<open>Lemmas\<close>

lemma inner_aead_ok: "primitives_ok P \<Longrightarrow> aead_ok (\<lambda>_ :: bytes. inner_encrypt P k) (\<lambda>_. inner_decrypt P k)"
  by (cases k) (auto simp: primitives_ok_def aead_ok_def inner_encrypt_def inner_decrypt_def)

lemma write_three:
  assumes "length a = 12" and "length c = length p" and "length t = 16"
  shows "write_at (12 + length p) t (write_at 12 c (write_at 12 p (write_at 0 a (replicate (12 + length p + 16) 0)))) = a @ c @ t"
proof -
  have "write_at 0 a (replicate (12 + length p + 16) 0) = a @ replicate (length p + 16) 0"
    using assms(1) by (simp add: write_first drop_replicate)
  moreover have "write_at 12 p (a @ replicate (length p + 16) 0) = a @ p @ replicate 16 0"
    using assms(1) by (simp add: write_next drop_replicate)
  moreover have "write_at 12 c (a @ p @ replicate 16 0) = (a @ c) @ replicate 16 0"
    using assms(1,2) by (simp add: write_next)
  moreover have "write_at (12 + length p) t ((a @ c) @ replicate 16 0) = (a @ c) @ t"
    using assms write_next [of "a @ c" "12 + length p" t "replicate 16 0"] by simp
  ultimately show ?thesis by simp
qed

definition box_nonce :: "crypto_box \<Rightarrow> bytes" where
  "box_nonce b = le_bytes 8 (cb_ctr b) @ cb_salt b"

lemma seal_to_vec_ok:
  assumes "primitives_ok P" and "box_wf b" and "length p < 2 ^ 32"
  obtains c t where "seal_to_vec P b p aad = (Inr (box_nonce b @ c @ t), b\<lparr>cb_ctr := cb_ctr b + 1\<rparr>)"
    and "length c = length p" and "length t = 16" and "inner_encrypt P (cb_key b) (box_nonce b) aad p = Some (c, t)"
proof -
  have n: "length (box_nonce b) = 12" using assms(2) by (simp add: box_nonce_def box_wf_def)
  then obtain c t where c: "inner_encrypt P (cb_key b) (box_nonce b) aad p = Some (c, t)" "length c = length p" "length t = 16"
    using inner_aead_ok [OF assms(1), of "cb_key b"] assms(3) unfolding aead_ok_def by (metis option.exhaust prod.exhaust)
  have pt: "take (length p) (drop 12 (write_at 12 p (write_at 0 (box_nonce b) (replicate (12 + length p + 16) 0)))) = p"
    using n by (simp add: write_at_def)
  have "seal_into P b p aad (replicate (12 + length p + 16) 0) =
      (Inr (12 + length p + 16, box_nonce b @ c @ t), b\<lparr>cb_ctr := cb_ctr b + 1\<rparr>)"
    using c pt write_three [OF n c(2,3)]
    by (simp add: seal_into_def next_nonce_def Let_def cipher_consts flip: box_nonce_def)
  then show ?thesis using that [of c t] c n by (simp add: seal_to_vec_def cipher_consts)
qed

lemma inner_decrypt_iff:
  assumes "primitives_ok P" and "length n = 12" and "length t = 16"
  shows "inner_decrypt P k n aad c t = Some p \<longleftrightarrow> inner_encrypt P k n aad p = Some (c, t)"
  using inner_aead_ok [OF assms(1), of k] assms(2,3) unfolding aead_ok_def by blast

lemma inner_encrypt_length:
  "primitives_ok P \<Longrightarrow> inner_encrypt P k n aad p = Some (c, t) \<Longrightarrow> length c = length p \<and> length t = 16"
  using inner_aead_ok [of P k] unfolding aead_ok_def by blast

lemma open_in_place_eq:
  assumes "length n = 12" and "length t = 16"
  shows "open_in_place P b (n @ c @ t) aad =
    (case inner_decrypt P (cb_key b) n aad c t of
       None \<Rightarrow> Inl Crypto
     | Some p \<Rightarrow> Inr (length c, write_at 0 (take (length c) (drop 12 (write_at 12 p (n @ c @ t)))) (write_at 12 p (n @ c @ t))))"
  using assms by (simp add: open_in_place_def cipher_consts Let_def split: option.splits)

lemma open_in_place_sealed:
  assumes "primitives_ok P" and "length n = 12" and "inner_encrypt P (cb_key b) n aad p = Some (c, t)"
  shows "open_in_place P b (n @ c @ t) aad = Inr (length p, p @ drop (length p) (n @ p @ t))"
proof -
  note len = inner_encrypt_length [OF assms(1,3)]
  have "write_at 12 p (n @ c @ t) = n @ p @ t" using assms(2) len by (simp add: write_next)
  moreover have "inner_decrypt P (cb_key b) n aad c t = Some p" using assms len inner_decrypt_iff [of P n t] by simp
  ultimately show ?thesis using assms(2) len by (simp add: open_in_place_eq write_first)
qed

lemma open_in_place_authentic:
  assumes "primitives_ok P" and "open_in_place P b env aad = Inr (m, buf)"
  obtains n c t p where "env = n @ c @ t" and "length n = 12" and "inner_encrypt P (cb_key b) n aad p = Some (c, t)"
    and "m = length p" and "take m buf = p"
proof -
  define n c t where "n = take 12 env" and "c = take (length env - 28) (drop 12 env)" and "t = drop (length env - 28) (drop 12 env)"
  have "28 \<le> length env" using assms(2) by (auto simp: open_in_place_def cipher_consts split: if_splits)
  then have env: "env = n @ c @ t" "length n = 12" "length t = 16"
    unfolding n_def c_def t_def by (simp_all only: append_take_drop_id length_take length_drop)
  with assms(2) obtain p where "inner_decrypt P (cb_key b) n aad c t = Some p"
    by (auto simp: open_in_place_eq split: option.splits)
  then have e: "inner_encrypt P (cb_key b) n aad p = Some (c, t)" using inner_decrypt_iff [OF assms(1) env(2,3)] by simp
  from open_in_place_sealed [OF assms(1) env(2) e] assms(2) env(1) have "m = length p" "take m buf = p" by auto
  with env(1,2) e show ?thesis by (rule that)
qed

lemma open_into_sealed:
  assumes "primitives_ok P" and "length n = 12" and "inner_encrypt P (cb_key b) n aad p = Some (c, t)" and "length p \<le> length out"
  shows "open_into P b (n @ c @ t) aad out = Inr (length p, write_at 0 p out)"
  using assms inner_encrypt_length [OF assms(1,3)] open_in_place_sealed [OF assms(1-3)]
  by (simp add: open_into_def cipher_consts Let_def)

lemma from_kdf_ok:
  assumes "primitives_ok P" and "length key = 32"
  obtains k where "\<And>salt. from_kdf P s key (Some salt) = Some (Inr \<lparr>cb_key = k, cb_suite = s, cb_ctr = 0, cb_salt = salt\<rparr>)"
  using assms by (cases s) (auto simp: primitives_ok_def from_kdf_def build_inner_def)

lemma derive_key_ok:
  assumes "primitives_ok P"
  obtains k where "\<And>salt. derive_key P shared s (Some salt) = Some (Inr \<lparr>cb_key = k, cb_suite = s, cb_ctr = 0, cb_salt = salt\<rparr>)"
proof -
  obtain key where "hkdf_expand P shared HKDF_INFO = Some key" "length key = 32"
    using assms unfolding primitives_ok_def by blast
  moreover from this obtain k where
      "\<And>salt. from_kdf P s key (Some salt) = Some (Inr \<lparr>cb_key = k, cb_suite = s, cb_ctr = 0, cb_salt = salt\<rparr>)"
    using from_kdf_ok [OF assms, of key s] by blast
  ultimately show ?thesis using that [of k] by (simp add: derive_key_def)
qed

lemma attestation_sign_verifies: "keypair_ok P ident \<Longrightarrow> attestation_verify (ed_verify P) (attestation_sign (ed_sign P) ident e)"
  by (simp add: keypair_ok_def attestation_verify_def attestation_sign_def Let_def)

lemma attestation_sign_fields [simp]:
  "at_unit_id (attestation_sign sg ident e) = di_unit_id ident" "at_role (attestation_sign sg ident e) = di_role ident"
  "at_eph_pub (attestation_sign sg ident e) = e"
  by (simp_all add: attestation_sign_def Let_def)

text \<open>Both ends of a handshake hold the same cipher key.\<close>

lemma handshake_ok:
  assumes "primitives_ok P" and "keypair_ok P ii" and "keypair_ok P ir" and "negotiate rsuites isuites = Some s"
  obtains init pend resp k where
    "begin_handshake P ii isuites (Some x) = Inr (init, pend)"
    "respond_handshake P ir init rsuites (Some y) (Some salt_r) =
       Some (Inr (resp, \<lparr>ss_peer_id = di_unit_id ii, ss_peer_role = di_role ii,
         ss_crypto = \<lparr>cb_key = k, cb_suite = s, cb_ctr = 0, cb_salt = salt_r\<rparr>, ss_suite = s\<rparr>))"
    "finish_handshake P pend resp (Some salt_i) =
       Some (Inr \<lparr>ss_peer_id = di_unit_id ir, ss_peer_role = di_role ir,
         ss_crypto = \<lparr>cb_key = k, cb_suite = s, cb_ctr = 0, cb_salt = salt_i\<rparr>, ss_suite = s\<rparr>)"
proof -
  obtain k where k: "\<And>salt. derive_key P (x_diffie_hellman P y (x_public P x)) s (Some salt) =
      Some (Inr \<lparr>cb_key = k, cb_suite = s, cb_ctr = 0, cb_salt = salt\<rparr>)"
    using derive_key_ok [OF assms(1)] by blast
  have "x_diffie_hellman P x (x_public P y) = x_diffie_hellman P y (x_public P x)"
    using assms(1) unfolding primitives_ok_def by blast
  then show ?thesis using assms(4) k attestation_sign_verifies [OF assms(2)] attestation_sign_verifies [OF assms(3)]
    by (intro that [of "\<lparr>hi_attestation = attestation_sign (ed_sign P) ii (x_public P x), hi_suites = isuites\<rparr>"
          "\<lparr>ph_eph = x\<rparr>" "\<lparr>hr_attestation = attestation_sign (ed_sign P) ir (x_public P y), hr_suite = s\<rparr>" k])
      (simp_all add: begin_handshake_def respond_handshake_def finish_handshake_def generate_eph_def derive_shared_def Let_def)
qed

lemma session_roundtrip:
  assumes "primitives_ok P" and "cb_key (ss_crypto a) = cb_key (ss_crypto b)" and "box_wf (ss_crypto a)"
    and "length p < 2 ^ 32" and "length p \<le> length out"
  shows "\<exists>env a'. session_seal P a p aad = (Inr env, a') \<and> session_open P b env aad out = Inr (length p, write_at 0 p out)"
proof -
  obtain c t where "seal_to_vec P (ss_crypto a) p aad =
      (Inr (box_nonce (ss_crypto a) @ c @ t), (ss_crypto a)\<lparr>cb_ctr := cb_ctr (ss_crypto a) + 1\<rparr>)"
    and e: "inner_encrypt P (cb_key (ss_crypto a)) (box_nonce (ss_crypto a)) aad p = Some (c, t)"
    using seal_to_vec_ok [OF assms(1,3,4)] by metis
  moreover have "length (box_nonce (ss_crypto a)) = 12" using assms(3) by (simp add: box_nonce_def box_wf_def)
  ultimately show ?thesis using open_into_sealed [OF assms(1) _ e [unfolded assms(2)] assms(5)]
    by (simp add: session_seal_def session_open_def)
qed

text \<open>Sealing several messages in a row, and a socket that records its datagrams.\<close>

fun seal_list :: "'k primitives \<Rightarrow> crypto_box \<Rightarrow> (bytes \<times> bytes) list \<Rightarrow> (sec_error + bytes) list" where
  "seal_list P b [] = []"
| "seal_list P b ((p, aad) # ms) = (let (r, b') = seal_to_vec P b p aad in r # seal_list P b' ms)"

definition capture :: "socket_addr \<Rightarrow> bytes \<Rightarrow> (socket_addr \<times> bytes) list \<Rightarrow> (io_error + nat) \<times> (socket_addr \<times> bytes) list" where
  "capture dst d net = (Inr (length d), net @ [(dst, d)])"

lemma le_bytes8_inj: "le_bytes 8 (v :: u64) = le_bytes 8 w \<Longrightarrow> v = w"
proof -
  assume "le_bytes 8 v = le_bytes 8 w"
  then have "(from_le (le_bytes 8 v) :: u64) = from_le (le_bytes 8 w)" by (rule arg_cong)
  then show ?thesis by (subst (asm) (1 2) from_le_le_bytes) simp_all
qed

lemma seal_list_nonces:
  assumes "primitives_ok P"
  shows "box_wf b \<Longrightarrow> (\<forall>m \<in> set ms. length (fst m) < 2 ^ 32) \<Longrightarrow>
    \<exists>envs. seal_list P b ms = map Inr envs \<and> map (take NONCE_LEN) envs =
      map (\<lambda>i. le_bytes 8 (cb_ctr b + word_of_nat i) @ cb_salt b) [0..<length ms]"
proof (induction ms arbitrary: b)
  case (Cons m ms)
  obtain p aad where m: "m = (p, aad)" by force
  obtain c t where s: "seal_to_vec P b p aad = (Inr (box_nonce b @ c @ t), b\<lparr>cb_ctr := cb_ctr b + 1\<rparr>)"
    using seal_to_vec_ok [OF assms Cons.prems(1)] Cons.prems(2) m by (metis fst_conv list.set_intros(1))
  have "box_wf (b\<lparr>cb_ctr := cb_ctr b + 1\<rparr>)" using Cons.prems(1) by (simp add: box_wf_def)
  from Cons.IH [OF this] Cons.prems(2) obtain envs where "seal_list P (b\<lparr>cb_ctr := cb_ctr b + 1\<rparr>) ms = map Inr envs"
      "map (take NONCE_LEN) envs = map (\<lambda>i. le_bytes 8 (cb_ctr b + 1 + word_of_nat i) @ cb_salt b) [0..<length ms]" by auto
  moreover have "map (\<lambda>i. le_bytes 8 (cb_ctr b + word_of_nat i) @ cb_salt b) [0..<length (m # ms)] =
      box_nonce b # map (\<lambda>i. le_bytes 8 (cb_ctr b + 1 + word_of_nat i) @ cb_salt b) [0..<length ms]"
    by (simp add: upt_conv_Cons map_Suc_upt [symmetric] box_nonce_def ac_simps del: upt_Suc)
  ultimately show ?case using Cons.prems(1) s m
    by (intro exI [of _ "(box_nonce b @ c @ t) # envs"]) (simp add: box_nonce_def box_wf_def cipher_consts)
qed simp

lemma recv_frame_secure:
  assumes "frames r Secure inner sealed" and "length (rxb_buf rb) = 1500"
  shows "\<exists>mx' rb'. recv_frame cdc mx rb (Inr (take (fst r) (snd r), src)) = (Inr (Some (Inr (InSecure sealed src inner))), mx', rb')"
proof -
  let ?d = "take (fst r) (snd r)" and ?rb = "rb\<lparr>rxb_buf := write_at 0 (take (fst r) (snd r)) (rxb_buf rb)\<rparr>"
  have d: "?d = datagram Secure inner sealed" "fst r = 20 + length sealed" using assms(1) unfolding frames_def by blast+
  then have dl: "length ?d = fst r" by simp
  then have "fst r \<le> 1500" using assms(1) unfolding frames_def length_take by linarith
  then have "mux_fill rb (Inr (?d, src)) = Inr (Some (fst r, src, ?rb))"
    using assms(2) dl by (simp add: mux_fill_def Let_def)
  moreover have t: "take (fst r) (rxb_buf ?rb) = take (fst r) (snd r)"
    using take_write_at_0 [of ?d "rxb_buf rb"] dl by simp
  have "demux cdc ?rb (fst r) src = Inr (InSecure sealed src inner)"
    unfolding demux_frames [OF assms(1) t] demux_payload_def channel_roundtrip by simp
  ultimately show ?thesis by (simp add: recv_frame_def Let_def)
qed

lemma decrypt_into_ring_sealed:
  assumes "primitives_ok P" and "length n = 12" and "inner_encrypt P (cb_key b) n aad p = Some (c, t)"
    and "28 + length p \<le> N" and "N < 2 ^ 32" and "ring_inv ring" and "unat (ring_len ring) < unat (ring_cap ring)"
  shows "\<exists>ring' blk. decrypt_into_ring P N b (n @ c @ t) aad ring = (Inr (length p), ring') \<and>
    ring_contents ring' = ring_contents ring @ [blk] \<and> as_slice blk = p \<and> ring_inv ring'"
proof -
  note len = inner_encrypt_length [OF assms(1,3)]
  let ?e = "n @ c @ t" and ?o = "p @ drop (length p) (n @ p @ t)"
  let ?b = "\<lparr>sb_buf = write_at 0 ?o (write_at 0 ?e (replicate N 0)), sb_len = word_of_nat (length p)\<rparr>"
  have "take (length ?e) (write_at 0 ?e (replicate N 0)) = ?e" by (rule take_write_at_0)
  moreover have "length ?e \<le> N" using assms(2,4) len by simp
  ultimately have "decrypt_into_ring P N b ?e aad ring =
      (case ring_push ring ?b of (Inl _, ring') \<Rightarrow> (Inl RingFull, ring') | (Inr _, ring') \<Rightarrow> (Inr (length p), ring'))"
    unfolding decrypt_into_ring_def Let_def block_new_def
    by (simp only: open_in_place_sealed [OF assms(1-3)] secure_block.simps not_less [symmetric]) simp
  moreover have "length p < 2 ^ 32" using assms(4,5) by simp
  then have "unat (word_of_nat (length p) :: u32) = length p" by (simp add: unat_of_nat)
  then have "as_slice ?b = p" by (simp add: as_slice_def write_at_def)
  ultimately show ?thesis using ring_push_ok [OF assms(6,7), of ?b] by simp
qed

section \<open>Properties\<close>

text \<open>C14. Session agreement: when both identities sign with the key they present and a common suite
  exists, the handshake succeeds on both sides; each side learns the other's unit and role, both use
  the suite the responder prefers among the initiator's, and whatever one side seals the other
  opens.\<close>

theorem session_agreement:
  assumes "primitives_ok P" and "keypair_ok P ii" and "keypair_ok P ir" and "negotiate rsuites isuites = Some s"
    and "length salt_i = 4" and "length salt_r = 4"
  shows "\<exists>init pend resp ssr ssi. begin_handshake P ii isuites (Some x) = Inr (init, pend) \<and>
    respond_handshake P ir init rsuites (Some y) (Some salt_r) = Some (Inr (resp, ssr)) \<and>
    finish_handshake P pend resp (Some salt_i) = Some (Inr ssi) \<and>
    ss_peer_id ssr = di_unit_id ii \<and> ss_peer_role ssr = di_role ii \<and> ss_suite ssr = s \<and>
    ss_peer_id ssi = di_unit_id ir \<and> ss_peer_role ssi = di_role ir \<and> ss_suite ssi = s \<and>
    (\<forall>(a, b) \<in> {(ssi, ssr), (ssr, ssi)}. \<forall>p aad out. length p < 2 ^ 32 \<and> length p \<le> length out \<longrightarrow>
      (\<exists>env a'. session_seal P a p aad = (Inr env, a') \<and> session_open P b env aad out = Inr (length p, write_at 0 p out)))"
proof -
  obtain init pend resp k where h: "begin_handshake P ii isuites (Some x) = Inr (init, pend)"
    "respond_handshake P ir init rsuites (Some y) (Some salt_r) =
       Some (Inr (resp, \<lparr>ss_peer_id = di_unit_id ii, ss_peer_role = di_role ii,
         ss_crypto = \<lparr>cb_key = k, cb_suite = s, cb_ctr = 0, cb_salt = salt_r\<rparr>, ss_suite = s\<rparr>))"
    "finish_handshake P pend resp (Some salt_i) =
       Some (Inr \<lparr>ss_peer_id = di_unit_id ir, ss_peer_role = di_role ir,
         ss_crypto = \<lparr>cb_key = k, cb_suite = s, cb_ctr = 0, cb_salt = salt_i\<rparr>, ss_suite = s\<rparr>)"
    using handshake_ok [OF assms(1-4)] by blast
  have "\<exists>env a'. session_seal P a p aad = (Inr env, a') \<and> session_open P b env aad out = Inr (length p, write_at 0 p out)"
    if "cb_key (ss_crypto a) = cb_key (ss_crypto b)" "box_wf (ss_crypto a)" "length p < 2 ^ 32" "length p \<le> length out"
    for a b p aad out
    using session_roundtrip [OF assms(1) that] by blast
  then show ?thesis using h assms(5,6) by (auto simp: box_wf_def)
qed

text \<open>A key-dependent toy cipher suite that satisfies the laws, for concrete runs.\<close>

definition toy_encrypt :: "bytes \<Rightarrow> bytes \<Rightarrow> bytes \<Rightarrow> bytes \<Rightarrow> (bytes \<times> bytes) option" where
  "toy_encrypt k n aad p = Some (map (\<lambda>x. x XOR sum_list k) p, replicate 16 (sum_list aad))"

definition toy_decrypt :: "bytes \<Rightarrow> bytes \<Rightarrow> bytes \<Rightarrow> bytes \<Rightarrow> bytes \<Rightarrow> bytes option" where
  "toy_decrypt k n aad c t =
     (if t = replicate 16 (sum_list aad) then Some (map (\<lambda>x. x XOR sum_list k) c) else None)"

definition toy :: "u8 primitives" where
  "toy = \<lparr>aes_new = (\<lambda>k. if length k = 32 then Some k else None), cha_new = (\<lambda>k. if length k = 32 then Some k else None),
     aes_encrypt = toy_encrypt, aes_decrypt = toy_decrypt, cha_encrypt = toy_encrypt, cha_decrypt = toy_decrypt,
     x_public = (\<lambda>x. x), x_diffie_hellman = (\<lambda>a b. [sum_list a + sum_list b]),
     hkdf_expand = (\<lambda>s i. Some (replicate 32 (sum_list s))),
     ed_sign = (\<lambda>k m. replicate 64 k), ed_verify = (\<lambda>pk m sg. sg = replicate 64 (hd pk))\<rparr>"

definition toy_identity :: "u64 \<Rightarrow> role \<Rightarrow> u8 \<Rightarrow> u8 device_identity" where
  "toy_identity u r k = \<lparr>di_unit_id = u, di_role = r, di_signing = k, di_signing_pub = replicate 32 k\<rparr>"

lemma toy_aead: "aead_ok toy_encrypt toy_decrypt"
proof -
  have "map (\<lambda>x. x XOR k) (map (\<lambda>x. x XOR k) p) = p" for k :: u8 and p
    by (induction p) (simp_all add: xor.assoc)
  then show ?thesis unfolding aead_ok_def toy_encrypt_def toy_decrypt_def by auto
qed

lemma toy_ok: "primitives_ok toy"
  using toy_aead by (simp add: primitives_ok_def toy_def add.commute)

lemma toy_keypair: "keypair_ok toy (toy_identity u r k)"
  by (simp add: keypair_ok_def toy_def toy_identity_def)

theorem session_agreement_witness:
  "\<exists>init pend resp ssr ssi. begin_handshake toy (toy_identity 7 Operator 3) [Aes256Gcm, ChaCha20Poly1305] (Some [1]) = Inr (init, pend) \<and>
     respond_handshake toy (toy_identity 9 AiAgent 4) init [ChaCha20Poly1305] (Some [2]) (Some [5, 6, 7, 8]) = Some (Inr (resp, ssr)) \<and>
     finish_handshake toy pend resp (Some [1, 2, 3, 4]) = Some (Inr ssi) \<and>
     ss_peer_id ssr = 7 \<and> ss_peer_id ssi = 9 \<and> ss_suite ssi = ChaCha20Poly1305"
proof -
  have "negotiate [ChaCha20Poly1305] [Aes256Gcm, ChaCha20Poly1305] = Some ChaCha20Poly1305" by (simp add: negotiate_def)
  from session_agreement [OF toy_ok toy_keypair [of 7 Operator 3] toy_keypair [of 9 AiAgent 4] this,
      of "[1, 2, 3, 4]" "[5, 6, 7, 8]" "[1]" "[2]"]
  show ?thesis by (fastforce simp: toy_identity_def)
qed

text \<open>C16. Nonces: a box never uses a nonce twice for up to \<open>2^64\<close> messages in a row, all of which are
  sealed.\<close>

theorem nonces_distinct:
  assumes "primitives_ok P" and "box_wf b" and "length ms \<le> 2 ^ 64" and "\<And>p aad. (p, aad) \<in> set ms \<Longrightarrow> length p < 2 ^ 32"
  shows "\<exists>envs. seal_list P b ms = map Inr envs \<and> distinct (map (take NONCE_LEN) envs)"
proof -
  have "\<forall>m \<in> set ms. length (fst m) < 2 ^ 32" using assms(4) by force
  then obtain envs where e: "seal_list P b ms = map Inr envs"
      "map (take NONCE_LEN) envs = map (\<lambda>i. le_bytes 8 (cb_ctr b + word_of_nat i) @ cb_salt b) [0..<length ms]"
    using seal_list_nonces [OF assms(1,2)] by blast
  have "inj_on (\<lambda>i. le_bytes 8 (cb_ctr b + word_of_nat i) @ cb_salt b) {0..<length ms}"
  proof (rule inj_onI)
    fix i j assume ij: "i \<in> {0..<length ms}" "j \<in> {0..<length ms}"
      and "le_bytes 8 (cb_ctr b + word_of_nat i) @ cb_salt b = le_bytes 8 (cb_ctr b + word_of_nat j) @ cb_salt b"
    then have "(word_of_nat i :: u64) = word_of_nat j" using le_bytes8_inj by fastforce
    then have "i mod 2 ^ 64 = j mod 2 ^ 64" using unat_of_nat [where 'a = 64, of i] unat_of_nat [where 'a = 64, of j] by simp
    then show "i = j" using ij assms(3) by simp
  qed
  then have "distinct (map (\<lambda>i. le_bytes 8 (cb_ctr b + word_of_nat i) @ cb_salt b) [0..<length ms])"
    by (simp add: distinct_map)
  then show ?thesis using e(1) unfolding e(2) [symmetric] by blast
qed

theorem nonces_distinct_witness:
  "\<exists>envs. seal_list toy \<lparr>cb_key = Aes [1], cb_suite = Aes256Gcm, cb_ctr = 2 ^ 64 - 1, cb_salt = [1, 2, 3, 4]\<rparr>
       [([5], []), ([6], [])] = map Inr envs \<and> distinct (map (take NONCE_LEN) envs)"
  by (rule nonces_distinct [OF toy_ok]) (auto simp: box_wf_def)

text \<open>Two boxes of one session have the same key: if they drew the same salt, their first messages use
  the same key and nonce.\<close>

lemma equal_salts_reuse_nonce:
  assumes "primitives_ok P" and "keypair_ok P ii" and "keypair_ok P ir" and "negotiate rsuites isuites = Some s"
  shows "\<exists>init pend resp ssr ssi. begin_handshake P ii isuites (Some x) = Inr (init, pend) \<and>
    respond_handshake P ir init rsuites (Some y) (Some salt) = Some (Inr (resp, ssr)) \<and>
    finish_handshake P pend resp (Some salt) = Some (Inr ssi) \<and>
    cb_key (ss_crypto ssr) = cb_key (ss_crypto ssi) \<and> fst (next_nonce (ss_crypto ssr)) = fst (next_nonce (ss_crypto ssi))"
proof -
  show ?thesis using handshake_ok [OF assms, of x y salt salt] by (metis secure_session.select_convs(3))
qed

text \<open>C15. Integrity: a session opens an envelope only if it is exactly what its own cipher makes of the
  recovered plaintext, under the nonce in the envelope and the same associated data; in every other
  case it reports an error.\<close>

theorem session_open_authentic:
  assumes "primitives_ok P" and "session_open P ss env aad out = Inr (n, out')"
  shows "\<exists>nonce c t. env = nonce @ c @ t \<and> length nonce = NONCE_LEN \<and>
    inner_encrypt P (cb_key (ss_crypto ss)) nonce aad (take n out') = Some (c, t)"
proof -
  have "28 \<le> length env" and len: "length env - 28 \<le> length out"
    using assms(2) by (auto simp: session_open_def open_into_def cipher_consts Let_def split: if_splits)
  with assms(2) obtain work where o: "open_in_place P (ss_crypto ss) env aad = Inr (n, work)" "out' = write_at 0 (take n work) out"
    by (auto simp: session_open_def open_into_def cipher_consts Let_def split: sum.splits)
  from open_in_place_authentic [OF assms(1) o(1)] obtain nc c t p where
    p: "env = nc @ c @ t" "length nc = 12" "inner_encrypt P (cb_key (ss_crypto ss)) nc aad p = Some (c, t)" "n = length p" "take n work = p" .
  then have "take n out' = p" using o(2) by simp
  with p show ?thesis by (auto simp: cipher_consts)
qed

theorem session_open_authentic_witness:
  "let ss = \<lparr>ss_peer_id = 1, ss_peer_role = Operator,
       ss_crypto = \<lparr>cb_key = Aes [1], cb_suite = Aes256Gcm, cb_ctr = 0, cb_salt = [0, 0, 0, 0]\<rparr>, ss_suite = Aes256Gcm\<rparr>;
     env = replicate 12 0 @ [5, 6] @ replicate 16 0
   in session_open toy ss env [] [9, 9, 9] = Inr (2, [4, 7, 9]) \<and>
      (\<exists>nonce c t. env = nonce @ c @ t \<and> length nonce = NONCE_LEN \<and> inner_encrypt toy (Aes [1]) nonce [] [4, 7] = Some (c, t))"
proof -
  define ss where "ss = \<lparr>ss_peer_id = 1, ss_peer_role = Operator,
       ss_crypto = \<lparr>cb_key = Aes [1], cb_suite = Aes256Gcm, cb_ctr = 0, cb_salt = [0, 0, 0, 0]\<rparr>, ss_suite = Aes256Gcm\<rparr>"
  define env :: bytes where "env = replicate 12 0 @ [5, 6] @ replicate 16 0"
  have "session_open toy ss env [] [9, 9, 9] = Inr (2, [4, 7, 9])"
    by (simp add: session_open_def open_into_def open_in_place_def cipher_consts Let_def toy_def toy_decrypt_def inner_decrypt_def
        ss_def env_def numeral_eq_Suc write_at_def)
  moreover note session_open_authentic [OF toy_ok this]
  ultimately show ?thesis unfolding ss_def [symmetric] env_def [symmetric] Let_def by (simp add: ss_def)
qed

text \<open>C12. Encrypted command delivery: a control command that one end of a session sends over the encrypted
  multiplexer goes out as one datagram, and the other end, whose ring has room, opens it into the ring
  as one block from which the codec reads the same command.\<close>

theorem secure_command_delivery:
  assumes "primitives_ok P" and "wire_codec cdc" and "command_wf cmd" and "serialize_command cdc cmd = Some bs"
    and "cb_key (ss_crypto (sm_session sm)) = cb_key (ss_crypto (sm_session rm))" and "box_wf (ss_crypto (sm_session sm))"
    and "28 + length bs \<le> N" and "N \<le> MAX_PAYLOAD" and "length (rxb_buf rb) = MAX_DATAGRAM"
    and "ring_inv ring" and "unat (ring_len ring) < unat (ring_cap ring)"
  shows "\<exists>n sm' d. send_secure_control P cdc capture sm cmd dst now net = (Inr n, sm', net @ [(dst, d)]) \<and>
    (\<exists>rm' rb' ring' blk. recv_decrypt P cdc N rm rb ring (Inr (d, src)) = (Inr 1, rm', rb', ring') \<and>
      ring_contents ring' = ring_contents ring @ [blk] \<and> access_command cdc (as_slice blk) = Some cmd)"
proof -
  let ?b = "ss_crypto (sm_session sm)"
  have bs: "access_command cdc bs = Some cmd" using wire_codec.command_law [OF assms(2,3)] assms(4) by auto
  have N: "28 + length bs \<le> 1480" "N < 2 ^ 32" using assms(7,8) by (simp_all add: mux_consts)
  then have bl: "length bs < 2 ^ 32" by simp
  obtain c t where s: "seal_to_vec P ?b bs AAD_CONTROL = (Inr (box_nonce ?b @ c @ t), ?b\<lparr>cb_ctr := cb_ctr ?b + 1\<rparr>)"
      and len: "length c = length bs" "length t = 16" and e: "inner_encrypt P (cb_key ?b) (box_nonce ?b) AAD_CONTROL bs = Some (c, t)"
    using seal_to_vec_ok [OF assms(1,6) bl, of AAD_CONTROL] by blast
  have nl: "length (box_nonce ?b) = 12" using assms(6) by (simp add: box_nonce_def box_wf_def)
  let ?env = "box_nonce ?b @ c @ t"
  obtain r where r: "write_secure_frame ?env SECURE_INNER_CONTROL (replicate 1500 0) = Inr r" "frames r Secure SECURE_INNER_CONTROL ?env"
    using write_secure_frames [of "replicate 1500 0" ?env SECURE_INNER_CONTROL] nl len N(1) by auto
  obtain sm' where send: "send_secure_control P cdc capture sm cmd dst now net = (Inr (fst r), sm', net @ [(dst, take (fst r) (snd r))])"
    using assms(4) s r(1) by (cases r) (simp add: send_secure_control_def send_sealed_def session_seal_def capture_def
        send_framed_def Let_def mux_consts)
  obtain mx' rb' where f: "recv_frame cdc (sm_mux rm) rb (Inr (take (fst r) (snd r), src)) =
      (Inr (Some (Inr (InSecure ?env src SECURE_INNER_CONTROL))), mx', rb')"
    using recv_frame_secure [OF r(2), of rb cdc "sm_mux rm" src] assms(9) by (auto simp: mux_consts)
  obtain ring' blk where d: "decrypt_into_ring P N (ss_crypto (sm_session rm)) ?env AAD_CONTROL ring = (Inr (length bs), ring')"
      "ring_contents ring' = ring_contents ring @ [blk]" "as_slice blk = bs"
    using decrypt_into_ring_sealed [OF assms(1) nl e [unfolded assms(5)] assms(7) N(2) assms(10,11)] by blast
  have "SECURE_INNER_CONTROL \<noteq> SECURE_INNER_TELEMETRY" by (simp add: SECURE_INNER_CONTROL_def SECURE_INNER_TELEMETRY_def)
  then have "recv_decrypt P cdc N rm rb ring (Inr (take (fst r) (snd r), src)) = (Inr 1, rm\<lparr>sm_mux := mx'\<rparr>, rb', ring')"
    using f d(1) by (simp add: recv_decrypt_def Let_def)
  with send d(2,3) bs show ?thesis by blast
qed

theorem secure_command_delivery_witness:
  "let ss = \<lparr>ss_peer_id = 1, ss_peer_role = Operator,
       ss_crypto = \<lparr>cb_key = Cha [1], cb_suite = ChaCha20Poly1305, cb_ctr = 0, cb_salt = [1, 2, 3, 4]\<rparr>, ss_suite = ChaCha20Poly1305\<rparr>;
     sm = \<lparr>sm_mux = mux_new, sm_session = ss\<rparr>
   in \<exists>n sm' d. send_secure_control toy raw_codec capture sm (command_zeroed Assist) (SocketV4 1 443) 0 [] =
        (Inr n, sm', [(SocketV4 1 443, d)]) \<and>
      (\<exists>rm' rb' ring' blk. recv_decrypt toy raw_codec 256 sm \<lparr>rxb_unit = 0, rxb_buf = replicate 1500 0\<rparr> (with_capacity 2)
        (Inr (d, SocketV4 2 443)) = (Inr 1, rm', rb', ring') \<and> access_command raw_codec (as_slice blk) = Some (command_zeroed Assist))"
proof -
  have wf: "command_wf (command_zeroed Assist)" by (simp add: command_wf_def command_zeroed_def)
  have sc: "serialize_command raw_codec (command_zeroed Assist) = Some (command_bytes (command_zeroed Assist))"
    by (simp add: raw_codec_def)
  let ?r = "with_capacity 2 :: secure_block spsc_ring"
  have r: "ring_inv ?r" "ring_contents ?r = []" "2 \<le> ring_room ?r" using with_capacity_inv [of 2] by simp_all
  then have "unat (ring_len ?r) < unat (ring_cap ?r)" using length_ring_contents [of ?r] by (simp add: ring_room_def)
  with r(1) show ?thesis unfolding Let_def
    using secure_command_delivery [OF toy_ok raw.wire_codec_axioms wf sc, where N = 256 and net = "[]" and ring = ?r
        and sm = "\<lparr>sm_mux = mux_new, sm_session = \<lparr>ss_peer_id = 1, ss_peer_role = Operator,
          ss_crypto = \<lparr>cb_key = Cha [1], cb_suite = ChaCha20Poly1305, cb_ctr = 0, cb_salt = [1, 2, 3, 4]\<rparr>, ss_suite = ChaCha20Poly1305\<rparr>\<rparr>"
        and rm = "\<lparr>sm_mux = mux_new, sm_session = \<lparr>ss_peer_id = 1, ss_peer_role = Operator,
          ss_crypto = \<lparr>cb_key = Cha [1], cb_suite = ChaCha20Poly1305, cb_ctr = 0, cb_salt = [1, 2, 3, 4]\<rparr>, ss_suite = ChaCha20Poly1305\<rparr>\<rparr>"
        and rb = "\<lparr>rxb_unit = 0, rxb_buf = replicate 1500 0\<rparr>"]
    by (simp add: box_wf_def mux_consts length_command_bytes [OF wf]) blast
qed

end
