(* ===== verification/Safety_Filters.thy ===== *)
theory Safety_Filters
  imports Ieee_Float Wire_Types "HOL-Library.Monad_Syntax"
begin

text \<open>
  The stages of the safety crate that shape a command: kinematic limits and the emergency command
  (limits.rs), the AI veto (veto.rs), latency compensation (latency.rs), the geofence (geo.rs) and
  the authority blend (spline.rs), over the bit-exact floats of Ieee_Float. \<open>None\<close> is the panic of
  \<open>clamp\<close> on unordered bounds. \<open>f64::hypot\<close> calls the platform's mathematics library and is an
  argument.

  The lemmas show what each stage guarantees of its axes, and what it does to a value that is not a
  number.
\<close>

section \<open>Axes\<close>

definition ROLL :: nat where "ROLL = 0"
definition PITCH :: nat where "PITCH = 1"
definition YAW :: nat where "YAW = 2"
definition THROTTLE :: nat where "THROTTLE = 3"
definition LAT_X :: nat where "LAT_X = 4"
definition LAT_Y :: nat where "LAT_Y = 5"

lemmas axis_defs = ROLL_def PITCH_def YAW_def THROTTLE_def LAT_X_def LAT_Y_def

definition axis_of :: "control_command \<Rightarrow> nat \<Rightarrow> f32" where
  "axis_of cmd ax = cmd_axes cmd ! ax"

definition set_axis :: "nat \<Rightarrow> f32 \<Rightarrow> control_command \<Rightarrow> control_command" where
  "set_axis ax v cmd = cmd\<lparr>cmd_axes := (cmd_axes cmd)[ax := v]\<rparr>"

section \<open>Kinematic limits (limits.rs)\<close>

record kinematic_limits =
  max_tilt_norm :: f32
  max_yaw_norm :: f32
  max_lateral_norm :: f32
  max_axis_step :: f32
  max_throttle_step :: f32

definition kinematic_limits_default :: kinematic_limits where
  "kinematic_limits_default = \<lparr>max_tilt_norm = f32_lit (35 / 100), max_yaw_norm = f32_lit (1 / 2),
     max_lateral_norm = f32_lit (8 / 10), max_axis_step = f32_lit (2 / 100), max_throttle_step = f32_lit (1 / 100)\<rparr>"

definition clamp_abs :: "nat \<Rightarrow> f32 \<Rightarrow> control_command \<Rightarrow> (bool \<times> control_command) option" where
  "clamp_abs ax limit cmd = do {
     let before = axis_of cmd ax;
     after \<leftarrow> f32_clamp before (f32_neg limit) limit;
     Some (\<not> f32_eq before after, set_axis ax after cmd)
   }"

definition slew :: "control_command \<Rightarrow> nat \<Rightarrow> f32 \<Rightarrow> control_command \<Rightarrow> (bool \<times> control_command) option" where
  "slew prev ax max_step cmd = do {
     let target = axis_of cmd ax;
     let last = axis_of prev ax;
     delta \<leftarrow> f32_clamp (f32_sub target last) (f32_neg max_step) max_step;
     let limited = f32_add last delta;
     Some (\<not> f32_eq limited target, set_axis ax limited cmd)
   }"

text \<open>The \<open>for\<close> loops over axes: the flags of the calls are or-ed.\<close>

fun for_axes ::
    "(nat \<Rightarrow> control_command \<Rightarrow> (bool \<times> control_command) option) \<Rightarrow> nat list \<Rightarrow> control_command \<Rightarrow>
     (bool \<times> control_command) option" where
  "for_axes f [] cmd = Some (False, cmd)"
| "for_axes f (ax # axs) cmd = do {
     (t1, c1) \<leftarrow> f ax cmd;
     (t2, c2) \<leftarrow> for_axes f axs c1;
     Some (t1 \<or> t2, c2)
   }"

definition limits_apply ::
    "kinematic_limits \<Rightarrow> control_command \<Rightarrow> control_command \<Rightarrow> (bool \<times> control_command) option" where
  "limits_apply kl prev cmd = do {
     (t1, c1) \<leftarrow> for_axes (\<lambda>ax. clamp_abs ax (max_tilt_norm kl)) [ROLL, PITCH] cmd;
     (t2, c2) \<leftarrow> clamp_abs YAW (max_yaw_norm kl) c1;
     (t3, c3) \<leftarrow> for_axes (\<lambda>ax. clamp_abs ax (max_lateral_norm kl)) [LAT_X, LAT_Y] c2;
     th \<leftarrow> f32_clamp (axis_of c3 THROTTLE) (f32_lit 0) (f32_lit 1);
     let c4 = set_axis THROTTLE th c3;
     (t4, c5) \<leftarrow> for_axes (\<lambda>ax. slew prev ax (max_axis_step kl)) [ROLL, PITCH, YAW, LAT_X, LAT_Y] c4;
     (t5, c6) \<leftarrow> slew prev THROTTLE (max_throttle_step kl) c5;
     Some (t1 \<or> t2 \<or> t3 \<or> t4 \<or> t5, c6)
   }"

definition write_emergency_stop :: "u64 \<Rightarrow> u64 \<Rightarrow> control_command" where
  "write_emergency_stop seq timestamp_ns =
     (let c = (command_zeroed EmergencyStop)\<lparr>cmd_seq := seq, cmd_timestamp_ns := timestamp_ns\<rparr>
      in c\<lparr>cmd_flags := cmd_flags c OR 1\<rparr>)"

section \<open>AI veto (veto.rs)\<close>

record veto_gate =
  veto_active :: bool
  veto_cap_bits :: u32

definition veto_default :: veto_gate where
  "veto_default = \<lparr>veto_active = False, veto_cap_bits = 0\<rparr>"

definition TRANSLATIONAL :: "nat list" where "TRANSLATIONAL = [0, 1, 4, 5]"

definition veto_engage :: "f32 \<Rightarrow> veto_gate \<Rightarrow> veto_gate option" where
  "veto_engage max_translational_norm g = do {
     cap \<leftarrow> f32_clamp max_translational_norm (f32_lit (1 / 100)) (f32_lit 1);
     Some (g\<lparr>veto_cap_bits := cap, veto_active := True\<rparr>)
   }"

definition veto_disengage :: "veto_gate \<Rightarrow> veto_gate" where
  "veto_disengage g = g\<lparr>veto_active := False\<rparr>"

definition veto_axis :: "f32 \<Rightarrow> nat \<Rightarrow> control_command \<Rightarrow> (bool \<times> control_command) option" where
  "veto_axis cap ax cmd = do {
     let before = axis_of cmd ax;
     after \<leftarrow> f32_clamp before (f32_neg cap) cap;
     Some (if \<not> f32_eq after before then (True, set_axis ax after cmd) else (False, cmd))
   }"

definition veto_apply :: "veto_gate \<Rightarrow> control_command \<Rightarrow> (bool \<times> control_command) option" where
  "veto_apply g cmd =
     (if \<not> veto_active g then Some (False, cmd)
      else
        let cap = f32_max (veto_cap_bits g) (f32_lit (1 / 100))
        in for_axes (veto_axis cap) TRANSLATIONAL cmd)"

section \<open>Latency compensation (latency.rs)\<close>

record latency_compensator =
  lc_ewma_ns :: f64
  lc_alpha :: f64
  lc_max_ns :: f64
  lc_samples :: u64

definition latency_new :: "f64 \<Rightarrow> u64 \<Rightarrow> latency_compensator option" where
  "latency_new alpha max_ns = do {
     a \<leftarrow> f64_clamp alpha (f64_lit (1 / 100)) (f64_lit 1);
     Some \<lparr>lc_ewma_ns = f64_lit 0, lc_alpha = a, lc_max_ns = f64_of_u64 (max max_ns 1), lc_samples = 0\<rparr>
   }"

definition latency_observe :: "u64 \<Rightarrow> u64 \<Rightarrow> latency_compensator \<Rightarrow> u64 \<times> latency_compensator" where
  "latency_observe now_ns stamp_ns lc =
     (let delay = saturating_sub now_ns stamp_ns;
          d = f64_of_u64 delay;
          ewma = (if lc_samples lc = 0 then d
                  else f64_add (f64_mul (lc_ewma_ns lc) (f64_sub (f64_lit 1) (lc_alpha lc))) (f64_mul d (lc_alpha lc)))
      in (delay, lc\<lparr>lc_ewma_ns := ewma, lc_samples := lc_samples lc + 1\<rparr>))"

definition attenuation :: "latency_compensator \<Rightarrow> f32" where
  "attenuation lc =
     (if f64_le (lc_ewma_ns lc) (f64_lit 0) then f32_lit 1
      else
        let conf = f64_sub (f64_lit 1)
              (f64_mul (f64_min (f64_div (lc_ewma_ns lc) (lc_max_ns lc)) (f64_lit 1)) (f64_lit (8 / 10)))
        in f32_of_f64 conf)"

definition compensate :: "latency_compensator \<Rightarrow> control_command \<Rightarrow> control_command" where
  "compensate lc cmd =
     (let k = attenuation lc in
      if f32_lt k (f32_lit 1)
      then fold (\<lambda>ax c. set_axis ax (f32_mul (axis_of c ax) k) c) [ROLL, PITCH, LAT_X, LAT_Y] cmd
      else cmd)"

section \<open>Geofence (geo.rs)\<close>

record pose6d =
  pose_x :: f64
  pose_y :: f64
  pose_z :: f64
  pose_yaw :: f32
  pose_pitch :: f32
  pose_roll :: f32
  pose_reserved :: u32

definition pose_default :: pose6d where
  "pose_default = \<lparr>pose_x = 0, pose_y = 0, pose_z = 0, pose_yaw = 0, pose_pitch = 0, pose_roll = 0, pose_reserved = 0\<rparr>"

definition THROTTLE_NEUTRAL :: f32 where "THROTTLE_NEUTRAL = f32_lit (1 / 2)"

record geo_fence =
  center_east_m :: f64
  center_north_m :: f64
  radius_m :: f64
  min_alt_m :: f64
  max_alt_m :: f64

definition geo_fence_default :: geo_fence where
  "geo_fence_default = \<lparr>center_east_m = f64_lit 0, center_north_m = f64_lit 0, radius_m = f64_lit 500,
     min_alt_m = f64_lit 0, max_alt_m = f64_lit 120\<rparr>"

datatype fence_verdict = Inside | SoftWarn | HardBreach

definition horizontal_dist :: "(f64 \<Rightarrow> f64 \<Rightarrow> f64) \<Rightarrow> geo_fence \<Rightarrow> pose6d \<Rightarrow> f64" where
  "horizontal_dist hypot g p =
     (let dx = f64_sub (pose_x p) (center_east_m g); dy = f64_sub (pose_y p) (center_north_m g) in hypot dx dy)"

definition fence_evaluate :: "(f64 \<Rightarrow> f64 \<Rightarrow> f64) \<Rightarrow> geo_fence \<Rightarrow> pose6d \<Rightarrow> fence_verdict" where
  "fence_evaluate hypot g p =
     (let d = horizontal_dist hypot g p;
          soft_r = f64_mul (radius_m g) (f64_lit (95 / 100));
          soft_hi = f64_mul (max_alt_m g) (f64_lit (95 / 100))
      in if f64_lt (radius_m g) d \<or> f64_lt (max_alt_m g) (pose_z p) \<or> f64_lt (pose_z p) (min_alt_m g) then HardBreach
         else if f64_lt soft_r d \<or> f64_lt soft_hi (pose_z p) then SoftWarn
         else Inside)"

definition suppress_outward :: "f64 \<Rightarrow> nat \<times> f64 \<Rightarrow> control_command \<Rightarrow> control_command" where
  "suppress_outward severity axu cmd =
     (let (ax, u) = axu; outward = f64_mul (f64_of_f32 (axis_of cmd ax)) u in
      if f64_lt (f64_lit 0) outward
      then set_axis ax (f32_sub (axis_of cmd ax) (f32_of_f64 (f64_mul (f64_mul outward severity) u))) cmd
      else cmd)"

definition horizontal_suppress ::
    "(f64 \<Rightarrow> f64 \<Rightarrow> f64) \<Rightarrow> geo_fence \<Rightarrow> pose6d \<Rightarrow> fence_verdict \<Rightarrow> control_command \<Rightarrow> control_command option" where
  "horizontal_suppress hypot g p verdict cmd =
     (let dx = f64_sub (pose_x p) (center_east_m g); dy = f64_sub (pose_y p) (center_north_m g); dist = hypot dx dy in
      if f64_lt (f64_lit (1 / 10 ^ 9)) dist then do {
        let ux = f64_div dx dist;
        let uy = f64_div dy dist;
        severity \<leftarrow> (if verdict = HardBreach then Some (f64_lit 1)
           else f64_clamp (f64_div (f64_sub dist (f64_mul (radius_m g) (f64_lit (95 / 100))))
                  (f64_mul (radius_m g) (f64_lit (5 / 100)))) (f64_lit 0) (f64_lit 1));
        Some (if f64_lt (f64_lit 0) severity
              then fold (suppress_outward severity) [(LAT_X, ux), (LAT_Y, uy), (ROLL, ux), (PITCH, uy)] cmd
              else cmd)
      } else Some cmd)"

definition vertical_suppress :: "geo_fence \<Rightarrow> pose6d \<Rightarrow> control_command \<Rightarrow> control_command" where
  "vertical_suppress g p cmd =
     (let c2 = (if f64_le (f64_mul (max_alt_m g) (f64_lit (95 / 100))) (pose_z p) \<and> f32_lt THROTTLE_NEUTRAL (axis_of cmd THROTTLE)
                then set_axis THROTTLE THROTTLE_NEUTRAL cmd else cmd)
      in if f64_le (pose_z p) (min_alt_m g) \<and> f32_lt (axis_of c2 THROTTLE) THROTTLE_NEUTRAL
         then set_axis THROTTLE THROTTLE_NEUTRAL c2 else c2)"

definition clamp_command ::
    "(f64 \<Rightarrow> f64 \<Rightarrow> f64) \<Rightarrow> geo_fence \<Rightarrow> pose6d \<Rightarrow> fence_verdict \<Rightarrow> control_command \<Rightarrow> control_command option" where
  "clamp_command hypot g p verdict cmd = do {
     c1 \<leftarrow> horizontal_suppress hypot g p verdict cmd;
     Some (vertical_suppress g p c1)
   }"

section \<open>Authority blend (spline.rs)\<close>

definition smootherstep :: "f64 \<Rightarrow> f64 option" where
  "smootherstep x0 = do {
     x \<leftarrow> f64_clamp x0 (f64_lit 0) (f64_lit 1);
     Some (f64_mul (f64_mul (f64_mul x x) x)
       (f64_add (f64_mul x (f64_sub (f64_mul x (f64_lit 6)) (f64_lit 15))) (f64_lit 10)))
   }"

fun authority_target :: "mode \<Rightarrow> f32" where
  "authority_target Auto = f32_lit 0"
| "authority_target Assist = f32_lit (1 / 2)"
| "authority_target FullTeleop = f32_lit 1"
| "authority_target EmergencyStop = f32_lit 0"

record authority_blend =
  ab_from_weight :: f32
  ab_to_weight :: f32
  ab_duration_s :: f32
  ab_elapsed_s :: f32

definition blend_new :: "f32 \<Rightarrow> f32 \<Rightarrow> f32 \<Rightarrow> authority_blend" where
  "blend_new from_weight to_weight duration_s = \<lparr>ab_from_weight = from_weight, ab_to_weight = to_weight,
     ab_duration_s = f32_max duration_s (f32_lit (1 / 1000)), ab_elapsed_s = f32_lit 0\<rparr>"

definition blend_weight :: "authority_blend \<Rightarrow> f32 option" where
  "blend_weight b = do {
     s64 \<leftarrow> smootherstep (f64_div (f64_of_f32 (ab_elapsed_s b)) (f64_of_f32 (ab_duration_s b)));
     let s = f32_of_f64 s64;
     Some (f32_add (ab_from_weight b) (f32_mul (f32_sub (ab_to_weight b) (ab_from_weight b)) s))
   }"

definition blend_advance :: "f32 \<Rightarrow> authority_blend \<Rightarrow> (f32 \<times> authority_blend) option" where
  "blend_advance dt_s b = do {
     let b' = b\<lparr>ab_elapsed_s := f32_min (f32_add (ab_elapsed_s b) dt_s) (ab_duration_s b)\<rparr>;
     w \<leftarrow> blend_weight b';
     Some (w, b')
   }"

definition blend_done :: "authority_blend \<Rightarrow> bool" where
  "blend_done b = f32_le (ab_duration_s b) (ab_elapsed_s b)"

definition check_transition :: "mode \<Rightarrow> mode \<Rightarrow> (mode \<Rightarrow> mode \<Rightarrow> bool) \<Rightarrow> mode_error + unit" where
  "check_transition cur requested table_allows =
     (if table_allows cur requested then Inr () else Inl (Disallowed cur requested))"

section \<open>Lemmas\<close>

lemma axis_set_axis: "axis_of (set_axis ax v cmd) ax' = (if ax = ax' \<and> ax < length (cmd_axes cmd) then v else axis_of cmd ax')"
  by (cases "ax < length (cmd_axes cmd)") (simp_all add: axis_of_def set_axis_def list_update_beyond)

lemma length_set_axis [simp]: "length (cmd_axes (set_axis ax v cmd)) = length (cmd_axes cmd)"
  by (simp add: set_axis_def)

lemma set_axis_seq [simp]: "cmd_seq (set_axis ax v cmd) = cmd_seq cmd"
  by (simp add: set_axis_def)

text \<open>A loop over distinct axes whose body only changes its own axis does to each axis what the body
  does alone.\<close>

definition axis_step :: "(nat \<Rightarrow> control_command \<Rightarrow> (bool \<times> control_command) option) \<Rightarrow> (nat \<Rightarrow> f32 \<Rightarrow> f32 option) \<Rightarrow> bool" where
  "axis_step f g \<longleftrightarrow> (\<forall>ax cmd. ax < length (cmd_axes cmd) \<longrightarrow>
     (case g ax (axis_of cmd ax) of
        None \<Rightarrow> f ax cmd = None
      | Some v \<Rightarrow> \<exists>t. f ax cmd = Some (t, set_axis ax v cmd)))"

lemma for_axes_Some:
  assumes "axis_step f g" and "distinct axs" and "list_all (\<lambda>ax. ax < length (cmd_axes cmd)) axs"
    and "for_axes f axs cmd = Some (t, cmd')"
  shows "length (cmd_axes cmd') = length (cmd_axes cmd) \<and>
    (\<forall>ax. (if ax \<in> set axs then g ax (axis_of cmd ax) = Some (axis_of cmd' ax) else axis_of cmd' ax = axis_of cmd ax)) \<and>
    cmd' = cmd\<lparr>cmd_axes := cmd_axes cmd'\<rparr>"
  using assms(2-4)
proof (induction axs arbitrary: cmd t)
  case (Cons a axs)
  from Cons.prems(3) obtain t1 c1 t2 where f: "f a cmd = Some (t1, c1)" "for_axes f axs c1 = Some (t2, cmd')"
    by (auto simp: bind_eq_Some_conv)
  have "a < length (cmd_axes cmd)" using Cons.prems(2) by simp
  with assms(1) f(1) obtain v where v: "g a (axis_of cmd a) = Some v" "c1 = set_axis a v cmd"
    unfolding axis_step_def by (fastforce split: option.splits)
  have len: "list_all (\<lambda>ax. ax < length (cmd_axes c1)) axs" using Cons.prems(2) v(2) by simp
  from Cons.IH [OF _ len f(2)] Cons.prems(1) have IH: "length (cmd_axes cmd') = length (cmd_axes c1)"
    "\<And>ax. if ax \<in> set axs then g ax (axis_of c1 ax) = Some (axis_of cmd' ax) else axis_of cmd' ax = axis_of c1 ax"
    "cmd' = c1\<lparr>cmd_axes := cmd_axes cmd'\<rparr>" by auto
  have "if ax \<in> set (a # axs) then g ax (axis_of cmd ax) = Some (axis_of cmd' ax) else axis_of cmd' ax = axis_of cmd ax" for ax
    using IH(2) [of ax] v \<open>a < length (cmd_axes cmd)\<close> Cons.prems(1) by (auto simp: axis_set_axis split: if_splits)
  moreover have "cmd' = cmd\<lparr>cmd_axes := cmd_axes cmd'\<rparr>" using IH(3) v(2) by (cases cmd; cases cmd') (simp add: set_axis_def)
  ultimately show ?case using IH(1) v(2) by simp
qed simp

lemma for_axes_total:
  assumes "axis_step f g" and "\<And>ax v. ax \<in> set axs \<Longrightarrow> g ax v \<noteq> None"
    and "list_all (\<lambda>ax. ax < length (cmd_axes cmd)) axs"
  shows "for_axes f axs cmd \<noteq> None"
  using assms(2,3)
proof (induction axs arbitrary: cmd)
  case (Cons a axs)
  obtain v where v: "g a (axis_of cmd a) = Some v" using Cons.prems(1) [of a] by fastforce
  then obtain t where f: "f a cmd = Some (t, set_axis a v cmd)"
    using assms(1) Cons.prems(2) unfolding axis_step_def by fastforce
  have "for_axes f axs (set_axis a v cmd) \<noteq> None" by (rule Cons.IH) (use Cons.prems in auto)
  then show ?case using f by auto
qed simp

lemma clamp_abs_step: "axis_step (\<lambda>ax. clamp_abs ax limit) (\<lambda>ax v. f32_clamp v (f32_neg limit) limit)"
  by (auto simp: axis_step_def clamp_abs_def split: option.splits)

definition slew_value :: "f32 \<Rightarrow> f32 \<Rightarrow> f32 \<Rightarrow> f32 option" where
  "slew_value lst max_step target = map_option (f32_add lst) (f32_clamp (f32_sub target lst) (f32_neg max_step) max_step)"

lemma slew_step: "axis_step (\<lambda>ax. slew prev ax st) (\<lambda>ax. slew_value (axis_of prev ax) st)"
  by (auto simp: axis_step_def slew_def slew_value_def Let_def split: option.splits)

lemma slew_value_bounds:
  assumes "slew_value lst st target = Some v" and "f32_finite lst" and "\<not> f32_is_nan target"
  shows "f32_le (f32_add lst (f32_neg st)) v" and "f32_le v (f32_add lst st)"
proof -
  obtain d where d: "f32_clamp (f32_sub target lst) (f32_neg st) st = Some d" "v = f32_add lst d"
    using assms(1) by (auto simp: slew_value_def)
  have "\<not> f32_is_nan (f32_sub target lst)" using assms(2,3) by (simp add: f32_sub_nan_iff)
  note b = f32_clamp_bounds [OF d(1) this]
  show "f32_le (f32_add lst (f32_neg st)) v" "f32_le v (f32_add lst st)"
    unfolding d(2) using f32_add_mono [OF assms(2)] b by blast+
qed

lemma slew_value_nan:
  "slew_value lst st target = Some v \<Longrightarrow> f32_is_nan lst \<or> f32_is_nan target \<Longrightarrow> f32_is_nan v"
proof -
  assume "slew_value lst st target = Some v" and n: "f32_is_nan lst \<or> f32_is_nan target"
  then obtain d where d: "f32_clamp (f32_sub target lst) (f32_neg st) st = Some d" "v = f32_add lst d"
    by (auto simp: slew_value_def)
  have "f32_is_nan (f32_sub target lst)" using n f32_nan_absorbs(2) by blast
  with d(1) have "f32_is_nan d" using f32_clamp_nan by blast
  then show ?thesis unfolding d(2) using f32_nan_absorbs(1) by blast
qed

text \<open>The envelope and the step of each axis, and the effect of the limits on it.\<close>

definition axis_limit :: "kinematic_limits \<Rightarrow> nat \<Rightarrow> f32" where
  "axis_limit kl ax = (if ax = ROLL \<or> ax = PITCH then max_tilt_norm kl else if ax = YAW then max_yaw_norm kl else max_lateral_norm kl)"

definition envelope :: "kinematic_limits \<Rightarrow> nat \<Rightarrow> f32 \<Rightarrow> f32 option" where
  "envelope kl ax v = (if ax = THROTTLE then f32_clamp v (f32_lit 0) (f32_lit 1)
     else f32_clamp v (f32_neg (axis_limit kl ax)) (axis_limit kl ax))"

definition axis_step_limit :: "kinematic_limits \<Rightarrow> nat \<Rightarrow> f32" where
  "axis_step_limit kl ax = (if ax = THROTTLE then max_throttle_step kl else max_axis_step kl)"

lemma clamp_abs_Some:
  "clamp_abs ax limit cmd = Some (t, cmd') \<Longrightarrow> \<exists>v. f32_clamp (axis_of cmd ax) (f32_neg limit) limit = Some v \<and> cmd' = set_axis ax v cmd"
  by (auto simp: clamp_abs_def bind_eq_Some_conv Let_def)

lemma slew_Some:
  "slew prev ax st cmd = Some (t, cmd') \<Longrightarrow> \<exists>v. slew_value (axis_of prev ax) st (axis_of cmd ax) = Some v \<and> cmd' = set_axis ax v cmd"
  by (auto simp: slew_def slew_value_def bind_eq_Some_conv Let_def)

lemma less_6_cases: "ax < (6::nat) \<Longrightarrow> ax = 0 \<or> ax = 1 \<or> ax = 2 \<or> ax = 3 \<or> ax = 4 \<or> ax = 5"
  by linarith

lemma set_axis_only: "set_axis ax v cmd = cmd\<lparr>cmd_axes := cmd_axes (set_axis ax v cmd)\<rparr>"
  by (simp add: set_axis_def)

lemma axes_only_trans: "d = c\<lparr>cmd_axes := cmd_axes d\<rparr> \<Longrightarrow> e = d\<lparr>cmd_axes := cmd_axes e\<rparr> \<Longrightarrow> e = c\<lparr>cmd_axes := cmd_axes e\<rparr>"
  by (cases c; cases d; cases e) simp

lemma limits_apply_axes:
  assumes "limits_apply kl prev cmd = Some (t, cmd')" and "length (cmd_axes cmd) = 6" and "ax < 6"
  shows "\<exists>c. envelope kl ax (axis_of cmd ax) = Some c \<and>
    slew_value (axis_of prev ax) (axis_step_limit kl ax) c = Some (axis_of cmd' ax)"
    and "length (cmd_axes cmd') = 6" and "cmd' = cmd\<lparr>cmd_axes := cmd_axes cmd'\<rparr>"
proof -
  from assms(1) obtain t1 c1 t2 c2 t3 c3 th t4 c5 t5 where
    1: "for_axes (\<lambda>ax. clamp_abs ax (max_tilt_norm kl)) [ROLL, PITCH] cmd = Some (t1, c1)" and
    2: "clamp_abs YAW (max_yaw_norm kl) c1 = Some (t2, c2)" and
    3: "for_axes (\<lambda>ax. clamp_abs ax (max_lateral_norm kl)) [LAT_X, LAT_Y] c2 = Some (t3, c3)" and
    4: "f32_clamp (axis_of c3 THROTTLE) (f32_lit 0) (f32_lit 1) = Some th" and
    5: "for_axes (\<lambda>ax. slew prev ax (max_axis_step kl)) [ROLL, PITCH, YAW, LAT_X, LAT_Y] (set_axis THROTTLE th c3) = Some (t4, c5)" and
    6: "slew prev THROTTLE (max_throttle_step kl) c5 = Some (t5, cmd')"
    by (clarsimp simp: limits_apply_def bind_eq_Some_conv Let_def simp del: for_axes.simps f32_lit_zero)
  from 2 obtain y where y: "f32_clamp (axis_of c1 YAW) (f32_neg (max_yaw_norm kl)) (max_yaw_norm kl) = Some y" "c2 = set_axis YAW y c1"
    using clamp_abs_Some by blast
  from 6 obtain v where v: "slew_value (axis_of prev THROTTLE) (max_throttle_step kl) (axis_of c5 THROTTLE) = Some v" "cmd' = set_axis THROTTLE v c5"
    using slew_Some by blast
  have d: "distinct [ROLL, PITCH]" "distinct [LAT_X, LAT_Y]" "distinct [ROLL, PITCH, YAW, LAT_X, LAT_Y]"
    and l: "\<And>c. length (cmd_axes c) = 6 \<Longrightarrow> list_all (\<lambda>ax. ax < length (cmd_axes c)) [ROLL, PITCH]"
    "\<And>c. length (cmd_axes c) = 6 \<Longrightarrow> list_all (\<lambda>ax. ax < length (cmd_axes c)) [LAT_X, LAT_Y]"
    "\<And>c. length (cmd_axes c) = 6 \<Longrightarrow> list_all (\<lambda>ax. ax < length (cmd_axes c)) [ROLL, PITCH, YAW, LAT_X, LAT_Y]"
    by (simp_all add: axis_defs)
  note A1 = for_axes_Some [OF clamp_abs_step d(1) l(1) [OF assms(2)] 1]
  then have L2: "length (cmd_axes c2) = 6" using y(2) assms(2) by simp
  note A3 = for_axes_Some [OF clamp_abs_step d(2) l(2) [OF L2] 3]
  then have L3: "length (cmd_axes (set_axis THROTTLE th c3)) = 6" using L2 by simp
  note A5 = for_axes_Some [OF slew_step d(3) l(3) [OF L3] 5]
  have L: "length (cmd_axes c1) = 6" "length (cmd_axes c3) = 6" "length (cmd_axes c5) = 6" using A1 A3 A5 assms(2) L2 L3 by simp_all
  note V = A1 [THEN conjunct2, THEN conjunct1, rule_format, of ax] A3 [THEN conjunct2, THEN conjunct1, rule_format, of ax]
    A5 [THEN conjunct2, THEN conjunct1, rule_format, of ax]
  have U: "c1 = cmd\<lparr>cmd_axes := cmd_axes c1\<rparr>" "c3 = c2\<lparr>cmd_axes := cmd_axes c3\<rparr>" "c5 = (set_axis THROTTLE th c3)\<lparr>cmd_axes := cmd_axes c5\<rparr>"
    using A1 A3 A5 by blast+
  show "length (cmd_axes cmd') = 6" using v(2) L(3) by simp
  show "cmd' = cmd\<lparr>cmd_axes := cmd_axes cmd'\<rparr>" 
    using U(1) set_axis_only [of YAW y c1] U(2) set_axis_only [of THROTTLE th c3] U(3) set_axis_only [of THROTTLE v c5]
    unfolding y(2) [symmetric] v(2) [symmetric] by (blast intro: axes_only_trans)
  show "\<exists>c. envelope kl ax (axis_of cmd ax) = Some c \<and> slew_value (axis_of prev ax) (axis_step_limit kl ax) c = Some (axis_of cmd' ax)"
    using less_6_cases [OF assms(3)] V y v 4 L L2 L3
    by (elim disjE) (simp_all add: envelope_def axis_limit_def axis_step_limit_def axis_defs axis_set_axis)
qed

lemma set_axis_same [simp]: "set_axis ax (axis_of cmd ax) cmd = cmd"
  by (simp add: set_axis_def axis_of_def)

definition veto_value :: "f32 \<Rightarrow> f32 \<Rightarrow> f32 option" where
  "veto_value cap v = map_option (\<lambda>a. if f32_eq a v then v else a) (f32_clamp v (f32_neg cap) cap)"

lemma veto_step: "axis_step (veto_axis cap) (\<lambda>ax. veto_value cap)"
  by (auto simp: axis_step_def veto_axis_def veto_value_def Let_def split: option.splits)

definition veto_cap :: "veto_gate \<Rightarrow> f32" where
  "veto_cap g = f32_max (veto_cap_bits g) (f32_lit (1 / 100))"

lemma veto_cap_nonneg: "f32_le 0 (veto_cap g)"
  using f32_lit_mono [of 0 "1 / 100"] f32_max_ge [of "f32_lit (1 / 100)" "veto_cap_bits g"] f32_le_trans
  unfolding veto_cap_def by simp

lemma f32_neg_zero_le: "f32_le 0 x \<Longrightarrow> f32_le (f32_neg x) 0"
  by (cases "f32_val x") (auto simp: f32_le_def f32_val_neg fv_le_def sgn_val_def split: if_splits)

lemma veto_value_restricts:
  assumes "veto_value cap b = Some a" and "f32_le 0 cap" and "\<not> f32_is_nan b"
  shows "f32_le (f32_neg cap) a" and "f32_le a cap"
    and "f32_le 0 b \<Longrightarrow> f32_le 0 a \<and> f32_le a b" and "f32_le b 0 \<Longrightarrow> f32_le b a \<and> f32_le a 0"
proof -
  obtain y where y: "f32_clamp b (f32_neg cap) cap = Some y" "a = (if f32_eq y b then b else y)"
    using assms(1) by (auto simp: veto_value_def)
  have cy: "f32_le (f32_neg cap) y" "f32_le y cap" using f32_clamp_bounds [OF y(1) assms(3)] by blast+
  have yn: "\<not> f32_is_nan y" using f32_clamp_not_nan [OF y(1) assms(3)] .
  have ay: "f32_le a y" "f32_le y a" using y(2) f32_eq_le [of y b] f32_le_refl [OF yn] by (auto split: if_splits)
  show "f32_le (f32_neg cap) a" "f32_le a cap" using cy ay f32_le_trans by blast+
  have neg: "f32_le (f32_neg cap) 0" using assms(2) by (rule f32_neg_zero_le)
  have yc: "y = f32_neg cap \<and> f32_lt b (f32_neg cap) \<or> y = cap \<and> f32_lt cap b \<or> y = b"
    using y(1) f32_not_lt [of cap "f32_neg cap"] f32_le_not_nan [OF assms(2)]
    by (auto simp: f32_clamp_def Let_def split: if_splits)
  show "f32_le 0 a \<and> f32_le a b" if b: "f32_le 0 b"
  proof -
    have "\<not> f32_lt b (f32_neg cap)" using f32_le_trans [OF neg b] f32_not_lt [of b "f32_neg cap"] assms(3) f32_le_not_nan [OF assms(2)] by simp
    then have "f32_le 0 y \<and> f32_le y b" using yc b assms(2) f32_lt_le f32_le_refl [OF assms(3)] by blast
    then show ?thesis using ay f32_le_trans by blast
  qed
  show "f32_le b a \<and> f32_le a 0" if b: "f32_le b 0"
  proof -
    have "\<not> f32_lt cap b" using f32_le_trans [OF b assms(2)] f32_not_lt [of cap b] assms(3) f32_le_not_nan [OF assms(2)] by simp
    then have "f32_le b y \<and> f32_le y 0" using yc b neg f32_lt_le f32_le_refl [OF assms(3)] by blast
    then show ?thesis using ay f32_le_trans by blast
  qed
qed

lemma veto_apply_axes:
  assumes "veto_apply g cmd = Some (t, cmd')" and "length (cmd_axes cmd) = 6"
  shows "length (cmd_axes cmd') = 6" and "cmd' = cmd\<lparr>cmd_axes := cmd_axes cmd'\<rparr>"
    and "if veto_active g \<and> ax \<in> set TRANSLATIONAL then veto_value (veto_cap g) (axis_of cmd ax) = Some (axis_of cmd' ax)
         else axis_of cmd' ax = axis_of cmd ax"
proof -
  have "length (cmd_axes cmd') = 6 \<and> cmd' = cmd\<lparr>cmd_axes := cmd_axes cmd'\<rparr> \<and>
    (if veto_active g \<and> ax \<in> set TRANSLATIONAL then veto_value (veto_cap g) (axis_of cmd ax) = Some (axis_of cmd' ax)
         else axis_of cmd' ax = axis_of cmd ax)"
  proof (cases "veto_active g")
    case True
    then have f: "for_axes (veto_axis (veto_cap g)) TRANSLATIONAL cmd = Some (t, cmd')"
      using assms(1) by (simp add: veto_apply_def veto_cap_def Let_def)
    have "distinct TRANSLATIONAL" "list_all (\<lambda>ax. ax < length (cmd_axes cmd)) TRANSLATIONAL"
      using assms(2) by (simp_all add: TRANSLATIONAL_def)
    from for_axes_Some [OF veto_step this f] show ?thesis using True assms(2) by simp
  qed (use assms in \<open>simp add: veto_apply_def\<close>)
  then show "length (cmd_axes cmd') = 6" and "cmd' = cmd\<lparr>cmd_axes := cmd_axes cmd'\<rparr>"
    and "if veto_active g \<and> ax \<in> set TRANSLATIONAL then veto_value (veto_cap g) (axis_of cmd ax) = Some (axis_of cmd' ax)
         else axis_of cmd' ax = axis_of cmd ax" by blast+
qed

section \<open>No panics\<close>

text \<open>A configuration whose limits are numbers and not negative.\<close>

definition limits_ok :: "kinematic_limits \<Rightarrow> bool" where
  "limits_ok kl \<longleftrightarrow> f32_le 0 (max_tilt_norm kl) \<and> f32_le 0 (max_yaw_norm kl) \<and> f32_le 0 (max_lateral_norm kl) \<and>
     f32_le 0 (max_axis_step kl) \<and> f32_le 0 (max_throttle_step kl)"

lemma limits_default_ok: "limits_ok kinematic_limits_default"
  using f32_lit_mono [of 0] by (simp add: limits_ok_def kinematic_limits_default_def)

lemma sym_clamp_total: "f32_le 0 l \<Longrightarrow> f32_clamp v (f32_neg l) l \<noteq> None"
  unfolding f32_clamp_some by (rule f32_neg_le_self)

lemma slew_value_total: "f32_le 0 st \<Longrightarrow> slew_value lst st v \<noteq> None"
  using sym_clamp_total by (simp add: slew_value_def)

lemma limits_apply_total:
  assumes "limits_ok kl" and "length (cmd_axes cmd) = 6"
  shows "\<exists>t cmd'. limits_apply kl prev cmd = Some (t, cmd')"
proof -
  have ok: "f32_le 0 (max_tilt_norm kl)" "f32_le 0 (max_yaw_norm kl)" "f32_le 0 (max_lateral_norm kl)"
    "f32_le 0 (max_axis_step kl)" "f32_le 0 (max_throttle_step kl)" using assms(1) by (simp_all add: limits_ok_def)
  note ca = for_axes_total [OF clamp_abs_step] note len = for_axes_Some [OF clamp_abs_step]
  obtain t1 c1 where 1: "for_axes (\<lambda>ax. clamp_abs ax (max_tilt_norm kl)) [ROLL, PITCH] cmd = Some (t1, c1)"
    using ca [of "[ROLL, PITCH]" "max_tilt_norm kl" cmd] sym_clamp_total [OF ok(1)] assms(2) by (auto simp: axis_defs simp del: for_axes.simps)
  then have l1: "length (cmd_axes c1) = 6" using len [OF _ _ 1] assms(2) by (simp add: axis_defs)
  obtain y where y: "f32_clamp (axis_of c1 YAW) (f32_neg (max_yaw_norm kl)) (max_yaw_norm kl) = Some y" using sym_clamp_total [OF ok(2)] by blast
  let ?c2 = "set_axis YAW y c1"
  obtain t3 c3 where 3: "for_axes (\<lambda>ax. clamp_abs ax (max_lateral_norm kl)) [LAT_X, LAT_Y] ?c2 = Some (t3, c3)"
    using ca [of "[LAT_X, LAT_Y]" "max_lateral_norm kl" ?c2] sym_clamp_total [OF ok(3)] l1 by (auto simp: axis_defs simp del: for_axes.simps)
  then have l3: "length (cmd_axes c3) = 6" using len [OF _ _ 3] l1 by (simp add: axis_defs)
  obtain th where th: "f32_clamp (axis_of c3 THROTTLE) (f32_lit 0) (f32_lit 1) = Some th"
    using f32_clamp_some f32_lit_mono [of 0 1] by force
  let ?c4 = "set_axis THROTTLE th c3"
  obtain t5 c5 where 5: "for_axes (\<lambda>ax. slew prev ax (max_axis_step kl)) [ROLL, PITCH, YAW, LAT_X, LAT_Y] ?c4 = Some (t5, c5)"
    using for_axes_total [OF slew_step, of "[ROLL, PITCH, YAW, LAT_X, LAT_Y]" prev "max_axis_step kl" ?c4] slew_value_total [OF ok(4)] l3
    by (auto simp: axis_defs simp del: for_axes.simps)
  obtain d where "f32_clamp (f32_sub (axis_of c5 THROTTLE) (axis_of prev THROTTLE)) (f32_neg (max_throttle_step kl)) (max_throttle_step kl) = Some d"
    using sym_clamp_total [OF ok(5)] by blast
  then show ?thesis using 1 3 5 y th
    by (auto simp: limits_apply_def clamp_abs_def slew_def Let_def simp del: for_axes.simps f32_lit_zero)
qed

lemma veto_apply_total: "length (cmd_axes cmd) = 6 \<Longrightarrow> \<exists>t cmd'. veto_apply g cmd = Some (t, cmd')"
proof -
  assume "length (cmd_axes cmd) = 6"
  then have "for_axes (veto_axis (veto_cap g)) TRANSLATIONAL cmd \<noteq> None"
    using sym_clamp_total [OF veto_cap_nonneg]
    by (intro for_axes_total [OF veto_step]) (auto simp: veto_value_def TRANSLATIONAL_def)
  then show ?thesis by (auto simp: veto_apply_def veto_cap_def Let_def)
qed

lemma f64_clamp_total: "f64_le lo hi \<Longrightarrow> \<exists>y. f64_clamp x lo hi = Some y"
  by (simp add: f64_clamp_def Let_def)

lemma unit_clamp_total: "\<exists>y. f64_clamp x 0 (f64_lit 1) = Some y"
  using f64_clamp_total [OF f64_lit_mono [of 0 1]] by simp

lemma smootherstep_total: "\<exists>y. smootherstep x = Some y"
  using unit_clamp_total [of x] by (auto simp: smootherstep_def)

lemma blend_advance_total: "\<exists>w b'. blend_advance dt b = Some (w, b')"
  using smootherstep_total by (fastforce simp: blend_advance_def blend_weight_def Let_def bind_eq_Some_conv)

lemma suppress_outward_axes [simp]: "length (cmd_axes (suppress_outward sev axu cmd)) = length (cmd_axes cmd)"
  by (simp add: suppress_outward_def Let_def case_prod_unfold)

lemma horizontal_suppress_total:
  "\<exists>cmd'. horizontal_suppress hypot g p verdict cmd = Some cmd' \<and> length (cmd_axes cmd') = length (cmd_axes cmd)"
proof -
  let ?d = "hypot (f64_sub (pose_x p) (center_east_m g)) (f64_sub (pose_y p) (center_north_m g))"
  obtain sev where "f64_clamp (f64_div (f64_sub ?d (f64_mul (radius_m g) (f64_lit (95 / 100))))
      (f64_mul (radius_m g) (f64_lit (5 / 100)))) 0 (f64_lit 1) = Some sev"
    using unit_clamp_total by blast
  then show ?thesis unfolding horizontal_suppress_def Let_def by (cases "verdict = HardBreach") simp_all
qed

lemma vertical_suppress_axes [simp]: "length (cmd_axes (vertical_suppress g p cmd)) = length (cmd_axes cmd)"
  by (simp add: vertical_suppress_def Let_def)

lemma clamp_command_total:
  "\<exists>cmd'. clamp_command hypot g p verdict cmd = Some cmd' \<and> length (cmd_axes cmd') = length (cmd_axes cmd)"
  using horizontal_suppress_total [of hypot g p verdict cmd] by (auto simp: clamp_command_def)

section \<open>Properties\<close>

text \<open>C30. Slew limit: every axis whose last accepted value is finite and whose commanded value is not a NaN
  differs in the limited command from the last accepted one by at most the configured step, rounded as
  the addition rounds. A NaN is not limited: it passes, and so does everything after it on that axis
  (\<open>nan_axis_sticks\<close> in Safety_Loop).\<close>

theorem limits_slew_bounded:
  assumes "limits_apply kl prev cmd = Some (t, cmd')" and "length (cmd_axes cmd) = 6" and "ax < 6"
    and "f32_finite (axis_of prev ax)" and "\<not> f32_is_nan (axis_of cmd ax)"
  shows "f32_le (f32_add (axis_of prev ax) (f32_neg (axis_step_limit kl ax))) (axis_of cmd' ax) \<and>
    f32_le (axis_of cmd' ax) (f32_add (axis_of prev ax) (axis_step_limit kl ax))"
proof -
  obtain c where c: "envelope kl ax (axis_of cmd ax) = Some c"
      "slew_value (axis_of prev ax) (axis_step_limit kl ax) c = Some (axis_of cmd' ax)"
    using limits_apply_axes(1) [OF assms(1-3)] by blast
  have "\<not> f32_is_nan c" using c(1) assms(5) f32_clamp_not_nan
    by (auto simp: envelope_def split: if_splits)
  then show ?thesis using slew_value_bounds [OF c(2) assms(4)] by blast
qed

lemma f32_finite_zero [simp]: "f32_finite 0"
  by (simp add: f32_finite_def)

lemma zeroed_axes [simp]: "length (cmd_axes (command_zeroed m)) = 6" "ax < 6 \<Longrightarrow> axis_of (command_zeroed m) ax = 0"
  by (simp_all add: command_zeroed_def axis_of_def)

theorem limits_slew_bounded_witness:
  "\<exists>t cmd'. limits_apply kinematic_limits_default (command_zeroed Auto) (set_axis ROLL (f32_lit 1) (command_zeroed FullTeleop)) = Some (t, cmd') \<and>
     f32_le (f32_add 0 (f32_neg (f32_lit (2 / 100)))) (axis_of cmd' ROLL) \<and> f32_le (axis_of cmd' ROLL) (f32_add 0 (f32_lit (2 / 100)))"
proof -
  let ?c = "set_axis ROLL (f32_lit 1) (command_zeroed FullTeleop)"
  obtain t cmd' where a: "limits_apply kinematic_limits_default (command_zeroed Auto) ?c = Some (t, cmd')"
    using limits_apply_total [OF limits_default_ok, of ?c "command_zeroed Auto"] by auto
  have "axis_of ?c ROLL = f32_lit 1" by (simp add: axis_set_axis axis_defs)
  then show ?thesis using limits_slew_bounded [OF a, of ROLL] a
    by (simp add: axis_defs axis_step_limit_def kinematic_limits_default_def)
qed

text \<open>C31. The veto only restricts: it keeps the sign of every axis that is a number and never increases
  its magnitude, brings the translational axes within the cap while it is engaged, and leaves every
  other axis and every other field of the command alone.\<close>

theorem veto_only_restricts:
  assumes "veto_apply g cmd = Some (t, cmd')" and "length (cmd_axes cmd) = 6" and "\<not> f32_is_nan (axis_of cmd ax)"
  shows "cmd' = cmd\<lparr>cmd_axes := cmd_axes cmd'\<rparr> \<and>
    (f32_le 0 (axis_of cmd ax) \<longrightarrow> f32_le 0 (axis_of cmd' ax) \<and> f32_le (axis_of cmd' ax) (axis_of cmd ax)) \<and>
    (f32_le (axis_of cmd ax) 0 \<longrightarrow> f32_le (axis_of cmd ax) (axis_of cmd' ax) \<and> f32_le (axis_of cmd' ax) 0) \<and>
    (if veto_active g \<and> ax \<in> set TRANSLATIONAL
     then f32_le (f32_neg (veto_cap g)) (axis_of cmd' ax) \<and> f32_le (axis_of cmd' ax) (veto_cap g)
     else axis_of cmd' ax = axis_of cmd ax)"
  using veto_apply_axes(2) [OF assms(1,2)] veto_apply_axes(3) [OF assms(1,2), of ax] veto_value_restricts [OF _ veto_cap_nonneg assms(3)]
    f32_le_refl [OF assms(3)]
  by (auto split: if_splits)

theorem veto_only_restricts_witness:
  "\<exists>t cmd'. veto_apply \<lparr>veto_active = True, veto_cap_bits = 0\<rparr> (set_axis ROLL (f32_lit 1) (command_zeroed FullTeleop)) = Some (t, cmd') \<and>
     f32_le 0 (axis_of cmd' ROLL) \<and> f32_le (axis_of cmd' ROLL) (f32_lit 1)"
proof -
  let ?c = "set_axis ROLL (f32_lit 1) (command_zeroed FullTeleop)" and ?g = "\<lparr>veto_active = True, veto_cap_bits = 0\<rparr>"
  obtain t cmd' where a: "veto_apply ?g ?c = Some (t, cmd')" using veto_apply_total [of ?c ?g] by auto
  have "axis_of ?c ROLL = f32_lit 1" by (simp add: axis_set_axis axis_defs)
  moreover have "f32_le 0 (f32_lit 1)" using f32_lit_mono [of 0 1] by simp
  ultimately show ?thesis using veto_only_restricts [OF a, of ROLL] a by simp
qed

text \<open>A position that is not a number counts as inside the fence: no comparison with it holds, so a
  vehicle whose position estimate has failed is never stopped by the geofence.\<close>

theorem fence_nan_inside:
  assumes "f64_is_nan (pose_x p) \<or> f64_is_nan (pose_y p)" and "f64_is_nan (pose_z p)"
    and "\<And>a b. f64_is_nan a \<or> f64_is_nan b \<Longrightarrow> f64_is_nan (hypot a b)"
  shows "fence_evaluate hypot g p = Inside"
proof -
  have "f64_is_nan (horizontal_dist hypot g p)" using assms(1,3) f64_nan_absorbs by (auto simp: horizontal_dist_def Let_def)
  then show ?thesis using assms(2) by (simp add: fence_evaluate_def Let_def)
qed

theorem fence_nan_inside_witness:
  "fence_evaluate f64_add geo_fence_default (pose_default\<lparr>pose_x := f64_of NaN, pose_z := f64_of NaN\<rparr>) = Inside"
proof (rule fence_nan_inside)
  show "f64_is_nan (f64_add a b)" if "f64_is_nan a \<or> f64_is_nan b" for a b
    using that by (cases "f64_val a"; cases "f64_val b") (auto simp: f64_is_nan_def f64_add_def f64_val_of rnd_simps)
qed (simp_all add: f64_is_nan_def f64_val_of rnd_simps)

end
