(* ===== verification/Safety_Loop.thy ===== *)
theory Safety_Loop
  imports Safety_Filters Mode_Machine
begin

text \<open>
  The deterministic intercept loop of the safety crate (loop_.rs): its state, the operations of the
  owning thread and one tick of the pipeline. The rings are the ring model, the mode machine is the
  core model. The clocks are arguments: \<open>now_ns\<close> as in the code, \<open>clk\<close> the machine's own clock and
  \<open>elapsed\<close> the measured pipeline time. \<open>run_until\<close> and \<open>spawn\<close> repeat the tick on a thread.
\<close>

section \<open>State\<close>

record safety_config =
  sc_fence :: geo_fence
  sc_limits :: kinematic_limits
  sc_transition_s :: f32
  sc_tick_period_us :: u64
  sc_max_latency_ns :: u64

definition safety_config_default :: safety_config where
  "safety_config_default = \<lparr>sc_fence = geo_fence_default, sc_limits = kinematic_limits_default,
     sc_transition_s = f32_lit 1, sc_tick_period_us = 5000, sc_max_latency_ns = 50000000\<rparr>"

record intercept_stats =
  drained :: nat
  intercepted_ns :: u64

record safety_loop =
  sl_input :: "control_command spsc_ring"
  sl_output :: "control_command spsc_ring"
  sl_machine :: state_machine
  sl_cfg :: safety_config
  sl_authority :: f32
  sl_blend :: "authority_blend option"
  sl_latency :: latency_compensator
  sl_baseline :: control_command
  sl_last_out :: control_command
  sl_pose :: pose6d
  sl_estop_latched :: bool
  sl_dropped_out :: u64
  sl_veto :: veto_gate
  sl_prev_z :: f64
  sl_have_prev_z :: bool
  sl_vz_est :: f64
  sl_brake_latched :: bool

definition loop_new ::
    "control_command spsc_ring \<Rightarrow> control_command spsc_ring \<Rightarrow> state_machine \<Rightarrow> safety_config \<Rightarrow> safety_loop option" where
  "loop_new inp outp machine cfg = do {
     let cur = current machine;
     lat \<leftarrow> latency_new (f64_lit (2 / 10)) (sc_max_latency_ns cfg);
     Some \<lparr>sl_input = inp, sl_output = outp, sl_machine = machine, sl_cfg = cfg,
       sl_authority = authority_target cur, sl_blend = None, sl_latency = lat,
       sl_baseline = command_zeroed Auto, sl_last_out = command_zeroed cur, sl_pose = pose_default,
       sl_estop_latched = False, sl_dropped_out = 0, sl_veto = veto_default, sl_prev_z = f64_lit 0,
       sl_have_prev_z = False, sl_vz_est = f64_lit 0, sl_brake_latched = False\<rparr>
   }"

section \<open>Operations\<close>

definition set_pose :: "pose6d \<Rightarrow> safety_loop \<Rightarrow> safety_loop" where
  "set_pose p sl =
     (let sl1 = (if sl_have_prev_z sl then
                   (let dt_s = f64_div (f64_of_u64 (sc_tick_period_us (sl_cfg sl))) (f64_lit (10 ^ 6)) in
                    if f64_lt (f64_lit 0) dt_s
                    then sl\<lparr>sl_vz_est := f64_div (f64_sub (pose_z p) (sl_prev_z sl)) dt_s\<rparr> else sl)
                 else sl)
      in sl1\<lparr>sl_prev_z := pose_z p, sl_have_prev_z := True, sl_pose := p\<rparr>)"

definition set_autonomy_baseline :: "control_command \<Rightarrow> safety_loop \<Rightarrow> safety_loop" where
  "set_autonomy_baseline cmd sl = sl\<lparr>sl_baseline := cmd\<rparr>"

definition request_mode :: "u64 \<Rightarrow> mode \<Rightarrow> safety_loop \<Rightarrow> (mode_error + unit) \<times> safety_loop" where
  "request_mode clk m sl =
     (case try_transition clk m (sl_machine sl) of
        (Inl e, mach) \<Rightarrow> (Inl e, sl\<lparr>sl_machine := mach\<rparr>)
      | (Inr _, mach) \<Rightarrow>
          let sl1 = sl\<lparr>sl_machine := mach\<rparr>; to = authority_target m in
          if f32_lt (f32_lit (1 / 10 ^ 6)) (f32_abs (f32_sub to (sl_authority sl1)))
          then (Inr (), sl1\<lparr>sl_blend := Some (blend_new (sl_authority sl1) to (sc_transition_s (sl_cfg sl1)))\<rparr>)
          else (Inr (), sl1))"

definition loop_emergency_stop :: "u64 \<Rightarrow> safety_loop \<Rightarrow> safety_loop" where
  "loop_emergency_stop clk sl =
     sl\<lparr>sl_estop_latched := True, sl_machine := snd (force_emergency_stop clk (sl_machine sl))\<rparr>"

definition engage_ai_veto :: "f32 \<Rightarrow> safety_loop \<Rightarrow> safety_loop option" where
  "engage_ai_veto cap sl = do { g \<leftarrow> veto_engage cap (sl_veto sl); Some (sl\<lparr>sl_veto := g\<rparr>) }"

definition disengage_ai_veto :: "safety_loop \<Rightarrow> safety_loop" where
  "disengage_ai_veto sl = sl\<lparr>sl_veto := veto_disengage (sl_veto sl)\<rparr>"

section \<open>One tick\<close>

definition BRAKE_A :: f64 where "BRAKE_A = f64_lit (345 / 100)"
definition ESC_TAU_S :: f64 where "ESC_TAU_S = f64_lit (15 / 100)"
definition CEILING_RELEASE_FRAC :: f64 where "CEILING_RELEASE_FRAC = f64_lit (90 / 100)"
definition DESCEND_PIN_THROTTLE :: f32 where "DESCEND_PIN_THROTTLE = f32_lit (30 / 100)"

text \<open>Advancing a running blend, which the code does at the start of a tick and again when a command
  is processed.\<close>

definition advance_blend :: "safety_loop \<Rightarrow> safety_loop option" where
  "advance_blend sl =
     (case sl_blend sl of
        None \<Rightarrow> Some sl
      | Some b \<Rightarrow> do {
          (w, b') \<leftarrow> blend_advance (f32_div (f32_of_u64 (sc_tick_period_us (sl_cfg sl))) (f32_lit (10 ^ 6))) b;
          Some (sl\<lparr>sl_authority := w, sl_blend := Some b'\<rparr>)
        })"

definition mix_authority :: "f32 \<Rightarrow> control_command \<Rightarrow> control_command \<Rightarrow> control_command" where
  "mix_authority w base cmd =
     (if f32_lt w (f32_lit (9999 / 10000)) then
        cmd\<lparr>cmd_axes := map (\<lambda>k. f32_add (f32_mul (cmd_axes base ! k) (f32_sub (f32_lit 1) w)) (f32_mul (cmd_axes cmd ! k) w))
                        [0..<length (cmd_axes cmd)],
            cmd_mode := (if f32_le (f32_lit (1 / 2)) w then cmd_mode cmd else cmd_mode base)\<rparr>
      else cmd)"

definition stop_dist :: "f64 \<Rightarrow> f64" where
  "stop_dist v = f64_add (f64_div (f64_mul v v) (f64_mul (f64_lit 2) BRAKE_A)) (f64_mul v ESC_TAU_S)"

definition vertical_brake :: "safety_loop \<Rightarrow> control_command \<Rightarrow> bool \<times> control_command" where
  "vertical_brake sl cmd =
     (let v = sl_vz_est sl; z = pose_z (sl_pose sl); ceiling = max_alt_m (sc_fence (sl_cfg sl));
          near = f64_le ceiling (f64_add z (stop_dist v));
          b1 = (if near then True else sl_brake_latched sl);
          b2 = (if b1 \<and> f64_le v (f64_lit (1 / 2)) \<and> f64_le z (f64_mul ceiling CEILING_RELEASE_FRAC) then False else b1);
          c1 = (if b2 \<and> f32_lt DESCEND_PIN_THROTTLE (axis_of cmd THROTTLE) then set_axis THROTTLE DESCEND_PIN_THROTTLE cmd else cmd);
          c2 = (if near \<and> f32_lt THROTTLE_NEUTRAL (axis_of c1 THROTTLE) then set_axis THROTTLE (f32_lit (30 / 100)) c1 else c1)
      in (b2, c2))"

text \<open>Step 3, the geofence with its emergency stop, and steps 4b and 5, the vertical brake and the
  emergency override.\<close>

definition fence_stage ::
    "(f64 \<Rightarrow> f64 \<Rightarrow> f64) \<Rightarrow> u64 \<Rightarrow> safety_loop \<Rightarrow> control_command \<Rightarrow> (control_command \<times> safety_loop) option" where
  "fence_stage hypot clk sl cmd =
     (let verdict = fence_evaluate hypot (sc_fence (sl_cfg sl)) (sl_pose sl) in
      if verdict \<noteq> Inside then do {
        c \<leftarrow> clamp_command hypot (sc_fence (sl_cfg sl)) (sl_pose sl) verdict cmd;
        Some (c, if verdict = HardBreach \<and> \<not> sl_estop_latched sl
                 then sl\<lparr>sl_estop_latched := True, sl_machine := snd (force_emergency_stop clk (sl_machine sl))\<rparr>
                 else sl)
      } else Some (cmd, sl))"

definition override_stage :: "u64 \<Rightarrow> safety_loop \<Rightarrow> control_command \<Rightarrow> control_command \<times> safety_loop" where
  "override_stage now_ns sl cmd =
     (let (latched, cmd') = vertical_brake sl cmd;
          out = (if sl_estop_latched sl then write_emergency_stop (cmd_seq cmd') now_ns else cmd')
      in (out, sl\<lparr>sl_brake_latched := latched, sl_last_out := out\<rparr>))"

text \<open>The pipeline on one command, steps 1 to 5 of the code.\<close>

definition pipeline ::
    "(f64 \<Rightarrow> f64 \<Rightarrow> f64) \<Rightarrow> u64 \<Rightarrow> u64 \<Rightarrow> safety_loop \<Rightarrow> control_command \<Rightarrow> (control_command \<times> safety_loop) option" where
  "pipeline hypot clk now_ns sl cmd0 = do {
     let lat = snd (latency_observe now_ns (cmd_timestamp_ns cmd0) (sl_latency sl));
     let cmd1 = compensate lat cmd0;
     sl1 \<leftarrow> advance_blend (sl\<lparr>sl_latency := lat\<rparr>);
     let cmd2 = mix_authority (sl_authority sl1) (sl_baseline sl1) cmd1;
     (_, cmd3) \<leftarrow> veto_apply (sl_veto sl1) cmd2;
     (cmd4, sl2) \<leftarrow> fence_stage hypot clk sl1 cmd3;
     (_, cmd5) \<leftarrow> limits_apply (sc_limits (sl_cfg sl2)) (sl_last_out sl2) cmd4;
     Some (override_stage now_ns sl2 cmd5)
   }"

definition process_one ::
    "(f64 \<Rightarrow> f64 \<Rightarrow> f64) \<Rightarrow> u64 \<Rightarrow> u64 \<Rightarrow> u64 \<Rightarrow> safety_loop \<Rightarrow> (intercept_stats \<times> safety_loop) option" where
  "process_one hypot clk elapsed now_ns sl = do {
     sl1 \<leftarrow> advance_blend sl;
     let (cmds, inp) = drain_ring (sl_input sl1) [];
     let sl2 = sl1\<lparr>sl_input := inp\<rparr>;
     if cmds = [] then Some (\<lparr>drained = 0, intercepted_ns = elapsed\<rparr>, sl2)
     else do {
       (cmd, sl3) \<leftarrow> pipeline hypot clk now_ns sl2 (last cmds);
       let (r, outp) = ring_push (sl_output sl3) cmd;
       let sl4 = sl3\<lparr>sl_output := outp\<rparr>;
       Some (\<lparr>drained = length cmds, intercepted_ns = elapsed\<rparr>,
         case r of Inl _ \<Rightarrow> sl4\<lparr>sl_dropped_out := sl_dropped_out sl4 + 1\<rparr> | Inr _ \<Rightarrow> sl4)
     }
   }"

section \<open>Runs of the loop\<close>

text \<open>The steps of the owning thread, of the producer that pushes commands and of the consumer that pops
  the results.\<close>

inductive loop_step :: "(f64 \<Rightarrow> f64 \<Rightarrow> f64) \<Rightarrow> safety_loop \<Rightarrow> safety_loop \<Rightarrow> bool" for hypot where
  tick: "process_one hypot clk el now sl = Some (st, sl') \<Longrightarrow> loop_step hypot sl sl'"
| pose: "loop_step hypot sl (set_pose p sl)"
| baseline: "loop_step hypot sl (set_autonomy_baseline c sl)"
| mode: "loop_step hypot sl (snd (request_mode clk m sl))"
| estop: "loop_step hypot sl (loop_emergency_stop clk sl)"
| veto_on: "engage_ai_veto cap sl = Some sl' \<Longrightarrow> loop_step hypot sl sl'"
| veto_off: "loop_step hypot sl (disengage_ai_veto sl)"
| produce: "loop_step hypot sl (sl\<lparr>sl_input := snd (ring_push (sl_input sl) c)\<rparr>)"
| consume: "loop_step hypot sl (sl\<lparr>sl_output := snd (ring_pop (sl_output sl))\<rparr>)"

inductive loop_run :: "(f64 \<Rightarrow> f64 \<Rightarrow> f64) \<Rightarrow> safety_loop \<Rightarrow> safety_loop \<Rightarrow> bool" for hypot where
  refl: "loop_run hypot sl sl"
| step: "loop_run hypot sl sl' \<Longrightarrow> loop_step hypot sl' sl'' \<Longrightarrow> loop_run hypot sl sl''"

text \<open>The safe state a latched loop sends.\<close>

definition is_safe :: "control_command \<Rightarrow> bool" where
  "is_safe c \<longleftrightarrow> cmd_axes c = replicate 6 0 \<and> cmd_mode c = as_u8 EmergencyStop \<and> bit (cmd_flags c) 0"

lemma write_emergency_stop_safe: "is_safe (write_emergency_stop seq ts)"
  by (simp add: is_safe_def write_emergency_stop_def command_zeroed_def)

lemma advance_blend_total:
  "\<exists>w bl. advance_blend sl = Some (sl\<lparr>sl_authority := w, sl_blend := bl\<rparr>)"
proof (cases "sl_blend sl")
  case None
  then show ?thesis by (intro exI [of _ "sl_authority sl"] exI [of _ "sl_blend sl"]) (simp add: advance_blend_def)
next
  case (Some b)
  obtain w b' where "blend_advance (f32_div (f32_of_u64 (sc_tick_period_us (sl_cfg sl))) (f32_lit (10 ^ 6))) b = Some (w, b')"
    using blend_advance_total by blast
  then show ?thesis using Some by (auto simp: advance_blend_def)
qed

lemma compensate_axes [simp]: "length (cmd_axes (compensate lc cmd)) = length (cmd_axes cmd)"
  by (simp add: compensate_def Let_def)

lemma mix_authority_axes [simp]: "length (cmd_axes (mix_authority w b cmd)) = length (cmd_axes cmd)"
  by (simp add: mix_authority_def)

text \<open>What the stages and a pass through the pipeline do to the state.\<close>

lemma fence_stage_state:
  assumes "fence_stage hypot clk sl cmd = Some (c, sl')"
  shows "sl' = sl\<lparr>sl_estop_latched := sl_estop_latched sl', sl_machine := sl_machine sl'\<rparr>"
    and "sl_estop_latched sl' \<longleftrightarrow> sl_estop_latched sl \<or> fence_evaluate hypot (sc_fence (sl_cfg sl)) (sl_pose sl) = HardBreach"
    and "sl_machine sl' = (if fence_evaluate hypot (sc_fence (sl_cfg sl)) (sl_pose sl) = HardBreach \<and> \<not> sl_estop_latched sl
           then snd (force_emergency_stop clk (sl_machine sl)) else sl_machine sl)"
    and "length (cmd_axes c) = length (cmd_axes cmd)"
  using assms clamp_command_total [of hypot "sc_fence (sl_cfg sl)" "sl_pose sl" "fence_evaluate hypot (sc_fence (sl_cfg sl)) (sl_pose sl)" cmd]
  by (auto simp: fence_stage_def Let_def bind_eq_Some_conv split: if_splits)

lemma fence_stage_total: "\<exists>c sl'. fence_stage hypot clk sl cmd = Some (c, sl')"
  using clamp_command_total [of hypot "sc_fence (sl_cfg sl)" "sl_pose sl" "fence_evaluate hypot (sc_fence (sl_cfg sl)) (sl_pose sl)" cmd]
  by (auto simp: fence_stage_def Let_def)

lemma override_stage_state:
  assumes "override_stage now sl cmd = (c, sl')"
  shows "sl' = sl\<lparr>sl_brake_latched := sl_brake_latched sl', sl_last_out := c\<rparr>" and "sl_estop_latched sl \<Longrightarrow> is_safe c"
  using assms write_emergency_stop_safe by (auto simp: override_stage_def Let_def split: prod.splits if_splits)

lemma pipelineE:
  assumes "pipeline hypot clk now sl cmd = Some (c, sl')"
  obtains lat w bl t cmd3 cmd4 sl2 t' cmd5 where
    "lat = snd (latency_observe now (cmd_timestamp_ns cmd) (sl_latency sl))"
    "veto_apply (sl_veto sl) (mix_authority w (sl_baseline sl) (compensate lat cmd)) = Some (t, cmd3)"
    "fence_stage hypot clk (sl\<lparr>sl_latency := lat, sl_authority := w, sl_blend := bl\<rparr>) cmd3 = Some (cmd4, sl2)"
    "limits_apply (sc_limits (sl_cfg sl2)) (sl_last_out sl2) cmd4 = Some (t', cmd5)"
    "override_stage now sl2 cmd5 = (c, sl')"
proof -
  define lat where "lat = snd (latency_observe now (cmd_timestamp_ns cmd) (sl_latency sl))"
  obtain w bl where ab: "advance_blend (sl\<lparr>sl_latency := lat\<rparr>) = Some (sl\<lparr>sl_latency := lat, sl_authority := w, sl_blend := bl\<rparr>)"
    using advance_blend_total [of "sl\<lparr>sl_latency := lat\<rparr>"] by auto
  from assms obtain t cmd3 cmd4 sl2 t' cmd5 where
    "veto_apply (sl_veto sl) (mix_authority w (sl_baseline sl) (compensate lat cmd)) = Some (t, cmd3)"
    "fence_stage hypot clk (sl\<lparr>sl_latency := lat, sl_authority := w, sl_blend := bl\<rparr>) cmd3 = Some (cmd4, sl2)"
    "limits_apply (sc_limits (sl_cfg sl2)) (sl_last_out sl2) cmd4 = Some (t', cmd5)"
    "override_stage now sl2 cmd5 = (c, sl')"
    by (clarsimp simp: pipeline_def Let_def lat_def [symmetric] ab bind_eq_Some_conv)
  with lat_def show ?thesis by (rule that)
qed

lemma pipeline_state:
  assumes "pipeline hypot clk now sl cmd = Some (c, sl')"
  shows "sl_last_out sl' = c" and "sl_output sl' = sl_output sl" and "sl_input sl' = sl_input sl" and "sl_cfg sl' = sl_cfg sl"
    and "sl_estop_latched sl' \<longleftrightarrow> sl_estop_latched sl \<or> fence_evaluate hypot (sc_fence (sl_cfg sl)) (sl_pose sl) = HardBreach"
    and "sl_estop_latched sl' \<Longrightarrow> is_safe c"
    and "sl_machine sl' = (if fence_evaluate hypot (sc_fence (sl_cfg sl)) (sl_pose sl) = HardBreach \<and> \<not> sl_estop_latched sl
           then snd (force_emergency_stop clk (sl_machine sl)) else sl_machine sl)"
proof -
  from assms obtain lat w bl cmd3 cmd4 sl2 cmd5 where
    f: "fence_stage hypot clk (sl\<lparr>sl_latency := lat, sl_authority := w, sl_blend := bl\<rparr>) cmd3 = Some (cmd4, sl2)" and
    o: "override_stage now sl2 cmd5 = (c, sl')" by (rule pipelineE)
  note fs = fence_stage_state [OF f, simplified] and os = override_stage_state [OF o]
  have s2: "sl_output sl2 = sl_output sl" "sl_input sl2 = sl_input sl" "sl_cfg sl2 = sl_cfg sl"
    by (subst fs(1), simp)+
  have s': "sl_estop_latched sl' = sl_estop_latched sl2" "sl_machine sl' = sl_machine sl2" "sl_output sl' = sl_output sl2"
    "sl_input sl' = sl_input sl2" "sl_cfg sl' = sl_cfg sl2" "sl_last_out sl' = c"
    by (subst os(1), simp)+
  show "sl_last_out sl' = c" "sl_output sl' = sl_output sl" "sl_input sl' = sl_input sl" "sl_cfg sl' = sl_cfg sl"
    "sl_estop_latched sl' \<longleftrightarrow> sl_estop_latched sl \<or> fence_evaluate hypot (sc_fence (sl_cfg sl)) (sl_pose sl) = HardBreach"
    "sl_machine sl' = (if fence_evaluate hypot (sc_fence (sl_cfg sl)) (sl_pose sl) = HardBreach \<and> \<not> sl_estop_latched sl
           then snd (force_emergency_stop clk (sl_machine sl)) else sl_machine sl)"
    using s' s2 fs(2,3) by simp_all
  show "sl_estop_latched sl' \<Longrightarrow> is_safe c" using os(2) s'(1) by simp
qed

lemma pipeline_total:
  assumes "limits_ok (sc_limits (sl_cfg sl))" and "length (cmd_axes cmd) = 6"
  shows "\<exists>c sl'. pipeline hypot clk now sl cmd = Some (c, sl')"
proof -
  define lat where "lat = snd (latency_observe now (cmd_timestamp_ns cmd) (sl_latency sl))"
  obtain w bl where ab: "advance_blend (sl\<lparr>sl_latency := lat\<rparr>) = Some (sl\<lparr>sl_latency := lat, sl_authority := w, sl_blend := bl\<rparr>)"
    using advance_blend_total [of "sl\<lparr>sl_latency := lat\<rparr>"] by auto
  let ?s = "sl\<lparr>sl_latency := lat, sl_authority := w, sl_blend := bl\<rparr>"
  obtain t cmd3 where v: "veto_apply (sl_veto sl) (mix_authority w (sl_baseline sl) (compensate lat cmd)) = Some (t, cmd3)"
    using veto_apply_total [of "mix_authority w (sl_baseline sl) (compensate lat cmd)" "sl_veto sl"] assms(2) by auto
  then have l3: "length (cmd_axes cmd3) = 6" using veto_apply_axes(1) [OF v] assms(2) by simp
  obtain cmd4 sl2 where f: "fence_stage hypot clk ?s cmd3 = Some (cmd4, sl2)" using fence_stage_total by blast
  have "sl_cfg sl2 = sl_cfg sl" by (subst fence_stage_state(1) [OF f]) simp
  then obtain t' cmd5 where "limits_apply (sc_limits (sl_cfg sl2)) (sl_last_out sl2) cmd4 = Some (t', cmd5)"
    using limits_apply_total [of "sc_limits (sl_cfg sl)" cmd4 "sl_last_out sl2"] assms(1) fence_stage_state(4) [OF f] l3 by auto
  then show ?thesis using v f ab by (auto simp: pipeline_def Let_def lat_def [symmetric])
qed

lemma process_one_cases:
  assumes "process_one hypot clk el now sl = Some (st, sl')"
  obtains (idle) w bl inp where "drain_ring (sl_input sl) [] = ([], inp)" "drained st = 0"
      "sl' = sl\<lparr>sl_authority := w, sl_blend := bl, sl_input := inp\<rparr>"
  | (command) w bl cmds inp c sl3 where "drain_ring (sl_input sl) [] = (cmds, inp)" "cmds \<noteq> []" "drained st = length cmds"
      "pipeline hypot clk now (sl\<lparr>sl_authority := w, sl_blend := bl, sl_input := inp\<rparr>) (last cmds) = Some (c, sl3)"
      "sl' = sl3\<lparr>sl_output := snd (ring_push (sl_output sl3) c), sl_dropped_out := sl_dropped_out sl'\<rparr>"
proof -
  obtain w bl where ab: "advance_blend sl = Some (sl\<lparr>sl_authority := w, sl_blend := bl\<rparr>)" using advance_blend_total by blast
  obtain cmds inp where d: "drain_ring (sl_input sl) [] = (cmds, inp)" by fastforce
  show ?thesis
  proof (cases "cmds = []")
    case True
    then show ?thesis using assms d idle [of inp bl w] by (auto simp: process_one_def ab)
  next
    case False
    let ?s = "sl\<lparr>sl_authority := w, sl_blend := bl, sl_input := inp\<rparr>"
    from False assms obtain c sl3 where p: "pipeline hypot clk now ?s (last cmds) = Some (c, sl3)"
      by (cases "pipeline hypot clk now ?s (last cmds)") (auto simp: process_one_def ab d)
    obtain r outp where r: "ring_push (sl_output sl3) c = (r, outp)" by fastforce
    have "drained st = length cmds" "sl' = sl3\<lparr>sl_output := snd (ring_push (sl_output sl3) c), sl_dropped_out := sl_dropped_out sl'\<rparr>"
      using assms False p r by (auto simp: process_one_def ab d Let_def split: sum.splits)
    with p have "pipeline hypot clk now ?s (last cmds) = Some (c, sl3)" "drained st = length cmds"
      "sl' = sl3\<lparr>sl_output := snd (ring_push (sl_output sl3) c), sl_dropped_out := sl_dropped_out sl'\<rparr>" by blast+
    then show ?thesis using command d False by blast
  qed
qed

lemma process_one_total:
  assumes "limits_ok (sc_limits (sl_cfg sl))" and "ring_inv (sl_input sl)"
    and "list_all (\<lambda>c. length (cmd_axes c) = 6) (ring_contents (sl_input sl))"
  shows "\<exists>st sl'. process_one hypot clk el now sl = Some (st, sl')"
proof -
  obtain w bl where ab: "advance_blend sl = Some (sl\<lparr>sl_authority := w, sl_blend := bl\<rparr>)" using advance_blend_total by blast
  obtain inp where d: "drain_ring (sl_input sl) [] = (ring_contents (sl_input sl), inp)"
    using drain_ring_result [OF assms(2), of "[]"] by auto
  show ?thesis
  proof (cases "ring_contents (sl_input sl) = []")
    case True
    then show ?thesis by (simp add: process_one_def ab d)
  next
    case False
    then have "length (cmd_axes (last (ring_contents (sl_input sl)))) = 6" using assms(3) by (simp add: list_all_iff)
    then obtain c sl3 where "pipeline hypot clk now (sl\<lparr>sl_authority := w, sl_blend := bl, sl_input := inp\<rparr>)
        (last (ring_contents (sl_input sl))) = Some (c, sl3)"
      using pipeline_total [of "sl\<lparr>sl_authority := w, sl_blend := bl, sl_input := inp\<rparr>"] assms(1) by fastforce
    then show ?thesis using False by (simp add: process_one_def ab d case_prod_unfold Let_def)
  qed
qed

text \<open>The stop is latched, and everything waiting for the actuators is the safe state.\<close>

definition stopped :: "safety_loop \<Rightarrow> bool" where
  "stopped sl \<longleftrightarrow> sl_estop_latched sl \<and> ring_inv (sl_output sl) \<and> list_all is_safe (ring_contents (sl_output sl))"

lemma ring_push_all:
  assumes "ring_inv r" and "list_all P (ring_contents r)" and "P v"
  shows "ring_inv (snd (ring_push r v)) \<and> list_all P (ring_contents (snd (ring_push r v)))"
  using spsc.push_result [OF assms(1), of v] assms by simp

lemma ring_pop_all:
  assumes "ring_inv r" and "list_all P (ring_contents r)"
  shows "ring_inv (snd (ring_pop r)) \<and> list_all P (ring_contents (snd (ring_pop r)))"
  using spsc.pop_result [OF assms(1)] assms(2) by (cases "ring_contents r") auto

lemma set_pose_fields [simp]: "sl_estop_latched (set_pose p sl) = sl_estop_latched sl" "sl_output (set_pose p sl) = sl_output sl"
  by (simp_all add: set_pose_def Let_def)

lemma request_mode_fields [simp]:
  "sl_estop_latched (snd (request_mode clk m sl)) = sl_estop_latched sl" "sl_output (snd (request_mode clk m sl)) = sl_output sl"
  by (simp_all add: request_mode_def Let_def split: prod.splits sum.splits)

lemma tick_stopped:
  assumes "process_one hypot clk el now sl = Some (st, sl')" and "stopped sl"
  shows "stopped sl'"
  using assms(1)
proof (cases rule: process_one_cases)
  case (idle w bl inp)
  then show ?thesis using assms(2) by (simp add: stopped_def)
next
  case (command w bl cmds inp c sl3)
  note ps = pipeline_state [OF command(4), simplified]
  have "is_safe c" "sl_estop_latched sl3" using ps assms(2) by (simp_all add: stopped_def)
  then have "ring_inv (snd (ring_push (sl_output sl3) c)) \<and> list_all is_safe (ring_contents (snd (ring_push (sl_output sl3) c)))"
    using ring_push_all [of "sl_output sl" is_safe c] assms(2) ps(2) by (simp add: stopped_def)
  then show ?thesis using \<open>sl_estop_latched sl3\<close> unfolding stopped_def by (subst command(5), simp)+
qed

lemma step_stopped: "loop_step hypot sl sl' \<Longrightarrow> stopped sl \<Longrightarrow> stopped sl'"
proof (induction rule: loop_step.induct)
  case (tick clk el now sl st sl')
  then show ?case by (rule tick_stopped)
next
  case (consume sl)
  then show ?case using ring_pop_all [of "sl_output sl" is_safe] by (simp add: stopped_def)
qed (auto simp: stopped_def set_autonomy_baseline_def loop_emergency_stop_def engage_ai_veto_def disengage_ai_veto_def bind_eq_Some_conv)

section \<open>Properties\<close>

text \<open>C17. The emergency stop is final: once it is latched and the output ring holds nothing but the safe
  state, then after any sequence of ticks, pose updates, mode requests, veto changes and pushes of
  commands it is still latched, and everything an actuator can pop is the safe state: all axes
  neutral, emergency mode, stop flag set.\<close>

theorem estop_is_final:
  assumes "loop_run hypot sl sl'" and "sl_estop_latched sl" and "ring_inv (sl_output sl)"
    and "list_all is_safe (ring_contents (sl_output sl))"
  shows "sl_estop_latched sl' \<and> list_all is_safe (ring_contents (sl_output sl'))"
proof -
  have "stopped sl" using assms(2-4) by (simp add: stopped_def)
  with assms(1) have "stopped sl'" by (induction rule: loop_run.induct) (auto intro: step_stopped)
  then show ?thesis by (simp add: stopped_def)
qed

text \<open>A loop between two fresh rings, for concrete runs.\<close>

definition demo_loop :: "safety_loop \<Rightarrow> bool" where
  "demo_loop sl \<longleftrightarrow> loop_new (snd (ring_push (with_capacity 2) (command_zeroed FullTeleop))) (with_capacity 2)
     machine_new safety_config_default = Some sl"

lemma demo_loop_exists: "\<exists>sl. demo_loop sl"
  using f64_clamp_total [OF f64_lit_mono [of "1 / 100" 1], of "f64_lit (2 / 10)"]
  by (auto simp: demo_loop_def loop_new_def latency_new_def Let_def)

lemma demo_loop_fields:
  assumes "demo_loop sl"
  shows "sl_output sl = with_capacity 2" and "sl_cfg sl = safety_config_default" and "sl_pose sl = pose_default"
    and "sl_estop_latched sl = False" and "sl_input sl = snd (ring_push (with_capacity 2) (command_zeroed FullTeleop))"
  using assms by (auto simp: demo_loop_def loop_new_def Let_def bind_eq_Some_conv)

lemma fresh_ring: "ring_inv (with_capacity 2 :: 'a spsc_ring)" "ring_contents (with_capacity 2 :: 'a spsc_ring) = []"
    "ring_room (with_capacity 2 :: 'a spsc_ring) \<ge> 2"
  using with_capacity_inv [of 2] by simp_all

theorem estop_is_final_witness:
  "\<exists>sl. demo_loop sl \<and> (let sl' = set_pose pose_default (loop_emergency_stop 1 sl)
     in sl_estop_latched sl' \<and> list_all is_safe (ring_contents (sl_output sl')))"
proof -
  obtain sl where d: "demo_loop sl" using demo_loop_exists by blast
  let ?s = "loop_emergency_stop 1 sl"
  have "loop_run f64_add ?s (set_pose pose_default ?s)" using loop_run.refl loop_step.pose by (rule loop_run.step)
  from estop_is_final [OF this] d demo_loop_fields(1) [OF d] fresh_ring [where 'a = control_command] show ?thesis
    by (intro exI [of _ sl]) (simp add: Let_def loop_emergency_stop_def)
qed

text \<open>C18. A hard breach of the geofence stops the vehicle in the tick that sees it: with a valid
  configuration the tick returns, the latch is set, the machine is forced into emergency mode unless
  the latch was set before, and the command sent is the safe state.\<close>

theorem breach_stops_same_tick:
  assumes "limits_ok (sc_limits (sl_cfg sl))" and "ring_inv (sl_input sl)" and "ring_contents (sl_input sl) \<noteq> []"
    and "list_all (\<lambda>c. length (cmd_axes c) = 6) (ring_contents (sl_input sl))"
    and "fence_evaluate hypot (sc_fence (sl_cfg sl)) (sl_pose sl) = HardBreach"
  shows "\<exists>st sl'. process_one hypot clk el now sl = Some (st, sl') \<and> sl_estop_latched sl' \<and> is_safe (sl_last_out sl') \<and>
    sl_output sl' = snd (ring_push (sl_output sl) (sl_last_out sl')) \<and>
    (sl_estop_latched sl \<or> current (sl_machine sl') = EmergencyStop)"
proof -
  obtain st sl' where p: "process_one hypot clk el now sl = Some (st, sl')" using process_one_total [OF assms(1,2,4)] by blast
  from p show ?thesis
  proof (cases rule: process_one_cases)
    case (idle w bl inp)
    then show ?thesis using drain_ring_result [OF assms(2), of "[]"] assms(3) by auto
  next
    case (command w bl cmds inp c sl3)
    note ps = pipeline_state [OF command(4), simplified]
    have "sl_estop_latched sl3" "is_safe c" using ps assms(5) by simp_all
    moreover have "sl_estop_latched sl \<or> current (sl_machine sl3) = EmergencyStop"
      using ps(7) assms(5) by (auto simp: force_emergency_stop_def Let_def)
    moreover have "sl_estop_latched sl' = sl_estop_latched sl3" "sl_last_out sl' = c" "sl_machine sl' = sl_machine sl3"
        "sl_output sl' = snd (ring_push (sl_output sl) c)"
      by (subst command(5), simp add: ps)+
    ultimately show ?thesis using p by auto
  qed
qed

theorem breach_stops_same_tick_witness:
  "\<exists>sl. demo_loop sl \<and> (let sl1 = sl\<lparr>sl_cfg := (sl_cfg sl)\<lparr>sc_fence := geo_fence_default\<lparr>min_alt_m := f64_lit 10\<rparr>\<rparr>\<rparr>
     in \<exists>st sl'. process_one f64_add 1 0 5 sl1 = Some (st, sl') \<and> sl_estop_latched sl' \<and> is_safe (sl_last_out sl'))"
proof -
  obtain sl where d: "demo_loop sl" using demo_loop_exists by blast
  note df = demo_loop_fields [OF d]
  let ?s = "sl\<lparr>sl_cfg := (sl_cfg sl)\<lparr>sc_fence := geo_fence_default\<lparr>min_alt_m := f64_lit 10\<rparr>\<rparr>\<rparr>"
  have room: "length (ring_contents (with_capacity 2 :: control_command spsc_ring)) < ring_room (with_capacity 2 :: control_command spsc_ring)"
    using fresh_ring(2,3) [where 'a = control_command] by simp
  have r: "ring_inv (sl_input ?s)" "ring_contents (sl_input ?s) = [command_zeroed FullTeleop]"
    using spsc.push_room_result [OF fresh_ring(1) room, of "command_zeroed FullTeleop"] fresh_ring(2) df(5) by simp_all
  have "mag_val 52 11 1 \<le> 10" by (simp add: mag_val_def two_pow_def e_min_def)
  from mag_bits_mono [OF this, of 52 11] have "mag_bits 52 11 10 \<noteq> 0" unfolding mag_bits_of_val by simp
  then have "0 < mag_val 52 11 (mag_bits 52 11 10)"
    using mag_val_nonneg [of 52 11 "mag_bits 52 11 10"] mag_val_zero_iff [of 52 11 "mag_bits 52 11 10"] by linarith
  then have "f64_lt 0 (f64_lit 10)"
    by (auto simp: f64_lt_def f64_lit_def f64_val_of rnd_simps sgn_val_def)
  then have b: "fence_evaluate f64_add (sc_fence (sl_cfg ?s)) (sl_pose ?s) = HardBreach"
    by (simp add: fence_evaluate_def Let_def df pose_default_def)
  have "limits_ok (sc_limits (sl_cfg ?s))" using limits_default_ok by (simp add: df safety_config_default_def)
  from breach_stops_same_tick [OF this r(1) _ _ b, of 1 0 5] r(2)
  obtain st sl' where "process_one f64_add 1 0 5 ?s = Some (st, sl')" "sl_estop_latched sl'" "is_safe (sl_last_out sl')" by auto
  with d show ?thesis by (intro exI [of _ sl]) (simp add: Let_def)
qed

text \<open>A value that is not a number sticks: when an axis of the last output is not a number, every
  later command that is not an emergency stop leaves that axis not a number, whatever the operator
  sends, so one corrupt axis value reaches the actuators for good.\<close>

theorem nan_axis_sticks:
  assumes "pipeline hypot clk now sl cmd = Some (c, sl')" and "\<not> sl_estop_latched sl'" and "length (cmd_axes cmd) = 6"
    and "ax < 6" and "ax \<noteq> THROTTLE" and "f32_is_nan (axis_of (sl_last_out sl) ax)"
  shows "f32_is_nan (axis_of (sl_last_out sl') ax)"
proof -
  from assms(1) obtain lat w bl t cmd3 cmd4 sl2 t' cmd5 where
    v: "veto_apply (sl_veto sl) (mix_authority w (sl_baseline sl) (compensate lat cmd)) = Some (t, cmd3)" and
    f: "fence_stage hypot clk (sl\<lparr>sl_latency := lat, sl_authority := w, sl_blend := bl\<rparr>) cmd3 = Some (cmd4, sl2)" and
    l: "limits_apply (sc_limits (sl_cfg sl2)) (sl_last_out sl2) cmd4 = Some (t', cmd5)" and
    o: "override_stage now sl2 cmd5 = (c, sl')" by (rule pipelineE)
  have l4: "length (cmd_axes cmd4) = 6" using fence_stage_state(4) [OF f] veto_apply_axes(1) [OF v] assms(3) by simp
  have "sl_last_out sl2 = sl_last_out sl" by (subst fence_stage_state(1) [OF f]) simp
  with limits_apply_axes(1) [OF l l4 assms(4)] assms(6) have "f32_is_nan (axis_of cmd5 ax)" using slew_value_nan by auto
  moreover have "axis_of (snd (vertical_brake sl2 cmd5)) ax = axis_of cmd5 ax"
    using assms(5) by (simp add: vertical_brake_def Let_def axis_set_axis)
  moreover have "sl_estop_latched sl2 = sl_estop_latched sl'" by (subst override_stage_state(1) [OF o]) simp
  ultimately show ?thesis using o assms(2) pipeline_state(1) [OF assms(1)]
    by (auto simp: override_stage_def Let_def split: prod.splits)
qed

theorem nan_axis_sticks_witness:
  "\<exists>sl. demo_loop sl \<and> (\<exists>c sl'. pipeline (\<lambda>a b. f64_of NaN) 1 5 (sl\<lparr>sl_last_out := set_axis ROLL (f32_of NaN) (command_zeroed Auto),
       sl_pose := pose_default\<lparr>pose_z := f64_of NaN\<rparr>\<rparr>) (command_zeroed FullTeleop) = Some (c, sl') \<and> f32_is_nan (axis_of (sl_last_out sl') ROLL))"
proof -
  obtain sl where d: "demo_loop sl" using demo_loop_exists by blast
  note df = demo_loop_fields [OF d]
  let ?s = "sl\<lparr>sl_last_out := set_axis ROLL (f32_of NaN) (command_zeroed Auto), sl_pose := pose_default\<lparr>pose_z := f64_of NaN\<rparr>\<rparr>"
  have "limits_ok (sc_limits (sl_cfg ?s))" using limits_default_ok by (simp add: df safety_config_default_def)
  then obtain c sl' where p: "pipeline (\<lambda>a b. f64_of NaN) 1 5 ?s (command_zeroed FullTeleop) = Some (c, sl')"
    using pipeline_total [of ?s "command_zeroed FullTeleop" "\<lambda>a b. f64_of NaN" 1 5] by auto
  have nan: "f64_is_nan (f64_of NaN)" by (simp add: f64_is_nan_def f64_val_of rnd_simps)
  then have "fence_evaluate (\<lambda>a b. f64_of NaN) g (pose_default\<lparr>pose_z := f64_of NaN\<rparr>) = Inside" for g
    by (simp add: fence_evaluate_def horizontal_dist_def Let_def)
  then have "\<not> sl_estop_latched sl'" using pipeline_state(5) [OF p] by (simp add: df)
  moreover have "f32_is_nan (axis_of (sl_last_out ?s) ROLL)"
    by (simp add: axis_set_axis axis_defs f32_is_nan_def f32_val_of rnd_simps)
  ultimately show ?thesis using nan_axis_sticks [OF p, of ROLL] p d by (auto simp: axis_defs)
qed


end
