(* ===== verification/Http.thy ===== *)
theory Http
  imports Json
begin

text \<open>
  The HTTP/1.1 request parser and response builder of the cloud crate (http.rs). A panic of the source
  is the value \<open>None\<close> of the outer option. The operations of the standard library on strings are those
  of its documentation: UTF-8 validation, white space as in Unicode, decimal integers with an optional
  plus sign. The lower-casing of a string that is not ASCII is the argument \<open>low\<close>.
\<close>

section \<open>Strings\<close>

definition is_unicode_ws :: "nat \<Rightarrow> bool" where
  "is_unicode_ws c \<longleftrightarrow> 9 \<le> c \<and> c \<le> 13 \<or> c = 0x20 \<or> c = 0x85 \<or> c = 0xA0 \<or> c = 0x1680 \<or> 0x2000 \<le> c \<and> c \<le> 0x200A \<or>
     c = 0x2028 \<or> c = 0x2029 \<or> c = 0x202F \<or> c = 0x205F \<or> c = 0x3000"

definition trim :: "rstring \<Rightarrow> rstring" where
  "trim s = rev (dropWhile is_unicode_ws (rev (dropWhile is_unicode_ws s)))"

fun split_when :: "(nat \<Rightarrow> bool) \<Rightarrow> rstring \<Rightarrow> rstring list" where
  "split_when p [] = [[]]"
| "split_when p (c # cs) = (if p c then [] # split_when p cs else (c # hd (split_when p cs)) # tl (split_when p cs))"

definition split_whitespace :: "rstring \<Rightarrow> rstring list" where
  "split_whitespace s = filter (\<lambda>w. w \<noteq> []) (split_when is_unicode_ws s)"

fun split_crlf :: "rstring \<Rightarrow> rstring list" where
  "split_crlf [] = [[]]"
| "split_crlf (c # cs) =
     (if c = 13 \<and> cs \<noteq> [] \<and> hd cs = 10 then [] # split_crlf (tl cs)
      else (c # hd (split_crlf cs)) # tl (split_crlf cs))"

definition split_once :: "nat \<Rightarrow> rstring \<Rightarrow> (rstring \<times> rstring) option" where
  "split_once c s = (if c \<in> set s then Some (takeWhile (\<lambda>x. x \<noteq> c) s, tl (dropWhile (\<lambda>x. x \<noteq> c) s)) else None)"

definition to_lowercase :: "(rstring \<Rightarrow> rstring) \<Rightarrow> rstring \<Rightarrow> rstring" where
  "to_lowercase low s = (if ascii s then map ascii_lower s else low s)"

definition parse_u64 :: "rstring \<Rightarrow> u64 option" where
  "parse_u64 s =
     (let ds = (case s of c # cs \<Rightarrow> if c = 43 then cs else s | [] \<Rightarrow> []);
          n = foldl (\<lambda>n c. 10 * n + (c - 48)) 0 ds
      in if ds \<noteq> [] \<and> list_all (\<lambda>c. 48 \<le> c \<and> c \<le> 57) ds \<and> n < 2 ^ 64 then Some (word_of_nat n) else None)"

text \<open>\<open>from_utf8\<close>: one sequence after the other, without overlong forms and surrogates.\<close>

definition is_cont :: "u8 \<Rightarrow> bool" where
  "is_cont b \<longleftrightarrow> 0x80 \<le> unat b \<and> unat b < 0xC0"

fun utf8_decode :: "bytes \<Rightarrow> rstring option" where
  "utf8_decode [] = Some []"
| "utf8_decode (a # bs) =
     (if unat a < 0x80 then map_option (Cons (unat a)) (utf8_decode bs)
      else case bs of
        [] \<Rightarrow> None
      | b # cs \<Rightarrow>
          if \<not> is_cont b then None
          else if 0xC2 \<le> unat a \<and> unat a < 0xE0 then
            map_option (Cons ((unat a - 0xC0) * 64 + (unat b - 0x80))) (utf8_decode cs)
          else case cs of
            [] \<Rightarrow> None
          | c # ds \<Rightarrow>
              if \<not> is_cont c then None
              else if 0xE0 \<le> unat a \<and> unat a < 0xF0 then
                (let n = (unat a - 0xE0) * 4096 + (unat b - 0x80) * 64 + (unat c - 0x80) in
                 if n < 0x800 \<or> \<not> is_scalar n then None else map_option (Cons n) (utf8_decode ds))
              else case ds of
                [] \<Rightarrow> None
              | d # es \<Rightarrow>
                  if \<not> is_cont d \<or> unat a < 0xF0 \<or> 0xF5 \<le> unat a then None
                  else
                    (let n = (unat a - 0xF0) * 262144 + (unat b - 0x80) * 4096 + (unat c - 0x80) * 64 + (unat d - 0x80) in
                     if n < 0x10000 \<or> \<not> is_scalar n then None else map_option (Cons n) (utf8_decode es)))"

section \<open>Requests\<close>

datatype http_method = Get | Post | Put | Delete | Other rstring

definition method_parse :: "rstring \<Rightarrow> http_method" where
  "method_parse s =
     (if s = lit ''GET'' then Get else if s = lit ''POST'' then Post else if s = lit ''PUT'' then Put
      else if s = lit ''DELETE'' then Delete else Other s)"

fun method_as_str :: "http_method \<Rightarrow> rstring" where
  "method_as_str Get = lit ''GET''"
| "method_as_str Post = lit ''POST''"
| "method_as_str Put = lit ''PUT''"
| "method_as_str Delete = lit ''DELETE''"
| "method_as_str (Other s) = s"

datatype http_error = Malformed

definition http_error_fmt :: "http_error \<Rightarrow> rstring" where
  "http_error_fmt e = (case e of Malformed \<Rightarrow> lit ''malformed HTTP request'')"

record request =
  rq_method :: http_method
  rq_path :: rstring
  rq_query :: rstring
  rq_headers :: "(rstring \<times> rstring) list"
  rq_body :: bytes

definition split_query :: "rstring \<Rightarrow> rstring \<times> rstring" where
  "split_query target = (case split_once 63 target of Some pq \<Rightarrow> pq | None \<Rightarrow> (target, []))"

fun position_of :: "bytes \<Rightarrow> bytes \<Rightarrow> nat option" where
  "position_of needle [] = None"
| "position_of needle (b # bs) =
     (if take (length needle) (b # bs) = needle then Some 0 else map_option Suc (position_of needle bs))"

definition find_subslice :: "bytes \<Rightarrow> bytes \<Rightarrow> nat option" where
  "find_subslice haystack needle =
     (if needle = [] \<or> length haystack < length needle then None else position_of needle haystack)"

definition CRLF2 :: bytes where "CRLF2 = [13, 10, 13, 10]"

text \<open>The loop over the header lines, with the content length of the last such header.\<close>

fun header_lines :: "(rstring \<Rightarrow> rstring) \<Rightarrow> rstring list \<Rightarrow> usize \<Rightarrow> (rstring \<times> rstring) list \<times> usize" where
  "header_lines low [] cl = ([], cl)"
| "header_lines low (line # lines) cl =
     (if line = [] then header_lines low lines cl
      else case split_once 58 line of
        None \<Rightarrow> header_lines low lines cl
      | Some (k, v) \<Rightarrow>
          let k' = to_lowercase low (trim k); v' = trim v;
              cl' = (if k' = lit ''content-length'' then (case parse_u64 v' of Some n \<Rightarrow> n | None \<Rightarrow> 0) else cl);
              (hs, n) = header_lines low lines cl'
          in ((k', v') # hs, n))"

definition parse_head :: "(rstring \<Rightarrow> rstring) \<Rightarrow> bytes \<Rightarrow> http_error + (http_method \<times> rstring \<times> rstring \<times> (rstring \<times> rstring) list \<times> usize)" where
  "parse_head low text =
     (case utf8_decode text of
        None \<Rightarrow> Inl Malformed
      | Some header_text \<Rightarrow>
          let lines = split_crlf header_text; parts = split_whitespace (hd lines) in
          if length parts \<noteq> 3 then Inl Malformed
          else
            let m = method_parse (parts ! 0); (path, query) = split_query (parts ! 1);
                (headers, content_length) = header_lines low (tl lines) 0
            in Inr (m, path, query, headers, content_length))"

text \<open>The end of the request is computed in \<open>usize\<close>: it wraps around, and a slice whose end lies before
  its start panics.\<close>

definition request_parse :: "(rstring \<Rightarrow> rstring) \<Rightarrow> bytes \<Rightarrow> (http_error + (request \<times> usize) option) option" where
  "request_parse low buf =
     (case find_subslice buf CRLF2 of
        None \<Rightarrow> Some (Inr None)
      | Some p \<Rightarrow>
          let hend = p + 4 in
          case parse_head low (take (hend - 4) buf) of
            Inl e \<Rightarrow> Some (Inl e)
          | Inr (m, path, query, headers, content_length) \<Rightarrow>
              let total = word_of_nat hend + content_length in
              if word_of_nat (length buf) < total then Some (Inr None)
              else if unat total < hend then None
              else Some (Inr (Some (\<lparr>rq_method = m, rq_path = path, rq_query = query, rq_headers = headers,
                rq_body = take (unat total - hend) (drop hend buf)\<rparr>, total))))"

section \<open>Responses\<close>

record response =
  rs_status :: u16
  rs_headers :: "(rstring \<times> rstring) list"
  rs_body :: bytes

definition response_with_body :: "u16 \<Rightarrow> string \<Rightarrow> bytes \<Rightarrow> response" where
  "response_with_body code content_type body =
     \<lparr>rs_status = code, rs_headers = [(lit ''content-type'', lit content_type), (lit ''content-length'', show_dec (length body))],
      rs_body = body\<rparr>"

definition response_json :: "u16 \<Rightarrow> json \<Rightarrow> response" where
  "response_json code body = response_with_body code ''application/json'' (utf8 (write_to_string body))"

definition response_text :: "u16 \<Rightarrow> rstring \<Rightarrow> response" where
  "response_text code body = response_with_body code ''text/plain; charset=utf-8'' (utf8 body)"

definition response_html :: "u16 \<Rightarrow> rstring \<Rightarrow> response" where
  "response_html code body = response_with_body code ''text/html; charset=utf-8'' (utf8 body)"

definition response_error :: "u16 \<Rightarrow> rstring \<Rightarrow> response" where
  "response_error code msg = response_text code msg"

definition status_text :: "u16 \<Rightarrow> rstring" where
  "status_text code = lit
     (if code = 200 then ''OK'' else if code = 201 then ''Created'' else if code = 204 then ''No Content''
      else if code = 400 then ''Bad Request'' else if code = 401 then ''Unauthorized'' else if code = 403 then ''Forbidden''
      else if code = 404 then ''Not Found'' else if code = 405 then ''Method Not Allowed''
      else if code = 422 then ''Unprocessable Entity'' else if code = 500 then ''Internal Server Error''
      else if code = 501 then ''Not Implemented'' else ''Unknown'')"

definition crlf :: rstring where "crlf = [13, 10]"

definition response_to_bytes :: "response \<Rightarrow> bytes" where
  "response_to_bytes r =
     utf8 (lit ''HTTP/1.1 '' @ show_dec (unat (rs_status r)) @ lit '' '' @ status_text (rs_status r) @ crlf) @
     concat (map (\<lambda>(k, v). utf8 (k @ lit '': '' @ v @ crlf)) (rs_headers r)) @
     utf8 (lit ''connection: close'' @ crlf @ crlf) @ rs_body r"

section \<open>Requests arrive in pieces\<close>

lemma position_of_bound: "position_of n h = Some p \<Longrightarrow> p + length n \<le> length h"
  by (induction h arbitrary: p) (auto split: if_splits dest: arg_cong [where f = length])

lemma position_of_append: "position_of n h = Some p \<Longrightarrow> position_of n (h @ x) = Some p"
proof (induction h arbitrary: p)
  case (Cons b h)
  have le: "p + length n \<le> length (b # h)" using position_of_bound [OF Cons.prems] .
  have same: "take (length n) (b # h @ x) = take (length n) (b # h)"
    using le take_append [of "length n" "b # h" x] by simp
  show ?case
  proof (cases "take (length n) (b # h) = n")
    case True
    then show ?thesis using Cons.prems same by simp
  next
    case False
    then obtain q where "position_of n h = Some q" "p = Suc q" using Cons.prems by auto
    then show ?thesis using Cons.IH False same by simp
  qed
qed simp

lemma position_of_prefix: "position_of n (h @ x) = Some p \<Longrightarrow> p + length n \<le> length h \<Longrightarrow> n \<noteq> [] \<Longrightarrow> position_of n h = Some p"
proof (induction h arbitrary: p)
  case (Cons b h)
  have same: "take (length n) (b # h @ x) = take (length n) (b # h)"
    using Cons.prems(2) take_append [of "length n" "b # h" x] by simp
  show ?case
  proof (cases "take (length n) (b # h) = n")
    case True
    then show ?thesis using Cons.prems(1) same by simp
  next
    case False
    then obtain q where "position_of n (h @ x) = Some q" "p = Suc q" using Cons.prems(1) same by auto
    then show ?thesis using Cons.IH [of q] Cons.prems(2,3) False by simp
  qed
qed simp

lemma find_subslice_append:
  "n \<noteq> [] \<Longrightarrow> find_subslice h n = Some p \<longleftrightarrow> find_subslice (h @ x) n = Some p \<and> p + length n \<le> length h"
proof
  assume n: "n \<noteq> []" and f: "find_subslice h n = Some p"
  then have "position_of n h = Some p" by (auto simp: find_subslice_def split: if_splits)
  then show "find_subslice (h @ x) n = Some p \<and> p + length n \<le> length h"
    using n position_of_append [of n h p x] position_of_bound [of n h p] by (simp add: find_subslice_def)
next
  assume n: "n \<noteq> []" and f: "find_subslice (h @ x) n = Some p \<and> p + length n \<le> length h"
  then have "position_of n (h @ x) = Some p" by (auto simp: find_subslice_def split: if_splits)
  then show "find_subslice h n = Some p" using n f position_of_prefix [of n h x p] by (simp add: find_subslice_def)
qed

text \<open>A complete request: where its head ends, what it says and where its body ends.\<close>

lemma request_parse_complete:
  assumes "length buf < 2 ^ 64"
  shows "request_parse low buf = Some (Inr (Some (r, t))) \<longleftrightarrow>
    (\<exists>p cl. find_subslice buf CRLF2 = Some p \<and>
       parse_head low (take p buf) = Inr (rq_method r, rq_path r, rq_query r, rq_headers r, cl) \<and>
       t = word_of_nat (p + 4) + cl \<and> p + 4 \<le> unat t \<and> unat t \<le> length buf \<and>
       rq_body r = take (unat t - (p + 4)) (drop (p + 4) buf))" (is "?L \<longleftrightarrow> ?R")
proof -
  have len: "word_of_nat (length buf) < (w :: u64) \<longleftrightarrow> length buf < unat w" for w
    using assms by (simp add: word_less_nat_alt unat_of_nat)
  show ?thesis
  proof
    assume ?L
    then show ?R unfolding request_parse_def Let_def
      by (auto simp: len split: option.splits sum.splits prod.splits if_splits)
  next
    assume ?R
    then obtain p cl where h: "find_subslice buf CRLF2 = Some p"
        "parse_head low (take p buf) = Inr (rq_method r, rq_path r, rq_query r, rq_headers r, cl)"
        "t = word_of_nat (p + 4) + cl" "p + 4 \<le> unat t" "unat t \<le> length buf"
        "rq_body r = take (unat t - (p + 4)) (drop (p + 4) buf)" by blast
    have "r = \<lparr>rq_method = rq_method r, rq_path = rq_path r, rq_query = rq_query r, rq_headers = rq_headers r, rq_body = rq_body r\<rparr>"
      by simp
    then show ?L unfolding request_parse_def Let_def h(1) option.case h(3) [symmetric] using h len [of t] by simp
  qed
qed

text \<open>C29. Requests are framed by their bytes and not by the pieces in which they arrive: a buffer holds a
  complete request exactly when every longer buffer holds the same one and it ends within the first.\<close>

theorem request_segmentation:
  assumes "length (buf @ x) < 2 ^ 64"
  shows "request_parse low buf = Some (Inr (Some (r, t))) \<longleftrightarrow>
    request_parse low (buf @ x) = Some (Inr (Some (r, t))) \<and> unat t \<le> length buf"
proof -
  have b: "length buf < 2 ^ 64" using assms by simp
  have f: "find_subslice buf CRLF2 = Some p \<longleftrightarrow> find_subslice (buf @ x) CRLF2 = Some p \<and> p + 4 \<le> length buf" for p
    using find_subslice_append [of CRLF2 buf p x] by (simp add: CRLF2_def numeral_eq_Suc)
  have body: "p + 4 \<le> unat t \<Longrightarrow> unat t \<le> length buf \<Longrightarrow>
      take p (buf @ x) = take p buf \<and> take (unat t - (p + 4)) (drop (p + 4) (buf @ x)) = take (unat t - (p + 4)) (drop (p + 4) buf)" for p
    by simp
  show ?thesis unfolding request_parse_complete [OF b] request_parse_complete [OF assms] f
    using body by (auto simp del: take_append drop_append)
qed

section \<open>A request as a client sends it\<close>

text \<open>Tokens of the request line have no white space, header names are ASCII without colon, header values
  are ASCII and trimmed; the parser lowers the names.\<close>

definition token_ok :: "rstring \<Rightarrow> bool" where
  "token_ok s \<longleftrightarrow> s \<noteq> [] \<and> ascii s \<and> list_all (\<lambda>c. \<not> is_unicode_ws c) s"

definition header_sendable :: "rstring \<times> rstring \<Rightarrow> bool" where
  "header_sendable h \<longleftrightarrow> token_ok (fst h) \<and> 58 \<notin> set (fst h) \<and> ascii (snd h) \<and> 13 \<notin> set (snd h) \<and> trim (snd h) = snd h"

definition header_ok :: "rstring \<times> rstring \<Rightarrow> bool" where
  "header_ok h \<longleftrightarrow> header_sendable h \<and> map ascii_lower (fst h) = fst h"

definition lower_names :: "(rstring \<times> rstring) list \<Rightarrow> (rstring \<times> rstring) list" where
  "lower_names hs = map (\<lambda>(k, v). (map ascii_lower k, v)) hs"

lemma lower_names_ok: "list_all header_ok hs \<Longrightarrow> lower_names hs = hs \<and> list_all header_sendable hs"
  by (induction hs) (auto simp: lower_names_def header_ok_def)

definition header_line :: "rstring \<times> rstring \<Rightarrow> rstring" where
  "header_line h = fst h @ lit '': '' @ snd h"

definition request_text :: "rstring \<Rightarrow> rstring \<Rightarrow> (rstring \<times> rstring) list \<Rightarrow> rstring" where
  "request_text m target hs = (m @ [32] @ target @ lit '' HTTP/1.1'') @ concat (map (\<lambda>h. crlf @ header_line h) hs)"

lemma utf8_decode_ascii: "ascii s \<Longrightarrow> utf8_decode (map word_of_nat s) = Some s"
  by (induction s) (auto simp: ascii_def unat_of_nat)

lemma show_dec_digit_list:
  "show_dec n \<noteq> [] \<and> list_all (\<lambda>c. 48 \<le> c \<and> c \<le> 57) (show_dec n) \<and> foldl (\<lambda>n c. 10 * n + (c - 48)) 0 (show_dec n) = n"
proof (induction n rule: show_dec.induct)
  case (1 n)
  show ?case using 1 by (cases "n < 10") (auto simp: show_dec.simps [of n])
qed

lemma parse_u64_show_dec: "parse_u64 (show_dec (unat (w :: u64))) = Some w"
proof -
  obtain c cs where s: "show_dec (unat w) = c # cs" "c \<noteq> 43"
    using show_dec_digit_list [of "unat w"] by (cases "show_dec (unat w)") auto
  then have "(case show_dec (unat w) of c # cs \<Rightarrow> if c = 43 then cs else show_dec (unat w) | [] \<Rightarrow> []) = show_dec (unat w)" by simp
  then show ?thesis using show_dec_digit_list [of "unat w"] unsigned_less [of w, where 'a = nat] by (simp add: parse_u64_def Let_def)
qed

lemma split_crlf_lines:
  "13 \<notin> set l \<Longrightarrow> \<forall>x \<in> set ls. 13 \<notin> set x \<Longrightarrow> split_crlf (l @ concat (map (\<lambda>x. crlf @ x) ls)) = l # ls"
proof (induction ls arbitrary: l)
  case Nil
  then show ?case by (induction l) auto
next
  case (Cons a ls)
  have "split_crlf (crlf @ a @ concat (map (\<lambda>x. crlf @ x) ls)) = [] # a # ls" using Cons by (simp add: crlf_def)
  with Cons.prems(1) show ?case by (induction l) (auto simp: crlf_def)
qed

lemma split_when_no: "list_all (\<lambda>c. \<not> p c) s \<Longrightarrow> split_when p (s @ r) = (s @ hd (split_when p r)) # tl (split_when p r)"
  by (induction s) (auto, (cases "split_when p r"; simp; metis split_when.elims list.distinct(1)))

lemma split_once_first: "c \<notin> set k \<Longrightarrow> split_once c (k @ c # v) = Some (k, v)"
proof -
  assume "c \<notin> set k"
  then have "takeWhile (\<lambda>x. x \<noteq> c) (k @ c # v) = k \<and> dropWhile (\<lambda>x. x \<noteq> c) (k @ c # v) = c # v" by (induction k) auto
  then show ?thesis by (simp add: split_once_def)
qed

lemma trim_no_ws: "list_all (\<lambda>c. \<not> is_unicode_ws c) s \<Longrightarrow> trim s = s"
proof -
  assume a: "list_all (\<lambda>c. \<not> is_unicode_ws c) s"
  then have "dropWhile is_unicode_ws s = s" by (cases s) auto
  moreover have "dropWhile is_unicode_ws (rev s) = rev s" using a by (cases "rev s") (auto simp: list_all_iff)
  ultimately show ?thesis by (simp add: trim_def)
qed

lemma trim_ends: "s \<noteq> [] \<Longrightarrow> \<not> is_unicode_ws (hd s) \<Longrightarrow> \<not> is_unicode_ws (last s) \<Longrightarrow> trim s = s"
proof -
  assume s: "s \<noteq> []" "\<not> is_unicode_ws (hd s)" "\<not> is_unicode_ws (last s)"
  then have "dropWhile is_unicode_ws s = s" by (cases s) auto
  moreover have "dropWhile is_unicode_ws (rev s) = rev s" using s by (cases s rule: rev_cases) auto
  ultimately show ?thesis by (simp add: trim_def)
qed

lemma trim_space: "trim (32 # s) = trim s"
  by (simp add: trim_def is_unicode_ws_def)

definition content_length_of :: "(rstring \<times> rstring) list \<Rightarrow> usize \<Rightarrow> usize" where
  "content_length_of hs cl = foldl (\<lambda>n (k, v). if k = lit ''content-length'' then (case parse_u64 v of Some n \<Rightarrow> n | None \<Rightarrow> 0) else n) cl hs"

lemma header_lines_sent:
  "list_all header_sendable hs \<Longrightarrow> header_lines low (map header_line hs) cl = (lower_names hs, content_length_of (lower_names hs) cl)"
proof (induction hs arbitrary: cl)
  case (Cons h hs)
  obtain k v where h: "h = (k, v)" by fastforce
  have ok: "token_ok k" "58 \<notin> set k" "trim v = v" using Cons.prems h by (auto simp: header_sendable_def)
  have "split_once 58 (header_line h) = Some (k, 32 # v)"
    using split_once_first [OF ok(2), of "32 # v"] by (simp add: h header_line_def lit_def)
  moreover have "to_lowercase low (trim k) = map ascii_lower k" using ok(1) trim_no_ws [of k] by (simp add: token_ok_def to_lowercase_def)
  moreover have "header_line h \<noteq> []" by (simp add: header_line_def lit_def)
  ultimately show ?case using Cons ok(3) by (simp add: trim_space h content_length_of_def lower_names_def Let_def)
qed (simp add: content_length_of_def lower_names_def)

lemma position_skip: "13 \<notin> set l \<Longrightarrow> position_of CRLF2 (l @ r) = map_option ((+) (length l)) (position_of CRLF2 r)"
  by (induction l; cases "position_of CRLF2 r") (auto simp: CRLF2_def)

lemma position_lines:
  "\<forall>x \<in> set ls. x \<noteq> [] \<and> 13 \<notin> set x \<Longrightarrow>
    position_of CRLF2 (concat (map (\<lambda>x. [13, 10] @ x) ls) @ CRLF2 @ body) = Some (length (concat (map (\<lambda>x. [13, 10] @ x) ls)))"
proof (induction ls)
  case Nil
  then show ?case by (simp add: CRLF2_def)
next
  case (Cons a ls)
  define r where "r = concat (map (\<lambda>x. [13, 10] @ x) ls) @ CRLF2 @ body"
  obtain c cs where a: "a = c # cs" "c \<noteq> 13" using Cons.prems by (cases a) auto
  have IH: "position_of CRLF2 r = Some (length (concat (map (\<lambda>x. [13, 10] @ x) ls)))" using Cons by (simp add: r_def)
  have "13 \<notin> set (10 # a)" using Cons.prems by simp
  note skip = position_skip [OF this, of r]
  have "position_of CRLF2 (13 # (10 # a) @ r) = map_option Suc (position_of CRLF2 ((10 # a) @ r))"
    using a by (simp add: CRLF2_def)
  then show ?case using IH unfolding skip by (simp add: r_def)
qed

lemma token_no_cr: "token_ok s \<Longrightarrow> 13 \<notin> set s"
proof
  assume "token_ok s" "13 \<in> set s"
  then have "\<not> is_unicode_ws 13" by (simp add: token_ok_def list_all_iff)
  then show False by (simp add: is_unicode_ws_def)
qed

lemma ascii_append [simp]: "ascii (s @ t) \<longleftrightarrow> ascii s \<and> ascii t"
  by (simp add: ascii_def)

lemma header_line_ok: "header_sendable h \<Longrightarrow> ascii (header_line h) \<and> 13 \<notin> set (header_line h) \<and> header_line h \<noteq> []"
proof -
  assume "header_sendable h"
  then have "token_ok (fst h)" "ascii (snd h)" "13 \<notin> set (snd h)" by (simp_all add: header_sendable_def)
  moreover have "ascii (lit '': '')" "13 \<notin> set (lit '': '')" by (simp_all add: lit_def ascii_def)
  ultimately show ?thesis using token_no_cr [of "fst h"] by (simp add: header_line_def token_ok_def)
qed

lemma word13: "c < 0x80 \<Longrightarrow> (word_of_nat c :: u8) = 13 \<longleftrightarrow> c = 13"
proof -
  assume "c < 0x80"
  then have "unat (word_of_nat c :: u8) = c" by (simp add: unat_of_nat)
  then show ?thesis by (simp add: word_unat_eq_iff)
qed

lemma find_head_end:
  assumes "ascii l" and "13 \<notin> set l" and "\<forall>x \<in> set ls. ascii x \<and> x \<noteq> [] \<and> 13 \<notin> set x"
    and "t = l @ concat (map (\<lambda>x. crlf @ x) ls)"
  shows "find_subslice (map word_of_nat t @ CRLF2 @ body) CRLF2 = Some (length t)"
proof -
  let ?b = "map (word_of_nat :: nat \<Rightarrow> u8)"
  have t: "?b t = ?b l @ concat (map (\<lambda>x. [13, 10] @ x) (map ?b ls))"
    by (simp add: assms(4) map_concat comp_def crlf_def)
  have no: "13 \<notin> set (?b x)" if "ascii x" "13 \<notin> set x" for x
    using that by (auto simp: ascii_def list_all_iff) (metis word13)
  have "position_of CRLF2 (concat (map (\<lambda>x. [13, 10] @ x) (map ?b ls)) @ CRLF2 @ body) =
      Some (length (concat (map (\<lambda>x. [13, 10] @ x) (map ?b ls))))"
    by (rule position_lines) (use assms(3) no in auto)
  then have "position_of CRLF2 (?b t @ CRLF2 @ body) = Some (length (?b t))"
    unfolding t append.assoc position_skip [OF no [OF assms(1,2)]] by (simp only: option.map length_append)
  then show ?thesis by (simp add: find_subslice_def CRLF2_def)
qed

lemma request_line_parts:
  assumes "token_ok m" and "token_ok target"
  shows "split_whitespace (m @ [32] @ target @ lit '' HTTP/1.1'') = [m, target, lit ''HTTP/1.1'']"
proof -
  have h: "split_when is_unicode_ws (lit '' HTTP/1.1'') = [[], lit ''HTTP/1.1'']" by (simp add: lit_def is_unicode_ws_def)
  have ws: "split_when is_unicode_ws (32 # r) = [] # split_when is_unicode_ws r" for r by (simp add: is_unicode_ws_def)
  have no: "list_all (\<lambda>c. \<not> is_unicode_ws c) m" "list_all (\<lambda>c. \<not> is_unicode_ws c) target"
    using assms by (simp_all add: token_ok_def)
  have "split_when is_unicode_ws (target @ lit '' HTTP/1.1'') = [target, lit ''HTTP/1.1'']"
    using split_when_no [OF no(2), of "lit '' HTTP/1.1''"] by (simp add: h)
  then have "split_when is_unicode_ws (m @ 32 # target @ lit '' HTTP/1.1'') = [m, target, lit ''HTTP/1.1'']"
    using split_when_no [OF no(1), of "32 # target @ lit '' HTTP/1.1''"] by (simp only: ws list.sel append_Nil2)
  then show ?thesis using assms by (simp add: split_whitespace_def token_ok_def lit_def)
qed

lemma parse_head_text:
  assumes "token_ok m" and "token_ok target" and "list_all header_sendable hs"
  shows "parse_head low (map word_of_nat (request_text m target hs)) =
    Inr (method_parse m, fst (split_query target), snd (split_query target), lower_names hs, content_length_of (lower_names hs) 0)"
proof -
  let ?l = "m @ [32] @ target @ lit '' HTTP/1.1''"
  have hl: "\<forall>x \<in> set (map header_line hs). 13 \<notin> set x \<and> ascii x" using assms(3) header_line_ok by (auto simp: list_all_iff)
  have "ascii ?l" "13 \<notin> set ?l" using assms(1,2) token_no_cr by (auto simp: token_ok_def ascii_def lit_def)
  moreover have "request_text m target hs = ?l @ concat (map (\<lambda>x. crlf @ x) (map header_line hs))"
    by (simp add: request_text_def comp_def)
  moreover have "ascii (request_text m target hs)"
    using calculation(1) hl unfolding calculation(3) by (auto simp: ascii_def crlf_def list_all_iff)
  ultimately have "split_crlf (request_text m target hs) = ?l # map header_line hs"
      "utf8_decode (map word_of_nat (request_text m target hs)) = Some (request_text m target hs)"
    using split_crlf_lines [of ?l "map header_line hs"] hl utf8_decode_ascii [of "request_text m target hs"] by simp_all
  then show ?thesis using request_line_parts [OF assms(1,2)] header_lines_sent [OF assms(3)]
    by (simp add: parse_head_def case_prod_beta)
qed

lemma request_text_head_end:
  assumes "token_ok m" and "token_ok target" and "list_all header_sendable hs"
  shows "find_subslice (map word_of_nat (request_text m target hs) @ CRLF2 @ body) CRLF2 = Some (length (request_text m target hs))"
proof -
  have hl: "\<forall>x \<in> set (map header_line hs). ascii x \<and> x \<noteq> [] \<and> 13 \<notin> set x" using assms(3) header_line_ok by (auto simp: list_all_iff)
  have l: "ascii (m @ [32] @ target @ lit '' HTTP/1.1'')" "13 \<notin> set (m @ [32] @ target @ lit '' HTTP/1.1'')"
    using assms(1,2) token_no_cr by (auto simp: token_ok_def ascii_def lit_def)
  have "request_text m target hs = (m @ [32] @ target @ lit '' HTTP/1.1'') @ concat (map (\<lambda>x. crlf @ x) (map header_line hs))"
    by (simp add: request_text_def comp_def)
  then show ?thesis by (rule find_head_end [OF l hl])
qed

lemma request_text_sent:
  assumes "token_ok m" and "token_ok target" and "list_all header_sendable hs" and "unat (content_length_of (lower_names hs) 0) = length body"
    and "bs = map word_of_nat (request_text m target hs) @ CRLF2 @ body" and "length (bs @ rest) < 2 ^ 64"
  shows "request_parse low (bs @ rest) =
    Some (Inr (Some (\<lparr>rq_method = method_parse m, rq_path = fst (split_query target), rq_query = snd (split_query target),
      rq_headers = lower_names hs, rq_body = body\<rparr>, word_of_nat (length bs))))"
proof -
  let ?t = "request_text m target hs"
  note f = request_text_head_end [OF assms(1-3), of "body @ rest"]
  have len: "length bs = length ?t + 4 + length body" by (simp add: assms(5) CRLF2_def)
  have cl: "content_length_of (lower_names hs) 0 = word_of_nat (length body)" by (simp flip: assms(4))
  have u: "unat (word_of_nat (length bs) :: u64) = length bs" using assms(6) by (simp add: unat_of_nat)
  show ?thesis unfolding request_parse_complete [OF assms(6)]
  proof (intro exI conjI)
    show "find_subslice (bs @ rest) CRLF2 = Some (length ?t)" using f by (simp add: assms(5))
    show "word_of_nat (length bs) = word_of_nat (length ?t + 4) + content_length_of (lower_names hs) 0" by (simp add: cl len)
  qed (use parse_head_text [OF assms(1-3)] u len in \<open>simp_all add: assms(5) CRLF2_def\<close>)
qed

lemma request_text_parsed:
  assumes "token_ok m" and "token_ok target" and "list_all header_ok hs" and "unat (content_length_of hs 0) = length body"
    and "bs = map word_of_nat (request_text m target hs) @ CRLF2 @ body" and "length (bs @ rest) < 2 ^ 64"
  shows "request_parse low (bs @ rest) =
    Some (Inr (Some (\<lparr>rq_method = method_parse m, rq_path = fst (split_query target), rq_query = snd (split_query target),
      rq_headers = hs, rq_body = body\<rparr>, word_of_nat (length bs))))"
  using request_text_sent [OF assms(1,2) _ _ assms(5,6), of low] lower_names_ok [OF assms(3)] assms(4) by simp

text \<open>A request whose header names are lower-case tokens and whose values are trimmed is parsed back to
  its method, target, headers and body, and its length is exactly the length of its bytes, also when
  more bytes follow.\<close>

theorem request_roundtrip:
  assumes "token_ok m" and "token_ok target" and "list_all header_ok hs" and "unat (content_length_of hs 0) = length body"
    and "bs = map word_of_nat (request_text m target hs) @ CRLF2 @ body" and "length (bs @ rest) < 2 ^ 64"
  shows "request_parse low (bs @ rest) =
    Some (Inr (Some (\<lparr>rq_method = method_parse m, rq_path = fst (split_query target), rq_query = snd (split_query target),
      rq_headers = hs, rq_body = body\<rparr>, word_of_nat (length bs))))"
  by (rule request_text_parsed [OF assms])

lemma example_tokens: "token_ok (lit ''POST'')" "token_ok (lit ''/mcp?a'')"
  "header_ok (lit ''content-length'', lit ''2'')" "header_ok (lit ''content-length'', lit ''18446744073709551615'')"
  by (simp_all add: token_ok_def header_ok_def header_sendable_def ascii_def lit_def is_unicode_ws_def ascii_lower_def trim_def)

lemma example_lengths: "content_length_of [(lit ''content-length'', lit ''2'')] 0 = 2"
  "content_length_of [(lit ''content-length'', lit ''18446744073709551615'')] 0 = - 1"
  by (simp_all add: content_length_of_def parse_u64_def lit_def)

lemma example_request:
  "list_all header_ok [(lit ''content-length'', lit ''2'')]"
  "unat (content_length_of [(lit ''content-length'', lit ''2'')] 0) = length [1, 2 :: u8]"
  by (simp_all add: example_tokens example_lengths)

theorem request_roundtrip_witness:
  "request_parse id (map word_of_nat (request_text (lit ''POST'') (lit ''/mcp?a'') [(lit ''content-length'', lit ''2'')]) @ CRLF2 @ [1, 2] @ [9]) =
    Some (Inr (Some (\<lparr>rq_method = Post, rq_path = lit ''/mcp'', rq_query = lit ''a'',
      rq_headers = [(lit ''content-length'', lit ''2'')], rq_body = [1, 2]\<rparr>, 45)))"
  using request_roundtrip [OF example_tokens(1,2) example_request refl, of "[9]" id]
  by (simp add: CRLF2_def request_text_def header_line_def crlf_def lit_def method_parse_def
      split_query_def split_once_def)

theorem request_segmentation_witness:
  "\<nexists>r. request_parse id (map word_of_nat (request_text (lit ''POST'') (lit ''/mcp?a'') [(lit ''content-length'', lit ''2'')]) @ CRLF2 @ [1]) =
    Some (Inr (Some (r, 45)))"
  using request_segmentation [of "map word_of_nat (request_text (lit ''POST'') (lit ''/mcp?a'') [(lit ''content-length'', lit ''2'')]) @ CRLF2 @ [1]" "[2]" id _ 45]
  by (simp add: CRLF2_def request_text_def header_line_def crlf_def lit_def)

text \<open>C40. A content length so large that the end of the request wraps around makes the parser panic: one
  request of a few bytes stops the server.\<close>

theorem content_length_panics:
  assumes "token_ok m" and "token_ok target" and "list_all header_ok hs"
    and "bs = map word_of_nat (request_text m target hs) @ CRLF2 @ body" and "length bs < 2 ^ 64"
    and "2 ^ 64 \<le> length (request_text m target hs) + 4 + unat (content_length_of hs 0)"
  shows "request_parse low bs = None"
proof -
  define p cl where "p = length (request_text m target hs)" and "cl = content_length_of hs 0"
  have len: "p + 4 \<le> length bs" by (simp add: assms(4) CRLF2_def p_def)
  have hs: "lower_names hs = hs" "list_all header_sendable hs" using lower_names_ok [OF assms(3)] by simp_all
  have f: "find_subslice bs CRLF2 = Some p" using request_text_head_end [OF assms(1,2) hs(2)] by (simp add: assms(4) p_def)
  have h: "parse_head low (take p bs) = Inr (method_parse m, fst (split_query target), snd (split_query target), hs, cl)"
    using parse_head_text [OF assms(1,2) hs(2)] by (simp add: assms(4) p_def cl_def hs(1))
  have "unat (word_of_nat (p + 4) + cl) = (p + 4 + unat cl) mod 2 ^ 64" by (simp add: unat_word_ariths unat_of_nat mod_simps)
  also have "\<dots> = p + 4 + unat cl - 2 ^ 64"
    using assms(5,6) len unsigned_less [of cl, where 'a = nat] by (simp add: p_def cl_def le_mod_geq)
  finally have t: "unat (word_of_nat (p + 4) + cl) < p + 4" using unsigned_less [of cl, where 'a = nat] by simp
  then have "\<not> word_of_nat (length bs) < word_of_nat (p + 4) + cl"
    using len assms(5) by (simp add: word_less_nat_alt unat_of_nat)
  then show ?thesis using t by (simp add: request_parse_def f h)
qed

theorem content_length_panics_witness:
  "request_parse id (map word_of_nat (request_text (lit ''POST'') (lit ''/mcp?a'') [(lit ''content-length'', lit ''18446744073709551615'')]) @ CRLF2) = None"
proof (rule content_length_panics [OF example_tokens(1,2), where body = "[]"])
  show "list_all header_ok [(lit ''content-length'', lit ''18446744073709551615'')]" by (simp add: example_tokens)
  show "2 ^ 64 \<le> length (request_text (lit ''POST'') (lit ''/mcp?a'') [(lit ''content-length'', lit ''18446744073709551615'')]) +
      4 + unat (content_length_of [(lit ''content-length'', lit ''18446744073709551615'')] 0)"
    unfolding example_lengths by (simp add: unat_minus_one_word_eq)
qed (simp_all add: CRLF2_def request_text_def header_line_def crlf_def lit_def)

end
