(* ===== verification/Cloud_Auth.thy ===== *)
theory Cloud_Auth
  imports Http Secure_Session
begin

text \<open>
  Zero-trust admission of the cloud crate (auth.rs): the attestation in a request's header, its hex
  form, and the JSON form of the secure handshake. Signature verification is the parameter \<open>vfy\<close>.
\<close>

section \<open>Hex strings\<close>

definition hex_val :: "u8 \<Rightarrow> u8 option" where
  "hex_val c =
     (if 48 \<le> c \<and> c \<le> 57 then Some (c - 48)
      else if 97 \<le> c \<and> c \<le> 102 then Some (c - 97 + 10)
      else if 65 \<le> c \<and> c \<le> 70 then Some (c - 65 + 10)
      else None)"

fun hex_pairs :: "bytes \<Rightarrow> bytes option" where
  "hex_pairs (h # l # bs) =
     (case hex_val h of None \<Rightarrow> None | Some hi \<Rightarrow>
      (case hex_val l of None \<Rightarrow> None | Some lo \<Rightarrow>
       map_option (Cons (push_bit 4 hi OR lo)) (hex_pairs bs)))"
| "hex_pairs bs = Some []"

definition hex_decode :: "rstring \<Rightarrow> bytes option" where
  "hex_decode s = (let bs = utf8 s in if odd (length bs) then None else hex_pairs bs)"

definition hex_encode :: "bytes \<Rightarrow> rstring" where
  "hex_encode d = concat (map (\<lambda>b. [hex_digit (unat (drop_bit 4 b)), hex_digit (unat (b AND 0x0F))]) d)"

section \<open>Attestations in requests\<close>

definition SCHEME :: rstring where "SCHEME = lit ''TPT-Attestation ''"

definition strip_prefix :: "rstring \<Rightarrow> rstring \<Rightarrow> rstring option" where
  "strip_prefix pre s = (if take (length pre) s = pre then Some (drop (length pre) s) else None)"

definition extract_attestation :: "request \<Rightarrow> attestation option" where
  "extract_attestation rq =
     (case List.find (\<lambda>(k, _). k = lit ''authorization'' \<or> k = lit ''x-tpt-attestation'') (rq_headers rq) of
        None \<Rightarrow> None
      | Some (_, v) \<Rightarrow>
          let hex = (case strip_prefix SCHEME (trim v) of Some h \<Rightarrow> h | None \<Rightarrow> trim v) in
          (case hex_decode hex of
             None \<Rightarrow> None
           | Some wire \<Rightarrow> (case from_bytes wire of Inl _ \<Rightarrow> None | Inr att \<Rightarrow> Some att)))"

definition authenticate_request :: "(bytes \<Rightarrow> bytes \<Rightarrow> bytes \<Rightarrow> bool) \<Rightarrow> fleet_authz \<Rightarrow> request \<Rightarrow> u16 + principal" where
  "authenticate_request vfy fa rq =
     (case extract_attestation rq of
        Some att \<Rightarrow> (case authenticate vfy (fa_broker fa) att of Inl _ \<Rightarrow> Inl 401 | Inr p \<Rightarrow> Inr p)
      | None \<Rightarrow> Inl 401)"

definition authorize_tool :: "fleet_authz \<Rightarrow> principal \<Rightarrow> rstring \<Rightarrow> bool" where
  "authorize_tool fa p tool = authz_dispatch fa p tool"

definition attestation_header :: "attestation \<Rightarrow> rstring" where
  "attestation_header att = lit ''Authorization: TPT-Attestation '' @ hex_encode (to_bytes att)"

section \<open>The handshake in JSON\<close>

fun suite_to_u8 :: "cipher_suite \<Rightarrow> u8" where
  "suite_to_u8 Aes256Gcm = 1"
| "suite_to_u8 ChaCha20Poly1305 = 2"

definition suite_from_u8 :: "u8 \<Rightarrow> cipher_suite option" where
  "suite_from_u8 n = (if n = 1 then Some Aes256Gcm else if n = 2 then Some ChaCha20Poly1305 else None)"

definition handshake_init_from_json :: "json \<Rightarrow> handshake_init option" where
  "handshake_init_from_json v =
     (case Option.bind (Option.bind (json_get v ''attestation'') as_str) hex_decode of
        None \<Rightarrow> None
      | Some w \<Rightarrow>
          (case from_bytes w of
             Inl _ \<Rightarrow> None
           | Inr att \<Rightarrow>
               let suites = (case Option.bind (json_get v ''suites'') as_array of
                     Some arr \<Rightarrow> List.map_filter (\<lambda>n. Option.bind (as_u64 n) (\<lambda>u. suite_from_u8 (ucast u))) arr
                   | None \<Rightarrow> suite_all)
               in if suites = [] then None else Some \<lparr>hi_attestation = att, hi_suites = suites\<rparr>))"

definition handshake_resp_to_json :: "handshake_resp \<Rightarrow> json" where
  "handshake_resp_to_json resp = json_obj
     [(''attestation'', Str (hex_encode (to_bytes (hr_attestation resp)))),
      (''suite'', json_uint (ucast (suite_to_u8 (hr_suite resp))))]"

section \<open>What a client sends is what the server reads\<close>

lemma hex_digit_val:
  assumes "n < 16"
  shows "hex_val (word_of_nat (hex_digit n)) = Some (word_of_nat n)" and "hex_digit n < 0x80"
proof -
  have "n \<in> {0, 1, 2, 3, 4, 5, 6, 7, 8, 9, 10, 11, 12, 13, 14, 15}" using assms by (simp add: less_Suc_eq numeral_eq_Suc)
  then show "hex_val (word_of_nat (hex_digit n)) = Some (word_of_nat n)" "hex_digit n < 0x80"
    by (auto simp: hex_val_def hex_digit_def word_le_nat_alt)
qed

lemma nibbles: "push_bit 4 (drop_bit 4 b) OR (b AND 0x0F) = (b :: u8)"
proof -
  have "(0x0F :: u8) = mask 4" by (simp add: mask_eq_exp_minus_1)
  then show ?thesis by (auto simp: bit_eq_iff bit_or_iff bit_and_iff bit_push_bit_iff bit_drop_bit_eq bit_mask_iff)
qed

lemma nibble_less: "unat (drop_bit 4 (b :: u8)) < 16" "unat (b AND 0x0F :: u8) < 16"
proof -
  have "unat (drop_bit 4 b) = unat b div 2 ^ 4" unfolding unat_drop_bit_eq by (rule drop_bit_eq_div)
  then show "unat (drop_bit 4 b) < 16" using unsigned_less [of b, where 'a = nat] by simp
  have "b AND 0x0F \<le> 0x0F" by (rule word_and_le1)
  then show "unat (b AND 0x0F) < 16" by (simp add: word_le_nat_alt)
qed

lemma hex_pairs_encode: "hex_pairs (utf8 (hex_encode d)) = Some d \<and> even (length (utf8 (hex_encode d)))"
proof (induction d)
  case (Cons b d)
  let ?h = "hex_digit (unat (drop_bit 4 b))" and ?l = "hex_digit (unat (b AND 0x0F))"
  have "utf8 (hex_encode (b # d)) = word_of_nat ?h # word_of_nat ?l # utf8 (hex_encode d)"
    using hex_digit_val(2) [OF nibble_less(1) [of b]] hex_digit_val(2) [OF nibble_less(2) [of b]]
    by (simp add: hex_encode_def utf8_def utf8_char_def)
  then show ?case
    using Cons hex_digit_val(1) [OF nibble_less(1) [of b]] hex_digit_val(1) [OF nibble_less(2) [of b]] by (simp add: nibbles)
qed (simp add: hex_encode_def utf8_def)

lemma hex_roundtrip: "hex_decode (hex_encode d) = Some d"
  by (simp add: hex_decode_def hex_pairs_encode)

lemma hex_digit_not_ws: "n < 16 \<Longrightarrow> \<not> is_unicode_ws (hex_digit n)"
  by (auto simp: is_unicode_ws_def hex_digit_def)

lemma hex_encode_last: "d \<noteq> [] \<Longrightarrow> hex_encode d \<noteq> [] \<and> \<not> is_unicode_ws (last (hex_encode d))"
  using hex_digit_not_ws [OF nibble_less(2)] by (cases d rule: rev_cases) (auto simp: hex_encode_def)

lemma length_to_bytes: "attestation_wf a \<Longrightarrow> to_bytes a \<noteq> []"
  by (simp add: to_bytes_eq)

lemma scheme_value:
  assumes "attestation_wf att"
  shows "trim (SCHEME @ hex_encode (to_bytes att)) = SCHEME @ hex_encode (to_bytes att)"
  using hex_encode_last [OF length_to_bytes [OF assms]]
  by (intro trim_ends) (simp_all add: SCHEME_def lit_def is_unicode_ws_def)

lemma extract_scheme:
  assumes "attestation_wf att" and "rq_headers rq = (lit ''authorization'', SCHEME @ hex_encode (to_bytes att)) # hs"
  shows "extract_attestation rq = Some att"
  using scheme_value [OF assms(1)] attestation_bytes_roundtrip [OF assms(1), of "[]"]
  by (simp add: extract_attestation_def assms(2) strip_prefix_def hex_roundtrip)

end
