(* ===== verification/Cloud_Server.thy ===== *)
theory Cloud_Server
  imports Cloud_Auth Fleet
begin

text \<open>
  The fleet server of the cloud crate: the MCP endpoint (mcp.rs), the routes of the HTTP interface and
  the connections (server.rs). What the operating system and other parts decide is in \<open>cloud_env\<close>: the
  transport to the units, clocks, the texts of addresses and input-output errors, the order of hash
  maps, drawn random bytes and the static dashboard page. A panic is the value \<open>None\<close>.
\<close>

record ('r, 't) cloud_env =
  ce_send :: "socket_addr \<Rightarrow> control_command \<Rightarrow> 't \<Rightarrow> (io_error + unit) \<times> 't"
  ce_clock :: "mode \<Rightarrow> u64"
  ce_show_io :: "io_error \<Rightarrow> rstring"
  ce_show_addr :: "socket_addr \<Rightarrow> rstring"
  ce_frames :: "'r \<Rightarrow> u64"
  ce_order :: "(u64 \<rightharpoonup> 'r unit_state) \<Rightarrow> u64 list"
  ce_version :: rstring
  ce_dashboard :: rstring
  ce_seed :: "bytes option"
  ce_salt :: "bytes option"
  ce_lower :: "rstring \<Rightarrow> rstring"

definition units_json :: "('r, 't) cloud_env \<Rightarrow> ('r, 't) fleet \<Rightarrow> json list" where
  "units_json E f = map info_to_json (list_units (ce_frames E) (ce_show_addr E) (ce_order E) f)"

definition units_count :: "('r, 't) cloud_env \<Rightarrow> ('r, 't) fleet \<Rightarrow> json" where
  "units_count E f = json_uint (word_of_nat (length (list_units (ce_frames E) (ce_show_addr E) (ce_order E) f)))"

definition error_text :: "('r, 't) cloud_env \<Rightarrow> cloud_error \<Rightarrow> rstring" where
  "error_text E e = cloud_error_fmt (ce_show_io E) (ce_show_addr E) e"

section \<open>The MCP endpoint (mcp.rs)\<close>

definition json_rpc_ok :: "json \<Rightarrow> json \<Rightarrow> json" where
  "json_rpc_ok jid result = json_obj [(''jsonrpc'', Str (lit ''2.0'')), (''id'', jid), (''result'', result)]"

definition json_rpc_err :: "json \<Rightarrow> int \<Rightarrow> rstring \<Rightarrow> json" where
  "json_rpc_err jid code msg = json_obj [(''jsonrpc'', Str (lit ''2.0'')), (''id'', jid),
     (''error'', json_obj [(''code'', Num (f64_lit (rat_of_int code))), (''message'', Str msg)])]"

definition mcp_tool :: "string \<Rightarrow> string \<Rightarrow> (string \<times> string) list \<Rightarrow> json" where
  "mcp_tool nm desc props = json_obj
     [(''name'', Str (lit nm)), (''description'', Str (lit desc)),
      (''inputSchema'', json_obj
         [(''type'', Str (lit ''object'')), (''properties'', json_obj_str (map (\<lambda>(k, v). (k, lit v)) props)),
          (''required'', Arr (map (\<lambda>(k, _). Str (lit k)) props))])]"

definition unit_id_arg :: "json \<Rightarrow> u64 option" where
  "unit_id_arg args = Option.bind (json_get args ''unit_id'') as_u64"

definition call_tool :: "('r, 't) cloud_env \<Rightarrow> rstring \<Rightarrow> json \<Rightarrow> json \<Rightarrow> (fleet_authz \<times> principal) option \<Rightarrow>
    ('r, 't) fleet \<Rightarrow> json \<times> ('r, 't) fleet" where
  "call_tool E nm args jid auth f =
     (if (case auth of Some (gate, p) \<Rightarrow> \<not> authz_dispatch gate p nm | None \<Rightarrow> False)
      then (json_rpc_err jid (- 32003) (lit ''insufficient attestation for this tool''), f)
      else if nm = lit ''list_units''
      then (json_rpc_ok jid (json_obj [(''units'', Arr (units_json E f)), (''count'', units_count E f)]), f)
      else if nm = lit ''assign_unit''
      then (case (unit_id_arg args, Option.bind (json_get args ''operator'') as_str) of
              (Some u, Some op) \<Rightarrow>
                (case assign u op f of
                   (Inr _, f') \<Rightarrow>
                     (json_rpc_ok jid (json_obj [(''unit_id'', json_uint u), (''assigned'', Str (show_dec (unat u)))]), f')
                 | (Inl e, f') \<Rightarrow> (json_rpc_err jid (- 32000) (error_text E e), f'))
            | _ \<Rightarrow> (json_rpc_err jid (- 32602) (lit ''missing unit_id/operator''), f))
      else if nm = lit ''engage_autonomy'' \<or> nm = lit ''take_manual_control''
      then (case unit_id_arg args of
              Some u \<Rightarrow>
                (case (if nm = lit ''engage_autonomy'' then engage_autonomy (ce_send E) (ce_clock E) u f
                       else take_manual_control (ce_send E) (ce_clock E) u f) of
                   (Inr _, f') \<Rightarrow>
                     (json_rpc_ok jid (json_obj [(''unit_id'', json_uint u), (''tool'', Str nm), (''ok'', Bool True)]), f')
                 | (Inl e, f') \<Rightarrow> (json_rpc_err jid (- 32000) (error_text E e), f'))
            | None \<Rightarrow> (json_rpc_err jid (- 32602) (lit ''missing unit_id''), f))
      else (json_rpc_err jid (- 32601) (lit ''unknown tool: '' @ nm), f))"

definition json_or_null :: "json option \<Rightarrow> json" where
  "json_or_null j = (case j of Some v \<Rightarrow> v | None \<Rightarrow> Null)"

definition str_or_empty :: "json option \<Rightarrow> rstring" where
  "str_or_empty j = (case Option.bind j as_str of Some s \<Rightarrow> s | None \<Rightarrow> [])"

definition mcp_handle :: "('r, 't) cloud_env \<Rightarrow> json \<Rightarrow> (fleet_authz \<times> principal) option \<Rightarrow> ('r, 't) fleet \<Rightarrow> json \<times> ('r, 't) fleet" where
  "mcp_handle E rq auth f =
     (let meth = str_or_empty (json_get rq ''method''); jid = json_or_null (json_get rq ''id'');
          params = json_or_null (json_get rq ''params'') in
      if meth = lit ''initialize''
      then (json_rpc_ok jid (json_obj [(''protocolVersion'', Str (lit ''2024-11-05'')),
              (''capabilities'', json_obj [(''tools'', json_obj [])]),
              (''serverInfo'', json_obj [(''name'', Str (lit ''tpt-teleop-fleet'')), (''version'', Str (ce_version E))])]), f)
      else if meth = lit ''tools/list''
      then (json_rpc_ok jid (json_obj [(''tools'', Arr
              [mcp_tool ''list_units'' ''List every unit registered with the fleet, with mode and status.'' [],
               mcp_tool ''assign_unit'' ''Assign a human or AI operator to a unit.''
                 [(''unit_id'', ''integer''), (''operator'', ''string'')],
               mcp_tool ''engage_autonomy'' ''Command a unit into AUTO mode (autonomy drives; operator supervises).''
                 [(''unit_id'', ''integer'')],
               mcp_tool ''take_manual_control'' ''Command a unit into FULL-TELEOP mode (operator drives directly).''
                 [(''unit_id'', ''integer'')]])]), f)
      else if meth = lit ''tools/call''
      then call_tool E (str_or_empty (json_get params ''name'')) (json_or_null (json_get params ''arguments'')) jid auth f
      else (json_rpc_err jid (- 32601) (lit ''method not found: '' @ meth), f))"

section \<open>Server state (server.rs)\<close>

record server_limits =
  max_conns :: nat
  idle_timeout :: nat

definition server_limits_default :: server_limits where
  "server_limits_default = \<lparr>max_conns = 1024, idle_timeout = 30 * 10 ^ 9\<rparr>"

record conn =
  cn_read_buf :: bytes
  cn_registered :: bool
  cn_last_active :: nat

record ('r, 't, 'k) fleet_server =
  sv_listening :: bool
  sv_next_token :: u64
  sv_conns :: "u64 \<rightharpoonup> conn"
  sv_fleet :: "('r, 't) fleet"
  sv_authz :: "fleet_authz option"
  sv_identity :: "'k device_identity option"
  sv_sessions :: "u64 \<rightharpoonup> secure_session"
  sv_limits :: server_limits

definition fleet_server_new :: "'t \<Rightarrow> ('r, 't, 'k) fleet_server" where
  "fleet_server_new tr =
     \<lparr>sv_listening = False, sv_next_token = 1, sv_conns = Map.empty, sv_fleet = fleet_new tr, sv_authz = None,
      sv_identity = None, sv_sessions = Map.empty, sv_limits = server_limits_default\<rparr>"

definition with_security :: "fleet_authz \<Rightarrow> 'k device_identity \<Rightarrow> ('r, 't, 'k) fleet_server \<Rightarrow> ('r, 't, 'k) fleet_server" where
  "with_security authz ident sv = sv\<lparr>sv_authz := Some authz, sv_identity := Some ident\<rparr>"

definition with_limits :: "server_limits \<Rightarrow> ('r, 't, 'k) fleet_server \<Rightarrow> ('r, 't, 'k) fleet_server" where
  "with_limits limits sv = sv\<lparr>sv_limits := limits\<rparr>"

section \<open>Routes\<close>

definition path_parts :: "rstring \<Rightarrow> rstring list" where
  "path_parts path = filter (\<lambda>s. s \<noteq> []) (split_when (\<lambda>c. c = 47) path)"

definition parse_unit_id :: "rstring \<Rightarrow> u64 option" where
  "parse_unit_id path =
     (let parts = path_parts path in
      if length parts \<ge> 3 \<and> parts ! 0 = lit ''api'' \<and> parts ! 1 = lit ''units'' then parse_u64 (parts ! 2) else None)"

definition unit_action :: "rstring \<Rightarrow> rstring option" where
  "unit_action path =
     (let parts = path_parts path in
      if length parts \<ge> 4 \<and> parts ! 0 = lit ''api'' \<and> parts ! 1 = lit ''units'' then Some (parts ! 3) else None)"

definition ends_with :: "rstring \<Rightarrow> rstring \<Rightarrow> bool" where
  "ends_with s t \<longleftrightarrow> length t \<le> length s \<and> drop (length s - length t) s = t"

text \<open>\<open>require_auth\<close> answers \<open>Some r\<close> when the request is refused with the response \<open>r\<close>.\<close>

definition require_auth :: "'k primitives \<Rightarrow> fleet_authz option \<Rightarrow> request \<Rightarrow> string \<Rightarrow> response option" where
  "require_auth P authz rq tool =
     (case authz of
        None \<Rightarrow> None
      | Some gate \<Rightarrow>
          (case authenticate_request (ed_verify P) gate rq of
             Inl code \<Rightarrow> Some (response_error code (lit ''authentication failed''))
           | Inr p \<Rightarrow> if authorize_tool gate p (lit tool) then None
               else Some (response_error 403 (lit ''insufficient attestation for this action''))))"

definition mode_action :: "('r, 't) cloud_env \<Rightarrow> u64 \<Rightarrow> string \<Rightarrow> ('r, 't) fleet \<Rightarrow> response \<times> ('r, 't) fleet" where
  "mode_action E uid which f =
     (case (if which = ''engage'' then engage_autonomy (ce_send E) (ce_clock E) uid f
            else take_manual_control (ce_send E) (ce_clock E) uid f) of
        (Inr _, f') \<Rightarrow> (response_json 200 (json_obj [(''unit_id'', json_uint uid), (''ok'', Bool True)]), f')
      | (Inl e, f') \<Rightarrow> (response_error 409 (error_text E e), f'))"

definition parse_or_null :: "bytes \<Rightarrow> json" where
  "parse_or_null b = (case json_parse b of Inr v \<Rightarrow> v | Inl _ \<Rightarrow> Null)"

definition handle_secure_handshake :: "('r, 't) cloud_env \<Rightarrow> 'k primitives \<Rightarrow> u64 \<Rightarrow> request \<Rightarrow>
    ('r, 't, 'k) fleet_server \<Rightarrow> (response \<times> ('r, 't, 'k) fleet_server) option" where
  "handle_secure_handshake E P uid rq sv =
     (case sv_identity sv of
        None \<Rightarrow> Some (response_error 501 (lit ''secure handshake not configured''), sv)
      | Some ident \<Rightarrow>
          (case handshake_init_from_json (parse_or_null (rq_body rq)) of
             None \<Rightarrow> Some (response_error 400 (lit ''missing attestation or suites''), sv)
           | Some init \<Rightarrow>
               (case respond_handshake P ident init suite_all (ce_seed E) (ce_salt E) of
                  None \<Rightarrow> None
                | Some (Inr (resp, session)) \<Rightarrow>
                    Some (response_json 200 (handshake_resp_to_json resp), sv\<lparr>sv_sessions := (sv_sessions sv)(uid \<mapsto> session)\<rparr>)
                | Some (Inl e) \<Rightarrow> Some (response_error 403 (lit ''handshake rejected: '' @ lit (sec_error_fmt e)), sv))))"

definition assign_route :: "('r, 't) cloud_env \<Rightarrow> u64 \<Rightarrow> request \<Rightarrow> ('r, 't) fleet \<Rightarrow> response \<times> ('r, 't) fleet" where
  "assign_route E uid rq f =
     (case Option.bind (json_get (parse_or_null (rq_body rq)) ''operator'') as_str of
        Some op \<Rightarrow>
          (case assign uid op f of
             (Inr _, f') \<Rightarrow> (response_json 200 (json_obj [(''unit_id'', json_uint uid), (''assigned'', Bool True)]), f')
           | (Inl e, f') \<Rightarrow> (response_error 409 (error_text E e), f'))
      | None \<Rightarrow> (response_error 400 (lit ''missing operator''), f))"

definition command_route :: "('r, 't) cloud_env \<Rightarrow> u64 \<Rightarrow> request \<Rightarrow> ('r, 't) fleet \<Rightarrow> response \<times> ('r, 't) fleet" where
  "command_route E uid rq f =
     (case Option.bind (Option.bind (json_get (parse_or_null (rq_body rq)) ''mode'') as_str) parse_mode of
        Some m \<Rightarrow>
          (case set_mode (ce_send E) (ce_clock E) uid m f of
             (Inr _, f') \<Rightarrow> (response_json 200 (json_obj [(''unit_id'', json_uint uid), (''mode'', Str (lit (mode_name m)))]), f')
           | (Inl e, f') \<Rightarrow> (response_error 409 (error_text E e), f'))
      | None \<Rightarrow> (response_error 400 (lit ''missing/invalid mode''), f))"

text \<open>A privileged route: the gate first, then the action on the fleet.\<close>

definition guarded :: "'k primitives \<Rightarrow> request \<Rightarrow> string \<Rightarrow> (('r, 't) fleet \<Rightarrow> response \<times> ('r, 't) fleet) \<Rightarrow>
    ('r, 't, 'k) fleet_server \<Rightarrow> response \<times> ('r, 't, 'k) fleet_server" where
  "guarded P rq tool act sv =
     (case require_auth P (sv_authz sv) rq tool of
        Some r \<Rightarrow> (r, sv)
      | None \<Rightarrow> (case act (sv_fleet sv) of (r, f) \<Rightarrow> (r, sv\<lparr>sv_fleet := f\<rparr>)))"

definition unit_route :: "('r, 't) cloud_env \<Rightarrow> 'k primitives \<Rightarrow> u64 \<Rightarrow> request \<Rightarrow> ('r, 't, 'k) fleet_server \<Rightarrow>
    response \<times> ('r, 't, 'k) fleet_server" where
  "unit_route E P uid rq sv =
     (let action = unit_action (rq_path rq); m = rq_method rq in
      if m = Get \<and> action = None
      then (case fleet_get uid (sv_fleet sv) of
              Some u \<Rightarrow> (response_json 200 (info_to_json (unit_info_of (ce_frames E) (ce_show_addr E) u)), sv)
            | None \<Rightarrow> (response_error 404 (lit ''unit not found''), sv))
      else if m = Get \<and> action = Some (lit ''subscribers'')
      then (case fleet_subscriber_count uid (sv_fleet sv) of
              Inr c \<Rightarrow> (response_json 200 (json_obj [(''unit_id'', json_uint uid), (''subscribers'', json_uint (word_of_nat c))]), sv)
            | Inl e \<Rightarrow> (response_error 404 (error_text E e), sv))
      else if m = Post \<and> action = Some (lit ''assign'') then guarded P rq ''assign_unit'' (assign_route E uid rq) sv
      else if m = Post \<and> action = Some (lit ''engage_autonomy'') then guarded P rq ''engage_autonomy'' (mode_action E uid ''engage'') sv
      else if m = Post \<and> action = Some (lit ''take_manual_control'') then guarded P rq ''take_manual_control'' (mode_action E uid ''take'') sv
      else if m = Post \<and> action = Some (lit ''command'') then guarded P rq ''send_control'' (command_route E uid rq) sv
      else (response_error 405 (lit ''method not allowed''), sv))"

definition api_response :: "('r, 't) cloud_env \<Rightarrow> 'k primitives \<Rightarrow> request \<Rightarrow> ('r, 't, 'k) fleet_server \<Rightarrow>
    (response \<times> ('r, 't, 'k) fleet_server) option" where
  "api_response E P rq sv =
     (if rq_path rq = lit ''/api/health''
      then Some (response_json 200 (json_obj [(''status'', Str (lit ''ok'')), (''version'', Str (ce_version E)),
             (''units'', units_count E (sv_fleet sv))]), sv)
      else case parse_unit_id (rq_path rq) of
        None \<Rightarrow>
          if rq_method rq = Get \<and> rq_path rq = lit ''/api/units''
          then Some (response_json 200 (json_obj [(''units'', Arr (units_json E (sv_fleet sv))), (''count'', units_count E (sv_fleet sv))]), sv)
          else if rq_method rq = Get \<and> rq_path rq = lit ''/api/sessions''
          then Some (response_json 200 (json_obj [(''sessions'', Arr (units_json E (sv_fleet sv))), (''count'', units_count E (sv_fleet sv))]), sv)
          else Some (response_error 404 (lit ''not found''), sv)
      | Some uid \<Rightarrow>
          if ends_with (rq_path rq) (lit ''/secure/handshake'') \<and> rq_method rq = Post
          then handle_secure_handshake E P uid rq sv
          else Some (unit_route E P uid rq sv))"

definition mcp_route :: "('r, 't) cloud_env \<Rightarrow> 'k primitives \<Rightarrow> request \<Rightarrow> ('r, 't, 'k) fleet_server \<Rightarrow>
    response \<times> ('r, 't, 'k) fleet_server" where
  "mcp_route E P rq sv =
     (case json_parse (rq_body rq) of
        Inl e \<Rightarrow> (response_error 400 (lit ''invalid JSON-RPC body: '' @ e), sv)
      | Inr v \<Rightarrow>
          (case sv_authz sv of
             None \<Rightarrow> (case mcp_handle E v None (sv_fleet sv) of (j, f) \<Rightarrow> (response_json 200 j, sv\<lparr>sv_fleet := f\<rparr>))
           | Some gate \<Rightarrow>
               (case authenticate_request (ed_verify P) gate rq of
                  Inl code \<Rightarrow>
                    (response_error code (if code = 401 then lit ''missing or invalid attestation'' else lit ''authentication failed''), sv)
                | Inr p \<Rightarrow>
                    (case mcp_handle E v (Some (gate, p)) (sv_fleet sv) of (j, f) \<Rightarrow> (response_json 200 j, sv\<lparr>sv_fleet := f\<rparr>)))))"

definition dispatch :: "('r, 't) cloud_env \<Rightarrow> 'k primitives \<Rightarrow> request \<Rightarrow> ('r, 't, 'k) fleet_server \<Rightarrow>
    (response \<times> ('r, 't, 'k) fleet_server) option" where
  "dispatch E P rq sv =
     (if rq_method rq = Get \<and> rq_path rq = lit ''/'' then Some (response_html 200 (ce_dashboard E), sv)
      else if rq_method rq = Post \<and> rq_path rq = lit ''/mcp'' then Some (mcp_route E P rq sv)
      else api_response E P rq sv)"

section \<open>Connections\<close>

text \<open>What the operating system answers to a read. A read of no bytes is the end of the stream; a
  connection with no further answer would block.\<close>

datatype read_result = ReadOk bytes | ReadWouldBlock | ReadError

text \<open>\<open>accept\<close> succeeds \<open>pending\<close> times before it would block. At the limit the connection just accepted
  is dropped and the loop ends.\<close>

fun try_accept :: "nat \<Rightarrow> nat \<Rightarrow> ('r, 't, 'k) fleet_server \<Rightarrow> ('r, 't, 'k) fleet_server" where
  "try_accept now 0 sv = sv"
| "try_accept now (Suc pending) sv =
     (if \<not> sv_listening sv then sv
      else if max_conns (sv_limits sv) \<le> card (dom (sv_conns sv)) \<and> 0 < max_conns (sv_limits sv) then sv
      else try_accept now pending (sv\<lparr>sv_next_token := sv_next_token sv + 1,
        sv_conns := (sv_conns sv)(sv_next_token sv \<mapsto> \<lparr>cn_read_buf = [], cn_registered = False, cn_last_active = now\<rparr>)\<rparr>))"

text \<open>The read loop: \<open>None\<close> when the connection is to be closed.\<close>

fun read_loop :: "nat \<Rightarrow> read_result list \<Rightarrow> conn \<Rightarrow> conn option" where
  "read_loop now [] c = Some c"
| "read_loop now (ReadOk bs # rs) c =
     (if bs = [] then None else read_loop now rs (c\<lparr>cn_read_buf := cn_read_buf c @ bs, cn_last_active := now\<rparr>))"
| "read_loop now (ReadWouldBlock # rs) c = Some c"
| "read_loop now (ReadError # rs) c = None"

definition remove_conn :: "u64 \<Rightarrow> ('r, 't, 'k) fleet_server \<Rightarrow> ('r, 't, 'k) fleet_server" where
  "remove_conn token sv = sv\<lparr>sv_conns := (sv_conns sv)(token := None)\<rparr>"

text \<open>One connection: the bytes written to it, if any, and the new state.\<close>

definition service_conn :: "('r, 't) cloud_env \<Rightarrow> 'k primitives \<Rightarrow> nat \<Rightarrow> read_result list \<Rightarrow> u64 \<Rightarrow>
    ('r, 't, 'k) fleet_server \<Rightarrow> (bytes option \<times> ('r, 't, 'k) fleet_server) option" where
  "service_conn E P now reads token sv =
     (case sv_conns sv token of
        None \<Rightarrow> Some (None, sv)
      | Some c \<Rightarrow>
          (case read_loop now reads c of
             None \<Rightarrow> Some (None, remove_conn token sv)
           | Some c' \<Rightarrow>
               if 2 ^ 20 < length (cn_read_buf c') then Some (None, remove_conn token sv)
               else
                 (case request_parse (ce_lower E) (cn_read_buf c') of
                    None \<Rightarrow> None
                  | Some (Inl _) \<Rightarrow> Some (None, remove_conn token sv)
                  | Some (Inr None) \<Rightarrow> Some (None, sv\<lparr>sv_conns := (sv_conns sv)(token \<mapsto> c')\<rparr>)
                  | Some (Inr (Some (rq, _))) \<Rightarrow>
                      (case dispatch E P rq (remove_conn token sv) of
                         None \<Rightarrow> None
                       | Some (r, sv') \<Rightarrow> Some (Some (response_to_bytes r), sv')))))"

definition sweep_idle :: "nat \<Rightarrow> ('r, 't, 'k) fleet_server \<Rightarrow> ('r, 't, 'k) fleet_server" where
  "sweep_idle now sv = sv\<lparr>sv_conns := (\<lambda>t. case sv_conns sv t of
       Some c \<Rightarrow> if now - cn_last_active c \<le> idle_timeout (sv_limits sv) then Some c else None
     | None \<Rightarrow> None)\<rparr>"

text \<open>\<open>pump\<close> accepts, then serves every connection in the order the hash map lists them.\<close>

fun service_all :: "('r, 't) cloud_env \<Rightarrow> 'k primitives \<Rightarrow> nat \<Rightarrow> (u64 \<Rightarrow> read_result list) \<Rightarrow> u64 list \<Rightarrow>
    ('r, 't, 'k) fleet_server \<Rightarrow> ('r, 't, 'k) fleet_server option" where
  "service_all E P now reads [] sv = Some sv"
| "service_all E P now reads (t # ts) sv =
     (case service_conn E P now (reads t) t sv of None \<Rightarrow> None | Some (_, sv') \<Rightarrow> service_all E P now reads ts sv')"

definition pump :: "('r, 't) cloud_env \<Rightarrow> 'k primitives \<Rightarrow> nat \<Rightarrow> nat \<Rightarrow> (u64 \<Rightarrow> read_result list) \<Rightarrow> ((u64 \<rightharpoonup> conn) \<Rightarrow> u64 list) \<Rightarrow>
    ('r, 't, 'k) fleet_server \<Rightarrow> ('r, 't, 'k) fleet_server option" where
  "pump E P now pending reads order sv =
     (let sv1 = try_accept now pending sv in service_all E P now reads (order (sv_conns sv1)) sv1)"

definition register_pending :: "(u64 \<Rightarrow> bool) \<Rightarrow> ('r, 't, 'k) fleet_server \<Rightarrow> ('r, 't, 'k) fleet_server" where
  "register_pending registers sv =
     (if \<not> sv_listening sv then sv
      else sv\<lparr>sv_conns := (\<lambda>t. map_option (\<lambda>c. if \<not> cn_registered c \<and> registers t then c\<lparr>cn_registered := True\<rparr> else c) (sv_conns sv t))\<rparr>)"

definition handle_request :: "('r, 't) cloud_env \<Rightarrow> 'k primitives \<Rightarrow> request \<Rightarrow> ('r, 't, 'k) fleet_server \<Rightarrow>
    (response \<times> ('r, 't, 'k) fleet_server) option" where
  "handle_request E P rq sv = dispatch E P rq sv"

section \<open>The gate\<close>

text \<open>What an admitted request proves about its sender.\<close>

definition attested :: "'k primitives \<Rightarrow> fleet_authz \<Rightarrow> request \<Rightarrow> rstring \<Rightarrow> bool" where
  "attested P gate rq tool \<longleftrightarrow>
     (\<exists>att perm. extract_attestation rq = Some att \<and>
        ts_keys (br_trust (fa_broker gate)) (at_unit_id att) = Some (at_signing_pub att) \<and>
        attestation_verify (ed_verify P) att \<and> dispatch_permission tool = Some perm \<and>
        role_has (br_policy (fa_broker gate))
          (case ts_roles (br_trust (fa_broker gate)) (at_unit_id att) of Some r \<Rightarrow> r | None \<Rightarrow> Guest) perm)"

lemma attested_iff:
  "attested P gate rq tool \<longleftrightarrow>
     (\<exists>p. authenticate_request (ed_verify P) gate rq = Inr p \<and> authz_dispatch gate p tool)"
proof -
  have a: "authenticate_request (ed_verify P) gate rq = Inr p \<longleftrightarrow>
      (\<exists>att. extract_attestation rq = Some att \<and> authenticate (ed_verify P) (fa_broker gate) att = Inr p)" for p
    by (auto simp: authenticate_request_def split: option.splits sum.splits)
  have d: "authz_dispatch gate p tool \<longleftrightarrow>
      (\<exists>perm. dispatch_permission tool = Some perm \<and> policy_authorize (br_policy (fa_broker gate)) p perm)" for p
    by (auto simp: authz_dispatch_def broker_authorize_dispatch_def authorize_dispatch_def split: option.splits)
  show ?thesis unfolding attested_def a d authenticate_iff policy_authorize_def by auto
qed

lemma require_auth_open: "require_auth P (Some gate) rq tool = None \<longleftrightarrow> attested P gate rq (lit tool)"
  by (auto simp: require_auth_def attested_iff authorize_tool_def split: sum.splits)

lemma require_auth_refused: "require_auth P (Some gate) rq tool = Some r \<Longrightarrow> rs_status r = 401 \<or> rs_status r = 403"
  by (auto simp: require_auth_def authenticate_request_def response_error_def response_text_def response_with_body_def
      split: option.splits sum.splits if_splits)

definition fleet_tools :: "rstring list" where
  "fleet_tools = [lit ''assign_unit'', lit ''engage_autonomy'', lit ''take_manual_control'', lit ''send_control'']"

lemma call_tool_gated:
  "snd (call_tool E nm args jid (Some (gate, p)) f) \<noteq> f \<Longrightarrow> authz_dispatch gate p nm \<and> nm \<in> set fleet_tools"
  by (auto simp: call_tool_def fleet_tools_def split: if_splits option.splits prod.splits sum.splits)

lemma mcp_handle_gated:
  "snd (mcp_handle E v (Some (gate, p)) f) \<noteq> f \<Longrightarrow> \<exists>nm \<in> set fleet_tools. authz_dispatch gate p nm"
  using call_tool_gated by (fastforce simp: mcp_handle_def Let_def split: if_splits)

lemma mcp_route_gated:
  assumes "sv_authz sv = Some gate" and "sv_fleet (snd (mcp_route E P rq sv)) \<noteq> sv_fleet sv"
  shows "\<exists>tool \<in> set fleet_tools. attested P gate rq tool"
proof -
  obtain v p where v: "json_parse (rq_body rq) = Inr v" "authenticate_request (ed_verify P) gate rq = Inr p"
    using assms by (auto simp: mcp_route_def split: sum.splits)
  then have "snd (mcp_handle E v (Some (gate, p)) (sv_fleet sv)) \<noteq> sv_fleet sv"
    using assms by (auto simp: mcp_route_def split: prod.splits)
  then show ?thesis using mcp_handle_gated v(2) attested_iff by metis
qed

lemma guarded_gated:
  "sv_authz sv = Some gate \<Longrightarrow> sv_fleet (snd (guarded P rq tool act sv)) \<noteq> sv_fleet sv \<Longrightarrow> attested P gate rq (lit tool)"
  by (auto simp: guarded_def require_auth_open [symmetric] split: option.splits)

lemma unit_route_gated:
  "sv_authz sv = Some gate \<Longrightarrow> sv_fleet (snd (unit_route E P uid rq sv)) \<noteq> sv_fleet sv \<Longrightarrow>
    \<exists>tool \<in> set fleet_tools. attested P gate rq tool"
  by (auto simp: unit_route_def Let_def fleet_tools_def dest: guarded_gated split: if_splits option.splits sum.splits)

lemma handshake_fleet: "handle_secure_handshake E P uid rq sv = Some (r, sv') \<Longrightarrow> sv_fleet sv' = sv_fleet sv \<and> sv_authz sv' = sv_authz sv"
  by (auto simp: handle_secure_handshake_def split: option.splits sum.splits prod.splits)

lemma api_response_cases:
  assumes "api_response E P rq sv = Some (r, sv')"
  shows "sv' = sv \<or> (\<exists>uid. unit_route E P uid rq sv = (r, sv')) \<or> (\<exists>uid. handle_secure_handshake E P uid rq sv = Some (r, sv'))"
proof (cases "parse_unit_id (rq_path rq)")
  case None
  then show ?thesis using assms unfolding api_response_def by (auto split: if_splits)
next
  case (Some uid)
  then show ?thesis using assms unfolding api_response_def by (cases "rq_path rq = lit ''/api/health''") (auto split: if_splits)
qed

text \<open>C21. With a gate installed no request changes the fleet or sends a command to a unit unless its header
  carries an attestation whose key is enrolled for the unit it names, whose signature verifies, and whose
  enrolled role holds the permission of one of the dispatch tools.\<close>

theorem gate_guards_fleet:
  assumes "sv_authz sv = Some gate" and "dispatch E P rq sv = Some (r, sv')" and "sv_fleet sv' \<noteq> sv_fleet sv"
  shows "\<exists>tool \<in> set fleet_tools. attested P gate rq tool"
proof (cases "rq_method rq = Post \<and> rq_path rq = lit ''/mcp''")
  case True
  then have "sv' = snd (mcp_route E P rq sv)" using assms(2) by (auto simp: dispatch_def)
  then show ?thesis using mcp_route_gated assms by blast
next
  case False
  then have "api_response E P rq sv = Some (r, sv')" using assms(2,3) by (auto simp: dispatch_def split: if_splits)
  from api_response_cases [OF this] show ?thesis
    using handshake_fleet unit_route_gated [OF assms(1)] assms(3) by (metis snd_conv)
qed

text \<open>The tool that the gate checks for an action of the HTTP interface.\<close>

definition action_tool :: "rstring \<Rightarrow> string option" where
  "action_tool a =
     (if a = lit ''assign'' then Some ''assign_unit'' else if a = lit ''engage_autonomy'' then Some ''engage_autonomy''
      else if a = lit ''take_manual_control'' then Some ''take_manual_control''
      else if a = lit ''command'' then Some ''send_control'' else None)"

lemma dispatch_unit:
  assumes "rq_method rq = Post" and "parse_unit_id (rq_path rq) = Some uid" and "\<not> ends_with (rq_path rq) (lit ''/secure/handshake'')"
  shows "dispatch E P rq sv = Some (unit_route E P uid rq sv)"
proof -
  have "parse_unit_id (lit ''/api/health'') = None" "parse_unit_id (lit ''/mcp'') = None"
    by (simp_all add: parse_unit_id_def path_parts_def lit_def)
  then have "rq_path rq \<noteq> lit ''/api/health''" "rq_path rq \<noteq> lit ''/mcp''" using assms(2) by auto
  then show ?thesis using assms by (simp add: dispatch_def api_response_def)
qed

lemma unit_route_action:
  assumes "rq_method rq = Post" and "unit_action (rq_path rq) = Some a" and "action_tool a = Some tool"
  obtains act where "unit_route E P uid rq sv = guarded P rq tool act sv"
  using assms by (auto simp: unit_route_def action_tool_def split: if_splits)

text \<open>A request for a privileged action that the gate does not admit is answered with 401 or 403 and
  changes nothing.\<close>

theorem gate_refuses:
  assumes "sv_authz sv = Some gate" and "rq_method rq = Post" and "parse_unit_id (rq_path rq) = Some uid"
    and "\<not> ends_with (rq_path rq) (lit ''/secure/handshake'')" and "unit_action (rq_path rq) = Some a"
    and "action_tool a = Some tool" and "\<not> attested P gate rq (lit tool)"
  shows "\<exists>r. dispatch E P rq sv = Some (r, sv) \<and> (rs_status r = 401 \<or> rs_status r = 403)"
proof -
  obtain r where r: "require_auth P (Some gate) rq tool = Some r" using assms(7) require_auth_open by blast
  obtain act where "unit_route E P uid rq sv = guarded P rq tool act sv" by (rule unit_route_action [OF assms(2,5,6)])
  then have "unit_route E P uid rq sv = (r, sv)" using r assms(1) by (simp add: guarded_def)
  then show ?thesis using dispatch_unit [OF assms(2-4), of E P sv] require_auth_refused [OF r] by simp
qed

section \<open>From the bytes of a request to the command\<close>

definition unit_path :: "u64 \<Rightarrow> string \<Rightarrow> rstring" where
  "unit_path uid action = lit ''/api/units/'' @ show_dec (unat uid) @ lit ''/'' @ lit action"

lemma split_slash: "47 \<notin> set s \<Longrightarrow> split_when (\<lambda>c. c = 47) (s @ 47 # r) = s # split_when (\<lambda>c. c = 47) r"
  by (induction s) auto

lemma split_no_slash: "47 \<notin> set s \<Longrightarrow> split_when (\<lambda>c. c = 47) s = [s]"
  by (induction s) auto

lemma unit_path_parts:
  assumes "47 \<notin> set (lit action)" and "action \<noteq> []"
  shows "path_parts (unit_path uid action) = [lit ''api'', lit ''units'', show_dec (unat uid), lit action]"
proof -
  have n: "47 \<notin> set (show_dec (unat uid))" "show_dec (unat uid) \<noteq> []"
    using show_dec_digit_list [of "unat uid"] by (auto simp: list_all_iff)
  have "split_when (\<lambda>c. c = 47) (lit ''/api/units/'' @ r) = [[], lit ''api'', lit ''units''] @ split_when (\<lambda>c. c = 47) r" for r
    by (simp add: lit_def)
  then have "split_when (\<lambda>c. c = 47) (unit_path uid action) = [[], lit ''api'', lit ''units'', show_dec (unat uid), lit action]"
    unfolding unit_path_def using split_slash [OF n(1), of "lit action"] split_no_slash [OF assms(1)] by (simp add: lit_def)
  then show ?thesis using n(2) assms(2) by (simp add: path_parts_def lit_def)
qed

lemma unit_path_token: "token_ok (lit action) \<Longrightarrow> token_ok (unit_path uid action)"
proof -
  assume a: "token_ok (lit action)"
  have "ascii (show_dec (unat uid))" "list_all (\<lambda>c. \<not> is_unicode_ws c) (show_dec (unat uid))"
    using show_dec_digit_list [of "unat uid"] by (auto simp: ascii_def list_all_iff is_unicode_ws_def)
  moreover have "token_ok (lit ''/api/units/'')" "token_ok (lit ''/'')" by (simp_all add: token_ok_def lit_def ascii_def is_unicode_ws_def)
  ultimately show ?thesis using a by (simp add: token_ok_def unit_path_def)
qed

lemma unit_path_query:
  assumes "63 \<notin> set (lit action)"
  shows "split_query (unit_path uid action) = (unit_path uid action, [])"
proof -
  have "63 \<notin> set (show_dec (unat uid))" using show_dec_digit_list [of "unat uid"] by (auto simp: list_all_iff)
  then show ?thesis using assms by (simp add: split_query_def split_once_def unit_path_def lit_def)
qed

lemma hex_encode_plain: "ascii (hex_encode d) \<and> 13 \<notin> set (hex_encode d)"
proof (induction d)
  case (Cons b d)
  have "hex_digit n < 0x80 \<and> hex_digit n \<noteq> 13" if "n < 16" for n using that by (auto simp: hex_digit_def)
  from this [OF nibble_less(1) [of b]] this [OF nibble_less(2) [of b]] Cons show ?case
    by (auto simp: hex_encode_def ascii_def)
qed (simp add: hex_encode_def ascii_def)

lemma attestation_header_ok:
  assumes "attestation_wf att"
  shows "header_ok (lit ''authorization'', SCHEME @ hex_encode (to_bytes att))"
proof -
  have "token_ok (lit ''authorization'')" "58 \<notin> set (lit ''authorization'')" "map ascii_lower (lit ''authorization'') = lit ''authorization''"
    by (simp_all add: token_ok_def lit_def ascii_def is_unicode_ws_def ascii_lower_def)
  moreover have "ascii SCHEME" "13 \<notin> set SCHEME" by (simp_all add: SCHEME_def lit_def ascii_def)
  ultimately show ?thesis using hex_encode_plain [of "to_bytes att"] scheme_value [OF assms] by (simp add: header_ok_def header_sendable_def)
qed

lemma read_loop_pieces:
  "list_all (\<lambda>b. b \<noteq> []) pieces \<Longrightarrow> \<exists>t. read_loop now (map ReadOk pieces) c = Some (c\<lparr>cn_read_buf := cn_read_buf c @ concat pieces, cn_last_active := t\<rparr>)"
proof (induction pieces arbitrary: c)
  case Nil
  have "c = c\<lparr>cn_read_buf := cn_read_buf c, cn_last_active := cn_last_active c\<rparr>" by simp
  then show ?case by (metis append_Nil2 concat.simps(1) list.map_disc_iff read_loop.simps(1))
next
  case (Cons b pieces)
  then show ?case using Cons.IH [of "c\<lparr>cn_read_buf := cn_read_buf c @ b, cn_last_active := now\<rparr>"] by auto
qed

text \<open>The bytes of a request for a fleet action, as a client with an attestation sends them.\<close>

definition action_request :: "u64 \<Rightarrow> string \<Rightarrow> attestation \<Rightarrow> bytes" where
  "action_request uid action att =
     map word_of_nat (request_text (lit ''POST'') (unit_path uid action)
       [(lit ''authorization'', SCHEME @ hex_encode (to_bytes att))]) @ CRLF2"

lemma action_request_parse:
  assumes "attestation_wf att" and "token_ok (lit action)" and "63 \<notin> set (lit action)" and "length (action_request uid action att) < 2 ^ 64"
  shows "request_parse low (action_request uid action att) =
    Some (Inr (Some (\<lparr>rq_method = Post, rq_path = unit_path uid action, rq_query = [],
      rq_headers = [(lit ''authorization'', SCHEME @ hex_encode (to_bytes att))], rq_body = []\<rparr>,
      word_of_nat (length (action_request uid action att)))))"
proof -
  let ?hs = "[(lit ''authorization'', SCHEME @ hex_encode (to_bytes att))]"
  have h: "list_all header_ok ?hs" using attestation_header_ok [OF assms(1)] by simp
  have l: "unat (content_length_of ?hs 0) = length ([] :: bytes)" by (simp add: content_length_of_def)
  have b: "action_request uid action att = map word_of_nat (request_text (lit ''POST'') (unit_path uid action) ?hs) @ CRLF2 @ []"
    by (simp add: action_request_def)
  have "length (action_request uid action att @ []) < 2 ^ 64" using assms(4) by simp
  note r = request_text_parsed [OF example_tokens(1) unit_path_token [OF assms(2)] h l b this, of low]
  show ?thesis using r unit_path_query [OF assms(3)] by (simp add: method_parse_def)
qed

definition takeover_request :: "u64 \<Rightarrow> attestation \<Rightarrow> request" where
  "takeover_request uid att = \<lparr>rq_method = Post, rq_path = unit_path uid ''take_manual_control'', rq_query = [],
    rq_headers = [(lit ''authorization'', SCHEME @ hex_encode (to_bytes att))], rq_body = []\<rparr>"

lemma takeover_token: "token_ok (lit ''take_manual_control'')" "63 \<notin> set (lit ''take_manual_control'')" "47 \<notin> set (lit ''take_manual_control'')"
  by (simp_all add: token_ok_def lit_def ascii_def is_unicode_ws_def)

lemma takeover_path:
  "parse_unit_id (unit_path uid ''take_manual_control'') = Some uid"
  "unit_action (unit_path uid ''take_manual_control'') = Some (lit ''take_manual_control'')"
  "\<not> ends_with (unit_path uid ''take_manual_control'') (lit ''/secure/handshake'')"
proof -
  have parts: "path_parts (unit_path uid ''take_manual_control'') = [lit ''api'', lit ''units'', show_dec (unat uid), lit ''take_manual_control'']"
    by (rule unit_path_parts [OF takeover_token(3)]) simp
  show "parse_unit_id (unit_path uid ''take_manual_control'') = Some uid"
    "unit_action (unit_path uid ''take_manual_control'') = Some (lit ''take_manual_control'')"
    using parse_u64_show_dec [of uid] by (simp_all add: parse_unit_id_def unit_action_def parts)
  show "\<not> ends_with (unit_path uid ''take_manual_control'') (lit ''/secure/handshake'')"
    by (simp add: ends_with_def unit_path_def lit_def)
qed

lemma takeover_dispatch:
  assumes "sv_authz sv = Some gate" and "attestation_wf att"
    and "ts_keys (br_trust (fa_broker gate)) (at_unit_id att) = Some (at_signing_pub att)"
    and "attestation_verify (ed_verify P) att"
    and "ts_roles (br_trust (fa_broker gate)) (at_unit_id att) = Some role"
    and "role_has (br_policy (fa_broker gate)) role TakeManualControl"
    and "mode_action E uid ''take'' (sv_fleet sv) = (r, f)"
  shows "dispatch E P (takeover_request uid att) sv = Some (r, sv\<lparr>sv_fleet := f\<rparr>)"
proof -
  let ?rq = "takeover_request uid att"
  have "extract_attestation ?rq = Some att" using extract_scheme [OF assms(2), of ?rq "[]"] by (simp add: takeover_request_def)
  then have "attested P gate ?rq (lit ''take_manual_control'')"
    using assms(3-6) by (auto simp: attested_def dispatch_permission_def)
  then have "require_auth P (sv_authz sv) ?rq ''take_manual_control'' = None" using require_auth_open assms(1) by metis
  then show ?thesis using dispatch_unit [of ?rq uid E P sv] takeover_path assms(7)
    by (simp add: takeover_request_def unit_route_def guarded_def)
qed

text \<open>C22. The request of a client whose key is enrolled with a role that may take manual control, received
  in any pieces, is parsed, admitted and carried out: the fleet makes the staged mode change for the unit
  named in the path, and the answer is written to the connection, which is closed.\<close>

theorem attested_takeover:
  assumes "sv_authz sv = Some gate" and "attestation_wf att"
    and "ts_keys (br_trust (fa_broker gate)) (at_unit_id att) = Some (at_signing_pub att)"
    and "attestation_verify (ed_verify P) att"
    and "ts_roles (br_trust (fa_broker gate)) (at_unit_id att) = Some role"
    and "role_has (br_policy (fa_broker gate)) role TakeManualControl"
    and "mode_action E uid ''take'' (sv_fleet sv) = (r, f)"
    and "sv_conns sv token = Some c" and "cn_read_buf c = []"
    and "list_all (\<lambda>b. b \<noteq> []) pieces" and "concat pieces = action_request uid ''take_manual_control'' att"
    and "length (concat pieces) \<le> 2 ^ 20"
  shows "service_conn E P now (map ReadOk pieces) token sv =
    Some (Some (response_to_bytes r), (remove_conn token sv)\<lparr>sv_fleet := f\<rparr>)"
proof -
  obtain c' where c': "read_loop now (map ReadOk pieces) c = Some c'" "cn_read_buf c' = concat pieces"
    using read_loop_pieces [OF assms(10), of now c] assms(9) by auto
  have "\<exists>t. request_parse (ce_lower E) (cn_read_buf c') = Some (Inr (Some (takeover_request uid att, t)))"
    using action_request_parse [OF assms(2) takeover_token(1,2), of uid "ce_lower E"] assms(11,12) c'(2) by (simp add: takeover_request_def)
  moreover have "dispatch E P (takeover_request uid att) (remove_conn token sv) = Some (r, (remove_conn token sv)\<lparr>sv_fleet := f\<rparr>)"
    using takeover_dispatch [of "remove_conn token sv" gate att P role E uid r f] assms(1-7) by (simp add: remove_conn_def)
  ultimately show ?thesis using c' assms(8,12) by (auto simp: service_conn_def)
qed

section \<open>A concrete server\<close>

definition demo_env :: "(unit, (socket_addr \<times> control_command) list) cloud_env" where
  "demo_env = \<lparr>ce_send = capturing_send, ce_clock = (\<lambda>_. 0), ce_show_io = (\<lambda>_. []), ce_show_addr = (\<lambda>_. []),
     ce_frames = (\<lambda>_. 0), ce_order = (\<lambda>_. []), ce_version = lit ''0.1.0'', ce_dashboard = [],
     ce_seed = Some [2], ce_salt = Some [5, 6, 7, 8], ce_lower = id\<rparr>"

definition demo_gate :: fleet_authz where
  "demo_gate = authz_with_trust (enroll 7 (replicate 32 3) Operator trust_new)"

definition demo_server :: "(unit, (socket_addr \<times> control_command) list, u8) fleet_server" where
  "demo_server = (with_security demo_gate (toy_identity 9 AiAgent 4) (fleet_server_new []))
     \<lparr>sv_fleet := snd (register_unit 5 (SocketV4 0x7F000001 5000) () 0 (fleet_new [])),
      sv_conns := [1 \<mapsto> \<lparr>cn_read_buf = [], cn_registered = False, cn_last_active = 0\<rparr>]\<rparr>"

definition demo_att :: attestation where
  "demo_att = attestation_sign (ed_sign toy) (toy_identity 7 Operator 3) (replicate 32 1)"

lemma demo_gate_facts:
  "sv_authz demo_server = Some demo_gate" "attestation_wf demo_att"
  "ts_keys (br_trust (fa_broker demo_gate)) (at_unit_id demo_att) = Some (at_signing_pub demo_att)"
  "attestation_verify (ed_verify toy) demo_att"
  "ts_roles (br_trust (fa_broker demo_gate)) (at_unit_id demo_att) = Some Operator"
  "role_has (br_policy (fa_broker demo_gate)) Operator TakeManualControl"
  by (simp_all add: demo_server_def demo_gate_def demo_att_def with_security_def authz_with_trust_def with_trust_def enroll_def
      attestation_wf_def attestation_sign_def Let_def toy_identity_def toy_def SIGNING_PUB_LEN_def AGREEMENT_PUB_LEN_def
      SIGNATURE_LEN_def attestation_verify_def role_has_def policy_default_def)

lemma demo_takeover:
  "mode_action demo_env 5 ''take'' (sv_fleet demo_server) =
     (response_json 200 (json_obj [(''unit_id'', json_uint 5), (''ok'', Bool True)]), snd (mode_action demo_env 5 ''take'' (sv_fleet demo_server)))"
  "map_option us_mode (fl_units (snd (mode_action demo_env 5 ''take'' (sv_fleet demo_server))) 5) = Some FullTeleop"
  "map_option us_mode (fl_units (sv_fleet demo_server) 5) = Some Assist"
  by (simp_all add: mode_action_def take_manual_control_def set_mode_def demo_server_def demo_env_def with_security_def register_unit_def
      fleet_server_new_def fleet_new_def unit_new_def path_via_def spec_default_edges spec_edge_def capturing_send_def)

lemma length_hex_encode: "length (hex_encode d) = 2 * length d"
  by (induction d) (simp_all add: hex_encode_def)

theorem attested_takeover_witness:
  "service_conn demo_env toy 0 (map ReadOk [take 20 (action_request 5 ''take_manual_control'' demo_att),
       drop 20 (action_request 5 ''take_manual_control'' demo_att)]) 1 demo_server =
     Some (Some (response_to_bytes (response_json 200 (json_obj [(''unit_id'', json_uint 5), (''ok'', Bool True)]))),
       (remove_conn 1 demo_server)\<lparr>sv_fleet := snd (mode_action demo_env 5 ''take'' (sv_fleet demo_server))\<rparr>)"
proof (rule attested_takeover [OF demo_gate_facts demo_takeover(1),
      where c = "\<lparr>cn_read_buf = [], cn_registered = False, cn_last_active = 0\<rparr>"])
  have len: "length (action_request 5 ''take_manual_control'' demo_att) = 357"
    using to_bytes_eq [OF demo_gate_facts(2)] demo_gate_facts(2)
    by (simp add: action_request_def request_text_def unit_path_def header_line_def crlf_def CRLF2_def lit_def SCHEME_def
        length_hex_encode length_le_bytes show_dec.simps attestation_wf_def SIGNING_PUB_LEN_def AGREEMENT_PUB_LEN_def SIGNATURE_LEN_def)
  show "list_all (\<lambda>b. b \<noteq> []) [take 20 (action_request 5 ''take_manual_control'' demo_att), drop 20 (action_request 5 ''take_manual_control'' demo_att)]"
    using len by (auto dest: arg_cong [where f = length])
  show "length (concat [take 20 (action_request 5 ''take_manual_control'' demo_att), drop 20 (action_request 5 ''take_manual_control'' demo_att)]) \<le> 2 ^ 20"
    using len by simp
qed (simp_all add: demo_server_def)

theorem gate_guards_fleet_witness: "\<exists>tool \<in> set fleet_tools. attested toy demo_gate (takeover_request 5 demo_att) tool"
proof (rule gate_guards_fleet [OF demo_gate_facts(1) takeover_dispatch [OF demo_gate_facts demo_takeover(1)]])
  show "sv_fleet (demo_server\<lparr>sv_fleet := snd (mode_action demo_env 5 ''take'' (sv_fleet demo_server))\<rparr>) \<noteq> sv_fleet demo_server"
    using demo_takeover(2,3) by auto
qed

theorem gate_refuses_witness:
  "\<exists>r. dispatch demo_env toy ((takeover_request 5 demo_att)\<lparr>rq_headers := []\<rparr>) demo_server = Some (r, demo_server) \<and>
     (rs_status r = 401 \<or> rs_status r = 403)"
  by (rule gate_refuses [OF demo_gate_facts(1), where a = "lit ''take_manual_control''" and tool = "''take_manual_control''" and uid = 5])
    (simp_all add: takeover_request_def takeover_path action_tool_def attested_def extract_attestation_def)

end
