(* ===== verification/Json_Roundtrip.thy ===== *)
theory Json_Roundtrip
  imports Json
begin

text \<open>
  Writing a JSON value and reading it back (json.rs): the strings, the decimal numbers and the nested
  values, for values whose strings are ASCII and whose numbers are finite and not the negative zero.
  The rest of the file shows what happens outside of that range.
\<close>

section \<open>Encoding\<close>

lemma utf8_append [simp]: "utf8 (s @ t) = utf8 s @ utf8 t"
  by (simp add: utf8_def)

lemma utf8_Nil [simp]: "utf8 [] = []"
  by (simp add: utf8_def)

lemma utf8_Cons_ascii: "c < 0x80 \<Longrightarrow> utf8 (c # s) = word_of_nat c # utf8 s"
  by (simp add: utf8_def utf8_char_def)

lemma unat_byte: "c < 256 \<Longrightarrow> unat (word_of_nat c :: u8) = c"
  by (simp add: unat_of_nat)

section \<open>Strings\<close>

lemma string_loop_control:
  assumes "c < 0x20 \<or> c = 0x22 \<or> c = 0x5C"
  shows "string_loop (utf8 (escape_char c) @ r) acc = string_loop r (acc @ [c])"
proof -
  have l: "[0..<0x20] @ [0x22, 0x5C] = [0, 1, 2, 3, 4, 5, 6, 7, 8, 9, 10, 11, 12, 13, 14, 15, 16, 17, 18, 19, 20, 21, 22, 23, 24, 25, 26, 27, 28, 29, 30, 31, 34, 92 :: nat]"
    by (simp add: upt_conv_Cons)
  have "c \<in> set ([0..<0x20] @ [0x22, 0x5C])" using assms by auto
  moreover have "list_all (\<lambda>c. \<forall>r acc. string_loop (utf8 (escape_char c) @ r) acc = string_loop r (acc @ [c])) ([0..<0x20] @ [0x22, 0x5C])"
    unfolding l by (simp add: escape_char_def hex_digit_def lit_def utf8_def utf8_char_def simple_escape_def byte_def
        from_str_radix16_def hex_value_def is_scalar_def)
      (simp only: numeral_2_eq_2 simp_thms)
  ultimately show ?thesis by (auto simp: list_all_iff)
qed

lemma string_loop_plain:
  assumes "0x20 \<le> c" and "c < 0x80" and "c \<noteq> 0x22" and "c \<noteq> 0x5C"
  shows "string_loop (utf8 (escape_char c) @ r) acc = string_loop r (acc @ [c])"
proof -
  have u: "unat (word_of_nat c :: u8) = c" using assms by (simp add: unat_byte)
  then have "(word_of_nat c :: u8) \<noteq> 0x22" "(word_of_nat c :: u8) \<noteq> 0x5C" using assms by auto
  then show ?thesis using assms u by (simp add: escape_char_def utf8_Cons_ascii)
qed

lemma string_loop_escaped:
  "ascii s \<Longrightarrow> string_loop (utf8 (concat (map escape_char s)) @ 0x22 # r) acc = Inr (acc @ s, r)"
proof (induction s arbitrary: acc)
  case (Cons c s)
  then have "c < 0x80" "ascii s" by (simp_all add: ascii_def)
  then have "string_loop (utf8 (escape_char c) @ (utf8 (concat (map escape_char s)) @ 0x22 # r)) acc =
      string_loop (utf8 (concat (map escape_char s)) @ 0x22 # r) (acc @ [c])"
    using string_loop_control [of c] string_loop_plain [of c] by (meson not_le)
  then show ?case using Cons.IH [of "acc @ [c]"] \<open>ascii s\<close> by simp
qed simp

lemma parse_string_written:
  assumes "ascii s"
  shows "parse_string (utf8 (write_json_string s) @ r) = Inr (s, r)"
  using string_loop_escaped [OF assms, of r "[]"]
  by (simp add: parse_string_def write_json_string_def utf8_Cons_ascii)

section \<open>Decimal digits\<close>

lemma digits_value_snoc: "digits_value (ds @ [c]) = 10 * digits_value ds + (unat c - 48)"
  by (simp add: digits_value_def)

lemma show_dec_digits:
  "utf8 (show_dec n) \<noteq> [] \<and> list_all is_digit (utf8 (show_dec n)) \<and> digits_value (utf8 (show_dec n)) = n"
proof (induction n rule: show_dec.induct)
  case (1 n)
  have d: "utf8 [48 + k] = [word_of_nat (48 + k)]" "is_digit (word_of_nat (48 + k))" "unat (word_of_nat (48 + k) :: u8) - 48 = k"
    if "k < 10" for k :: nat
    using that unat_byte [of "48 + k"] by (simp_all add: utf8_def utf8_char_def is_digit_def)
  show ?case
  proof (cases "n < 10")
    case True
    then show ?thesis using d [OF True] by (simp add: show_dec.simps [of n] digits_value_def)
  next
    case False
    have m: "n mod 10 < 10" by simp
    have s: "utf8 (show_dec n) = utf8 (show_dec (n div 10)) @ [word_of_nat (48 + n mod 10)]"
      using False d(1) [OF m] by (simp add: show_dec.simps [of n])
    show ?thesis using "1.IH" [OF False] d(2,3) [OF m] unfolding s by (simp add: digits_value_snoc del: of_nat_add)
  qed
qed

lemma digits_value_zeros: "digits_value (replicate k 48 @ ds) = digits_value ds"
proof -
  have "foldl (\<lambda>n c. 10 * n + (unat (c :: u8) - 48)) 0 (replicate k 48) = 0" by (induction k) simp_all
  then show ?thesis by (simp add: digits_value_def)
qed

section \<open>Number tokens\<close>

definition stops :: "bytes \<Rightarrow> bool" where
  "stops r \<longleftrightarrow> r = [] \<or> hd r = 0x2C \<or> hd r = 0x5D \<or> hd r = 0x7D"

definition dec_token :: "bool \<Rightarrow> bytes \<Rightarrow> bytes \<Rightarrow> bytes" where
  "dec_token sg ip fp = (if sg then [0x2D] else []) @ ip @ (if fp = [] then [] else 0x2E # fp)"

lemma stops_no_digit: "stops r \<Longrightarrow> dropWhile is_digit r = r \<and> takeWhile is_digit r = []"
  by (cases r) (auto simp: stops_def is_digit_def)

lemma take_digits_all: "list_all is_digit ds \<Longrightarrow> r = [] \<or> \<not> is_digit (hd r) \<Longrightarrow> take_digits (ds @ r) = (ds, r)"
  by (cases r) (auto simp: take_digits_def list_all_iff)

lemma take_sign_digit: "is_digit (hd b) \<Longrightarrow> take_sign b = ([], b)"
  by (cases b) (auto simp: take_sign_def is_digit_def)

lemma stop_parts:
  assumes "stops r"
  shows "take_frac r = ([], r)" and "take_exp r = ([], r)" and "r = [] \<or> \<not> is_digit (hd r)"
  using assms by (cases r; auto simp: stops_def take_frac_def take_exp_def is_digit_def)+

lemma dec_token_parts:
  assumes "ip \<noteq> []" and "list_all is_digit ip" and "list_all is_digit fp" and "stops r"
  shows "take_sign (dec_token sg ip fp @ r) = (if sg then [0x2D] else [], dec_token False ip fp @ r)"
    and "take_digits (dec_token False ip fp @ r) = (ip, dec_token False [] fp @ r)"
    and "take_frac (dec_token False [] fp @ r) = (dec_token False [] fp, r)"
proof -
  have h: "is_digit (hd ip)" using assms(1,2) by (cases ip) simp_all
  have "take_sign (ip @ x) = ([], ip @ x)" for x using take_sign_digit [of "ip @ x"] h assms(1) by simp
  then have "take_sign (dec_token False ip fp @ r) = ([], dec_token False ip fp @ r)" by (simp add: dec_token_def)
  moreover have "take_sign (0x2D # x) = ([0x2D], x)" for x by (simp add: take_sign_def)
  ultimately show "take_sign (dec_token sg ip fp @ r) = (if sg then [0x2D] else [], dec_token False ip fp @ r)"
    by (cases sg) (simp_all add: dec_token_def)
  have "dec_token False [] fp @ r = [] \<or> \<not> is_digit (hd (dec_token False [] fp @ r))"
    using stop_parts(3) [OF assms(4)] by (auto simp: dec_token_def is_digit_def)
  then show "take_digits (dec_token False ip fp @ r) = (ip, dec_token False [] fp @ r)"
    using take_digits_all [OF assms(2), of "dec_token False [] fp @ r"] by (simp add: dec_token_def)
  show "take_frac (dec_token False [] fp @ r) = (dec_token False [] fp, r)"
    using take_digits_all [OF assms(3) stop_parts(3) [OF assms(4)]] stop_parts(1) [OF assms(4)]
    by (cases "fp = []") (simp_all add: dec_token_def take_frac_def)
qed

lemma parse_number_decimal:
  assumes "ip \<noteq> []" and "list_all is_digit ip" and "list_all is_digit fp" and "stops r"
  shows "parse_number (dec_token sg ip fp @ r) =
    Inr (f64_of (Finite sg (rat_of_nat (digits_value (ip @ fp)) * ten_pow (- int (length fp)))), r)"
proof -
  note parts = dec_token_parts [OF assms(1-3)]
  have tok: "number_token (dec_token sg ip fp @ r) = (dec_token sg ip fp, r)"
    unfolding number_token_def Let_def parts(1) [OF assms(4)] case_prod_conv parts(2,3) [OF assms(4)] stop_parts(2) [OF assms(4)]
    by (simp add: dec_token_def)
  have "stops []" by (simp add: stops_def)
  note e = parts [OF this, unfolded append_Nil2]
  have "tl (dec_token False [] fp) = fp" by (simp add: dec_token_def)
  then have "parse_f64 (dec_token sg ip fp) =
      Some (f64_of (Finite sg (rat_of_nat (digits_value (ip @ fp)) * ten_pow (- int (length fp)))))"
    unfolding parse_f64_def Let_def e(1) case_prod_conv e(2,3) using assms(1) by (simp add: exponent_value_def)
  then show ?thesis by (simp add: parse_number_def tok)
qed

section \<open>Written numbers\<close>

definition reads_number :: "bytes \<Rightarrow> f64 \<Rightarrow> bytes \<Rightarrow> bool" where
  "reads_number b n r \<longleftrightarrow> parse_number b = Inr (n, r) \<and> b \<noteq> [] \<and> (hd b = 0x2D \<or> is_digit (hd b))"

lemma reads_decimal:
  assumes "ip \<noteq> []" and "list_all is_digit ip" and "list_all is_digit fp" and "stops r"
  shows "reads_number (dec_token sg ip fp @ r) (f64_of (Finite sg (rat_of_nat (digits_value (ip @ fp)) * ten_pow (- int (length fp))))) r"
  using parse_number_decimal [OF assms, of sg] assms(1,2) unfolding reads_number_def by (cases ip) (simp_all add: dec_token_def)

lemma utf8_show_dec: "reads_number (dec_token sg (utf8 (show_dec n)) [] @ r) (f64_of (Finite sg (rat_of_nat n))) r"
  if "stops r"
  using reads_decimal [of "utf8 (show_dec n)" "[]" r sg] show_dec_digits [of n] that by (simp add: ten_pow_def)

lemma utf8_digits_length: "list_all is_digit (utf8 s) \<Longrightarrow> ascii s \<Longrightarrow> length (utf8 s) = length s"
  by (induction s) (auto simp: ascii_def utf8_Cons_ascii)

lemma show_dec_ascii: "ascii (show_dec n)"
proof (induction n rule: show_dec.induct)
  case (1 n)
  show ?case using 1 by (cases "n < 10") (auto simp: show_dec.simps [of n] ascii_def)
qed

lemma utf8_ascii: "ascii s \<Longrightarrow> utf8 s = map word_of_nat s"
  by (induction s) (auto simp: ascii_def utf8_Cons_ascii)

lemma utf8_show_decimal:
  assumes "0 < k"
  obtains ip fp where "utf8 (show_decimal d k) = dec_token False ip fp" and "ip \<noteq> []" and "list_all is_digit ip"
    and "list_all is_digit fp" and "digits_value (ip @ fp) = d" and "length fp = k"
proof
  define s p n where "s = show_dec d" and "p = replicate (k + 1 - length s) 48 @ s" and "n = length p - k"
  have len: "k < length p" by (simp add: p_def)
  have p: "ascii p" using show_dec_ascii [of d] by (auto simp: p_def s_def ascii_def list_all_iff)
  have up: "utf8 p = replicate (k + 1 - length s) 48 @ utf8 s"
    using utf8_ascii [OF p] utf8_ascii [OF show_dec_ascii [of d]] by (simp add: p_def s_def)
  have digs: "list_all is_digit (utf8 p)" unfolding up using show_dec_digits [of d]
    by (auto simp: s_def list_all_iff is_digit_def)
  have sp: "utf8 p = utf8 (take n p) @ utf8 (drop n p)" by (metis append_take_drop_id utf8_append)
  have a: "ascii (take n p)" "ascii (drop n p)"
    using p by (auto simp: ascii_def list_all_iff dest: in_set_takeD in_set_dropD)
  have fl: "length (utf8 (drop n p)) = k" using utf8_ascii [OF a(2)] len by (simp add: n_def)
  have il: "length (utf8 (take n p)) = n" using utf8_ascii [OF a(1)] len by (simp add: n_def)
  show "utf8 (show_decimal d k) = dec_token False (utf8 (take n p)) (utf8 (drop n p))"
    using assms fl by (auto simp: show_decimal_def Let_def dec_token_def s_def p_def n_def lit_def utf8_Cons_ascii)
  show "utf8 (take n p) \<noteq> []" using il len n_def by auto
  show "list_all is_digit (utf8 (take n p))" "list_all is_digit (utf8 (drop n p))" using digs unfolding sp by simp_all
  show "digits_value (utf8 (take n p) @ utf8 (drop n p)) = d"
    using digits_value_zeros show_dec_digits [of d] unfolding sp [symmetric] up by (simp add: s_def)
  show "length (utf8 (drop n p)) = k" by (rule fl)
qed

lemma f64_of_val: "f64_val n \<noteq> NaN \<Longrightarrow> f64_of (f64_val n) = n"
proof -
  assume nn: "f64_val n \<noteq> NaN"
  define P T x :: nat where "P = 2 ^ (52 + 11)" and "T = (2 ^ 11 - 1) * 2 ^ 52" and "x = unat n"
  have "x < 2 * P" using unsigned_less [of n, where 'a = nat] by (simp add: x_def P_def)
  then have x: "x = (if P \<le> x then P else 0) + x mod P" by (simp add: not_le le_mod_geq)
  have "fl_bits 52 11 (fl_val 52 11 x) = x"
    using nn x unfolding f64_val_def x_def [symmetric] fl_val_def fl_bits_def Let_def P_def [symmetric] T_def [symmetric]
    by (auto simp: mag_bits_of_val split: if_splits)
  then show ?thesis by (simp add: f64_of_def f64_val_def x_def)
qed

lemma f64_of_sign:
  assumes "f64_of (Finite False x) = f64_of (Finite False y)"
  shows "f64_of (Finite s x) = f64_of (Finite s y)"
proof -
  have "unat (f64_of v) = fl_bits 52 11 v" for v using fl_bits_less [of 52 11 v] by (simp add: f64_of_def unat_of_nat)
  then have "fl_bits 52 11 (Finite False x) = fl_bits 52 11 (Finite False y)" using assms by metis
  then have "fl_bits 52 11 (Finite s x) = fl_bits 52 11 (Finite s y)" by (simp add: fl_bits_def Let_def)
  then show ?thesis by (simp add: f64_of_def)
qed

lemma dvd_power_two: "b dvd (2::nat) ^ i \<Longrightarrow> \<exists>j. b = 2 ^ j"
proof (induction i arbitrary: b)
  case 0
  then show ?case by (auto intro: exI [of _ 0])
next
  case (Suc i)
  show ?case
  proof (cases "even b")
    case True
    then obtain c where c: "b = 2 * c" by blast
    then have "c dvd 2 ^ i" using Suc.prems by simp
    then obtain j where "c = 2 ^ j" using Suc.IH by blast
    then show ?thesis using c by (auto intro: exI [of _ "Suc j"])
  next
    case False
    then have "coprime b (2 ^ Suc i)" by simp
    then have "b = 1" using Suc.prems by (metis coprime_absorb_left nat_dvd_1_iff_1)
    then show ?thesis by (auto intro: exI [of _ 0])
  qed
qed

lemma bit_width_power: "bit_width ((2::nat) ^ j) = Suc j"
proof -
  have "(2::nat) ^ (bit_width (2 ^ j) - 1) \<le> 2 ^ j" "(2::nat) ^ j < 2 ^ bit_width (2 ^ j)"
    using bit_width_bounds [of "2 ^ j"] by auto
  then have "bit_width (2 ^ j) - 1 \<le> j" "j < bit_width ((2::nat) ^ j)" by (simp_all add: power_le_imp_le_exp)
  then show ?thesis by linarith
qed

text \<open>A finite value is a dyadic fraction, so that its exact decimal expansion is finite.\<close>

lemma mag_val_dyadic: "\<exists>i z. mag_val m e n * 2 ^ i = of_int z"
proof -
  have "\<exists>N j. mag_val m e n = rat_of_nat N * two_pow j"
    unfolding mag_val_def Let_def by (split if_split) blast
  then obtain N j where q: "mag_val m e n = rat_of_nat N * two_pow j" by blast
  show ?thesis
  proof (cases "0 \<le> j")
    case True
    then have "mag_val m e n * 2 ^ 0 = of_int (int N * 2 ^ nat j)" by (simp add: q two_pow_def)
    then show ?thesis by blast
  next
    case False
    then have "mag_val m e n * 2 ^ nat (- j) = of_int (int N)" by (simp add: q two_pow_def)
    then show ?thesis by blast
  qed
qed

lemma two_adic_exact:
  assumes "q * 2 ^ i = of_int z"
  shows "\<exists>z'. q * 10 ^ two_adic q = of_int z'"
proof -
  obtain a b where ab: "quotient_of q = (a, b)" by fastforce
  note b = quotient_of_denom_pos [OF ab] quotient_of_coprime [OF ab] quotient_of_div [OF ab]
  have "of_int (a * 2 ^ i) = (of_int (z * b) :: rat)" using assms b(1,3) by (simp add: field_simps)
  then have "a * 2 ^ i = z * b" by (simp only: of_int_eq_iff)
  then have "b dvd 2 ^ i" using b(2) by (metis coprime_commute coprime_dvd_mult_right_iff dvd_triv_right)
  then have "int (nat b) dvd int (2 ^ i)" using b(1) by simp
  then have "nat b dvd 2 ^ i" by (simp only: int_dvd_int_iff)
  then obtain j where j: "nat b = 2 ^ j" using dvd_power_two by blast
  then have t: "two_adic q = j" unfolding two_adic_def ab by (simp only: snd_conv bit_width_power diff_Suc_1)
  have "b = 2 ^ j" using j b(1) by (metis int_nat_eq of_nat_numeral of_nat_power order.strict_implies_order)
  then have "q * 2 ^ j = of_int a" using b(3) by simp
  moreover have "(10 :: rat) ^ j = 2 ^ j * 5 ^ j" by (simp flip: power_mult_distrib)
  ultimately have "q * 10 ^ two_adic q = of_int (a * 5 ^ j)" unfolding t by (simp flip: mult.assoc)
  then show ?thesis by blast
qed

lemma shortest_reads_back:
  assumes "f64_val n = Finite s q"
  shows "reads_back q (shortest q)"
proof (cases "List.find (reads_back q) (concat (map (candidates q) [1..<18]))")
  case None
  have "\<exists>a. q = mag_val 52 11 a" and pos: "0 \<le> q" using assms by (auto simp: f64_val_def fl_val_def Let_def split: if_splits)
  then obtain z where z: "q * 10 ^ two_adic q = of_int z" using mag_val_dyadic two_adic_exact by metis
  then have "0 \<le> z" using pos by (metis of_int_0_le_iff zero_le_mult_iff zero_le_numeral zero_le_power)
  then have "rat_of_nat (nat \<lfloor>q * 10 ^ two_adic q\<rfloor>) = q * 10 ^ two_adic q" unfolding z by simp
  then have "rat_of_nat (nat \<lfloor>q * 10 ^ two_adic q\<rfloor>) * ten_pow (- int (two_adic q)) = q" by (simp add: ten_pow_def)
  then show ?thesis using None by (simp add: shortest_def reads_back_def)
next
  case (Some c)
  then have "reads_back q c" by (auto simp: find_Some_iff)
  with Some show ?thesis by (simp add: shortest_def)
qed

definition num_ok :: "f64 \<Rightarrow> bool" where
  "num_ok n \<longleftrightarrow> (case f64_val n of Finite s q \<Rightarrow> \<not> (s \<and> q = 0) | _ \<Rightarrow> False)"

lemma dec_token_sign: "dec_token s ip fp = (if s then [0x2D] else []) @ dec_token False ip fp"
  by (simp add: dec_token_def)

lemma parse_number_show_f64:
  assumes "f64_val n = Finite s q" and "q \<noteq> 0" and "stops r"
  shows "reads_number (utf8 (show_f64 n) @ r) n r"
proof -
  obtain d k where dk: "shortest q = (d, k)" by fastforce
  have "reads_back q (d, k)" using shortest_reads_back [OF assms(1)] dk by simp
  then have "f64_of (Finite s (rat_of_nat d * ten_pow (- k))) = f64_of (Finite s q)"
    unfolding reads_back_def fst_conv snd_conv by (rule f64_of_sign)
  then have n: "f64_of (Finite s (rat_of_nat d * ten_pow (- k))) = n" using f64_of_val [of n] assms(1) by simp
  define body where "body = (if k < 0 then show_decimal (d * 10 ^ nat (- k)) 0 else show_decimal d (nat k))"
  have w: "utf8 (show_f64 n) = (if s then [0x2D] else []) @ utf8 body"
    using assms(1,2) dk by (simp add: show_f64_def body_def lit_def utf8_Cons_ascii)
  show ?thesis
  proof (cases "0 < k")
    case True
    then obtain ip fp where f: "utf8 (show_decimal d (nat k)) = dec_token False ip fp" "ip \<noteq> []" "list_all is_digit ip"
        "list_all is_digit fp" "digits_value (ip @ fp) = d" "length fp = nat k"
      using utf8_show_decimal [of "nat k" d] by auto
    have "utf8 (show_f64 n) = dec_token s ip fp" using w f(1) True dec_token_sign [of s ip fp] by (simp add: body_def)
    then show ?thesis using reads_decimal [OF f(2-4) assms(3), of s] f(5,6) n True by simp
  next
    case False
    define m where "m = (if k < 0 then d * 10 ^ nat (- k) else d)"
    have "body = show_dec m" using False by (simp add: body_def m_def show_decimal_def)
    then have "utf8 (show_f64 n) = dec_token s (utf8 (show_dec m)) []" using w dec_token_sign [of s "utf8 (show_dec m)" "[]"]
      by (simp add: dec_token_def)
    moreover have "rat_of_nat m = rat_of_nat d * ten_pow (- k)" using False by (auto simp: m_def ten_pow_def)
    ultimately show ?thesis using utf8_show_dec [OF assms(3), of s m] n by simp
  qed
qed

lemma parse_number_written:
  assumes "num_ok n" and "stops r"
  shows "reads_number (utf8 (write_num n) @ r) n r"
proof -
  obtain s q where v: "f64_val n = Finite s q" and nz: "\<not> (s \<and> q = 0)"
    using assms(1) by (auto simp: num_ok_def split: fval.splits)
  have pos: "0 \<le> q" using f64_val_wf [of n] v by (simp add: fv_wf_def)
  show ?thesis
  proof (cases "q = rat_of_int \<lfloor>q\<rfloor> \<and> q < 10 ^ 15")
    case True
    define m where "m = nat \<lfloor>q\<rfloor>"
    have q: "q = rat_of_nat m" using True pos by (metis m_def of_nat_nat zero_le_floor)
    then have "utf8 (write_num n) = dec_token s (utf8 (show_dec m)) []"
      using v nz True by (auto simp: write_num_def show_int_def dec_token_def lit_def utf8_Cons_ascii)
    then show ?thesis using utf8_show_dec [OF assms(2), of s m] f64_of_val [of n] v q by simp
  next
    case False
    then have "write_num n = show_f64 n" using v by (auto simp: write_num_def)
    moreover have "q \<noteq> 0" using False by auto
    ultimately show ?thesis using parse_number_show_f64 [OF v _ assms(2)] by simp
  qed
qed

section \<open>Nested values\<close>

fun json_ok :: "json \<Rightarrow> bool" and items_ok :: "json list \<Rightarrow> bool" and fields_ok :: "(rstring \<times> json) list \<Rightarrow> bool" where
  "json_ok Null = True"
| "json_ok (Bool b) = True"
| "json_ok (Num n) = num_ok n"
| "json_ok (Str s) = ascii s"
| "json_ok (Arr vs) = items_ok vs"
| "json_ok (Obj fs) = fields_ok fs"
| "items_ok [] = True"
| "items_ok (v # vs) = (json_ok v \<and> items_ok vs)"
| "fields_ok [] = True"
| "fields_ok ((k, v) # fs) = (ascii k \<and> json_ok v \<and> fields_ok fs)"

lemma skip_ws_same: "b = [] \<or> \<not> is_ws (hd b) \<Longrightarrow> skip_ws b = b"
  by (cases b) (simp_all add: skip_ws_def)

lemma is_ws_digit: "is_digit c \<Longrightarrow> \<not> is_ws c"
  by (auto simp: is_digit_def is_ws_def)

lemma parse_value_number: "reads_number b n r \<Longrightarrow> parse_value b = Inr (Num n, r)"
proof -
  assume a: "reads_number b n r"
  then obtain c cs where b: "b = c # cs" "c = 0x2D \<or> is_digit c" by (cases b) (auto simp: reads_number_def)
  have "c \<noteq> 0x22 \<and> c \<noteq> 0x7B \<and> c \<noteq> 0x5B \<and> c \<noteq> byte CHR ''t'' \<and> c \<noteq> byte CHR ''f'' \<and> c \<noteq> byte CHR ''n''"
    using b(2) by (auto simp: is_digit_def byte_def)
  moreover have "skip_ws b = b" using b is_ws_digit by (intro skip_ws_same) (auto simp: is_ws_def)
  ultimately show ?thesis using a b by (simp add: parse_value.simps [of "c # cs"] reads_number_def)
qed

text \<open>What the writer puts in front of the rest of the input, and what starts there.\<close>

lemma written_string_Cons: "\<exists>x. utf8 (write_json_string s) = 0x22 # x"
  by (simp add: write_json_string_def utf8_Cons_ascii)

lemma parse_value_string: "ascii s \<Longrightarrow> parse_value (utf8 (write_json_string s) @ r) = Inr (Str s, r)"
proof -
  assume a: "ascii s"
  obtain x where x: "utf8 (write_json_string s) = 0x22 # x" using written_string_Cons by blast
  have "skip_ws (0x22 # x @ r) = 0x22 # x @ r" by (rule skip_ws_same) (simp add: is_ws_def)
  then show ?thesis using parse_string_written [OF a, of r] unfolding x by (simp add: parse_value.simps)
qed

definition written :: "json \<Rightarrow> bool" where
  "written v \<longleftrightarrow> (\<forall>r. stops r \<longrightarrow> parse_value (utf8 (json_write v) @ r) = Inr (v, r))"

lemma writtenD: "written v \<Longrightarrow> stops r \<Longrightarrow> parse_value (utf8 (json_write v) @ r) = Inr (v, r)"
  by (simp add: written_def)

lemma utf8_lit_one [simp]:
  "utf8 (lit ''['') = [0x5B]" "utf8 (lit '']'') = [0x5D]" "utf8 (lit ''{'') = [0x7B]" "utf8 (lit ''}'') = [0x7D]"
  "utf8 (lit '','') = [0x2C]" "utf8 (lit '':'') = [0x3A]"
  "utf8 (lit ''null'') = map byte ''null''" "utf8 (lit ''true'') = map byte ''true''" "utf8 (lit ''false'') = map byte ''false''"
  by (simp_all add: lit_def utf8_Cons_ascii byte_def)

lemma stops_closers [simp]: "stops (0x2C # r)" "stops (0x5D # r)" "stops (0x7D # r)" "stops []"
  by (simp_all add: stops_def)

lemma parse_value_word:
  "parse_value (map byte ''null'' @ r) = Inr (Null, r)" "parse_value (map byte ''true'' @ r) = Inr (Bool True, r)"
  "parse_value (map byte ''false'' @ r) = Inr (Bool False, r)"
  by (simp_all add: parse_value.simps skip_ws_def is_ws_def byte_def expect_def)

lemma written_starts:
  assumes "json_ok v"
  shows "\<exists>c x. utf8 (json_write v) = c # x \<and> \<not> is_ws c \<and> c \<noteq> 0x5D"
proof (cases v)
  case (Num n)
  then have "reads_number (utf8 (write_num n)) n []" using assms parse_number_written [of n "[]"] by simp
  then show ?thesis using Num is_ws_digit
    by (cases "utf8 (write_num n)") (auto simp: reads_number_def is_ws_def is_digit_def)
next
  case (Str s)
  then show ?thesis using written_string_Cons [of s] by (auto simp: is_ws_def)
next
  case (Bool b)
  then show ?thesis by (cases b) (auto simp: byte_def is_ws_def)
qed (auto simp: byte_def is_ws_def)

lemma items_loop_written:
  assumes "vs \<noteq> []" and "list_all written vs"
  shows "items_loop (utf8 (write_items vs) @ 0x5D # r) acc = Inr (Arr (acc @ vs), r)"
  using assms
proof (induction vs arbitrary: acc rule: list_nonempty_induct)
  case (single v)
  then show ?case by (simp add: items_loop.simps writtenD skip_ws_def is_ws_def)
next
  case (cons v vs)
  then obtain u us where vs: "vs = u # us" by (cases vs) auto
  have "utf8 (write_items (v # vs)) @ 0x5D # r = utf8 (json_write v) @ 0x2C # utf8 (write_items vs) @ 0x5D # r"
    by (simp add: vs)
  then show ?case using cons by (simp add: items_loop.simps [of "utf8 (json_write v) @ _"] writtenD skip_ws_def is_ws_def)
qed

lemma parse_value_array:
  assumes "items_ok vs" and "list_all written vs"
  shows "parse_value (utf8 (json_write (Arr vs)) @ r) = Inr (Arr vs, r)"
proof (cases vs)
  case Nil
  then show ?thesis by (simp add: parse_value.simps skip_ws_def is_ws_def)
next
  case (Cons v us)
  define t where "t = utf8 (write_items vs) @ 0x5D # r"
  have "json_ok v" using assms(1) Cons by simp
  then obtain c x where "utf8 (json_write v) = c # x" "\<not> is_ws c" "c \<noteq> 0x5D" using written_starts by blast
  then obtain y where y: "t = c # y" "\<not> is_ws c" "c \<noteq> 0x5D" using Cons by (cases us) (auto simp: t_def)
  have "items_loop t [] = Inr (Arr vs, r)" unfolding t_def using items_loop_written [of vs r "[]"] assms(2) Cons by simp
  moreover have "utf8 (json_write (Arr vs)) @ r = 0x5B # t" by (simp add: t_def)
  ultimately show ?thesis using y by (simp add: parse_value.simps skip_ws_def is_ws_def)
qed

lemma field_written:
  assumes "ascii k" and "written v" and "stops (d # t)"
  shows "fields_loop (utf8 (write_json_string k) @ 0x3A # utf8 (json_write v) @ d # t) acc =
    (if d = 0x2C then fields_loop t (acc @ [(k, v)])
     else if d = 0x7D then Inr (Obj (acc @ [(k, v)]), t)
     else Inl (lit ''expected '' @ [39, 44, 39] @ lit '' or '' @ [39, 125, 39] @ lit '' in object''))"
proof -
  obtain x where x: "utf8 (write_json_string k) = 0x22 # x" using written_string_Cons by blast
  have p: "parse_string (0x22 # x @ 0x3A # utf8 (json_write v) @ d # t) = Inr (k, 0x3A # utf8 (json_write v) @ d # t)"
    using parse_string_written [OF assms(1), of "0x3A # utf8 (json_write v) @ d # t"] unfolding x by simp
  have "\<not> is_ws d" using assms(3) by (auto simp: stops_def is_ws_def)
  then have s: "skip_ws (d # t) = d # t" by (simp add: skip_ws_def)
  show ?thesis unfolding x using p s writtenD [OF assms(2,3)]
    by (simp add: fields_loop.simps [of "0x22 # x @ _"] skip_ws_def is_ws_def)
qed

lemma fields_loop_written:
  assumes "fs \<noteq> []" and "list_all (\<lambda>(k, v). ascii k \<and> written v) fs"
  shows "fields_loop (utf8 (write_fields fs) @ 0x7D # r) acc = Inr (Obj (acc @ fs), r)"
  using assms
proof (induction fs arbitrary: acc rule: list_nonempty_induct)
  case (single f)
  then show ?case using field_written [of "fst f" "snd f" "0x7D" r acc] by (cases f) simp
next
  case (cons f fs)
  obtain k v where f: "f = (k, v)" by fastforce
  obtain g gs where fs: "fs = g # gs" using cons by (cases fs) auto
  have "utf8 (write_fields (f # fs)) @ 0x7D # r =
      utf8 (write_json_string k) @ 0x3A # utf8 (json_write v) @ 0x2C # utf8 (write_fields fs) @ 0x7D # r"
    by (simp add: f fs)
  moreover have "ascii k" "written v" "list_all (\<lambda>(k, v). ascii k \<and> written v) fs" using cons.prems f by auto
  ultimately show ?case using field_written [of k v "0x2C" "utf8 (write_fields fs) @ 0x7D # r" acc] cons.IH f by simp
qed

lemma parse_value_object:
  assumes "list_all (\<lambda>(k, v). ascii k \<and> written v) fs"
  shows "parse_value (utf8 (json_write (Obj fs)) @ r) = Inr (Obj fs, r)"
proof (cases fs)
  case Nil
  then show ?thesis by (simp add: parse_value.simps skip_ws_def is_ws_def)
next
  case (Cons f us)
  define t where "t = utf8 (write_fields fs) @ 0x7D # r"
  obtain y where y: "t = 0x22 # y" using Cons written_string_Cons [of "fst f"] by (cases f; cases us) (auto simp: t_def)
  have "fields_loop t [] = Inr (Obj fs, r)" unfolding t_def using fields_loop_written [of fs r "[]"] assms Cons by simp
  moreover have "utf8 (json_write (Obj fs)) @ r = 0x7B # t" by (simp add: t_def)
  ultimately show ?thesis using y by (simp add: parse_value.simps skip_ws_def is_ws_def)
qed

lemma json_written:
  "json_ok v \<Longrightarrow> written v"
  "items_ok vs \<Longrightarrow> list_all written vs"
  "fields_ok fs \<Longrightarrow> list_all (\<lambda>(k, v). ascii k \<and> written v) fs"
proof (induction v and vs and fs rule: json_ok_items_ok_fields_ok.induct)
  case (3 n)
  then show ?case using parse_number_written parse_value_number by (simp add: written_def)
next
  case (5 vs)
  then show ?case using parse_value_array by (simp add: written_def [of "Arr vs"] del: json_write.simps)
next
  case (6 fs)
  then show ?case using parse_value_object by (simp add: written_def [of "Obj fs"] del: json_write.simps)
qed (auto simp: written_def parse_value_word parse_value_string simp del: list.map)

lemma json_read_back: "json_ok v \<Longrightarrow> json_parse (utf8 (write_to_string v)) = Inr v"
  using writtenD [OF json_written(1) [of v], of "[]"] by (simp add: json_parse_def write_to_string_def skip_ws_def)

text \<open>C36. A JSON value whose strings are ASCII and whose numbers are finite and not the negative zero is
  read back unchanged, bit for bit, by the parser from the text the writer makes of it.\<close>

theorem json_roundtrip: "json_ok v \<Longrightarrow> json_parse (utf8 (write_to_string v)) = Inr v"
  by (rule json_read_back)

lemma num_ok_examples: "num_ok 0" "num_ok 0xBFF8000000000000"
  by (simp_all add: num_ok_def f64_val_def fl_val_def mag_val_def two_pow_def e_min_def)

theorem json_roundtrip_witness:
  "json_parse (utf8 (write_to_string (Obj [(lit ''a'', Arr [Num 0xBFF8000000000000, Null]), ([0x0A], Str (lit ''x''))]))) =
     Inr (Obj [(lit ''a'', Arr [Num 0xBFF8000000000000, Null]), ([0x0A], Str (lit ''x''))])"
  by (rule json_roundtrip) (simp add: num_ok_examples ascii_def lit_def)

section \<open>Outside of that range\<close>

text \<open>A number that is not finite is written as \<open>NaN\<close>, \<open>inf\<close> or \<open>-inf\<close>, which the parser refuses:
  a document that holds one cannot be read back.\<close>

theorem json_nonfinite_unreadable:
  assumes "f64_val n = NaN \<or> f64_val n = Infinity s"
  shows "\<exists>e. json_parse (utf8 (write_to_string (Num n))) = Inl e"
proof -
  have "write_num n \<in> {lit ''NaN'', lit ''inf'', lit ''-inf''}" using assms by (auto simp: write_num_def show_f64_def)
  then show ?thesis
    by (auto simp: json_parse_def write_to_string_def lit_def utf8_Cons_ascii parse_value.simps skip_ws_def is_ws_def
        byte_def is_digit_def parse_number_def number_token_def take_sign_def take_digits_def take_frac_def take_exp_def
        parse_f64_def)
qed

theorem json_nonfinite_unreadable_witness:
  "\<exists>e. json_parse (utf8 (write_to_string (Num 0x7FF0000000000000))) = Inl e"
  by (rule json_nonfinite_unreadable [where s = False]) (simp add: f64_val_def fl_val_def)

text \<open>The parser takes each byte of a string for a code point: a character between \<open>U+0080\<close> and
  \<open>U+07FF\<close>, which the writer emits in UTF-8, comes back as two characters.\<close>

theorem json_string_mangled:
  assumes "0x80 \<le> c" and "c < 0x800"
  shows "json_parse (utf8 (write_to_string (Str [c]))) = Inr (Str [0xC0 + c div 64, 0x80 + c mod 64])"
proof -
  have d: "c div 64 < 32" "c mod 64 < 64" using assms by auto
  define h l :: u8 where "h = word_of_nat (0xC0 + c div 64)" and "l = word_of_nat (0x80 + c mod 64)"
  have u: "unat h = 0xC0 + c div 64" "unat l = 0x80 + c mod 64" using d unfolding h_def l_def by (subst unat_byte; simp)+
  then have "h \<noteq> 0x22" "h \<noteq> 0x5C" "l \<noteq> 0x22" "l \<noteq> 0x5C" by auto
  moreover have "utf8 (write_to_string (Str [c])) = [0x22, h, l, 0x22]"
    using assms by (simp add: write_to_string_def write_json_string_def escape_char_def utf8_def utf8_char_def h_def l_def del: of_nat_add)
  ultimately show ?thesis
    using u by (simp add: json_parse_def parse_value.simps skip_ws_def is_ws_def parse_string_def)
qed

theorem json_string_mangled_witness:
  "json_parse (utf8 (write_to_string (Str [0xE9]))) = Inr (Str [0xC3, 0xA9])"
  using json_string_mangled [of "0xE9"] by simp

end
