(* ===== verification/Cloud_Gate.thy ===== *)
theory Cloud_Gate
  imports Cloud_Server Json_Roundtrip
begin

text \<open>
  What the fleet server (server.rs, auth.rs) does next to its gate: the handshake endpoint, the header of
  the dashboard page, and the bound on the number of connections over whole service ticks.
\<close>

section \<open>The secure handshake endpoint\<close>

definition handshake_body :: "attestation \<Rightarrow> bytes" where
  "handshake_body att = utf8 (write_to_string (json_obj [(''attestation'', Str (hex_encode (to_bytes att)))]))"

lemma handshake_body_read:
  assumes "attestation_wf att"
  shows "handshake_init_from_json (parse_or_null (handshake_body att)) = Some \<lparr>hi_attestation = att, hi_suites = suite_all\<rparr>"
proof -
  have "json_ok (json_obj [(''attestation'', Str (hex_encode (to_bytes att)))])"
    using hex_encode_plain [of "to_bytes att"] by (simp add: json_obj_def lit_def ascii_def)
  then have "parse_or_null (handshake_body att) = json_obj [(''attestation'', Str (hex_encode (to_bytes att)))]"
    by (simp add: parse_or_null_def handshake_body_def json_read_back)
  then show ?thesis using attestation_bytes_roundtrip [OF assms, of "[]"]
    by (simp add: handshake_init_from_json_def json_obj_def json_get_def as_str_def hex_roundtrip suite_all_def)
qed

definition handshake_request :: "u64 \<Rightarrow> attestation \<Rightarrow> request" where
  "handshake_request uid att = \<lparr>rq_method = Post, rq_path = unit_path uid ''secure/handshake'', rq_query = [],
     rq_headers = [], rq_body = handshake_body att\<rparr>"

lemma handshake_path:
  "parse_unit_id (unit_path uid ''secure/handshake'') = Some uid" "ends_with (unit_path uid ''secure/handshake'') (lit ''/secure/handshake'')"
proof -
  have n: "47 \<notin> set (show_dec (unat uid))" "show_dec (unat uid) \<noteq> []"
    using show_dec_digit_list [of "unat uid"] by (auto simp: list_all_iff)
  have "split_when (\<lambda>c. c = 47) (lit ''/api/units/'' @ r) = [[], lit ''api'', lit ''units''] @ split_when (\<lambda>c. c = 47) r" for r
    by (simp add: lit_def)
  then have "path_parts (unit_path uid ''secure/handshake'') = [lit ''api'', lit ''units'', show_dec (unat uid), lit ''secure'', lit ''handshake'']"
    using split_slash [OF n(1), of "lit ''secure/handshake''"] n(2) by (simp add: path_parts_def unit_path_def lit_def)
  then show "parse_unit_id (unit_path uid ''secure/handshake'') = Some uid"
    using parse_u64_show_dec [of uid] by (simp add: parse_unit_id_def)
  show "ends_with (unit_path uid ''secure/handshake'') (lit ''/secure/handshake'')"
    by (simp add: ends_with_def unit_path_def lit_def)
qed

text \<open>The handshake endpoint does not consult the gate: a request without any header, with an attestation
  signed by a key that nobody enrolled, stores a session under whatever unit id its path names, also
  over the session of another unit.\<close>

theorem handshake_ungated:
  assumes "primitives_ok P" and "sv_authz sv = Some gate" and "sv_identity sv = Some ident"
    and "attestation_wf att" and "attestation_verify (ed_verify P) att"
    and "ts_keys (br_trust (fa_broker gate)) (at_unit_id att) = None"
    and "ce_seed E = Some seed" and "ce_salt E = Some salt"
  shows "\<exists>r session. dispatch E P (handshake_request uid att) sv = Some (r, sv\<lparr>sv_sessions := (sv_sessions sv)(uid \<mapsto> session)\<rparr>) \<and>
    rs_status r = 200 \<and> ss_peer_id session = at_unit_id att"
proof -
  let ?rq = "handshake_request uid att" and ?init = "\<lparr>hi_attestation = att, hi_suites = suite_all\<rparr>"
  have paths: "parse_unit_id (lit ''/api/health'') = None" "parse_unit_id (lit ''/mcp'') = None"
    by (simp_all add: parse_unit_id_def path_parts_def lit_def)
  then have "unit_path uid ''secure/handshake'' \<noteq> lit ''/api/health''" "unit_path uid ''secure/handshake'' \<noteq> lit ''/mcp''"
    using handshake_path(1) [of uid] by auto
  then have d: "dispatch E P ?rq sv = handle_secure_handshake E P uid ?rq sv"
    using handshake_path [of uid] by (simp add: dispatch_def api_response_def handshake_request_def)
  have "negotiate suite_all (hi_suites ?init) = Some Aes256Gcm" by (simp add: negotiate_def suite_all_def)
  moreover obtain k where "\<And>salt. derive_key P (derive_shared P seed (at_eph_pub att)) Aes256Gcm (Some salt) =
      Some (Inr \<lparr>cb_key = k, cb_suite = Aes256Gcm, cb_ctr = 0, cb_salt = salt\<rparr>)"
    using derive_key_ok [OF assms(1), of "derive_shared P seed (at_eph_pub att)" Aes256Gcm] by blast
  ultimately obtain resp session where "respond_handshake P ident ?init suite_all (Some seed) (Some salt) = Some (Inr (resp, session))"
      "ss_peer_id session = at_unit_id att"
    using assms(5) by (auto simp: respond_handshake_def generate_eph_def)
  then have "handle_secure_handshake E P uid ?rq sv =
      Some (response_json 200 (handshake_resp_to_json resp), sv\<lparr>sv_sessions := (sv_sessions sv)(uid \<mapsto> session)\<rparr>)"
      "ss_peer_id session = at_unit_id att"
    using handshake_body_read [OF assms(4)] assms(3,7,8) by (simp_all add: handle_secure_handshake_def handshake_request_def)
  then show ?thesis unfolding d by (simp add: response_json_def response_with_body_def) blast
qed

theorem handshake_ungated_witness:
  "\<exists>r session. dispatch demo_env toy (handshake_request 5 (attestation_sign (ed_sign toy) (toy_identity 66 Admin 9) (replicate 32 1))) demo_server =
     Some (r, demo_server\<lparr>sv_sessions := (sv_sessions demo_server)(5 \<mapsto> session)\<rparr>) \<and> rs_status r = 200 \<and> ss_peer_id session = 66"
  using handshake_ungated [of toy demo_server demo_gate "toy_identity 9 AiAgent 4"
      "attestation_sign (ed_sign toy) (toy_identity 66 Admin 9) (replicate 32 1)" demo_env "[2]" "[5, 6, 7, 8]" 5]
    toy_ok demo_gate_facts(1) attestation_sign_verifies [OF toy_keypair [of 66 Admin 9], of "replicate 32 1"]
  by (simp add: demo_server_def with_security_def demo_gate_def authz_with_trust_def with_trust_def enroll_def trust_new_def
      attestation_wf_def attestation_sign_def toy_identity_def toy_def demo_env_def SIGNING_PUB_LEN_def AGREEMENT_PUB_LEN_def SIGNATURE_LEN_def)

section \<open>The header of the dashboard\<close>

text \<open>The dashboard page sends the attestation in a header of its own name, which the server does not
  look at: whatever it carries, a gated server answers such a request as if it had no attestation.\<close>

theorem dashboard_header_ignored:
  assumes "rq_headers rq = [(lit ''content-type'', lit ''application/json''), (to_lowercase low (lit ''TPT-Attestation''), v)]"
  shows "authenticate_request vfy gate rq = Inl 401"
proof -
  have "to_lowercase low (lit ''TPT-Attestation'') = lit ''tpt-attestation''" by (simp add: to_lowercase_def ascii_def lit_def ascii_lower_def)
  then show ?thesis by (simp add: authenticate_request_def extract_attestation_def assms)
qed

theorem dashboard_header_ignored_witness:
  "authenticate_request (ed_verify toy) demo_gate ((takeover_request 5 demo_att)
     \<lparr>rq_headers := [(lit ''content-type'', lit ''application/json''), (to_lowercase id (lit ''TPT-Attestation''), hex_encode (to_bytes demo_att))]\<rparr>) = Inl 401"
  by (rule dashboard_header_ignored [where low = id]) simp

section \<open>The connection cap\<close>

definition conns_capped :: "('r, 't, 'k) fleet_server \<Rightarrow> bool" where
  "conns_capped sv \<longleftrightarrow> finite (dom (sv_conns sv)) \<and> card (dom (sv_conns sv)) \<le> max_conns (sv_limits sv)"

lemma try_accept_capped: "0 < max_conns (sv_limits sv) \<Longrightarrow> conns_capped sv \<Longrightarrow> conns_capped (try_accept now k sv) \<and> sv_limits (try_accept now k sv) = sv_limits sv"
proof (induction k arbitrary: sv)
  case (Suc k)
  let ?sv = "sv\<lparr>sv_next_token := sv_next_token sv + 1,
    sv_conns := (sv_conns sv)(sv_next_token sv \<mapsto> \<lparr>cn_read_buf = [], cn_registered = False, cn_last_active = now\<rparr>)\<rparr>"
  have "conns_capped ?sv" if "card (dom (sv_conns sv)) < max_conns (sv_limits sv)"
    using that Suc.prems(2) by (simp add: conns_capped_def card_insert_if)
  then show ?case using Suc.prems Suc.IH [of ?sv] by simp
qed simp

lemma dispatch_conns: "dispatch E P rq sv = Some (r, sv') \<Longrightarrow> sv_conns sv' = sv_conns sv \<and> sv_limits sv' = sv_limits sv"
proof -
  have g: "sv_conns (snd (guarded P rq tool act sv)) = sv_conns sv \<and> sv_limits (snd (guarded P rq tool act sv)) = sv_limits sv" for tool act
    by (auto simp: guarded_def split: option.splits prod.splits)
  have u: "sv_conns (snd (unit_route E P uid rq sv)) = sv_conns sv \<and> sv_limits (snd (unit_route E P uid rq sv)) = sv_limits sv" for uid
    using g by (simp add: unit_route_def Let_def split: option.splits sum.splits)
  have m: "sv_conns (snd (mcp_route E P rq sv)) = sv_conns sv \<and> sv_limits (snd (mcp_route E P rq sv)) = sv_limits sv"
    by (simp add: mcp_route_def split: option.splits sum.splits prod.splits)
  have h: "handle_secure_handshake E P uid rq sv = Some (r, sv') \<Longrightarrow> sv_conns sv' = sv_conns sv \<and> sv_limits sv' = sv_limits sv" for uid
    by (auto simp: handle_secure_handshake_def split: option.splits sum.splits prod.splits)
  assume d: "dispatch E P rq sv = Some (r, sv')"
  show ?thesis
  proof (cases "rq_method rq = Post \<and> rq_path rq = lit ''/mcp''")
    case True
    then show ?thesis using d m by (auto simp: dispatch_def)
  next
    case False
    then have "sv' = sv \<or> api_response E P rq sv = Some (r, sv')" using d by (auto simp: dispatch_def split: if_splits)
    then show ?thesis using api_response_cases u h by (metis snd_conv)
  qed
qed

lemma service_conn_capped:
  assumes "service_conn E P now reads token sv = Some (out, sv')" and "conns_capped sv"
  shows "conns_capped sv' \<and> sv_limits sv' = sv_limits sv"
proof -
  have fin: "finite (dom (sv_conns sv))" "card (dom (sv_conns sv)) \<le> max_conns (sv_limits sv)" using assms(2) by (simp_all add: conns_capped_def)
  have rm: "card (dom (sv_conns sv) - {token}) \<le> max_conns (sv_limits sv)" using card_mono [OF fin(1), of "dom (sv_conns sv) - {token}"] fin(2) by auto
  show ?thesis using assms fin rm dispatch_conns [of E P _ "remove_conn token sv" _ sv']
    by (fastforce simp: service_conn_def conns_capped_def remove_conn_def insert_absorb domIff split: option.splits sum.splits prod.splits if_splits)
qed

lemma service_all_capped:
  "service_all E P now reads ts sv = Some sv' \<Longrightarrow> conns_capped sv \<Longrightarrow> conns_capped sv' \<and> sv_limits sv' = sv_limits sv"
  by (induction ts arbitrary: sv) (auto split: option.splits prod.splits dest: service_conn_capped)

lemma sweep_capped: "conns_capped sv \<Longrightarrow> conns_capped (sweep_idle now sv)"
proof -
  have sub: "dom (sv_conns (sweep_idle now sv)) \<subseteq> dom (sv_conns sv)" by (auto simp: sweep_idle_def split: option.splits)
  assume "conns_capped sv"
  then show ?thesis using finite_subset [OF sub] card_mono [OF _ sub] by (fastforce simp: conns_capped_def sweep_idle_def)
qed

text \<open>A service tick never leaves more connections than the configured maximum, whatever arrives.\<close>

theorem connection_cap:
  assumes "0 < max_conns (sv_limits sv)" and "conns_capped sv" and "pump E P now pending reads order sv = Some sv'"
  shows "conns_capped (sweep_idle now (register_pending regs sv'))"
proof -
  have "service_all E P now reads (order (sv_conns (try_accept now pending sv))) (try_accept now pending sv) = Some sv'"
    using assms(3) by (simp add: pump_def Let_def)
  then have "conns_capped sv'" using try_accept_capped [OF assms(1,2), of now pending] service_all_capped by blast
  then have "conns_capped (register_pending regs sv')" by (auto simp: conns_capped_def register_pending_def dom_def)
  then show ?thesis by (rule sweep_capped)
qed

theorem connection_cap_witness:
  "\<exists>sv'. pump demo_env toy 0 3 (\<lambda>_. []) (\<lambda>_. []) demo_server = Some sv' \<and> conns_capped (sweep_idle 0 (register_pending (\<lambda>_. True) sv'))"
proof -
  obtain sv' where "pump demo_env toy 0 3 (\<lambda>_. []) (\<lambda>_. []) demo_server = Some sv'" by (simp add: pump_def)
  moreover have "0 < max_conns (sv_limits demo_server)" "conns_capped demo_server"
    by (simp_all add: conns_capped_def demo_server_def with_security_def fleet_server_new_def server_limits_default_def)
  ultimately show ?thesis using connection_cap by blast
qed

end
