(* ===== verification/Session_Recorder.thy ===== *)
theory Session_Recorder
  imports Fleet
begin

text \<open>
  Session recording of the cloud crate (recorder.rs): the recorder interface as a locale, the recorders
  that implement it, the container format on disk and its reader. A file is its content and \<open>wr\<close> is the
  operating system's append to it, which may fail after some of the bytes.
\<close>

section \<open>The recorders\<close>

definition REC_MAGIC :: u64 where "REC_MAGIC = 0x5450545245430000"
definition REC_VERSION :: u16 where "REC_VERSION = 1"
definition REC_HEADER_LEN :: nat where "REC_HEADER_LEN = 18"

type_synonym recorded = "u8 \<times> u64 \<times> bytes"

record null_recorder =
  nr_count :: u64

definition null_recorder_new :: null_recorder where
  "null_recorder_new = \<lparr>nr_count = 0\<rparr>"

definition null_record :: "u8 \<Rightarrow> u64 \<Rightarrow> bytes \<Rightarrow> null_recorder \<Rightarrow> (io_error + unit) \<times> null_recorder" where
  "null_record ch seq payload r = (Inr (), r\<lparr>nr_count := nr_count r + 1\<rparr>)"

definition null_frames :: "null_recorder \<Rightarrow> u64" where
  "null_frames r = nr_count r"

record vec_recorder =
  vr_frames :: "recorded list"

definition vec_recorder_new :: vec_recorder where
  "vec_recorder_new = \<lparr>vr_frames = []\<rparr>"

definition vec_record :: "u8 \<Rightarrow> u64 \<Rightarrow> bytes \<Rightarrow> vec_recorder \<Rightarrow> (io_error + unit) \<times> vec_recorder" where
  "vec_record ch seq payload r = (Inr (), r\<lparr>vr_frames := vr_frames r @ [(ch, seq, payload)]\<rparr>)"

definition vec_frames :: "vec_recorder \<Rightarrow> u64" where
  "vec_frames r = word_of_nat (length (vr_frames r))"

record file_recorder =
  fr_file :: bytes
  fr_count :: u64

definition rec_header :: "u64 \<Rightarrow> bytes" where
  "rec_header unit_id =
     (let h0 = replicate REC_HEADER_LEN 0; h1 = write_at 0 (le_bytes 8 REC_MAGIC) h0; h2 = write_at 8 (le_bytes 2 REC_VERSION) h1
      in write_at 10 (le_bytes 8 unit_id) h2)"

definition file_recorder_create :: "(bytes \<Rightarrow> bytes \<Rightarrow> (io_error + unit) \<times> bytes) \<Rightarrow> u64 \<Rightarrow> bytes \<Rightarrow> io_error + file_recorder" where
  "file_recorder_create wr unit_id content =
     (if length content = 0
      then (case wr (rec_header unit_id) content of (Inl e, _) \<Rightarrow> Inl e | (Inr _, c) \<Rightarrow> Inr \<lparr>fr_file = c, fr_count = 0\<rparr>)
      else Inr \<lparr>fr_file = content, fr_count = 0\<rparr>)"

definition rec_frame_header :: "u8 \<Rightarrow> u64 \<Rightarrow> nat \<Rightarrow> bytes" where
  "rec_frame_header ch seq len =
     (let f0 = replicate 13 0; f1 = f0[0 := ch]; f2 = write_at 1 (le_bytes 8 seq) f1
      in write_at 9 (le_bytes 4 (word_of_nat len :: u32)) f2)"

definition file_record :: "(bytes \<Rightarrow> bytes \<Rightarrow> (io_error + unit) \<times> bytes) \<Rightarrow> u8 \<Rightarrow> u64 \<Rightarrow> bytes \<Rightarrow> file_recorder \<Rightarrow>
    (io_error + unit) \<times> file_recorder" where
  "file_record wr ch seq payload r =
     (if MAX_PAYLOAD < length payload then (Inl (InvalidData ''payload exceeds recording MTU''), r)
      else case wr (rec_frame_header ch seq (length payload)) (fr_file r) of
        (Inl e, c) \<Rightarrow> (Inl e, r\<lparr>fr_file := c\<rparr>)
      | (Inr _, c) \<Rightarrow>
          (case wr payload c of
             (Inl e, c') \<Rightarrow> (Inl e, r\<lparr>fr_file := c'\<rparr>)
           | (Inr _, c') \<Rightarrow> (Inr (), \<lparr>fr_file = c', fr_count = fr_count r + 1\<rparr>)))"

definition file_frames :: "file_recorder \<Rightarrow> u64" where
  "file_frames r = fr_count r"

section \<open>The reader\<close>

record recorded_frame =
  rf_channel :: u8
  rf_seq :: u64
  rf_payload :: bytes

text \<open>The loop of \<open>read_frames\<close> on the rest of the file; the arithmetic on offsets stays below the length
  of the file plus \<open>2^32\<close> and does not wrap.\<close>

function frames_loop :: "bytes \<Rightarrow> recorded_frame list \<Rightarrow> io_error + recorded_frame list" where
  "frames_loop d out =
     (if length d < 13 then Inr out
      else
        let ch = d ! 0; seq = from_le (take 8 (drop 1 d)); len = unat (from_le (take 4 (drop 9 d)) :: u32) in
        if length (drop 13 d) < len then Inl (InvalidData ''truncated frame'')
        else frames_loop (drop len (drop 13 d))
          (out @ [\<lparr>rf_channel = ch, rf_seq = seq, rf_payload = take len (drop 13 d)\<rparr>]))"
  by pat_completeness auto
termination frames_loop
  by (relation "measure (\<lambda>(d, out). length d)") auto

declare frames_loop.simps [simp del]

definition read_frames :: "bytes \<Rightarrow> io_error + recorded_frame list" where
  "read_frames data =
     (if length data < REC_HEADER_LEN then Inl (InvalidData ''file too short'')
      else if (from_le (take 8 data) :: u64) \<noteq> REC_MAGIC then Inl (InvalidData ''bad recording magic'')
      else frames_loop (drop REC_HEADER_LEN data) [])"

section \<open>The recorder contract\<close>

text \<open>What a session relies on: a successful call stores the frame behind those stored before and counts
  it, a failed one stores and counts nothing. The client is \<open>ingest\<close> of the fleet.\<close>

locale recorder =
  fixes rec_frame :: "u8 \<Rightarrow> u64 \<Rightarrow> bytes \<Rightarrow> 'r \<Rightarrow> (io_error + unit) \<times> 'r"
    and n_frames :: "'r \<Rightarrow> u64"
    and stored :: "'r \<Rightarrow> recorded list"
    and invar :: "'r \<Rightarrow> bool"
  assumes record_ok: "invar r \<Longrightarrow> rec_frame ch seq payload r = (Inr (), r') \<Longrightarrow>
      invar r' \<and> stored r' = stored r @ [(ch, seq, payload)] \<and> n_frames r' = n_frames r + 1"
    and record_err: "invar r \<Longrightarrow> rec_frame ch seq payload r = (Inl e, r') \<Longrightarrow>
      invar r' \<and> stored r' = stored r \<and> n_frames r' = n_frames r"
begin

text \<open>Every unit's recorder is consistent, and so is every new one.\<close>

definition fleet_ok :: "(rstring option \<Rightarrow> u64 \<Rightarrow> 'r) \<Rightarrow> ('r, 't) fleet \<Rightarrow> bool" where
  "fleet_ok mk_rec f \<longleftrightarrow> (\<forall>uid. invar (mk_rec (fl_record_dir f) uid)) \<and> (\<forall>uid u. fl_units f uid = Some u \<longrightarrow> invar (us_recorder u))"

text \<open>The frames that the recorder of a unit holds, or will start from.\<close>

definition unit_stored :: "(rstring option \<Rightarrow> u64 \<Rightarrow> 'r) \<Rightarrow> u64 \<Rightarrow> ('r, 't) fleet \<Rightarrow> recorded list" where
  "unit_stored mk_rec uid f =
     stored (case fl_units f uid of Some u \<Rightarrow> us_recorder u | None \<Rightarrow> mk_rec (fl_record_dir f) uid)"

lemma ingest_stored:
  assumes "fleet_ok mk_rec f" and "ingest mk_rec rec_frame uid addr ch seq payload now1 now2 f = (res, f')"
  shows "fleet_ok mk_rec f'"
    and "unit_stored mk_rec uid' f' = unit_stored mk_rec uid' f @ (if uid' = uid \<and> res = Inr () then [(ch, seq, payload)] else [])"
proof -
  define u where "u = (case fl_units f uid of Some u \<Rightarrow> u\<lparr>us_addr := addr, us_last_seen_ns := now1\<rparr>
    | None \<Rightarrow> unit_new uid addr now1 (mk_rec (fl_record_dir f) uid))"
  have p: "provision mk_rec uid addr now1 f = f\<lparr>fl_units := (fl_units f)(uid \<mapsto> u)\<rparr>"
    by (simp add: provision_def u_def split: option.splits)
  have su: "stored (us_recorder u) = unit_stored mk_rec uid f" "invar (us_recorder u)"
    using assms(1) by (auto simp: u_def unit_stored_def unit_new_def fleet_ok_def split: option.splits)
  obtain x r where r: "rec_frame ch seq payload (us_recorder u) = (x, r)" by fastforce
  have st: "invar r \<and> stored r = stored (us_recorder u) @ (if x = Inr () then [(ch, seq, payload)] else [])"
    using record_ok [OF su(2), of ch seq payload r] record_err [OF su(2), of ch seq payload _ r] r by (cases x) auto
  obtain v where res: "res = Inr () \<longleftrightarrow> x = Inr ()" "fl_units f' = (fl_units f)(uid \<mapsto> v)" "us_recorder v = r"
      "fl_record_dir f' = fl_record_dir f"
    using assms(2) r by (auto simp: ingest_def p Let_def split: sum.splits)
  show "fleet_ok mk_rec f'" using assms(1) res st by (simp add: fleet_ok_def)
  show "unit_stored mk_rec uid' f' = unit_stored mk_rec uid' f @ (if uid' = uid \<and> res = Inr () then [(ch, seq, payload)] else [])"
    using res st su(1) by (cases "uid' = uid") (simp_all add: unit_stored_def split: option.splits)
qed

end

interpretation vec: recorder vec_record vec_frames vr_frames "\<lambda>_. True"
  by unfold_locales (auto simp: vec_record_def vec_frames_def)

section \<open>What the reader makes of a file\<close>

definition append_ok :: "bytes \<Rightarrow> bytes \<Rightarrow> (io_error + unit) \<times> bytes" where
  "append_ok bs content = (Inr (), content @ bs)"

definition frame_image :: "recorded \<Rightarrow> bytes" where
  "frame_image f = (case f of (ch, seq, payload) \<Rightarrow> ch # le_bytes 8 seq @ le_bytes 4 (word_of_nat (length payload) :: u32) @ payload)"

definition frame_of :: "recorded \<Rightarrow> recorded_frame" where
  "frame_of f = (case f of (ch, seq, payload) \<Rightarrow> \<lparr>rf_channel = ch, rf_seq = seq, rf_payload = payload\<rparr>)"

definition frame_back :: "recorded_frame \<Rightarrow> recorded" where
  "frame_back f = (rf_channel f, rf_seq f, rf_payload f)"

lemma frame_back_of [simp]: "frame_back (frame_of f) = f"
  by (cases f) (simp add: frame_back_def frame_of_def)

lemma rec_frame_header_eq: "rec_frame_header ch seq len = ch # le_bytes 8 seq @ le_bytes 4 (word_of_nat len :: u32)"
proof -
  have "(replicate 13 (0 :: u8))[0 := ch] = [ch] @ replicate 12 0" by (simp add: numeral_eq_Suc)
  then show ?thesis unfolding rec_frame_header_def Let_def by (simp add: write_at_def)
qed

lemma rec_header_eq: "rec_header u = le_bytes 8 REC_MAGIC @ le_bytes 2 REC_VERSION @ le_bytes 8 u"
  unfolding rec_header_def Let_def by (simp add: write_at_def REC_HEADER_LEN_def)

lemma frames_loop_frame:
  assumes "length payload < 2 ^ 32"
  shows "frames_loop (frame_image (ch, seq, payload) @ d) out = frames_loop d (out @ [frame_of (ch, seq, payload)])"
proof -
  let ?d = "frame_image (ch, seq, payload) @ d"
  have "unat (word_of_nat (length payload) :: u32) = length payload" using assms by (simp add: unat_of_nat)
  then have f: "?d ! 0 = ch" "from_le (take 8 (drop 1 ?d)) = seq" "unat (from_le (take 4 (drop 9 ?d)) :: u32) = length payload"
      "drop 13 ?d = payload @ d" "13 \<le> length ?d"
    by (simp_all add: frame_image_def from_le_le_bytes)
  then show ?thesis using f(5) by (subst frames_loop.simps) (simp only: Let_def f(1-4), simp add: frame_of_def)
qed

lemma frames_loop_frames:
  "list_all (\<lambda>(_, _, p). length p < 2 ^ 32) fs \<Longrightarrow> length tail < 13 \<Longrightarrow>
    frames_loop (concat (map frame_image fs) @ tail) out = Inr (out @ map frame_of fs)"
proof (induction fs arbitrary: out)
  case Nil
  then show ?case by (simp add: frames_loop.simps)
next
  case (Cons f fs)
  then show ?case by (cases f) (simp add: frames_loop_frame)
qed

lemma read_frames_image:
  assumes "list_all (\<lambda>(_, _, p). length p < 2 ^ 32) fs" and "length tail < 13"
  shows "read_frames (rec_header u @ concat (map frame_image fs) @ tail) = Inr (map frame_of fs)"
  using frames_loop_frames [OF assms, of "[]"] by (simp add: read_frames_def rec_header_eq from_le_le_bytes REC_HEADER_LEN_def)

text \<open>A file as the recorder leaves it, on a file system whose writes succeed.\<close>

definition payload_ok :: "recorded \<Rightarrow> bool" where
  "payload_ok f \<longleftrightarrow> length (snd (snd f)) \<le> MAX_PAYLOAD"

definition file_inv :: "file_recorder \<Rightarrow> bool" where
  "file_inv r \<longleftrightarrow> (\<exists>u fs. fr_file r = rec_header u @ concat (map frame_image fs) \<and> list_all payload_ok fs)"

definition file_stored :: "file_recorder \<Rightarrow> recorded list" where
  "file_stored r = (case read_frames (fr_file r) of Inr fs \<Rightarrow> map frame_back fs | Inl _ \<Rightarrow> [])"

lemma read_recorded:
  assumes "list_all payload_ok fs"
  shows "read_frames (rec_header u @ concat (map frame_image fs)) = Inr (map frame_of fs)"
proof -
  have "list_all (\<lambda>(_, _, p). length p < 2 ^ 32) fs" using assms by (auto simp: list_all_iff payload_ok_def mux_consts)
  then show ?thesis using read_frames_image [of fs "[]" u] by simp
qed

lemma file_stored_image:
  "list_all payload_ok fs \<Longrightarrow> fr_file r = rec_header u @ concat (map frame_image fs) \<Longrightarrow> file_stored r = fs"
  by (simp add: file_stored_def read_recorded comp_def)

lemma file_record_ok:
  "file_record append_ok ch seq payload r =
     (if MAX_PAYLOAD < length payload then (Inl (InvalidData ''payload exceeds recording MTU''), r)
      else (Inr (), \<lparr>fr_file = fr_file r @ frame_image (ch, seq, payload), fr_count = fr_count r + 1\<rparr>))"
  by (simp add: file_record_def append_ok_def rec_frame_header_eq frame_image_def)

interpretation filerec: recorder "file_record append_ok" file_frames file_stored file_inv
proof unfold_locales
  fix r r' :: file_recorder and ch seq payload
  assume i: "file_inv r" and ok: "file_record append_ok ch seq payload r = (Inr (), r')"
  obtain u fs where fs: "fr_file r = rec_header u @ concat (map frame_image fs)" "list_all payload_ok fs"
    using i by (auto simp: file_inv_def)
  let ?fs = "fs @ [(ch, seq, payload)]"
  have r': "fr_file r' = rec_header u @ concat (map frame_image ?fs)" "list_all payload_ok ?fs" "fr_count r' = fr_count r + 1"
    using ok fs by (auto simp: file_record_ok payload_ok_def split: if_splits)
  have "file_inv r'" using r'(1,2) unfolding file_inv_def by blast
  then show "file_inv r' \<and> file_stored r' = file_stored r @ [(ch, seq, payload)] \<and> file_frames r' = file_frames r + 1"
    using file_stored_image [OF r'(2,1)] file_stored_image [OF fs(2,1)] r'(3) by (simp add: file_frames_def)
qed (auto simp: file_record_ok split: if_splits)

lemma fresh_recorder:
  assumes "file_recorder_create append_ok u [] = Inr r"
  shows "file_inv r" and "file_stored r = []"
proof -
  have r: "fr_file r = rec_header u @ concat (map frame_image [])" using assms by (auto simp: file_recorder_create_def append_ok_def)
  have "list_all payload_ok []" by simp
  then show "file_inv r" unfolding file_inv_def using r by blast
  show "file_stored r = []" using file_stored_image [OF _ r] by simp
qed

section \<open>Properties\<close>

fun ingest_all :: "(rstring option \<Rightarrow> u64 \<Rightarrow> file_recorder) \<Rightarrow> socket_addr \<Rightarrow> (u64 \<times> recorded) list \<Rightarrow> (file_recorder, 't) fleet \<Rightarrow>
    (file_recorder, 't) fleet" where
  "ingest_all mk_rec addr [] f = f"
| "ingest_all mk_rec addr ((uid, ch, seq, payload) # xs) f =
     ingest_all mk_rec addr xs (snd (ingest mk_rec (file_record append_ok) uid addr ch seq payload 0 0 f))"

lemma ingest_result: "fst (ingest mk_rec (file_record append_ok) uid addr ch seq payload n1 n2 f) = Inr () \<longleftrightarrow> length payload \<le> MAX_PAYLOAD"
  by (auto simp: ingest_def provision_def file_record_ok Let_def split: option.splits)

lemma ingest_all_stored:
  "filerec.fleet_ok mk_rec f \<Longrightarrow> filerec.fleet_ok mk_rec (ingest_all mk_rec addr xs f) \<and>
    filerec.unit_stored mk_rec uid (ingest_all mk_rec addr xs f) =
      filerec.unit_stored mk_rec uid f @ map snd (filter (\<lambda>(u, r). u = uid \<and> payload_ok r) xs)"
proof (induction xs arbitrary: f)
  case (Cons x xs)
  obtain u ch seq payload where x: "x = (u, ch, seq, payload)" by (cases x) auto
  define f' where "f' = snd (ingest mk_rec (file_record append_ok) u addr ch seq payload 0 0 f)"
  note i = filerec.ingest_stored [OF Cons.prems, of u addr ch seq payload 0 0 _ f']
  have e: "ingest mk_rec (file_record append_ok) u addr ch seq payload 0 0 f = (fst (ingest mk_rec (file_record append_ok) u addr ch seq payload 0 0 f), f')"
    by (simp add: f'_def)
  show ?case using Cons.IH [of f'] i(1) [OF e] i(2) [OF e, of uid] ingest_result [of mk_rec u addr ch seq payload 0 0 f]
    by (auto simp: x payload_ok_def simp flip: f'_def)
qed simp

text \<open>Recording: after any interleaving of frames from any units, the recording file of a unit that was
  provisioned on first contact reads back as exactly the frames of that unit that fit the recording
  limit, in the order of arrival; the reader refuses nothing that the recorder wrote.\<close>

theorem session_recording:
  assumes "\<And>dir u. file_recorder_create append_ok u [] = Inr (mk_rec dir u)" and "fl_units f = Map.empty"
    and "fl_units (ingest_all mk_rec addr xs f) uid = Some u"
  shows "read_frames (fr_file (us_recorder u)) = Inr (map (frame_of \<circ> snd) (filter (\<lambda>(v, r). v = uid \<and> payload_ok r) xs))"
proof -
  have new: "file_inv (mk_rec dir v)" "file_stored (mk_rec dir v) = []" for dir v
    using fresh_recorder [OF assms(1)] by simp_all
  then have ok: "filerec.fleet_ok mk_rec f" "filerec.unit_stored mk_rec uid f = []"
    using assms(2) by (simp_all add: filerec.fleet_ok_def filerec.unit_stored_def)
  note a = ingest_all_stored [OF ok(1), of addr xs uid]
  obtain v fs where fs: "fr_file (us_recorder u) = rec_header v @ concat (map frame_image fs)" "list_all payload_ok fs"
    using a assms(3) unfolding filerec.fleet_ok_def file_inv_def by blast
  have "fs = map snd (filter (\<lambda>(v, r). v = uid \<and> payload_ok r) xs)"
    using a assms(3) ok(2) file_stored_image [OF fs(2,1)] by (simp add: filerec.unit_stored_def)
  then show ?thesis using read_recorded [OF fs(2)] fs(1) by simp
qed

theorem session_recording_witness:
  "let f = ingest_all (\<lambda>dir u. \<lparr>fr_file = rec_header u, fr_count = 0\<rparr>) (SocketV4 1 2)
        [(7, 1, 5, [10, 20]), (8, 2, 6, [30]), (7, 3, 9, [])] (fleet_new ())
   in fl_units f 7 \<noteq> None \<and> read_frames (fr_file (us_recorder (the (fl_units f 7))))
     = Inr [\<lparr>rf_channel = 1, rf_seq = 5, rf_payload = [10, 20]\<rparr>, \<lparr>rf_channel = 3, rf_seq = 9, rf_payload = []\<rparr>]"
proof -
  define mk :: "rstring option \<Rightarrow> u64 \<Rightarrow> file_recorder" where "mk = (\<lambda>dir u. \<lparr>fr_file = rec_header u, fr_count = 0\<rparr>)"
  define xs :: "(u64 \<times> recorded) list" where "xs = [(7, 1, 5, [10, 20]), (8, 2, 6, [30]), (7, 3, 9, [])]"
  have mk: "file_recorder_create append_ok u [] = Inr (mk dir u)" for dir u
    by (simp add: file_recorder_create_def append_ok_def mk_def)
  have "fl_units (ingest_all mk (SocketV4 1 2) xs (fleet_new ())) 7 \<noteq> None"
    by (simp add: xs_def ingest_def provision_def fleet_new_def file_record_ok mux_consts Let_def)
  then obtain u where u: "fl_units (ingest_all mk (SocketV4 1 2) xs (fleet_new ())) 7 = Some u" by blast
  have "filter (\<lambda>(v, r). v = 7 \<and> payload_ok r) xs = [(7, 1, 5, [10, 20]), (7, 3, 9, [])]"
    by (simp add: xs_def payload_ok_def mux_consts)
  then show ?thesis
    using session_recording [OF mk _ u] u by (simp add: Let_def frame_of_def fleet_new_def flip: mk_def xs_def)
qed

end
