(* ===== verification/Direct_Io.thy ===== *)
theory Direct_Io
  imports Mux
begin

text \<open>
  Direct-I/O files of the analytics crate (direct_io.rs): bytes are staged in an aligned buffer and
  handed to the kernel in whole sectors. The kernel is the argument \<open>os\<close>, which says what the \<open>k\<close>-th
  call of \<open>write\<close> answers: an error, or how many of the offered bytes it took (never more than were
  offered). \<open>None\<close> is a call that does not return, because a loop does not end or a slice panics.

  The lemmas show that with a kernel that takes at least one byte per call every write and flush
  returns, that the stream of bytes written is kept in order across the sector boundaries, and that a
  flush pads it with zeros to a whole number of sectors.
\<close>

section \<open>The raw file\<close>

definition SECTOR_SIZE :: nat where "SECTOR_SIZE = 4096"

type_synonym kernel = "nat \<Rightarrow> io_error + nat"

record raw_file =
  rw_data :: bytes
  rw_calls :: nat

partial_function (option) write_block_loop :: "kernel \<Rightarrow> bytes \<Rightarrow> nat \<Rightarrow> raw_file \<Rightarrow> ((io_error + unit) \<times> raw_file) option" where
  "write_block_loop os block off f =
     (if off < length block then
        (case os (rw_calls f) of
           Inl e \<Rightarrow> Some (Inl e, f\<lparr>rw_calls := Suc (rw_calls f)\<rparr>)
         | Inr k \<Rightarrow>
             let n = min k (length block - off)
             in write_block_loop os block (off + n)
                  \<lparr>rw_data = rw_data f @ take n (drop off block), rw_calls = Suc (rw_calls f)\<rparr>)
      else Some (Inr (), f))"

definition write_block :: "kernel \<Rightarrow> bytes \<Rightarrow> raw_file \<Rightarrow> ((io_error + unit) \<times> raw_file) option" where
  "write_block os block f = write_block_loop os block 0 f"

text \<open>Opening: \<open>direct\<close> says whether the open with direct I/O succeeds, \<open>buffered\<close> what the second open
  without it answers. The flush is a best-effort \<open>fsync\<close> whose result is ignored.\<close>

definition raw_open :: "bool \<Rightarrow> io_error + unit \<Rightarrow> io_error + raw_file \<times> bool" where
  "raw_open direct buffered =
     (let new = \<lparr>rw_data = [], rw_calls = 0\<rparr> in
      if direct then Inr (new, True)
      else case buffered of Inl e \<Rightarrow> Inl e | Inr _ \<Rightarrow> Inr (new, False))"

section \<open>The staged file\<close>

text \<open>The staging buffer is allocated but not cleared: \<open>junk\<close> is what the memory held before.\<close>

definition aligned_buf_new :: "(nat \<Rightarrow> u8) \<Rightarrow> nat \<Rightarrow> bytes option" where
  "aligned_buf_new junk cap = (if 0 < cap \<and> cap mod SECTOR_SIZE = 0 then Some (map junk [0..<cap]) else None)"

record direct_file =
  df_backend :: raw_file
  df_staging :: bytes
  df_staging_len :: nat
  df_direct :: bool
  df_written :: u64

definition direct_open :: "(nat \<Rightarrow> u8) \<Rightarrow> bool \<Rightarrow> io_error + unit \<Rightarrow> (io_error + direct_file) option" where
  "direct_open junk direct buffered =
     (case raw_open direct buffered of
        Inl e \<Rightarrow> Some (Inl e)
      | Inr (f, d) \<Rightarrow>
          (case aligned_buf_new junk (SECTOR_SIZE * 16) of
             None \<Rightarrow> None
           | Some buf \<Rightarrow> Some (Inr \<lparr>df_backend = f, df_staging = buf, df_staging_len = 0, df_direct = d, df_written = 0\<rparr>)))"

definition is_direct :: "direct_file \<Rightarrow> bool" where
  "is_direct d = df_direct d"

definition bytes_written :: "direct_file \<Rightarrow> u64" where
  "bytes_written d = df_written d"

text \<open>The inner loop of \<open>write\<close>: hand whole sectors to the kernel and move the rest to the front.\<close>

definition shift_sector :: "direct_file \<Rightarrow> raw_file \<Rightarrow> direct_file" where
  "shift_sector d f =
     (let rem = df_staging_len d - SECTOR_SIZE in
      d\<lparr>df_backend := f, df_staging := write_at 0 (take rem (drop SECTOR_SIZE (df_staging d))) (df_staging d),
        df_staging_len := rem, df_written := df_written d + word_of_nat SECTOR_SIZE\<rparr>)"

function flush_sectors :: "kernel \<Rightarrow> direct_file \<Rightarrow> ((io_error + unit) \<times> direct_file) option" where
  "flush_sectors os d =
     (if SECTOR_SIZE \<le> df_staging_len d then
        (case write_block os (take SECTOR_SIZE (df_staging d)) (df_backend d) of
           None \<Rightarrow> None
         | Some (Inl e, f) \<Rightarrow> Some (Inl e, d\<lparr>df_backend := f\<rparr>)
         | Some (Inr _, f) \<Rightarrow> flush_sectors os (shift_sector d f))
      else Some (Inr (), d))"
  by pat_completeness auto
termination flush_sectors
  by (relation "measure (\<lambda>(os, d). df_staging_len d)") (auto simp: shift_sector_def Let_def SECTOR_SIZE_def)

declare flush_sectors.simps [simp del]

definition stage :: "bytes \<Rightarrow> direct_file \<Rightarrow> direct_file" where
  "stage bs d = d\<lparr>df_staging := write_at (df_staging_len d) bs (df_staging d), df_staging_len := df_staging_len d + length bs\<rparr>"

partial_function (option) direct_write :: "kernel \<Rightarrow> bytes \<Rightarrow> direct_file \<Rightarrow> ((io_error + unit) \<times> direct_file) option" where
  "direct_write os data d =
     (if data = [] then Some (Inr (), d)
      else
        let space = length (df_staging d) - df_staging_len d; n = min space (length data) in
        Option.bind (flush_sectors os (stage (take n data) d))
          (\<lambda>(res, d'). case res of Inl e \<Rightarrow> Some (Inl e, d') | Inr _ \<Rightarrow> direct_write os (drop n data) d'))"

text \<open>The padding slice starts at the staged length and panics when that is behind the first sector.\<close>

definition direct_flush :: "kernel \<Rightarrow> direct_file \<Rightarrow> ((io_error + unit) \<times> direct_file) option" where
  "direct_flush os d =
     (if SECTOR_SIZE < df_staging_len d then None
      else if 0 < df_staging_len d then
        let st = write_at (df_staging_len d) (replicate (SECTOR_SIZE - df_staging_len d) 0) (df_staging d) in
        (case write_block os (take SECTOR_SIZE st) (df_backend d) of
           None \<Rightarrow> None
         | Some (Inl e, f) \<Rightarrow> Some (Inl e, d\<lparr>df_backend := f, df_staging := st\<rparr>)
         | Some (Inr _, f) \<Rightarrow>
             Some (Inr (), d\<lparr>df_backend := f, df_staging := st, df_staging_len := 0,
               df_written := df_written d + word_of_nat SECTOR_SIZE\<rparr>))
      else Some (Inr (), d))"

section \<open>Termination and the stream of bytes\<close>

definition progressing :: "kernel \<Rightarrow> bool" where
  "progressing os \<longleftrightarrow> (\<forall>k. \<exists>n > 0. os k = Inr n)"

lemma write_block_loop_returns:
  assumes "progressing os" and "off \<le> length block"
  shows "\<exists>k. write_block_loop os block off f = Some (Inr (), \<lparr>rw_data = rw_data f @ drop off block, rw_calls = k\<rparr>)"
  using assms(2)
proof (induction "length block - off" arbitrary: off f rule: less_induct)
  case less
  show ?case
  proof (cases "off < length block")
    case True
    obtain k where k: "os (rw_calls f) = Inr k" "0 < k" using assms(1) by (auto simp: progressing_def)
    define n where "n = min k (length block - off)"
    have n: "length block - (off + n) < length block - off" "off + n \<le> length block" using k(2) True by (auto simp: n_def)
    have "take n (drop off block) @ drop (off + n) block = drop off block"
      by (metis add.commute append_take_drop_id drop_drop)
    moreover obtain m where "write_block_loop os block (off + n) \<lparr>rw_data = rw_data f @ take n (drop off block), rw_calls = Suc (rw_calls f)\<rparr> =
        Some (Inr (), \<lparr>rw_data = (rw_data f @ take n (drop off block)) @ drop (off + n) block, rw_calls = m\<rparr>)"
      using less.hyps [of "off + n" "\<lparr>rw_data = rw_data f @ take n (drop off block), rw_calls = Suc (rw_calls f)\<rparr>"] n by auto
    ultimately show ?thesis using True k(1) by (subst write_block_loop.simps) (simp add: Let_def flip: n_def)
  next
    case False
    then show ?thesis using less.prems by (subst write_block_loop.simps) (cases f, auto)
  qed
qed

lemma write_block_returns:
  assumes "progressing os"
  shows "\<exists>f'. write_block os block f = Some (Inr (), f') \<and> rw_data f' = rw_data f @ block"
  using write_block_loop_returns [OF assms, of 0 block f] by (auto simp: write_block_def)

text \<open>Between two calls less than a sector is staged, and the kernel holds whole sectors.\<close>

definition direct_inv :: "direct_file \<Rightarrow> bool" where
  "direct_inv d \<longleftrightarrow> length (df_staging d) = SECTOR_SIZE * 16 \<and> df_staging_len d < SECTOR_SIZE \<and>
     length (rw_data (df_backend d)) mod SECTOR_SIZE = 0 \<and> df_written d = word_of_nat (length (rw_data (df_backend d)))"

definition direct_stream :: "direct_file \<Rightarrow> bytes" where
  "direct_stream d = rw_data (df_backend d) @ take (df_staging_len d) (df_staging d)"

text \<open>The same with a buffer that may hold whole sectors, as inside \<open>write\<close>.\<close>

definition staged_inv :: "direct_file \<Rightarrow> bool" where
  "staged_inv d \<longleftrightarrow> length (df_staging d) = SECTOR_SIZE * 16 \<and> df_staging_len d \<le> SECTOR_SIZE * 16 \<and>
     length (rw_data (df_backend d)) mod SECTOR_SIZE = 0 \<and> df_written d = word_of_nat (length (rw_data (df_backend d)))"

lemma shift_sector_keeps:
  assumes "staged_inv d" and "SECTOR_SIZE \<le> df_staging_len d" and "rw_data f = rw_data (df_backend d) @ take SECTOR_SIZE (df_staging d)"
  shows "staged_inv (shift_sector d f)" and "direct_stream (shift_sector d f) = direct_stream d"
proof -
  let ?rem = "df_staging_len d - SECTOR_SIZE"
  have l: "length (take ?rem (drop SECTOR_SIZE (df_staging d))) = ?rem"
    using assms(1,2) by (auto simp: staged_inv_def SECTOR_SIZE_def)
  have "take ?rem (write_at 0 (take ?rem (drop SECTOR_SIZE (df_staging d))) (df_staging d)) = take ?rem (drop SECTOR_SIZE (df_staging d))"
    using take_write_at_0 [of "take ?rem (drop SECTOR_SIZE (df_staging d))" "df_staging d"] unfolding l .
  moreover have "take SECTOR_SIZE (df_staging d) @ take ?rem (drop SECTOR_SIZE (df_staging d)) = take (df_staging_len d) (df_staging d)"
    using assms(2) by (metis le_add_diff_inverse take_add)
  ultimately show "direct_stream (shift_sector d f) = direct_stream d"
    using assms(3) by (simp add: direct_stream_def shift_sector_def Let_def)
  show "staged_inv (shift_sector d f)"
    using assms l by (auto simp: staged_inv_def shift_sector_def Let_def SECTOR_SIZE_def mod_add_eq)
qed

lemma flush_sectors_returns:
  assumes "progressing os" and "staged_inv d"
  shows "\<exists>d'. flush_sectors os d = Some (Inr (), d') \<and> direct_inv d' \<and> direct_stream d' = direct_stream d \<and> df_direct d' = df_direct d"
  using assms
proof (induction os d rule: flush_sectors.induct)
  case (1 os d)
  show ?case
  proof (cases "SECTOR_SIZE \<le> df_staging_len d")
    case True
    obtain f where f: "write_block os (take SECTOR_SIZE (df_staging d)) (df_backend d) = Some (Inr (), f)"
        "rw_data f = rw_data (df_backend d) @ take SECTOR_SIZE (df_staging d)"
      using write_block_returns [OF "1.prems"(1)] by blast
    note sh = shift_sector_keeps [OF "1.prems"(2) True f(2)]
    have "df_direct (shift_sector d f) = df_direct d" by (simp add: shift_sector_def Let_def)
    with "1.IH" [OF True f(1) refl refl "1.prems"(1) sh(1)] sh(2) show ?thesis
      using True f(1) by (subst flush_sectors.simps) auto
  next
    case False
    then show ?thesis using "1.prems"(2)
      by (subst flush_sectors.simps) (auto simp: direct_inv_def staged_inv_def)
  qed
qed

lemma stage_keeps:
  assumes "direct_inv d" and "df_staging_len d + length bs \<le> length (df_staging d)"
  shows "staged_inv (stage bs d)" and "direct_stream (stage bs d) = direct_stream d @ bs"
proof -
  show "staged_inv (stage bs d)" using assms by (simp add: staged_inv_def direct_inv_def stage_def)
  have "df_staging_len d \<le> length (df_staging d)" using assms(2) by simp
  then have "take (df_staging_len d + length bs) (write_at (df_staging_len d) bs (df_staging d)) = take (df_staging_len d) (df_staging d) @ bs"
    by (simp add: write_at_def)
  then show "direct_stream (stage bs d) = direct_stream d @ bs" by (simp add: direct_stream_def stage_def)
qed

lemma direct_write_returns:
  assumes "progressing os" and "direct_inv d"
  shows "\<exists>d'. direct_write os data d = Some (Inr (), d') \<and> direct_inv d' \<and> direct_stream d' = direct_stream d @ data \<and>
    df_direct d' = df_direct d"
  using assms(2)
proof (induction "length data" arbitrary: data d rule: less_induct)
  case less
  show ?case
  proof (cases "data = []")
    case True
    then show ?thesis using less.prems by (subst direct_write.simps) simp
  next
    case False
    define n where "n = min (length (df_staging d) - df_staging_len d) (length data)"
    have n: "0 < n" "df_staging_len d + length (take n data) \<le> length (df_staging d)"
      using less.prems False by (auto simp: n_def direct_inv_def SECTOR_SIZE_def)
    note st = stage_keeps [OF less.prems n(2)]
    obtain d1 where d1: "flush_sectors os (stage (take n data) d) = Some (Inr (), d1)" "direct_inv d1"
        "direct_stream d1 = direct_stream d @ take n data" "df_direct d1 = df_direct d"
      using flush_sectors_returns [OF assms(1) st(1)] st(2) by (auto simp: stage_def)
    have "length (drop n data) < length data" using n(1) False by simp
    then obtain d2 where "direct_write os (drop n data) d1 = Some (Inr (), d2)" "direct_inv d2"
        "direct_stream d2 = direct_stream d1 @ drop n data" "df_direct d2 = df_direct d1"
      using less.hyps d1(2) by blast
    then show ?thesis using False d1 by (subst direct_write.simps) (simp add: Let_def flip: n_def)
  qed
qed

definition sector_pad :: "nat \<Rightarrow> nat" where
  "sector_pad n = (if n mod SECTOR_SIZE = 0 then 0 else SECTOR_SIZE - n mod SECTOR_SIZE)"

lemma direct_stream_mod:
  assumes "direct_inv d"
  shows "length (direct_stream d) mod SECTOR_SIZE = df_staging_len d"
proof -
  have "min (length (df_staging d)) (df_staging_len d) = df_staging_len d" using assms by (simp add: direct_inv_def)
  then show ?thesis using assms by (auto simp: direct_stream_def direct_inv_def mod_add_eq)
qed

lemma direct_flush_returns:
  assumes "progressing os" and "direct_inv d"
  shows "\<exists>d'. direct_flush os d = Some (Inr (), d') \<and> direct_inv d' \<and> df_direct d' = df_direct d \<and>
    rw_data (df_backend d') = direct_stream d @ replicate (sector_pad (length (direct_stream d))) 0"
proof (cases "0 < df_staging_len d")
  case True
  define st where "st = write_at (df_staging_len d) (replicate (SECTOR_SIZE - df_staging_len d) 0) (df_staging d)"
  have l: "length (df_staging d) = SECTOR_SIZE * 16" "df_staging_len d < SECTOR_SIZE" using assms(2) by (simp_all add: direct_inv_def)
  have p: "sector_pad (length (direct_stream d)) = SECTOR_SIZE - df_staging_len d"
    using direct_stream_mod [OF assms(2)] True by (simp add: sector_pad_def)
  have tk: "take SECTOR_SIZE st = take (df_staging_len d) (df_staging d) @ replicate (SECTOR_SIZE - df_staging_len d) 0"
    using l by (simp add: st_def write_at_def)
  have lst: "length st = SECTOR_SIZE * 16" using l by (simp add: st_def)
  obtain f where f: "write_block os (take SECTOR_SIZE st) (df_backend d) = Some (Inr (), f)"
      "rw_data f = rw_data (df_backend d) @ take SECTOR_SIZE st"
    using write_block_returns [OF assms(1)] by blast
  have "length (rw_data f) = length (rw_data (df_backend d)) + SECTOR_SIZE" using f(2) lst by simp
  then have "direct_inv (d\<lparr>df_backend := f, df_staging := st, df_staging_len := 0, df_written := df_written d + word_of_nat SECTOR_SIZE\<rparr>)"
    using assms(2) lst by (auto simp: direct_inv_def SECTOR_SIZE_def)
  then show ?thesis using True l(2) f p tk unfolding direct_flush_def st_def [symmetric] by (simp add: direct_stream_def)
next
  case False
  then show ?thesis using assms(2) direct_stream_mod [OF assms(2)] by (simp add: direct_flush_def direct_stream_def sector_pad_def)
qed

lemma direct_open_inv:
  assumes "direct_open junk direct buffered = Some (Inr d)"
  shows "direct_inv d" and "direct_stream d = []"
  using assms by (auto simp: direct_open_def raw_open_def aligned_buf_new_def direct_inv_def direct_stream_def SECTOR_SIZE_def Let_def
      split: if_splits sum.splits)

section \<open>Properties\<close>

text \<open>The file as a byte sink: a list of writes, then a flush.\<close>

fun write_all :: "kernel \<Rightarrow> bytes list \<Rightarrow> direct_file \<Rightarrow> ((io_error + unit) \<times> direct_file) option" where
  "write_all os [] d = direct_flush os d"
| "write_all os (bs # bss) d =
     (case direct_write os bs d of None \<Rightarrow> None | Some (Inl e, d') \<Rightarrow> Some (Inl e, d') | Some (Inr _, d') \<Rightarrow> write_all os bss d')"

text \<open>C28. Termination and content: with a kernel that takes at least one byte in every call, however few,
  any sequence of writes followed by a flush returns without an error; the file then holds the bytes in
  the order of the calls, padded with zeros to the next sector boundary, and the reported count is the
  length of the file.\<close>

theorem direct_file_written:
  assumes "progressing os" and "direct_open junk direct buffered = Some (Inr d)"
  shows "\<exists>d'. write_all os bss d = Some (Inr (), d') \<and>
    rw_data (df_backend d') = concat bss @ replicate (sector_pad (length (concat bss))) 0 \<and>
    length (rw_data (df_backend d')) mod SECTOR_SIZE = 0 \<and> bytes_written d' = word_of_nat (length (rw_data (df_backend d')))"
proof -
  have "\<exists>d'. write_all os bss d = Some (Inr (), d') \<and> direct_inv d' \<and>
      rw_data (df_backend d') = (direct_stream d @ concat bss) @ replicate (sector_pad (length (direct_stream d @ concat bss))) 0"
    if "direct_inv d" for d
    using that
  proof (induction bss arbitrary: d)
    case Nil
    then show ?case using direct_flush_returns [OF assms(1) Nil] by auto
  next
    case (Cons bs bss)
    obtain d1 where d1: "direct_write os bs d = Some (Inr (), d1)" "direct_inv d1" "direct_stream d1 = direct_stream d @ bs"
      using direct_write_returns [OF assms(1) Cons.prems] by blast
    then show ?case using Cons.IH [OF d1(2)] by auto
  qed
  from this [of d] direct_open_inv [OF assms(2)] show ?thesis
    by (auto simp: direct_inv_def bytes_written_def)
qed

theorem direct_file_written_witness:
  "\<exists>d d'. direct_open (\<lambda>i. word_of_nat i) False (Inr ()) = Some (Inr d) \<and> write_all (\<lambda>k. Inr (Suc k)) [[1, 2], [], [3]] d = Some (Inr (), d') \<and>
    rw_data (df_backend d') = [1, 2, 3] @ replicate 4093 0"
proof -
  obtain d where d: "direct_open (\<lambda>i. word_of_nat i) False (Inr ()) = Some (Inr d)"
    by (simp add: direct_open_def raw_open_def aligned_buf_new_def SECTOR_SIZE_def)
  have "progressing (\<lambda>k. Inr (Suc k))" by (simp add: progressing_def)
  from direct_file_written [OF this d, of "[[1, 2], [], [3]]"] d show ?thesis
    by (auto simp: sector_pad_def SECTOR_SIZE_def)
qed

text \<open>After an error: when the kernel refuses a sector while more than one is staged, the bytes stay
  staged, and a later flush panics instead of writing them.\<close>

theorem flush_after_error_panics:
  assumes "direct_open junk direct buffered = Some (Inr d)" and "os 0 = Inl e" and "SECTOR_SIZE < length data" and "length data \<le> SECTOR_SIZE * 16"
  shows "\<exists>d'. direct_write os data d = Some (Inl e, d') \<and> direct_flush os' d' = None"
proof -
  have d: "length (df_staging d) = SECTOR_SIZE * 16" "df_staging_len d = 0" "rw_calls (df_backend d) = 0"
    using assms(1) by (auto simp: direct_open_def raw_open_def aligned_buf_new_def Let_def split: if_splits sum.splits)
  define d1 where "d1 = stage data d"
  have d1: "df_staging_len d1 = length data" "rw_calls (df_backend d1) = 0" "length (df_staging d1) = SECTOR_SIZE * 16"
    using d assms(4) by (simp_all add: d1_def stage_def)
  have "write_block os (take SECTOR_SIZE (df_staging d1)) (df_backend d1) = Some (Inl e, (df_backend d1)\<lparr>rw_calls := 1\<rparr>)"
    using d1 assms(2) unfolding write_block_def by (subst write_block_loop.simps) (simp add: SECTOR_SIZE_def)
  then have "flush_sectors os d1 = Some (Inl e, d1\<lparr>df_backend := (df_backend d1)\<lparr>rw_calls := 1\<rparr>\<rparr>)"
    using d1(1) assms(3) by (subst flush_sectors.simps) simp
  moreover have "data \<noteq> []" using assms(3) by auto
  ultimately have "direct_write os data d = Some (Inl e, d1\<lparr>df_backend := (df_backend d1)\<lparr>rw_calls := 1\<rparr>\<rparr>)"
    using d assms(4) by (subst direct_write.simps) (simp add: Let_def flip: d1_def)
  then show ?thesis using d1(1) assms(3) by (simp add: direct_flush_def)
qed

end
