(* ===== verification/Flight_Recorder.thy ===== *)
theory Flight_Recorder
  imports Direct_Io Spsc_Ring
begin

text \<open>
  The flight data recorder of the analytics crate (record.rs): fixed-size entries, the producer that the
  control loop calls, the storage thread that drains the ring into a direct-I/O file, and the reader of
  the finished file. The two threads are interleaved at their ring operations and at the load of the
  stop flag; each push and pop is one step, which the concurrent model of the ring justifies.
\<close>

section \<open>Entries\<close>

definition FDR_MAX_PAYLOAD :: nat where "FDR_MAX_PAYLOAD = 512"

datatype record_kind = RkControl | RkImu | RkGps | RkTelemetry | RkEnd

fun kind_u8 :: "record_kind \<Rightarrow> u8" where
  "kind_u8 RkControl = 0"
| "kind_u8 RkImu = 1"
| "kind_u8 RkGps = 2"
| "kind_u8 RkTelemetry = 3"
| "kind_u8 RkEnd = 255"

definition kind_from_u8 :: "u8 \<Rightarrow> record_kind option" where
  "kind_from_u8 v = (if v = 0 then Some RkControl else if v = 1 then Some RkImu else if v = 2 then Some RkGps
     else if v = 3 then Some RkTelemetry else if v = 255 then Some RkEnd else None)"

record fdr_entry =
  fe_timestamp_ns :: u64
  fe_payload_len :: u16
  fe_kind :: u8
  fe_pad :: u8
  fe_reserved :: u32
  fe_payload :: bytes

datatype record_error = RecFull | PayloadTooLarge nat nat | RecIo io_error

fun record_error_fmt :: "(io_error \<Rightarrow> rstring) \<Rightarrow> (nat \<Rightarrow> rstring) \<Rightarrow> record_error \<Rightarrow> rstring" where
  "record_error_fmt fmt_io dec RecFull = lit ''FDR ring full: record dropped (non-blocking)''"
| "record_error_fmt fmt_io dec (PayloadTooLarge got mx) =
     lit ''payload '' @ dec got @ lit '' bytes exceeds MAX_PAYLOAD '' @ dec mx"
| "record_error_fmt fmt_io dec (RecIo e) = lit ''FDR I/O error: '' @ fmt_io e"

definition entry_new :: "record_kind \<Rightarrow> bytes \<Rightarrow> u64 \<Rightarrow> record_error + fdr_entry" where
  "entry_new kind payload ts =
     (if FDR_MAX_PAYLOAD < length payload then Inl (PayloadTooLarge (length payload) FDR_MAX_PAYLOAD)
      else Inr \<lparr>fe_timestamp_ns = ts, fe_payload_len = word_of_nat (length payload), fe_kind = kind_u8 kind, fe_pad = 0,
        fe_reserved = 0, fe_payload = write_at 0 payload (replicate FDR_MAX_PAYLOAD 0)\<rparr>)"

definition entry_kind :: "fdr_entry \<Rightarrow> record_kind option" where
  "entry_kind e = kind_from_u8 (fe_kind e)"

text \<open>The slice panics (\<open>None\<close>) when the stored length is beyond the payload array.\<close>

definition entry_payload :: "fdr_entry \<Rightarrow> bytes option" where
  "entry_payload e = (if unat (fe_payload_len e) \<le> length (fe_payload e) then Some (take (unat (fe_payload_len e)) (fe_payload e)) else None)"

definition entry_bytes :: "fdr_entry \<Rightarrow> bytes" where
  "entry_bytes e = le_bytes 8 (fe_timestamp_ns e) @ le_bytes 2 (fe_payload_len e) @ le_bytes 1 (fe_kind e) @ le_bytes 1 (fe_pad e) @
     le_bytes 4 (fe_reserved e) @ fe_payload e"

definition entry_of :: "bytes \<Rightarrow> fdr_entry" where
  "entry_of bs = \<lparr>fe_timestamp_ns = field_at 0 8 bs, fe_payload_len = field_at 8 2 bs, fe_kind = field_at 10 1 bs,
     fe_pad = field_at 11 1 bs, fe_reserved = field_at 12 4 bs, fe_payload = take FDR_MAX_PAYLOAD (drop 16 bs)\<rparr>"

definition ENTRY_SIZE :: nat where "ENTRY_SIZE = 528"

definition from_bytes_aligned :: "nat \<Rightarrow> (bytes \<Rightarrow> 'a) \<Rightarrow> bytes \<Rightarrow> 'a option" where
  "from_bytes_aligned n dec data = (if length data < n then None else Some (dec (take n data)))"

section \<open>The producer\<close>

definition try_record :: "record_kind \<Rightarrow> bytes \<Rightarrow> u64 \<Rightarrow> fdr_entry spsc_ring \<Rightarrow> (record_error + unit) \<times> fdr_entry spsc_ring" where
  "try_record kind payload ts r =
     (case entry_new kind payload ts of
        Inl e \<Rightarrow> (Inl e, r)
      | Inr e \<Rightarrow> (case ring_push r e of (Inl _, r') \<Rightarrow> (Inl RecFull, r') | (Inr _, r') \<Rightarrow> (Inr (), r')))"

definition try_control :: "control_command \<Rightarrow> fdr_entry spsc_ring \<Rightarrow> (record_error + unit) \<times> fdr_entry spsc_ring" where
  "try_control c r = try_record RkControl (command_bytes c) (cmd_timestamp_ns c) r"

definition imu_bytes :: "imu_sample \<Rightarrow> bytes" where
  "imu_bytes s = le_bytes 4 (imu_magic s) @ le_bytes 2 (imu_version s) @ le_bytes 2 (imu_reserved s) @ le_bytes 8 (imu_seq s) @
     le_bytes 8 (imu_timestamp_ns s) @ concat (map (le_bytes 4) (imu_gyro_rps s)) @ concat (map (le_bytes 4) (imu_accel_g s))"

definition imu_of :: "bytes \<Rightarrow> imu_sample" where
  "imu_of bs = \<lparr>imu_magic = field_at 0 4 bs, imu_version = field_at 4 2 bs, imu_reserved = field_at 6 2 bs, imu_seq = field_at 8 8 bs,
     imu_timestamp_ns = field_at 16 8 bs, imu_gyro_rps = array_at 24 4 3 bs, imu_accel_g = array_at 36 4 3 bs\<rparr>"

definition gps_bytes :: "gps_sample \<Rightarrow> bytes" where
  "gps_bytes s = le_bytes 4 (gps_magic s) @ le_bytes 2 (gps_version s) @ le_bytes 2 (gps_reserved s) @ le_bytes 8 (gps_seq s) @
     le_bytes 8 (gps_timestamp_ns s) @ le_bytes 8 (gps_lat_deg s) @ le_bytes 8 (gps_lon_deg s) @ le_bytes 8 (gps_alt_m s) @
     le_bytes 4 (gps_speed_mps s) @ le_bytes 4 (gps_course_deg s) @ le_bytes 4 (gps_sats s) @ le_bytes 4 (gps_fix_ok s)"

definition gps_of :: "bytes \<Rightarrow> gps_sample" where
  "gps_of bs = \<lparr>gps_magic = field_at 0 4 bs, gps_version = field_at 4 2 bs, gps_reserved = field_at 6 2 bs, gps_seq = field_at 8 8 bs,
     gps_timestamp_ns = field_at 16 8 bs, gps_lat_deg = field_at 24 8 bs, gps_lon_deg = field_at 32 8 bs, gps_alt_m = field_at 40 8 bs,
     gps_speed_mps = field_at 48 4 bs, gps_course_deg = field_at 52 4 bs, gps_sats = field_at 56 4 bs, gps_fix_ok = field_at 60 4 bs\<rparr>"

definition try_imu :: "imu_sample \<Rightarrow> fdr_entry spsc_ring \<Rightarrow> (record_error + unit) \<times> fdr_entry spsc_ring" where
  "try_imu s r = try_record RkImu (imu_bytes s) (imu_timestamp_ns s) r"

definition try_gps :: "gps_sample \<Rightarrow> fdr_entry spsc_ring \<Rightarrow> (record_error + unit) \<times> fdr_entry spsc_ring" where
  "try_gps s r = try_record RkGps (gps_bytes s) (gps_timestamp_ns s) r"

definition try_telemetry :: "telemetry_packet \<Rightarrow> fdr_entry spsc_ring \<Rightarrow> (record_error + unit) \<times> fdr_entry spsc_ring" where
  "try_telemetry s r = try_record RkTelemetry (telemetry_bytes s) (tlm_timestamp_ns s) r"

definition sink_is_full :: "fdr_entry spsc_ring \<Rightarrow> bool" where
  "sink_is_full r = is_full r"

definition sink_pending :: "fdr_entry spsc_ring \<Rightarrow> usize" where
  "sink_pending r = ring_len r"

section \<open>The storage thread\<close>

text \<open>Where the thread is: inside \<open>drain_once\<close> with \<open>n\<close> entries written so far, about to load the stop
  flag after an empty drain, or returned.\<close>

datatype writer_pc = Draining nat | CheckStop | Returned "io_error + u64"

record fdr_system =
  fs_ring :: "fdr_entry spsc_ring"
  fs_file :: direct_file
  fs_pc :: writer_pc
  fs_stop :: bool

definition recorder_open :: "(nat \<Rightarrow> u8) \<Rightarrow> bool \<Rightarrow> io_error + unit \<Rightarrow> usize \<Rightarrow> (io_error + fdr_system) option" where
  "recorder_open junk direct buffered cap =
     (case direct_open junk direct buffered of
        None \<Rightarrow> None
      | Some (Inl e) \<Rightarrow> Some (Inl e)
      | Some (Inr d) \<Rightarrow> Some (Inr \<lparr>fs_ring = with_capacity cap, fs_file = d, fs_pc = Draining 0, fs_stop = False\<rparr>))"

text \<open>One round of the loop of \<open>drain_once\<close>.\<close>

definition drain_step :: "kernel \<Rightarrow> nat \<Rightarrow> fdr_system \<Rightarrow> fdr_system option" where
  "drain_step os n s =
     (case ring_pop (fs_ring s) of
        (None, r) \<Rightarrow> Some (s\<lparr>fs_ring := r, fs_pc := (if n = 0 then CheckStop else Draining 0)\<rparr>)
      | (Some e, r) \<Rightarrow>
          (case direct_write os (entry_bytes e) (fs_file s) of
             None \<Rightarrow> None
           | Some (Inl err, d) \<Rightarrow> Some (s\<lparr>fs_ring := r, fs_file := d, fs_pc := Returned (Inl err)\<rparr>)
           | Some (Inr _, d) \<Rightarrow> Some (s\<lparr>fs_ring := r, fs_file := d, fs_pc := Draining (Suc n)\<rparr>)))"

definition end_entry :: fdr_entry where
  "end_entry = \<lparr>fe_timestamp_ns = 0, fe_payload_len = 0, fe_kind = kind_u8 RkEnd, fe_pad = 0, fe_reserved = 0,
     fe_payload = replicate FDR_MAX_PAYLOAD 0\<rparr>"

text \<open>The end of \<open>run\<close>: the end marker, the flush and the number of bytes written.\<close>

definition run_finish :: "kernel \<Rightarrow> direct_file \<Rightarrow> ((io_error + u64) \<times> direct_file) option" where
  "run_finish os d =
     (case direct_write os (entry_bytes end_entry) d of
        None \<Rightarrow> None
      | Some (Inl e, d1) \<Rightarrow> Some (Inl e, d1)
      | Some (Inr _, d1) \<Rightarrow>
          (case direct_flush os d1 of
             None \<Rightarrow> None
           | Some (Inl e, d2) \<Rightarrow> Some (Inl e, d2)
           | Some (Inr _, d2) \<Rightarrow> Some (Inr (bytes_written d2), d2)))"

definition writer_step :: "kernel \<Rightarrow> fdr_system \<Rightarrow> fdr_system option" where
  "writer_step os s =
     (case fs_pc s of
        Draining n \<Rightarrow> drain_step os n s
      | CheckStop \<Rightarrow>
          (if fs_stop s
           then (case run_finish os (fs_file s) of None \<Rightarrow> None | Some (res, d) \<Rightarrow> Some (s\<lparr>fs_file := d, fs_pc := Returned res\<rparr>))
           else Some (s\<lparr>fs_pc := Draining 0\<rparr>))
      | Returned _ \<Rightarrow> Some s)"

definition stop_signal :: "fdr_system \<Rightarrow> fdr_system" where
  "stop_signal s = s\<lparr>fs_stop := True\<rparr>"

section \<open>The reader\<close>

function parse_loop :: "bytes \<Rightarrow> fdr_entry list \<Rightarrow> fdr_entry list" where
  "parse_loop data out =
     (if length data < ENTRY_SIZE then out
      else case from_bytes_aligned ENTRY_SIZE entry_of (take ENTRY_SIZE data) of
        None \<Rightarrow> out
      | Some e \<Rightarrow> if entry_kind e = Some RkEnd then out else parse_loop (drop ENTRY_SIZE data) (out @ [e]))"
  by pat_completeness auto
termination parse_loop
  by (relation "measure (\<lambda>(data, out). length data)") (auto simp: ENTRY_SIZE_def)

declare parse_loop.simps [simp del]

definition parse_entries :: "bytes \<Rightarrow> fdr_entry list" where
  "parse_entries data = parse_loop data []"

section \<open>What the file holds\<close>

lemma end_entry_new: "entry_new RkEnd [] 0 = Inr end_entry"
  by (simp add: entry_new_def end_entry_def write_at_def FDR_MAX_PAYLOAD_def)

lemma kind_from_kind_u8 [simp]: "kind_from_u8 (kind_u8 k) = Some k"
  by (cases k) (simp_all add: kind_from_u8_def)

definition entry_wf :: "fdr_entry \<Rightarrow> bool" where
  "entry_wf e \<longleftrightarrow> length (fe_payload e) = FDR_MAX_PAYLOAD"

lemma length_entry_bytes: "entry_wf e \<Longrightarrow> length (entry_bytes e) = ENTRY_SIZE"
  by (simp add: entry_bytes_def entry_wf_def ENTRY_SIZE_def FDR_MAX_PAYLOAD_def)

lemma entry_of_bytes: "entry_wf e \<Longrightarrow> entry_of (entry_bytes e) = e"
  by (simp add: entry_of_def entry_bytes_def entry_wf_def FDR_MAX_PAYLOAD_def image_simps)

lemma entry_new_wf:
  assumes "entry_new k p ts = Inr e"
  shows "entry_wf e" and "entry_kind e = Some k" and "entry_payload e = Some p"
proof -
  have p: "length p \<le> 512" using assms by (simp add: entry_new_def FDR_MAX_PAYLOAD_def split: if_splits)
  then have e: "fe_payload e = p @ replicate (512 - length p) 0" "fe_payload_len e = word_of_nat (length p)" "fe_kind e = kind_u8 k"
    using assms by (auto simp: entry_new_def FDR_MAX_PAYLOAD_def write_at_def)
  then show "entry_wf e" "entry_kind e = Some k" using p by (simp_all add: entry_wf_def FDR_MAX_PAYLOAD_def entry_kind_def)
  have "unat (word_of_nat (length p) :: u16) = length p" using p by (simp add: unat_of_nat)
  then show "entry_payload e = Some p" using e p by (simp add: entry_payload_def)
qed

lemma parse_loop_entry:
  assumes "entry_wf e"
  shows "parse_loop (entry_bytes e @ rest) out = (if entry_kind e = Some RkEnd then out else parse_loop rest (out @ [e]))"
  using length_entry_bytes [OF assms] entry_of_bytes [OF assms]
  by (subst parse_loop.simps) (simp add: from_bytes_aligned_def)

lemma parse_loop_entries:
  "list_all (\<lambda>e. entry_wf e \<and> entry_kind e \<noteq> Some RkEnd) es \<Longrightarrow>
    parse_loop (concat (map entry_bytes es) @ entry_bytes end_entry @ rest) out = out @ es"
proof (induction es arbitrary: out)
  case Nil
  have "entry_wf end_entry" "entry_kind end_entry = Some RkEnd" using entry_new_wf [OF end_entry_new] by auto
  then show ?case by (simp add: parse_loop_entry)
qed (simp add: parse_loop_entry)

section \<open>Runs\<close>

datatype fdr_event = Record record_kind bytes u64 | Stop | Writer

text \<open>An event, with the list of the entries that the producer was told were recorded.\<close>

fun fdr_event_step :: "kernel \<Rightarrow> fdr_event \<Rightarrow> fdr_system \<times> fdr_entry list \<Rightarrow> (fdr_system \<times> fdr_entry list) option" where
  "fdr_event_step os (Record k p ts) (s, acc) =
     (case try_record k p ts (fs_ring s) of
        (Inl _, r) \<Rightarrow> Some (s\<lparr>fs_ring := r\<rparr>, acc)
      | (Inr _, r) \<Rightarrow> Some (s\<lparr>fs_ring := r\<rparr>, acc @ [projr (entry_new k p ts)]))"
| "fdr_event_step os Stop (s, acc) = Some (stop_signal s, acc)"
| "fdr_event_step os Writer (s, acc) = map_option (\<lambda>s'. (s', acc)) (writer_step os s)"

fun fdr_run :: "kernel \<Rightarrow> fdr_event list \<Rightarrow> fdr_system \<times> fdr_entry list \<Rightarrow> (fdr_system \<times> fdr_entry list) option" where
  "fdr_run os [] sa = Some sa"
| "fdr_run os (ev # evs) sa = Option.bind (fdr_event_step os ev sa) (fdr_run os evs)"

fun hot_path :: "fdr_event \<Rightarrow> bool" where
  "hot_path (Record k _ _) \<longleftrightarrow> k \<noteq> RkEnd"
| "hot_path _ \<longleftrightarrow> True"

definition data_entry :: "fdr_entry \<Rightarrow> bool" where
  "data_entry e \<longleftrightarrow> entry_wf e \<and> entry_kind e \<noteq> Some RkEnd"

text \<open>The invariant: \<open>es\<close> are the entries written so far; together with those in the ring they are the
  entries recorded, and once the thread has returned, the file is the entries, the marker and padding.\<close>

definition written_ok :: "fdr_system \<Rightarrow> fdr_entry list \<Rightarrow> bool" where
  "written_ok s es \<longleftrightarrow>
     (case fs_pc s of
        Returned res \<Rightarrow> (\<exists>w n. res = Inr w \<and> rw_data (df_backend (fs_file s)) = concat (map entry_bytes es) @ entry_bytes end_entry @ replicate n 0)
      | _ \<Rightarrow> direct_inv (fs_file s) \<and> direct_stream (fs_file s) = concat (map entry_bytes es))"

lemma written_ok_frame [simp]:
  "written_ok (s\<lparr>fs_ring := r\<rparr>) es = written_ok s es" "written_ok (s\<lparr>fs_stop := b\<rparr>) es = written_ok s es"
  by (cases "fs_pc s"; simp add: written_ok_def)+

definition fdr_inv :: "fdr_system \<times> fdr_entry list \<Rightarrow> bool" where
  "fdr_inv sa \<longleftrightarrow> (case sa of (s, acc) \<Rightarrow> ring_inv (fs_ring s) \<and>
     (\<exists>es. acc = es @ ring_contents (fs_ring s) \<and> list_all data_entry acc \<and> written_ok s es))"

lemma try_record_result:
  assumes "ring_inv r"
  obtains (ok) e r' where "try_record k p ts r = (Inr (), r')" "entry_new k p ts = Inr e" "ring_inv r'" "ring_contents r' = ring_contents r @ [e]"
    | (shed) err where "try_record k p ts r = (Inl err, r)"
proof (cases "entry_new k p ts")
  case (Inl err)
  then show ?thesis using shed by (simp add: try_record_def)
next
  case (Inr e)
  from assms show ?thesis
    by (cases rule: spsc.push_cases [where v = e]) (use Inr ok shed in \<open>auto simp: try_record_def\<close>)
qed

lemma drain_step_inv:
  assumes "progressing os" and "fdr_inv (s, acc)" and "fs_pc s = Draining n"
  shows "\<exists>s'. drain_step os n s = Some s' \<and> fdr_inv (s', acc) \<and> fs_stop s' = fs_stop s \<and>
    (case ring_contents (fs_ring s) of
       [] \<Rightarrow> fs_ring s' = fs_ring s \<and> fs_pc s' = (if n = 0 then CheckStop else Draining 0)
     | _ # vs \<Rightarrow> ring_contents (fs_ring s') = vs \<and> fs_pc s' = Draining (Suc n))"
proof -
  obtain es where es: "ring_inv (fs_ring s)" "acc = es @ ring_contents (fs_ring s)" "list_all data_entry acc"
      "direct_inv (fs_file s)" "direct_stream (fs_file s) = concat (map entry_bytes es)"
    using assms(2,3) by (auto simp: fdr_inv_def written_ok_def)
  show ?thesis
  proof (cases "ring_contents (fs_ring s)")
    case Nil
    then show ?thesis using es by (auto simp: drain_step_def ring_pop_empty fdr_inv_def written_ok_def)
  next
    case (Cons e vs)
    obtain r where r: "ring_pop (fs_ring s) = (Some e, r)" "ring_inv r" "ring_contents r = vs"
      using spsc.pop_cons [OF es(1) Cons] by blast
    obtain d where d: "direct_write os (entry_bytes e) (fs_file s) = Some (Inr (), d)" "direct_inv d"
        "direct_stream d = direct_stream (fs_file s) @ entry_bytes e"
      using direct_write_returns [OF assms(1) es(4)] by blast
    have "fdr_inv (s\<lparr>fs_ring := r, fs_file := d, fs_pc := Draining (Suc n)\<rparr>, acc)"
      unfolding fdr_inv_def using es r d Cons by (auto simp: written_ok_def intro!: exI [of _ "es @ [e]"])
    then show ?thesis using r d Cons by (simp add: drain_step_def)
  qed
qed

lemma run_finish_result:
  assumes "progressing os" and "direct_inv d" and "direct_stream d = xs"
  shows "\<exists>w d' n. run_finish os d = Some (Inr w, d') \<and> rw_data (df_backend d') = xs @ entry_bytes end_entry @ replicate n 0"
proof -
  obtain d1 where d1: "direct_write os (entry_bytes end_entry) d = Some (Inr (), d1)" "direct_inv d1"
      "direct_stream d1 = xs @ entry_bytes end_entry"
    using direct_write_returns [OF assms(1,2)] assms(3) by blast
  then show ?thesis using direct_flush_returns [OF assms(1) d1(2)] by (auto simp: run_finish_def)
qed

lemma check_stop_inv:
  assumes "progressing os" and "fdr_inv (s, acc)" and "fs_pc s = CheckStop"
  shows "\<exists>s'. writer_step os s = Some s' \<and> fdr_inv (s', acc) \<and> fs_ring s' = fs_ring s \<and> fs_stop s' = fs_stop s \<and>
    (if fs_stop s then \<exists>w. fs_pc s' = Returned (Inr w) else fs_pc s' = Draining 0)"
proof -
  obtain es where es: "ring_inv (fs_ring s)" "acc = es @ ring_contents (fs_ring s)" "list_all data_entry acc"
      "direct_inv (fs_file s)" "direct_stream (fs_file s) = concat (map entry_bytes es)"
    using assms(2,3) by (auto simp: fdr_inv_def written_ok_def)
  obtain w d n where "run_finish os (fs_file s) = Some (Inr w, d)"
      "rw_data (df_backend d) = concat (map entry_bytes es) @ entry_bytes end_entry @ replicate n 0"
    using run_finish_result [OF assms(1) es(4,5)] by blast
  then show ?thesis using es assms(3) by (auto simp: writer_step_def fdr_inv_def written_ok_def)
qed

lemma fdr_event_step_inv:
  assumes "progressing os" and "hot_path ev" and "fdr_inv (s, acc)"
  shows "\<exists>sa. fdr_event_step os ev (s, acc) = Some sa \<and> fdr_inv sa"
proof (cases ev)
  case (Record k p ts)
  have r: "ring_inv (fs_ring s)" using assms(3) by (simp add: fdr_inv_def)
  then show ?thesis
  proof (cases rule: try_record_result [where k = k and p = p and ts = ts])
    case (ok e r')
    then have "data_entry e" using entry_new_wf [OF ok(2)] assms(2) Record by (simp add: data_entry_def)
    then show ?thesis using ok assms(3) Record by (auto simp: fdr_inv_def)
  next
    case (shed err)
    then show ?thesis using assms(3) Record by (auto simp: fdr_inv_def)
  qed
next
  case Stop
  then show ?thesis using assms(3) by (auto simp: stop_signal_def fdr_inv_def)
next
  case Writer
  show ?thesis
  proof (cases "fs_pc s")
    case (Draining n)
    then show ?thesis using drain_step_inv [OF assms(1,3) Draining] Writer by (auto simp: writer_step_def)
  next
    case CheckStop
    then show ?thesis using check_stop_inv [OF assms(1,3)] Writer by auto
  next
    case (Returned res)
    then show ?thesis using Writer assms(3) by (simp add: writer_step_def)
  qed
qed

lemma fdr_run_inv:
  "progressing os \<Longrightarrow> list_all hot_path evs \<Longrightarrow> fdr_inv sa \<Longrightarrow> \<exists>sa'. fdr_run os evs sa = Some sa' \<and> fdr_inv sa'"
proof (induction evs arbitrary: sa)
  case (Cons ev evs)
  then obtain sa1 where "fdr_event_step os ev sa = Some sa1" "fdr_inv sa1"
    using fdr_event_step_inv [of os ev "fst sa" "snd sa"] by auto
  then show ?case using Cons by simp
qed simp

lemma recorder_open_inv:
  assumes "recorder_open junk direct buffered cap = Some (Inr s)" and "unat cap \<le> 2 ^ 63"
  shows "fdr_inv (s, [])" and "ring_contents (fs_ring s) = []" and "ring_inv (fs_ring s)" and "fs_pc s = Draining 0" and "\<not> fs_stop s"
    and "unat cap \<le> ring_room (fs_ring s)"
proof -
  obtain d where d: "direct_open junk direct buffered = Some (Inr d)" "s = \<lparr>fs_ring = with_capacity cap, fs_file = d, fs_pc = Draining 0, fs_stop = False\<rparr>"
    using assms(1) by (auto simp: recorder_open_def split: option.splits sum.splits)
  then show "fdr_inv (s, [])" "ring_contents (fs_ring s) = []" "ring_inv (fs_ring s)" "fs_pc s = Draining 0" "\<not> fs_stop s"
      "unat cap \<le> ring_room (fs_ring s)"
    using direct_open_inv [OF d(1)] with_capacity_inv [OF assms(2)] by (simp_all add: fdr_inv_def written_ok_def)
qed

text \<open>With the stop flag set and no more records, the thread empties the ring and returns.\<close>

lemma fdr_run_append: "fdr_run os (as @ bs) sa = Option.bind (fdr_run os as sa) (fdr_run os bs)"
proof (induction as arbitrary: sa)
  case (Cons a as)
  then show ?case by (cases "fdr_event_step os a sa") simp_all
qed simp

lemma writer_empties:
  assumes "progressing os" and "fdr_inv (s, acc)" and "fs_stop s" and "fs_pc s = Draining n" and "ring_contents (fs_ring s) = vs"
  shows "\<exists>s'. fdr_run os (replicate (length vs + (if n = 0 \<and> vs = [] then 2 else 3)) Writer) (s, acc) = Some (s', acc) \<and>
    fdr_inv (s', acc) \<and> ring_contents (fs_ring s') = [] \<and> (\<exists>w. fs_pc s' = Returned (Inr w))"
  using assms(2-)
proof (induction vs arbitrary: s n)
  case (Cons v vs)
  obtain s1 where s1: "drain_step os n s = Some s1" "fdr_inv (s1, acc)" "fs_stop s1" "ring_contents (fs_ring s1) = vs" "fs_pc s1 = Draining (Suc n)"
    using drain_step_inv [OF assms(1) Cons.prems(1,3)] Cons.prems(2,4) by auto
  have "length (v # vs) + (if n = 0 \<and> v # vs = [] then 2 else 3) = Suc (length vs + 3)" by simp
  moreover have "fdr_run os (replicate (Suc k) Writer) (s, acc) = fdr_run os (replicate k Writer) (s1, acc)" for k
    using s1(1) Cons.prems(3) by (simp add: writer_step_def)
  ultimately show ?case using Cons.IH [OF s1(2,3,5,4)] by (simp only:) simp
next
  case Nil
  have last2: "\<exists>s'. fdr_run os [Writer, Writer] (s, acc) = Some (s', acc) \<and> fdr_inv (s', acc) \<and> ring_contents (fs_ring s') = [] \<and>
      (\<exists>w. fs_pc s' = Returned (Inr w))"
    if "fdr_inv (s, acc)" "fs_stop s" "fs_pc s = Draining 0" "ring_contents (fs_ring s) = []" for s
  proof -
    note h = that
    obtain s1 where s1: "drain_step os 0 s = Some s1" "fdr_inv (s1, acc)" "fs_stop s1" "fs_ring s1 = fs_ring s" "fs_pc s1 = CheckStop"
      using drain_step_inv [OF assms(1) h(1,3)] h(2,4) by auto
    obtain s2 where "writer_step os s1 = Some s2" "fdr_inv (s2, acc)" "fs_ring s2 = fs_ring s1" "\<exists>w. fs_pc s2 = Returned (Inr w)"
      using check_stop_inv [OF assms(1) s1(2,5)] s1(3) by auto
    then show ?thesis using s1 h(3,4) by (auto simp: writer_step_def [of os s])
  qed
  show ?case
  proof (cases "n = 0")
    case True
    then show ?thesis using last2 [OF Nil(1,2) _ Nil(4)] Nil(3) by (simp add: numeral_2_eq_2)
  next
    case False
    obtain s1 where s1: "drain_step os n s = Some s1" "fdr_inv (s1, acc)" "fs_stop s1" "fs_ring s1 = fs_ring s" "fs_pc s1 = Draining 0"
      using drain_step_inv [OF assms(1) Nil(1,3)] Nil(2,4) False by auto
    then show ?thesis using last2 [OF s1(2,3,5)] Nil(3,4) False by (auto simp: writer_step_def [of os s] numeral_3_eq_3)
  qed
qed

section \<open>Properties\<close>

text \<open>C26. Recorder round trip: take any interleaving of records, a stop signal and steps of the storage
  thread, with a kernel that takes at least one byte per write. The run never hangs, and once the thread
  has returned, the file parses back to the recorded entries, in order and unchanged, except those still
  in the ring; the end marker and the padding add nothing.\<close>

theorem fdr_file_roundtrip:
  assumes "progressing os" and "recorder_open junk direct buffered cap = Some (Inr s0)" and "unat cap \<le> 2 ^ 63" and "list_all hot_path evs"
  shows "\<exists>s acc. fdr_run os evs (s0, []) = Some (s, acc) \<and>
    (case fs_pc s of
       Returned res \<Rightarrow> \<exists>w. res = Inr w \<and> parse_entries (rw_data (df_backend (fs_file s))) @ ring_contents (fs_ring s) = acc
     | _ \<Rightarrow> True)"
proof -
  obtain s acc where s: "fdr_run os evs (s0, []) = Some (s, acc)" "fdr_inv (s, acc)"
    using fdr_run_inv [OF assms(1,4) recorder_open_inv(1) [OF assms(2,3)]] by auto
  show ?thesis
  proof (cases "fs_pc s")
    case (Returned res)
    obtain es w n where es: "acc = es @ ring_contents (fs_ring s)" "list_all data_entry acc" "res = Inr w"
        "rw_data (df_backend (fs_file s)) = concat (map entry_bytes es) @ entry_bytes end_entry @ replicate n 0"
      using s(2) Returned by (auto simp: fdr_inv_def written_ok_def)
    then have "list_all (\<lambda>e. entry_wf e \<and> entry_kind e \<noteq> Some RkEnd) es" by (auto simp: list_all_iff data_entry_def)
    then show ?thesis using s(1) es Returned by (simp add: parse_entries_def parse_loop_entries)
  qed (use s(1) in simp_all)
qed

lemma recorder_opens: "\<exists>s. recorder_open junk True buffered cap = Some (Inr s)"
  by (simp add: recorder_open_def direct_open_def raw_open_def aligned_buf_new_def SECTOR_SIZE_def)

theorem fdr_file_roundtrip_witness:
  "\<exists>s0 s acc. recorder_open (\<lambda>_. 7) True (Inr ()) 4 = Some (Inr s0) \<and>
    fdr_run (\<lambda>k. Inr (Suc k)) [Record RkControl [1, 2] 9, Writer, Writer, Stop, Writer, Writer] (s0, []) = Some (s, acc)"
proof -
  obtain s0 where s0: "recorder_open (\<lambda>_. 7) True (Inr ()) 4 = Some (Inr s0)" using recorder_opens by blast
  have "progressing (\<lambda>k. Inr (Suc k))" by (simp add: progressing_def)
  from fdr_file_roundtrip [OF this s0, of "[Record RkControl [1, 2] 9, Writer, Writer, Stop, Writer, Writer]"] s0
  show ?thesis by auto
qed

text \<open>C27. Shutdown: when the stop signal comes while the storage thread is draining the ring, and nothing is
  recorded afterwards, the thread returns after one step per entry in the ring and at most three more,
  and the file holds every entry recorded. A signal that comes when the thread has found the ring empty
  and is about to look at the stop flag can lose a record: \<open>fdr_stop_loses_record\<close> below.\<close>

theorem fdr_stop_drains:
  assumes "progressing os" and "recorder_open junk direct buffered cap = Some (Inr s0)" and "unat cap \<le> 2 ^ 63" and "list_all hot_path evs"
    and "fdr_run os evs (s0, []) = Some (s, acc)" and "fs_pc s = Draining n"
  shows "\<exists>k s' w. k \<le> length (ring_contents (fs_ring s)) + 3 \<and>
    fdr_run os (evs @ Stop # replicate k Writer) (s0, []) = Some (s', acc) \<and> fs_pc s' = Returned (Inr w) \<and>
    parse_entries (rw_data (df_backend (fs_file s'))) = acc"
proof -
  have inv: "fdr_inv (stop_signal s, acc)"
    using fdr_run_inv [OF assms(1,4) recorder_open_inv(1) [OF assms(2,3)]] assms(5) by (auto simp: fdr_inv_def stop_signal_def)
  let ?vs = "ring_contents (fs_ring s)"
  let ?k = "length ?vs + (if n = 0 \<and> ?vs = [] then 2 else 3)"
  obtain s' w where s': "fdr_run os (replicate ?k Writer) (stop_signal s, acc) = Some (s', acc)" "fdr_inv (s', acc)"
      "ring_contents (fs_ring s') = []" "fs_pc s' = Returned (Inr w)"
    using writer_empties [OF assms(1) inv, of n ?vs] assms(6) by (auto simp: stop_signal_def)
  obtain m where "list_all data_entry acc"
      "rw_data (df_backend (fs_file s')) = concat (map entry_bytes acc) @ entry_bytes end_entry @ replicate m 0"
    using s'(2-4) by (auto simp: fdr_inv_def written_ok_def)
  then have "parse_entries (rw_data (df_backend (fs_file s'))) = acc"
    using parse_loop_entries [of acc "replicate m 0" "[]"] by (simp add: parse_entries_def list_all_iff data_entry_def)
  moreover have "fdr_run os (evs @ Stop # replicate ?k Writer) (s0, []) = Some (s', acc)"
    using assms(5) s'(1) by (simp add: fdr_run_append del: replicate.simps)
  ultimately show ?thesis using s'(4) by (intro exI [of _ ?k] exI [of _ s'] exI [of _ w]) simp
qed

theorem fdr_stop_drains_witness:
  "\<exists>s0 s' acc w k. recorder_open (\<lambda>_. 7) True (Inr ()) 4 = Some (Inr s0) \<and>
    fdr_run (\<lambda>k. Inr (Suc k)) (Stop # replicate k Writer) (s0, []) = Some (s', acc) \<and> fs_pc s' = Returned (Inr w) \<and>
    parse_entries (rw_data (df_backend (fs_file s'))) = []"
proof -
  obtain s0 where s0: "recorder_open (\<lambda>_. 7) True (Inr ()) 4 = Some (Inr s0)" using recorder_opens by blast
  have pr: "progressing (\<lambda>k. Inr (Suc k))" by (simp add: progressing_def)
  have c: "unat (4 :: usize) \<le> 2 ^ 63" by simp
  from fdr_stop_drains [OF pr s0 c, of "[]" s0 "[]" 0] recorder_open_inv(4) [OF s0 c] s0 show ?thesis by auto
qed

text \<open>The lost record: an entry recorded after the thread found the ring empty and before it loads the
  stop flag is accepted, but when the stop signal comes before that load, the thread returns without
  writing it: the finished file does not contain the entry.\<close>

theorem fdr_stop_loses_record:
  assumes "progressing os" and "recorder_open junk direct buffered cap = Some (Inr s0)" and "0 < cap" and "unat cap \<le> 2 ^ 63"
    and "k \<noteq> RkEnd" and "length p \<le> FDR_MAX_PAYLOAD"
  shows "\<exists>s e w. fdr_run os [Writer, Record k p ts, Stop, Writer] (s0, []) = Some (s, [e]) \<and> entry_new k p ts = Inr e \<and>
    fs_pc s = Returned (Inr w) \<and> parse_entries (rw_data (df_backend (fs_file s))) = []"
proof -
  note o = recorder_open_inv [OF assms(2,4)]
  obtain s1 where s1: "drain_step os 0 s0 = Some s1" "fdr_inv (s1, [])" "\<not> fs_stop s1" "fs_ring s1 = fs_ring s0" "fs_pc s1 = CheckStop"
    using drain_step_inv [OF assms(1) o(1,4)] o(2,5) by auto
  obtain e where e: "entry_new k p ts = Inr e" using assms(6) by (auto simp: entry_new_def)
  have room: "length (ring_contents (fs_ring s1)) < ring_room (fs_ring s1)"
    using o(2,6) assms(3) s1(4) by (simp add: word_less_nat_alt)
  obtain r where r: "ring_push (fs_ring s1) e = (Inr (), r)" "ring_inv r" "ring_contents r = [e]"
    using spsc.push_room [OF _ room, of e] o(2,3) s1(4) by auto
  define s2 where "s2 = stop_signal (s1\<lparr>fs_ring := r\<rparr>)"
  have "data_entry e" using entry_new_wf [OF e] assms(5) by (simp add: data_entry_def)
  then have i2: "fdr_inv (s2, [e])" "fs_pc s2 = CheckStop" "fs_stop s2" "ring_contents (fs_ring s2) = [e]"
    using s1(2,5) o(2) r s1(4) by (auto simp: s2_def stop_signal_def fdr_inv_def)
  obtain s3 w where s3: "writer_step os s2 = Some s3" "fdr_inv (s3, [e])" "fs_ring s3 = fs_ring s2" "fs_pc s3 = Returned (Inr w)"
    using check_stop_inv [OF assms(1) i2(1,2)] i2(3) by auto
  have "fdr_run os [Writer, Record k p ts, Stop, Writer] (s0, []) = Some (s3, [e])"
    using s1(1) o(4) e r(1) s3(1) by (simp add: writer_step_def [of os s0] try_record_def s2_def)
  moreover obtain m where "rw_data (df_backend (fs_file s3)) = entry_bytes end_entry @ replicate m 0"
    using s3(2-4) i2(4) by (auto simp: fdr_inv_def written_ok_def)
  ultimately show ?thesis using e s3(4) parse_loop_entries [of "[]" "replicate m 0" "[]"] by (simp add: parse_entries_def)
qed

theorem fdr_stop_loses_record_witness:
  "\<exists>s0 s e w. recorder_open (\<lambda>_. 7) True (Inr ()) 4 = Some (Inr s0) \<and>
    fdr_run (\<lambda>k. Inr (Suc k)) [Writer, Record RkImu [1, 2, 3] 5, Stop, Writer] (s0, []) = Some (s, [e]) \<and>
    fs_pc s = Returned (Inr w) \<and> parse_entries (rw_data (df_backend (fs_file s))) = []"
proof -
  obtain s0 where s0: "recorder_open (\<lambda>_. 7) True (Inr ()) 4 = Some (Inr s0)" using recorder_opens by blast
  have pr: "progressing (\<lambda>k. Inr (Suc k))" by (simp add: progressing_def)
  have c: "unat (4 :: usize) \<le> 2 ^ 63" "(0 :: usize) < 4" by simp_all
  have l: "length [1, 2, 3 :: u8] \<le> FDR_MAX_PAYLOAD" by (simp add: FDR_MAX_PAYLOAD_def)
  from fdr_stop_loses_record [OF pr s0 c(2,1) _ l, of RkImu 5] s0 show ?thesis by auto
qed

end
