(* ===== verification/Npy_Export.thy ===== *)
theory Npy_Export
  imports Flight_Recorder Http Json_Roundtrip
begin

text \<open>
  The training export of the analytics crate: the NumPy container (npy.rs) and the data set built from
  the entries of a flight recording (export.rs). A file is the bytes written to it; the features are
  bit-exact single-precision numbers. The lemmas show that the reader inverts the writer, that a data set
  is rectangular, and that the exported matrix has the shape its header states.
\<close>

section \<open>The container (npy.rs)\<close>

definition NPY_MAGIC :: bytes where "NPY_MAGIC = [0x93, 78, 85, 77, 80, 89]"

datatype npy_error = NpyTooShort | BadMagic | BadHeaderLen | BadHeader

fun npy_error_fmt :: "npy_error \<Rightarrow> rstring" where
  "npy_error_fmt NpyTooShort = lit ''npy: stream too short for prefix''"
| "npy_error_fmt BadMagic = lit ''npy: bad magic (not a .npy file)''"
| "npy_error_fmt BadHeaderLen = lit ''npy: header length out of range''"
| "npy_error_fmt BadHeader = lit ''npy: malformed header dict''"

fun join_comma :: "rstring list \<Rightarrow> rstring" where
  "join_comma [] = []"
| "join_comma [s] = s"
| "join_comma (s # t # ss) = s @ lit '', '' @ join_comma (t # ss)"

definition npy_dict :: "rstring \<Rightarrow> usize list \<Rightarrow> rstring" where
  "npy_dict descr shape =
     (let shape_str = join_comma (map (\<lambda>n. show_dec (unat n)) shape) in
      lit ''{'' @ [39] @ lit ''descr'' @ [39] @ lit '': '' @ [39] @ descr @ [39] @ lit '', '' @ [39] @ lit ''fortran_order'' @ [39] @
      lit '': False, '' @ [39] @ lit ''shape'' @ [39] @ lit '': ('' @ shape_str @ lit ''), }'')"

text \<open>The padding loop: from 54 up in steps of 64 until the dictionary and a newline fit.\<close>

function header_len_from :: "nat \<Rightarrow> nat \<Rightarrow> nat" where
  "header_len_from hl need = (if hl < need then header_len_from (hl + 64) need else hl)"
  by pat_completeness auto
termination header_len_from
  by (relation "measure (\<lambda>(hl, need). need - hl)") auto

declare header_len_from.simps [simp del]

definition npy_header_len :: "rstring \<Rightarrow> usize list \<Rightarrow> nat" where
  "npy_header_len descr shape = header_len_from 54 (length (utf8 (npy_dict descr shape)) + 1)"

definition write_npy :: "rstring \<Rightarrow> usize list \<Rightarrow> bytes \<Rightarrow> bytes" where
  "write_npy descr shape data =
     (let dict = utf8 (npy_dict descr shape); need = length dict + 1; hl = header_len_from 54 need; pad = hl - need;
          header = dict @ replicate pad 32 @ [10]
      in NPY_MAGIC @ [1, 0] @ le_bytes 2 (word_of_nat hl :: u16) @ header @ data)"

definition f32_npy :: "usize list \<Rightarrow> f32 list \<Rightarrow> bytes" where
  "f32_npy shape data = write_npy (lit ''<f4'') shape (concat (map (le_bytes 4) data))"

definition f64_npy :: "usize list \<Rightarrow> f64 list \<Rightarrow> bytes" where
  "f64_npy shape data = write_npy (lit ''<f8'') shape (concat (map (le_bytes 8) data))"

record npy_view =
  nv_descr :: rstring
  nv_shape :: "usize list"
  nv_data :: bytes

text \<open>What follows the first occurrence of a text.\<close>

fun after_first :: "rstring \<Rightarrow> rstring \<Rightarrow> rstring option" where
  "after_first needle [] = (if needle = [] then Some [] else None)"
| "after_first needle (c # cs) = (if take (length needle) (c # cs) = needle then Some (drop (length needle) (c # cs)) else after_first needle cs)"

definition shape_key :: rstring where
  "shape_key = [39] @ lit ''shape'' @ [39] @ lit '': (''"

fun parse_dims :: "rstring list \<Rightarrow> usize list option" where
  "parse_dims [] = Some []"
| "parse_dims (s # ss) =
     (case parse_u64 (trim s) of None \<Rightarrow> None | Some n \<Rightarrow> (case parse_dims ss of None \<Rightarrow> None | Some ns \<Rightarrow> Some (n # ns)))"

definition parse_shape :: "rstring \<Rightarrow> usize list option" where
  "parse_shape s = (if trim s = [] then Some [] else parse_dims (split_when (\<lambda>c. c = 44) s))"

definition read_npy :: "bytes \<Rightarrow> npy_error + npy_view" where
  "read_npy bs =
     (if length bs < 10 then Inl NpyTooShort
      else if take 6 bs \<noteq> NPY_MAGIC then Inl BadMagic
      else
        let hl = unat (from_le [bs ! 8, bs ! 9] :: u16) in
        if length bs < 10 + hl then Inl BadHeaderLen
        else case utf8_decode (take hl (drop 10 bs)) of
          None \<Rightarrow> Inl BadHeader
        | Some header \<Rightarrow>
            let parts = split_when (\<lambda>c. c = 39) header in
            if length parts \<le> 3 then Inl BadHeader
            else case after_first shape_key header of
              None \<Rightarrow> Inl BadHeader
            | Some rest \<Rightarrow>
                if 41 \<notin> set rest then Inl BadHeader
                else case parse_shape (takeWhile (\<lambda>c. c \<noteq> 41) rest) of
                  None \<Rightarrow> Inl BadHeader
                | Some shape \<Rightarrow> Inr \<lparr>nv_descr = parts ! 3, nv_shape = shape, nv_data = drop (10 + hl) bs\<rparr>)"

section \<open>The data set (export.rs)\<close>

record sample =
  sa_features :: "f32 list"
  sa_label :: f32

record ai_dataset =
  ds_feature_dim :: nat
  ds_samples :: "sample list"

definition f32_of_uint :: "'a::len word \<Rightarrow> f32" where
  "f32_of_uint n = f32_of (Finite False (rat_of_nat (unat n)))"

fun extract_features :: "record_kind \<Rightarrow> bytes \<Rightarrow> sample option" where
  "extract_features RkControl payload =
     map_option (\<lambda>c. \<lparr>sa_features = [f32_of_uint (cmd_mode c), f32_of_uint (if cmd_flags c AND FLAG_AI_ORIGIN \<noteq> 0 then 1 else 0 :: u8)] @ cmd_axes c,
       sa_label = f32_of_uint (cmd_mode c)\<rparr>) (from_bytes_aligned 56 command_of payload)"
| "extract_features RkImu payload =
     map_option (\<lambda>s. \<lparr>sa_features = imu_gyro_rps s @ imu_accel_g s, sa_label = 0\<rparr>) (from_bytes_aligned 48 imu_of payload)"
| "extract_features RkGps payload =
     map_option (\<lambda>s. \<lparr>sa_features = [f32_of_f64 (gps_lat_deg s), f32_of_f64 (gps_lon_deg s), f32_of_f64 (gps_alt_m s), gps_speed_mps s,
         gps_course_deg s, f32_of_uint (gps_sats s), f32_of_uint (gps_fix_ok s)], sa_label = f32_of_uint (gps_fix_ok s)\<rparr>)
       (from_bytes_aligned 64 gps_of payload)"
| "extract_features RkTelemetry payload =
     map_option (\<lambda>s. \<lparr>sa_features = tlm_values s, sa_label = f32_of_uint (tlm_kind s)\<rparr>) (from_bytes_aligned 56 telemetry_of payload)"
| "extract_features RkEnd payload = None"

text \<open>The first loop of \<open>from_entries\<close>; \<open>None\<close> is the panic of \<open>payload\<close> on a corrupt length.\<close>

fun collect_samples :: "fdr_entry list \<Rightarrow> nat \<Rightarrow> sample list \<Rightarrow> (nat \<times> sample list) option" where
  "collect_samples [] d out = Some (d, out)"
| "collect_samples (e # es) d out =
     (case entry_kind e of
        None \<Rightarrow> collect_samples es d out
      | Some kind \<Rightarrow>
          (case entry_payload e of
             None \<Rightarrow> None
           | Some p \<Rightarrow>
               (case extract_features kind p of
                  None \<Rightarrow> collect_samples es d out
                | Some s \<Rightarrow> collect_samples es (max d (length (sa_features s))) (out @ [s]))))"

definition vec_resize :: "nat \<Rightarrow> 'a \<Rightarrow> 'a list \<Rightarrow> 'a list" where
  "vec_resize n x xs = take n xs @ replicate (n - length xs) x"

definition from_entries :: "fdr_entry list \<Rightarrow> ai_dataset option" where
  "from_entries es =
     (case collect_samples es 0 [] of
        None \<Rightarrow> None
      | Some (d, ss) \<Rightarrow>
          Some \<lparr>ds_feature_dim = d, ds_samples = map (\<lambda>s. s\<lparr>sa_features := vec_resize d 0 (sa_features s)\<rparr>) ss\<rparr>)"

definition num_samples :: "ai_dataset \<Rightarrow> nat" where
  "num_samples ds = length (ds_samples ds)"

definition features_matrix :: "ai_dataset \<Rightarrow> f32 list" where
  "features_matrix ds = concat (map sa_features (ds_samples ds))"

definition labels_vec :: "ai_dataset \<Rightarrow> f32 list" where
  "labels_vec ds = map sa_label (ds_samples ds)"

definition write_npy_pair :: "ai_dataset \<Rightarrow> bytes \<times> bytes" where
  "write_npy_pair ds =
     (f32_npy [word_of_nat (num_samples ds), word_of_nat (ds_feature_dim ds)] (features_matrix ds),
      f32_npy [word_of_nat (num_samples ds)] (labels_vec ds))"

section \<open>Reading a written container\<close>

lemma header_len_from_bounds:
  "need \<le> header_len_from hl need \<and> hl \<le> header_len_from hl need \<and> (header_len_from hl need - hl) mod 64 = 0"
proof (induction hl need rule: header_len_from.induct)
  case (1 hl need)
  show ?case
  proof (cases "hl < need")
    case True
    then have "header_len_from hl need = header_len_from (hl + 64) need" by (simp add: header_len_from.simps [of hl])
    moreover obtain k where "header_len_from (hl + 64) need = hl + 64 + k" "k mod 64 = 0" using 1 [OF True] by (metis le_Suc_ex add_diff_cancel_left')
    ultimately show ?thesis using 1 [OF True] by (simp add: mod_eq_0_iff_dvd)
  qed (simp add: header_len_from.simps [of hl])
qed

definition plain_dim :: "rstring \<Rightarrow> bool" where
  "plain_dim s \<longleftrightarrow> s \<noteq> [] \<and> list_all (\<lambda>c. 48 \<le> c \<and> c \<le> 57) s"

lemma show_dec_plain: "plain_dim (show_dec n)"
  using show_dec_digit_list [of n] by (simp add: plain_dim_def)

lemma plain_dim_trim: "plain_dim s \<Longrightarrow> trim s = s"
  by (rule trim_no_ws) (auto simp: plain_dim_def list_all_iff is_unicode_ws_def)

lemma join_comma_chars:
  "list_all plain_dim ss \<Longrightarrow> set (join_comma ss) \<subseteq> {48..57} \<union> {44, 32}"
  by (induction ss rule: join_comma.induct) (auto simp: plain_dim_def list_all_iff lit_def)

text \<open>Splitting at commas gives the numbers back, each but the first behind a space.\<close>

lemma split_join:
  "list_all plain_dim (s # ss) \<Longrightarrow> split_when (\<lambda>c. c = 44) (join_comma (s # ss)) = s # map ((#) 32) ss"
proof (induction ss arbitrary: s)
  case Nil
  then have "list_all (\<lambda>c. c \<noteq> 44) s" by (auto simp: plain_dim_def list_all_iff)
  then show ?case using split_when_no [of "\<lambda>c. c = 44" s "[]"] by simp
next
  case (Cons t ss)
  then have no: "list_all (\<lambda>c. c \<noteq> 44) s" by (auto simp: plain_dim_def list_all_iff)
  have "split_when (\<lambda>c. c = 44) (lit '', '' @ join_comma (t # ss)) = [] # (32 # t) # map ((#) 32) ss"
    using Cons by (simp add: lit_def)
  then show ?case using split_when_no [OF no, of "lit '', '' @ join_comma (t # ss)"] by simp
qed

lemma parse_dims_shown: "parse_dims (map (\<lambda>n. show_dec (unat n)) ns) = Some ns"
  "parse_dims (map (\<lambda>n. 32 # show_dec (unat n)) ns) = Some ns"
  by (induction ns) (simp_all add: trim_space plain_dim_trim [OF show_dec_plain] parse_u64_show_dec)

lemma parse_shape_shown: "parse_shape (join_comma (map (\<lambda>n. show_dec (unat n)) shape)) = Some shape"
proof (cases shape)
  case Nil
  then show ?thesis by (simp add: parse_shape_def trim_def)
next
  case (Cons n ns)
  let ?ss = "map (\<lambda>n. show_dec (unat n)) shape"
  have pl: "list_all plain_dim ?ss" by (simp add: list_all_iff show_dec_plain)
  have sp: "split_when (\<lambda>c. c = 44) (join_comma ?ss) = show_dec (unat n) # map (\<lambda>n. 32 # show_dec (unat n)) ns"
    using split_join [of "show_dec (unat n)" "map (\<lambda>n. show_dec (unat n)) ns"] pl Cons by (simp add: comp_def)
  obtain c cs where c: "show_dec (unat n) = c # cs" "48 \<le> c" "c \<le> 57"
    using show_dec_plain [of "unat n"] by (cases "show_dec (unat n)") (auto simp: plain_dim_def)
  then obtain r where "join_comma ?ss = c # r" using Cons by (cases ns) auto
  moreover have "\<not> is_unicode_ws c" using c(2,3) by (simp add: is_unicode_ws_def)
  ultimately have "c \<in> set (trim (join_comma ?ss))" by (simp add: trim_def dropWhile_append)
  then have "trim (join_comma ?ss) \<noteq> []" by auto
  then show ?thesis using sp Cons
    by (simp add: parse_shape_def parse_dims_shown plain_dim_trim [OF show_dec_plain] parse_u64_show_dec)
qed

lemma after_first_skip: "39 \<notin> set l \<Longrightarrow> after_first shape_key (l @ r) = after_first shape_key r"
  by (induction l) (auto simp: shape_key_def)

lemma after_first_quote:
  "take (length shape_key) (39 # r) \<noteq> shape_key \<Longrightarrow> after_first shape_key (39 # r) = after_first shape_key r"
  by simp

lemma after_first_here: "after_first shape_key (shape_key @ r) = Some r"
  by (simp add: shape_key_def)

text \<open>A text without quotes, closed by a quote and a comma, does not start the shape key.\<close>

lemma descr_not_key:
  assumes "39 \<notin> set descr"
  shows "take (length shape_key) (39 # descr @ 39 # 44 # r) \<noteq> shape_key"
proof
  assume "take (length shape_key) (39 # descr @ 39 # 44 # r) = shape_key"
  then have e: "39 # descr @ 39 # 44 # r = shape_key @ drop (length shape_key) (39 # descr @ 39 # 44 # r)"
    by (metis append_take_drop_id)
  then have "descr @ 39 # 44 # r = lit ''shape'' @ 39 # lit '': ('' @ drop (length shape_key) (39 # descr @ 39 # 44 # r)"
    by (simp add: shape_key_def)
  then have "split_once 39 (descr @ 39 # 44 # r) = split_once 39 (lit ''shape'' @ 39 # lit '': ('' @ drop (length shape_key) (39 # descr @ 39 # 44 # r))"
    by (rule arg_cong)
  moreover have "39 \<notin> set (lit ''shape'')" by (simp add: lit_def)
  ultimately show False using split_once_first [OF assms] by (simp add: split_once_first) (simp add: lit_def)
qed

lemma npy_dict_ascii:
  assumes "ascii descr"
  shows "ascii (npy_dict descr shape)"
proof -
  let ?s = "join_comma (map (\<lambda>n. show_dec (unat n)) shape)"
  have "set ?s \<subseteq> {48..57} \<union> {44, 32}" by (rule join_comma_chars) (simp add: list_all_iff show_dec_plain)
  then have "ascii ?s" by (fastforce simp: ascii_def list_all_iff)
  then show ?thesis using assms by (simp add: npy_dict_def Let_def ascii_def lit_def)
qed

lemma npy_dict_parts:
  assumes "39 \<notin> set descr"
  shows "4 \<le> length (split_when (\<lambda>c. c = 39) (npy_dict descr shape @ tail))" and "split_when (\<lambda>c. c = 39) (npy_dict descr shape @ tail) ! 3 = descr"
proof -
  have no: "list_all (\<lambda>c. c \<noteq> 39) descr" using assms by (auto simp: list_all_iff)
  define r where "r = lit '', '' @ [39] @ lit ''fortran_order'' @ [39] @ lit '': False, '' @ [39] @ lit ''shape'' @ [39] @ lit '': ('' @
    join_comma (map (\<lambda>n. show_dec (unat n)) shape) @ lit ''), }'' @ tail"
  have d: "npy_dict descr shape @ tail = lit ''{'' @ [39] @ lit ''descr'' @ [39] @ lit '': '' @ [39] @ descr @ 39 # r"
    by (simp add: npy_dict_def r_def Let_def)
  have "split_when (\<lambda>c. c = 39) (descr @ 39 # r) = descr # split_when (\<lambda>c. c = 39) r"
    using split_when_no [OF no, of "39 # r"] by simp
  then have "split_when (\<lambda>c. c = 39) (npy_dict descr shape @ tail) = lit ''{'' # lit ''descr'' # lit '': '' # descr # split_when (\<lambda>c. c = 39) r"
    unfolding d by (simp add: lit_def)
  then show "4 \<le> length (split_when (\<lambda>c. c = 39) (npy_dict descr shape @ tail))" "split_when (\<lambda>c. c = 39) (npy_dict descr shape @ tail) ! 3 = descr"
    by simp_all
qed

lemma after_first_no_key:
  assumes "c \<noteq> 115" and "39 \<notin> set (c # l)"
  shows "after_first shape_key (39 # c # l @ r) = after_first shape_key r"
proof -
  have "after_first shape_key (39 # (c # l) @ r) = after_first shape_key ((c # l) @ r)"
    using assms(1) by (intro after_first_quote) (simp add: shape_key_def lit_def)
  then show ?thesis using after_first_skip [OF assms(2), of r] by simp
qed

lemma npy_dict_shape:
  assumes "39 \<notin> set descr"
  shows "after_first shape_key (npy_dict descr shape @ tail) = Some (join_comma (map (\<lambda>n. show_dec (unat n)) shape) @ lit ''), }'' @ tail)"
proof -
  let ?r = "join_comma (map (\<lambda>n. show_dec (unat n)) shape) @ lit ''), }'' @ tail"
  define m3 where "m3 = shape_key @ ?r"
  define m2 where "m2 = 39 # 58 # lit '' False, '' @ m3"
  define m1 where "m1 = 39 # 102 # lit ''ortran_order'' @ m2"
  define m0 where "m0 = descr @ 39 # 44 # lit '' '' @ m1"
  have d: "npy_dict descr shape @ tail = lit ''{'' @ 39 # 100 # lit ''escr'' @ 39 # 58 # lit '' '' @ 39 # m0"
    by (simp add: npy_dict_def m0_def m1_def m2_def m3_def Let_def shape_key_def lit_def)
  have l: "39 \<notin> set (lit s)" if "s \<in> {''{'', ''escr'', '' '', ''ortran_order'', '' False, ''}" for s
    using that by (auto simp: lit_def)
  have "after_first shape_key m1 = Some ?r"
    using after_first_no_key [of 102 "lit ''ortran_order''" m2] after_first_no_key [of 58 "lit '' False, ''" m3] l
    by (simp add: m1_def m2_def m3_def after_first_here del: after_first.simps(2))
  then have "after_first shape_key (39 # m0) = Some ?r"
    using after_first_quote [OF descr_not_key [OF assms], of "lit '' '' @ m1"] after_first_skip [OF assms]
      after_first_no_key [of 44 "lit '' ''" m1] l by (simp add: m0_def del: after_first.simps(2))
  then show ?thesis unfolding d
    using after_first_skip [OF l [of "''{''"]] after_first_no_key [of 100 "lit ''escr''"] after_first_no_key [of 58 "lit '' ''" "39 # m0"] l
    by (simp del: after_first.simps(2))
qed

text \<open>The header text is followed by spaces and a newline; the first closing bracket ends the shape.\<close>

lemma read_npy_written:
  assumes "ascii descr" and "39 \<notin> set descr" and "npy_header_len descr shape < 2 ^ 16"
  shows "read_npy (write_npy descr shape data) = Inr \<lparr>nv_descr = descr, nv_shape = shape, nv_data = data\<rparr>"
proof -
  let ?d = "npy_dict descr shape" and ?s = "join_comma (map (\<lambda>n. show_dec (unat n)) shape)"
  define hl where "hl = npy_header_len descr shape"
  define tail where "tail = replicate (hl - (length ?d + 1)) 32 @ [10 :: nat]"
  have u: "utf8 ?d = map word_of_nat ?d" by (rule utf8_ascii [OF npy_dict_ascii [OF assms(1)]])
  have hl: "length ?d + 1 \<le> hl" using header_len_from_bounds [of "length (utf8 ?d) + 1" 54] u by (simp add: hl_def npy_header_len_def)
  define h where "h = (map word_of_nat (?d @ tail) :: bytes)"
  have w: "write_npy descr shape data = NPY_MAGIC @ [1, 0] @ le_bytes 2 (word_of_nat hl :: u16) @ h @ data"
    by (simp add: write_npy_def u h_def tail_def Let_def hl_def npy_header_len_def)
  have lh: "length h = hl" using hl by (simp add: h_def tail_def)
  have "ascii (?d @ tail)" using npy_dict_ascii [OF assms(1), of shape] by (auto simp: tail_def ascii_def list_all_iff)
  then have dec: "utf8_decode h = Some (?d @ tail)" unfolding h_def by (rule utf8_decode_ascii)
  have "set ?s \<subseteq> {48..57} \<union> {44, 32}" by (rule join_comma_chars) (simp add: list_all_iff show_dec_plain)
  then have "takeWhile (\<lambda>c. c \<noteq> 41) (?s @ lit ''), }'' @ tail) = ?s" by (subst takeWhile_append2) (auto simp: lit_def)
  then have sh: "41 \<in> set (?s @ lit ''), }'' @ tail)" "parse_shape (takeWhile (\<lambda>c. c \<noteq> 41) (?s @ lit ''), }'' @ tail)) = Some shape"
    using parse_shape_shown [of shape] by (simp_all add: lit_def)
  obtain a b where ab: "le_bytes 2 (word_of_nat hl :: u16) = [a, b]"
    by (simp add: le_bytes_def numeral_2_eq_2)
  have "unat (from_le [a, b] :: u16) = hl"
    using assms(3) unfolding ab [symmetric] by (simp add: from_le_le_bytes hl_def [symmetric] unat_of_nat)
  then have pre: "length (write_npy descr shape data) = 10 + hl + length data" "take 6 (write_npy descr shape data) = NPY_MAGIC"
      "unat (from_le [write_npy descr shape data ! 8, write_npy descr shape data ! 9] :: u16) = hl"
      "take hl (drop 10 (write_npy descr shape data)) = h" and dr: "drop hl (drop 10 (write_npy descr shape data)) = data"
    unfolding w ab using lh by (simp_all add: NPY_MAGIC_def)
  have pre': "drop (10 + hl) (write_npy descr shape data) = data" using dr by (simp add: add.commute)
  show ?thesis
    unfolding read_npy_def Let_def pre pre' dec option.case npy_dict_shape [OF assms(2)] sh(2) using npy_dict_parts [OF assms(2), of shape tail] sh(1)
    by simp
qed

section \<open>The shape of a data set\<close>

lemma extract_features_length: "extract_features k p = Some s \<Longrightarrow> length (sa_features s) \<le> 8"
  by (cases k) (auto simp: from_bytes_aligned_def command_of_def imu_of_def telemetry_of_def array_at_def split: if_splits)

lemma collect_samples_result:
  assumes "list_all (\<lambda>e. entry_payload e \<noteq> None) es" and "d \<le> 8" and "list_all (\<lambda>s. length (sa_features s) \<le> d) out"
  shows "\<exists>d' out'. collect_samples es d out = Some (d', out') \<and> d' \<le> 8 \<and> list_all (\<lambda>s. length (sa_features s) \<le> d') out' \<and>
    length out' \<le> length out + length es"
  using assms
proof (induction es arbitrary: d out)
  case (Cons e es)
  obtain p where p: "entry_payload e = Some p" using Cons.prems(1) by auto
  show ?case
  proof (cases "\<exists>k s. entry_kind e = Some k \<and> extract_features k p = Some s")
    case True
    then obtain k s where k: "entry_kind e = Some k" "extract_features k p = Some s" by blast
    let ?d = "max d (length (sa_features s))"
    have "?d \<le> 8" "list_all (\<lambda>s. length (sa_features s) \<le> ?d) (out @ [s])"
      using extract_features_length [OF k(2)] Cons.prems(2,3) by (auto simp: list_all_iff)
    then show ?thesis using Cons.IH [of ?d "out @ [s]"] Cons.prems(1) p k by fastforce
  next
    case False
    then have "collect_samples (e # es) d out = collect_samples es d out" using p by (auto split: option.splits)
    then show ?thesis using Cons.IH [of d out] Cons.prems by fastforce
  qed
qed auto

lemma length_vec_resize [simp]: "length (vec_resize n x xs) = n"
  by (simp add: vec_resize_def)

lemma from_entries_rectangular:
  assumes "list_all (\<lambda>e. entry_payload e \<noteq> None) es"
  shows "\<exists>ds. from_entries es = Some ds \<and> ds_feature_dim ds \<le> 8 \<and> list_all (\<lambda>s. length (sa_features s) = ds_feature_dim ds) (ds_samples ds) \<and>
    num_samples ds \<le> length es"
  using collect_samples_result [OF assms, of 0 "[]"] by (auto simp: from_entries_def num_samples_def list_all_iff)

lemma length_features_matrix:
  assumes "list_all (\<lambda>s. length (sa_features s) = ds_feature_dim ds) (ds_samples ds)"
  shows "length (features_matrix ds) = num_samples ds * ds_feature_dim ds"
proof -
  have "length (concat (map sa_features ss)) = length ss * m" if "list_all (\<lambda>s. length (sa_features s) = m) ss" for m ss
    using that by (induction ss) auto
  with assms show ?thesis by (simp add: features_matrix_def num_samples_def)
qed

lemma show_dec_length: "0 < k \<Longrightarrow> n < 10 ^ k \<Longrightarrow> length (show_dec n) \<le> k"
proof (induction n arbitrary: k rule: show_dec.induct)
  case (1 n)
  show ?case
  proof (cases "n < 10")
    case False
    then have "k \<noteq> 1" using 1(3) by auto
    then obtain j where j: "k = Suc j" "0 < j" using 1(2) by (cases k) auto
    then have "n div 10 < 10 ^ j" using 1(3) by (simp add: less_mult_imp_div_less)
    then show ?thesis using 1(1) [OF False j(2)] j(1) False by (simp add: show_dec.simps [of n])
  qed (use 1(2) in \<open>simp add: show_dec.simps [of n]\<close>)
qed

lemma header_len_from_upper: "header_len_from hl need \<le> max hl (need + 64)"
proof (induction hl need rule: header_len_from.induct)
  case (1 hl need)
  then show ?case by (cases "hl < need") (auto simp: header_len_from.simps [of hl])
qed

lemma f4_header_short: "length shape \<le> 2 \<Longrightarrow> npy_header_len (lit ''<f4'') shape < 2 ^ 16"
proof -
  assume l: "length shape \<le> 2"
  have w: "length (show_dec (unat n)) \<le> 20" for n :: usize
    using unsigned_less [of n, where 'a = nat] by (intro show_dec_length) simp_all
  have "length (join_comma (map (\<lambda>n. show_dec (unat n)) shape)) \<le> 42"
  proof -
    consider "shape = []" | a where "shape = [a]" | a b where "shape = [a, b]"
      using l by (cases shape; cases "tl shape"; cases "tl (tl shape)") auto
    then show ?thesis
    proof cases
      case (2 a)
      then show ?thesis using w [of a] by simp
    next
      case (3 a b)
      then show ?thesis using w [of a] w [of b] by (simp add: lit_def)
    qed simp
  qed
  then have "length (npy_dict (lit ''<f4'') shape) \<le> 200" by (simp add: npy_dict_def Let_def lit_def)
  moreover have "ascii (lit ''<f4'')" by (simp add: ascii_def lit_def)
  ultimately have "length (utf8 (npy_dict (lit ''<f4'') shape)) + 1 \<le> 201" using utf8_ascii [OF npy_dict_ascii] by simp
  then show ?thesis using header_len_from_upper [of 54 "length (utf8 (npy_dict (lit ''<f4'') shape)) + 1"] by (simp add: npy_header_len_def)
qed

lemma f32_npy_read:
  assumes "length shape \<le> 2"
  shows "read_npy (f32_npy shape data) = Inr \<lparr>nv_descr = lit ''<f4'', nv_shape = shape, nv_data = concat (map (le_bytes 4) data)\<rparr>"
  unfolding f32_npy_def by (rule read_npy_written [OF _ _ f4_header_short [OF assms]]) (simp_all add: ascii_def lit_def)

section \<open>Properties\<close>

text \<open>NumPy round trip: for an ASCII type description without quotes and any shape whose header fits the
  16-bit length field, reading what was written gives the description, the shape and the data bytes back,
  and the data start at a multiple of 64 bytes.\<close>

theorem npy_roundtrip:
  assumes "ascii descr" and "39 \<notin> set descr" and "npy_header_len descr shape < 2 ^ 16"
  shows "read_npy (write_npy descr shape data) = Inr \<lparr>nv_descr = descr, nv_shape = shape, nv_data = data\<rparr> \<and>
    (length (write_npy descr shape data) - length data) mod 64 = 0"
proof -
  let ?hl = "npy_header_len descr shape"
  obtain k where k: "?hl = 54 + k" "k mod 64 = 0" "length (utf8 (npy_dict descr shape)) + 1 \<le> ?hl"
    using header_len_from_bounds [of "length (utf8 (npy_dict descr shape)) + 1" 54] unfolding npy_header_len_def
    by (metis add_diff_cancel_left' le_Suc_ex)
  then have "length (write_npy descr shape data) = 64 + k + length data"
    unfolding write_npy_def Let_def npy_header_len_def [symmetric] by (simp add: NPY_MAGIC_def)
  then show ?thesis using read_npy_written [OF assms] k(2) by (simp add: mod_eq_0_iff_dvd)
qed

theorem npy_roundtrip_witness:
  "read_npy (write_npy (lit ''<i8'') [3] [1, 2, 3]) = Inr \<lparr>nv_descr = lit ''<i8'', nv_shape = [3], nv_data = [1, 2, 3]\<rparr>"
proof -
  have "npy_header_len (lit ''<i8'') [3] < 2 ^ 16"
    using header_len_from_upper [of 54 "length (utf8 (npy_dict (lit ''<i8'') [3])) + 1"]
    by (simp add: npy_header_len_def npy_dict_def lit_def utf8_def utf8_char_def show_dec.simps)
  then show ?thesis using npy_roundtrip [of "lit ''<i8''" "[3]" "[1, 2, 3]"] by (simp add: ascii_def lit_def)
qed

text \<open>C37. Well-formed data sets: from any entries that the recorder accepted, the export builds a rectangular
  data set without panicking: every sample has as many features as the set declares, at most eight; and
  the two files read back with the type, the shape and exactly the numbers of the set.\<close>

theorem export_wellformed:
  assumes "list_all (\<lambda>(k, p, ts). length p \<le> FDR_MAX_PAYLOAD) recs"
  shows "\<exists>ds. from_entries (map (\<lambda>(k, p, ts). projr (entry_new k p ts)) recs) = Some ds \<and>
    ds_feature_dim ds \<le> 8 \<and> list_all (\<lambda>s. length (sa_features s) = ds_feature_dim ds) (ds_samples ds) \<and>
    length (features_matrix ds) = num_samples ds * ds_feature_dim ds \<and> length (labels_vec ds) = num_samples ds \<and>
    read_npy (fst (write_npy_pair ds)) = Inr \<lparr>nv_descr = lit ''<f4'', nv_shape = [word_of_nat (num_samples ds), word_of_nat (ds_feature_dim ds)],
      nv_data = concat (map (le_bytes 4) (features_matrix ds))\<rparr> \<and>
    read_npy (snd (write_npy_pair ds)) = Inr \<lparr>nv_descr = lit ''<f4'', nv_shape = [word_of_nat (num_samples ds)],
      nv_data = concat (map (le_bytes 4) (labels_vec ds))\<rparr>"
proof -
  have "entry_payload (projr (entry_new k p ts)) \<noteq> None" if len: "length p \<le> FDR_MAX_PAYLOAD" for k p ts
  proof -
    obtain e where "entry_new k p ts = Inr e" using len by (auto simp: entry_new_def)
    then show ?thesis using entry_new_wf(3) by simp
  qed
  then have "list_all (\<lambda>e. entry_payload e \<noteq> None) (map (\<lambda>(k, p, ts). projr (entry_new k p ts)) recs)"
    using assms by (auto simp: list_all_iff)
  from from_entries_rectangular [OF this] show ?thesis
    using length_features_matrix f32_npy_read by (auto simp: write_npy_pair_def labels_vec_def num_samples_def)
qed

theorem export_wellformed_witness:
  "\<exists>ds. from_entries (map (\<lambda>(k, p, ts). projr (entry_new k p ts)) [(RkImu, replicate 48 0, 5), (RkGps, [1], 6)]) = Some ds \<and> ds_feature_dim ds \<le> 8"
  using export_wellformed [of "[(RkImu, replicate 48 0, 5), (RkGps, [1], 6)]"] by (auto simp: FDR_MAX_PAYLOAD_def)

text \<open>Corrupt recordings: one entry of a known kind whose stored length is larger than the payload array,
  anywhere in the recording, makes the whole export panic.\<close>

theorem export_corrupt_length_panics:
  assumes "entry_wf e" and "entry_kind e = Some k" and "FDR_MAX_PAYLOAD < unat (fe_payload_len e)"
  shows "from_entries (es @ e # es') = None"
proof -
  have "entry_payload e = None" using assms(1,3) by (simp add: entry_payload_def entry_wf_def)
  then have "collect_samples (es @ e # es') d out = None" for d out
    using assms(2) by (induction es arbitrary: d out) (auto split: option.splits)
  then show ?thesis by (simp add: from_entries_def)
qed

theorem export_corrupt_length_panics_witness:
  "from_entries [end_entry\<lparr>fe_payload_len := 513\<rparr>] = None"
  using export_corrupt_length_panics [of "end_entry\<lparr>fe_payload_len := 513\<rparr>" RkEnd "[]" "[]"]
  by (simp add: entry_wf_def entry_kind_def end_entry_def FDR_MAX_PAYLOAD_def kind_from_u8_def)

end
