(* ===== verification/Input_Stage.thy ===== *)
theory Input_Stage
  imports Safety_Filters Spsc_Ring
begin

text \<open>
  The input crate: controller reports (report.rs), the evdev parser and its device (evdev_parse.rs,
  linux_evdev.rs), the mapping onto commands (map.rs), the ingest stages (pipeline.rs, ai_source.rs),
  haptic routing (haptics.rs) and the arbitration between operators (copilot.rs). A device is the bytes
  its reads return; axes are bit-exact floats. Signed integers are words read with \<open>sint\<close>.

  The lemmas show that whatever a device sends, the axes of the commands stay within their range, and
  that at most one operator has authority.
\<close>

type_synonym i32 = u32
type_synonym i64 = u64

section \<open>Reports (report.rs)\<close>

record controller_report =
  cr_seq :: u32
  cr_buttons :: u32
  cr_axes :: "f32 list"
  cr_timestamp_ns :: u64

definition report_default :: controller_report where
  "report_default = \<lparr>cr_seq = 0, cr_buttons = 0, cr_axes = replicate 8 0, cr_timestamp_ns = 0\<rparr>"

definition SLOT_ROLL :: nat where "SLOT_ROLL = 0"
definition SLOT_PITCH :: nat where "SLOT_PITCH = 1"
definition SLOT_YAW :: nat where "SLOT_YAW = 2"
definition SLOT_THROTTLE :: nat where "SLOT_THROTTLE = 3"
definition SLOT_LAT_X :: nat where "SLOT_LAT_X = 4"
definition SLOT_SPARE0 :: nat where "SLOT_SPARE0 = 6"

lemmas slot_defs = SLOT_ROLL_def SLOT_PITCH_def SLOT_YAW_def SLOT_THROTTLE_def SLOT_LAT_X_def SLOT_SPARE0_def

section \<open>Mapping (map.rs)\<close>

record controller_map =
  cm_roll_slot :: nat
  cm_pitch_slot :: nat
  cm_yaw_slot :: nat
  cm_throttle_slot :: nat
  cm_invert_roll :: bool
  cm_invert_pitch :: bool
  cm_invert_yaw :: bool
  cm_deadzone :: f32

definition controller_map_default :: controller_map where
  "controller_map_default = \<lparr>cm_roll_slot = SLOT_ROLL, cm_pitch_slot = SLOT_PITCH, cm_yaw_slot = SLOT_YAW,
     cm_throttle_slot = SLOT_THROTTLE, cm_invert_roll = False, cm_invert_pitch = False, cm_invert_yaw = False,
     cm_deadzone = f32_lit (4 / 100)\<rparr>"

text \<open>\<open>signum\<close> follows the sign bit, also of a zero, and keeps a value that is not a number.\<close>

definition f32_signum :: "f32 \<Rightarrow> f32" where
  "f32_signum a = (if f32_is_nan a then a else if bit a 31 then f32_lit (- 1) else f32_lit 1)"

definition dz :: "f32 \<Rightarrow> f32 \<Rightarrow> f32" where
  "dz v zone =
     (if f32_le zone 0 \<or> f32_le (f32_abs v) zone then 0
      else f32_div (f32_sub v (f32_mul (f32_signum v) zone)) (f32_sub (f32_lit 1) zone))"

definition raw_axis :: "controller_report \<Rightarrow> nat \<Rightarrow> f32" where
  "raw_axis r i = (if i < length (cr_axes r) then cr_axes r ! i else 0)"

text \<open>One shaped axis; \<open>None\<close> would be the panic of \<open>clamp\<close>, whose constant bounds are ordered.\<close>

definition shaped_axis :: "controller_map \<Rightarrow> controller_report \<Rightarrow> nat \<Rightarrow> bool \<Rightarrow> f32 option" where
  "shaped_axis m r i flip =
     do { v \<leftarrow> f32_clamp (raw_axis r i) (f32_lit (- 1)) (f32_lit 1);
          Some (f32_mul (dz v (cm_deadzone m)) (if flip then f32_lit (- 1) else f32_lit 1)) }"

definition map_apply :: "controller_map \<Rightarrow> controller_report \<Rightarrow> control_command \<Rightarrow> control_command option" where
  "map_apply m r out =
     do { roll \<leftarrow> shaped_axis m r (cm_roll_slot m) (cm_invert_roll m);
          let out1 = set_axis ROLL roll out;
          pitch \<leftarrow> shaped_axis m r (cm_pitch_slot m) (cm_invert_pitch m);
          let out2 = set_axis PITCH pitch out1;
          yaw \<leftarrow> shaped_axis m r (cm_yaw_slot m) (cm_invert_yaw m);
          let out3 = set_axis YAW yaw out2;
          thr \<leftarrow> f32_clamp (raw_axis r (cm_throttle_slot m)) (f32_lit (- 1)) (f32_lit 1);
          t \<leftarrow> f32_clamp (f32_add (f32_mul thr (f32_lit (1 / 2))) (f32_lit (1 / 2))) 0 (f32_lit 1);
          Some (set_axis THROTTLE t out3) }"

section \<open>The evdev parser (evdev_parse.rs)\<close>

definition EV_KEY :: u16 where "EV_KEY = 1"
definition EV_ABS :: u16 where "EV_ABS = 3"
definition ABS_X :: u16 where "ABS_X = 0"
definition ABS_Y :: u16 where "ABS_Y = 1"
definition ABS_Z :: u16 where "ABS_Z = 2"
definition ABS_RX :: u16 where "ABS_RX = 3"
definition ABS_RZ :: u16 where "ABS_RZ = 5"
definition ABS_THROTTLE :: u16 where "ABS_THROTTLE = 6"
definition ABS_RUDDER :: u16 where "ABS_RUDDER = 7"
definition ABS_HAT0X :: u16 where "ABS_HAT0X = 16"
definition EVENT_SIZE :: nat where "EVENT_SIZE = 24"

lemmas abs_defs = ABS_X_def ABS_Y_def ABS_Z_def ABS_RX_def ABS_RZ_def ABS_THROTTLE_def ABS_RUDDER_def ABS_HAT0X_def

record evdev_event =
  ev_tv_sec :: i64
  ev_tv_usec :: i64
  ev_kind :: u16
  ev_code :: u16
  ev_value :: i32

definition decode_event :: "bytes \<Rightarrow> nat \<Rightarrow> evdev_event option" where
  "decode_event buf off =
     (if length buf < off + EVENT_SIZE then None
      else Some \<lparr>ev_tv_sec = from_le (take 8 (drop off buf)), ev_tv_usec = from_le (take 8 (drop (off + 8) buf)),
        ev_kind = from_le (take 2 (drop (off + 16) buf)), ev_code = from_le (take 2 (drop (off + 18) buf)),
        ev_value = from_le (take 4 (drop (off + 20) buf))\<rparr>)"

record evdev_acc =
  ea_calib :: "(i32 \<times> i32) list"
  ea_buttons :: u32
  ea_axes :: "f32 list"
  ea_last_time :: "i64 \<times> i64"

definition evdev_default :: evdev_acc where
  "evdev_default = \<lparr>ea_calib = replicate 6 (- 1023, 1023) @ replicate 2 (0, 1023), ea_buttons = 0, ea_axes = replicate 8 0,
     ea_last_time = (0, 0)\<rparr>"

definition abs_slot :: "u16 \<Rightarrow> (nat \<times> bool) option" where
  "abs_slot code =
     (if code = ABS_X then Some (SLOT_ROLL, False)
      else if code = ABS_Y then Some (SLOT_PITCH, True)
      else if code = ABS_RX then Some (SLOT_YAW, False)
      else if (code = ABS_Z \<or> code = ABS_RZ) \<and> code = ABS_RZ then Some (SLOT_THROTTLE, False)
      else if code = ABS_Z then Some (SLOT_SPARE0, False)
      else if code = ABS_THROTTLE then Some (SLOT_THROTTLE, False)
      else if code = ABS_RUDDER then Some (SLOT_YAW, False)
      else if code = ABS_HAT0X then Some (SLOT_LAT_X, False)
      else None)"

definition f32_of_int :: "int \<Rightarrow> f32" where
  "f32_of_int i = f32_of (Finite (i < 0) \<bar>of_int i\<bar>)"

text \<open>The differences wrap at 32 bits.\<close>

definition axis_norm :: "i32 \<times> i32 \<Rightarrow> i32 \<Rightarrow> f32" where
  "axis_norm c value =
     (let span = max (sint (snd c - fst c)) 1 in
      f32_sub (f32_mul (f32_div (f32_of_int (sint (value - fst c))) (f32_of_int span)) (f32_lit 2)) (f32_lit 1))"

definition push_abs :: "u16 \<Rightarrow> i32 \<Rightarrow> evdev_acc \<Rightarrow> (bool \<times> evdev_acc) option" where
  "push_abs code value a =
     (case abs_slot code of
        None \<Rightarrow> Some (False, a)
      | Some (slot, invert) \<Rightarrow>
          do { n \<leftarrow> f32_clamp (axis_norm (ea_calib a ! min slot 7) value) (f32_lit (- 1)) (f32_lit 1);
               Some (True, a\<lparr>ea_axes := (ea_axes a)[slot := (if invert then f32_neg n else n)]\<rparr>) })"

definition push_key :: "u16 \<Rightarrow> bool \<Rightarrow> evdev_acc \<Rightarrow> bool \<times> evdev_acc" where
  "push_key code down a =
     (let b = push_bit (unat code mod 32) 1 in
      (True, a\<lparr>ea_buttons := (if down then ea_buttons a OR b else ea_buttons a AND NOT b)\<rparr>))"

definition push_event :: "evdev_event \<Rightarrow> evdev_acc \<Rightarrow> (bool \<times> evdev_acc) option" where
  "push_event ev a =
     (let a1 = a\<lparr>ea_last_time := (ev_tv_sec ev, ev_tv_usec ev)\<rparr> in
      if ev_kind ev = EV_ABS then push_abs (ev_code ev) (ev_value ev) a1
      else if ev_kind ev = EV_KEY then Some (push_key (ev_code ev) (ev_value ev \<noteq> 0) a1)
      else Some (False, a1))"

definition snapshot :: "evdev_acc \<Rightarrow> controller_report \<Rightarrow> controller_report" where
  "snapshot a out = out\<lparr>cr_axes := ea_axes a, cr_buttons := ea_buttons a,
     cr_timestamp_ns := fst (ea_last_time a) * 1000000000 + snd (ea_last_time a)\<rparr>"

section \<open>The evdev device (linux_evdev.rs)\<close>

definition CAL_CODES :: "u16 list" where
  "CAL_CODES = [ABS_X, ABS_Y, ABS_RX, ABS_THROTTLE, ABS_RUDDER, ABS_HAT0X, ABS_Z, ABS_RZ]"

text \<open>Calibration: \<open>absinfo\<close> is what the kernel answers for an axis code.\<close>

fun calibrate :: "(u16 \<Rightarrow> (i32 \<times> i32) option) \<Rightarrow> nat \<Rightarrow> u16 list \<Rightarrow> evdev_acc \<Rightarrow> evdev_acc" where
  "calibrate absinfo i [] a = a"
| "calibrate absinfo i (c # cs) a =
     calibrate absinfo (Suc i) cs
       (case absinfo c of None \<Rightarrow> a | Some r \<Rightarrow> a\<lparr>ea_calib := (ea_calib a)[min i 7 := r]\<rparr>)"

definition evdev_open :: "(u16 \<Rightarrow> (i32 \<times> i32) option) \<Rightarrow> evdev_acc" where
  "evdev_open absinfo = calibrate absinfo 0 CAL_CODES evdev_default"

text \<open>The events of one read, then reads until one is empty, fails or does not fill the buffer.\<close>

function read_events :: "bytes \<Rightarrow> nat \<Rightarrow> evdev_acc \<Rightarrow> (bool \<times> evdev_acc) option" where
  "read_events buf off a =
     (if off + EVENT_SIZE \<le> length buf then
        (case decode_event buf off of
           None \<Rightarrow> read_events buf (off + EVENT_SIZE) a
         | Some ev \<Rightarrow>
             (case push_event ev a of
                None \<Rightarrow> None
              | Some (b, a') \<Rightarrow> map_option (\<lambda>(g, a''). (b \<or> g, a'')) (read_events buf (off + EVENT_SIZE) a')))
      else Some (False, a))"
  by pat_completeness auto
termination read_events
  by (relation "measure (\<lambda>(buf, off, a). length buf - off)") (auto simp: EVENT_SIZE_def)

declare read_events.simps [simp del]

fun evdev_drain :: "bytes list \<Rightarrow> evdev_acc \<Rightarrow> (bool \<times> evdev_acc) option" where
  "evdev_drain [] a = Some (False, a)"
| "evdev_drain (buf # bufs) a =
     (if buf = [] then Some (False, a)
      else case read_events buf 0 a of
        None \<Rightarrow> None
      | Some (b, a') \<Rightarrow>
          if length buf < 64 * EVENT_SIZE then Some (b, a')
          else map_option (\<lambda>(g, a''). (b \<or> g, a'')) (evdev_drain bufs a'))"

definition evdev_poll :: "bytes list \<Rightarrow> evdev_acc \<Rightarrow> controller_report \<Rightarrow> (bool \<times> evdev_acc \<times> controller_report) option" where
  "evdev_poll reads a out =
     (case evdev_drain reads a of
        None \<Rightarrow> None
      | Some (False, a') \<Rightarrow> Some (False, a', out)
      | Some (True, a') \<Rightarrow> (let out1 = snapshot a' out in Some (True, a', out1\<lparr>cr_seq := cr_seq out1 + 1\<rparr>)))"

section \<open>Haptics (haptics.rs)\<close>

datatype haptic_effect = Rumble f32 f32 u16

definition ALERT :: haptic_effect where "ALERT = Rumble (f32_lit 1) (f32_lit (6 / 10)) 250"
definition WARN :: haptic_effect where "WARN = Rumble (f32_lit (1 / 4)) (f32_lit (1 / 10)) 80"

record mock_haptics =
  mh_log :: "haptic_effect list"
  mh_cap :: nat

definition mock_haptics_new :: "nat \<Rightarrow> mock_haptics" where
  "mock_haptics_new cap = \<lparr>mh_log = [], mh_cap = max cap 1\<rparr>"

definition mock_play :: "haptic_effect \<Rightarrow> mock_haptics \<Rightarrow> mock_haptics" where
  "mock_play ef h = h\<lparr>mh_log := (if length (mh_log h) = mh_cap h then tl (mh_log h) else mh_log h) @ [ef]\<rparr>"

text \<open>A sink is its state; \<open>play\<close> says what an effect does to it, its result is ignored.\<close>

definition haptic_broadcast :: "(haptic_effect \<Rightarrow> 'k \<Rightarrow> 'k) \<Rightarrow> haptic_effect \<Rightarrow> 'k list \<Rightarrow> 'k list" where
  "haptic_broadcast play ef sinks = map (play ef) sinks"

section \<open>The stages (pipeline.rs, ai_source.rs)\<close>

record ('s, 'k) input_stage =
  is_source :: 's
  is_map :: controller_map
  is_ring :: "control_command spsc_ring"
  is_haptics :: "'k list"
  is_scratch :: controller_report

definition input_stage_new :: "'s \<Rightarrow> controller_map \<Rightarrow> control_command spsc_ring \<Rightarrow> ('s, 'k) input_stage" where
  "input_stage_new src m r = \<lparr>is_source = src, is_map = m, is_ring = r, is_haptics = [], is_scratch = report_default\<rparr>"

definition push_or_none :: "control_command \<Rightarrow> control_command spsc_ring \<Rightarrow> control_command option \<times> control_command spsc_ring" where
  "push_or_none cmd r = (case ring_push r cmd of (Inl _, r') \<Rightarrow> (None, r') | (Inr _, r') \<Rightarrow> (Some cmd, r'))"

definition input_tick :: "('s \<Rightarrow> controller_report \<Rightarrow> (bool \<times> 's \<times> controller_report) option) \<Rightarrow> (haptic_effect \<Rightarrow> 'k \<Rightarrow> 'k) \<Rightarrow> u64 \<Rightarrow>
    ('s, 'k) input_stage \<Rightarrow> (control_command option \<times> ('s, 'k) input_stage) option" where
  "input_tick poll play now st =
     (case poll (is_source st) (is_scratch st) of
        None \<Rightarrow> None
      | Some (False, src, rep) \<Rightarrow> Some (None, st\<lparr>is_source := src, is_scratch := rep\<rparr>)
      | Some (True, src, rep) \<Rightarrow>
          (let cmd = (clear_ai_origin (command_zeroed FullTeleop))\<lparr>cmd_timestamp_ns := now\<rparr> in
           case map_apply (is_map st) rep cmd of
             None \<Rightarrow> None
           | Some cmd' \<Rightarrow>
               let hs = (if cmd_flags cmd' AND 2 \<noteq> 0 then haptic_broadcast play WARN (is_haptics st) else is_haptics st);
                   pr = push_or_none cmd' (is_ring st)
               in Some (fst pr, st\<lparr>is_source := src, is_scratch := rep, is_haptics := hs, is_ring := snd pr\<rparr>)))"

datatype origin = Human | Ai

definition flag_bits :: "origin \<Rightarrow> u8" where
  "flag_bits o' = (case o' of Human \<Rightarrow> 0 | Ai \<Rightarrow> FLAG_AI_ORIGIN)"

text \<open>A source made from a generator of commands, which may keep a state of its own.\<close>

definition ai_next_command :: "('g \<Rightarrow> u64 \<Rightarrow> control_command \<times> 'g) \<Rightarrow> u64 \<Rightarrow> 'g \<Rightarrow> control_command option \<times> 'g" where
  "ai_next_command gen now g = (case gen g now of (cmd, g') \<Rightarrow> (Some (set_ai_origin cmd), g'))"

record 's command_stage =
  cs_source :: 's
  cs_ring :: "control_command spsc_ring"

definition command_tick :: "(u64 \<Rightarrow> 's \<Rightarrow> control_command option \<times> 's) \<Rightarrow> u64 \<Rightarrow> 's command_stage \<Rightarrow> control_command option \<times> 's command_stage" where
  "command_tick next_command now st =
     (case next_command now (cs_source st) of
        (None, s) \<Rightarrow> (None, st\<lparr>cs_source := s\<rparr>)
      | (Some cmd, s) \<Rightarrow>
          (let pr = push_or_none (cmd\<lparr>cmd_timestamp_ns := now\<rparr>) (cs_ring st)
           in (fst pr, st\<lparr>cs_source := s, cs_ring := snd pr\<rparr>)))"

section \<open>Operators (copilot.rs)\<close>

definition MAX_OPERATORS :: nat where "MAX_OPERATORS = 2"

record copilot_hub =
  ch_last_seen :: "u64 list"
  ch_released :: "bool list"
  ch_timeout_ns :: u64

definition hub_new :: "u64 \<Rightarrow> copilot_hub" where
  "hub_new timeout = \<lparr>ch_last_seen = replicate MAX_OPERATORS 0, ch_released = replicate MAX_OPERATORS True, ch_timeout_ns = timeout\<rparr>"

definition heartbeat :: "nat \<Rightarrow> u64 \<Rightarrow> copilot_hub \<Rightarrow> copilot_hub" where
  "heartbeat oid now h =
     (if MAX_OPERATORS \<le> oid then h
      else h\<lparr>ch_last_seen := (ch_last_seen h)[oid := now], ch_released := (ch_released h)[oid := False]\<rparr>)"

definition hub_release :: "nat \<Rightarrow> copilot_hub \<Rightarrow> copilot_hub" where
  "hub_release oid h = (if oid < MAX_OPERATORS then h\<lparr>ch_released := (ch_released h)[oid := True]\<rparr> else h)"

definition live :: "copilot_hub \<Rightarrow> nat \<Rightarrow> u64 \<Rightarrow> bool" where
  "live h oid now \<longleftrightarrow> \<not> ch_released h ! oid \<and> saturating_sub now (ch_last_seen h ! oid) \<le> ch_timeout_ns h"

definition effective_operator :: "copilot_hub \<Rightarrow> u64 \<Rightarrow> nat option" where
  "effective_operator h now = find (\<lambda>oid. live h oid now) [0..<MAX_OPERATORS]"

definition authority_for :: "copilot_hub \<Rightarrow> nat \<Rightarrow> u64 \<Rightarrow> f32" where
  "authority_for h oid now = (if effective_operator h now = Some oid then f32_lit 1 else 0)"

section \<open>Floats of magnitude at most one\<close>

lemma mag_val_consts:
  "mag_val 23 8 0x3F800000 = 1" "mag_val 23 8 0x3F7FFFFF = 1 - 1 / 2 ^ 24" "mag_val 23 8 0x33800000 = 1 / 2 ^ 24"
  "mag_val 23 8 0x4F000000 = 2 ^ 31" "mag_val 23 8 0x3F000000 = 1 / 2" "mag_val 23 8 0x40000000 = 2"
  by (simp_all add: mag_val_def two_pow_def e_min_def Let_def)

lemma mag_bits_consts:
  "mag_bits 23 8 1 = 0x3F800000" "mag_bits 23 8 (1 / 2 ^ 24) = 0x33800000" "mag_bits 23 8 (2 ^ 31) = 0x4F000000"
  "mag_bits 23 8 (1 / 2) = 0x3F000000" "mag_bits 23 8 2 = 0x40000000"
  using mag_bits_of_val [of 23 8 "0x3F800000"] mag_bits_of_val [of 23 8 "0x33800000"] mag_bits_of_val [of 23 8 "0x4F000000"]
    mag_bits_of_val [of 23 8 "0x3F000000"] mag_bits_of_val [of 23 8 "0x40000000"]
  unfolding mag_val_consts by simp_all

text \<open>The rounding of a magnitude to single precision, below the overflow threshold.\<close>

definition rmag :: "rat \<Rightarrow> rat" where
  "rmag q = mag_val 23 8 (mag_bits 23 8 q)"

lemma rmag_mono: "0 \<le> p \<Longrightarrow> p \<le> q \<Longrightarrow> rmag p \<le> rmag q"
  unfolding rmag_def by (intro mag_val_mono mag_bits_mono)

lemma rmag_nonneg: "0 \<le> rmag q"
  by (simp add: rmag_def mag_val_nonneg)

lemma rmag_consts: "rmag 1 = 1" "rmag (1 / 2 ^ 24) = 1 / 2 ^ 24"
  unfolding rmag_def mag_bits_consts mag_val_consts by simp_all

lemma rnd_rmag:
  assumes "0 \<le> q" and "q \<le> 2 ^ 31"
  shows "rnd 23 8 (Finite s q) = Finite s (rmag q)"
proof -
  have "mag_bits 23 8 q \<le> 0x4F000000" using mag_bits_mono [of q "2 ^ 31" 23 8] assms unfolding mag_bits_consts by simp
  then show ?thesis by (simp add: rnd_simps rmag_def)
qed

lemma rmag_unit: "0 \<le> q \<Longrightarrow> q \<le> 1 \<Longrightarrow> rmag q \<le> 1"
  using rmag_mono [of q 1] rmag_consts(1) by simp

lemma f32_lit_vals:
  "f32_val (f32_lit 1) = Finite False 1" "f32_val (f32_lit (- 1)) = Finite True 1" "f32_val (f32_lit (1 / 2)) = Finite False (1 / 2)"
  "f32_val (f32_lit 2) = Finite False 2"
  by (simp_all add: f32_lit_def f32_val_of rnd_simps mag_bits_consts mag_val_consts)

definition in_unit :: "f32 \<Rightarrow> bool" where
  "in_unit v \<longleftrightarrow> f32_le (f32_lit (- 1)) v \<and> f32_le v (f32_lit 1)"

lemma in_unit_iff: "in_unit v \<longleftrightarrow> (\<exists>s q. f32_val v = Finite s q \<and> 0 \<le> q \<and> q \<le> 1)"
proof (cases "f32_val v")
  case (Finite s q)
  then have "0 \<le> q" using f32_val_wf [of v] by (simp add: fv_wf_def)
  then show ?thesis using Finite by (auto simp: in_unit_def f32_le_def f32_lit_vals fv_le_finite sgn_val_def)
qed (auto simp: in_unit_def f32_le_def f32_lit_vals fv_le_def)

lemma in_unit_zero: "in_unit 0"
  unfolding in_unit_iff by auto

lemma in_unit_neg: "in_unit v \<Longrightarrow> in_unit (f32_neg v)"
  unfolding in_unit_iff f32_val_neg by auto

lemma unit_clamp_some: "\<exists>y. f32_clamp x (f32_lit (- 1)) (f32_lit 1) = Some y"
  using f32_clamp_some [of x "f32_lit (- 1)" "f32_lit 1"] f32_lit_mono [of "- 1" 1] by auto

lemma unit_clamp: "f32_clamp x (f32_lit (- 1)) (f32_lit 1) = Some y \<Longrightarrow> \<not> f32_is_nan x \<Longrightarrow> in_unit y"
  using f32_clamp_bounds [of x _ _ y] by (simp add: in_unit_def)

lemma in_unit_not_nan: "in_unit v \<Longrightarrow> \<not> f32_is_nan v"
  by (auto simp: in_unit_iff f32_is_nan_def)

lemma f32_val_sign: "f32_val v = Finite s q \<Longrightarrow> bit v 31 = s"
  by (auto simp: f32_val_alt Let_def split: if_splits)

lemma f32_val_abs: "f32_val v = Finite s q \<Longrightarrow> f32_val (f32_abs v) = Finite False q"
proof -
  assume v: "f32_val v = Finite s q"
  have "(NOT (push_bit 31 1) :: u32) = mask 31" by (simp add: mask_eq_exp_minus_1)
  then have "f32_abs v = take_bit 31 v" by (simp add: f32_abs_def take_bit_eq_mask)
  then have b: "bit (f32_abs v) 31 = False" "take_bit 31 (f32_abs v) = take_bit 31 v" by (simp_all add: bit_take_bit_iff)
  show ?thesis using v unfolding f32_val_alt b Let_def by (auto split: if_splits)
qed

text \<open>The largest single-precision number below one.\<close>

lemma below_one: "f32_val z = Finite False q \<Longrightarrow> q < 1 \<Longrightarrow> q \<le> 1 - 1 / 2 ^ 24"
proof -
  assume z: "f32_val z = Finite False q" and q: "q < 1"
  then obtain a where a: "q = mag_val 23 8 a" by (auto simp: f32_val_def fl_val_def Let_def split: if_splits)
  have "a \<le> 0x3F7FFFFF"
  proof (rule ccontr)
    assume "\<not> a \<le> 0x3F7FFFFF"
    then have "mag_val 23 8 0x3F800000 \<le> q" unfolding a by (intro mag_val_mono) simp
    then show False using q by (simp add: mag_val_consts)
  qed
  then show ?thesis unfolding a mag_val_consts(2) [symmetric] by (rule mag_val_mono)
qed

lemma sign_mul_val: "f32_val a = Finite s 1 \<Longrightarrow> f32_val b = Finite t q \<Longrightarrow> f32_val (f32_mul a b) = Finite (s \<noteq> t) q"
proof -
  assume a: "f32_val a = Finite s 1" and b: "f32_val b = Finite t q"
  have "rnd 23 8 (Finite t q) = Finite t q" using f32_val_rnd [of b] b by simp
  then have "rnd 23 8 (Finite (s \<noteq> t) q) = Finite (s \<noteq> t) q" by (auto simp: rnd_simps split: if_splits)
  then show ?thesis using a b by (simp add: f32_mul_def f32_val_of)
qed

lemma sign_mul_val': "f32_val b = Finite s 1 \<Longrightarrow> f32_val a = Finite t q \<Longrightarrow> f32_val (f32_mul a b) = Finite (t \<noteq> s) q"
proof -
  assume b: "f32_val b = Finite s 1" and a: "f32_val a = Finite t q"
  have "rnd 23 8 (Finite t q) = Finite t q" using f32_val_rnd [of a] a by simp
  then have "rnd 23 8 (Finite (t \<noteq> s) q) = Finite (t \<noteq> s) q" by (auto simp: rnd_simps split: if_splits)
  then show ?thesis using a b by (simp add: f32_mul_def f32_val_of)
qed

section \<open>The mapping keeps the range\<close>

definition zone_ok :: "f32 \<Rightarrow> bool" where
  "zone_ok z \<longleftrightarrow> f32_lt 0 z \<and> f32_lt z (f32_lit 1)"

lemma dz_in_unit:
  assumes "in_unit v" and "zone_ok z"
  shows "in_unit (dz v z)"
proof (cases "f32_le z 0 \<or> f32_le (f32_abs v) z")
  case True
  then show ?thesis by (simp add: dz_def in_unit_zero)
next
  case False
  obtain s a where v: "f32_val v = Finite s a" "0 \<le> a" "a \<le> 1" using assms(1) by (auto simp: in_unit_iff)
  obtain b where z: "f32_val z = Finite False b" "0 < b" "b < 1"
    using assms(2) f32_val_wf [of z]
    by (cases "f32_val z") (auto simp: zone_ok_def f32_lt_def f32_lit_vals sgn_val_def fv_wf_def split: if_splits)
  have ab: "b < a" using False v z by (auto simp: f32_le_def f32_val_abs [OF v(1)] fv_le_finite sgn_val_def)
  have b24: "b \<le> 1 - 1 / 2 ^ 24" by (rule below_one [OF z(1,3)])
  have "f32_val (f32_signum v) = Finite s 1"
    using v(1) f32_val_sign [OF v(1)] by (cases s) (simp_all add: f32_signum_def f32_is_nan_def f32_lit_vals)
  from sign_mul_val [OF this z(1)] have m: "f32_val (f32_mul (f32_signum v) z) = Finite s b" by simp
  have "f32_val (f32_sub v (f32_mul (f32_signum v) z)) = rnd 23 8 (Finite s (a - b))"
    using ab by (cases s) (simp_all add: f32_sub_def f32_val_of v(1) m fv_sub_def sgn_val_def Let_def)
  also have "\<dots> = Finite s (rmag (a - b))" using ab v(3) z(2) by (intro rnd_rmag) simp_all
  finally have n: "f32_val (f32_sub v (f32_mul (f32_signum v) z)) = Finite s (rmag (a - b))" .
  have "f32_val (f32_sub (f32_lit 1) z) = rnd 23 8 (Finite False (1 - b))"
    using z(3) by (simp add: f32_sub_def f32_val_of f32_lit_vals z(1) fv_sub_def sgn_val_def Let_def)
  also have "\<dots> = Finite False (rmag (1 - b))" using z(2,3) by (intro rnd_rmag) simp_all
  finally have d: "f32_val (f32_sub (f32_lit 1) z) = Finite False (rmag (1 - b))" .
  have "rmag (1 / 2 ^ 24) \<le> rmag (1 - b)" using b24 by (intro rmag_mono) simp_all
  then have dpos: "0 < rmag (1 - b)" unfolding rmag_consts(2) by (rule less_le_trans [rotated]) simp
  have le: "rmag (a - b) \<le> rmag (1 - b)" using ab v(3) by (intro rmag_mono) simp_all
  let ?q = "rmag (a - b) / rmag (1 - b)"
  have q: "0 \<le> ?q" "?q \<le> 1" using dpos le rmag_nonneg by simp_all
  have "f32_val (dz v z) = rnd 23 8 (Finite s ?q)"
    using False dpos by (simp add: dz_def f32_div_def f32_val_of n d)
  also have "\<dots> = Finite s (rmag ?q)" using q by (intro rnd_rmag) simp_all
  finally show ?thesis unfolding in_unit_iff using rmag_unit [OF q] rmag_nonneg by blast
qed

lemma shaped_axis_in_unit:
  assumes "list_all in_unit (cr_axes r)" and "zone_ok (cm_deadzone m)"
  shows "\<exists>y. shaped_axis m r i flip = Some y \<and> in_unit y"
proof -
  have raw: "in_unit (raw_axis r i)" using assms(1) by (auto simp: raw_axis_def list_all_length in_unit_zero)
  obtain v where v: "f32_clamp (raw_axis r i) (f32_lit (- 1)) (f32_lit 1) = Some v" using unit_clamp_some by blast
  have "in_unit (dz v (cm_deadzone m))" using dz_in_unit [OF unit_clamp [OF v in_unit_not_nan [OF raw]] assms(2)] .
  then obtain s q where q: "f32_val (dz v (cm_deadzone m)) = Finite s q" "0 \<le> q" "q \<le> 1" by (auto simp: in_unit_iff)
  have "in_unit (f32_mul (dz v (cm_deadzone m)) (if flip then f32_lit (- 1) else f32_lit 1))"
    unfolding in_unit_iff using sign_mul_val' [OF _ q(1)] q(2,3) f32_lit_vals(1,2) by (cases flip) auto
  then show ?thesis using v by (simp add: shaped_axis_def)
qed

definition command_in_range :: "control_command \<Rightarrow> bool" where
  "command_in_range c \<longleftrightarrow> length (cmd_axes c) = 6 \<and> in_unit (axis_of c ROLL) \<and> in_unit (axis_of c PITCH) \<and> in_unit (axis_of c YAW) \<and>
     f32_le 0 (axis_of c THROTTLE) \<and> f32_le (axis_of c THROTTLE) (f32_lit 1)"

lemma throttle_some:
  assumes "in_unit thr"
  shows "\<exists>t. f32_clamp (f32_add (f32_mul thr (f32_lit (1 / 2))) (f32_lit (1 / 2))) 0 (f32_lit 1) = Some t \<and> f32_le 0 t \<and> f32_le t (f32_lit 1)"
proof -
  obtain s q where q: "f32_val thr = Finite s q" "0 \<le> q" "q \<le> 1" using assms by (auto simp: in_unit_iff)
  have "f32_val (f32_mul thr (f32_lit (1 / 2))) = Finite s (rmag (q * (1 / 2)))"
    using q rnd_rmag [of "q * (1 / 2)" s] by (simp add: f32_mul_def f32_val_of f32_lit_vals)
  then have "\<not> f32_is_nan (f32_add (f32_mul thr (f32_lit (1 / 2))) (f32_lit (1 / 2)))"
    by (simp add: f32_is_nan_def f32_add_def f32_val_of f32_lit_vals Let_def rnd_simps)
  moreover obtain t where "f32_clamp (f32_add (f32_mul thr (f32_lit (1 / 2))) (f32_lit (1 / 2))) 0 (f32_lit 1) = Some t"
    using f32_clamp_some [of _ 0 "f32_lit 1"] f32_lit_mono [of 0 1] by fastforce
  ultimately show ?thesis using f32_clamp_bounds by blast
qed

lemma map_apply_in_range:
  assumes "list_all in_unit (cr_axes r)" and "zone_ok (cm_deadzone m)" and "length (cmd_axes c) = 6"
  shows "\<exists>c'. map_apply m r c = Some c' \<and> command_in_range c' \<and> c' = c\<lparr>cmd_axes := cmd_axes c'\<rparr>"
proof -
  obtain a b y where s: "shaped_axis m r (cm_roll_slot m) (cm_invert_roll m) = Some a" "in_unit a"
      "shaped_axis m r (cm_pitch_slot m) (cm_invert_pitch m) = Some b" "in_unit b"
      "shaped_axis m r (cm_yaw_slot m) (cm_invert_yaw m) = Some y" "in_unit y"
    using shaped_axis_in_unit [OF assms(1,2)] by metis
  have raw: "in_unit (raw_axis r (cm_throttle_slot m))" using assms(1) by (auto simp: raw_axis_def list_all_length in_unit_zero)
  obtain thr where thr: "f32_clamp (raw_axis r (cm_throttle_slot m)) (f32_lit (- 1)) (f32_lit 1) = Some thr" using unit_clamp_some by blast
  obtain t where t: "f32_clamp (f32_add (f32_mul thr (f32_lit (1 / 2))) (f32_lit (1 / 2))) 0 (f32_lit 1) = Some t" "f32_le 0 t" "f32_le t (f32_lit 1)"
    using throttle_some [OF unit_clamp [OF thr in_unit_not_nan [OF raw]]] by blast
  let ?c = "set_axis THROTTLE t (set_axis YAW y (set_axis PITCH b (set_axis ROLL a c)))"
  have "map_apply m r c = Some ?c" using s thr t by (simp add: map_apply_def Let_def)
  moreover have "command_in_range ?c" using s t assms(3) by (simp add: command_in_range_def axis_set_axis axis_defs)
  ultimately show ?thesis by (simp add: set_axis_def)
qed

lemma map_apply_returns:
  assumes "list_all in_unit (cr_axes r)"
  shows "\<exists>c'. map_apply m r c = Some c'"
proof -
  have sh: "\<exists>y. shaped_axis m r i flip = Some y" for i flip
    using unit_clamp_some [of "raw_axis r i"] by (auto simp: shaped_axis_def)
  obtain a b y where s: "shaped_axis m r (cm_roll_slot m) (cm_invert_roll m) = Some a"
      "shaped_axis m r (cm_pitch_slot m) (cm_invert_pitch m) = Some b" "shaped_axis m r (cm_yaw_slot m) (cm_invert_yaw m) = Some y"
    using sh by metis
  have raw: "in_unit (raw_axis r (cm_throttle_slot m))" using assms by (auto simp: raw_axis_def list_all_length in_unit_zero)
  obtain thr where thr: "f32_clamp (raw_axis r (cm_throttle_slot m)) (f32_lit (- 1)) (f32_lit 1) = Some thr" using unit_clamp_some by blast
  show ?thesis using s thr throttle_some [OF unit_clamp [OF thr in_unit_not_nan [OF raw]]] by (auto simp: map_apply_def Let_def)
qed

section \<open>The device keeps the range\<close>

lemma f32_of_int_val:
  assumes "\<bar>i\<bar> \<le> 2 ^ 31"
  shows "f32_val (f32_of_int i) = Finite (i < 0) (rmag \<bar>of_int i\<bar>)"
proof -
  have "\<bar>of_int i :: rat\<bar> \<le> 2 ^ 31" using assms by (metis of_int_abs of_int_le_iff of_int_numeral of_int_power)
  then show ?thesis by (simp add: f32_of_int_def f32_val_of rnd_rmag)
qed

lemma axis_norm_not_nan: "\<not> f32_is_nan (axis_norm c v)"
proof -
  have b: "\<bar>sint w\<bar> \<le> 2 ^ 31" for w :: i32 using sint_greater_eq [of w] sint_less [of w] by simp
  let ?span = "max (sint (snd c - fst c)) 1"
  have sp: "\<bar>?span\<bar> \<le> 2 ^ 31" "1 \<le> ?span" using b [of "snd c - fst c"] by auto
  have "rmag 1 \<le> rmag \<bar>of_int ?span\<bar>" using sp(2) by (intro rmag_mono) simp_all
  then have pos: "rmag \<bar>of_int ?span\<bar> \<noteq> 0" by (simp add: rmag_consts)
  let ?d = "f32_div (f32_of_int (sint (v - fst c))) (f32_of_int ?span)"
  have "f32_val ?d = rnd 23 8 (Finite ((sint (v - fst c) < 0) \<noteq> (?span < 0)) (rmag \<bar>of_int (sint (v - fst c))\<bar> / rmag \<bar>of_int ?span\<bar>))"
    using pos by (simp add: f32_div_def f32_val_of f32_of_int_val [OF b] f32_of_int_val [OF sp(1)])
  then have "f32_val ?d \<noteq> NaN" by (simp add: rnd_simps)
  then have "f32_val (f32_mul ?d (f32_lit 2)) \<noteq> NaN"
    by (cases "f32_val ?d") (auto simp: f32_mul_def f32_val_of f32_lit_vals rnd_simps)
  then have "f32_val (f32_sub (f32_mul ?d (f32_lit 2)) (f32_lit 1)) \<noteq> NaN"
    by (cases "f32_val (f32_mul ?d (f32_lit 2))") (auto simp: f32_sub_def f32_val_of f32_lit_vals fv_sub_def rnd_simps Let_def)
  then show ?thesis by (simp add: axis_norm_def f32_is_nan_def Let_def)
qed

definition acc_ok :: "evdev_acc \<Rightarrow> bool" where
  "acc_ok a \<longleftrightarrow> list_all in_unit (ea_axes a)"

lemma list_all_update: "list_all P xs \<Longrightarrow> P x \<Longrightarrow> list_all P (xs[i := x])"
  by (auto simp: list_all_iff dest: set_update_subset_insert [THEN subsetD])

lemma push_abs_ok: "acc_ok a \<Longrightarrow> \<exists>b a'. push_abs code v a = Some (b, a') \<and> acc_ok a'"
proof (cases "abs_slot code")
  case (Some si)
  assume ok: "acc_ok a"
  obtain slot flip where si: "si = (slot, flip)" by fastforce
  obtain n where n: "f32_clamp (axis_norm (ea_calib a ! min slot 7) v) (f32_lit (- 1)) (f32_lit 1) = Some n" using unit_clamp_some by blast
  have "in_unit n" by (rule unit_clamp [OF n axis_norm_not_nan])
  then show ?thesis using ok Some si n by (auto simp: push_abs_def acc_ok_def intro: list_all_update in_unit_neg)
qed (auto simp: push_abs_def)

lemma push_event_ok: "acc_ok a \<Longrightarrow> \<exists>b a'. push_event ev a = Some (b, a') \<and> acc_ok a'"
  using push_abs_ok [of "a\<lparr>ea_last_time := (ev_tv_sec ev, ev_tv_usec ev)\<rparr>"]
  by (auto simp: push_event_def push_key_def acc_ok_def Let_def)

lemma read_events_ok: "acc_ok a \<Longrightarrow> \<exists>b a'. read_events buf off a = Some (b, a') \<and> acc_ok a'"
proof (induction buf off a rule: read_events.induct)
  case (1 buf off a)
  show ?case
  proof (cases "off + EVENT_SIZE \<le> length buf")
    case True
    then obtain ev where ev: "decode_event buf off = Some ev" by (simp add: decode_event_def)
    obtain b a' where p: "push_event ev a = Some (b, a')" "acc_ok a'" using push_event_ok [OF "1.prems"] by blast
    then show ?thesis using True ev "1.IH"(2) [OF True ev p(1) refl p(2)] by (subst read_events.simps) auto
  qed (use "1.prems" in \<open>auto simp: read_events.simps\<close>)
qed

lemma evdev_drain_ok: "acc_ok a \<Longrightarrow> \<exists>b a'. evdev_drain bufs a = Some (b, a') \<and> acc_ok a'"
proof (induction bufs arbitrary: a)
  case (Cons buf bufs)
  obtain b a' where "read_events buf 0 a = Some (b, a')" "acc_ok a'" using read_events_ok [OF Cons.prems] by blast
  then show ?case using Cons.IH [of a'] Cons.prems by auto
qed auto

lemma evdev_poll_ok:
  assumes "acc_ok a" and "list_all in_unit (cr_axes r)"
  shows "\<exists>b a' r'. evdev_poll bufs a r = Some (b, a', r') \<and> acc_ok a' \<and> list_all in_unit (cr_axes r')"
proof -
  obtain b a' where "evdev_drain bufs a = Some (b, a')" "acc_ok a'" using evdev_drain_ok [OF assms(1)] by blast
  then show ?thesis using assms(2) by (cases b) (auto simp: evdev_poll_def snapshot_def acc_ok_def Let_def)
qed

lemma calibrate_nth:
  "length (ea_calib a) = 8 \<Longrightarrow> i + length cs \<le> 8 \<Longrightarrow> ea_calib (calibrate absinfo i cs a) ! j =
    (if i \<le> j \<and> j < i + length cs then (case absinfo (cs ! (j - i)) of None \<Rightarrow> ea_calib a ! j | Some r \<Rightarrow> r) else ea_calib a ! j)"
proof (induction absinfo i cs a rule: calibrate.induct)
  case (2 absinfo i c cs a)
  show ?case
  proof (cases "j = i")
    case True
    then show ?thesis using 2 by (auto simp: min_def split: option.splits)
  next
    case False
    then have "i \<le> j \<Longrightarrow> (c # cs) ! (j - i) = cs ! (j - Suc i)" by (auto simp: nth_Cons')
    then show ?thesis using 2 False by (auto simp: min_def split: option.splits)
  qed
qed auto

lemma calibrate_axes: "ea_axes (calibrate absinfo i cs a) = ea_axes a"
  by (induction absinfo i cs a rule: calibrate.induct) (auto split: option.splits)

lemma evdev_open_ok: "acc_ok (evdev_open absinfo)"
  by (simp add: acc_ok_def evdev_open_def calibrate_axes evdev_default_def in_unit_zero list_all_iff)

section \<open>Runs of the stage\<close>

text \<open>The input thread: one tick per period, with what the reads of the device return and the clock.\<close>

fun input_run :: "(haptic_effect \<Rightarrow> 'k \<Rightarrow> 'k) \<Rightarrow> (bytes list \<times> u64) list \<Rightarrow> (evdev_acc, 'k) input_stage \<Rightarrow>
    (control_command list \<times> (evdev_acc, 'k) input_stage) option" where
  "input_run play [] st = Some ([], st)"
| "input_run play ((reads, now) # xs) st =
     (case input_tick (evdev_poll reads) play now st of
        None \<Rightarrow> None
      | Some (None, st') \<Rightarrow> input_run play xs st'
      | Some (Some cmd, st') \<Rightarrow> map_option (\<lambda>(cs, s). (cmd # cs, s)) (input_run play xs st'))"

definition stage_ok :: "(evdev_acc, 'k) input_stage \<Rightarrow> bool" where
  "stage_ok st \<longleftrightarrow> acc_ok (is_source st) \<and> list_all in_unit (cr_axes (is_scratch st)) \<and> zone_ok (cm_deadzone (is_map st))"

definition human_command :: "u64 \<Rightarrow> control_command \<Rightarrow> bool" where
  "human_command now c \<longleftrightarrow> \<not> is_ai_origin c \<and> command_mode c = Some FullTeleop \<and> cmd_timestamp_ns c = now"

lemma fresh_command_human: "human_command now ((clear_ai_origin (command_zeroed FullTeleop))\<lparr>cmd_timestamp_ns := now, cmd_axes := xs\<rparr>)"
  by (simp add: human_command_def is_ai_origin_def clear_ai_origin_def command_mode_def command_zeroed_def FLAG_AI_ORIGIN_def from_u8_def)

lemma push_or_none_res: "fst (push_or_none c r) = Some c' \<Longrightarrow> c' = c"
  by (auto simp: push_or_none_def split: sum.splits prod.splits)

lemma input_tick_ok:
  assumes "stage_ok st"
  shows "\<exists>res st'. input_tick (evdev_poll reads) play now st = Some (res, st') \<and> stage_ok st' \<and> is_haptics st' = is_haptics st \<and>
    (case res of None \<Rightarrow> True | Some c \<Rightarrow> command_in_range c \<and> human_command now c)"
proof -
  obtain b a r where p: "evdev_poll reads (is_source st) (is_scratch st) = Some (b, a, r)" "acc_ok a" "list_all in_unit (cr_axes r)"
    using evdev_poll_ok assms by (metis stage_ok_def)
  let ?c = "(clear_ai_origin (command_zeroed FullTeleop))\<lparr>cmd_timestamp_ns := now\<rparr>"
  show ?thesis
  proof (cases b)
    case True
    have "length (cmd_axes ?c) = 6" by (simp add: clear_ai_origin_def command_zeroed_def)
    then obtain c' where c': "map_apply (is_map st) r ?c = Some c'" "command_in_range c'" "c' = ?c\<lparr>cmd_axes := cmd_axes c'\<rparr>"
      using map_apply_in_range [OF p(3)] assms by (metis stage_ok_def)
    have h: "human_command now c'" by (subst c'(3)) (rule fresh_command_human)
    then have "cmd_flags c' AND 2 = 0" by (simp add: human_command_def is_ai_origin_def FLAG_AI_ORIGIN_def)
    then show ?thesis using True p c'(1,2) h assms push_or_none_res [of c' "is_ring st"]
      by (auto simp: input_tick_def stage_ok_def Let_def split: option.splits)
  qed (use p assms in \<open>simp add: input_tick_def stage_ok_def\<close>)
qed

lemma input_run_ok:
  "stage_ok st \<Longrightarrow> \<exists>cs st'. input_run play xs st = Some (cs, st') \<and> stage_ok st' \<and> is_haptics st' = is_haptics st \<and> list_all command_in_range cs \<and>
    list_all (\<lambda>c. \<not> is_ai_origin c \<and> command_mode c = Some FullTeleop) cs"
proof (induction xs arbitrary: st)
  case (Cons x xs)
  obtain reads now where x: "x = (reads, now)" by fastforce
  obtain res st1 where t: "input_tick (evdev_poll reads) play now st = Some (res, st1)" "stage_ok st1" "is_haptics st1 = is_haptics st"
      "case res of None \<Rightarrow> True | Some c \<Rightarrow> command_in_range c \<and> human_command now c"
    using input_tick_ok [OF Cons.prems] by blast
  then show ?case using Cons.IH [OF t(2)] x by (cases res) (auto simp: human_command_def)
qed simp

section \<open>Properties\<close>

text \<open>C32. Commands in range: whatever bytes the device returns and however its axes are calibrated, the input
  stage never panics, and every command it produces has roll, pitch and yaw between -1 and 1 and a
  throttle between 0 and 1, is in teleoperation mode and is not tagged as authored by an AI; bit-exactly,
  for every deadzone between 0 and 1.\<close>

theorem input_commands_in_range:
  assumes "f32_lt 0 (cm_deadzone m)" and "f32_lt (cm_deadzone m) (f32_lit 1)"
  shows "\<exists>cs st. input_run play xs (input_stage_new (evdev_open absinfo) m r) = Some (cs, st) \<and>
    list_all (\<lambda>c. in_unit (axis_of c ROLL) \<and> in_unit (axis_of c PITCH) \<and> in_unit (axis_of c YAW) \<and>
      f32_le 0 (axis_of c THROTTLE) \<and> f32_le (axis_of c THROTTLE) (f32_lit 1) \<and> \<not> is_ai_origin c \<and> command_mode c = Some FullTeleop) cs"
proof -
  have "stage_ok (input_stage_new (evdev_open absinfo) m r)"
    using assms evdev_open_ok by (simp add: stage_ok_def input_stage_new_def zone_ok_def report_default_def in_unit_zero list_all_iff)
  from input_run_ok [OF this, of play xs] show ?thesis by (auto simp: list_all_iff command_in_range_def)
qed

theorem input_commands_in_range_witness:
  "\<exists>cs st. input_run (\<lambda>_ k. k :: unit) [([replicate 24 3], 5)]
     (input_stage_new (evdev_open (\<lambda>_. None)) (controller_map_default\<lparr>cm_deadzone := f32_lit (1 / 2)\<rparr>) (with_capacity 4)) = Some (cs, st)"
proof -
  have "f32_lt 0 (f32_lit (1 / 2))" "f32_lt (f32_lit (1 / 2)) (f32_lit 1)" by (simp_all add: f32_lt_def f32_lit_vals sgn_val_def)
  then show ?thesis using input_commands_in_range [of "controller_map_default\<lparr>cm_deadzone := f32_lit (1 / 2)\<rparr>"] by fastforce
qed

text \<open>No feedback: the stage checks the feedback bit on the command it has just built, where that bit is the
  AI tag it cleared itself, so no tick ever plays a haptic effect.\<close>

theorem input_haptics_never_played:
  assumes "f32_lt 0 (cm_deadzone (is_map st))" and "f32_lt (cm_deadzone (is_map st)) (f32_lit 1)" and "acc_ok (is_source st)"
    and "list_all in_unit (cr_axes (is_scratch st))"
  shows "\<exists>res st'. input_tick (evdev_poll reads) play now st = Some (res, st') \<and> is_haptics st' = is_haptics st"
proof -
  have "stage_ok st" using assms by (simp add: stage_ok_def zone_ok_def)
  from input_tick_ok [OF this] show ?thesis by blast
qed

text \<open>Deadzone zero: a deadzone of zero or less, meant to pass every deflection, maps every roll, pitch and
  yaw to zero.\<close>

theorem deadzone_zero_kills_axes:
  assumes "f32_le (cm_deadzone m) 0" and "map_apply m r c = Some c'" and "length (cmd_axes c) = 6"
  shows "f32_eq (axis_of c' ROLL) 0 \<and> f32_eq (axis_of c' PITCH) 0 \<and> f32_eq (axis_of c' YAW) 0"
proof -
  have "f32_eq y 0" if y: "shaped_axis m r i flip = Some y" for i flip y
  proof -
    have "y = f32_mul 0 (if flip then f32_lit (- 1) else f32_lit 1)"
      using y assms(1) by (auto simp: shaped_axis_def dz_def bind_eq_Some_conv split: if_splits)
    moreover have "f32_val (f32_mul 0 (if flip then f32_lit (- 1) else f32_lit 1)) = Finite flip 0"
      using sign_mul_val' [of _ flip 0 False 0] f32_lit_vals by (cases flip) auto
    ultimately show ?thesis by (simp add: f32_eq_def sgn_val_def)
  qed
  then show ?thesis using assms(2,3)
    by (auto simp: map_apply_def bind_eq_Some_conv Let_def axis_set_axis axis_defs)
qed

theorem deadzone_zero_kills_axes_witness:
  "\<exists>c'. map_apply (controller_map_default\<lparr>cm_deadzone := 0\<rparr>) (report_default\<lparr>cr_axes := replicate 8 (f32_lit 1)\<rparr>) (command_zeroed Auto) = Some c' \<and>
    f32_eq (axis_of c' ROLL) 0"
proof -
  let ?m = "controller_map_default\<lparr>cm_deadzone := 0\<rparr>" and ?r = "report_default\<lparr>cr_axes := replicate 8 (f32_lit 1)\<rparr>"
  have z: "f32_le (cm_deadzone ?m) 0" by (simp add: f32_le_def fv_le_finite)
  have l: "length (cmd_axes (command_zeroed Auto)) = 6" by (simp add: command_zeroed_def)
  have "list_all in_unit (cr_axes ?r)" by (auto simp: in_unit_iff f32_lit_vals list_all_iff)
  then obtain c' where "map_apply ?m ?r (command_zeroed Auto) = Some c'" using map_apply_returns by blast
  then show ?thesis using deadzone_zero_kills_axes [OF z _ l] by blast
qed

text \<open>Misplaced calibration: the ranges read at open time are stored in the order of the code list and not
  in the slots that the samples use: the hat switch is scaled with the range of the rudder, and its own
  range is stored where no sample looks.\<close>

theorem hat_uses_rudder_calibration:
  "ea_calib (evdev_open absinfo) ! fst (the (abs_slot ABS_HAT0X)) = (case absinfo ABS_RUDDER of None \<Rightarrow> (- 1023, 1023) | Some r \<Rightarrow> r) \<and>
   ea_calib (evdev_open absinfo) ! 5 = (case absinfo ABS_HAT0X of None \<Rightarrow> (- 1023, 1023) | Some r \<Rightarrow> r) \<and>
   (\<forall>code. abs_slot code \<noteq> Some (5, False) \<and> abs_slot code \<noteq> Some (5, True))"
proof -
  have "ea_calib (evdev_open absinfo) ! 4 = (case absinfo ABS_RUDDER of None \<Rightarrow> (- 1023, 1023) | Some r \<Rightarrow> r)"
    "ea_calib (evdev_open absinfo) ! 5 = (case absinfo ABS_HAT0X of None \<Rightarrow> (- 1023, 1023) | Some r \<Rightarrow> r)"
    using calibrate_nth [of evdev_default 0 CAL_CODES absinfo] unfolding evdev_open_def
    by (simp_all add: evdev_default_def CAL_CODES_def nth_append del: calibrate.simps cong: option.case_cong)
  moreover have "abs_slot ABS_HAT0X = Some (4, False)" by (simp add: abs_slot_def abs_defs slot_defs)
  ultimately show ?thesis by (auto simp: abs_slot_def slot_defs)
qed

text \<open>C33. Exclusive authority: at any time at most one operator has authority, and then it is the live operator
  with the lowest number; an operator that released or whose heartbeat is older than the timeout has
  none, and right after a heartbeat the chief operator has it.\<close>

theorem operator_authority_exclusive:
  "(authority_for h i now \<noteq> 0 \<and> authority_for h j now \<noteq> 0 \<longrightarrow> i = j) \<and>
   (authority_for h i now \<noteq> 0 \<longrightarrow> i < MAX_OPERATORS \<and> live h i now \<and> (\<forall>k < i. \<not> live h k now)) \<and>
   (length (ch_last_seen h) = 2 \<and> length (ch_released h) = 2 \<longrightarrow> authority_for (heartbeat 0 now h) 0 now = f32_lit 1) \<and>
   (length (ch_released h) = 2 \<longrightarrow> authority_for (hub_release i h) i now = 0)"
proof -
  have one: "f32_lit 1 \<noteq> 0" using f32_lit_vals(1) f32_val_zero by (metis fval.inject(2) zero_neq_one)
  have eff: "effective_operator h now = (if live h 0 now then Some 0 else if live h 1 now then Some 1 else None)" for h
    by (simp add: effective_operator_def MAX_OPERATORS_def numeral_2_eq_2)
  have hb: "live (heartbeat 0 now h) 0 now" if "length (ch_last_seen h) = 2" "length (ch_released h) = 2"
    using that by (simp add: live_def heartbeat_def MAX_OPERATORS_def saturating_sub_def)
  have rel: "\<not> live (hub_release i h) i now" if "length (ch_released h) = 2" "i < 2"
    using that by (simp add: live_def hub_release_def MAX_OPERATORS_def)
  show ?thesis using hb rel one unfolding authority_for_def eff
    by (auto simp: MAX_OPERATORS_def hub_release_def less_Suc_eq numeral_2_eq_2)
qed

theorem operator_authority_exclusive_witness:
  "authority_for (heartbeat 0 5 (hub_new 100)) 0 5 = f32_lit 1"
  using operator_authority_exclusive [of "hub_new 100" 0 5 0] by (simp add: hub_new_def MAX_OPERATORS_def)

end
