(* ===== verification/Media.thy ===== *)
theory Media
  imports Backpressure Json Wire_Types "HOL-Library.Monad_Syntax"
begin

text \<open>
  The media crate: the frame pool (pool.rs), the test-pattern camera (capture.rs), the telemetry overlay
  (burnin.rs) and the encoder with its bitrate governor (encoder.rs). Frames are byte lists; \<open>None\<close> is
  the panic of an index out of range. Coordinates are 32-bit words read with \<open>sint\<close>. The hardware
  backends only answer that they are not bound.

  The lemmas show that the overlay draws only inside its rows of the image, that a captured frame goes
  through overlay and encoder without a panic, and that the governor follows the link's signal within
  its bounds and reaches a constant signal.
\<close>

section \<open>Formats and the pool (pool.rs)\<close>

datatype pix_fmt = GrayY8 | Rgb888 | Nv12

fun pix_fmt_u32 :: "pix_fmt \<Rightarrow> u32" where
  "pix_fmt_u32 GrayY8 = 0"
| "pix_fmt_u32 Rgb888 = 1"
| "pix_fmt_u32 Nv12 = 2"

fun bytes_per_pixel :: "pix_fmt \<Rightarrow> usize" where
  "bytes_per_pixel GrayY8 = 1"
| "bytes_per_pixel Rgb888 = 3"
| "bytes_per_pixel Nv12 = 2"

definition min_buffer_len :: "pix_fmt \<Rightarrow> u32 \<Rightarrow> u32 \<Rightarrow> usize" where
  "min_buffer_len f w h = (if f = Nv12 then ucast w * ucast h * 3 div 2 else bytes_per_pixel f * ucast w * ucast h)"

record frame_meta =
  fm_seq :: u64
  fm_timestamp_ns :: u64
  fm_width :: u32
  fm_height :: u32
  fm_stride :: u32
  fm_format :: u32

definition frame_meta_new :: "u64 \<Rightarrow> u64 \<Rightarrow> u32 \<Rightarrow> u32 \<Rightarrow> pix_fmt \<Rightarrow> frame_meta" where
  "frame_meta_new seq ts w h f = \<lparr>fm_seq = seq, fm_timestamp_ns = ts, fm_width = w, fm_height = h,
     fm_stride = (if f = Nv12 then w else ucast (bytes_per_pixel f) * w), fm_format = pix_fmt_u32 f\<rparr>"

definition pixfmt :: "frame_meta \<Rightarrow> pix_fmt" where
  "pixfmt m = (if fm_format m = 0 then GrayY8 else if fm_format m = 1 then Rgb888 else Nv12)"

record frame_pool =
  fp_slab :: bytes
  fp_block_len :: nat
  fp_free :: "u32 list"
  fp_in_use :: nat

text \<open>The free list is a stack with its top at the end; the block count is cut to 32 bits.\<close>

definition frame_pool_new :: "nat \<Rightarrow> nat \<Rightarrow> frame_pool option" where
  "frame_pool_new block_len blocks =
     (if 0 < block_len \<and> 0 < blocks
      then Some \<lparr>fp_slab = replicate (block_len * blocks) 0, fp_block_len = block_len,
        fp_free = map word_of_nat (rev [0..<unat (word_of_nat blocks :: u32)]), fp_in_use = 0\<rparr>
      else None)"

definition fp_capacity :: "frame_pool \<Rightarrow> nat" where
  "fp_capacity p = length (fp_free p) + fp_in_use p"

definition fp_available :: "frame_pool \<Rightarrow> nat" where
  "fp_available p = length (fp_free p)"

definition fp_alloc :: "frame_pool \<Rightarrow> u32 option \<times> frame_pool" where
  "fp_alloc p =
     (if fp_free p = [] then (None, p)
      else (Some (last (fp_free p)), p\<lparr>fp_free := butlast (fp_free p), fp_in_use := fp_in_use p + 1\<rparr>))"

definition block_deref :: "u32 \<Rightarrow> frame_pool \<Rightarrow> bytes option" where
  "block_deref i p =
     (let s = unat i * fp_block_len p in
      if s + fp_block_len p \<le> length (fp_slab p) then Some (take (fp_block_len p) (drop s (fp_slab p))) else None)"

definition block_store :: "u32 \<Rightarrow> bytes \<Rightarrow> frame_pool \<Rightarrow> frame_pool" where
  "block_store i bs p = p\<lparr>fp_slab := write_at (unat i * fp_block_len p) bs (fp_slab p)\<rparr>"

definition block_drop :: "u32 \<Rightarrow> frame_pool \<Rightarrow> frame_pool" where
  "block_drop i p = p\<lparr>fp_in_use := fp_in_use p - 1, fp_free := fp_free p @ [i]\<rparr>"

section \<open>Drawing (burnin.rs)\<close>

definition GLYPH_W :: nat where "GLYPH_W = 5"
definition GLYPH_H :: nat where "GLYPH_H = 7"
definition GLYPH_ADVANCE :: u32 where "GLYPH_ADVANCE = 6"

definition GLYPHS :: "(u8 \<times> u8 list) list" where
  "GLYPHS =
     [(32, replicate 7 0), (48, [0x0E, 0x11, 0x13, 0x15, 0x19, 0x11, 0x0E]),
      (49, [0x04, 0x0C, 0x04, 0x04, 0x04, 0x04, 0x0E]), (50, [0x0E, 0x11, 0x01, 0x02, 0x04, 0x08, 0x1F]),
      (51, [0x1F, 0x02, 0x04, 0x02, 0x01, 0x11, 0x0E]), (52, [0x02, 0x06, 0x0A, 0x12, 0x1F, 0x02, 0x02]),
      (53, [0x1F, 0x10, 0x1E, 0x01, 0x01, 0x11, 0x0E]), (54, [0x06, 0x08, 0x10, 0x1E, 0x11, 0x11, 0x0E]),
      (55, [0x1F, 0x01, 0x02, 0x04, 0x08, 0x08, 0x08]), (56, [0x0E, 0x11, 0x11, 0x0E, 0x11, 0x11, 0x0E]),
      (57, [0x0E, 0x11, 0x11, 0x0F, 0x01, 0x02, 0x0C]), (65, [0x0E, 0x11, 0x11, 0x1F, 0x11, 0x11, 0x11]),
      (66, [0x1E, 0x11, 0x11, 0x1E, 0x11, 0x11, 0x1E]), (67, [0x0E, 0x11, 0x10, 0x10, 0x10, 0x11, 0x0E]),
      (68, [0x1E, 0x11, 0x11, 0x11, 0x11, 0x11, 0x1E]), (69, [0x1F, 0x10, 0x10, 0x1E, 0x10, 0x10, 0x1F]),
      (70, [0x1F, 0x10, 0x10, 0x1E, 0x10, 0x10, 0x10]), (71, [0x0E, 0x11, 0x10, 0x17, 0x11, 0x11, 0x0F]),
      (72, [0x11, 0x11, 0x11, 0x1F, 0x11, 0x11, 0x11]), (73, [0x0E, 0x04, 0x04, 0x04, 0x04, 0x04, 0x0E]),
      (74, [0x07, 0x02, 0x02, 0x02, 0x02, 0x12, 0x0C]), (75, [0x11, 0x12, 0x14, 0x18, 0x14, 0x12, 0x11]),
      (76, [0x10, 0x10, 0x10, 0x10, 0x10, 0x10, 0x1F]), (77, [0x11, 0x1B, 0x15, 0x15, 0x11, 0x11, 0x11]),
      (78, [0x11, 0x19, 0x15, 0x13, 0x11, 0x11, 0x11]), (79, [0x0E, 0x11, 0x11, 0x11, 0x11, 0x11, 0x0E]),
      (80, [0x1E, 0x11, 0x11, 0x1E, 0x10, 0x10, 0x10]), (81, [0x0E, 0x11, 0x11, 0x11, 0x15, 0x12, 0x0D]),
      (82, [0x1E, 0x11, 0x11, 0x1E, 0x14, 0x12, 0x11]), (83, [0x0F, 0x10, 0x10, 0x0E, 0x01, 0x01, 0x1E]),
      (84, [0x1F, 0x04, 0x04, 0x04, 0x04, 0x04, 0x04]), (85, [0x11, 0x11, 0x11, 0x11, 0x11, 0x11, 0x0E]),
      (86, [0x11, 0x11, 0x11, 0x11, 0x11, 0x0A, 0x04]), (87, [0x11, 0x11, 0x11, 0x15, 0x15, 0x1B, 0x11]),
      (88, [0x11, 0x11, 0x0A, 0x04, 0x0A, 0x11, 0x11]), (89, [0x11, 0x11, 0x0A, 0x04, 0x04, 0x04, 0x04]),
      (90, [0x1F, 0x01, 0x02, 0x04, 0x08, 0x10, 0x1F]), (58, [0x04, 0x04, 0x00, 0x04, 0x04, 0x00, 0x04]),
      (46, [0x00, 0x00, 0x00, 0x00, 0x00, 0x0C, 0x0C]), (45, [0x00, 0x00, 0x00, 0x1F, 0x00, 0x00, 0x00]),
      (37, [0x19, 0x1A, 0x04, 0x0B, 0x13, 0x00, 0x00]), (47, [0x01, 0x02, 0x02, 0x04, 0x08, 0x08, 0x10]),
      (44, [0x00, 0x00, 0x00, 0x00, 0x0C, 0x0C, 0x04])]"

definition glyph :: "u8 \<Rightarrow> u8 list option" where
  "glyph ch = map_of GLYPHS ch"

definition put :: "nat \<Rightarrow> u8 \<Rightarrow> bytes \<Rightarrow> bytes option" where
  "put i v buf = (if i < length buf then Some (buf[i := v]) else None)"

definition set_pixel :: "frame_meta \<Rightarrow> u32 \<Rightarrow> u32 \<Rightarrow> u8 \<Rightarrow> bytes \<Rightarrow> bytes option" where
  "set_pixel m x y shade frame =
     (let w = sint (fm_width m); h = sint (fm_height m) in
      if sint x < 0 \<or> sint y < 0 \<or> w \<le> sint x \<or> h \<le> sint y then Some frame
      else
        let xi = nat (sint x); yi = nat (sint y); stride = unat (fm_stride m) in
        if pixfmt m = Rgb888
        then let base = yi * stride + xi * 3 in
          (if base + 3 \<le> length frame then Some (write_at base [shade, shade, shade] frame) else None)
        else put (yi * stride + xi) shade frame)"

text \<open>The loops over the rows and columns of a glyph.\<close>

fun draw_cols :: "frame_meta \<Rightarrow> u8 \<Rightarrow> u32 \<Rightarrow> u32 \<Rightarrow> u8 \<Rightarrow> nat list \<Rightarrow> bytes \<Rightarrow> bytes option" where
  "draw_cols m bits x y shade [] frame = Some frame"
| "draw_cols m bits x y shade (col # cols) frame =
     do { f \<leftarrow> (if bit bits (4 - col) then set_pixel m (x + word_of_nat col) y shade frame else Some frame);
          draw_cols m bits x y shade cols f }"

fun draw_rows :: "frame_meta \<Rightarrow> u8 list \<Rightarrow> nat \<Rightarrow> u32 \<Rightarrow> u32 \<Rightarrow> u8 \<Rightarrow> bytes \<Rightarrow> bytes option" where
  "draw_rows m [] row x y shade frame = Some frame"
| "draw_rows m (bits # g) row x y shade frame =
     do { f \<leftarrow> draw_cols m bits x (y + word_of_nat row) shade [0..<GLYPH_W] frame; draw_rows m g (Suc row) x y shade f }"

definition draw_glyph :: "frame_meta \<Rightarrow> u8 \<Rightarrow> u32 \<Rightarrow> u32 \<Rightarrow> u8 \<Rightarrow> bytes \<Rightarrow> (u32 \<times> bytes) option" where
  "draw_glyph m ch x y shade frame =
     (case glyph ch of
        None \<Rightarrow> Some (GLYPH_ADVANCE, frame)
      | Some g \<Rightarrow> map_option (Pair GLYPH_ADVANCE) (draw_rows m g 0 x y shade frame))"

fun burn_in_text :: "frame_meta \<Rightarrow> bytes \<Rightarrow> u32 \<Rightarrow> u32 \<Rightarrow> u8 \<Rightarrow> bytes \<Rightarrow> bytes option" where
  "burn_in_text m [] cx y shade frame = Some frame"
| "burn_in_text m (b # bs) cx y shade frame =
     do { (adv, f) \<leftarrow> draw_glyph m b cx y shade frame;
          if sint (fm_width m) < sint (cx + adv) then Some f else burn_in_text m bs (cx + adv) y shade f }"

text \<open>The line buffer of 128 bytes that cuts what does not fit, and one decimal of a float, rounded to
  nearest with ties to the even digit.\<close>

definition buf_write :: "rstring \<Rightarrow> bytes \<Rightarrow> bytes" where
  "buf_write s buf = buf @ take (128 - length buf) (utf8 s)"

definition show_fixed1 :: "f32 \<Rightarrow> rstring" where
  "show_fixed1 v =
     (case f32_val v of
        NaN \<Rightarrow> lit ''NaN''
      | Infinity s \<Rightarrow> (if s then lit ''-'' else []) @ lit ''inf''
      | Finite s q \<Rightarrow>
          (let n = nat (round_even (q * 10)) in
           (if s then lit ''-'' else []) @ show_dec (n div 10) @ lit ''.'' @ show_dec (n mod 10)))"

definition format_telemetry :: "telemetry_packet \<Rightarrow> bytes" where
  "format_telemetry pkt =
     (let b0 = buf_write (case from_u16 (tlm_kind pkt) of
                 Some Battery \<Rightarrow> lit ''BAT '' | Some Pose \<Rightarrow> lit ''POS '' | Some Temperature \<Rightarrow> lit ''TMP '' | _ \<Rightarrow> lit ''GEN '') []
      in foldl (\<lambda>b v. buf_write (lit '' '') (buf_write (show_fixed1 v) b)) b0 (tlm_values pkt))"

definition burn_in_telemetry :: "frame_meta \<Rightarrow> telemetry_packet \<Rightarrow> u8 \<Rightarrow> bytes \<Rightarrow> bytes option" where
  "burn_in_telemetry m pkt shade frame = burn_in_text m (format_telemetry pkt) 2 2 shade frame"

section \<open>The test camera (capture.rs)\<close>

datatype media_error = MediaUnsupported string | BufferTooSmall nat nat | MediaDevice string

record test_capture =
  tc_width :: u32
  tc_height :: u32
  tc_format :: pix_fmt
  tc_seq :: u64
  tc_start_ns :: u64

definition test_capture_new :: "u32 \<Rightarrow> u32 \<Rightarrow> pix_fmt \<Rightarrow> test_capture" where
  "test_capture_new w h f = \<lparr>tc_width = w, tc_height = h, tc_format = f, tc_seq = 0, tc_start_ns = 0\<rparr>"

definition configure :: "u32 \<Rightarrow> u32 \<Rightarrow> pix_fmt \<Rightarrow> test_capture \<Rightarrow> test_capture" where
  "configure w h f c = c\<lparr>tc_width := w, tc_height := h, tc_format := f\<rparr>"

text \<open>The nested loops over the pixels, as a list of the coordinates in the order they are visited.\<close>

definition pixels :: "nat \<Rightarrow> nat \<Rightarrow> (nat \<times> nat) list" where
  "pixels w h = concat (map (\<lambda>y. map (\<lambda>x. (x, y)) [0..<w]) [0..<h])"

fun paint_rgb :: "nat \<Rightarrow> (nat \<times> nat) list \<Rightarrow> bytes \<Rightarrow> bytes option" where
  "paint_rgb w [] buf = Some buf"
| "paint_rgb w ((x, y) # ps) buf =
     (let i = y * (3 * w) + x * 3 in
      do { b1 \<leftarrow> put i (word_of_nat (x mod 256)) buf; b2 \<leftarrow> put (i + 1) (word_of_nat (y mod 256)) b1;
           b3 \<leftarrow> put (i + 2) (word_of_nat ((x + y) mod 256)) b2; paint_rgb w ps b3 })"

fun paint_luma :: "nat \<Rightarrow> (nat \<times> nat) list \<Rightarrow> bytes \<Rightarrow> bytes option" where
  "paint_luma w [] buf = Some buf"
| "paint_luma w ((x, y) # ps) buf = do { b \<leftarrow> put (y * w + x) (word_of_nat ((x + y) mod 256)) buf; paint_luma w ps b }"

definition paint :: "test_capture \<Rightarrow> bytes \<Rightarrow> bytes option" where
  "paint c buf =
     (let w = unat (tc_width c); h = unat (tc_height c) in
      case tc_format c of
        Rgb888 \<Rightarrow> paint_rgb w (pixels w h) buf
      | GrayY8 \<Rightarrow> paint_luma w (pixels w h) buf
      | Nv12 \<Rightarrow>
          do { b \<leftarrow> paint_luma w (pixels w h) buf;
               if w * h \<le> length b then Some (take (w * h) b @ replicate (length b - w * h) 128) else None })"

definition grab :: "bytes \<Rightarrow> test_capture \<Rightarrow> ((media_error + frame_meta \<times> bytes) \<times> test_capture) option" where
  "grab buf c =
     (let need = unat (min_buffer_len (tc_format c) (tc_width c) (tc_height c)) in
      if length buf < need then Some (Inl (BufferTooSmall need (length buf)), c)
      else case paint c buf of
        None \<Rightarrow> None
      | Some b \<Rightarrow>
          (let sq = tc_seq c + 1
           in Some (Inr (frame_meta_new sq (tc_start_ns c + sq * 33333333) (tc_width c) (tc_height c) (tc_format c), b), c\<lparr>tc_seq := sq\<rparr>)))"

section \<open>The encoder and its governor (encoder.rs)\<close>

record null_encoder =
  ne_bitrate :: u64

definition set_bitrate :: "u64 \<Rightarrow> null_encoder \<Rightarrow> null_encoder" where
  "set_bitrate bps e = e\<lparr>ne_bitrate := bps\<rparr>"

definition encode :: "bytes \<Rightarrow> bytes \<Rightarrow> media_error + nat \<times> bytes" where
  "encode frame out =
     (if length out < length frame then Inl (BufferTooSmall (length frame) (length out))
      else Inr (length frame, write_at 0 frame out))"

definition bitrate_slew :: "u64 \<Rightarrow> u64 \<Rightarrow> u64 \<Rightarrow> u64" where
  "bitrate_slew lst want min_step =
     (if lst = want then want
      else
        let delta = abs_diff want lst; st = min delta (max (max (want div 4) min_step) 1) in
        if lst < want then min (saturating_add lst st) want else max (saturating_sub lst st) want)"

record encoder_governor =
  eg_last :: u64
  eg_min_bps :: u64
  eg_max_bps :: u64
  eg_min_step :: u64

definition governor_new :: "u64 \<Rightarrow> u64 \<Rightarrow> encoder_governor option" where
  "governor_new min_bps max_bps =
     (if min_bps \<le> max_bps
      then Some \<lparr>eg_last = min_bps, eg_min_bps = min_bps, eg_max_bps = max_bps, eg_min_step = max (max_bps div 64) 1000\<rparr> else None)"

definition clamp_u64 :: "u64 \<Rightarrow> u64 \<Rightarrow> u64 \<Rightarrow> u64 option" where
  "clamp_u64 lo hi x = (if lo \<le> hi then Some (if x < lo then lo else if hi < x then hi else x) else None)"

definition governor_tick :: "u64 \<Rightarrow> null_encoder \<Rightarrow> encoder_governor \<Rightarrow> (u64 \<times> null_encoder \<times> encoder_governor) option" where
  "governor_tick suggested enc g =
     (case clamp_u64 (eg_min_bps g) (eg_max_bps g) suggested of
        None \<Rightarrow> None
      | Some want \<Rightarrow>
          (let nxt = bitrate_slew (eg_last g) want (eg_min_step g) in Some (nxt, set_bitrate nxt enc, g\<lparr>eg_last := nxt\<rparr>)))"

text \<open>The tick with the link's congestion estimate as its signal.\<close>

definition governor_link_tick :: "backpressure \<Rightarrow> null_encoder \<Rightarrow> encoder_governor \<Rightarrow> (u64 \<times> null_encoder \<times> encoder_governor) option" where
  "governor_link_tick bp enc g = governor_tick (suggested_bitrate_bps bp) enc g"

section \<open>Drawing stays inside\<close>

text \<open>A frame that has room for its picture: every row of the declared stride.\<close>

definition frame_fits :: "frame_meta \<Rightarrow> bytes \<Rightarrow> bool" where
  "frame_fits m frame \<longleftrightarrow> unat (fm_stride m) * unat (fm_height m) \<le> length frame \<and>
     (if pixfmt m = Rgb888 then 3 else 1) * unat (fm_width m) \<le> unat (fm_stride m)"

text \<open>Two frames that differ in the given rows only, and only in the picture.\<close>

definition differ_in :: "frame_meta \<Rightarrow> (nat \<Rightarrow> bool) \<Rightarrow> bytes \<Rightarrow> bytes \<Rightarrow> bool" where
  "differ_in m R f f' \<longleftrightarrow> length f' = length f \<and>
     (\<forall>i < length f. f' ! i \<noteq> f ! i \<longrightarrow> R (i div unat (fm_stride m)) \<and> i < unat (fm_stride m) * unat (fm_height m))"

lemma differ_in_refl: "differ_in m R f f"
  by (simp add: differ_in_def)

lemma differ_in_trans: "differ_in m R f g \<Longrightarrow> differ_in m R g h \<Longrightarrow> differ_in m R f h"
  unfolding differ_in_def by metis

lemma differ_in_mono: "differ_in m R f g \<Longrightarrow> (\<And>r. R r \<Longrightarrow> S r) \<Longrightarrow> differ_in m S f g"
  unfolding differ_in_def by metis

lemma frame_fits_differ: "frame_fits m f \<Longrightarrow> differ_in m R f f' \<Longrightarrow> frame_fits m f'"
  by (simp add: frame_fits_def differ_in_def)

lemma nat_sint: "0 \<le> sint (w :: u32) \<Longrightarrow> nat (sint w) = unat w"
proof -
  assume "0 \<le> sint w"
  then have "take_bit 32 (sint w) = sint w" using sint_less [of w] by (intro take_bit_int_eq_self) simp_all
  then have "uint w = sint w" using uint_sint [of w] by simp
  then show ?thesis by (simp add: unat_eq_nat_uint)
qed

text \<open>Changing bytes of one row.\<close>

lemma row_change:
  assumes "n \<le> length bs" and "yi < unat (fm_height m)" and "off + n \<le> unat (fm_stride m)" and "frame_fits m f" and "length bs = n"
  shows "yi * unat (fm_stride m) + off + n \<le> length f"
    and "differ_in m (\<lambda>r. r = yi) f (write_at (yi * unat (fm_stride m) + off) bs f)"
proof -
  let ?s = "unat (fm_stride m)" and ?h = "unat (fm_height m)"
  have "(yi + 1) * ?s \<le> ?h * ?s" using assms(2) by (intro mult_right_mono) simp_all
  then have e: "yi * ?s + ?s \<le> ?s * ?h" by (simp add: algebra_simps)
  moreover have "?s * ?h \<le> length f" using assms(4) by (simp add: frame_fits_def)
  ultimately show len: "yi * ?s + off + n \<le> length f" using assms(3) by linarith
  have "i div ?s = yi \<and> i < ?s * ?h" if "yi * ?s + off \<le> i" "i < yi * ?s + off + n" for i
  proof
    have "i = yi * ?s + (i - yi * ?s)" "i - yi * ?s < ?s" using that assms(3) by linarith+
    then show "i div ?s = yi" by (metis add.right_neutral div_less div_mult_self3 less_zeroE mult.commute)
    show "i < ?s * ?h" using that assms(3) e by linarith
  qed
  then show "differ_in m (\<lambda>r. r = yi) f (write_at (yi * ?s + off) bs f)"
    using len assms(5) nth_write_at [of "yi * ?s + off" bs f] by (auto simp: differ_in_def split: if_splits)
qed

lemma set_pixel_inside:
  assumes "frame_fits m f"
  shows "\<exists>f'. set_pixel m x y shade f = Some f' \<and> differ_in m (\<lambda>r. int r = sint y) f f'"
proof (cases "sint x < 0 \<or> sint y < 0 \<or> sint (fm_width m) \<le> sint x \<or> sint (fm_height m) \<le> sint y")
  case True
  then show ?thesis by (simp add: set_pixel_def Let_def differ_in_refl)
next
  case False
  then have u: "nat (sint x) = unat x" "nat (sint y) = unat y" "nat (sint (fm_width m)) = unat (fm_width m)"
      "nat (sint (fm_height m)) = unat (fm_height m)"
    by (simp_all add: nat_sint)
  have xy: "unat x < unat (fm_width m)" "unat y < unat (fm_height m)" using False u by linarith+
  have yr: "int (unat y) = sint y" using False u(2) by linarith
  show ?thesis
  proof (cases "pixfmt m = Rgb888")
    case True
    have "unat x * 3 + 3 \<le> unat (fm_stride m)" using assms True xy(1) by (simp add: frame_fits_def)
    note rc = row_change [OF _ xy(2) this assms, of "[shade, shade, shade]"]
    have "differ_in m (\<lambda>r. int r = sint y) f (write_at (unat y * unat (fm_stride m) + unat x * 3) [shade, shade, shade] f)"
      by (rule differ_in_mono [OF rc(2)]) (simp_all flip: yr)
    moreover have "unat y * unat (fm_stride m) + unat x * 3 + 3 \<le> length f" using rc(1) by simp
    ultimately show ?thesis using False True u by (simp add: set_pixel_def Let_def)
  next
    case False': False
    have st: "unat x + 1 \<le> unat (fm_stride m)" using assms False' xy(1) by (simp add: frame_fits_def)
    note rc = row_change [OF _ xy(2) st assms, of "[shade]"]
    have "write_at i [shade] f = f[i := shade]" if "i < length f" for i
      using that by (simp add: write_at_def upd_conv_take_nth_drop)
    moreover have "differ_in m (\<lambda>r. int r = sint y) f (write_at (unat y * unat (fm_stride m) + unat x) [shade] f)"
      by (rule differ_in_mono [OF rc(2)]) (simp_all flip: yr)
    moreover have "unat y * unat (fm_stride m) + unat x < length f" using rc(1) by simp
    ultimately show ?thesis using False False' u by (simp add: set_pixel_def put_def Let_def)
  qed
qed

lemma draw_cols_inside:
  "frame_fits m f \<Longrightarrow> \<exists>f'. draw_cols m bits x y shade cols f = Some f' \<and> differ_in m (\<lambda>r. int r = sint y) f f'"
proof (induction cols arbitrary: f)
  case Nil
  then show ?case by (simp add: differ_in_refl)
next
  case (Cons c cols)
  obtain g where g: "(if bit bits (4 - c) then set_pixel m (x + word_of_nat c) y shade f else Some f) = Some g"
      "differ_in m (\<lambda>r. int r = sint y) f g"
    using set_pixel_inside [OF Cons.prems, of "x + word_of_nat c" y shade] differ_in_refl [of m _ f] by (cases "bit bits (4 - c)") auto
  then show ?case using Cons.IH [OF frame_fits_differ [OF Cons.prems g(2)]] differ_in_trans by fastforce
qed

definition text_rows :: "u32 \<Rightarrow> nat \<Rightarrow> bool" where
  "text_rows y r \<longleftrightarrow> (\<exists>k < GLYPH_H. int r = sint (y + word_of_nat k))"

lemma draw_rows_inside:
  "frame_fits m f \<Longrightarrow> row + length g \<le> GLYPH_H \<Longrightarrow> \<exists>f'. draw_rows m g row x y shade f = Some f' \<and> differ_in m (text_rows y) f f'"
proof (induction g arbitrary: row f)
  case Nil
  then show ?case by (simp add: differ_in_refl)
next
  case (Cons bits g)
  obtain h where h: "draw_cols m bits x (y + word_of_nat row) shade [0..<GLYPH_W] f = Some h"
      "differ_in m (\<lambda>r. int r = sint (y + word_of_nat row)) f h"
    using draw_cols_inside [OF Cons.prems(1)] by blast
  have d: "differ_in m (text_rows y) f h" using Cons.prems(2) by (intro differ_in_mono [OF h(2)]) (auto simp: text_rows_def intro!: exI [of _ row])
  obtain f' where "draw_rows m g (Suc row) x y shade h = Some f'" "differ_in m (text_rows y) h f'"
    using Cons.IH [OF frame_fits_differ [OF Cons.prems(1) d], of "Suc row"] Cons.prems(2) by auto
  then show ?case using h(1) d differ_in_trans by fastforce
qed

lemma glyph_height: "glyph ch = Some g \<Longrightarrow> length g = GLYPH_H"
proof -
  have "list_all (\<lambda>(c, g). length g = GLYPH_H) GLYPHS" by (simp add: GLYPHS_def GLYPH_H_def)
  then show "glyph ch = Some g \<Longrightarrow> length g = GLYPH_H" by (auto simp: glyph_def list_all_iff dest: map_of_SomeD)
qed

lemma draw_glyph_inside:
  assumes "frame_fits m f"
  shows "\<exists>f'. draw_glyph m ch x y shade f = Some (GLYPH_ADVANCE, f') \<and> differ_in m (text_rows y) f f'"
proof (cases "glyph ch")
  case (Some g)
  then show ?thesis using draw_rows_inside [OF assms, of 0 g x y shade] glyph_height [OF Some] by (auto simp: draw_glyph_def)
qed (simp add: draw_glyph_def differ_in_refl)

lemma burn_in_text_inside:
  "frame_fits m f \<Longrightarrow> \<exists>f'. burn_in_text m bs cx y shade f = Some f' \<and> differ_in m (text_rows y) f f'"
proof (induction bs arbitrary: cx f)
  case Nil
  then show ?case by (simp add: differ_in_refl)
next
  case (Cons b bs)
  obtain g where g: "draw_glyph m b cx y shade f = Some (GLYPH_ADVANCE, g)" "differ_in m (text_rows y) f g"
    using draw_glyph_inside [OF Cons.prems] by blast
  then show ?case using Cons.IH [OF frame_fits_differ [OF Cons.prems g(2)], of "cx + GLYPH_ADVANCE"] differ_in_trans [OF g(2)]
    by auto
qed

section \<open>Capturing fills the picture\<close>

lemma put_total: "i < length buf \<Longrightarrow> put i v buf = Some (buf[i := v])"
  by (simp add: put_def)

lemma paint_luma_total:
  "list_all (\<lambda>(x, y). y * w + x < length buf) ps \<Longrightarrow> \<exists>b. paint_luma w ps buf = Some b \<and> length b = length buf"
proof (induction ps arbitrary: buf)
  case (Cons p ps)
  obtain x y where p: "p = (x, y)" by fastforce
  then show ?case using Cons.IH [of "buf[y * w + x := word_of_nat ((x + y) mod 256)]"] Cons.prems by (simp add: put_total)
qed simp

lemma paint_rgb_total:
  "list_all (\<lambda>(x, y). y * (3 * w) + x * 3 + 2 < length buf) ps \<Longrightarrow> \<exists>b. paint_rgb w ps buf = Some b \<and> length b = length buf"
proof (induction ps arbitrary: buf)
  case (Cons p ps)
  obtain x y where p: "p = (x, y)" by fastforce
  let ?i = "y * (3 * w) + x * 3"
  let ?b = "buf[?i := word_of_nat (x mod 256), ?i + 1 := word_of_nat (y mod 256), ?i + 2 := word_of_nat ((x + y) mod 256)]"
  have "list_all (\<lambda>(x, y). y * (3 * w) + x * 3 + 2 < length ?b) ps" using Cons.prems by simp
  from Cons.IH [OF this] show ?case using Cons.prems p by (simp add: put_total Let_def)
qed simp

lemma pixel_index:
  assumes "(x, y) \<in> set (pixels w h)"
  shows "y * w + x < w * h" and "y * (3 * w) + x * 3 + 2 < 3 * (w * h)"
proof -
  have xy: "x < w" "y < h" using assms by (auto simp: pixels_def)
  have "(y + 1) * w \<le> h * w" using xy(2) by (intro mult_right_mono) simp_all
  then show "y * w + x < w * h" using xy(1) by (simp add: algebra_simps)
  then show "y * (3 * w) + x * 3 + 2 < 3 * (w * h)" by (simp add: algebra_simps)
qed

lemma unat_min_buffer_len:
  assumes "unat w * unat h * 3 < 2 ^ 64"
  shows "unat (min_buffer_len f w h) = (if f = Nv12 then unat w * unat h * 3 div 2 else if f = Rgb888 then 3 * (unat w * unat h) else unat w * unat h)"
proof -
  have u: "unat (ucast w :: usize) = unat w" "unat (ucast h :: usize) = unat h" 
    using unsigned_less [of w, where 'a = nat] unsigned_less [of h, where 'a = nat] by (simp_all add: unsigned_ucast_eq take_bit_nat_eq_self)
  have wh: "unat (ucast w * ucast h :: usize) = unat w * unat h" using assms by (simp add: unat_word_ariths u)
  have w3: "unat (ucast w * ucast h * 3 :: usize) = unat w * unat h * 3"
    using assms unat_word_ariths(2) [of "ucast w * ucast h :: usize" 3] wh by simp
  then have n: "unat (ucast w * ucast h * 3 div 2 :: usize) = unat w * unat h * 3 div 2" by (simp add: unat_div)
  have "3 * ucast w * ucast h = (ucast w * ucast h * 3 :: usize)" by (simp only: mult.commute mult.left_commute)
  then have "unat (3 * ucast w * ucast h :: usize) = unat w * unat h * 3" using w3 by (simp only:)
  then show ?thesis using n wh by (cases f) (simp_all add: min_buffer_len_def)
qed

lemma paint_total:
  assumes "unat (tc_width c) * unat (tc_height c) * 3 < 2 ^ 64"
    and "unat (min_buffer_len (tc_format c) (tc_width c) (tc_height c)) \<le> length buf"
  shows "\<exists>b. paint c buf = Some b \<and> length b = length buf"
proof -
  let ?w = "unat (tc_width c)" and ?h = "unat (tc_height c)"
  have len: "(if tc_format c = Rgb888 then 3 * (?w * ?h) else ?w * ?h) \<le> length buf"
    using assms(2) unfolding unat_min_buffer_len [OF assms(1)] by (cases "tc_format c") auto
  have l: "tc_format c \<noteq> Rgb888 \<Longrightarrow> \<exists>b. paint_luma ?w (pixels ?w ?h) buf = Some b \<and> length b = length buf"
    using len pixel_index(1) by (intro paint_luma_total) (fastforce simp: list_all_iff)
  have r: "tc_format c = Rgb888 \<Longrightarrow> \<exists>b. paint_rgb ?w (pixels ?w ?h) buf = Some b \<and> length b = length buf"
    using len pixel_index(2) by (intro paint_rgb_total) (fastforce simp: list_all_iff)
  show ?thesis using l r len by (cases "tc_format c") (auto simp: paint_def Let_def)
qed

lemma captured_fits:
  assumes "unat w * 3 < 2 ^ 32" and "unat w * unat h * 3 < 2 ^ 64" and "unat (min_buffer_len f w h) \<le> length b"
  shows "frame_fits (frame_meta_new sq ts w h f) b"
proof -
  have "unat (3 * w) = 3 * unat w mod 2 ^ 32" by (simp add: unat_word_ariths)
  then have "unat (3 * w) = 3 * unat w" using assms(1) by simp
  then have st: "unat (fm_stride (frame_meta_new sq ts w h f)) = (if f = Rgb888 then 3 * unat w else unat w)"
    by (cases f) (simp_all add: frame_meta_new_def)
  have f: "pixfmt (frame_meta_new sq ts w h f) = f" by (cases f) (simp_all add: pixfmt_def frame_meta_new_def)
  have "(if f = Rgb888 then 3 * (unat w * unat h) else unat w * unat h) \<le> length b"
    using assms(3) unfolding unat_min_buffer_len [OF assms(2)] by (cases f) auto
  then show ?thesis unfolding frame_fits_def st f by (simp add: frame_meta_new_def split: if_splits)
qed

lemma text_rows_2: "text_rows 2 r \<longleftrightarrow> 2 \<le> r \<and> r < 9"
proof -
  have "sint (2 + word_of_nat k :: u32) = 2 + int k" if "k < 7" for k :: nat
  proof -
    have "k \<in> {0, 1, 2, 3, 4, 5, 6}" using that by auto
    then show ?thesis by auto
  qed
  note k = this
  show ?thesis
  proof
    assume "text_rows 2 r"
    then show "2 \<le> r \<and> r < 9" using k by (fastforce simp: text_rows_def GLYPH_H_def)
  next
    assume r: "2 \<le> r \<and> r < 9"
    then have "sint (2 + word_of_nat (r - 2) :: u32) = int r" using k [of "r - 2"] by force
    moreover have "r - 2 < 7" using r by linarith
    ultimately show "text_rows 2 r" unfolding text_rows_def GLYPH_H_def by (intro exI [of _ "r - 2"]) simp
  qed
qed

section \<open>The governor\<close>

definition slew_step_size :: "u64 \<Rightarrow> u64 \<Rightarrow> nat" where
  "slew_step_size want min_step = max (max (unat want div 4) (unat min_step)) 1"

lemma unat_minmax: "unat (min a b) = min (unat a) (unat b)" "unat (max a b) = max (unat a) (unat b)" for a b :: u64
  by (auto simp: min_def max_def word_le_nat_alt)

lemma bitrate_slew_unat:
  "unat (bitrate_slew l w ms) =
     (if unat l < unat w then unat l + min (unat w - unat l) (slew_step_size w ms) else unat l - min (unat l - unat w) (slew_step_size w ms))"
proof -
  let ?S = "slew_step_size w ms"
  have st: "unat (max (max (w div 4) ms) 1) = ?S" by (simp add: slew_step_size_def unat_minmax unat_div)
  consider "l = w" | "l < w" | "w < l" by fastforce
  then show ?thesis
  proof cases
    case 2
    then have lt: "unat l < unat w" by (simp add: word_less_nat_alt)
    then have "unat (abs_diff w l) = unat w - unat l" using 2 by (simp add: abs_diff_def unat_sub word_le_nat_alt)
    then have "unat (saturating_add l (min (abs_diff w l) (max (max (w div 4) ms) 1))) = unat l + min (unat w - unat l) ?S"
      using lt unsigned_less [of w, where 'a = nat] by (simp add: unat_saturating_add unat_minmax(1) st)
    then show ?thesis using 2 lt by (simp add: bitrate_slew_def Let_def unat_minmax)
  next
    case 3
    then have lt: "unat w < unat l" by (simp add: word_less_nat_alt)
    then have "unat (abs_diff w l) = unat l - unat w" using 3 by (auto simp: abs_diff_def unat_sub word_le_nat_alt)
    then have "unat (saturating_sub l (min (abs_diff w l) (max (max (w div 4) ms) 1))) = unat l - min (unat l - unat w) ?S"
      by (simp add: unat_saturating_sub unat_minmax(1) st)
    moreover have "bitrate_slew l w ms = max (saturating_sub l (min (abs_diff w l) (max (max (w div 4) ms) 1))) w"
      using 3 by (auto simp: bitrate_slew_def Let_def)
    ultimately have "unat (bitrate_slew l w ms) = max (unat l - min (unat l - unat w) ?S) (unat w)" by (simp only: unat_minmax(2))
    also have "\<dots> = unat l - min (unat l - unat w) ?S" using lt by (intro max_absorb1) (auto simp: min_def)
    finally show ?thesis using lt by simp
  qed (simp add: bitrate_slew_def)
qed

fun governor_run :: "u64 list \<Rightarrow> null_encoder \<times> encoder_governor \<Rightarrow> (null_encoder \<times> encoder_governor) option" where
  "governor_run [] eg = Some eg"
| "governor_run (s # ss) (e, g) = (case governor_tick s e g of None \<Rightarrow> None | Some (_, eg) \<Rightarrow> governor_run ss eg)"

definition clamped :: "u64 \<Rightarrow> u64 \<Rightarrow> u64 \<Rightarrow> u64" where
  "clamped lo hi s = (if s < lo then lo else if hi < s then hi else s)"

definition governor_ok :: "u64 \<Rightarrow> u64 \<Rightarrow> encoder_governor \<Rightarrow> bool" where
  "governor_ok lo hi g \<longleftrightarrow> lo \<le> hi \<and> eg_min_bps g = lo \<and> eg_max_bps g = hi \<and> eg_min_step g = max (hi div 64) 1000 \<and>
     lo \<le> eg_last g \<and> eg_last g \<le> hi"

lemma clamped_bounds: "lo \<le> hi \<Longrightarrow> lo \<le> clamped lo hi s \<and> clamped lo hi s \<le> hi"
  by (auto simp: clamped_def)

lemma governor_tick_ok:
  fixes s :: u64
  assumes "governor_ok lo hi g"
  defines "w \<equiv> clamped lo hi s"
  defines "n \<equiv> bitrate_slew (eg_last g) w (max (hi div 64) 1000)"
  shows "governor_tick s e g = Some (n, e\<lparr>ne_bitrate := n\<rparr>, g\<lparr>eg_last := n\<rparr>)" and "governor_ok lo hi (g\<lparr>eg_last := n\<rparr>)"
proof -
  have "lo \<le> w \<and> w \<le> hi" unfolding w_def using assms(1) by (intro clamped_bounds) (simp add: governor_ok_def)
  then have b: "unat lo \<le> unat w" "unat w \<le> unat hi" by (simp_all add: word_le_nat_alt)
  have l: "unat lo \<le> unat (eg_last g)" "unat (eg_last g) \<le> unat hi" using assms(1) by (simp_all add: governor_ok_def word_le_nat_alt)
  have "unat lo \<le> unat n \<and> unat n \<le> unat hi" unfolding n_def bitrate_slew_unat using b l by (auto simp: min_def)
  then show "governor_ok lo hi (g\<lparr>eg_last := n\<rparr>)" using assms(1) by (simp add: governor_ok_def word_le_nat_alt)
  show "governor_tick s e g = Some (n, e\<lparr>ne_bitrate := n\<rparr>, g\<lparr>eg_last := n\<rparr>)"
    using assms(1) by (simp add: governor_tick_def clamp_u64_def governor_ok_def set_bitrate_def n_def w_def clamped_def Let_def)
qed

lemma governor_run_ok:
  "governor_ok lo hi g \<Longrightarrow> \<exists>e' g'. governor_run ss (e, g) = Some (e', g') \<and> governor_ok lo hi g'"
  by (induction ss arbitrary: e g) (auto simp: governor_tick_ok)

text \<open>With a constant signal the distance to it shrinks by the step size in every tick.\<close>

lemma governor_constant:
  assumes "governor_ok lo hi g" and "w = clamped lo hi s" and "S = slew_step_size w (max (hi div 64) 1000)"
    and "max (unat w) (unat (eg_last g)) - min (unat w) (unat (eg_last g)) \<le> k * S"
  shows "\<exists>e' g'. governor_run (replicate (Suc k) s) (e, g) = Some (e', g') \<and> ne_bitrate e' = w \<and> eg_last g' = w"
  using assms(1,4)
proof (induction k arbitrary: e g)
  case 0
  then have "eg_last g = w" by (simp add: word_unat_eq_iff max_def min_def split: if_splits)
  then show ?case using governor_tick_ok(1) [OF 0(1), of s e] assms(2) by (simp add: bitrate_slew_def)
next
  case (Suc k)
  define n where "n = bitrate_slew (eg_last g) w (max (hi div 64) 1000)"
  note t = governor_tick_ok [OF Suc.prems(1), of s, folded assms(2), folded n_def]
  have "max (unat w) (unat n) - min (unat w) (unat n) \<le> k * S"
    using Suc.prems(2) unfolding n_def bitrate_slew_unat assms(3) [symmetric] by (auto simp: max_def min_def)
  then obtain e' g' where "governor_run (replicate (Suc k) s) (e\<lparr>ne_bitrate := n\<rparr>, g\<lparr>eg_last := n\<rparr>) = Some (e', g')" "ne_bitrate e' = w" "eg_last g' = w"
    using Suc.IH [OF t(2), of "e\<lparr>ne_bitrate := n\<rparr>"] by auto
  then show ?case using t(1) [of e] by simp
qed

section \<open>Properties\<close>

text \<open>Frame path: a frame that the test camera captures into a large enough buffer goes through the
  telemetry overlay and the encoder without a panic, for every packet and shade; the overlay changes only
  the text rows 2 to 8 of the picture, never the rest of the picture, the chroma plane or the bytes behind
  the frame, and the encoder passes the result on.\<close>

theorem media_frame_path:
  assumes "unat (tc_width c) * 3 < 2 ^ 32" and "unat (tc_width c) * unat (tc_height c) * 3 < 2 ^ 64"
    and "unat (min_buffer_len (tc_format c) (tc_width c) (tc_height c)) \<le> length buf" and "length buf \<le> length out"
  shows "\<exists>m b c' f. grab buf c = Some (Inr (m, b), c') \<and> burn_in_telemetry m pkt shade b = Some f \<and>
    encode f out = Inr (length buf, f @ drop (length buf) out) \<and> length f = length buf \<and>
    (\<forall>i < length f. f ! i = b ! i \<or> (2 \<le> i div unat (fm_stride m) \<and> i div unat (fm_stride m) < 9 \<and>
       i < unat (fm_stride m) * unat (tc_height c)))"
proof -
  obtain b where b: "paint c buf = Some b" "length b = length buf" using paint_total [OF assms(2,3)] by blast
  define m where "m = frame_meta_new (tc_seq c + 1) (tc_start_ns c + (tc_seq c + 1) * 33333333) (tc_width c) (tc_height c) (tc_format c)"
  have g: "grab buf c = Some (Inr (m, b), c\<lparr>tc_seq := tc_seq c + 1\<rparr>)"
    using b(1) assms(3) by (simp add: grab_def m_def Let_def)
  have "frame_fits m b" unfolding m_def using assms(3) b(2) by (intro captured_fits [OF assms(1,2)]) simp
  then obtain f where f: "burn_in_telemetry m pkt shade b = Some f" "differ_in m (text_rows 2) b f"
    using burn_in_text_inside by (fastforce simp: burn_in_telemetry_def)
  have "fm_height m = tc_height c" by (simp add: m_def frame_meta_new_def)
  then show ?thesis using g f b(2) assms(4) unfolding differ_in_def text_rows_2 by (auto simp: encode_def write_at_def)
qed

theorem media_frame_path_witness:
  "\<exists>m b c' f. grab (replicate 6 0) (test_capture_new 2 2 Nv12) = Some (Inr (m, b), c') \<and>
    burn_in_telemetry m (telemetry_zeroed Battery 1 2) 255 b = Some f \<and> encode f (replicate 8 0) = Inr (6, f @ [0, 0])"
proof -
  let ?c = "test_capture_new 2 2 Nv12"
  have c: "unat (tc_width ?c) = 2" "unat (tc_height ?c) = 2" "tc_format ?c = Nv12" by (simp_all add: test_capture_new_def)
  have n: "unat (min_buffer_len (tc_format ?c) (tc_width ?c) (tc_height ?c)) = 6" by (subst unat_min_buffer_len) (simp_all add: c)
  have d: "drop 6 (replicate 8 0) = [0, 0 :: u8]" by (simp add: numeral_eq_Suc)
  have h: "unat (tc_width ?c) * 3 < 2 ^ 32" "unat (tc_width ?c) * unat (tc_height ?c) * 3 < 2 ^ 64"
    "unat (min_buffer_len (tc_format ?c) (tc_width ?c) (tc_height ?c)) \<le> length (replicate 6 (0 :: u8))"
    "length (replicate 6 (0 :: u8)) \<le> length (replicate 8 (0 :: u8))"
    unfolding n unfolding c by simp_all
  show ?thesis using media_frame_path [OF h, of "telemetry_zeroed Battery 1 2" 255] unfolding length_replicate d by blast
qed

text \<open>C35. Governor: under any sequence of link signals the bitrate stays within the session's limits and no
  tick panics; and whatever the state, 66 ticks of a constant signal bring governor and encoder exactly
  to that signal, clamped to the limits.\<close>

theorem governor_tracks_signal:
  assumes "governor_new lo hi = Some g0"
  shows "\<exists>e g. governor_run ss (e0, g0) = Some (e, g) \<and> lo \<le> eg_last g \<and> eg_last g \<le> hi \<and>
    (\<exists>e' g'. governor_run (replicate 66 s) (e, g) = Some (e', g') \<and> eg_last g' = clamped lo hi s \<and> ne_bitrate e' = clamped lo hi s)"
proof -
  have "governor_ok lo hi g0" using assms by (auto simp: governor_new_def governor_ok_def split: if_splits)
  then obtain e g where r: "governor_run ss (e0, g0) = Some (e, g)" and ok: "governor_ok lo hi g" using governor_run_ok by blast
  let ?w = "clamped lo hi s" and ?ms = "max (hi div 64) 1000 :: u64"
  have S: "unat hi div 64 \<le> slew_step_size ?w ?ms" "1000 \<le> slew_step_size ?w ?ms"
    by (simp_all add: slew_step_size_def unat_minmax unat_div)
  have "unat (eg_last g) \<le> unat hi" "unat ?w \<le> unat hi" using ok clamped_bounds [of lo hi s] by (simp_all add: governor_ok_def word_le_nat_alt)
  then have "max (unat ?w) (unat (eg_last g)) - min (unat ?w) (unat (eg_last g)) \<le> unat hi" by simp
  also have "unat hi \<le> 65 * slew_step_size ?w ?ms" using S by linarith
  finally have d: "max (unat ?w) (unat (eg_last g)) - min (unat ?w) (unat (eg_last g)) \<le> 65 * slew_step_size ?w ?ms" .
  have "Suc 65 = (66 :: nat)" by simp
  with governor_constant [OF ok refl refl d, of e]
  have "\<exists>e' g'. governor_run (replicate 66 s) (e, g) = Some (e', g') \<and> ne_bitrate e' = ?w \<and> eg_last g' = ?w" by (simp only:)
  moreover have "lo \<le> eg_last g" "eg_last g \<le> hi" using ok by (simp_all add: governor_ok_def)
  ultimately show ?thesis using r by blast
qed

theorem governor_tracks_signal_witness:
  "\<exists>g0 e g e' g'. governor_new 1000 100000 = Some g0 \<and>
    governor_run [0, 70000] (\<lparr>ne_bitrate = 0\<rparr>, g0) = Some (e, g) \<and>
    governor_run (replicate 66 50000) (e, g) = Some (e', g') \<and> ne_bitrate e' = 50000"
proof -
  obtain g0 where g: "governor_new 1000 100000 = Some g0" by (simp add: governor_new_def)
  have "clamped 1000 100000 50000 = 50000" by (simp add: clamped_def)
  with g governor_tracks_signal [OF g, of "[0, 70000]" "\<lparr>ne_bitrate = 0\<rparr>" 50000] show ?thesis by metis
qed

end
