(* ===== verification/Hal_Devices.thy ===== *)
theory Hal_Devices
  imports Spsc_Ring Json Wire_Types "HOL-Library.Monad_Syntax"
begin

text \<open>
  The device layer of the hal crate: the records that cross it (types.rs), the virtual CAN bus (can.rs and
  mock/can.rs), the SocketCAN backend (socketcan.rs), the null camera (mock/camera.rs) and the register
  windows (mmio.rs). The kernel's answers are arguments; \<open>None\<close> is a panic.

  The lemmas show that the virtual bus delivers exactly the accepted frames in order, that a register
  window reads back what was written, and the cases where the SocketCAN backend, the camera and the
  mapped window do not do what they mean to.
\<close>

section \<open>Records (types.rs)\<close>

definition MAGIC_CAN_FRAME :: u32 where "MAGIC_CAN_FRAME = 0x43414E31"

record can_frame =
  cf_id :: u32
  cf_len :: u16
  cf_data :: bytes
  cf_reserved :: u16

definition can_frame_new :: "u32 \<Rightarrow> bytes \<Rightarrow> can_frame" where
  "can_frame_new i payload =
     (let n = min (length payload) 8 in
      \<lparr>cf_id = i, cf_len = word_of_nat n, cf_data = write_at 0 (take n payload) (replicate 8 0), cf_reserved = 0\<rparr>)"

definition can_payload :: "can_frame \<Rightarrow> bytes" where
  "can_payload f = take (unat (min (cf_len f) 8)) (cf_data f)"

datatype motor_mode = Idle | Speed | Thrust

fun motor_as_u8 :: "motor_mode \<Rightarrow> u8" where
  "motor_as_u8 Idle = 0"
| "motor_as_u8 Speed = 1"
| "motor_as_u8 Thrust = 2"

definition motor_from_u8 :: "u8 \<Rightarrow> motor_mode option" where
  "motor_from_u8 v = (if v = 0 then Some Idle else if v = 1 then Some Speed else if v = 2 then Some Thrust else None)"

record motor_command =
  mc_seq :: u64
  mc_timestamp_ns :: u64
  mc_mode :: u8
  mc_reserved :: bytes
  mc_value :: f32

definition motor_idle :: "u64 \<Rightarrow> u64 \<Rightarrow> motor_command" where
  "motor_idle sq ts = \<lparr>mc_seq = sq, mc_timestamp_ns = ts, mc_mode = motor_as_u8 Idle, mc_reserved = replicate 3 0, mc_value = f32_lit 0\<rparr>"

definition motor_mode_of :: "motor_command \<Rightarrow> motor_mode option" where
  "motor_mode_of c = motor_from_u8 (mc_mode c)"

record motor_telemetry =
  mt_seq :: u64
  mt_timestamp_ns :: u64
  mt_rpm :: f32
  mt_temp_c :: f32
  mt_volts :: f32
  mt_errors :: u32

datatype pixel_format = CamGrayY8 | CamRgb888 | CamNv12

fun pixel_format_u32 :: "pixel_format \<Rightarrow> u32" where
  "pixel_format_u32 CamGrayY8 = 0"
| "pixel_format_u32 CamRgb888 = 1"
| "pixel_format_u32 CamNv12 = 2"

fun cam_bytes_per_pixel :: "pixel_format \<Rightarrow> u32" where
  "cam_bytes_per_pixel CamGrayY8 = 1"
| "cam_bytes_per_pixel CamRgb888 = 3"
| "cam_bytes_per_pixel CamNv12 = 2"

definition cam_min_buffer_len :: "pixel_format \<Rightarrow> u32 \<Rightarrow> u32 \<Rightarrow> usize" where
  "cam_min_buffer_len f w h =
     (if f = CamNv12 then ucast w * ucast h * 3 div 2 else ucast (cam_bytes_per_pixel f) * ucast w * ucast h)"

record frame_info =
  fi_seq :: u64
  fi_timestamp_ns :: u64
  fi_width :: u32
  fi_height :: u32
  fi_stride :: u32
  fi_format :: u32

datatype hal_error = Unsupported string | Device string | HalBufferTooSmall nat nat | Dropped | NoAck

fun hal_error_fmt :: "hal_error \<Rightarrow> rstring" where
  "hal_error_fmt (Unsupported s) = lit ''unsupported: '' @ lit s"
| "hal_error_fmt (Device s) = lit ''device error: '' @ lit s"
| "hal_error_fmt (HalBufferTooSmall needed got) = lit ''buffer too small: need '' @ show_dec needed @ lit '', got '' @ show_dec got"
| "hal_error_fmt Dropped = lit ''frame dropped by transport''"
| "hal_error_fmt NoAck = lit ''no acknowledgment from device''"

section \<open>The virtual CAN bus (can.rs, mock/can.rs)\<close>

definition MOTOR_CMD :: u32 where "MOTOR_CMD = 0x200"
definition MOTOR_TELEM :: u32 where "MOTOR_TELEM = 0x300"
definition IMU_DATA :: u32 where "IMU_DATA = 0x400"

text \<open>The two rings are shared by the endpoints, so the pair is one state and an endpoint is a side of it.\<close>

datatype can_side = SideA | SideB

record can_endpoint =
  ce_tx_count :: u64
  ce_drop_every :: u32

record can_link =
  cl_a2b :: "can_frame spsc_ring"
  cl_b2a :: "can_frame spsc_ring"
  cl_a :: can_endpoint
  cl_b :: can_endpoint

definition can_pair :: "usize \<Rightarrow> can_link" where
  "can_pair capacity =
     (let e = \<lparr>ce_tx_count = 0, ce_drop_every = 0\<rparr>
      in \<lparr>cl_a2b = with_capacity capacity, cl_b2a = with_capacity capacity, cl_a = e, cl_b = e\<rparr>)"

fun tx_ring :: "can_side \<Rightarrow> can_link \<Rightarrow> can_frame spsc_ring" where
  "tx_ring SideA l = cl_a2b l"
| "tx_ring SideB l = cl_b2a l"

fun set_tx_ring :: "can_side \<Rightarrow> can_frame spsc_ring \<Rightarrow> can_link \<Rightarrow> can_link" where
  "set_tx_ring SideA r l = l\<lparr>cl_a2b := r\<rparr>"
| "set_tx_ring SideB r l = l\<lparr>cl_b2a := r\<rparr>"

fun endpoint :: "can_side \<Rightarrow> can_link \<Rightarrow> can_endpoint" where
  "endpoint SideA l = cl_a l"
| "endpoint SideB l = cl_b l"

fun set_endpoint :: "can_side \<Rightarrow> can_endpoint \<Rightarrow> can_link \<Rightarrow> can_link" where
  "set_endpoint SideA e l = l\<lparr>cl_a := e\<rparr>"
| "set_endpoint SideB e l = l\<lparr>cl_b := e\<rparr>"

fun peer :: "can_side \<Rightarrow> can_side" where
  "peer SideA = SideB"
| "peer SideB = SideA"

definition injects_drop :: "can_endpoint \<Rightarrow> bool" where
  "injects_drop e \<longleftrightarrow> 0 < ce_drop_every e \<and> ce_tx_count e mod ucast (ce_drop_every e) = 0"

definition can_send :: "can_side \<Rightarrow> can_frame \<Rightarrow> can_link \<Rightarrow> (hal_error + unit) \<times> can_link" where
  "can_send s frame l =
     (let e = (endpoint s l)\<lparr>ce_tx_count := ce_tx_count (endpoint s l) + 1\<rparr>; l1 = set_endpoint s e l in
      if injects_drop e then (Inl Dropped, l1)
      else case ring_push (tx_ring s l1) frame of
        (Inl _, r) \<Rightarrow> (Inl Dropped, set_tx_ring s r l1)
      | (Inr _, r) \<Rightarrow> (Inr (), set_tx_ring s r l1))"

definition can_recv :: "can_side \<Rightarrow> can_link \<Rightarrow> can_frame option \<times> can_link" where
  "can_recv s l = (case ring_pop (tx_ring (peer s) l) of (f, r) \<Rightarrow> (f, set_tx_ring (peer s) r l))"

definition set_drop_every :: "can_side \<Rightarrow> u32 \<Rightarrow> can_link \<Rightarrow> can_link" where
  "set_drop_every s n l = set_endpoint s ((endpoint s l)\<lparr>ce_drop_every := n\<rparr>) l"

definition tx_attempts :: "can_side \<Rightarrow> can_link \<Rightarrow> u64" where
  "tx_attempts s l = ce_tx_count (endpoint s l)"

section \<open>SocketCAN (socketcan.rs, stub_can.rs)\<close>

definition CAN_EFF_FLAG :: u32 where "CAN_EFF_FLAG = 0x80000000"

text \<open>The kernel's frame as the C library declares it: the payload length is \<open>can_dlc\<close>, while \<open>len8_dlc\<close> is
  the optional raw length code of frames of eight bytes.\<close>

record libc_can_frame =
  lc_can_id :: u32
  lc_can_dlc :: u8
  lc_len8_dlc :: u8
  lc_data :: bytes

definition libc_zeroed :: libc_can_frame where
  "libc_zeroed = \<lparr>lc_can_id = 0, lc_can_dlc = 0, lc_len8_dlc = 0, lc_data = replicate 8 0\<rparr>"

datatype sys_result = SysOk | SysWouldBlock | SysFailed

text \<open>What the system calls answer when the socket is opened.\<close>

record can_open_answers =
  oa_socket :: bool
  oa_name_ok :: bool
  oa_ifindex :: u32
  oa_bind :: bool

definition sock_open :: "can_open_answers \<Rightarrow> hal_error + unit" where
  "sock_open a =
     (if \<not> oa_socket a then Inl (Device ''socket(AF_CAN) failed'')
      else if \<not> oa_name_ok a then Inl (Device ''interface name not C-string'')
      else if oa_ifindex a = 0 then Inl (Device ''unknown CAN interface'')
      else if \<not> oa_bind a then Inl (Device ''bind(AF_CAN) failed'')
      else Inr ())"

definition sock_encode :: "can_frame \<Rightarrow> libc_can_frame" where
  "sock_encode frame =
     (let len = unat (min (cf_len frame) 8); i = cf_id frame;
          can_id = (if 0x7FF < i then i OR CAN_EFF_FLAG else i)
      in libc_zeroed\<lparr>lc_can_id := can_id, lc_len8_dlc := word_of_nat len, lc_data := write_at 0 (take len (cf_data frame)) (lc_data libc_zeroed)\<rparr>)"

text \<open>Sending hands the kernel the encoded frame; the result is the frame on the bus, if any.\<close>

definition sock_send :: "sys_result \<Rightarrow> can_frame \<Rightarrow> (hal_error + unit) \<times> libc_can_frame option" where
  "sock_send r frame =
     (case r of
        SysOk \<Rightarrow> (Inr (), Some (sock_encode frame))
      | SysWouldBlock \<Rightarrow> (Inl Dropped, None)
      | SysFailed \<Rightarrow> (Inl (Device ''CAN send failed''), None))"

definition sock_recv :: "libc_can_frame option \<Rightarrow> can_frame option" where
  "sock_recv k =
     (case k of
        None \<Rightarrow> None
      | Some cf \<Rightarrow>
          (let len = min (unat (lc_can_dlc cf)) 8; d = write_at 0 (take len (lc_data cf)) (replicate 8 0)
           in Some (can_frame_new (lc_can_id cf AND NOT CAN_EFF_FLAG) (take len d))))"

definition stub_can_open :: "hal_error + unit" where
  "stub_can_open = Inl (Unsupported ''cross-platform CAN deferred to hardware bring-up'')"

definition stub_can_send :: "can_frame \<Rightarrow> hal_error + unit" where
  "stub_can_send f = Inl (Unsupported ''cross-platform CAN deferred'')"

definition stub_can_recv :: "can_frame option" where
  "stub_can_recv = None"

section \<open>The null camera (mock/camera.rs)\<close>

record null_camera =
  nc_width :: u32
  nc_height :: u32
  nc_format :: pixel_format
  nc_seq :: u64

definition null_camera_new :: null_camera where
  "null_camera_new = \<lparr>nc_width = 0, nc_height = 0, nc_format = CamGrayY8, nc_seq = 0\<rparr>"

definition cam_configure :: "u32 \<Rightarrow> u32 \<Rightarrow> pixel_format \<Rightarrow> null_camera \<Rightarrow> null_camera" where
  "cam_configure w h f c = c\<lparr>nc_width := w, nc_height := h, nc_format := f\<rparr>"

definition cam_grab :: "bytes \<Rightarrow> null_camera \<Rightarrow> (hal_error + frame_info \<times> bytes) \<times> null_camera" where
  "cam_grab buf c =
     (if nc_width c = 0 then (Inl (Device ''not configured''), c)
      else
        let needed = unat (cam_min_buffer_len (nc_format c) (nc_width c) (nc_height c)) in
        if length buf < needed then (Inl (HalBufferTooSmall needed (length buf)), c)
        else
          let sq = nc_seq c + 1 in
          (Inr (\<lparr>fi_seq = sq, fi_timestamp_ns = sq * 33333333, fi_width = nc_width c, fi_height = nc_height c,
                 fi_stride = nc_width c * cam_bytes_per_pixel (nc_format c), fi_format = pixel_format_u32 (nc_format c)\<rparr>,
               map (\<lambda>i. word_of_nat (i mod 251)) [0..<needed] @ drop needed buf),
           c\<lparr>nc_seq := sq\<rparr>))"

section \<open>Register windows (mmio.rs)\<close>

type_synonym buffer_mmio = bytes

definition buffer_mmio_new :: "nat \<Rightarrow> buffer_mmio" where
  "buffer_mmio_new n = replicate n 0"

definition buffer_read_u32 :: "nat \<Rightarrow> buffer_mmio \<Rightarrow> u32 option" where
  "buffer_read_u32 off mem = (if off + 4 \<le> length mem then Some (from_le (take 4 (drop off mem))) else None)"

definition buffer_write_u32 :: "nat \<Rightarrow> u32 \<Rightarrow> buffer_mmio \<Rightarrow> buffer_mmio option" where
  "buffer_write_u32 off v mem = (if off + 4 \<le> length mem then Some (write_at off (le_bytes 4 v) mem) else None)"

text \<open>The process's open descriptors; \<open>open\<close> takes the lowest free number, as POSIX has it. Opening the
  window closes the descriptor when the file handle goes out of scope at the end of \<open>open\<close>, and dropping
  the window closes the number it kept.\<close>

type_synonym fd_table = "(nat \<times> string) list"

definition lowest_free :: "fd_table \<Rightarrow> nat" where
  "lowest_free t = hd (filter (\<lambda>n. n \<notin> fst ` set t) [0..<Suc (length t)])"

definition fd_open :: "string \<Rightarrow> fd_table \<Rightarrow> nat \<times> fd_table" where
  "fd_open path t = (let fd = lowest_free t in (fd, (fd, path) # t))"

definition fd_close :: "nat \<Rightarrow> fd_table \<Rightarrow> fd_table" where
  "fd_close fd t = filter (\<lambda>p. fst p \<noteq> fd) t"

record linux_mmio =
  lm_mem :: bytes
  lm_fd :: nat

text \<open>\<open>may_open\<close> and \<open>mapped\<close> are the kernel's answers: whether the device file opens, and the memory mapped.\<close>

definition linux_mmio_open :: "bool \<Rightarrow> bytes option \<Rightarrow> fd_table \<Rightarrow> (hal_error + linux_mmio) \<times> fd_table" where
  "linux_mmio_open may_open mapped t =
     (if \<not> may_open then (Inl (Device ''cannot open /dev/mem''), t)
      else
        let (raw, t1) = fd_open ''/dev/mem'' t in
        case mapped of
          None \<Rightarrow> (Inl (Device ''mmap of physical memory failed''), fd_close raw t1)
        | Some mem \<Rightarrow> (Inr \<lparr>lm_mem = mem, lm_fd = raw\<rparr>, fd_close raw t1))"

definition linux_read_u32 :: "nat \<Rightarrow> linux_mmio \<Rightarrow> u32 option" where
  "linux_read_u32 off m = (if off + 4 \<le> length (lm_mem m) then Some (from_le (take 4 (drop off (lm_mem m)))) else None)"

definition linux_write_u32 :: "nat \<Rightarrow> u32 \<Rightarrow> linux_mmio \<Rightarrow> linux_mmio option" where
  "linux_write_u32 off v m =
     (if off + 4 \<le> length (lm_mem m) then Some (m\<lparr>lm_mem := write_at off (le_bytes 4 v) (lm_mem m)\<rparr>) else None)"

definition linux_mmio_drop :: "linux_mmio \<Rightarrow> fd_table \<Rightarrow> fd_table" where
  "linux_mmio_drop m t = fd_close (lm_fd m) t"

section \<open>The virtual bus delivers what it accepts\<close>

datatype can_op = CanSend can_side can_frame | CanRecv can_side | CanDropEvery can_side u32

fun can_step :: "can_op \<Rightarrow> can_link \<Rightarrow> can_link" where
  "can_step (CanSend s f) l = snd (can_send s f l)"
| "can_step (CanRecv s) l = snd (can_recv s l)"
| "can_step (CanDropEvery s n) l = set_drop_every s n l"

text \<open>The frames a side got accepted and the frames a side received, in the order of the run.\<close>

fun accepted :: "can_side \<Rightarrow> can_op list \<Rightarrow> can_link \<Rightarrow> can_frame list" where
  "accepted s [] l = []"
| "accepted s (op # ops) l =
     (case op of CanSend t f \<Rightarrow> (if t = s \<and> fst (can_send t f l) = Inr () then [f] else []) | _ \<Rightarrow> []) @ accepted s ops (can_step op l)"

fun received :: "can_side \<Rightarrow> can_op list \<Rightarrow> can_link \<Rightarrow> can_frame list" where
  "received s [] l = []"
| "received s (op # ops) l =
     (case op of CanRecv t \<Rightarrow> (if t = s then (case fst (can_recv t l) of Some f \<Rightarrow> [f] | None \<Rightarrow> []) else []) | _ \<Rightarrow> []) @
     received s ops (can_step op l)"

definition can_link_inv :: "can_link \<Rightarrow> bool" where
  "can_link_inv l \<longleftrightarrow> ring_inv (cl_a2b l) \<and> ring_inv (cl_b2a l)"

lemma tx_ring_simps [simp]:
  "tx_ring s (set_tx_ring t r l) = (if s = t then r else tx_ring s l)" "tx_ring s (set_endpoint t e l) = tx_ring s l"
  "endpoint s (set_tx_ring t r l) = endpoint s l" "endpoint s (set_endpoint t e l) = (if s = t then e else endpoint s l)"
  by (cases s; cases t; simp)+

lemma peer_simps [simp]: "peer (peer s) = s" "peer s \<noteq> s" "s \<noteq> peer s" "peer s = peer t \<longleftrightarrow> s = t"
  by (cases s; cases t; simp)+

lemma all_sides: "(\<forall>s. P s) \<longleftrightarrow> P SideA \<and> P SideB"
  by (metis can_side.exhaust)

lemma can_link_inv_iff: "can_link_inv l \<longleftrightarrow> (\<forall>s. ring_inv (tx_ring s l))"
  by (simp add: can_link_inv_def all_sides)

lemma can_pair_inv: "unat c \<le> 2 ^ 63 \<Longrightarrow> can_link_inv (can_pair c) \<and> (\<forall>s. ring_contents (tx_ring s (can_pair c)) = [])"
  using with_capacity_inv [of c] by (simp add: can_link_inv_def can_pair_def all_sides Let_def)

text \<open>One operation: an accepted frame is appended to its direction, a received one is its head.\<close>

lemma can_send_effect:
  assumes "can_link_inv l"
  shows "ring_contents (tx_ring s (snd (can_send t f l))) =
      ring_contents (tx_ring s l) @ (if t = s \<and> fst (can_send t f l) = Inr () then [f] else [])"
    and "can_link_inv (snd (can_send t f l))"
proof -
  have inv: "\<And>s. ring_inv (tx_ring s l)" using assms by (simp add: can_link_inv_iff)
  note pr = spsc.push_result [OF inv, of t f]
  obtain r ring where p: "ring_push (tx_ring t l) f = (r, ring)" by fastforce
  have r: "(r = Inr () \<and> ring_contents ring = ring_contents (tx_ring t l) @ [f]) \<or> ((\<exists>x. r = Inl x) \<and> ring_contents ring = ring_contents (tx_ring t l))"
    using pr(3,4) p by (auto split: if_splits)
  show "ring_contents (tx_ring s (snd (can_send t f l))) =
      ring_contents (tx_ring s l) @ (if t = s \<and> fst (can_send t f l) = Inr () then [f] else [])"
    using r p by (auto simp: can_send_def Let_def)
  show "can_link_inv (snd (can_send t f l))" using inv pr(1) p by (auto simp: can_link_inv_iff can_send_def Let_def split: sum.splits)
qed

lemma can_recv_effect:
  assumes "can_link_inv l"
  shows "ring_contents (tx_ring s l) =
      (if peer t = s then (case fst (can_recv t l) of Some f \<Rightarrow> [f] | None \<Rightarrow> []) else []) @ ring_contents (tx_ring s (snd (can_recv t l)))"
    and "can_link_inv (snd (can_recv t l))"
proof -
  have inv: "\<And>s. ring_inv (tx_ring s l)" using assms by (simp add: can_link_inv_iff)
  note pp = spsc.pop_result [OF inv, of "peer t"]
  obtain x ring where p: "ring_pop (tx_ring (peer t) l) = (x, ring)" by fastforce
  show "can_link_inv (snd (can_recv t l))" using inv pp(1) p by (auto simp: can_link_inv_iff can_recv_def)
  show "ring_contents (tx_ring s l) =
      (if peer t = s then (case fst (can_recv t l) of Some f \<Rightarrow> [f] | None \<Rightarrow> []) else []) @ ring_contents (tx_ring s (snd (can_recv t l)))"
    using pp(3,4) p by (auto simp: can_recv_def split: list.splits)
qed

lemma set_drop_every_effect [simp]:
  "tx_ring s (set_drop_every t n l) = tx_ring s l" "can_link_inv (set_drop_every t n l) = can_link_inv l"
  by (auto simp: set_drop_every_def can_link_inv_iff)

lemma can_run_fifo:
  "can_link_inv l \<Longrightarrow> ring_contents (tx_ring s l) @ accepted s ops l =
     received (peer s) ops l @ ring_contents (tx_ring s (fold can_step ops l)) \<and> can_link_inv (fold can_step ops l)"
proof (induction ops arbitrary: l)
  case (Cons op ops)
  show ?case
  proof (cases op)
    case (CanSend t f)
    then show ?thesis using Cons.IH [OF can_send_effect(2) [OF Cons.prems, of t f]] can_send_effect(1) [OF Cons.prems, of s t f] by auto
  next
    case (CanRecv t)
    have t: "peer t = s \<longleftrightarrow> t = peer s" by (cases s; cases t; simp)
    show ?thesis using CanRecv Cons.IH [OF can_recv_effect(2) [OF Cons.prems, of t]] can_recv_effect(1) [OF Cons.prems, of s t] t by auto
  next
    case (CanDropEvery t n)
    then show ?thesis using Cons.IH [of "set_drop_every t n l"] Cons.prems by simp
  qed
qed simp

section \<open>Register windows\<close>

fun write_all :: "(nat \<Rightarrow> u32 \<Rightarrow> 'm \<Rightarrow> 'm option) \<Rightarrow> (nat \<times> u32) list \<Rightarrow> 'm \<Rightarrow> 'm option" where
  "write_all wr [] m = Some m"
| "write_all wr ((off, v) # ws) m = do { m' \<leftarrow> wr off v m; write_all wr ws m' }"

definition apart :: "nat \<Rightarrow> nat \<Rightarrow> bool" where
  "apart o1 o2 \<longleftrightarrow> o1 + 4 \<le> o2 \<or> o2 + 4 \<le> o1"

locale register_window =
  fixes rd :: "nat \<Rightarrow> 'm \<Rightarrow> u32 option" and wr :: "nat \<Rightarrow> u32 \<Rightarrow> 'm \<Rightarrow> 'm option" and span :: "'m \<Rightarrow> nat"
  assumes write_inside: "off + 4 \<le> span m \<Longrightarrow> \<exists>m'. wr off v m = Some m' \<and> span m' = span m \<and> rd off m' = Some v \<and>
      (\<forall>o'. apart off o' \<longrightarrow> rd o' m' = rd o' m)"
    and outside: "span m < off + 4 \<Longrightarrow> rd off m = None \<and> wr off v m = None"
begin

lemma write_all_keeps:
  "list_all (\<lambda>(off, v). off + 4 \<le> span m \<and> apart off o') ws \<Longrightarrow>
     \<exists>m'. write_all wr ws m = Some m' \<and> span m' = span m \<and> rd o' m' = rd o' m"
proof (induction ws arbitrary: m)
  case (Cons w ws)
  obtain off v where w: "w = (off, v)" by fastforce
  then obtain m1 where m1: "wr off v m = Some m1" "span m1 = span m" "rd o' m1 = rd o' m"
    using write_inside [of off m v] Cons.prems by auto
  then show ?case using Cons.IH [of m1] Cons.prems w by auto
qed simp

lemma registers_read_back:
  assumes "list_all (\<lambda>(off, v). off + 4 \<le> span m) ws" and "sorted_wrt (\<lambda>a b. apart (fst a) (fst b)) ws"
  shows "\<exists>m'. write_all wr ws m = Some m' \<and> span m' = span m \<and> list_all (\<lambda>(off, v). rd off m' = Some v) ws"
  using assms
proof (induction ws arbitrary: m)
  case (Cons w ws)
  obtain off v where w: "w = (off, v)" by fastforce
  then obtain m1 where m1: "wr off v m = Some m1" "span m1 = span m" "rd off m1 = Some v"
    using write_inside [of off m v] Cons.prems by auto
  then obtain m2 where m2: "write_all wr ws m1 = Some m2" "span m2 = span m1" "list_all (\<lambda>(off, v). rd off m2 = Some v) ws"
    using Cons.IH [of m1] Cons.prems by auto
  have "list_all (\<lambda>(off', v). off' + 4 \<le> span m1 \<and> apart off' off) ws"
    using Cons.prems w m1(2) by (auto simp: list_all_iff apart_def)
  then have "rd off m2 = Some v" using write_all_keeps [of m1 off ws] m1(3) m2(1) by auto
  then show ?case using m1 m2 w by simp
qed simp

end

lemma read_after_write:
  assumes "off + 4 \<le> length mem"
  shows "from_le (take 4 (drop off (write_at off (le_bytes 4 v) mem))) = (v :: u32)"
    and "apart off o' \<Longrightarrow> take 4 (drop o' (write_at off (le_bytes 4 v) mem)) = take 4 (drop o' mem)"
proof -
  have "take 4 (drop off (write_at off (le_bytes 4 v) mem)) = le_bytes 4 v" using assms by (simp add: write_at_def)
  then show "from_le (take 4 (drop off (write_at off (le_bytes 4 v) mem))) = (v :: u32)" by (simp add: from_le_le_bytes)
  assume a: "apart off o'"
  show "take 4 (drop o' (write_at off (le_bytes 4 v) mem)) = take 4 (drop o' mem)"
  proof (rule nth_equalityI)
    show l: "length (take 4 (drop o' (write_at off (le_bytes 4 v) mem))) = length (take 4 (drop o' mem))" using assms by simp
    fix i assume "i < length (take 4 (drop o' (write_at off (le_bytes 4 v) mem)))"
    then have "i < 4" "o' + i < length mem" using l by auto
    then show "take 4 (drop o' (write_at off (le_bytes 4 v) mem)) ! i = take 4 (drop o' mem) ! i"
      using a assms nth_write_at [of off "le_bytes 4 v" mem "o' + i"] by (auto simp: apart_def)
  qed
qed

interpretation buffer_window: register_window buffer_read_u32 buffer_write_u32 length
  by unfold_locales (auto simp: buffer_read_u32_def buffer_write_u32_def read_after_write)

interpretation linux_window: register_window linux_read_u32 linux_write_u32 "\<lambda>m. length (lm_mem m)"
  by unfold_locales (auto simp: linux_read_u32_def linux_write_u32_def read_after_write)

lemma can_frame_payload: "length p \<le> 8 \<Longrightarrow> can_payload (can_frame_new i p) = p"
  by (auto simp: can_payload_def can_frame_new_def Let_def write_at_def min_def word_le_nat_alt take_bit_nat_eq_self unsigned_of_nat)

lemma lowest_free_fresh: "lowest_free t \<notin> fst ` set t"
proof -
  have "\<not> set [0..<Suc (length t)] \<subseteq> fst ` set t"
    using card_mono [of "fst ` set t" "set [0..<Suc (length t)]"] card_image_le [of "set t" fst] card_length [of t] by auto
  then have "filter (\<lambda>n. n \<notin> fst ` set t) [0..<Suc (length t)] \<noteq> []" by (auto simp: filter_empty_conv)
  then have "lowest_free t \<in> set (filter (\<lambda>n. n \<notin> fst ` set t) [0..<Suc (length t)])" unfolding lowest_free_def by (rule hd_in_set)
  then show ?thesis unfolding set_filter by blast
qed

lemma fd_close_fresh: "fd \<notin> fst ` set t \<Longrightarrow> fd_close fd ((fd, p) # t) = t"
  by (auto simp: fd_close_def intro!: filter_True)

section \<open>Properties\<close>

text \<open>Virtual CAN bus: for every interleaving of sends, receives and fault injection on both ends of a
  fresh pair, the frames one side received followed by those still queued are exactly the frames the
  other side's sends accepted, in order; a refused send leaves no trace.\<close>

theorem can_bus_delivers:
  assumes "unat capacity \<le> 2 ^ 63"
  shows "accepted s ops (can_pair capacity) =
    received (peer s) ops (can_pair capacity) @ ring_contents (tx_ring s (fold can_step ops (can_pair capacity)))"
  using can_run_fifo [of "can_pair capacity" s ops] can_pair_inv [OF assms] by simp

theorem can_bus_delivers_witness:
  "accepted SideA [CanDropEvery SideA 2, CanSend SideA (can_frame_new 1 [7]), CanSend SideA (can_frame_new 2 []), CanRecv SideB] (can_pair 4) =
   received SideB [CanDropEvery SideA 2, CanSend SideA (can_frame_new 1 [7]), CanSend SideA (can_frame_new 2 []), CanRecv SideB] (can_pair 4) @
     ring_contents (cl_a2b (fold can_step [CanDropEvery SideA 2, CanSend SideA (can_frame_new 1 [7]), CanSend SideA (can_frame_new 2 []), CanRecv SideB] (can_pair 4)))"
  using can_bus_delivers [of 4 SideA "[CanDropEvery SideA 2, CanSend SideA (can_frame_new 1 [7]), CanSend SideA (can_frame_new 2 []), CanRecv SideB]"]
  by (simp only: peer.simps tx_ring.simps) simp

text \<open>SocketCAN loses every payload: a frame sent over the socket and received from the bus unchanged
  comes back with its identifier and no payload, because the send path fills in the raw length code and
  leaves the payload length at zero.\<close>

theorem socketcan_payload_lost:
  assumes "sock_send r f = (Inr (), Some on_bus)"
  shows "\<exists>g. sock_recv (Some on_bus) = Some g \<and> can_payload g = [] \<and> cf_len g = 0"
  using assms
  by (auto simp: sock_send_def sock_encode_def sock_recv_def libc_zeroed_def can_frame_new_def can_payload_def Let_def split: sys_result.splits)

theorem socketcan_payload_lost_witness:
  "\<exists>on_bus g. sock_send SysOk (can_frame_new 0x200 [1, 2, 3]) = (Inr (), Some on_bus) \<and> sock_recv (Some on_bus) = Some g \<and> can_payload g = []"
proof -
  obtain b where b: "sock_send SysOk (can_frame_new 0x200 [1, 2, 3]) = (Inr (), Some b)" by (simp add: sock_send_def)
  with socketcan_payload_lost [OF b] show ?thesis by blast
qed

text \<open>Register windows: writes to registers that do not overlap and lie inside the window all succeed
  and every register then reads its value, for the simulated window and for mapped memory alike.\<close>

theorem mmio_registers_read_back:
  assumes "list_all (\<lambda>(off, v). off + 4 \<le> n) ws" and "sorted_wrt (\<lambda>a b. apart (fst a) (fst b)) ws" and "length (lm_mem w) = n"
  shows "(\<exists>m. write_all buffer_write_u32 ws (buffer_mmio_new n) = Some m \<and> list_all (\<lambda>(off, v). buffer_read_u32 off m = Some v) ws) \<and>
    (\<exists>m. write_all linux_write_u32 ws w = Some m \<and> list_all (\<lambda>(off, v). linux_read_u32 off m = Some v) ws)"
  using buffer_window.registers_read_back [of "buffer_mmio_new n" ws] linux_window.registers_read_back [of w ws] assms
  by (auto simp: buffer_mmio_new_def)

theorem mmio_registers_read_back_witness:
  "\<exists>m. write_all linux_write_u32 [(0, 7), (4, 9)] \<lparr>lm_mem = replicate 8 0, lm_fd = 3\<rparr> = Some m \<and>
     linux_read_u32 0 m = Some 7 \<and> linux_read_u32 4 m = Some 9"
  using mmio_registers_read_back [of 8 "[(0, 7), (4, 9)]" "\<lparr>lm_mem = replicate 8 0, lm_fd = 3\<rparr>"]
  by (auto simp: apart_def simp del: write_all.simps)

text \<open>Mapped window closes another file's descriptor: a window that is opened has already given its
  descriptor back, so a file opened afterwards gets the same number, and dropping the window closes that
  file.\<close>

theorem mmio_drop_closes_other:
  assumes "linux_mmio_open True (Some mem) t = (Inr w, t1)" and "fd_open path t1 = (fd, t2)"
  shows "fd = lm_fd w \<and> (fd, path) \<in> set t2 \<and> (fd, path) \<notin> set (linux_mmio_drop w t2)"
proof -
  have w: "lm_fd w = lowest_free t" "t1 = t"
    using assms(1) by (auto simp: linux_mmio_open_def fd_open_def Let_def fd_close_fresh [OF lowest_free_fresh])
  with assms(2) have "fd = lowest_free t" "t2 = (fd, path) # t" by (auto simp: fd_open_def Let_def)
  with w show ?thesis by (simp add: linux_mmio_drop_def fd_close_def)
qed

theorem mmio_drop_closes_other_witness:
  "\<exists>w t1 fd t2. linux_mmio_open True (Some [0, 0, 0, 0]) [] = (Inr w, t1) \<and> fd_open ''log'' t1 = (fd, t2) \<and>
     (fd, ''log'') \<in> set t2 \<and> (fd, ''log'') \<notin> set (linux_mmio_drop w t2)"
proof -
  obtain w t1 where o: "linux_mmio_open True (Some [0, 0, 0, 0]) [] = (Inr w, t1)" by (simp add: linux_mmio_open_def fd_open_def Let_def)
  obtain fd t2 where "fd_open ''log'' t1 = (fd, t2)" by fastforce
  with mmio_drop_closes_other [OF o this] o show ?thesis by blast
qed

text \<open>Camera stride for NV12: the row stride the camera reports times the height is more than the bytes
  of the frame it filled, so that the last rows, read with that stride, lie behind the picture.\<close>

theorem nv12_stride_overruns:
  assumes "cam_grab buf c = (Inr (info, out), c')" and "nc_format c = CamNv12" and "unat (nc_width c) * 2 < 2 ^ 32"
    and "unat (nc_width c) * unat (nc_height c) * 3 < 2 ^ 64" and "0 < nc_height c"
  shows "unat (cam_min_buffer_len CamNv12 (fi_width info) (fi_height info)) < unat (fi_stride info) * unat (fi_height info)"
proof -
  have i: "fi_width info = nc_width c" "fi_height info = nc_height c" "fi_stride info = nc_width c * 2" and w: "nc_width c \<noteq> 0"
    using assms(1,2) by (auto simp: cam_grab_def Let_def split: if_splits)
  let ?w = "unat (nc_width c)" and ?h = "unat (nc_height c)"
  have st: "unat (nc_width c * 2) = ?w * 2" using assms(3) by (simp add: unat_word_ariths)
  have u: "unat (ucast (nc_width c) :: usize) = ?w" "unat (ucast (nc_height c) :: usize) = ?h"
    using unsigned_less [of "nc_width c", where 'a = nat] unsigned_less [of "nc_height c", where 'a = nat]
    by (simp_all add: unsigned_ucast_eq take_bit_nat_eq_self)
  have wh: "unat (ucast (nc_width c) * ucast (nc_height c) :: usize) = ?w * ?h" using assms(4) by (simp add: unat_word_ariths u)
  have "unat (ucast (nc_width c) * ucast (nc_height c) * 3 :: usize) = ?w * ?h * 3"
    using assms(4) unat_word_ariths(2) [of "ucast (nc_width c) * ucast (nc_height c) :: usize" 3] wh by simp
  then have "unat (cam_min_buffer_len CamNv12 (nc_width c) (nc_height c)) = ?w * ?h * 3 div 2" by (simp add: cam_min_buffer_len_def unat_div)
  moreover have "0 < ?w * ?h" using w assms(5) by (simp add: unat_gt_0 word_gt_0)
  then have "?w * ?h * 3 div 2 < ?w * ?h * 2" by linarith
  ultimately show ?thesis unfolding i st by (simp add: mult.commute mult.left_commute)
qed

theorem nv12_stride_overruns_witness:
  "\<exists>info out c'. cam_grab (replicate 6 0) (cam_configure 2 2 CamNv12 null_camera_new) = (Inr (info, out), c') \<and>
     unat (cam_min_buffer_len CamNv12 (fi_width info) (fi_height info)) < unat (fi_stride info) * unat (fi_height info)"
proof -
  have "unat (cam_min_buffer_len CamNv12 2 2) = 6" by (simp add: cam_min_buffer_len_def unat_div)
  then obtain info out c' where g: "cam_grab (replicate 6 0) (cam_configure 2 2 CamNv12 null_camera_new) = (Inr (info, out), c')"
    by (simp add: cam_grab_def cam_configure_def null_camera_new_def Let_def)
  from nv12_stride_overruns [OF g] g show ?thesis by (auto simp: cam_configure_def)
qed

end
