(* ===== verification/Sim_Vehicle.thy ===== *)
theory Sim_Vehicle
  imports Hal_Devices Safety_Filters
begin

text \<open>
  The simulated vehicle of the hal crate: the motor model (mock/motor.rs), the rigid-body world
  (sim/world.rs) and the quadrotor with its sensors (sim/drone.rs), in the floating-point arithmetic of
  the code. The functions of the platform's mathematics library whose precision Rust leaves open are a
  parameter; the square root is rounded correctly and is defined. \<open>None\<close> is an index out of range.

  The lemmas show that no body ends a step below the ground, and that the rotors stay finite and within
  bounds whatever frames arrive on the bus.
\<close>

section \<open>Standard functions\<close>

record libm =
  m_sin :: "f64 \<Rightarrow> f64"
  m_cos :: "f64 \<Rightarrow> f64"
  m_asin :: "f64 \<Rightarrow> f64"
  m_atan2 :: "f64 \<Rightarrow> f64 \<Rightarrow> f64"
  m_hypot :: "f64 \<Rightarrow> f64 \<Rightarrow> f64"

definition f64_neg :: "f64 \<Rightarrow> f64" where "f64_neg a = a XOR push_bit 63 1"

text \<open>The square root: the integer part of the root of \<open>4 ^ 600 * q\<close> fixes it to more than the bits of
  a double, for the smallest double too; an inexact root is put strictly between two such values, so that
  it rounds like the exact one.\<close>

fun isqrt_bits :: "nat \<Rightarrow> nat \<Rightarrow> nat \<Rightarrow> nat" where
  "isqrt_bits 0 r n = r"
| "isqrt_bits (Suc k) r n = (let r' = r + 2 ^ k in isqrt_bits k (if r' * r' \<le> n then r' else r) n)"

definition isqrt :: "nat \<Rightarrow> nat" where
  "isqrt n = isqrt_bits (bit_width n) 0 n"

definition sqrt_mag :: "rat \<Rightarrow> rat" where
  "sqrt_mag q =
     (let n = nat \<lfloor>q * 4 ^ 600\<rfloor>; r = isqrt n in
      (if rat_of_nat (r * r) = q * 4 ^ 600 then rat_of_nat r else rat_of_nat r + 1 / 2) / 2 ^ 600)"

fun fv_sqrt :: "fval \<Rightarrow> fval" where
  "fv_sqrt NaN = NaN"
| "fv_sqrt (Infinity s) = (if s then NaN else Infinity False)"
| "fv_sqrt (Finite s q) = (if q = 0 then Finite s 0 else if s then NaN else Finite False (sqrt_mag q))"

definition f32_sqrt :: "f32 \<Rightarrow> f32" where "f32_sqrt a = f32_of (fv_sqrt (f32_val a))"
definition f64_sqrt :: "f64 \<Rightarrow> f64" where "f64_sqrt a = f64_of (fv_sqrt (f64_val a))"

text \<open>The remainder, which is exact, and \<open>rem_euclid\<close>; the conversions of angles; a 16-bit integer and a
  float, the latter saturating.\<close>

fun fv_rem :: "fval \<Rightarrow> fval \<Rightarrow> fval" where
  "fv_rem (Finite s p) (Finite t q) = (if q = 0 then NaN else Finite s (p - of_int \<lfloor>p / q\<rfloor> * q))"
| "fv_rem (Finite s p) (Infinity t) = Finite s p"
| "fv_rem _ _ = NaN"

definition f64_rem_euclid :: "f64 \<Rightarrow> f64 \<Rightarrow> f64" where
  "f64_rem_euclid a b =
     (let r = f64_of (fv_rem (f64_val a) (f64_val b))
      in if f64_lt r (f64_lit 0) then f64_add r (b AND NOT (push_bit 63 1)) else r)"

definition F64_PI :: f64 where "F64_PI = 0x400921FB54442D18"

definition to_degrees :: "f64 \<Rightarrow> f64" where "to_degrees x = f64_mul x (f64_div (f64_lit 180) F64_PI)"
definition to_radians :: "f64 \<Rightarrow> f64" where "to_radians x = f64_mul x (f64_div F64_PI (f64_lit 180))"

definition f32_of_u16 :: "u16 \<Rightarrow> f32" where "f32_of_u16 n = f32_of (Finite False (rat_of_nat (unat n)))"

definition f32_as_u16 :: "f32 \<Rightarrow> u16" where
  "f32_as_u16 a = (case f32_val a of
       NaN \<Rightarrow> 0
     | Infinity s \<Rightarrow> if s then 0 else - 1
     | Finite s q \<Rightarrow> if s then 0 else if q < 2 ^ 16 then word_of_nat (nat \<lfloor>q\<rfloor>) else - 1)"

section \<open>The motor (mock/motor.rs)\<close>

definition MAX_ROTOR_SPEED :: f32 where "MAX_ROTOR_SPEED = f32_lit 300"
definition TAU_S :: f32 where "TAU_S = f32_lit (15 / 100)"
definition AMBIENT_C :: f32 where "AMBIENT_C = f32_lit 25"

record sim_motor =
  sm_last_cmd :: motor_command
  sm_omega :: f32
  sm_temp_c :: f32
  sm_volts :: f32
  sm_steps :: u64

definition sim_motor_new :: "f32 \<Rightarrow> sim_motor" where
  "sim_motor_new volts = \<lparr>sm_last_cmd = motor_idle 0 0, sm_omega = f32_lit 0, sm_temp_c = AMBIENT_C, sm_volts = volts, sm_steps = 0\<rparr>"

definition motor_target :: "motor_command \<Rightarrow> f32 option" where
  "motor_target c =
     (case motor_mode_of c of
        Some Speed \<Rightarrow> f32_clamp (mc_value c) (f32_neg MAX_ROTOR_SPEED) MAX_ROTOR_SPEED
      | Some Thrust \<Rightarrow> do { v \<leftarrow> f32_clamp (mc_value c) (f32_lit 0) (f32_lit 1); Some (f32_mul (f32_sqrt v) MAX_ROTOR_SPEED) }
      | _ \<Rightarrow> Some (f32_lit 0))"

definition motor_tick :: "f32 \<Rightarrow> sim_motor \<Rightarrow> sim_motor option" where
  "motor_tick dt_s m = do {
     target \<leftarrow> motor_target (sm_last_cmd m);
     let alpha = f32_min (f32_div dt_s TAU_S) (f32_lit 1);
     let omega = f32_add (sm_omega m) (f32_mul (f32_sub target (sm_omega m)) alpha);
     let heat = f32_sub (f32_mul (f32_div (f32_abs omega) MAX_ROTOR_SPEED) (f32_lit 30)) (f32_sub (sm_temp_c m) AMBIENT_C);
     Some (m\<lparr>sm_omega := omega, sm_temp_c := f32_add (sm_temp_c m) (f32_mul (f32_mul heat alpha) (f32_lit (1 / 10))),
             sm_steps := sm_steps m + 1\<rparr>)
   }"

definition normalized_thrust :: "sim_motor \<Rightarrow> f32" where
  "normalized_thrust m = (let x = f32_div (sm_omega m) MAX_ROTOR_SPEED in f32_mul x x)"

definition motor_apply :: "motor_command \<Rightarrow> sim_motor \<Rightarrow> sim_motor" where
  "motor_apply cmd m = m\<lparr>sm_last_cmd := cmd\<rparr>"

definition motor_read :: "sim_motor \<Rightarrow> motor_telemetry" where
  "motor_read m =
     \<lparr>mt_seq = mc_seq (sm_last_cmd m), mt_timestamp_ns = mc_timestamp_ns (sm_last_cmd m) + sm_steps m * 5000000,
      mt_rpm = sm_omega m, mt_temp_c = sm_temp_c m, mt_volts = sm_volts m, mt_errors = 0\<rparr>"

section \<open>The world (sim/world.rs)\<close>

record rigid_state =
  rs_pos :: "f64 list"
  rs_vel :: "f64 list"
  rs_quat :: "f64 list"
  rs_omega :: "f64 list"
  rs_mass :: f64
  rs_inv_inertia :: "f64 list"
  rs_half :: "f64 list"

definition vec0 :: "f64 list" where "vec0 = replicate 3 (f64_lit 0)"

definition rigid_new :: "libm \<Rightarrow> f64 \<Rightarrow> f64 list \<Rightarrow> f64 list \<Rightarrow> f64 \<Rightarrow> rigid_state" where
  "rigid_new lm mass half pos yaw =
     (let sq = (\<lambda>i. f64_mul (half ! i) (half ! i)); third = f64_div mass (f64_lit 3);
          ix = f64_mul third (f64_add (sq 1) (sq 2)); iy = f64_mul third (f64_add (sq 0) (sq 2));
          iz = f64_mul third (f64_add (sq 0) (sq 1)); h = f64_mul yaw (f64_lit (1 / 2)); one = f64_lit 1
      in \<lparr>rs_pos = pos, rs_vel = vec0, rs_quat = [m_cos lm h, f64_lit 0, f64_lit 0, m_sin lm h], rs_omega = vec0, rs_mass = mass,
          rs_inv_inertia = [f64_div one ix, f64_div one iy, f64_div one iz], rs_half = half\<rparr>)"

text \<open>The products are written from left to right as the code has them.\<close>

definition quat_mul :: "f64 list \<Rightarrow> f64 list \<Rightarrow> f64 list" where
  "quat_mul a b =
     (let p = (\<lambda>i j. f64_mul (a ! i) (b ! j)) in
      [f64_sub (f64_sub (f64_sub (p 0 0) (p 1 1)) (p 2 2)) (p 3 3),
       f64_sub (f64_add (f64_add (p 0 1) (p 1 0)) (p 2 3)) (p 3 2),
       f64_add (f64_add (f64_sub (p 0 2) (p 1 3)) (p 2 0)) (p 3 1),
       f64_add (f64_sub (f64_add (p 0 3) (p 1 2)) (p 2 1)) (p 3 0)])"

definition quat_mul_half :: "f64 list \<Rightarrow> f64 list \<Rightarrow> f64 list" where
  "quat_mul_half q wq = map (f64_mul (f64_lit (1 / 2))) (quat_mul q wq)"

definition quat_rotate :: "f64 list \<Rightarrow> f64 list \<Rightarrow> f64 list" where
  "quat_rotate q v =
     (let two = f64_lit 2; qx = f64_mul (q ! 1) two; qy = f64_mul (q ! 2) two; qz = f64_mul (q ! 3) two;
          tx = f64_sub (f64_mul qy (v ! 2)) (f64_mul qz (v ! 1));
          ty = f64_sub (f64_mul qz (v ! 0)) (f64_mul qx (v ! 2));
          tz = f64_sub (f64_mul qx (v ! 1)) (f64_mul qy (v ! 0))
      in [f64_add (f64_add (v ! 0) (f64_mul (q ! 0) tx)) (f64_sub (f64_mul (q ! 2) tz) (f64_mul (q ! 3) ty)),
          f64_add (f64_add (v ! 1) (f64_mul (q ! 0) ty)) (f64_sub (f64_mul (q ! 3) tx) (f64_mul (q ! 1) tz)),
          f64_add (f64_add (v ! 2) (f64_mul (q ! 0) tz)) (f64_sub (f64_mul (q ! 1) ty) (f64_mul (q ! 2) tx))])"

definition quat_rotate_inv :: "f64 list \<Rightarrow> f64 list \<Rightarrow> f64 list" where
  "quat_rotate_inv q v = quat_rotate [q ! 0, f64_neg (q ! 1), f64_neg (q ! 2), f64_neg (q ! 3)] v"

definition quat_to_euler :: "libm \<Rightarrow> f64 list \<Rightarrow> (f64 \<times> f64 \<times> f64) option" where
  "quat_to_euler lm q =
     (let w = q ! 0; x = q ! 1; y = q ! 2; z = q ! 3; one = f64_lit 1; two = f64_lit 2;
          roll = m_atan2 lm (f64_mul two (f64_add (f64_mul w x) (f64_mul y z)))
                            (f64_sub one (f64_mul two (f64_add (f64_mul x x) (f64_mul y y))));
          yaw = m_atan2 lm (f64_mul two (f64_add (f64_mul w z) (f64_mul x y)))
                           (f64_sub one (f64_mul two (f64_add (f64_mul y y) (f64_mul z z))))
      in do { s \<leftarrow> f64_clamp (f64_mul two (f64_sub (f64_mul w y) (f64_mul z x))) (f64_lit (-1)) one; Some (yaw, m_asin lm s, roll) })"

record world =
  wd_bodies :: "rigid_state list"
  wd_force :: "f64 list list"
  wd_torque :: "f64 list list"
  wd_gravity :: "f64 list"
  wd_restitution :: f64

definition world_new :: "f64 list \<Rightarrow> world" where
  "world_new g = \<lparr>wd_bodies = [], wd_force = [], wd_torque = [], wd_gravity = g, wd_restitution = f64_lit (2 / 10)\<rparr>"

definition add_box :: "libm \<Rightarrow> f64 \<Rightarrow> f64 list \<Rightarrow> f64 list \<Rightarrow> f64 \<Rightarrow> world \<Rightarrow> nat \<times> world" where
  "add_box lm mass half pos yaw w =
     (length (wd_bodies w),
      w\<lparr>wd_bodies := wd_bodies w @ [rigid_new lm mass half pos yaw], wd_force := wd_force w @ [vec0], wd_torque := wd_torque w @ [vec0]\<rparr>)"

definition vec_add :: "f64 list \<Rightarrow> f64 list \<Rightarrow> f64 list" where
  "vec_add a b = map2 f64_add a b"

definition add_force :: "nat \<Rightarrow> f64 list \<Rightarrow> world \<Rightarrow> world option" where
  "add_force i f w = (if i < length (wd_force w) then Some (w\<lparr>wd_force := (wd_force w)[i := vec_add (wd_force w ! i) f]\<rparr>) else None)"

definition add_torque :: "nat \<Rightarrow> f64 list \<Rightarrow> world \<Rightarrow> world option" where
  "add_torque i t w = (if i < length (wd_torque w) then Some (w\<lparr>wd_torque := (wd_torque w)[i := vec_add (wd_torque w ! i) t]\<rparr>) else None)"

text \<open>One body: the velocity and position, the angular velocity, the attitude, and the ground contact.\<close>

definition integrate :: "f64 list \<Rightarrow> f64 list \<Rightarrow> f64 \<Rightarrow> rigid_state \<Rightarrow> rigid_state" where
  "integrate g force dt b =
     (let vel = map (\<lambda>k. f64_add (rs_vel b ! k) (f64_mul (f64_add (g ! k) (f64_div (force ! k) (rs_mass b))) dt)) [0..<3]
      in b\<lparr>rs_vel := vel, rs_pos := map (\<lambda>k. f64_add (rs_pos b ! k) (f64_mul (vel ! k) dt)) [0..<3]\<rparr>)"

definition gyro :: "rigid_state \<Rightarrow> f64 list" where
  "gyro b =
     (let one = f64_lit 1; ix = f64_div one (rs_inv_inertia b ! 0); iy = f64_div one (rs_inv_inertia b ! 1);
          iz = f64_div one (rs_inv_inertia b ! 2); w = rs_omega b;
          d = (\<lambda>i m j n. f64_sub (f64_mul (f64_mul (w ! i) m) (w ! j)) (f64_mul (f64_mul (w ! j) n) (w ! i)))
      in [d 1 iz 2 iy, d 2 ix 0 iz, d 0 iy 1 ix])"

definition spin :: "f64 list \<Rightarrow> f64 \<Rightarrow> rigid_state \<Rightarrow> rigid_state" where
  "spin torque dt b =
     b\<lparr>rs_omega := map (\<lambda>k. f64_add (rs_omega b ! k)
         (f64_mul (f64_mul (rs_inv_inertia b ! k) (f64_sub (torque ! k) (gyro b ! k))) dt)) [0..<3]\<rparr>"

definition turn :: "f64 \<Rightarrow> rigid_state \<Rightarrow> rigid_state" where
  "turn dt b =
     (let q_dot = quat_mul_half (rs_quat b) (f64_lit 0 # rs_omega b);
          q = map (\<lambda>k. f64_add (rs_quat b ! k) (f64_mul (q_dot ! k) dt)) [0..<4]; sq = (\<lambda>i. f64_mul (q ! i) (q ! i));
          n = f64_sqrt (f64_add (f64_add (f64_add (sq 0) (sq 1)) (sq 2)) (sq 3))
      in b\<lparr>rs_quat := (if f64_lt (f64_lit (1 / 10 ^ 12)) n then map (\<lambda>x. f64_div x n) q else q)\<rparr>)"

definition ground :: "f64 \<Rightarrow> rigid_state \<Rightarrow> rigid_state" where
  "ground restitution b =
     (let bottom = f64_sub (rs_pos b ! 2) (rs_half b ! 2); vz = rs_vel b ! 2 in
      if f64_lt bottom (f64_lit 0) then
        b\<lparr>rs_pos := (rs_pos b)[2 := rs_half b ! 2],
          rs_vel := [f64_mul (rs_vel b ! 0) (f64_lit (985 / 1000)), f64_mul (rs_vel b ! 1) (f64_lit (985 / 1000)),
            if f64_lt vz (f64_lit 0)
            then (if f64_lt (f64_neg vz) (f64_lit (5 / 100)) then f64_lit 0 else f64_mul (f64_neg vz) restitution) else vz],
          rs_omega := map (\<lambda>w. f64_mul w (f64_lit (97 / 100))) (rs_omega b)\<rparr>
      else b)"

definition step_body :: "f64 list \<Rightarrow> f64 \<Rightarrow> f64 \<Rightarrow> f64 list \<Rightarrow> f64 list \<Rightarrow> rigid_state \<Rightarrow> rigid_state" where
  "step_body g restitution dt force torque b = ground restitution (turn dt (spin torque dt (integrate g force dt b)))"

definition world_step :: "f64 \<Rightarrow> world \<Rightarrow> world" where
  "world_step dt w =
     w\<lparr>wd_bodies := map (\<lambda>i. step_body (wd_gravity w) (wd_restitution w) dt (wd_force w ! i) (wd_torque w ! i) (wd_bodies w ! i)) [0..<length (wd_bodies w)],
       wd_force := map (\<lambda>_. vec0) (wd_force w), wd_torque := map (\<lambda>_. vec0) (wd_torque w)\<rparr>"

definition get_body :: "nat \<Rightarrow> world \<Rightarrow> rigid_state option" where
  "get_body i w = (if i < length (wd_bodies w) then Some (wd_bodies w ! i) else None)"

definition world_euler :: "libm \<Rightarrow> nat \<Rightarrow> world \<Rightarrow> (f64 \<times> f64 \<times> f64) option" where
  "world_euler lm i w = do { b \<leftarrow> get_body i w; quat_to_euler lm (rs_quat b) }"

definition rotate_to_body :: "nat \<Rightarrow> f64 list \<Rightarrow> world \<Rightarrow> f64 list option" where
  "rotate_to_body i v w = do { b \<leftarrow> get_body i w; Some (quat_rotate_inv (rs_quat b) v) }"

definition rotate_to_world :: "nat \<Rightarrow> f64 list \<Rightarrow> world \<Rightarrow> f64 list option" where
  "rotate_to_world i v w = do { b \<leftarrow> get_body i w; Some (quat_rotate (rs_quat b) v) }"

section \<open>The quadrotor (sim/drone.rs, sim/mod.rs)\<close>

definition DT_S :: f64 where "DT_S = f64_lit (5 / 1000)"
definition N_MOTORS :: nat where "N_MOTORS = 4"
definition ARM_M :: f64 where "ARM_M = f64_lit (22 / 100)"
definition MASS_KG :: f64 where "MASS_KG = f64_lit (11 / 10)"
definition MAX_ROTOR_THRUST_N :: f64 where "MAX_ROTOR_THRUST_N = f64_lit 5"
definition YAW_COEF :: f64 where "YAW_COEF = f64_lit (9 / 10000)"

definition ROTOR_POS :: "(f64 \<times> f64) list" where
  "ROTOR_POS = [(f64_neg ARM_M, ARM_M), (ARM_M, ARM_M), (f64_neg ARM_M, f64_neg ARM_M), (ARM_M, f64_neg ARM_M)]"

record quad_drone =
  qd_body :: nat
  qd_motors :: "sim_motor list"
  qd_prev_vel :: "f64 list"
  qd_cmd_seq :: u64

definition drone_spawn :: "libm \<Rightarrow> world \<Rightarrow> quad_drone \<times> world" where
  "drone_spawn lm w =
     (let half = [f64_lit (12 / 100), f64_lit (12 / 100), f64_lit (45 / 1000)];
          (body, w') = add_box lm MASS_KG half [f64_lit 0, f64_lit 0, f64_add (half ! 2) (f64_lit (2 / 100))] (f64_lit 0) w
      in (\<lparr>qd_body = body, qd_motors = replicate N_MOTORS (sim_motor_new (f32_lit 16)), qd_prev_vel = vec0, qd_cmd_seq = 1\<rparr>, w'))"

definition u16_of_be :: "u8 \<Rightarrow> u8 \<Rightarrow> u16" where
  "u16_of_be hi lo = push_bit 8 (ucast hi) OR ucast lo"

definition handle_can :: "can_frame \<Rightarrow> quad_drone \<Rightarrow> bool \<times> quad_drone" where
  "handle_can frame d =
     (if cf_id frame \<noteq> MOTOR_CMD \<or> cf_len frame < 8 then (False, d)
      else
        (True, d\<lparr>qd_motors := map (\<lambda>i.
            let raw = u16_of_be (cf_data frame ! (i * 2)) (cf_data frame ! (i * 2 + 1)) in
            motor_apply \<lparr>mc_seq = qd_cmd_seq d, mc_timestamp_ns = qd_cmd_seq d * 5000000, mc_mode = motor_as_u8 Thrust,
              mc_reserved = replicate 3 0, mc_value = f32_div (f32_of_u16 raw) (f32_of_u16 (- 1))\<rparr> (qd_motors d ! i)) [0..<N_MOTORS],
          qd_cmd_seq := qd_cmd_seq d + 1\<rparr>))"

definition thrusts :: "quad_drone \<Rightarrow> f32 list" where
  "thrusts d = map normalized_thrust (qd_motors d)"

fun tick_motors :: "f32 \<Rightarrow> sim_motor list \<Rightarrow> sim_motor list option" where
  "tick_motors dt [] = Some []"
| "tick_motors dt (m # ms) = do { m' \<leftarrow> motor_tick dt m; ms' \<leftarrow> tick_motors dt ms; Some (m' # ms') }"

definition rotor_sums :: "sim_motor list \<Rightarrow> f64 \<times> f64 \<times> f64" where
  "rotor_sums ms =
     foldl (\<lambda>(fz, tau_x, tau_y) ((px, py), m).
         let fi = f64_mul (f64_of_f32 (normalized_thrust m)) MAX_ROTOR_THRUST_N
         in (f64_add fz fi, f64_add tau_x (f64_mul py fi), f64_add tau_y (f64_mul (f64_neg px) fi)))
       (f64_lit 0, f64_lit 0, f64_lit 0) (zip ROTOR_POS ms)"

text \<open>The sum of an iterator of floats starts from minus zero.\<close>

definition omega_sum :: "sim_motor list \<Rightarrow> nat list \<Rightarrow> f64" where
  "omega_sum ms idx = foldl f64_add (f64_neg (f64_lit 0)) (map (\<lambda>i. f64_of_f32 (sm_omega (ms ! i))) idx)"

definition apply_actuation :: "f64 \<Rightarrow> quad_drone \<Rightarrow> world \<Rightarrow> (quad_drone \<times> world) option" where
  "apply_actuation dt_s d w = do {
     ms \<leftarrow> tick_motors (f32_of_f64 dt_s) (qd_motors d);
     let (fz, tau_x, tau_y) = rotor_sums ms;
     let tau_z = f64_mul YAW_COEF (f64_sub (omega_sum ms [0, 3]) (omega_sum ms [1, 2]));
     up \<leftarrow> rotate_to_world (qd_body d) [f64_lit 0, f64_lit 0, fz] w;
     w1 \<leftarrow> add_force (qd_body d) up w;
     w2 \<leftarrow> add_torque (qd_body d) [tau_x, tau_y, tau_z] w1;
     Some (d\<lparr>qd_motors := ms\<rparr>, w2)
   }"

definition LAT0 :: f64 where "LAT0 = f64_lit (476062 / 10000)"
definition LON0 :: f64 where "LON0 = f64_lit (- 1223321 / 10000)"

definition gps_update :: "libm \<Rightarrow> rigid_state \<Rightarrow> gps_sample \<Rightarrow> gps_sample" where
  "gps_update lm s gps =
     (let metres = f64_lit 111320; pos = rs_pos s; vel = rs_vel s; ground_speed = m_hypot lm (vel ! 0) (vel ! 1);
          g1 = gps\<lparr>gps_seq := gps_seq gps + 1, gps_lat_deg := f64_add LAT0 (f64_div (pos ! 0) metres),
            gps_lon_deg := f64_add LON0 (f64_div (pos ! 1) (f64_mul metres (m_cos lm (to_radians LAT0)))), gps_alt_m := pos ! 2,
            gps_speed_mps := f32_of_f64 ground_speed\<rparr>;
          g2 = (if f64_lt (f64_lit (1 / 10)) ground_speed
                then g1\<lparr>gps_course_deg := f32_of_f64 (f64_rem_euclid (to_degrees (m_atan2 lm (vel ! 1) (vel ! 0))) (f64_lit 360))\<rparr> else g1)
      in g2\<lparr>gps_sats := 14, gps_fix_ok := 1\<rparr>)"

definition post_step ::
    "libm \<Rightarrow> f64 \<Rightarrow> world \<Rightarrow> quad_drone \<Rightarrow> imu_sample \<Rightarrow> gps_sample \<Rightarrow> (quad_drone \<times> imu_sample \<times> gps_sample \<times> pose6d) option" where
  "post_step lm dt w d imu gps = do {
     s \<leftarrow> get_body (qd_body d) w;
     let g = f64_lit (981 / 100);
     let acc = map (\<lambda>k. f64_div (f64_sub (rs_vel s ! k) (qd_prev_vel d ! k)) dt) [0..<3];
     spec_body \<leftarrow> rotate_to_body (qd_body d) [acc ! 0, acc ! 1, f64_add (acc ! 2) g] w;
     (yaw, pitch, roll) \<leftarrow> world_euler lm (qd_body d) w;
     Some (d\<lparr>qd_prev_vel := rs_vel s\<rparr>,
       imu\<lparr>imu_seq := imu_seq imu + 1, imu_gyro_rps := map (\<lambda>k. f32_of_f64 (rs_omega s ! k)) [0..<3],
           imu_accel_g := map (\<lambda>k. f32_of_f64 (f64_div (spec_body ! k) g)) [0..<3]\<rparr>,
       gps_update lm s gps,
       \<lparr>pose_x = rs_pos s ! 0, pose_y = rs_pos s ! 1, pose_z = rs_pos s ! 2, pose_yaw = f32_of_f64 yaw,
        pose_pitch = f32_of_f64 pitch, pose_roll = f32_of_f64 roll, pose_reserved = 0\<rparr>)
   }"

section \<open>Bodies stay above the ground\<close>

lemma mag_val_multiple: "\<exists>k. mag_val m e n = rat_of_nat k * two_pow (e_min e - int m)"
proof (cases "n div 2 ^ m = 0")
  case True
  then show ?thesis by (auto simp: mag_val_def Let_def)
next
  case False
  then have "mag_val m e n = rat_of_nat (2 ^ m + n mod 2 ^ m) * two_pow (e_min e - int m + int (n div 2 ^ m - 1))"
    by (simp add: mag_val_def Let_def)
  also have "\<dots> = rat_of_nat ((2 ^ m + n mod 2 ^ m) * 2 ^ (n div 2 ^ m - 1)) * two_pow (e_min e - int m)"
    unfolding two_pow_add two_pow_nat by (simp add: algebra_simps)
  finally show ?thesis by blast
qed

text \<open>Two different floats are at least the smallest subnormal apart, so their difference does not round
  to zero.\<close>

lemma mag_bits_multiple:
  assumes "0 < m" and "0 < k" and "d = of_int k * two_pow (e_min e - int m)"
  shows "0 < mag_bits m e d"
proof -
  have "mag_val m e 1 = two_pow (e_min e - int m)" using assms(1) one_less_power [of "2::nat" m] by (simp add: mag_val_def Let_def)
  moreover have "two_pow (e_min e - int m) \<le> d" using assms(2,3) mult_right_mono [of 1 "rat_of_int k" "two_pow (e_min e - int m)"]
    by (simp add: less_imp_le)
  ultimately have "mag_bits m e (mag_val m e 1) \<le> mag_bits m e d" by (intro mag_bits_mono) simp
  then show ?thesis by (simp add: mag_bits_of_val)
qed

lemma f64_val_multiple: "f64_val a = Finite s p \<Longrightarrow> \<exists>k::nat. p = rat_of_nat k * two_pow (e_min 11 - 52)"
  using mag_val_multiple [of 52 11] by (fastforce simp: f64_val_def fl_val_def Let_def split: if_splits)

lemma f64_sub_negative:
  assumes "f64_lt a b"
  shows "f64_lt (f64_sub a b) (f64_lit 0)"
proof (cases "f64_val a")
  case (Finite s p)
  show ?thesis
  proof (cases "f64_val b")
    case b: (Finite t q)
    obtain k l :: nat where kl: "p = rat_of_nat k * two_pow (e_min 11 - 52)" "q = rat_of_nat l * two_pow (e_min 11 - 52)"
      using f64_val_multiple [OF Finite] f64_val_multiple [OF b] by blast
    define d where "d = (if t then - int l else int l) - (if s then - int k else int k)"
    have e: "sgn_val t q - sgn_val s p = of_int d * two_pow (e_min 11 - 52)" by (simp add: d_def kl sgn_val_def algebra_simps)
    have pos: "sgn_val s p < sgn_val t q" using assms Finite b by (simp add: f64_lt_def)
    then have "0 < rat_of_int d * two_pow (e_min 11 - 52)" using e by linarith
    then have "0 < d" using two_pow_pos [of "e_min 11 - 52"] by (simp add: zero_less_mult_iff)
    moreover have "\<bar>sgn_val s p - sgn_val t q\<bar> = of_int d * two_pow (e_min 11 - 52)" using e pos by linarith
    ultimately have d: "0 < d" "\<bar>sgn_val s p - sgn_val t q\<bar> = of_int d * two_pow (e_min 11 - 52)" "sgn_val s p - sgn_val t q < 0"
      using pos by simp_all
    have mb: "0 < mag_bits 52 11 \<bar>sgn_val s p - sgn_val t q\<bar>" using mag_bits_multiple [of 52 d _ 11] d by simp
    have "fv_sub (Finite s p) (Finite t q) = Finite True \<bar>sgn_val s p - sgn_val t q\<bar>"
      using d(3) by (cases t) (auto simp: fv_sub_def sgn_val_def Let_def)
    moreover have "0 < mag_val 52 11 (mag_bits 52 11 \<bar>sgn_val s p - sgn_val t q\<bar>)"
      using mb mag_val_zero_iff [of 52 11] mag_val_nonneg [of 52 11] by (metis less_le not_less_zero)
    ultimately show ?thesis unfolding f64_lt_def f64_sub_def f64_val_of Finite b by (simp add: rnd_simps sgn_val_def)
  qed (use assms Finite in \<open>auto simp: f64_lt_def f64_sub_def f64_val_of fv_sub_def rnd_simps\<close>)
next
  case (Infinity s)
  then show ?thesis using assms by (cases "f64_val b") (auto simp: f64_lt_def f64_sub_def f64_val_of fv_sub_def rnd_simps)
qed (use assms in \<open>auto simp: f64_lt_def\<close>)

lemma f64_lt_irrefl [simp]: "\<not> f64_lt a a"
  by (cases "f64_val a") (auto simp: f64_lt_def)

lemma ground_above: "2 < length (rs_pos b) \<Longrightarrow> \<not> f64_lt (rs_pos (ground r b) ! 2) (rs_half (ground r b) ! 2)"
  using f64_sub_negative [of "rs_pos b ! 2" "rs_half b ! 2"] by (auto simp: ground_def Let_def)

lemma step_body_above: "\<not> f64_lt (rs_pos (step_body g r dt f t b) ! 2) (rs_half (step_body g r dt f t b) ! 2)"
  unfolding step_body_def by (rule ground_above) (simp add: turn_def spin_def integrate_def Let_def)

section \<open>Rotor speeds stay bounded\<close>

definition fin_in :: "rat \<Rightarrow> rat \<Rightarrow> fval \<Rightarrow> bool" where
  "fin_in lo hi v \<longleftrightarrow> fv_wf v \<and> (\<exists>s q. v = Finite s q \<and> lo \<le> sgn_val s q \<and> sgn_val s q \<le> hi)"

definition exact32 :: "rat \<Rightarrow> bool" where
  "exact32 r \<longleftrightarrow> (\<exists>w s q. f32_val w = Finite s q \<and> sgn_val s q = r)"

lemma rnd_in:
  assumes "exact32 lo" and "exact32 hi" and "fin_in lo hi v"
  shows "fin_in lo hi (rnd 23 8 v)"
proof -
  obtain a s p where a: "f32_val a = Finite s p" "sgn_val s p = lo" using assms(1) by (auto simp: exact32_def)
  obtain b t q where b: "f32_val b = Finite t q" "sgn_val t q = hi" using assms(2) by (auto simp: exact32_def)
  have "fv_le (f32_val a) v" "fv_le v (f32_val b)" "fv_wf v" using assms(3) a b by (auto simp: fin_in_def fv_le_finite)
  then have "fv_le (f32_val a) (rnd 23 8 v)" "fv_le (rnd 23 8 v) (f32_val b)"
    using rnd_mono [of 23 8 "f32_val a" v] rnd_mono [of 23 8 v "f32_val b"] by (simp_all add: f32_val_rnd)
  then show ?thesis unfolding a b using a(2) b(2) rnd_wf [of 23 8 v]
    by (cases "rnd 23 8 v") (auto simp: fin_in_def fv_le_finite fv_le_def)
qed

text \<open>The arithmetic on bounded finite values, before rounding.\<close>

lemma fin_in_add: "fin_in a b u \<Longrightarrow> fin_in c d v \<Longrightarrow> fin_in (a + c) (b + d) (fv_add u v)"
proof -
  have "sgn_val (r < 0) \<bar>r\<bar> = r" for r by (simp add: sgn_val_def)
  moreover assume "fin_in a b u" "fin_in c d v"
  ultimately show ?thesis by (auto simp: fin_in_def fv_wf_def Let_def sgn_val_def [of _ 0] add_mono split: if_splits)
qed

lemma fin_in_neg: "fin_in a b u \<Longrightarrow> fin_in (- b) (- a) (fv_neg u)"
proof -
  have "sgn_val (\<not> s) q = - sgn_val s q" for s q by (simp add: sgn_val_def)
  moreover assume "fin_in a b u"
  ultimately show ?thesis by (auto simp: fin_in_def fv_wf_def)
qed

lemma fin_in_sub: "fin_in a b u \<Longrightarrow> fin_in c d v \<Longrightarrow> fin_in (a - d) (b - c) (fv_sub u v)"
  using fin_in_add [OF _ fin_in_neg, of a b u c d v] by (simp add: fv_sub_def)

lemma fin_in_scale:
  assumes "fin_in a b u" and "fin_in 0 c v" and "a \<le> 0" and "0 \<le> b"
  shows "fin_in (a * c) (b * c) (fv_mul u v)"
proof -
  obtain s p t q where u: "u = Finite s p" "a \<le> sgn_val s p" "sgn_val s p \<le> b" "0 \<le> p"
    and v: "v = Finite t q" "0 \<le> sgn_val t q" "sgn_val t q \<le> c" "0 \<le> q"
    using assms(1,2) by (auto simp: fin_in_def fv_wf_def)
  have e: "sgn_val (s \<noteq> t) (p * q) = sgn_val s p * sgn_val t q" by (simp add: sgn_val_def)
  have "sgn_val s p * sgn_val t q \<le> b * sgn_val t q" "a * sgn_val t q \<le> sgn_val s p * sgn_val t q"
    using u v by (auto intro: mult_right_mono)
  moreover have "b * sgn_val t q \<le> b * c" "a * c \<le> a * sgn_val t q"
    using assms(3,4) v by (auto intro: mult_left_mono mult_left_mono_neg)
  ultimately have "sgn_val s p * sgn_val t q \<le> b * c" "a * c \<le> sgn_val s p * sgn_val t q" by linarith+
  then show ?thesis unfolding fin_in_def u v fv_mul.simps using u(4) v(4) e by (simp add: fv_wf_def)
qed

lemma fin_in_mono: "fin_in a b v \<Longrightarrow> c \<le> a \<Longrightarrow> b \<le> d \<Longrightarrow> fin_in c d v"
  by (auto simp: fin_in_def)

lemma f32_val_consts:
  "f32_val 0x3C000000 = Finite False (1 / 128)" "f32_val 0x3D800000 = Finite False (1 / 16)" "f32_val 0x3E000000 = Finite False (1 / 8)"
  "f32_val 0x3F800000 = Finite False 1" "f32_val 0x40000000 = Finite False 2" "f32_val 0x41A00000 = Finite False 20"
  "f32_val 0x41A80000 = Finite False 21" "f32_val 0x43960000 = Finite False 300" "f32_val 0x43968000 = Finite False 301"
  "f32_val 0x477FFF00 = Finite False 65535"
  by (simp_all add: f32_val_def fl_val_def mag_val_def two_pow_def e_min_def Let_def)

lemma exact32_consts:
  "exact32 0" "exact32 1" "exact32 2" "exact32 20" "exact32 21" "exact32 300" "exact32 301" "exact32 65535"
  "exact32 (1 / 128)" "exact32 (1 / 16)" "exact32 (1 / 8)"
  unfolding exact32_def using f32_val_consts f32_val_zero by (metis sgn_val_def)+

lemma exact32_val: "f32_val w = Finite s q \<Longrightarrow> exact32 (sgn_val s q) \<and> exact32 (- sgn_val s q)"
  unfolding exact32_def using f32_val_neg [of w] by (metis fv_neg.simps(3) sgn_val_def minus_minus)

text \<open>One lag step from a speed within 0 and 301 towards a target within 0 and 300.\<close>

lemma lag_bounded:
  assumes "fin_in 0 301 (f32_val om)" and "fin_in 0 300 (f32_val tg)" and "fin_in 0 (1 / 16) (f32_val al)"
  shows "fin_in 0 301 (f32_val (f32_add om (f32_mul (f32_sub tg om) al)))"
proof -
  obtain s p where om: "f32_val om = Finite s p" "0 \<le> sgn_val s p" "sgn_val s p \<le> 301" using assms(1) by (auto simp: fin_in_def)
  obtain t q where tg: "f32_val tg = Finite t q" "0 \<le> sgn_val t q" "sgn_val t q \<le> 300" using assms(2) by (auto simp: fin_in_def)
  let ?o = "sgn_val s p" and ?t = "sgn_val t q"
  have wf: "fv_wf (Finite s p)" "fv_wf (Finite t q)" using f32_val_wf [of om] f32_val_wf [of tg] om tg by simp_all
  have fo: "fin_in ?o ?o (f32_val om)" and ft: "fin_in ?t ?t (f32_val tg)" using om tg wf by (auto simp: fin_in_def)
  obtain hi d :: rat where h: "exact32 hi" "exact32 d" "0 \<le> hi" "?t - ?o \<le> hi" "hi / 16 \<le> d" "?o + d \<le> 301"
  proof -
    consider "?o \<le> 280" | "280 < ?o" "?o \<le> 299" | "299 < ?o" "?o < ?t" | "?t \<le> ?o" by linarith
    then show ?thesis
    proof cases
      case 1 then show ?thesis using that [of 300 21] tg om exact32_consts by simp
    next
      case 2 then show ?thesis using that [of 20 2] tg om exact32_consts by simp
    next
      case 3 then show ?thesis using that [of 1 1] tg om exact32_consts by simp
    next
      case 4 then show ?thesis using that [of 0 0] tg om exact32_consts by simp
    qed
  qed
  have neg: "exact32 (- ?o)" using exact32_val [OF om(1)] by simp
  have "fin_in (- ?o) hi (fv_sub (f32_val tg) (f32_val om))" using h(4) tg(2) by (intro fin_in_mono [OF fin_in_sub [OF ft fo]]) simp_all
  then have x: "fin_in (- ?o) hi (f32_val (f32_sub tg om))" unfolding f32_sub_def f32_val_of by (rule rnd_in [OF neg h(1)])
  have "fin_in (- ?o) d (fv_mul (f32_val (f32_sub tg om)) (f32_val al))"
    using om(2) h(3,5) by (intro fin_in_mono [OF fin_in_scale [OF x assms(3)]]) simp_all
  then have y: "fin_in (- ?o) d (f32_val (f32_mul (f32_sub tg om) al))" unfolding f32_mul_def f32_val_of by (rule rnd_in [OF neg h(2)])
  have "fin_in 0 301 (fv_add (f32_val om) (f32_val (f32_mul (f32_sub tg om) al)))"
    using h(6) by (intro fin_in_mono [OF fin_in_add [OF fo y]]) simp_all
  then show ?thesis unfolding f32_add_def f32_val_of by (rule rnd_in [OF exact32_consts(1,7)])
qed

lemma isqrt_bits_spec:
  "r * r \<le> n \<Longrightarrow> n < (r + 2 ^ k) * (r + 2 ^ k) \<Longrightarrow>
     isqrt_bits k r n * isqrt_bits k r n \<le> n \<and> n < (isqrt_bits k r n + 1) * (isqrt_bits k r n + 1)"
proof (induction k arbitrary: r)
  case (Suc k)
  have e: "r + 2 ^ Suc k = (r + 2 ^ k) + 2 ^ k" by simp
  show ?case
  proof (cases "(r + 2 ^ k) * (r + 2 ^ k) \<le> n")
    case True
    then show ?thesis using Suc.IH [of "r + 2 ^ k"] Suc.prems(2) unfolding e by (simp add: Let_def)
  next
    case False
    then show ?thesis using Suc.IH [of r] Suc.prems(1) by (simp add: Let_def)
  qed
qed simp

lemma isqrt_spec: "isqrt n * isqrt n \<le> n" "n < (isqrt n + 1) * (isqrt n + 1)"
proof -
  have "n < 2 ^ bit_width n * 2 ^ bit_width n"
    using bit_width_upper [of n] less_le_trans [of n "2 ^ bit_width n" "2 ^ bit_width n * 2 ^ bit_width n"] by simp
  then show "isqrt n * isqrt n \<le> n" "n < (isqrt n + 1) * (isqrt n + 1)"
    unfolding isqrt_def using isqrt_bits_spec [of 0 n "bit_width n"] by simp_all
qed

lemma sqrt_mag_unit:
  assumes "0 \<le> q" and "q \<le> 1"
  shows "0 \<le> sqrt_mag q \<and> sqrt_mag q \<le> 1"
proof -
  define P :: nat where "P = 2 ^ 600"
  define r where "r = isqrt (nat \<lfloor>q * 4 ^ 600\<rfloor>)"
  have P: "(4::rat) ^ 600 = of_nat (P * P)" "(2::rat) ^ 600 = of_nat P" "0 < P" by (simp_all add: P_def)
  have "rat_of_nat (r * r) \<le> of_nat (nat \<lfloor>q * 4 ^ 600\<rfloor>)" unfolding r_def using isqrt_spec(1) by (simp only: of_nat_le_iff)
  also have "\<dots> \<le> q * of_nat (P * P)" using assms(1) unfolding P(1) by (simp add: of_nat_nat)
  finally have rq: "rat_of_nat (r * r) \<le> q * of_nat (P * P)" .
  also have "\<dots> \<le> of_nat (P * P)" using assms mult_right_mono [of q 1 "of_nat (P * P)"] by simp
  finally have "r * r \<le> P * P" by (simp only: of_nat_le_iff)
  then have le: "r \<le> P" by (metis mult_le_mono nat_mult_le_cancel_disj le_cases le_antisym mult_le_cancel1 power2_eq_square power2_nat_le_eq_le)
  have "r < P" if "rat_of_nat (r * r) \<noteq> q * of_nat (P * P)"
  proof (rule ccontr)
    assume "\<not> r < P"
    then have "r = P" using le by simp
    then show False using that rq assms(2) mult_right_mono [of q 1 "of_nat (P * P)"] by simp
  qed
  moreover have "rat_of_nat r + 1 / 2 \<le> of_nat P" if "r < P"
  proof -
    have "rat_of_nat (Suc r) \<le> of_nat P" using that by (simp only: of_nat_le_iff Suc_leI)
    then show ?thesis by simp
  qed
  ultimately have "rat_of_nat (r * r) \<noteq> q * of_nat (P * P) \<Longrightarrow> rat_of_nat r + 1 / 2 \<le> of_nat P" by blast
  moreover have "sqrt_mag q = (if rat_of_nat (r * r) = q * of_nat (P * P) then of_nat r else of_nat r + 1 / 2) / of_nat P"
    by (simp only: sqrt_mag_def Let_def r_def P(1,2))
  ultimately show ?thesis using le P(3) by (simp add: divide_le_eq)
qed

lemma fin_in_sqrt: "fin_in 0 1 v \<Longrightarrow> fin_in 0 1 (fv_sqrt v)"
proof -
  assume "fin_in 0 1 v"
  then obtain s q where v: "v = Finite s q" "0 \<le> sgn_val s q" "sgn_val s q \<le> 1" "0 \<le> q" by (auto simp: fin_in_def fv_wf_def)
  then have "s \<Longrightarrow> q = 0" "\<not> s \<Longrightarrow> q \<le> 1" by (auto simp: sgn_val_def)
  then show ?thesis using v sqrt_mag_unit [of q] by (auto simp: fin_in_def fv_wf_def sgn_val_def)
qed

lemma fin_in_div:
  assumes "fin_in 0 b u" and "fin_in c d v" and "0 < c" and "b \<le> k * c"
  shows "fin_in 0 k (fv_div u v)"
proof -
  obtain s p where u: "u = Finite s p" "0 \<le> sgn_val s p" "sgn_val s p \<le> b" "0 \<le> p" using assms(1) by (auto simp: fin_in_def fv_wf_def)
  obtain t q where v: "v = Finite t q" "c \<le> sgn_val t q" "0 \<le> q" using assms(2) by (auto simp: fin_in_def fv_wf_def)
  have t: "\<not> t" "0 < q" "c \<le> q" using v assms(3) by (auto simp: sgn_val_def split: if_splits)
  have sp: "sgn_val s p = p" using u(2,4) by (auto simp: sgn_val_def)
  have "0 \<le> k" using assms(3,4) u(2,3) zero_le_mult_iff [of k c] by linarith
  then have "k * c \<le> k * q" using t(3) by (intro mult_left_mono)
  then have "p / q \<le> k" using t(2) u(3) sp assms(4) by (simp add: divide_le_eq)
  then show ?thesis using u v t sp by (auto simp: fin_in_def fv_wf_def sgn_val_def split: if_splits)
qed

lemma rnd32: "fin_in lo hi v \<Longrightarrow> exact32 lo \<Longrightarrow> exact32 hi \<Longrightarrow> fin_in lo hi (f32_val (f32_of v))"
  unfolding f32_val_of by (rule rnd_in)

lemma f32_lit_in: "exact32 lo \<Longrightarrow> exact32 hi \<Longrightarrow> lo \<le> q \<Longrightarrow> q \<le> hi \<Longrightarrow> fin_in lo hi (f32_val (f32_lit q))"
  unfolding f32_lit_def by (rule rnd32) (auto simp: fin_in_def fv_wf_def sgn_val_def)

lemma f32_lit_exact: "exact32 q \<Longrightarrow> fin_in q q (f32_val (f32_lit q))"
  by (rule f32_lit_in) simp_all

lemma fin_in_le: "fin_in lo hi v \<Longrightarrow> fin_in c d u \<Longrightarrow> hi \<le> c \<Longrightarrow> fv_le v u"
  by (auto simp: fin_in_def fv_le_finite)

text \<open>The factor of the lag for the fixed time step.\<close>

lemma f64_val_step: "fin_in 0 (1 / 128) (f64_val DT_S)"
proof -
  have w: "f64_val 0x3F80000000000000 = Finite False (1 / 128)"
    by (simp add: f64_val_def fl_val_def mag_val_def two_pow_def e_min_def Let_def)
  have e: "f64_val (f64_lit (1 / 128)) = Finite False (1 / 128)"
    using f64_val_rnd [of "0x3F80000000000000"] unfolding f64_lit_def f64_val_of w by simp
  have "f64_le (f64_lit 0) DT_S" "f64_le DT_S (f64_lit (1 / 128))" unfolding DT_S_def by (rule f64_lit_mono; simp)+
  then show ?thesis using f64_val_wf [of DT_S] unfolding f64_le_def e
    by (cases "f64_val DT_S") (auto simp: fin_in_def fv_le_finite sgn_val_def fv_le_def)
qed

lemma step_factor: "fin_in 0 (1 / 16) (f32_val (f32_min (f32_div (f32_of_f64 DT_S) TAU_S) (f32_lit 1)))"
proof -
  have "fin_in 0 (1 / 128) (f32_val (f32_of_f64 DT_S))" unfolding f32_of_f64_def by (rule rnd32 [OF f64_val_step]) (rule exact32_consts)+
  moreover have "fin_in (1 / 8) 1 (f32_val TAU_S)" unfolding TAU_S_def by (rule f32_lit_in) (simp_all add: exact32_consts)
  ultimately have "fin_in 0 (1 / 16) (fv_div (f32_val (f32_of_f64 DT_S)) (f32_val TAU_S))" by (rule fin_in_div) simp_all
  then have d: "fin_in 0 (1 / 16) (f32_val (f32_div (f32_of_f64 DT_S) TAU_S))" unfolding f32_div_def by (rule rnd32) (rule exact32_consts)+
  have one: "fin_in 1 1 (f32_val (f32_lit 1))" by (rule f32_lit_exact) (rule exact32_consts)
  have "\<not> f32_lt (f32_lit 1) (f32_div (f32_of_f64 DT_S) TAU_S)" using d one by (auto simp: f32_lt_def fin_in_def)
  moreover have "\<not> f32_is_nan (f32_div (f32_of_f64 DT_S) TAU_S)" using d by (auto simp: f32_is_nan_def fin_in_def)
  ultimately show ?thesis using d by (simp add: f32_min_def)
qed

lemma thrust_target:
  assumes "fin_in 0 1 (f32_val (mc_value c))" and "mc_mode c = motor_as_u8 Thrust"
  shows "\<exists>t. motor_target c = Some t \<and> fin_in 0 300 (f32_val t)"
proof -
  have one: "fin_in 1 1 (f32_val (f32_lit 1))" and z: "fin_in 0 0 (f32_val (f32_lit 0))" by (rule f32_lit_exact, rule exact32_consts)+
  have "f32_le (f32_lit 0) (mc_value c)" "f32_le (mc_value c) (f32_lit 1)"
    unfolding f32_le_def using fin_in_le [OF z assms(1)] fin_in_le [OF assms(1) one] by simp_all
  then have cl: "f32_clamp (mc_value c) (f32_lit 0) (f32_lit 1) = Some (mc_value c)" by (rule f32_clamp_id)
  have s: "fin_in 0 1 (f32_val (f32_sqrt (mc_value c)))" unfolding f32_sqrt_def by (rule rnd32 [OF fin_in_sqrt [OF assms(1)]]) (rule exact32_consts)+
  have "fin_in 0 300 (f32_val MAX_ROTOR_SPEED)" unfolding MAX_ROTOR_SPEED_def by (rule f32_lit_in) (simp_all add: exact32_consts)
  from fin_in_scale [OF s this] have "fin_in 0 300 (fv_mul (f32_val (f32_sqrt (mc_value c))) (f32_val MAX_ROTOR_SPEED))" by simp
  then have "fin_in 0 300 (f32_val (f32_mul (f32_sqrt (mc_value c)) MAX_ROTOR_SPEED))" unfolding f32_mul_def by (rule rnd32) (rule exact32_consts)+
  then show ?thesis using cl assms(2) by (simp add: motor_target_def motor_mode_of_def motor_from_u8_def)
qed

lemma fin_in_pos: "0 \<le> lo \<Longrightarrow> lo \<le> q \<Longrightarrow> q \<le> hi \<Longrightarrow> fin_in lo hi (Finite False q)"
  by (auto simp: fin_in_def fv_wf_def sgn_val_def)

lemma raw_thrust: "fin_in 0 1 (f32_val (f32_div (f32_of_u16 raw) (f32_of_u16 (- 1))))"
proof -
  have "unat raw \<le> 65535" using unsigned_less [of raw, where 'a = nat] by simp
  then have "rat_of_nat (unat raw) \<le> 65535" "0 \<le> rat_of_nat (unat raw)" by (metis of_nat_le_iff of_nat_numeral) (rule of_nat_0_le_iff)
  then have r: "fin_in 0 65535 (f32_val (f32_of_u16 raw))"
    unfolding f32_of_u16_def by (intro rnd32 exact32_consts fin_in_pos) simp_all
  have "fin_in 65535 65535 (f32_val (f32_of_u16 (- 1)))"
    unfolding f32_of_u16_def by (intro rnd32 exact32_consts fin_in_pos) (simp_all add: unat_minus_one_word_eq)
  from fin_in_div [OF r this, of 1] have "fin_in 0 1 (fv_div (f32_val (f32_of_u16 raw)) (f32_val (f32_of_u16 (- 1))))" by simp
  then show ?thesis unfolding f32_div_def by (rule rnd32) (rule exact32_consts)+
qed

section \<open>The drone keeps its invariant\<close>

definition rotor_ok :: "sim_motor \<Rightarrow> bool" where
  "rotor_ok m \<longleftrightarrow> fin_in 0 301 (f32_val (sm_omega m)) \<and> (\<exists>t. motor_target (sm_last_cmd m) = Some t \<and> fin_in 0 300 (f32_val t))"

definition drone_ok :: "quad_drone \<Rightarrow> bool" where
  "drone_ok d \<longleftrightarrow> length (qd_motors d) = N_MOTORS \<and> list_all rotor_ok (qd_motors d)"

definition body_ok :: "nat \<Rightarrow> world \<Rightarrow> bool" where
  "body_ok i w \<longleftrightarrow> i < length (wd_bodies w) \<and> length (wd_force w) = length (wd_bodies w) \<and> length (wd_torque w) = length (wd_bodies w)"

lemma zero_in [simp]: "0 \<le> hi \<Longrightarrow> fin_in 0 hi (Finite False 0)"
  by (simp add: fin_in_pos)

lemma rotor_new: "rotor_ok (sim_motor_new v)"
  by (simp add: rotor_ok_def sim_motor_new_def motor_target_def motor_mode_of_def motor_idle_def motor_from_u8_def)

lemma motor_tick_ok: "rotor_ok m \<Longrightarrow> \<exists>m'. motor_tick (f32_of_f64 DT_S) m = Some m' \<and> rotor_ok m'"
  using lag_bounded [OF _ _ step_factor] by (fastforce simp: rotor_ok_def motor_tick_def Let_def)

lemma tick_motors_ok:
  "list_all rotor_ok ms \<Longrightarrow> \<exists>ms'. tick_motors (f32_of_f64 DT_S) ms = Some ms' \<and> length ms' = length ms \<and> list_all rotor_ok ms'"
proof (induction ms)
  case (Cons m ms)
  then obtain m' ms' where "motor_tick (f32_of_f64 DT_S) m = Some m'" "rotor_ok m'" "tick_motors (f32_of_f64 DT_S) ms = Some ms'"
    "length ms' = length ms" "list_all rotor_ok ms'"
    using motor_tick_ok [of m] by auto
  then show ?case by simp
qed simp

lemma handle_can_ok:
  assumes "drone_ok d"
  shows "drone_ok (snd (handle_can f d))" and "qd_body (snd (handle_can f d)) = qd_body d"
proof -
  have "rotor_ok (motor_apply \<lparr>mc_seq = q, mc_timestamp_ns = t, mc_mode = motor_as_u8 Thrust, mc_reserved = r,
      mc_value = f32_div (f32_of_u16 raw) (f32_of_u16 (- 1))\<rparr> m)" if "rotor_ok m" for m q t r raw
    using that thrust_target raw_thrust by (simp add: rotor_ok_def motor_apply_def)
  then show "drone_ok (snd (handle_can f d))" using assms by (auto simp: handle_can_def drone_ok_def list_all_iff Let_def)
  show "qd_body (snd (handle_can f d)) = qd_body d" by (simp add: handle_can_def)
qed

lemma apply_actuation_ok:
  assumes "drone_ok d" and "body_ok (qd_body d) w"
  shows "\<exists>d' w'. apply_actuation DT_S d w = Some (d', w') \<and> drone_ok d' \<and> qd_body d' = qd_body d \<and> body_ok (qd_body d) w'"
proof -
  obtain ms where "tick_motors (f32_of_f64 DT_S) (qd_motors d) = Some ms" "length ms = N_MOTORS" "list_all rotor_ok ms"
    using tick_motors_ok [of "qd_motors d"] assms(1) by (auto simp: drone_ok_def)
  then show ?thesis using assms(2)
    by (simp add: apply_actuation_def rotate_to_world_def get_body_def add_force_def add_torque_def body_ok_def drone_ok_def case_prod_unfold Let_def)
qed

lemma world_step_ok: "body_ok i w \<Longrightarrow> body_ok i (world_step dt w)"
  by (simp add: body_ok_def world_step_def)

lemma quat_to_euler_total: "\<exists>y p r. quat_to_euler lm q = Some (y, p, r)"
  using f64_lit_mono [of "- 1" 1] by (auto simp: quat_to_euler_def Let_def f64_clamp_def)

lemma post_step_ok:
  assumes "body_ok (qd_body d) w"
  shows "\<exists>d' imu' gps' pose. post_step lm dt w d imu gps = Some (d', imu', gps', pose) \<and> qd_motors d' = qd_motors d \<and> qd_body d' = qd_body d \<and>
    pose_z pose = rs_pos (wd_bodies w ! qd_body d) ! 2"
proof -
  obtain y p r where e: "world_euler lm (qd_body d) w = Some (y, p, r)"
    using quat_to_euler_total [of lm "rs_quat (wd_bodies w ! qd_body d)"] assms by (auto simp: world_euler_def get_body_def body_ok_def)
  then show ?thesis using assms by (simp add: post_step_def rotate_to_body_def get_body_def body_ok_def Let_def)
qed

text \<open>Runs of the fixture: frames that arrive, and ticks that actuate and advance the world.\<close>

datatype sim_event = CanIn can_frame | SimTick

fun drone_run :: "sim_event list \<Rightarrow> quad_drone \<times> world \<Rightarrow> (quad_drone \<times> world) option" where
  "drone_run [] dw = Some dw"
| "drone_run (CanIn f # es) (d, w) = drone_run es (snd (handle_can f d), w)"
| "drone_run (SimTick # es) (d, w) = do { (d', w') \<leftarrow> apply_actuation DT_S d w; drone_run es (d', world_step DT_S w') }"

lemma drone_run_ok:
  "drone_ok d \<Longrightarrow> body_ok (qd_body d) w \<Longrightarrow>
     \<exists>d' w'. drone_run es (d, w) = Some (d', w') \<and> drone_ok d' \<and> qd_body d' = qd_body d \<and> body_ok (qd_body d) w'"
proof (induction es arbitrary: d w)
  case (Cons e es)
  show ?case
  proof (cases e)
    case (CanIn f)
    then show ?thesis using Cons.IH [OF handle_can_ok(1) [OF Cons.prems(1)], of f w] Cons.prems(2) handle_can_ok(2) [OF Cons.prems(1), of f] by simp
  next
    case SimTick
    obtain d1 w1 where "apply_actuation DT_S d w = Some (d1, w1)" "drone_ok d1" "qd_body d1 = qd_body d" "body_ok (qd_body d) w1"
      using apply_actuation_ok [OF Cons.prems] by blast
    then show ?thesis using SimTick Cons.IH [of d1 "world_step DT_S w1"] world_step_ok by auto
  qed
qed simp

lemma drone_spawn_ok:
  "drone_ok (fst (drone_spawn lm (world_new g)))" "body_ok (qd_body (fst (drone_spawn lm (world_new g)))) (snd (drone_spawn lm (world_new g)))"
  by (simp_all add: drone_spawn_def add_box_def world_new_def drone_ok_def body_ok_def rotor_new N_MOTORS_def Let_def list_all_iff)

lemma rotor_ok_le: "rotor_ok m \<Longrightarrow> f32_le (f32_lit 0) (sm_omega m) \<and> f32_le (sm_omega m) (f32_lit 301)"
  using fin_in_le [OF f32_lit_exact [OF exact32_consts(1)]] fin_in_le [OF _ f32_lit_exact [OF exact32_consts(7)]]
  by (fastforce simp: rotor_ok_def f32_le_def)

section \<open>Properties\<close>

text \<open>Ground contact: after every step of the world, whatever the forces, the time step and the state
  before, no body lies below the ground plane, in the floating-point comparison of the code.\<close>

theorem bodies_above_ground:
  "list_all (\<lambda>b. \<not> f64_lt (rs_pos b ! 2) (rs_half b ! 2)) (wd_bodies (world_step dt w)) \<and>
   length (wd_bodies (world_step dt w)) = length (wd_bodies w)"
  by (simp add: world_step_def list_all_iff step_body_above)

text \<open>Rotor speeds: for every sequence of CAN frames, well-formed or not, and ticks, a spawned drone
  never panics and each rotor's speed stays a number between 0 and 301 rad/s (one above the rated
  speed, for the rounding).\<close>

theorem rotor_speeds_bounded:
  "\<exists>d w. drone_run es (drone_spawn lm (world_new g)) = Some (d, w) \<and> length (qd_motors d) = N_MOTORS \<and>
     list_all (\<lambda>m. f32_le (f32_lit 0) (sm_omega m) \<and> f32_le (sm_omega m) (f32_lit 301)) (qd_motors d)"
proof -
  obtain d w where "drone_run es (drone_spawn lm (world_new g)) = Some (d, w)" "drone_ok d"
    using drone_run_ok [OF drone_spawn_ok, of es lm g] by auto
  then show ?thesis using rotor_ok_le by (auto simp: drone_ok_def list_all_iff)
qed

end
