(* ===== verification/Pipeline_Harness.thy ===== *)
theory Pipeline_Harness
  imports Input_Stage Message_Bus Safety_Loop Mux Sim_Vehicle
begin

text \<open>
  The full pipeline of the integration crate (pipeline.rs): a scripted controller feeds the input stage,
  the bus routes its commands to the safety loop, and the loop's result drives the simulated vehicle and
  goes over the link to the receiving multiplexer. The rings that the code shares between the stages are
  held by one of them: the report queue and the command ring by the input stage, the rings of the loop by
  the loop. Clocks, the sockets and the codec are the environment; \<open>None\<close> is a panic.

  The lemmas show that each step returns the very command the safety loop approved, through every stage,
  and that a latched stop reaches the receiver in every later step.
\<close>

section \<open>The scripted source\<close>

definition scripted_poll ::
    "controller_report spsc_ring \<Rightarrow> controller_report \<Rightarrow> (bool \<times> controller_report spsc_ring \<times> controller_report) option" where
  "scripted_poll q out = (case ring_pop q of (Some r, q') \<Rightarrow> Some (True, q', r) | (None, q') \<Rightarrow> Some (False, q', out))"

definition scripted_reopen :: "controller_report spsc_ring \<Rightarrow> controller_report spsc_ring" where
  "scripted_reopen q = snd (drain_ring q [])"

section \<open>The simulation sink\<close>

record sim_state =
  ss_world :: world
  ss_drone :: quad_drone
  ss_can :: can_link
  ss_imu :: imu_sample
  ss_gps :: gps_sample
  ss_pose :: pose6d

definition sim_new :: "libm \<Rightarrow> sim_state" where
  "sim_new lm =
     (let (drone, w) = drone_spawn lm (world_new [f64_lit 0, f64_lit 0, f64_lit (- 981 / 100)])
      in \<lparr>ss_world = w, ss_drone = drone, ss_can = can_pair 16, ss_imu = imu_zeroed 0 0, ss_gps = gps_zeroed 0 0, ss_pose = pose_default\<rparr>)"

definition motor_frame :: "f32 \<Rightarrow> can_frame option" where
  "motor_frame thrust = do {
     t \<leftarrow> f32_clamp thrust (f32_lit 0) (f32_lit 1);
     let raw = f32_as_u16 (f32_mul t (f32_of_u16 (- 1)));
     let be = [ucast (drop_bit 8 raw), ucast raw];
     Some (can_frame_new MOTOR_CMD (concat (replicate 4 be)))
   }"

text \<open>The vehicle's side of the bus: every pending frame is handled.\<close>

function can_drain :: "can_link \<Rightarrow> quad_drone \<Rightarrow> can_link \<times> quad_drone" where
  "can_drain l d =
     (case can_recv SideB l of
        (None, l') \<Rightarrow> (l', d)
      | (Some f, l') \<Rightarrow> can_drain l' (snd (handle_can f d)))"
  by pat_completeness auto
termination
proof (relation "measure (\<lambda>(l, d). unat (ring_tail (cl_a2b l) - ring_head (cl_a2b l)))", goal_cases)
  case 1
  show ?case by simp
next
  case (2 l d x l' f)
  then have "ring_head (cl_a2b l) \<noteq> ring_tail (cl_a2b l)" "ring_head (cl_a2b l') = ring_head (cl_a2b l) + 1"
    "ring_tail (cl_a2b l') = ring_tail (cl_a2b l)"
    by (auto simp: can_recv_def ring_pop_def do_pop_def Let_def split: if_splits prod.splits)
  with word_distance_decreases [of "ring_head (cl_a2b l)" "ring_tail (cl_a2b l)"] show ?case by simp
qed

declare can_drain.simps [simp del]

definition sim_tick :: "libm \<Rightarrow> control_command \<Rightarrow> sim_state \<Rightarrow> sim_state option" where
  "sim_tick lm safe s = do {
     thrust \<leftarrow> f32_clamp (axis_of safe THROTTLE) (f32_lit 0) (f32_lit 1);
     frame \<leftarrow> motor_frame thrust;
     let l1 = snd (can_send SideA frame (ss_can s));
     let (l2, d1) = can_drain l1 (ss_drone s);
     (d2, w1) \<leftarrow> apply_actuation DT_S d1 (ss_world s);
     let w2 = world_step DT_S w1;
     (d3, imu, gps, pose) \<leftarrow> post_step lm DT_S w2 d2 (ss_imu s) (ss_gps s);
     Some \<lparr>ss_world = w2, ss_drone = d3, ss_can = l2, ss_imu = imu, ss_gps = gps, ss_pose = pose\<rparr>
   }"

section \<open>The harness\<close>

text \<open>The environment of one call: the mathematics library, the codec, the mode machine's clock and the
  measured time, what the kernel answers to a datagram sent, and what the receiving socket then returns.\<close>

record harness_env =
  he_libm :: libm
  he_codec :: codec
  he_clk :: u64
  he_elapsed :: u64
  he_send :: "bytes \<Rightarrow> io_error + nat"
  he_recv :: "bytes option \<Rightarrow> (io_error + bytes \<times> socket_addr) list"

record harness =
  hn_ingest :: "(controller_report spsc_ring, unit) input_stage"
  hn_loop :: safety_loop
  hn_bus :: "control_command message_bus"
  hn_safety_sub :: nat
  hn_logger_sub :: nat
  hn_sim :: "sim_state option"
  hn_tx :: udp_mux
  hn_rx :: udp_mux
  hn_dst :: socket_addr
  hn_send_buf :: bytes
  hn_rx_buf :: rx_buffer
  hn_routed :: u64

fun settle :: "(f64 \<Rightarrow> f64 \<Rightarrow> f64) \<Rightarrow> (nat \<Rightarrow> u64) \<Rightarrow> nat \<Rightarrow> safety_loop \<Rightarrow> safety_loop option" where
  "settle hypot clk 0 sl = Some sl"
| "settle hypot clk (Suc n) sl = do { (_, sl') \<leftarrow> process_one hypot (clk n) 0 0 sl; settle hypot clk n sl' }"

text \<open>\<open>tx\<close>, \<open>rx\<close> and \<open>dst\<close> are the kernel's answers to the two binds and to the query of the address.\<close>

definition build_with ::
    "(f64 \<Rightarrow> f64 \<Rightarrow> f64) \<Rightarrow> (nat \<Rightarrow> u64) \<Rightarrow> io_error + unit \<Rightarrow> io_error + unit \<Rightarrow> io_error + socket_addr \<Rightarrow> nat \<Rightarrow> safety_config \<Rightarrow>
     (io_error + harness) option" where
  "build_with hypot clk tx rx dst unit cfg = do {
     sl0 \<leftarrow> loop_new (with_capacity 1024) (with_capacity 1024) machine_new cfg;
     let sl1 = snd (request_mode (clk 501) Assist sl0);
     let sl2 = snd (request_mode (clk 500) FullTeleop sl1);
     sl \<leftarrow> settle hypot clk 500 sl2;
     let (safety_sub, b1) = subscribe (bus_new 1024);
     let (logger_sub, b2) = subscribe b1;
     Some (case tx of Inl e \<Rightarrow> Inl e | Inr _ \<Rightarrow> (case rx of Inl e \<Rightarrow> Inl e | Inr _ \<Rightarrow> (case dst of Inl e \<Rightarrow> Inl e | Inr a \<Rightarrow>
       Inr \<lparr>hn_ingest = input_stage_new (with_capacity 256) controller_map_default (with_capacity 1024), hn_loop = sl,
         hn_bus = b2, hn_safety_sub = safety_sub, hn_logger_sub = logger_sub, hn_sim = None, hn_tx = mux_new, hn_rx = mux_new,
         hn_dst = a, hn_send_buf = replicate MAX_DATAGRAM 0, hn_rx_buf = rx_buffer_new unit, hn_routed = 0\<rparr>)))
   }"

definition build ::
    "(f64 \<Rightarrow> f64 \<Rightarrow> f64) \<Rightarrow> (nat \<Rightarrow> u64) \<Rightarrow> io_error + unit \<Rightarrow> io_error + unit \<Rightarrow> io_error + socket_addr \<Rightarrow> nat \<Rightarrow> (io_error + harness) option" where
  "build hypot clk tx rx dst unit = build_with hypot clk tx rx dst unit safety_config_default"

definition enable_sim :: "libm \<Rightarrow> harness \<Rightarrow> harness" where
  "enable_sim lm h = h\<lparr>hn_sim := Some (sim_new lm)\<rparr>"

definition feed_report :: "controller_report \<Rightarrow> harness \<Rightarrow> harness" where
  "feed_report r h = h\<lparr>hn_ingest := (hn_ingest h)\<lparr>is_source := snd (ring_push (is_source (hn_ingest h)) r)\<rparr>\<rparr>"

definition ingest_tick :: "u64 \<Rightarrow> harness \<Rightarrow> harness option" where
  "ingest_tick now h = do { (_, st) \<leftarrow> input_tick scripted_poll (\<lambda>_ k. k) now (hn_ingest h); Some (h\<lparr>hn_ingest := st\<rparr>) }"

definition harness_pose :: "harness \<Rightarrow> pose6d" where
  "harness_pose h = (case hn_sim h of Some s \<Rightarrow> ss_pose s | None \<Rightarrow> pose_default)"

function route_publish ::
    "control_command spsc_ring \<Rightarrow> control_command message_bus \<Rightarrow> u64 \<Rightarrow> control_command spsc_ring \<times> control_command message_bus \<times> u64" where
  "route_publish r b n =
     (case ring_pop r of
        (None, r') \<Rightarrow> (r', b, n)
      | (Some cmd, r') \<Rightarrow> route_publish r' (snd (publish cmd b)) (n + 1))"
  by pat_completeness auto
termination
proof (relation "measure (\<lambda>(r, b, n). unat (ring_tail r - ring_head r))", goal_cases)
  case 1
  show ?case by simp
next
  case (2 r b n x r' cmd)
  then have "ring_head r \<noteq> ring_tail r" "ring_head r' = ring_head r + 1" "ring_tail r' = ring_tail r"
    by (auto simp: ring_pop_def do_pop_def Let_def split: if_splits)
  with word_distance_decreases [of "ring_head r" "ring_tail r"] show ?case by simp
qed

declare route_publish.simps [simp del]

text \<open>Pushing commands one by one and ignoring a full ring.\<close>

definition push_all :: "'a list \<Rightarrow> 'a spsc_ring \<Rightarrow> 'a spsc_ring" where
  "push_all cs r = fold (\<lambda>c r. snd (ring_push r c)) cs r"

definition route :: "harness \<Rightarrow> harness option" where
  "route h = do {
     let (r, b, n) = route_publish (is_ring (hn_ingest h)) (hn_bus h) (hn_routed h);
     ((cmds, _), b1) \<leftarrow> poll (hn_safety_sub h) [] b;
     let sl = (hn_loop h)\<lparr>sl_input := push_all cmds (sl_input (hn_loop h))\<rparr>;
     (_, b2) \<leftarrow> poll (hn_logger_sub h) [] b1;
     Some (h\<lparr>hn_ingest := (hn_ingest h)\<lparr>is_ring := r\<rparr>, hn_bus := b2, hn_routed := n, hn_loop := sl\<rparr>)
   }"

text \<open>At most 400 attempts to receive; a rejected frame or an empty socket is tried again.\<close>

fun recv_loop ::
    "codec \<Rightarrow> (io_error + bytes \<times> socket_addr) list \<Rightarrow> udp_mux \<Rightarrow> rx_buffer \<Rightarrow> (io_error + control_command option) \<times> udp_mux \<times> rx_buffer" where
  "recv_loop cdc [] mx rb = (Inr None, mx, rb)"
| "recv_loop cdc (x # xs) mx rb =
     (case recv_frame cdc mx rb x of
        (Inl e, mx', rb') \<Rightarrow> (Inl e, mx', rb')
      | (Inr (Some (Inr (InControl cmd _ _))), mx', rb') \<Rightarrow> (Inr (Some cmd), mx', rb')
      | (Inr _, mx', rb') \<Rightarrow> recv_loop cdc xs mx' rb')"

definition recv_one :: "harness_env \<Rightarrow> bytes option \<Rightarrow> harness \<Rightarrow> (io_error + control_command option) \<times> harness" where
  "recv_one env d h =
     (case recv_loop (he_codec env) (take 400 (he_recv env d)) (hn_rx h) (hn_rx_buf h) of
        (res, mx, rb) \<Rightarrow> (res, h\<lparr>hn_rx := mx, hn_rx_buf := rb\<rparr>))"

text \<open>The part that both tails share: the safety tick, the vehicle, the frame and its transmission. The
  result is the datagram and its size, when there was a command.\<close>

definition hot_send :: "harness_env \<Rightarrow> u64 \<Rightarrow> harness \<Rightarrow> ((io_error + (bytes \<times> nat) option) \<times> harness) option" where
  "hot_send env now h = do {
     (_, sl1) \<leftarrow> process_one (m_hypot (he_libm env)) (he_clk env) (he_elapsed env) now (hn_loop h);
     let (safe, outp) = ring_pop (sl_output sl1);
     let h1 = h\<lparr>hn_loop := sl1\<lparr>sl_output := outp\<rparr>\<rparr>;
     case safe of
       None \<Rightarrow> Some (Inr None, h1)
     | Some s \<Rightarrow> do {
         h2 \<leftarrow> (case hn_sim h1 of
                  None \<Rightarrow> Some h1
                | Some sm \<Rightarrow> do { sm' \<leftarrow> sim_tick (he_libm env) s sm; Some (h1\<lparr>hn_sim := Some sm', hn_loop := set_pose (ss_pose sm') (hn_loop h1)\<rparr>) });
         Some (case write_control_frame (he_codec env) (hn_tx h2) s 0 (hn_send_buf h2) of
             (Inl e, mx) \<Rightarrow> (Inl e, h2\<lparr>hn_tx := mx\<rparr>)
           | (Inr (n, buf), mx) \<Rightarrow>
               (case send_framed mx (he_send env (take n buf)) now of
                  (Inl e, mx') \<Rightarrow> (Inl e, h2\<lparr>hn_tx := mx', hn_send_buf := buf\<rparr>)
                | (Inr sent, mx') \<Rightarrow> (Inr (Some (take n buf, sent)), h2\<lparr>hn_tx := mx', hn_send_buf := buf\<rparr>)))
       }
   }"

definition run_hot :: "harness_env \<Rightarrow> u64 \<Rightarrow> harness \<Rightarrow> ((io_error + control_command option) \<times> harness) option" where
  "run_hot env now h = do {
     (r, h1) \<leftarrow> hot_send env now h;
     Some (case r of Inl e \<Rightarrow> (Inl e, h1) | Inr ds \<Rightarrow> recv_one env (map_option fst ds) h1)
   }"

definition harness_step :: "harness_env \<Rightarrow> u64 \<Rightarrow> harness \<Rightarrow> ((io_error + control_command option) \<times> harness) option" where
  "harness_step env now h = do { h1 \<leftarrow> ingest_tick now h; h2 \<leftarrow> route h1; run_hot env now h2 }"

definition push_input :: "control_command \<Rightarrow> harness \<Rightarrow> harness" where
  "push_input cmd h = h\<lparr>hn_ingest := (hn_ingest h)\<lparr>is_ring := snd (ring_push (is_ring (hn_ingest h)) cmd)\<rparr>\<rparr>"

definition step_direct :: "harness_env \<Rightarrow> control_command \<Rightarrow> u64 \<Rightarrow> harness \<Rightarrow> ((io_error + control_command option) \<times> harness) option" where
  "step_direct env cmd now h = do { h1 \<leftarrow> route (push_input cmd h); run_hot env now h1 }"

definition forward_tail :: "harness_env \<Rightarrow> u64 \<Rightarrow> harness \<Rightarrow> ((io_error + nat) \<times> harness) option" where
  "forward_tail env now h = do {
     (r, h1) \<leftarrow> hot_send env now h;
     Some (case r of Inl e \<Rightarrow> (Inl e, h1) | Inr None \<Rightarrow> (Inr 0, h1) | Inr (Some (d, sent)) \<Rightarrow> (Inr sent, h1))
   }"

definition pump_forward :: "harness_env \<Rightarrow> u64 \<Rightarrow> harness \<Rightarrow> ((io_error + nat) \<times> harness) option" where
  "pump_forward env now h = do { h1 \<leftarrow> ingest_tick now h; h2 \<leftarrow> route h1; forward_tail env now h2 }"

definition pump_forward_direct :: "harness_env \<Rightarrow> control_command \<Rightarrow> u64 \<Rightarrow> harness \<Rightarrow> ((io_error + nat) \<times> harness) option" where
  "pump_forward_direct env cmd now h = do { h1 \<leftarrow> route (push_input cmd h); forward_tail env now h1 }"

section \<open>Rings and the bus\<close>

abbreviation six :: "control_command \<Rightarrow> bool" where
  "six c \<equiv> length (cmd_axes c) = 6"

lemma push_all_Nil [simp]: "push_all [] = (\<lambda>r. r)"
  by (simp add: push_all_def fun_eq_iff)

lemma push_all_result:
  assumes "ring_inv r"
  shows "ring_inv (push_all cs r)" and "ring_room (push_all cs r) = ring_room r"
    and "ring_contents (push_all cs r) = ring_contents r @ take (ring_room r - length (ring_contents r)) cs"
proof -
  have "ring_inv (push_all cs r) \<and> ring_room (push_all cs r) = ring_room r \<and>
      ring_contents (push_all cs r) = ring_contents r @ take (ring_room r - length (ring_contents r)) cs"
    using assms
  proof (induction cs arbitrary: r)
    case (Cons c cs)
    note pr = spsc.push_result [OF Cons.prems, of c]
    show ?case
    proof (cases "length (ring_contents r) < ring_room r")
      case True
      then obtain k where "ring_room r - length (ring_contents r) = Suc k" by (metis Suc_diff_Suc)
      moreover from this have "ring_room r - length (ring_contents (snd (ring_push r c))) = k" using True pr(3) by simp
      ultimately show ?thesis using Cons.IH [OF pr(1)] pr(2,3) True by (simp add: push_all_def)
    next
      case False
      then show ?thesis using Cons.IH [OF pr(1)] pr(2,3) by (simp add: push_all_def)
    qed
  qed (simp add: push_all_def)
  then show "ring_inv (push_all cs r)" and "ring_room (push_all cs r) = ring_room r"
    and "ring_contents (push_all cs r) = ring_contents r @ take (ring_room r - length (ring_contents r)) cs" by simp_all
qed

lemma ring_room_pos: "ring_inv r \<Longrightarrow> 0 < ring_room r"
  using ring_cap_pos [OF ring_inv_pow2] by (simp add: ring_room_def)

lemma publish_subscribers: "bus_inv b \<Longrightarrow> subscribers (snd (publish v b)) = map (\<lambda>r. snd (ring_push r v)) (subscribers b)"
  by (simp add: publish_def publish_rings_result bus_inv_def split_beta)

lemma route_publish_result:
  "ring_inv r \<Longrightarrow> bus_inv b \<Longrightarrow> \<exists>r' b' n'. route_publish r b n = (r', b', n') \<and> ring_inv r' \<and> ring_contents r' = [] \<and> bus_inv b' \<and>
     subscribers b' = map (push_all (ring_contents r)) (subscribers b)"
proof (induction r b n rule: route_publish.induct)
  case (1 r b n)
  obtain x r1 where p: "ring_pop r = (x, r1)" by fastforce
  note pp = spsc.pop_result [OF 1(2), unfolded p, simplified]
  show ?case
  proof (cases x)
    case None
    then have "ring_contents r = []" using pp(4) by (auto split: list.splits)
    then show ?thesis using None p pp(1,3) 1(3) by (subst route_publish.simps) simp
  next
    case (Some c)
    then have c: "ring_contents r = c # ring_contents r1" using pp(3,4) by (cases "ring_contents r") auto
    have "subscribers (snd (publish c b)) = map (\<lambda>r. snd (ring_push r c)) (subscribers b)" using 1(3) by (rule publish_subscribers)
    then show ?thesis using Some p c 1(1) [OF p [symmetric] Some] pp(1) publish_inv [OF 1(3), of c]
      by (subst route_publish.simps) (auto simp: push_all_def)
  qed
qed

lemma poll_result:
  assumes "bus_inv b" and "i < length (subscribers b)"
  shows "\<exists>k b'. poll i [] b = Some ((ring_contents (subscribers b ! i), k), b') \<and> bus_inv b' \<and>
    length (subscribers b') = length (subscribers b) \<and>
    (\<forall>j < length (subscribers b). ring_contents (subscribers b' ! j) = (if j = i then [] else ring_contents (subscribers b ! j)))"
proof -
  have inv: "ring_inv (subscribers b ! i)" using assms by (simp add: bus_inv_def)
  then obtain r' where "drain_ring (subscribers b ! i) [] = (ring_contents (subscribers b ! i), r')" "ring_inv r'" "ring_contents r' = []"
    using drain_ring_result [OF inv, of "[]"] by auto
  then show ?thesis using assms by (auto simp: poll_def with_ring_def bus_inv_def nth_list_update dest!: subsetD [OF set_update_subset_insert])
qed

section \<open>The invariant of the harness\<close>

definition sim_ok :: "sim_state \<Rightarrow> bool" where
  "sim_ok s \<longleftrightarrow> drone_ok (ss_drone s) \<and> body_ok (qd_body (ss_drone s)) (ss_world s) \<and> can_link_inv (ss_can s)"

definition loop_ok :: "safety_loop \<Rightarrow> bool" where
  "loop_ok sl \<longleftrightarrow> limits_ok (sc_limits (sl_cfg sl)) \<and> ring_inv (sl_input sl) \<and> list_all six (ring_contents (sl_input sl)) \<and>
     ring_inv (sl_output sl) \<and> ring_contents (sl_output sl) = []"

definition bus_ok :: "harness \<Rightarrow> bool" where
  "bus_ok h \<longleftrightarrow> bus_inv (hn_bus h) \<and> hn_safety_sub h < length (subscribers (hn_bus h)) \<and> hn_logger_sub h < length (subscribers (hn_bus h)) \<and>
     (\<forall>j < length (subscribers (hn_bus h)). j = hn_safety_sub h \<or> j = hn_logger_sub h \<longrightarrow> ring_contents (subscribers (hn_bus h) ! j) = [])"

definition harness_ok :: "harness \<Rightarrow> bool" where
  "harness_ok h \<longleftrightarrow> ring_inv (is_source (hn_ingest h)) \<and> ring_inv (is_ring (hn_ingest h)) \<and> list_all six (ring_contents (is_ring (hn_ingest h))) \<and>
     loop_ok (hn_loop h) \<and> bus_ok h \<and> (\<forall>s. hn_sim h = Some s \<longrightarrow> sim_ok s) \<and> length (hn_send_buf h) = 1500 \<and> length (rxb_buf (hn_rx_buf h)) = 1500"

lemma unit_clamp_ex: "\<exists>t. f32_clamp x (f32_lit 0) (f32_lit 1) = Some t"
  using f32_clamp_some [of x "f32_lit 0" "f32_lit 1"] f32_lit_mono [of 0 1] by fastforce

lemma map_apply_total: "\<exists>c'. map_apply m r c = Some c' \<and> length (cmd_axes c') = length (cmd_axes c)"
proof -
  have sh: "\<exists>y. shaped_axis m r i flip = Some y" for i flip using unit_clamp_some [of "raw_axis r i"] by (auto simp: shaped_axis_def)
  obtain a b y where s: "shaped_axis m r (cm_roll_slot m) (cm_invert_roll m) = Some a"
      "shaped_axis m r (cm_pitch_slot m) (cm_invert_pitch m) = Some b" "shaped_axis m r (cm_yaw_slot m) (cm_invert_yaw m) = Some y"
    using sh by metis
  obtain thr where thr: "f32_clamp (raw_axis r (cm_throttle_slot m)) (f32_lit (- 1)) (f32_lit 1) = Some thr" using unit_clamp_some by blast
  show ?thesis using s thr unit_clamp_ex [of "f32_add (f32_mul thr (f32_lit (1 / 2))) (f32_lit (1 / 2))"] by (auto simp: map_apply_def Let_def)
qed

lemma can_drain_ok:
  "drone_ok d \<Longrightarrow> can_link_inv l \<Longrightarrow> \<exists>l' d'. can_drain l d = (l', d') \<and> drone_ok d' \<and> qd_body d' = qd_body d \<and> can_link_inv l'"
proof (induction l d rule: can_drain.induct)
  case (1 l d)
  obtain x l1 where p: "can_recv SideB l = (x, l1)" by fastforce
  have i: "can_link_inv l1" using can_recv_effect(2) [OF 1(3), of SideB] p by simp
  show ?case
  proof (cases x)
    case None
    then show ?thesis using p i 1(2) by (subst can_drain.simps) simp
  next
    case (Some f)
    then show ?thesis using 1(1) [OF p [symmetric] Some handle_can_ok(1) [OF 1(2)] i] p handle_can_ok(2) [OF 1(2), of f]
      by (subst can_drain.simps) simp
  qed
qed

lemma sim_tick_ok:
  assumes "sim_ok s"
  shows "\<exists>s'. sim_tick lm c s = Some s' \<and> sim_ok s'"
proof -
  obtain t where t: "f32_clamp (axis_of c THROTTLE) (f32_lit 0) (f32_lit 1) = Some t" using unit_clamp_ex by blast
  obtain fr where fr: "motor_frame t = Some fr" using unit_clamp_ex [of t] by (auto simp: motor_frame_def Let_def)
  define l1 where "l1 = snd (can_send SideA fr (ss_can s))"
  have "can_link_inv l1" unfolding l1_def using assms by (intro can_send_effect(2)) (simp add: sim_ok_def)
  then obtain l2 d1 where d1: "can_drain l1 (ss_drone s) = (l2, d1)" "drone_ok d1" "qd_body d1 = qd_body (ss_drone s)" "can_link_inv l2"
    using can_drain_ok [of "ss_drone s" l1] assms by (auto simp: sim_ok_def)
  obtain d2 w1 where d2: "apply_actuation DT_S d1 (ss_world s) = Some (d2, w1)" "drone_ok d2" "qd_body d2 = qd_body d1" "body_ok (qd_body d1) w1"
    using apply_actuation_ok [OF d1(2), of "ss_world s"] assms d1(3) by (auto simp: sim_ok_def)
  have b: "body_ok (qd_body d2) (world_step DT_S w1)" using d2(3,4) world_step_ok by simp
  obtain d3 imu gps pose where d3: "post_step lm DT_S (world_step DT_S w1) d2 (ss_imu s) (ss_gps s) = Some (d3, imu, gps, pose)"
      "qd_motors d3 = qd_motors d2" "qd_body d3 = qd_body d2"
    using post_step_ok [OF b, of lm DT_S "ss_imu s" "ss_gps s"] by blast
  have "drone_ok d3" using d2(2) d3(2) by (simp add: drone_ok_def)
  then show ?thesis using t fr d1 d2(1) d3 b by (simp add: sim_tick_def sim_ok_def l1_def [symmetric] Let_def)
qed

lemma sim_new_ok: "sim_ok (sim_new lm)"
  using drone_spawn_ok [of lm "[f64_lit 0, f64_lit 0, f64_lit (- 981 / 100)]"] can_pair_inv [of 16] by (simp add: sim_new_def sim_ok_def split_beta)

section \<open>The stages\<close>

lemma ring_push_contents:
  assumes "ring_inv r"
  shows "ring_inv (snd (ring_push r v))" and "ring_contents (snd (ring_push r v)) \<noteq> []"
    and "list_all P (ring_contents r) \<Longrightarrow> P v \<Longrightarrow> list_all P (ring_contents (snd (ring_push r v)))"
  using spsc.push_result [OF assms, of v] ring_room_pos [OF assms] by (auto simp del: length_ring_contents split: if_splits)

lemma ingest_tick_ok:
  assumes "harness_ok h" and "ring_contents (is_source (hn_ingest h)) \<noteq> []"
  shows "\<exists>h'. ingest_tick now h = Some h' \<and> harness_ok h' \<and> ring_contents (is_ring (hn_ingest h')) \<noteq> [] \<and> hn_loop h' = hn_loop h"
proof -
  let ?st = "hn_ingest h" and ?c = "(clear_ai_origin (command_zeroed FullTeleop))\<lparr>cmd_timestamp_ns := now\<rparr>"
  have inv: "ring_inv (is_source ?st)" "ring_inv (is_ring ?st)" using assms(1) by (simp_all add: harness_ok_def)
  obtain r q where p: "ring_pop (is_source ?st) = (Some r, q)" "ring_inv q"
    using spsc.pop_result [OF inv(1)] assms(2) by (cases "ring_pop (is_source ?st)") (auto simp: neq_Nil_conv)
  obtain c where c: "map_apply (is_map ?st) r ?c = Some c" "six c"
    using map_apply_total [of "is_map ?st" r ?c] by (auto simp: clear_ai_origin_def command_zeroed_def)
  have "input_tick scripted_poll (\<lambda>_ k. k) now ?st = Some (fst (push_or_none c (is_ring ?st)), ?st\<lparr>is_source := q, is_scratch := r,
      is_haptics := (if cmd_flags c AND 2 \<noteq> 0 then haptic_broadcast (\<lambda>_ k. k) WARN (is_haptics ?st) else is_haptics ?st),
      is_ring := snd (push_or_none c (is_ring ?st))\<rparr>)"
    using p c by (simp add: input_tick_def scripted_poll_def Let_def)
  moreover have "snd (push_or_none c (is_ring ?st)) = snd (ring_push (is_ring ?st) c)"
    by (simp add: push_or_none_def split: prod.splits sum.splits)
  ultimately show ?thesis using assms(1) p(2) c(2) ring_push_contents(1,2) [OF inv(2), of c] ring_push_contents(3) [OF inv(2), of six c]
    by (simp add: ingest_tick_def harness_ok_def bus_ok_def)
qed

lemma list_all_take: "list_all P xs \<Longrightarrow> list_all P (take n xs)"
  by (auto simp: list_all_iff dest: in_set_takeD)

lemma route_ok:
  assumes "harness_ok h"
  shows "\<exists>h' r. route h = Some h' \<and> harness_ok h' \<and> hn_loop h' = (hn_loop h)\<lparr>sl_input := r\<rparr> \<and>
    (ring_contents (is_ring (hn_ingest h)) \<noteq> [] \<longrightarrow> ring_contents r \<noteq> [])"
proof -
  let ?in = "is_ring (hn_ingest h)" and ?s = "hn_safety_sub h" and ?l = "hn_logger_sub h" and ?sl = "hn_loop h"
  have inv: "ring_inv ?in" "bus_inv (hn_bus h)" "ring_inv (sl_input ?sl)" and s: "?s < length (subscribers (hn_bus h))" "?l < length (subscribers (hn_bus h))"
    and e: "ring_contents (subscribers (hn_bus h) ! ?s) = []" and six: "list_all six (ring_contents ?in)" "list_all six (ring_contents (sl_input ?sl))"
    using assms by (auto simp: harness_ok_def bus_ok_def loop_ok_def)
  obtain r b n where rp: "route_publish ?in (hn_bus h) (hn_routed h) = (r, b, n)" "ring_inv r" "ring_contents r = []" "bus_inv b"
      "subscribers b = map (push_all (ring_contents ?in)) (subscribers (hn_bus h))"
    using route_publish_result [OF inv(1,2)] by blast
  have ri: "ring_inv (subscribers (hn_bus h) ! ?s)" using inv(2) s(1) by (simp add: bus_inv_def)
  define cs where "cs = ring_contents (subscribers b ! ?s)"
  have cs: "cs = take (ring_room (subscribers (hn_bus h) ! ?s)) (ring_contents ?in)"
    unfolding cs_def rp(5) using push_all_result(3) [OF ri, of "ring_contents ?in"] s(1) e by simp
  have sb: "?s < length (subscribers b)" "?l < length (subscribers b)" using s rp(5) by simp_all
  obtain k b1 where p1: "poll ?s [] b = Some ((cs, k), b1)" "bus_inv b1" "length (subscribers b1) = length (subscribers b)"
      "\<forall>j < length (subscribers b). ring_contents (subscribers b1 ! j) = (if j = ?s then [] else ring_contents (subscribers b ! j))"
    using poll_result [OF rp(4) sb(1)] unfolding cs_def by blast
  have sb1: "?l < length (subscribers b1)" using sb(2) p1(3) by simp
  obtain cl k' b2 where p2: "poll ?l [] b1 = Some ((cl, k'), b2)" "bus_inv b2" "length (subscribers b2) = length (subscribers b1)"
      "\<forall>j < length (subscribers b1). ring_contents (subscribers b2 ! j) = (if j = ?l then [] else ring_contents (subscribers b1 ! j))"
    using poll_result [OF p1(2) sb1] by blast
  let ?r = "push_all cs (sl_input ?sl)"
  note pa = push_all_result [OF inv(3), of cs]
  have "list_all six cs" unfolding cs using six(1) by (rule list_all_take)
  then have "list_all six (ring_contents ?r)" unfolding pa(3) using six(2) list_all_take by simp
  moreover have "ring_contents ?in \<noteq> [] \<longrightarrow> ring_contents ?r \<noteq> []"
    unfolding pa(3) using cs ring_room_pos [OF ri] ring_room_pos [OF inv(3)] by (auto simp del: length_ring_contents)
  moreover have "route h = Some (h\<lparr>hn_ingest := (hn_ingest h)\<lparr>is_ring := r\<rparr>, hn_bus := b2, hn_routed := n, hn_loop := ?sl\<lparr>sl_input := ?r\<rparr>\<rparr>)"
    using rp(1) p1(1) p2(1) by (simp add: route_def)
  moreover from this have "harness_ok (the (route h))"
    using assms rp p1 p2 sb pa(1) \<open>list_all six (ring_contents ?r)\<close> by (simp add: harness_ok_def loop_ok_def bus_ok_def)
  ultimately show ?thesis by (intro exI [of _ "the (route h)"] exI [of _ ?r]) simp
qed

lemma pipeline_axes:
  assumes "pipeline hypot clk now sl cmd = Some (c, sl')" and "six cmd"
  shows "six c"
proof -
  from assms(1) obtain lat w bl t cmd3 cmd4 sl2 t' cmd5 where
    v: "veto_apply (sl_veto sl) (mix_authority w (sl_baseline sl) (compensate lat cmd)) = Some (t, cmd3)" and
    f: "fence_stage hypot clk (sl\<lparr>sl_latency := lat, sl_authority := w, sl_blend := bl\<rparr>) cmd3 = Some (cmd4, sl2)" and
    l: "limits_apply (sc_limits (sl_cfg sl2)) (sl_last_out sl2) cmd4 = Some (t', cmd5)" and
    o: "override_stage now sl2 cmd5 = (c, sl')" by (rule pipelineE)
  have "six cmd4" using fence_stage_state(4) [OF f] veto_apply_axes(1) [OF v] assms(2) by simp
  from limits_apply_axes(2) [OF l this, of 0] have "six cmd5" by simp
  then show ?thesis using o by (auto simp: override_stage_def vertical_brake_def write_emergency_stop_def command_zeroed_def Let_def split: if_splits)
qed

text \<open>A tick of the loop on pending commands puts exactly one command into the empty output ring.\<close>

lemma process_one_output:
  assumes "loop_ok sl" and "ring_contents (sl_input sl) \<noteq> []"
  shows "\<exists>st sl1 outp c. process_one hypot clk el now sl = Some (st, sl1) \<and> ring_pop (sl_output sl1) = (Some c, outp) \<and> loop_ok (sl1\<lparr>sl_output := outp\<rparr>) \<and>
    six c \<and> sl_last_out sl1 = c \<and> (sl_estop_latched sl1 \<longrightarrow> is_safe c) \<and> (sl_estop_latched sl \<longrightarrow> sl_estop_latched sl1)"
proof -
  have ok: "limits_ok (sc_limits (sl_cfg sl))" "ring_inv (sl_input sl)" "list_all six (ring_contents (sl_input sl))" "ring_inv (sl_output sl)"
    "ring_contents (sl_output sl) = []" using assms(1) by (simp_all add: loop_ok_def)
  obtain st sl1 where p: "process_one hypot clk el now sl = Some (st, sl1)" using process_one_total [OF ok(1-3)] by blast
  obtain inp0 where d: "drain_ring (sl_input sl) [] = (ring_contents (sl_input sl), inp0)" "ring_inv inp0" "ring_contents inp0 = []"
    using drain_ring_result [OF ok(2), of "[]"] by auto
  from p show ?thesis
  proof (cases rule: process_one_cases)
    case (idle w bl inp)
    then show ?thesis using d(1) assms(2) by simp
  next
    case (command w bl cmds inp c sl3)
    note ps = pipeline_state [OF command(4), simplified]
    have cm: "cmds = ring_contents (sl_input sl)" "inp = inp0" using command(1) d(1) by simp_all
    have "six (last cmds)" using ok(3) assms(2) cm(1) by (simp add: list_all_iff)
    then have c6: "six c" using pipeline_axes [OF command(4)] by simp
    have room: "length (ring_contents (sl_output sl)) < ring_room (sl_output sl)" using ok(5) ring_room_pos [OF ok(4)] by simp
    note pr = spsc.push_room_result [OF ok(4) room, of c]
    have f: "sl_output sl1 = snd (ring_push (sl_output sl) c)" "sl_input sl1 = inp0" "sl_cfg sl1 = sl_cfg sl" "sl_last_out sl1 = c"
      "sl_estop_latched sl1 = sl_estop_latched sl3"
      by (subst command(5), simp add: ps cm)+
    obtain outp where o: "ring_pop (sl_output sl1) = (Some c, outp)" "ring_inv outp" "ring_contents outp = []"
      using spsc.pop_result [OF pr(1)] pr(3) ok(5) unfolding f(1) by (cases "ring_pop (snd (ring_push (sl_output sl) c))") auto
    have "loop_ok (sl1\<lparr>sl_output := outp\<rparr>)" using ok(1) d o f by (simp add: loop_ok_def)
    then show ?thesis using p o c6 f ps by auto
  qed
qed

text \<open>An environment in which the kernel sends what it is given and the receiving socket returns it.\<close>

definition good_env :: "harness_env \<Rightarrow> bool" where
  "good_env env \<longleftrightarrow> wire_codec (he_codec env) \<and> (\<forall>d. he_send env d = Inr (length d)) \<and> (\<forall>d. \<exists>src xs. he_recv env (Some d) = Inr (d, src) # xs)"

definition stamped :: "control_command \<Rightarrow> control_command" where
  "stamped c = c\<lparr>cmd_crc := command_crc c\<rparr>"

lemma set_pose_more [simp]: "sl_input (set_pose p sl) = sl_input sl" "sl_cfg (set_pose p sl) = sl_cfg sl" "sl_last_out (set_pose p sl) = sl_last_out sl"
  by (simp_all add: set_pose_def Let_def)

lemma set_pose_loop_ok: "loop_ok (set_pose p sl) = loop_ok sl"
  by (simp add: loop_ok_def)

text \<open>A command framed on one side and received on the other.\<close>

lemma frame_delivered:
  assumes "good_env env" and "six s" and "length buf = 1500" and "length (rxb_buf rb) = 1500"
  shows "\<exists>n buf' mx'. write_control_frame (he_codec env) mx s 0 buf = (Inr (n, buf'), mx') \<and> length buf' = 1500 \<and>
    (\<forall>src xs rx. \<exists>rx' rb'. recv_loop (he_codec env) (Inr (take n buf', src) # xs) rx rb = (Inr (Some (stamped s)), rx', rb') \<and> length (rxb_buf rb') = 1500)"
proof -
  have wc: "wire_codec (he_codec env)" using assms(1) by (simp add: good_env_def)
  have wf: "command_wf s" "command_wf (stamped s)" using assms(2) by (simp_all add: command_wf_def stamped_def)
  obtain n b mx' where w: "write_control_frame (he_codec env) mx s 0 buf = (Inr (n, b), mx')"
    and dm: "\<And>rb src. take n (rxb_buf rb) = take n b \<Longrightarrow> demux (he_codec env) rb n src = Inr (InControl (stamped s) src False)"
    using wire_codec.control_roundtrip [OF wc wf(1) _ assms(3), of 0 mx] by (auto simp: stamped_def)
  obtain bs where "serialize_command (he_codec env) (stamped s) = Some bs" "length bs \<le> 1480"
    using wire_codec.command_law [OF wc wf(2)] by (auto simp: mux_consts)
  from write_control_frames [OF assms(3) this [unfolded stamped_def], of mx 0] w have "frames (n, b) Control 0 bs" by auto
  then have len: "length b = 1500" "length (take n b) = n" "n \<le> 1500"
    unfolding frames_def by (metis length_datagram fst_conv snd_conv, metis length_datagram fst_conv snd_conv, metis length_take length_datagram fst_conv snd_conv min.cobounded1)
  define rb' where "rb' = rb\<lparr>rxb_buf := write_at 0 (take n b) (rxb_buf rb)\<rparr>"
  have "take n (rxb_buf rb') = take n b" using take_write_at_0 [of "take n b" "rxb_buf rb"] unfolding len(2) by (simp add: rb'_def)
  from dm [OF this] have "recv_loop (he_codec env) (Inr (take n b, src) # xs) rx rb =
      (Inr (Some (stamped s)), rx\<lparr>mx_stats := (mx_stats rx)\<lparr>rx_frames := rx_frames (mx_stats rx) + 1\<rparr>\<rparr>, rb')" for src xs rx
    using len assms(4) by (simp add: recv_frame_def mux_fill_def rb'_def Let_def)
  moreover have "length (rxb_buf rb') = 1500" using len assms(4) by (simp add: rb'_def)
  ultimately show ?thesis using w len(1) by blast
qed

lemma run_hot_ok:
  assumes "harness_ok h" and "good_env env" and "ring_contents (sl_input (hn_loop h)) \<noteq> []"
  shows "\<exists>c h'. run_hot env now h = Some (Inr (Some (stamped c)), h') \<and> harness_ok h' \<and> sl_last_out (hn_loop h') = c \<and>
    (sl_estop_latched (hn_loop h') \<longrightarrow> is_safe c) \<and> (sl_estop_latched (hn_loop h) \<longrightarrow> sl_estop_latched (hn_loop h')) \<and> (hn_sim h' = None \<longleftrightarrow> hn_sim h = None)"
proof -
  have "loop_ok (hn_loop h)" using assms(1) by (simp add: harness_ok_def)
  from process_one_output [OF this assms(3), of "m_hypot (he_libm env)" "he_clk env" "he_elapsed env" now]
  obtain st sl1 outp c where p: "process_one (m_hypot (he_libm env)) (he_clk env) (he_elapsed env) now (hn_loop h) = Some (st, sl1)"
    "ring_pop (sl_output sl1) = (Some c, outp)" "loop_ok (sl1\<lparr>sl_output := outp\<rparr>)" "six c" "sl_last_out sl1 = c"
    "sl_estop_latched sl1 \<longrightarrow> is_safe c" "sl_estop_latched (hn_loop h) \<longrightarrow> sl_estop_latched sl1" by blast
  define h1 where "h1 = h\<lparr>hn_loop := sl1\<lparr>sl_output := outp\<rparr>\<rparr>"
  define adv where "adv = (case hn_sim h1 of None \<Rightarrow> Some h1
      | Some sm \<Rightarrow> do { sm' \<leftarrow> sim_tick (he_libm env) c sm; Some (h1\<lparr>hn_sim := Some sm', hn_loop := set_pose (ss_pose sm') (hn_loop h1)\<rparr>) })"
  have h1: "harness_ok h1" using assms(1) p(3) by (simp add: harness_ok_def h1_def bus_ok_def)
  obtain h2 where h2: "adv = Some h2" "harness_ok h2" "sl_last_out (hn_loop h2) = c" "sl_estop_latched (hn_loop h2) = sl_estop_latched sl1" "hn_sim h2 = None \<longleftrightarrow> hn_sim h = None"
  proof (cases "hn_sim h1")
    case None
    then show ?thesis using that [of h1] h1 p(5) by (simp add: adv_def h1_def)
  next
    case (Some sm)
    then obtain sm' where "sim_tick (he_libm env) c sm = Some sm'" "sim_ok sm'" using sim_tick_ok [of sm] h1 by (auto simp: harness_ok_def)
    then show ?thesis using that [of "h1\<lparr>hn_sim := Some sm', hn_loop := set_pose (ss_pose sm') (hn_loop h1)\<rparr>"] h1 p(5) Some
      by (simp add: adv_def harness_ok_def bus_ok_def set_pose_loop_ok) (simp add: h1_def)
  qed
  have "length (hn_send_buf h2) = 1500" "length (rxb_buf (hn_rx_buf h2)) = 1500" using h2(2) by (simp_all add: harness_ok_def)
  from frame_delivered [OF assms(2) p(4) this, of "hn_tx h2"]
  obtain n buf mx where w: "write_control_frame (he_codec env) (hn_tx h2) c 0 (hn_send_buf h2) = (Inr (n, buf), mx)" "length buf = 1500"
    and rc: "\<And>src xs rx. \<exists>rx' rb'. recv_loop (he_codec env) (Inr (take n buf, src) # xs) rx (hn_rx_buf h2) = (Inr (Some (stamped c)), rx', rb') \<and> length (rxb_buf rb') = 1500"
    by blast
  have "he_send env (take n buf) = Inr (length (take n buf))" using assms(2) by (simp add: good_env_def)
  then obtain mx' where sf: "send_framed mx (he_send env (take n buf)) now = (Inr (length (take n buf)), mx')"
    by (simp add: send_framed_def Let_def)
  define h3 where "h3 = h2\<lparr>hn_tx := mx', hn_send_buf := buf\<rparr>"
  have hs: "hot_send env now h = Some (Inr (Some (take n buf, length (take n buf))), h3)"
    using p(1,2) h2(1) w(1) sf unfolding hot_send_def adv_def h1_def h3_def by simp
  obtain src xs where "he_recv env (Some (take n buf)) = Inr (take n buf, src) # xs" using assms(2) unfolding good_env_def by blast
  then have t: "take 400 (he_recv env (Some (take n buf))) = Inr (take n buf, src) # take 399 xs" by simp
  obtain rx' rb' where r: "recv_loop (he_codec env) (Inr (take n buf, src) # take 399 xs) (hn_rx h3) (hn_rx_buf h3) = (Inr (Some (stamped c)), rx', rb')"
      "length (rxb_buf rb') = 1500"
    using rc [of src "take 399 xs" "hn_rx h3"] by (auto simp: h3_def)
  have "run_hot env now h = Some (Inr (Some (stamped c)), h3\<lparr>hn_rx := rx', hn_rx_buf := rb'\<rparr>)"
    using hs r(1) t by (simp add: run_hot_def recv_one_def)
  moreover have "harness_ok (h3\<lparr>hn_rx := rx', hn_rx_buf := rb'\<rparr>)" using h2(2) w(2) r(2) by (simp add: h3_def harness_ok_def bus_ok_def)
  ultimately show ?thesis using h2 p(6,7) by (auto simp: h3_def)
qed

lemma feed_report_ok:
  assumes "harness_ok h"
  shows "harness_ok (feed_report r h)" and "ring_contents (is_source (hn_ingest (feed_report r h))) \<noteq> []"
  using assms ring_push_contents(1,2) [of "is_source (hn_ingest h)" r] by (auto simp: feed_report_def harness_ok_def bus_ok_def)

lemma harness_step_ok:
  assumes "harness_ok h" and "good_env env"
  shows "\<exists>c h'. harness_step env now (feed_report r h) = Some (Inr (Some (stamped c)), h') \<and> harness_ok h' \<and> sl_last_out (hn_loop h') = c \<and>
    (sl_estop_latched (hn_loop h') \<longrightarrow> is_safe c) \<and> (sl_estop_latched (hn_loop h) \<longrightarrow> sl_estop_latched (hn_loop h'))"
proof -
  obtain h1 where h1: "ingest_tick now (feed_report r h) = Some h1" "harness_ok h1" "ring_contents (is_ring (hn_ingest h1)) \<noteq> []" "hn_loop h1 = hn_loop h"
    using ingest_tick_ok [OF feed_report_ok [OF assms(1)], of now r] by (auto simp: feed_report_def)
  obtain h2 rr where h2: "route h1 = Some h2" "harness_ok h2" "hn_loop h2 = (hn_loop h1)\<lparr>sl_input := rr\<rparr>" "ring_contents rr \<noteq> []"
    using route_ok [OF h1(2)] h1(3) by blast
  then have "ring_contents (sl_input (hn_loop h2)) \<noteq> []" by simp
  from run_hot_ok [OF h2(2) assms(2) this, of now] show ?thesis using h1 h2 by (auto simp: harness_step_def)
qed

text \<open>Runs: in each round one report is fed and one step taken, in an environment of its own.\<close>

fun harness_run :: "(harness_env \<times> controller_report \<times> u64) list \<Rightarrow> harness \<Rightarrow> ((io_error + control_command option) \<times> harness) list option" where
  "harness_run [] h = Some []"
| "harness_run ((env, r, now) # xs) h = do {
     (res, h') \<leftarrow> harness_step env now (feed_report r h);
     tr \<leftarrow> harness_run xs h';
     Some ((res, h') # tr)
   }"

definition round_ok :: "(io_error + control_command option) \<times> harness \<Rightarrow> bool" where
  "round_ok x \<longleftrightarrow> fst x = Inr (Some (stamped (sl_last_out (hn_loop (snd x))))) \<and>
     (sl_estop_latched (hn_loop (snd x)) \<longrightarrow> is_safe (sl_last_out (hn_loop (snd x))))"

definition latched :: "harness \<Rightarrow> bool" where
  "latched h \<longleftrightarrow> sl_estop_latched (hn_loop h)"

lemma harness_run_ok:
  "harness_ok h \<Longrightarrow> list_all (\<lambda>x. good_env (fst x)) xs \<Longrightarrow>
     \<exists>tr. harness_run xs h = Some tr \<and> length tr = length xs \<and> list_all round_ok tr \<and>
       sorted_wrt (\<lambda>a b. latched (snd a) \<longrightarrow> latched (snd b)) tr \<and> (latched h \<longrightarrow> list_all (\<lambda>x. latched (snd x)) tr)"
proof (induction xs arbitrary: h)
  case (Cons x xs)
  obtain env r now where x: "x = (env, r, now)" by (cases x)
  obtain c h1 where s: "harness_step env now (feed_report r h) = Some (Inr (Some (stamped c)), h1)" "harness_ok h1" "sl_last_out (hn_loop h1) = c"
      "latched h1 \<longrightarrow> is_safe c" "latched h \<longrightarrow> latched h1"
    using harness_step_ok [OF Cons.prems(1), of env now r] Cons.prems(2) x by (auto simp: latched_def)
  obtain tr where "harness_run xs h1 = Some tr" "length tr = length xs" "list_all round_ok tr"
      "sorted_wrt (\<lambda>a b. latched (snd a) \<longrightarrow> latched (snd b)) tr" "latched h1 \<longrightarrow> list_all (\<lambda>x. latched (snd x)) tr"
    using Cons.IH [OF s(2)] Cons.prems(2) by auto
  then show ?case using s x by (auto simp: round_ok_def latched_def list_all_iff)
qed simp

section \<open>Construction\<close>

definition quiet :: "safety_config \<Rightarrow> safety_loop \<Rightarrow> bool" where
  "quiet cfg sl \<longleftrightarrow> sl_cfg sl = cfg \<and> ring_inv (sl_input sl) \<and> ring_contents (sl_input sl) = [] \<and> ring_inv (sl_output sl) \<and> ring_contents (sl_output sl) = []"

lemma request_mode_quiet: "quiet cfg sl \<Longrightarrow> quiet cfg (snd (request_mode clk m sl))"
  by (auto simp: quiet_def request_mode_def Let_def split: prod.splits sum.splits)

lemma settle_quiet: "quiet cfg sl \<Longrightarrow> \<exists>sl'. settle hypot clk n sl = Some sl' \<and> quiet cfg sl'"
proof (induction n arbitrary: sl)
  case (Suc n)
  obtain w bl where ab: "advance_blend sl = Some (sl\<lparr>sl_authority := w, sl_blend := bl\<rparr>)" using advance_blend_total by blast
  obtain inp where d: "drain_ring (sl_input sl) [] = ([], inp)" "ring_inv inp" "ring_contents inp = []"
    using drain_ring_result [of "sl_input sl" "[]"] Suc.prems by (auto simp: quiet_def)
  have "process_one hypot (clk n) 0 0 sl = Some (\<lparr>drained = 0, intercepted_ns = 0\<rparr>, sl\<lparr>sl_authority := w, sl_blend := bl, sl_input := inp\<rparr>)"
    using ab d(1) by (simp add: process_one_def)
  moreover have "quiet cfg (sl\<lparr>sl_authority := w, sl_blend := bl, sl_input := inp\<rparr>)" using Suc.prems d by (simp add: quiet_def)
  ultimately show ?case using Suc.IH by simp
qed simp

lemma build_with_ok:
  assumes "limits_ok (sc_limits cfg)"
  shows "\<exists>h. build_with hypot clk (Inr ()) (Inr ()) (Inr a) u cfg = Some (Inr h) \<and> harness_ok h"
proof -
  obtain sl0 where sl0: "loop_new (with_capacity 1024) (with_capacity 1024) machine_new cfg = Some sl0"
    using f64_clamp_total [OF f64_lit_mono [of "1 / 100" 1], of "f64_lit (2 / 10)"] by (auto simp: loop_new_def latency_new_def Let_def)
  have "quiet cfg sl0" using sl0 by (auto simp: with_capacity_inv quiet_def loop_new_def Let_def bind_eq_Some_conv)
  then obtain sl where sl: "settle hypot clk 500 (snd (request_mode (clk 500) FullTeleop (snd (request_mode (clk 501) Assist sl0)))) = Some sl" "quiet cfg sl"
    using settle_quiet request_mode_quiet by blast
  have "loop_ok sl" using sl(2) assms by (simp add: quiet_def loop_ok_def)
  then show ?thesis using sl0 sl(1)
    by (simp add: with_capacity_inv build_with_def subscribe_def bus_new_def harness_ok_def bus_ok_def bus_inv_def input_stage_new_def mux_consts rx_buffer_new_def Let_def nth_Cons')
qed

lemma enable_sim_ok: "harness_ok h \<Longrightarrow> harness_ok (enable_sim lm h)"
  using sim_new_ok by (simp add: enable_sim_def harness_ok_def bus_ok_def)

lemma u16_of_be_bytes: "u16_of_be (ucast (drop_bit 8 w)) (ucast w) = (w :: u16)"
proof (rule bit_word_eqI)
  fix i assume "i < LENGTH(16)"
  then show "bit (u16_of_be (ucast (drop_bit 8 w)) (ucast w)) i \<longleftrightarrow> bit w i"
    by (cases "i < 8") (auto simp: u16_of_be_def bit_or_iff bit_push_bit_iff bit_ucast_iff bit_drop_bit_eq)
qed

lemma handle_motor_frame:
  "\<exists>d'. handle_can (can_frame_new MOTOR_CMD (concat (replicate 4 [hi, lo]))) d = (True, d') \<and>
     map (\<lambda>m. (mc_mode (sm_last_cmd m), mc_value (sm_last_cmd m))) (qd_motors d') =
       replicate 4 (motor_as_u8 Thrust, f32_div (f32_of_u16 (u16_of_be hi lo)) (f32_of_u16 (- 1)))"
proof -
  have f: "concat (replicate 4 [hi, lo]) = [hi, lo, hi, lo, hi, lo, hi, lo]" by (simp add: numeral_eq_Suc)
  have i: "[0..<4] = [0, 1, 2, 3 :: nat]" by (simp add: upt_rec)
  show ?thesis unfolding f by (simp add: can_frame_new_def handle_can_def motor_apply_def N_MOTORS_def write_at_def i numeral_eq_Suc Let_def)
qed

section \<open>Properties\<close>

text \<open>C2. The pipeline delivers what safety approved: a harness built with valid limits, with or without the
  simulated vehicle, never panics, whatever reports are fed; with a network that delivers, every step
  returns exactly one command, the one the safety loop put out in that step stamped with its checksum, having
  gone through mapping, bus, safety loop, framing and demultiplexing; and once the emergency stop is
  latched, it stays latched and every command received is the safe state.\<close>

theorem pipeline_delivers_approved:
  assumes "build_with hypot clk tx rx dst u cfg = Some (Inr h0)" and "limits_ok (sc_limits cfg)" and "list_all (\<lambda>x. good_env (fst x)) xs"
  shows "\<exists>tr. harness_run xs (if with_sim then enable_sim lm h0 else h0) = Some tr \<and> length tr = length xs \<and>
    list_all (\<lambda>(res, h). res = Inr (Some (stamped (sl_last_out (hn_loop h)))) \<and> (latched h \<longrightarrow> is_safe (sl_last_out (hn_loop h)))) tr \<and>
    sorted_wrt (\<lambda>(_, h1) (_, h2). latched h1 \<longrightarrow> latched h2) tr"
proof -
  obtain a where "tx = Inr ()" "rx = Inr ()" "dst = Inr a"
    using assms(1) by (cases tx; cases rx; cases dst) (auto simp: build_with_def bind_eq_Some_conv split: prod.splits)
  then have "harness_ok h0" using build_with_ok [OF assms(2), of hypot clk a u] assms(1) by auto
  then have "harness_ok (if with_sim then enable_sim lm h0 else h0)" using enable_sim_ok by simp
  from harness_run_ok [OF this assms(3)] show ?thesis by (auto simp: round_ok_def latched_def list_all_iff case_prod_unfold)
qed

definition loop_env :: harness_env where
  "loop_env = \<lparr>he_libm = \<lparr>m_sin = \<lambda>x. x, m_cos = \<lambda>x. x, m_asin = \<lambda>x. x, m_atan2 = f64_add, m_hypot = f64_add\<rparr>, he_codec = raw_codec, he_clk = 7,
     he_elapsed = 0, he_send = (\<lambda>d. Inr (length d)), he_recv = (\<lambda>d. case d of Some b \<Rightarrow> [Inr (b, SocketV4 1 443)] | None \<Rightarrow> [])\<rparr>"

theorem pipeline_delivers_approved_witness:
  "\<exists>h0 tr. build f64_add (\<lambda>_. 3) (Inr ()) (Inr ()) (Inr (SocketV4 1 443)) 4 = Some (Inr h0) \<and>
     harness_run [(loop_env, report_default, 9), (loop_env, report_default, 10)] (enable_sim (he_libm loop_env) h0) = Some tr \<and> length tr = 2"
proof -
  have l: "limits_ok (sc_limits safety_config_default)" using limits_default_ok by (simp add: safety_config_default_def)
  obtain h0 where b: "build_with f64_add (\<lambda>_. 3) (Inr ()) (Inr ()) (Inr (SocketV4 1 443)) 4 safety_config_default = Some (Inr h0)"
    using build_with_ok [OF l] by blast
  have "good_env loop_env" using raw.wire_codec_axioms by (simp add: good_env_def loop_env_def)
  then show ?thesis using b pipeline_delivers_approved [OF b l, of "[(loop_env, report_default, 9), (loop_env, report_default, 10)]" True "he_libm loop_env"]
    by (auto simp: build_def)
qed

text \<open>Throttle over the bus: the frame built for a throttle is taken by the drone, and each of the four
  motors then has a thrust command with the throttle's 16-bit value over 65535.\<close>

theorem throttle_reaches_motors:
  assumes "motor_frame t = Some f" and "f32_clamp t (f32_lit 0) (f32_lit 1) = Some v"
  shows "\<exists>d'. handle_can f d = (True, d') \<and>
    map (\<lambda>m. (mc_mode (sm_last_cmd m), mc_value (sm_last_cmd m))) (qd_motors d') =
      replicate 4 (motor_as_u8 Thrust, f32_div (f32_of_u16 (f32_as_u16 (f32_mul v (f32_of_u16 (- 1))))) (f32_of_u16 (- 1)))"
proof -
  let ?raw = "f32_as_u16 (f32_mul v (f32_of_u16 (- 1)))"
  have "f = can_frame_new MOTOR_CMD (concat (replicate 4 [ucast (drop_bit 8 ?raw), ucast ?raw]))"
    using assms unfolding motor_frame_def Let_def by (auto simp del: f32_lit_zero)
  then show ?thesis using handle_motor_frame [of "ucast (drop_bit 8 ?raw)" "ucast ?raw" d] unfolding u16_of_be_bytes by (simp only:)
qed

theorem throttle_reaches_motors_witness:
  "\<exists>f d'. motor_frame 0 = Some f \<and> handle_can f (fst (drone_spawn (he_libm loop_env) (world_new []))) = (True, d') \<and> length (qd_motors d') = 4"
proof -
  have c: "f32_clamp 0 (f32_lit 0) (f32_lit 1) = Some 0" using f32_clamp_id [of 0 0 "f32_lit 1"] f32_lit_mono [of 0 1] f32_lit_mono [of 0 0] by simp
  then obtain f where f: "motor_frame 0 = Some f" by (simp add: motor_frame_def Let_def)
  obtain d' where d: "handle_can f (fst (drone_spawn (he_libm loop_env) (world_new []))) = (True, d')"
    and "length (map (\<lambda>m. (mc_mode (sm_last_cmd m), mc_value (sm_last_cmd m))) (qd_motors d')) = 4"
    using throttle_reaches_motors [OF f c, of "fst (drone_spawn (he_libm loop_env) (world_new []))"] by (auto simp only: length_replicate)
  then show ?thesis using f by auto
qed

end
