(* ===== verification/Core_Profile.thy ===== *)
theory Core_Profile
  imports Http
begin

text \<open>
  The assignment of latency-critical roles to processor cores: the profile format and its validation
  (core profile.rs), pinning a thread (affinity.rs) and the command that writes a profile for a machine
  (cli profile.rs). Characters that are not ASCII are printed in error messages by the argument \<open>hi\<close>; the
  calls into the operating system are arguments as well.

  The lemmas characterise validation, show that the generated profile is read back and accepted for
  every machine it can describe, and that a validated profile pins the roles on disjoint cores.
\<close>

section \<open>Roles and errors\<close>

datatype core_role = Video | Control | Network | Input | Media | Storage | Spare

definition role_ALL :: "core_role list" where
  "role_ALL = [Video, Control, Network, Input, Media, Storage, Spare]"

fun role_key :: "core_role \<Rightarrow> string" where
  "role_key Video = ''video''"
| "role_key Control = ''control''"
| "role_key Network = ''network''"
| "role_key Input = ''input''"
| "role_key Media = ''media''"
| "role_key Storage = ''storage''"
| "role_key Spare = ''spare''"

definition role_from_key :: "rstring \<Rightarrow> core_role option" where
  "role_from_key s = (let lower = map ascii_lower s in find (\<lambda>r. lit (role_key r) = lower) role_ALL)"

definition role_fmt :: "core_role \<Rightarrow> rstring" where
  "role_fmt r = lit (role_key r)"

datatype line_kind = MissingEquals rstring | UnknownRole rstring | BadCoreSpec rstring | DuplicateRole rstring

record profile_error =
  pe_lineno :: usize
  pe_kind :: line_kind

text \<open>The debug form of a string: quoted, with the escapes of the standard library.\<close>

fun show_hex :: "nat \<Rightarrow> rstring" where
  "show_hex n = (if n < 16 then [if n < 10 then 48 + n else 87 + n] else show_hex (n div 16) @ [if n mod 16 < 10 then 48 + n mod 16 else 87 + n mod 16])"

declare show_hex.simps [simp del]

definition debug_char :: "(nat \<Rightarrow> rstring) \<Rightarrow> nat \<Rightarrow> rstring" where
  "debug_char hi c =
     (if c = 0 then [92, 48] else if c = 9 then [92, 116] else if c = 10 then [92, 110] else if c = 13 then [92, 114]
      else if c = 34 \<or> c = 92 then [92, c] else if c < 32 \<or> c = 127 then [92, 117, 123] @ show_hex c @ [125]
      else if c < 128 then [c] else hi c)"

definition str_debug :: "(nat \<Rightarrow> rstring) \<Rightarrow> rstring \<Rightarrow> rstring" where
  "str_debug hi s = [34] @ concat (map (debug_char hi) s) @ [34]"

definition profile_error_fmt :: "(nat \<Rightarrow> rstring) \<Rightarrow> profile_error \<Rightarrow> rstring" where
  "profile_error_fmt hi e = lit ''core-profile line '' @ show_dec (unat (pe_lineno e)) @ lit '': '' @
     (case pe_kind e of
        MissingEquals s \<Rightarrow> lit ''expected `key = value`, got '' @ str_debug hi s
      | UnknownRole s \<Rightarrow> lit ''unknown role '' @ str_debug hi s
      | BadCoreSpec s \<Rightarrow> lit ''bad core spec '' @ s
      | DuplicateRole s \<Rightarrow> lit ''duplicate assignment for '' @ str_debug hi s)"

section \<open>Parsing\<close>

text \<open>\<open>str::lines\<close>: a line ends at a line feed, with a carriage return before it removed; a last line
  without a line feed is kept as it is.\<close>

definition strip_cr :: "rstring \<Rightarrow> rstring" where
  "strip_cr l = (if l \<noteq> [] \<and> last l = 13 then butlast l else l)"

definition str_lines :: "rstring \<Rightarrow> rstring list" where
  "str_lines s = (let ls = split_when (\<lambda>c. c = 10) s in map strip_cr (butlast ls) @ (if last ls = [] then [] else [last ls]))"

fun parse_parts :: "(nat \<Rightarrow> rstring) \<Rightarrow> rstring list \<Rightarrow> rstring + usize list" where
  "parse_parts hi [] = Inr []"
| "parse_parts hi (raw # parts) =
     (let part = trim raw; rest = parse_parts hi parts;
          more = (\<lambda>cs. case rest of Inl e \<Rightarrow> Inl e | Inr r \<Rightarrow> Inr (cs @ r)) in
      if part = [] then rest
      else case split_once 45 part of
        Some (x, y) \<Rightarrow>
          (case (parse_u64 (trim x), parse_u64 (trim y)) of
             (Some a, Some b) \<Rightarrow>
               if b < a \<or> 4096 < b - a then Inl (lit ''range '' @ str_debug hi part)
               else more (map word_of_nat [unat a..<Suc (unat b)])
           | _ \<Rightarrow> Inl (lit ''range '' @ str_debug hi part))
      | None \<Rightarrow> (case parse_u64 part of Some c \<Rightarrow> more [c] | None \<Rightarrow> Inl (lit ''index '' @ str_debug hi part)))"

definition parse_core_list :: "(nat \<Rightarrow> rstring) \<Rightarrow> rstring \<Rightarrow> rstring + usize list" where
  "parse_core_list hi s = parse_parts hi (split_when (\<lambda>c. c = 44) s)"

type_synonym core_profile = "string \<rightharpoonup> usize list"

text \<open>One turn of the loop of \<open>parse\<close>.\<close>

definition parse_line :: "(nat \<Rightarrow> rstring) \<Rightarrow> usize \<Rightarrow> rstring \<Rightarrow> core_profile \<Rightarrow> profile_error + core_profile" where
  "parse_line hi lineno raw assigned =
     (let line = trim (hd (split_when (\<lambda>c. c = 35) raw));
          bad = (\<lambda>k. Inl \<lparr>pe_lineno = lineno, pe_kind = k\<rparr>) in
      if line = [] then Inr assigned
      else case split_once 61 line of
        None \<Rightarrow> bad (MissingEquals raw)
      | Some (k, v) \<Rightarrow>
          (let k' = trim k in
           case role_from_key k' of
             None \<Rightarrow> bad (UnknownRole k')
           | Some role \<Rightarrow>
               (case parse_core_list hi (trim v) of
                  Inl s \<Rightarrow> bad (BadCoreSpec s)
                | Inr cores \<Rightarrow>
                    if cores = [] then bad (BadCoreSpec (lit ''empty list''))
                    else if assigned (role_key role) \<noteq> None then bad (DuplicateRole k')
                    else Inr (assigned(role_key role \<mapsto> cores)))))"

fun parse_from :: "(nat \<Rightarrow> rstring) \<Rightarrow> usize \<Rightarrow> rstring list \<Rightarrow> core_profile \<Rightarrow> profile_error + core_profile" where
  "parse_from hi n [] assigned = Inr assigned"
| "parse_from hi n (raw # ls) assigned = (case parse_line hi (n + 1) raw assigned of Inl e \<Rightarrow> Inl e | Inr a \<Rightarrow> parse_from hi (n + 1) ls a)"

definition profile_parse :: "(nat \<Rightarrow> rstring) \<Rightarrow> rstring \<Rightarrow> profile_error + core_profile" where
  "profile_parse hi s = parse_from hi 0 (str_lines s) (\<lambda>_. None)"

definition cores_for :: "core_profile \<Rightarrow> core_role \<Rightarrow> usize list" where
  "cores_for p role = (case p (role_key role) of Some cs \<Rightarrow> cs | None \<Rightarrow> [])"

section \<open>Validation and loading\<close>

fun validate_cores :: "core_role \<Rightarrow> usize \<Rightarrow> usize list \<Rightarrow> bool list \<Rightarrow> rstring + bool list" where
  "validate_cores role n [] seen = Inr seen"
| "validate_cores role n (c # cs) seen =
     (if n \<le> c then Inl (role_fmt role @ lit '' requests core '' @ show_dec (unat c) @ lit '' >= '' @ show_dec (unat n))
      else if seen ! unat c then Inl (lit ''core '' @ show_dec (unat c) @ lit '' assigned multiple times ('' @ role_fmt role @ lit '')'')
      else validate_cores role n cs (seen[unat c := True]))"

fun validate_roles :: "core_profile \<Rightarrow> usize \<Rightarrow> core_role list \<Rightarrow> bool list \<Rightarrow> rstring + unit" where
  "validate_roles p n [] seen = Inr ()"
| "validate_roles p n (role # rs) seen =
     (case validate_cores role n (cores_for p role) seen of Inl e \<Rightarrow> Inl e | Inr seen' \<Rightarrow> validate_roles p n rs seen')"

definition profile_validate :: "core_profile \<Rightarrow> usize \<Rightarrow> rstring + unit" where
  "profile_validate p machine_cores = validate_roles p machine_cores role_ALL (replicate (unat machine_cores) False)"

text \<open>The text of the file or the error of the file system is the argument \<open>contents\<close>.\<close>

datatype 'e io_error = OsError 'e | InvalidData rstring

datatype 'e profile_load_error = ProfileLoadError rstring "'e io_error"

definition load_profile :: "(nat \<Rightarrow> rstring) \<Rightarrow> rstring \<Rightarrow> 'e + rstring \<Rightarrow> 'e profile_load_error + core_profile" where
  "load_profile hi path contents =
     (case contents of
        Inl e \<Rightarrow> Inl (ProfileLoadError path (OsError e))
      | Inr s \<Rightarrow>
          (case profile_parse hi s of
             Inl e \<Rightarrow> Inl (ProfileLoadError path (InvalidData (profile_error_fmt hi e)))
           | Inr p \<Rightarrow> Inr p))"

definition profile_load_error_fmt :: "('e io_error \<Rightarrow> rstring) \<Rightarrow> 'e profile_load_error \<Rightarrow> rstring" where
  "profile_load_error_fmt show_io e = (case e of ProfileLoadError path x \<Rightarrow> lit ''cannot load core profile '' @ path @ lit '': '' @ show_io x)"

section \<open>Pinning\<close>

datatype 'e affinity_error = NoCores | OutOfRange usize usize | Os 'e | Mach "32 word"

definition affinity_error_fmt :: "('e \<Rightarrow> rstring) \<Rightarrow> 'e affinity_error \<Rightarrow> rstring" where
  "affinity_error_fmt show_e e =
     (case e of
        NoCores \<Rightarrow> lit ''no cores requested''
      | OutOfRange core m \<Rightarrow> lit ''core '' @ show_dec (unat core) @ lit '' out of range (machine has '' @ show_dec (unat m) @ lit '')''
      | Os x \<Rightarrow> lit ''affinity syscall failed: '' @ show_e x
      | Mach kr \<Rightarrow> lit ''mach thread_policy_set failed: kern='' @ show_int (sint kr))"

text \<open>\<open>nproc\<close> is the answer of the system for the number of processors, at least one of which is counted.\<close>

definition core_count :: "64 word \<Rightarrow> usize" where
  "core_count nproc = (if sint nproc < 1 then 1 else nproc)"

definition pin_current :: "64 word \<Rightarrow> (usize list \<Rightarrow> 'e affinity_error + unit) \<Rightarrow> usize list \<Rightarrow> 'e affinity_error + unit" where
  "pin_current nproc pin cores =
     (if cores = [] then Inl NoCores
      else let m = core_count nproc in
        case find (\<lambda>c. m \<le> c) cores of Some c \<Rightarrow> Inl (OutOfRange c m) | None \<Rightarrow> pin cores)"

definition pin_linux :: "'s \<Rightarrow> (usize \<Rightarrow> 's \<Rightarrow> 's) \<Rightarrow> ('s \<Rightarrow> 'e option) \<Rightarrow> usize list \<Rightarrow> 'e affinity_error + unit" where
  "pin_linux cpu_zero cpu_set setaffinity cores =
     (case setaffinity (foldl (\<lambda>s c. cpu_set c s) cpu_zero cores) of Some e \<Rightarrow> Inl (Os e) | None \<Rightarrow> Inr ())"

definition windows_mask :: "usize list \<Rightarrow> usize" where
  "windows_mask cores = foldl (\<lambda>m c. m OR push_bit (unat c mod 64) 1) 0 cores"

definition pin_windows :: "(usize \<Rightarrow> 'e option) \<Rightarrow> usize list \<Rightarrow> 'e affinity_error + unit" where
  "pin_windows set_mask cores = (case set_mask (windows_mask cores) of Some e \<Rightarrow> Inl (Os e) | None \<Rightarrow> Inr ())"

definition THREAD_EXTENDED_POLICY :: "32 word" where "THREAD_EXTENDED_POLICY = 1"
definition THREAD_AFFINITY_POLICY :: "32 word" where "THREAD_AFFINITY_POLICY = 4"
definition KERN_NOT_SUPPORTED :: "32 word" where "KERN_NOT_SUPPORTED = 46"

fun mach_tags :: "('w \<Rightarrow> 32 word \<Rightarrow> 32 word \<Rightarrow> 32 word \<times> 'w) \<Rightarrow> usize list \<Rightarrow> 'w \<Rightarrow> ('e affinity_error + unit) \<times> 'w" where
  "mach_tags policy [] w = (Inr (), w)"
| "mach_tags policy (c # cs) w =
     (let (kr, w') = policy w THREAD_AFFINITY_POLICY (ucast c + 1) in
      if kr \<noteq> 0 \<and> kr \<noteq> KERN_NOT_SUPPORTED then (Inl (Mach kr), w') else mach_tags policy cs w')"

definition pin_macos :: "('w \<Rightarrow> 32 word \<Rightarrow> 32 word \<Rightarrow> 32 word \<times> 'w) \<Rightarrow> usize list \<Rightarrow> 'w \<Rightarrow> ('e affinity_error + unit) \<times> 'w" where
  "pin_macos policy cores w =
     (let (kr, w') = policy w THREAD_EXTENDED_POLICY 0 in
      if kr \<noteq> 0 \<and> kr \<noteq> KERN_NOT_SUPPORTED then (Inl (Mach kr), w') else mach_tags policy cores w')"

text \<open>The body of a pinned thread; \<open>None\<close> is its panic.\<close>

definition spawn_pinned :: "('e affinity_error + unit) \<Rightarrow> (unit \<Rightarrow> 'r) \<Rightarrow> 'r option" where
  "spawn_pinned pinned f = (case pinned of Inl e \<Rightarrow> None | Inr u \<Rightarrow> Some (f u))"

section \<open>The generated profile\<close>

fun role_lines :: "usize \<Rightarrow> nat \<Rightarrow> core_role list \<Rightarrow> rstring" where
  "role_lines cores r [] = []"
| "role_lines cores r (role # rs) =
     (if unat cores \<le> r then []
      else (if role = Spare then [] else lit (role_key role) @ lit '' = '' @ show_dec r @ [10]) @ role_lines cores (Suc r) rs)"

definition default_profile_text :: "usize \<Rightarrow> rstring" where
  "default_profile_text n =
     (let cores = max n 1 in
      lit ''# tpt-teleop core profile (generated by tpt-t-cli profile)'' @ [10] @
      lit ''# cores available: '' @ show_dec (unat cores) @ [10] @
      role_lines cores 0 role_ALL @
      (if length role_ALL < unat cores then lit (role_key Spare) @ lit '' = '' @ lit ''6-'' @ show_dec (unat (cores - 1)) @ [10] else []))"

record profile_opts =
  po_cores :: "usize option"
  po_out :: "rstring option"

fun starts_with :: "rstring \<Rightarrow> rstring \<Rightarrow> bool" where
  "starts_with [] s = True"
| "starts_with (c # p) [] = False"
| "starts_with (c # p) (d # s) = (c = d \<and> starts_with p s)"

fun profile_args :: "rstring list \<Rightarrow> profile_opts \<Rightarrow> profile_opts option" where
  "profile_args [] opts = Some opts"
| "profile_args (a # as) opts =
     (if a = lit ''--cores'' then
        (case as of [] \<Rightarrow> None
         | v # as' \<Rightarrow> (case parse_u64 v of Some n \<Rightarrow> profile_args as' (opts\<lparr>po_cores := Some n\<rparr>) | None \<Rightarrow> None))
      else if a = lit ''--out'' then
        (case as of [] \<Rightarrow> None | v # as' \<Rightarrow> profile_args as' (opts\<lparr>po_out := Some v\<rparr>))
      else if starts_with (lit ''--cores='') a then
        (case parse_u64 (drop 8 a) of Some n \<Rightarrow> profile_args as (opts\<lparr>po_cores := Some n\<rparr>) | None \<Rightarrow> None)
      else if starts_with (lit ''--out='') a then profile_args as (opts\<lparr>po_out := Some (drop 6 a)\<rparr>)
      else None)"

text \<open>What the command does: the exit code, the warning of the validation, the text written to a file or
  printed. \<open>write_ok\<close> says whether the file system takes the file.\<close>

record profile_outcome =
  ou_code :: int
  ou_warning :: bool
  ou_file :: "(rstring \<times> rstring) option"
  ou_printed :: "rstring option"

definition profile_run :: "(nat \<Rightarrow> rstring) \<Rightarrow> 64 word \<Rightarrow> (rstring \<Rightarrow> bool) \<Rightarrow> rstring list \<Rightarrow> profile_outcome" where
  "profile_run hi nproc write_ok args =
     (case profile_args args \<lparr>po_cores = None, po_out = None\<rparr> of
        None \<Rightarrow> \<lparr>ou_code = 1, ou_warning = False, ou_file = None, ou_printed = None\<rparr>
      | Some opts \<Rightarrow>
          (let cores = (case po_cores opts of Some n \<Rightarrow> n | None \<Rightarrow> max (core_count nproc) 1);
               s = default_profile_text cores;
               warning = (case profile_parse hi s of Inl e \<Rightarrow> True
                 | Inr p \<Rightarrow> (case profile_validate p cores of Inl e \<Rightarrow> True | Inr u \<Rightarrow> False)) in
           case po_out opts of
             Some path \<Rightarrow>
               if write_ok path then \<lparr>ou_code = 0, ou_warning = warning, ou_file = Some (path, s), ou_printed = None\<rparr>
               else \<lparr>ou_code = 1, ou_warning = warning, ou_file = None, ou_printed = None\<rparr>
           | None \<Rightarrow> \<lparr>ou_code = 0, ou_warning = warning, ou_file = None, ou_printed = Some (s @ [10])\<rparr>))"

section \<open>What validation accepts\<close>

lemma validate_cores_result:
  assumes "length seen = unat n"
  shows "case validate_cores role n cs seen of
      Inl e \<Rightarrow> \<not> (distinct cs \<and> (\<forall>c \<in> set cs. c < n \<and> \<not> seen ! unat c))
    | Inr seen' \<Rightarrow> distinct cs \<and> (\<forall>c \<in> set cs. c < n \<and> \<not> seen ! unat c) \<and> length seen' = unat n \<and>
        (\<forall>c < n. seen' ! unat c \<longleftrightarrow> seen ! unat c \<or> c \<in> set cs)"
  using assms
proof (induction cs arbitrary: seen)
  case (Cons c cs)
  show ?case
  proof (cases "n \<le> c \<or> seen ! unat c")
    case True
    then show ?thesis by auto
  next
    case False
    then have c: "c < n" "\<not> seen ! unat c" "unat c < length seen" using Cons.prems by (simp_all add: not_le word_less_nat_alt)
    have upd: "seen[unat c := True] ! unat d \<longleftrightarrow> seen ! unat d \<or> d = c" for d
      using c by (cases "d = c") (simp_all add: word_unat_eq_iff)
    have len: "length (seen[unat c := True]) = unat n" using Cons.prems by simp
    note IH = Cons.IH [OF len, unfolded upd]
    show ?thesis using c IH False by (auto split: sum.splits)
  qed
qed simp

lemma validate_roles_iff:
  assumes "length seen = unat n"
  shows "validate_roles p n rs seen = Inr () \<longleftrightarrow>
    distinct (concat (map (cores_for p) rs)) \<and> (\<forall>c \<in> set (concat (map (cores_for p) rs)). c < n \<and> \<not> seen ! unat c)"
  using assms
proof (induction rs arbitrary: seen)
  case (Cons role rs)
  note R = validate_cores_result [OF Cons.prems, where role = role and cs = "cores_for p role"]
  show ?case
  proof (cases "validate_cores role n (cores_for p role) seen")
    case (Inl e)
    then show ?thesis using R by auto
  next
    case (Inr seen')
    then have len: "length seen' = unat n" and s: "\<And>c. c < n \<Longrightarrow> seen' ! unat c \<longleftrightarrow> seen ! unat c \<or> c \<in> set (cores_for p role)"
      and ok: "distinct (cores_for p role)" "\<And>c. c \<in> set (cores_for p role) \<Longrightarrow> c < n \<and> \<not> seen ! unat c"
      using R by auto
    show ?thesis using Inr Cons.IH [OF len] s ok by auto blast
  qed
qed simp

lemma validate_iff:
  "profile_validate p n = Inr () \<longleftrightarrow>
     distinct (concat (map (cores_for p) role_ALL)) \<and> (\<forall>c \<in> set (concat (map (cores_for p) role_ALL)). c < n)"
proof -
  have "\<not> replicate (unat n) False ! unat c" if "c < n" for c :: usize using that by (simp add: word_less_nat_alt)
  then show ?thesis unfolding profile_validate_def by (subst validate_roles_iff) auto
qed

lemma set_role_ALL: "set role_ALL = UNIV"
proof -
  have "r \<in> set role_ALL" for r by (cases r) (simp_all add: role_ALL_def)
  then show ?thesis by blast
qed

lemma distinct_concat_map:
  "distinct xs \<Longrightarrow> distinct (concat (map f xs)) \<longleftrightarrow>
     (\<forall>x \<in> set xs. distinct (f x)) \<and> (\<forall>x \<in> set xs. \<forall>y \<in> set xs. x \<noteq> y \<longrightarrow> set (f x) \<inter> set (f y) = {})"
proof (induction xs)
  case (Cons a xs)
  define P where "P x y \<longleftrightarrow> set (f x) \<inter> set (f y) = {}" for x y
  have sym: "P x y \<longleftrightarrow> P y x" for x y by (auto simp: P_def)
  have "set (f a) \<inter> set (concat (map f xs)) = {} \<longleftrightarrow> (\<forall>y \<in> set xs. P a y)" by (auto simp: P_def)
  moreover have "a \<noteq> y" if "y \<in> set xs" for y using Cons.prems that by auto
  ultimately show ?case using Cons sym unfolding P_def [symmetric] by (simp add: ball_conj_distrib) blast
qed simp

text \<open>Validation accepts a profile for a machine exactly when the roles have disjoint lists of existing cores
  without repetition; and then pinning a thread to the cores of a role that has any passes the checks of
  \<open>pin_current\<close> and reaches the operating system.\<close>

theorem validated_profile_pins:
  "(profile_validate p n = Inr () \<longleftrightarrow>
      (\<forall>r. distinct (cores_for p r)) \<and> (\<forall>r r'. r \<noteq> r' \<longrightarrow> set (cores_for p r) \<inter> set (cores_for p r') = {}) \<and> (\<forall>r. \<forall>c \<in> set (cores_for p r). c < n)) \<and>
   (profile_validate p (core_count nproc) = Inr () \<and> cores_for p role \<noteq> [] \<longrightarrow> pin_current nproc pin (cores_for p role) = pin (cores_for p role))"
proof -
  have d: "distinct role_ALL" by (simp add: role_ALL_def)
  have iff: "profile_validate p m = Inr () \<longleftrightarrow>
      (\<forall>r. distinct (cores_for p r)) \<and> (\<forall>r r'. r \<noteq> r' \<longrightarrow> set (cores_for p r) \<inter> set (cores_for p r') = {}) \<and> (\<forall>r. \<forall>c \<in> set (cores_for p r). c < m)" for m
    unfolding validate_iff distinct_concat_map [OF d] by (simp add: set_role_ALL)
  moreover have "find (\<lambda>c. m \<le> c) (cores_for p r) = None" if "profile_validate p m = Inr ()" for m r
    using that unfolding iff by (auto simp: find_None_iff not_le)
  ultimately show ?thesis by (simp add: pin_current_def)
qed

section \<open>Reading the generated profile\<close>

lemma split_when_none: "list_all (\<lambda>c. \<not> p c) s \<Longrightarrow> split_when p s = [s]"
  using split_when_no [of p s "[]"] by simp

lemma str_lines_terminated:
  "\<forall>l \<in> set ls. 10 \<notin> set l \<and> 13 \<notin> set l \<Longrightarrow> str_lines (concat (map (\<lambda>l. l @ [10]) ls)) = ls"
proof -
  assume ok: "\<forall>l \<in> set ls. 10 \<notin> set l \<and> 13 \<notin> set l"
  have "split_when (\<lambda>c. c = 10) (concat (map (\<lambda>l. l @ [10]) ls)) = ls @ [[]]" using ok
  proof (induction ls)
    case (Cons l ls)
    have no: "list_all (\<lambda>c. \<not> c = 10) l" using Cons.prems by (auto simp: list_all_iff)
    show ?case using Cons split_when_no [OF no, of "10 # concat (map (\<lambda>l. l @ [10]) ls)"] by simp
  qed simp
  moreover have "strip_cr l = l" if "l \<in> set ls" for l using ok that by (metis strip_cr_def last_in_set)
  ultimately show ?thesis by (simp add: str_lines_def map_idI)
qed

lemma trim_trailing:
  assumes "s \<noteq> []" and "list_all (\<lambda>c. \<not> is_unicode_ws c) s"
  shows "trim (s @ [32]) = s"
proof -
  have "dropWhile is_unicode_ws (s @ [32]) = s @ [32]" "dropWhile is_unicode_ws (rev s) = rev s"
    using assms by (auto simp: dropWhile_eq_self_iff list_all_iff hd_rev)
  then show ?thesis by (simp add: trim_def is_unicode_ws_def)
qed

text \<open>The keys are plain words that name their role.\<close>

definition word_char :: "nat \<Rightarrow> bool" where
  "word_char c \<longleftrightarrow> 48 \<le> c \<and> c \<le> 57 \<or> 97 \<le> c \<and> c \<le> 122 \<or> c = 45"

lemma word_char_not_ws: "word_char c \<Longrightarrow> \<not> is_unicode_ws c"
  by (auto simp: word_char_def is_unicode_ws_def)

lemma role_key_word: "list_all word_char (lit (role_key r)) \<and> lit (role_key r) \<noteq> [] \<and> role_from_key (lit (role_key r)) = Some r"
  by (cases r) (simp_all add: lit_def word_char_def role_from_key_def role_ALL_def ascii_lower_def)

lemma show_dec_word: "list_all word_char (show_dec n)" "show_dec n \<noteq> []" "45 \<notin> set (show_dec n)" "44 \<notin> set (show_dec n)"
  using show_dec_digit_list [of n] by (auto simp: list_all_iff word_char_def)

lemma no_line_end:
  "10 \<notin> set (show_dec n)" "13 \<notin> set (show_dec n)" "10 \<notin> set (lit (role_key r))" "13 \<notin> set (lit (role_key r))"
  using show_dec_word(1) [of n] role_key_word [of r] by (auto simp: list_all_iff word_char_def)

lemma parse_line_shape:
  assumes v: "v \<noteq> []" "list_all word_char v" and new: "a (role_key role) = None"
  shows "parse_line hi n (lit (role_key role) @ lit '' = '' @ v) a =
    (case parse_core_list hi v of
       Inl s \<Rightarrow> Inl \<lparr>pe_lineno = n, pe_kind = BadCoreSpec s\<rparr>
     | Inr cs \<Rightarrow> if cs = [] then Inl \<lparr>pe_lineno = n, pe_kind = BadCoreSpec (lit ''empty list'')\<rparr> else Inr (a(role_key role \<mapsto> cs)))"
proof -
  let ?k = "lit (role_key role)" and ?l = "lit (role_key role) @ lit '' = '' @ v"
  note K = role_key_word [of role]
  have sep: "lit '' = '' = [32, 61, 32]" by (simp add: lit_def)
  have nows: "list_all (\<lambda>c. \<not> is_unicode_ws c) w" if "list_all word_char w" for w using that word_char_not_ws by (auto simp: list_all_iff)
  have "list_all (\<lambda>c. \<not> c = 35) ?l" using K v by (auto simp: list_all_iff sep word_char_def)
  then have h: "hd (split_when (\<lambda>c. c = 35) ?l) = ?l" by (simp add: split_when_none)
  have "\<not> is_unicode_ws (hd ?l)" "\<not> is_unicode_ws (last ?l)"
    using K v nows [of ?k] nows [of v] by (auto simp: list_all_iff sep)
  then have t: "trim ?l = ?l" using K by (intro trim_ends) auto
  have no: "61 \<notin> set (?k @ [32])" using K by (auto simp: list_all_iff word_char_def)
  have s: "split_once 61 ?l = Some (?k @ [32], 32 # v)" using split_once_first [OF no, of "32 # v"] by (simp add: sep)
  have k: "trim (?k @ [32]) = ?k" using K nows by (intro trim_trailing) auto
  have w: "trim (32 # v) = v" using trim_space [of v] trim_no_ws [OF nows [OF v(2)]] by simp
  show ?thesis using K new unfolding parse_line_def Let_def h t s by (simp add: k w split: sum.splits)
qed

lemma parse_core_list_one: "parse_core_list hi (show_dec (unat c)) = Inr [c]"
proof -
  note D = show_dec_word [of "unat c"]
  have "list_all (\<lambda>x. \<not> x = 44) (show_dec (unat c))" using D(4) by (auto simp: list_all_iff)
  moreover have "trim (show_dec (unat c)) = show_dec (unat c)"
    using D(1) word_char_not_ws by (intro trim_no_ws) (auto simp: list_all_iff)
  moreover have "split_once 45 (show_dec (unat c)) = None" using D(3) by (simp add: split_once_def)
  ultimately show ?thesis using D(2) by (simp add: parse_core_list_def split_when_none parse_u64_show_dec)
qed

lemma parse_core_list_range:
  fixes a b :: usize
  shows "parse_core_list hi (show_dec (unat a) @ 45 # show_dec (unat b)) =
     (if b < a \<or> 4096 < b - a then Inl (lit ''range '' @ str_debug hi (show_dec (unat a) @ 45 # show_dec (unat b)))
      else Inr (map word_of_nat [unat a..<Suc (unat b)]))"
proof -
  let ?s = "show_dec (unat a) @ 45 # show_dec (unat b)"
  note D = show_dec_word [of "unat a"] show_dec_word [of "unat b"]
  have w: "list_all word_char ?s" using D by (simp add: word_char_def)
  have nows: "trim x = x" if "list_all word_char x" for x using that word_char_not_ws by (intro trim_no_ws) (auto simp: list_all_iff)
  have "list_all (\<lambda>x. \<not> x = 44) ?s" using D(4,8) by (auto simp: list_all_iff)
  moreover have "split_once 45 ?s = Some (show_dec (unat a), show_dec (unat b))" by (rule split_once_first) (rule D)
  ultimately show ?thesis using nows [OF w] nows [OF D(1)] nows [OF D(5)]
    by (simp add: parse_core_list_def split_when_none parse_u64_show_dec Let_def del: upt_Suc)
qed

text \<open>The lines of the profile of a machine.\<close>

definition role_line :: "nat \<times> core_role \<Rightarrow> rstring" where
  "role_line = (\<lambda>(r, role). lit (role_key role) @ lit '' = '' @ show_dec r)"

definition pinned_roles :: "usize \<Rightarrow> (nat \<times> core_role) list" where
  "pinned_roles n = take (unat n) (enumerate 0 [Video, Control, Network, Input, Media, Storage])"

definition spare_lines :: "usize \<Rightarrow> rstring list" where
  "spare_lines n = (if 7 < unat n then [lit (role_key Spare) @ lit '' = '' @ show_dec (unat (6 :: usize)) @ 45 # show_dec (unat (n - 1))] else [])"

lemma role_lines_text:
  "Spare \<notin> set rs \<Longrightarrow> role_lines n r (rs @ [Spare]) = concat (map (\<lambda>l. l @ [10]) (map role_line (take (unat n - r) (enumerate r rs))))"
proof (induction rs arbitrary: r)
  case (Cons x rs)
  show ?case
  proof (cases "unat n \<le> r")
    case False
    then have "unat n - r = Suc (unat n - Suc r)" by simp
    moreover have "x \<noteq> Spare" using Cons.prems by auto
    ultimately show ?thesis using Cons False by (simp add: role_line_def)
  qed simp
qed simp

lemma default_profile_lines:
  assumes "1 \<le> unat n"
  shows "str_lines (default_profile_text n) =
    [lit ''# tpt-teleop core profile (generated by tpt-t-cli profile)'', lit ''# cores available: '' @ show_dec (unat n)] @
    map role_line (pinned_roles n) @ spare_lines n" (is "_ = ?ls")
proof -
  have "1 \<le> n" using assms by (simp add: word_le_nat_alt)
  then have m: "max n 1 = n" by (simp add: max_def)
  have A: "role_ALL = [Video, Control, Network, Input, Media, Storage] @ [Spare]" by (simp add: role_ALL_def)
  have six: "lit ''6-'' = show_dec (unat (6 :: usize)) @ [45]" by (simp add: lit_def show_dec.simps)
  have body: "default_profile_text n = concat (map (\<lambda>l. l @ [10]) ?ls)"
    unfolding default_profile_text_def Let_def m A pinned_roles_def
    by (subst role_lines_text) (simp_all add: spare_lines_def six del: role_lines.simps enumerate_simps)
  have "10 \<notin> set l \<and> 13 \<notin> set l" if "l \<in> set ?ls" for l
    using that no_line_end
    by (auto simp: role_line_def spare_lines_def split: if_splits) (auto simp: lit_def)
  then show ?thesis unfolding body by (intro str_lines_terminated) blast
qed

definition assign_role :: "core_profile \<Rightarrow> nat \<times> core_role \<Rightarrow> core_profile" where
  "assign_role a x = a(role_key (snd x) \<mapsto> [word_of_nat (fst x)])"

lemma parse_roles:
  assumes "distinct (map snd xs)" and "\<And>r role. (r, role) \<in> set xs \<Longrightarrow> a (role_key role) = None \<and> r < 2 ^ 64"
  shows "parse_from hi n (map role_line xs @ rest) a =
    parse_from hi (n + word_of_nat (length xs)) rest (foldl assign_role a xs)"
  using assms
proof (induction xs arbitrary: n a)
  case (Cons x xs)
  obtain r role where x: "x = (r, role)" by (cases x)
  have r: "show_dec r = show_dec (unat (word_of_nat r :: usize))" using Cons.prems(2) [of r role] x by (simp add: unat_of_nat)
  have step: "parse_line hi (n + 1) (role_line x) a = Inr (assign_role a x)"
    unfolding x role_line_def prod.case r assign_role_def fst_conv snd_conv using Cons.prems(2) [of r role] x
    by (subst parse_line_shape) (simp_all add: parse_core_list_one show_dec_word)
  have "role' \<noteq> role" if "(r', role') \<in> set xs" for r' role' using Cons.prems(1) that x by force
  then have "role_key role' \<noteq> role_key role" if "(r', role') \<in> set xs" for r' role' using that role_key_word by (metis option.inject)
  then have "assign_role a x (role_key role') = None \<and> r' < 2 ^ 64" if "(r', role') \<in> set xs" for r' role'
    using that Cons.prems(2) [of r' role'] x by (simp add: assign_role_def)
  then show ?case using Cons.IH [of "assign_role a x" "n + 1"] Cons.prems(1) step by (simp add: ac_simps)
qed simp

lemma parse_default_profile:
  assumes "1 \<le> unat n"
  shows "profile_parse hi (default_profile_text n) =
    parse_from hi (0 + 1 + 1 + word_of_nat (length (pinned_roles n))) (spare_lines n)
      (foldl assign_role (\<lambda>_. None) (pinned_roles n))"
proof -
  have comment: "parse_line hi k (35 # cs) a = Inr a" for k cs and a :: core_profile by (simp add: parse_line_def trim_def)
  have "distinct (map snd (pinned_roles n))" by (simp add: pinned_roles_def take_map [symmetric] distinct_take)
  moreover have "r < 2 ^ 64" if "(r, role) \<in> set (pinned_roles n)" for r role
    using in_set_takeD [OF that [unfolded pinned_roles_def]] by auto
  ultimately show ?thesis unfolding profile_parse_def default_profile_lines [OF assms]
    by (simp add: comment lit_def parse_roles)
qed

lemma parse_spare:
  assumes "7 < unat n" and "a (role_key Spare) = None"
  shows "unat n \<le> 4103 \<Longrightarrow> parse_from hi k (spare_lines n) a = Inr (a(role_key Spare \<mapsto> map word_of_nat [6..<unat n]))"
    and "4103 < unat n \<Longrightarrow> \<exists>s. parse_from hi k (spare_lines n) a = Inl \<lparr>pe_lineno = k + 1, pe_kind = BadCoreSpec s\<rparr>"
proof -
  let ?v = "show_dec (unat (6 :: usize)) @ 45 # show_dec (unat (n - 1))"
  have v: "?v \<noteq> []" "list_all word_char ?v" using show_dec_word by (simp_all add: word_char_def)
  have u: "unat (n - 1) = unat n - 1" using assms(1) by (subst unat_sub) (simp_all add: word_le_nat_alt)
  have "\<not> n - 1 < 6" using assms(1) u by (simp add: word_less_nat_alt)
  moreover have "unat (n - 1 - 6) = unat n - 7" using assms(1) u by (subst unat_sub) (simp_all add: word_le_nat_alt)
  then have "4096 < n - 1 - 6 \<longleftrightarrow> 4103 < unat n" by (simp add: word_less_nat_alt less_diff_conv)
  moreover have "Suc (unat (n - 1)) = unat n" using assms(1) u by simp
  ultimately have L: "parse_core_list hi ?v = (if 4103 < unat n then Inl (lit ''range '' @ str_debug hi ?v) else Inr (map word_of_nat [6..<unat n]))"
    unfolding parse_core_list_range by simp
  have line: "spare_lines n = [lit (role_key Spare) @ lit '' = '' @ ?v]" using assms(1) by (simp add: spare_lines_def)
  note shape = parse_line_shape [where v = ?v and role = Spare and a = a, OF v assms(2)]
  show "parse_from hi k (spare_lines n) a = Inr (a(role_key Spare \<mapsto> map word_of_nat [6..<unat n]))" if "unat n \<le> 4103"
    unfolding line parse_from.simps shape L using that assms(1) by simp
  show "\<exists>s. parse_from hi k (spare_lines n) a = Inl \<lparr>pe_lineno = k + 1, pe_kind = BadCoreSpec s\<rparr>" if "4103 < unat n"
    unfolding line parse_from.simps shape L using that by simp
qed

lemma pinned_cores:
  assumes "1 \<le> unat n" and "i < 6"
  shows "cores_for (foldl assign_role (\<lambda>_. None) (pinned_roles n)) (role_ALL ! i) = (if i < unat n then [word_of_nat i] else [])"
proof -
  have "unat n = 1 \<or> unat n = 2 \<or> unat n = 3 \<or> unat n = 4 \<or> unat n = 5 \<or> 6 \<le> unat n" using assms(1) by linarith
  moreover have "i = 0 \<or> i = 1 \<or> i = 2 \<or> i = 3 \<or> i = 4 \<or> i = 5" using assms(2) by linarith
  ultimately show ?thesis
    by (elim disjE) (simp_all add: pinned_roles_def role_ALL_def cores_for_def assign_role_def)
qed

lemma unpinned_spare: "foldl assign_role (\<lambda>_. None) (pinned_roles n) (role_key Spare) = None"
proof -
  have "foldl assign_role a xs (role_key Spare) = a (role_key Spare)" if "\<forall>x \<in> set xs. role_key (snd x) \<noteq> role_key Spare" for a xs
    using that by (induction xs arbitrary: a) (auto simp: assign_role_def)
  moreover have "role_key (snd x) \<noteq> role_key Spare" if "x \<in> set (pinned_roles n)" for x
    using in_set_takeD [OF that [unfolded pinned_roles_def]] by auto
  ultimately show ?thesis by simp
qed

lemma role_key_inject: "role_key r = role_key r' \<longleftrightarrow> r = r'"
  using role_key_word by (metis option.inject)

text \<open>The profile that is read back: one core for each of the first roles and the rest for the spare role.\<close>

definition default_profile :: "usize \<Rightarrow> core_profile" where
  "default_profile n =
     (let p = foldl assign_role (\<lambda>_. None) (pinned_roles n) in if 7 < unat n then p(role_key Spare \<mapsto> map word_of_nat [6..<unat n]) else p)"

lemma default_profile_cores:
  assumes "1 \<le> unat n"
  shows "i < 6 \<Longrightarrow> cores_for (default_profile n) (role_ALL ! i) = (if i < unat n then [word_of_nat i] else [])"
    and "cores_for (default_profile n) Spare = (if 7 < unat n then map word_of_nat [6..<unat n] else [])"
proof -
  show "cores_for (default_profile n) Spare = (if 7 < unat n then map word_of_nat [6..<unat n] else [])"
    using unpinned_spare [of n] by (simp add: default_profile_def cores_for_def)
  assume i: "i < 6"
  then have "role_ALL ! i \<noteq> Spare" by (auto simp: role_ALL_def less_Suc_eq numeral_eq_Suc)
  then have "role_key (role_ALL ! i) \<noteq> role_key Spare" unfolding role_key_inject .
  then show "cores_for (default_profile n) (role_ALL ! i) = (if i < unat n then [word_of_nat i] else [])"
    using pinned_cores [OF assms i] by (simp add: default_profile_def cores_for_def Let_def)
qed

lemma filter_less_upt: "filter (\<lambda>i. i < n) [0..<m] = [0..<min m n]"
proof (induction m)
  case (Suc m)
  then show ?case by (cases "m < n") (simp_all add: min_def)
qed simp

lemma default_profile_all:
  assumes "1 \<le> unat n"
  shows "concat (map (cores_for (default_profile n)) role_ALL) =
    map word_of_nat ([0..<min 6 (unat n)] @ (if 7 < unat n then [6..<unat n] else []))"
proof -
  have "map f role_ALL = map (\<lambda>i. f (role_ALL ! i)) [0..<6] @ [f Spare]" for f :: "core_role \<Rightarrow> usize list" by (simp add: role_ALL_def upt_rec)
  then have "concat (map (cores_for (default_profile n)) role_ALL) =
      concat (map (\<lambda>i. cores_for (default_profile n) (role_ALL ! i)) [0..<6]) @ cores_for (default_profile n) Spare"
    by (simp only: concat_append concat.simps append_Nil2)
  also have "concat (map (\<lambda>i. cores_for (default_profile n) (role_ALL ! i)) [0..<6]) = concat (map (\<lambda>i. if i < unat n then [word_of_nat i] else []) [0..<6])"
    using default_profile_cores(1) [OF assms] by (intro arg_cong [where f = concat] map_cong) auto
  also have "\<dots> = map word_of_nat (filter (\<lambda>i. i < unat n) [0..<6])" by (simp add: upt_rec)
  also have "filter (\<lambda>i. i < unat n) [0..<6] = [0..<min 6 (unat n)]" by (rule filter_less_upt)
  finally show ?thesis unfolding default_profile_cores(2) [OF assms] by simp
qed

lemma default_profile_valid:
  assumes "1 \<le> unat n"
  shows "profile_validate (default_profile n) n = Inr ()"
proof -
  let ?xs = "[0..<min 6 (unat n)] @ (if 7 < unat n then [6..<unat n] else [])"
  have lt: "x < unat n" if "x \<in> set ?xs" for x using that by (auto split: if_splits)
  then have u: "unat (word_of_nat x :: usize) = x" if "x \<in> set ?xs" for x
    using that unsigned_less [of n, where 'a = nat] by (fastforce simp: unat_of_nat)
  have "inj_on (word_of_nat :: nat \<Rightarrow> usize) (set ?xs)" by (rule inj_on_inverseI [where g = unat]) (rule u)
  moreover have "distinct ?xs" by auto
  ultimately have "distinct (map (word_of_nat :: nat \<Rightarrow> usize) ?xs)" unfolding distinct_map by simp
  moreover have "(word_of_nat x :: usize) < n" if "x \<in> set ?xs" for x using u [OF that] lt [OF that] by (simp add: word_less_nat_alt)
  ultimately show ?thesis unfolding validate_iff default_profile_all [OF assms] by auto
qed

lemma generated_profile:
  assumes "1 \<le> unat n" and "unat n \<le> 4103"
  shows "\<exists>p. profile_parse hi (default_profile_text n) = Inr p \<and> profile_validate p n = Inr () \<and>
    (\<forall>i < 6. cores_for p (role_ALL ! i) = (if i < unat n then [word_of_nat i] else [])) \<and>
    cores_for p Spare = (if 7 < unat n then map word_of_nat [6..<unat n] else [])"
proof -
  have "profile_parse hi (default_profile_text n) = Inr (default_profile n)"
    unfolding parse_default_profile [OF assms(1)] default_profile_def Let_def
    using parse_spare(1) [of n "foldl assign_role (\<lambda>_. None) (pinned_roles n)"] unpinned_spare [of n] assms(2)
    by (cases "7 < unat n") (simp, simp add: spare_lines_def)
  then show ?thesis
    using default_profile_valid [OF assms(1)] default_profile_cores [OF assms(1)] by blast
qed



text \<open>With exactly seven cores the last core gets no role, although the command documents that the remaining cores
  go to the spare role: the profile is accepted, and no role lists core 6.\<close>

theorem seventh_core_unassigned:
  "\<exists>p. profile_parse hi (default_profile_text 7) = Inr p \<and> profile_validate p 7 = Inr () \<and> cores_for p Spare = [] \<and>
    (\<forall>r. 6 \<notin> set (cores_for p r))"
proof -
  obtain p where p: "profile_parse hi (default_profile_text 7) = Inr p" "profile_validate p 7 = Inr ()"
      "\<And>i. i < 6 \<Longrightarrow> cores_for p (role_ALL ! i) = [word_of_nat i]" "cores_for p Spare = []"
    using generated_profile [of 7 hi] by auto
  have "6 \<notin> set (cores_for p r)" for r
    using p(3) [of 0] p(3) [of 1] p(3) [of 2] p(3) [of 3] p(3) [of 4] p(3) [of 5] p(4)
    by (cases r) (simp_all add: role_ALL_def)
  then show ?thesis using p by blast
qed

theorem validated_profile_pins_witness:
  "profile_validate (\<lambda>k. if k = ''control'' then Some [1] else None) 2 = Inr () \<and>
   pin_current 2 (\<lambda>cs. if cs = [1] then Inr () else Inl NoCores) (cores_for (\<lambda>k. if k = ''control'' then Some [1] else None) Control)
     = (Inr () :: unit affinity_error + unit)"
proof -
  let ?p = "\<lambda>k. if k = ''control'' then Some [1] else None" and ?pin = "\<lambda>cs. if cs = [1] then Inr () else Inl NoCores :: unit affinity_error + unit"
  have v: "profile_validate ?p 2 = Inr ()" unfolding validate_iff by (simp add: role_ALL_def cores_for_def)
  have c: "core_count 2 = 2" by (simp add: core_count_def)
  show ?thesis using validated_profile_pins [of ?p 2 2 Control ?pin] v c by (simp add: cores_for_def)
qed

end
