(* ===== verification/Console.thy ===== *)
theory Console
  imports Cloud_Gate Core_Profile
begin

text \<open>
  The co-pilot console of the command line (cli console.rs): its arguments, its commands, the JSON-RPC call
  it makes of a command, the HTTP request it sends and how it reads the answer. The exchange with the
  server over a fresh connection, the contents of the attestation file and the replacement of bytes that
  are not UTF-8 are arguments.

  The lemmas connect the console to the fleet server: what it sends is parsed by the server's own
  parser, and the tool it names is called with its arguments. Unit numbers travel as floating point
  numbers, exactly below \<open>2 ^ 53\<close> and to a neighbour above.
\<close>

section \<open>Arguments\<close>

record console_opts =
  co_host :: rstring
  co_auth :: "rstring option"

fun console_args :: "(rstring \<Rightarrow> rstring option) \<Rightarrow> rstring list \<Rightarrow> console_opts \<Rightarrow> console_opts option" where
  "console_args read_file [] opts = Some opts"
| "console_args read_file (a # as) opts =
     (if a = lit ''--host'' then
        (case as of [] \<Rightarrow> None | h # as' \<Rightarrow> console_args read_file as' (opts\<lparr>co_host := h\<rparr>))
      else if a = lit ''--attestation'' then
        (case as of [] \<Rightarrow> None
         | path # as' \<Rightarrow>
             (case read_file path of
                Some hex \<Rightarrow> console_args read_file as' (opts\<lparr>co_auth := Some (trim hex)\<rparr>)
              | None \<Rightarrow> None))
      else None)"

section \<open>Commands\<close>

datatype console_action = Quit | Skip | Help | Complain | Call string json

definition call_unit_tool :: "string \<Rightarrow> rstring \<Rightarrow> console_action" where
  "call_unit_tool tool w =
     (case parse_u64 w of Some uid \<Rightarrow> Call tool (json_obj [(''unit_id'', json_uint uid)]) | None \<Rightarrow> Complain)"

definition console_action :: "rstring \<Rightarrow> console_action" where
  "console_action raw =
     (let line = trim raw in
      if line = [] then Skip
      else let ws = split_whitespace line; w = ws ! 0; n = length ws in
        if w = lit ''quit'' \<or> w = lit ''exit'' then Quit
        else if w = lit ''help'' then Help
        else if w = lit ''list'' \<and> n = 1 then Call ''list_units'' (json_obj [])
        else if w = lit ''assign'' \<and> n = 3 then
          (case parse_u64 (ws ! 1) of
             Some uid \<Rightarrow> Call ''assign_unit'' (json_obj [(''unit_id'', json_uint uid), (''operator'', Str (ws ! 2))])
           | None \<Rightarrow> Complain)
        else if w = lit ''auto'' \<and> n = 2 then call_unit_tool ''engage_autonomy'' (ws ! 1)
        else if w = lit ''manual'' \<and> n = 2 then call_unit_tool ''take_manual_control'' (ws ! 1)
        else Complain)"

definition call_json :: "u64 \<Rightarrow> string \<Rightarrow> json \<Rightarrow> json" where
  "call_json rid tool args = json_obj
     [(''jsonrpc'', Str (lit ''2.0'')), (''id'', json_uint rid), (''method'', Str (lit ''tools/call'')),
      (''params'', json_obj [(''name'', Str (lit tool)), (''arguments'', args)])]"

section \<open>One exchange\<close>

definition console_request :: "rstring \<Rightarrow> rstring option \<Rightarrow> rstring \<Rightarrow> bytes" where
  "console_request host auth json_body =
     utf8 (lit ''POST /mcp HTTP/1.1'' @ crlf @ lit ''Host: '' @ host @ crlf @ lit ''Content-Type: application/json'' @ crlf @
       lit ''Content-Length: '' @ show_dec (length (utf8 json_body)) @ crlf @
       (case auth of Some h \<Rightarrow> lit ''Authorization: TPT-Attestation '' @ h @ crlf | None \<Rightarrow> []) @
       lit ''Connection: close'' @ crlf @ crlf @ json_body)"

text \<open>\<open>splitn(2, "\r\n\r\n")\<close>, with nothing after the end when there is no empty line.\<close>

fun split_blank :: "rstring \<Rightarrow> rstring \<times> rstring" where
  "split_blank [] = ([], [])"
| "split_blank (c # cs) =
     (if take 4 (c # cs) = crlf @ crlf then ([], drop 4 (c # cs)) else (c # fst (split_blank cs), snd (split_blank cs)))"

definition parse_u16 :: "rstring \<Rightarrow> u16 option" where
  "parse_u16 s = (case parse_u64 s of Some n \<Rightarrow> if n < 65536 then Some (ucast n) else None | None \<Rightarrow> None)"

definition read_response :: "(bytes \<Rightarrow> rstring) \<Rightarrow> bytes \<Rightarrow> u16 \<times> rstring" where
  "read_response lossy raw =
     (let s = (case utf8_decode raw of Some s \<Rightarrow> s | None \<Rightarrow> lossy raw);
          (head, body) = split_blank s;
          code = (case str_lines head of
            [] \<Rightarrow> 0
          | l # ls \<Rightarrow> (let ws = split_whitespace l in
              if 1 < length ws then (case parse_u16 (ws ! 1) of Some c \<Rightarrow> c | None \<Rightarrow> 0) else 0))
      in (code, body))"

datatype console_output = Printed rstring | Failed rstring

definition show_response :: "u16 \<times> rstring \<Rightarrow> console_output" where
  "show_response r =
     (case json_parse (utf8 (snd r)) of
        Inr v \<Rightarrow>
          (case json_get v ''error'' of
             Some err \<Rightarrow> Failed (write_to_string err)
           | None \<Rightarrow> (case json_get v ''result'' of Some result \<Rightarrow> Printed (write_to_string result) | None \<Rightarrow> Printed (write_to_string v)))
      | Inl e \<Rightarrow> Failed (lit ''invalid JSON response (HTTP '' @ show_dec (unat (fst r)) @ lit ''): '' @ e @ [10] @ snd r))"

text \<open>One call; \<open>exchange\<close> sends the bytes over a fresh connection and gives what comes back until the end
  of the stream, or an error of the connection.\<close>

definition console_dispatch :: "(rstring \<Rightarrow> bytes \<Rightarrow> 'w \<Rightarrow> (rstring + bytes) \<times> 'w) \<Rightarrow> (bytes \<Rightarrow> rstring) \<Rightarrow> console_opts \<Rightarrow>
    u64 \<Rightarrow> string \<Rightarrow> json \<Rightarrow> 'w \<Rightarrow> console_output \<times> u64 \<times> 'w" where
  "console_dispatch exchange lossy opts next_id tool args w =
     (let body = write_to_string (call_json next_id tool args);
          (r, w') = exchange (co_host opts) (console_request (co_host opts) (co_auth opts) body) w
      in ((case r of Inr raw \<Rightarrow> show_response (read_response lossy raw) | Inl e \<Rightarrow> Failed (lit ''request to '' @ co_host opts @ lit '' failed: '' @ e)), next_id + 1, w'))"

text \<open>The loop over the lines of the input, to its end.\<close>

fun console_loop :: "(rstring \<Rightarrow> bytes \<Rightarrow> 'w \<Rightarrow> (rstring + bytes) \<times> 'w) \<Rightarrow> (bytes \<Rightarrow> rstring) \<Rightarrow> console_opts \<Rightarrow>
    rstring list \<Rightarrow> u64 \<Rightarrow> 'w \<Rightarrow> console_output list \<times> 'w" where
  "console_loop exchange lossy opts [] next_id w = ([], w)"
| "console_loop exchange lossy opts (line # lines) next_id w =
     (case console_action line of
        Quit \<Rightarrow> ([], w)
      | Call tool args \<Rightarrow>
          (let (out, next_id', w') = console_dispatch exchange lossy opts next_id tool args w;
               (outs, w'') = console_loop exchange lossy opts lines next_id' w'
           in (out # outs, w''))
      | _ \<Rightarrow> console_loop exchange lossy opts lines next_id w)"

section \<open>Unit numbers as floating point numbers\<close>

lemma mag_val_nat:
  assumes "0 < n" and "n < 2 ^ 53"
  shows "\<exists>a < 1087 * 2 ^ 52. mag_val 52 11 a = rat_of_nat n"
proof -
  define k where "k = bit_width n - 1"
  have b: "2 ^ k \<le> n" "n < 2 ^ Suc k" using bit_width_bounds [OF assms(1)] assms(1) by (cases "bit_width n"; simp add: k_def)+
  then have k: "k < 53" using assms(2) power_less_imp_less_exp [of "2 :: nat" k 53] by linarith
  define M where "M = n * 2 ^ (52 - k)"
  have p: "(2::nat) ^ k * 2 ^ (52 - k) = 2 ^ 52" using k by (simp flip: power_add)
  have "M < 2 ^ Suc k * 2 ^ (52 - k)" unfolding M_def by (rule mult_strict_right_mono [OF b(2)]) simp
  also have "\<dots> = 2 * (2 ^ k * 2 ^ (52 - k))" by simp
  finally have M: "2 ^ 52 \<le> M" "M < 2 ^ 53"
    using mult_le_mono1 [OF b(1), of "2 ^ (52 - k)"] unfolding p by (simp_all add: M_def)
  define a where "a = (k + 1023) * 2 ^ 52 + (M - 2 ^ 52)"
  have fr: "M - 2 ^ 52 < 2 ^ 52" using M by simp
  have "(q * P + r) div P = q \<and> (q * P + r) mod P = r" if "r < P" for q P r :: nat using that by simp
  note d = conjunct1 [OF this [OF fr, of "k + 1023"]] conjunct2 [OF this [OF fr, of "k + 1023"]]
  have "mag_val 52 11 a = rat_of_nat M * two_pow (int k - 52)"
    using M unfolding mag_val_def Let_def a_def d by (simp add: e_min_def)
  also have "rat_of_nat M = rat_of_nat n * two_pow (int (52 - k))" by (simp add: M_def)
  also have "\<dots> * two_pow (int k - 52) = rat_of_nat n"
    using two_pow_add [of "int (52 - k)" "int k - 52"] k by (simp add: mult.assoc of_nat_diff two_pow_def)
  finally have "mag_val 52 11 a = rat_of_nat n" .
  moreover have "a < 1087 * 2 ^ 52" using k fr by (simp add: a_def)
  ultimately show ?thesis by blast
qed

lemma f64_of_u64_exact:
  assumes "unat u < 2 ^ 53"
  shows "f64_val (f64_of_u64 u) = Finite False (rat_of_nat (unat u))"
proof (cases "unat u = 0")
  case True
  then show ?thesis by (simp add: f64_of_u64_def f64_val_of rnd_simps mag_bits_def mag_val_def)
next
  case False
  then obtain a where a: "a < 1087 * 2 ^ 52" "mag_val 52 11 a = rat_of_nat (unat u)" using mag_val_nat [of "unat u"] assms by auto
  then have "mag_bits 52 11 (rat_of_nat (unat u)) = a" using mag_bits_of_val [of 52 11 a] by simp
  then show ?thesis using a by (simp add: f64_of_u64_def f64_val_of rnd_simps)
qed

lemma as_u64_exact: "unat u < 2 ^ 53 \<Longrightarrow> f64_as_u64 (f64_of_u64 u) = u"
proof -
  assume u: "unat u < 2 ^ 53"
  define n where "n = unat u"
  have "rat_of_nat n < rat_of_nat (2 ^ 53)" using u unfolding n_def by (simp only: of_nat_less_iff)
  then have "rat_of_nat n < 2 ^ 64" by simp
  moreover have "word_of_nat n = u" by (simp add: n_def)
  ultimately show ?thesis unfolding f64_as_u64_def f64_of_u64_exact [OF u] n_def [symmetric] by simp
qed

text \<open>Every 64-bit number becomes a finite value.\<close>

lemma f64_of_u64_finite: "\<exists>q. f64_val (f64_of_u64 u) = Finite False q"
proof -
  have v: "mag_val 52 11 (1087 * 2 ^ 52) = 2 ^ 64" by (simp add: mag_val_def e_min_def two_pow_def)
  have "unat u < 2 ^ 64" using unsigned_less [of u, where 'a = nat] by simp
  then have "rat_of_nat (unat u) \<le> rat_of_nat (2 ^ 64)" unfolding of_nat_le_iff by simp
  then have "rat_of_nat (unat u) \<le> mag_val 52 11 (1087 * 2 ^ 52)" unfolding v by simp
  then have "mag_bits 52 11 (rat_of_nat (unat u)) \<le> 1087 * 2 ^ 52"
    using mag_bits_mono [of "rat_of_nat (unat u)" "mag_val 52 11 (1087 * 2 ^ 52)" 52 11] unfolding mag_bits_of_val by blast
  then have "mag_bits 52 11 (rat_of_nat (unat u)) < (2 ^ 11 - 1) * 2 ^ 52" by simp
  then show ?thesis by (simp add: f64_of_u64_def f64_val_of rnd_simps)
qed

lemma json_uint_ok [simp]: "json_ok (json_uint u)"
  using f64_of_u64_finite [of u] by (auto simp: json_uint_def num_ok_def)

section \<open>The request reaches the server\<close>

definition console_headers :: "rstring \<Rightarrow> rstring option \<Rightarrow> nat \<Rightarrow> (rstring \<times> rstring) list" where
  "console_headers host auth n =
     [(lit ''Host'', host), (lit ''Content-Type'', lit ''application/json''), (lit ''Content-Length'', show_dec n)] @
     (case auth of Some h \<Rightarrow> [(lit ''Authorization'', SCHEME @ h)] | None \<Rightarrow> []) @ [(lit ''Connection'', lit ''close'')]"

lemma show_dec_header: "header_sendable (lit ''Content-Length'', show_dec n)"
proof -
  have "13 \<notin> set (show_dec n)" "trim (show_dec n) = show_dec n"
    using show_dec_word(1) [of n] no_line_end(2) [of n] word_char_not_ws by (auto intro!: trim_no_ws simp: list_all_iff)
  then show ?thesis using show_dec_ascii [of n] by (simp add: header_sendable_def token_ok_def lit_def ascii_def is_unicode_ws_def)
qed

lemma console_headers_ok:
  assumes "header_sendable (lit ''Host'', host)" and "\<And>h. auth = Some h \<Longrightarrow> header_sendable (lit ''Authorization'', SCHEME @ h)"
  shows "list_all header_sendable (console_headers host auth n)"
proof -
  have "header_sendable (lit ''Content-Type'', lit ''application/json'')" "header_sendable (lit ''Connection'', lit ''close'')"
    by (simp_all add: header_sendable_def token_ok_def lit_def ascii_def is_unicode_ws_def trim_def)
  then show ?thesis using assms show_dec_header by (cases auth) (simp_all add: console_headers_def)
qed

lemma lower_console_headers:
  "lower_names (console_headers host auth n) =
     [(lit ''host'', host), (lit ''content-type'', lit ''application/json''), (lit ''content-length'', show_dec n)] @
     (case auth of Some h \<Rightarrow> [(lit ''authorization'', SCHEME @ h)] | None \<Rightarrow> []) @ [(lit ''connection'', lit ''close'')]"
  by (cases auth) (simp_all add: console_headers_def lower_names_def lit_def ascii_lower_def)

lemma console_request_text:
  assumes "ascii (request_text (lit ''POST'') (lit ''/mcp'') (console_headers host auth (length (utf8 body))))"
  shows "console_request host auth body =
    map word_of_nat (request_text (lit ''POST'') (lit ''/mcp'') (console_headers host auth (length (utf8 body)))) @ CRLF2 @ utf8 body"
proof -
  let ?t = "request_text (lit ''POST'') (lit ''/mcp'') (console_headers host auth (length (utf8 body)))"
  have "console_request host auth body = utf8 (?t @ crlf @ crlf @ body)"
    unfolding console_request_def by (cases auth)
      (simp_all add: request_text_def console_headers_def header_line_def SCHEME_def crlf_def lit_def del: utf8_append)
  moreover have "utf8 crlf = [13, 10]" by (simp add: crlf_def utf8_Cons_ascii)
  ultimately show ?thesis using utf8_ascii [OF assms] by (simp add: CRLF2_def)
qed

lemma request_text_ascii:
  assumes "token_ok m" and "token_ok target" and "list_all header_sendable hs"
  shows "ascii (request_text m target hs)"
proof -
  have "ascii (header_line h)" if "h \<in> set hs" for h using header_line_ok [of h] assms(3) that by (auto simp: list_all_iff)
  then show ?thesis using assms(1,2) by (auto simp: request_text_def token_ok_def ascii_def crlf_def lit_def list_all_iff)
qed

lemma console_content_length:
  assumes "n < 2 ^ 64"
  shows "content_length_of (lower_names (console_headers host auth n)) 0 = word_of_nat n"
proof -
  have "parse_u64 (show_dec n) = Some (word_of_nat n)" using parse_u64_show_dec [of "word_of_nat n"] assms by (simp add: unat_of_nat)
  then show ?thesis by (cases auth) (simp_all add: lower_console_headers content_length_of_def)
qed

lemma console_request_parsed:
  assumes h: "header_sendable (lit ''Host'', host)" "\<And>h. auth = Some h \<Longrightarrow> header_sendable (lit ''Authorization'', SCHEME @ h)"
    and len: "length (console_request host auth body) < 2 ^ 64"
  shows "request_parse low (console_request host auth body) =
    Some (Inr (Some (\<lparr>rq_method = Post, rq_path = lit ''/mcp'', rq_query = [],
      rq_headers = lower_names (console_headers host auth (length (utf8 body))), rq_body = utf8 body\<rparr>,
      word_of_nat (length (console_request host auth body)))))"
proof -
  let ?n = "length (utf8 body)"
  let ?hs = "console_headers host auth ?n"
  have t: "token_ok (lit ''POST'')" "token_ok (lit ''/mcp'')" by (simp_all add: token_ok_def lit_def ascii_def is_unicode_ws_def)
  have ok: "list_all header_sendable ?hs" by (rule console_headers_ok [OF h])
  note e = console_request_text [OF request_text_ascii [OF t ok]]
  have "?n \<le> length (console_request host auth body)" unfolding e by simp
  then have n: "?n < 2 ^ 64" using len by simp
  have l: "unat (content_length_of (lower_names ?hs) 0) = ?n" using console_content_length [OF n] n by (simp add: unat_of_nat)
  have "length (console_request host auth body @ []) < 2 ^ 64" using len by simp
  note r = request_text_sent [OF t ok l e this, of low]
  have "split_query (lit ''/mcp'') = (lit ''/mcp'', [])" by (simp add: split_query_def split_once_def lit_def)
  then show ?thesis using r by (simp add: method_parse_def)
qed

text \<open>The server reads the call back from the body.\<close>

lemma call_json_get:
  "json_get (call_json rid tool args) ''method'' = Some (Str (lit ''tools/call''))"
  "json_get (call_json rid tool args) ''id'' = Some (json_uint rid)"
  "json_get (call_json rid tool args) ''params'' = Some (json_obj [(''name'', Str (lit tool)), (''arguments'', args)])"
  "json_get (json_obj [(''name'', Str (lit tool)), (''arguments'', args)]) ''name'' = Some (Str (lit tool))"
  "json_get (json_obj [(''name'', Str (lit tool)), (''arguments'', args)]) ''arguments'' = Some args"
  by (simp_all add: call_json_def json_obj_def json_get_def)

lemma console_call_handled:
  "mcp_handle E (call_json rid tool args) auth f = call_tool E (lit tool) args (json_uint rid) auth f"
  by (simp add: mcp_handle_def call_json_get str_or_empty_def json_or_null_def as_str_def Let_def)

lemma ascii_lit: "list_all (\<lambda>c. of_char c < (128 :: nat)) s \<Longrightarrow> ascii (lit s)"
  by (simp add: ascii_def lit_def list_all_iff)

lemma call_json_ok:
  assumes "json_ok args" and "tool \<in> {''list_units'', ''assign_unit'', ''engage_autonomy'', ''take_manual_control''}"
  shows "json_ok (call_json rid tool args)"
  using assms by (auto simp: call_json_def json_obj_def ascii_lit)

lemma ascii_words: "ascii s \<Longrightarrow> w \<in> set (split_whitespace s) \<Longrightarrow> ascii w"
proof -
  assume s: "ascii s" and w: "w \<in> set (split_whitespace s)"
  have "set x \<subseteq> set s" if "x \<in> set (split_when p s)" for x p s
    using that
  proof (induction s arbitrary: x)
    case (Cons c cs)
    have "split_when p cs \<noteq> []" by (cases cs) simp_all
    then obtain y ys where y: "split_when p cs = y # ys" by (cases "split_when p cs") auto
    show ?case using Cons.prems Cons.IH [of y] Cons.IH [of x] y by (auto split: if_splits)
  qed simp
  then have "set w \<subseteq> set s" using w by (auto simp: split_whitespace_def)
  then show ?thesis using s by (auto simp: ascii_def list_all_iff)
qed

lemma console_call_shape:
  assumes "console_action line = Call tool args" and "ascii line"
  shows "json_ok args \<and> tool \<in> {''list_units'', ''assign_unit'', ''engage_autonomy'', ''take_manual_control''}"
proof -
  have t: "ascii (trim line)"
    using assms(2) by (auto simp: trim_def ascii_def list_all_iff dest!: set_dropWhileD)
  have "ascii (split_whitespace (trim line) ! i)" if "i < length (split_whitespace (trim line))" for i
    using ascii_words [OF t] nth_mem [OF that] by blast
  then show ?thesis using assms(1) unfolding console_action_def call_unit_tool_def Let_def
    by (auto simp: json_obj_def ascii_lit split: if_splits option.splits)
qed

lemma console_attested:
  assumes "attestation_wf att" and "rq_headers rq = lower_names (console_headers host (Some (hex_encode (to_bytes att))) n)"
  shows "authenticate_request vfy gate rq = (case authenticate vfy (fa_broker gate) att of Inl _ \<Rightarrow> Inl 401 | Inr p \<Rightarrow> Inr p)"
proof -
  let ?a = "(lit ''authorization'', SCHEME @ hex_encode (to_bytes att))"
  have "extract_attestation rq = extract_attestation (rq\<lparr>rq_headers := [?a]\<rparr>)"
    unfolding extract_attestation_def using assms(2) by (simp add: lower_console_headers)
  also have "\<dots> = Some att" by (rule extract_scheme [OF assms(1), of _ "[]"]) simp
  finally show ?thesis by (simp add: authenticate_request_def)
qed

lemma attestation_header_sent:
  assumes "attestation_wf att"
  shows "header_sendable (lit ''Authorization'', SCHEME @ hex_encode (to_bytes att))"
  using attestation_header_ok [OF assms] by (auto simp: header_ok_def header_sendable_def token_ok_def lit_def ascii_def is_unicode_ws_def)

text \<open>The unit a call names: the number of the line, as long as it survives the JSON number format.\<close>

lemma console_call_unit:
  assumes "console_action line = Call tool args"
  shows "tool = ''list_units'' \<or> (\<exists>uid. parse_u64 (split_whitespace (trim line) ! 1) = Some uid \<and>
    (unat uid < 2 ^ 53 \<longrightarrow> unit_id_arg args = Some uid))"
proof -
  have u: "unit_id_arg (json_obj ((''unit_id'', json_uint uid) # kvs)) = Some uid" if "unat uid < 2 ^ 53" for uid kvs
    using as_u64_exact [OF that] by (simp add: unit_id_arg_def json_obj_def json_get_def json_uint_def as_u64_def)
  show ?thesis using assms u
    by (auto simp: console_action_def call_unit_tool_def Let_def split: if_splits option.splits)
qed

text \<open>C25. From the console to the fleet: a line of ASCII text that is a command for a tool, sent with the attestation
  of an enrolled operator to a gated server and received in any pieces, is parsed and authenticated there, and the tool
  is called with the arguments the console built from the line; the answer is written to the connection, which is
  closed. The unit in these arguments is the one the line names when its number is below \<open>2 ^ 53\<close>; a larger number is
  rounded, and text outside ASCII reaches the server changed, which is why the line is ASCII here.\<close>

theorem console_command_executed:
  assumes "console_action line = Call tool args" and "ascii line"
    and "header_sendable (lit ''Host'', host)" and "attestation_wf att" and "sv_authz sv = Some gate"
    and "authenticate (ed_verify P) (fa_broker gate) att = Inr p"
    and "call_tool E (lit tool) args (json_uint rid) (Some (gate, p)) (sv_fleet sv) = (j, f)"
    and "sv_conns sv token = Some c" and "cn_read_buf c = []" and "list_all (\<lambda>b. b \<noteq> []) pieces"
    and "concat pieces = console_request host (Some (hex_encode (to_bytes att))) (write_to_string (call_json rid tool args))"
    and "length (concat pieces) \<le> 2 ^ 20"
  shows "service_conn E P now (map ReadOk pieces) token sv =
    Some (Some (response_to_bytes (response_json 200 j)), (remove_conn token sv)\<lparr>sv_fleet := f\<rparr>) \<and>
    (tool = ''list_units'' \<or> (\<exists>uid. parse_u64 (split_whitespace (trim line) ! 1) = Some uid \<and>
      (unat uid < 2 ^ 53 \<longrightarrow> unit_id_arg args = Some uid)))"
proof -
  let ?auth = "Some (hex_encode (to_bytes att))" and ?body = "write_to_string (call_json rid tool args)"
  let ?rq = "\<lparr>rq_method = Post, rq_path = lit ''/mcp'', rq_query = [],
    rq_headers = lower_names (console_headers host ?auth (length (utf8 ?body))), rq_body = utf8 ?body\<rparr>"
  obtain c' where c': "read_loop now (map ReadOk pieces) c = Some c'" "cn_read_buf c' = concat pieces"
    using read_loop_pieces [OF assms(10), of now c] assms(9) by auto
  have "header_sendable (lit ''Authorization'', SCHEME @ h)" if "?auth = Some h" for h
    using that attestation_header_sent [OF assms(4)] by auto
  from console_request_parsed [where auth = ?auth and body = ?body and low = "ce_lower E", OF assms(3) this]
  have "\<exists>t. request_parse (ce_lower E) (cn_read_buf c') = Some (Inr (Some (?rq, t)))" using assms(11,12) c'(2) by simp
  moreover have "json_parse (utf8 ?body) = Inr (call_json rid tool args)"
    using console_call_shape [OF assms(1,2)] by (intro json_read_back call_json_ok) auto
  then have "dispatch E P ?rq (remove_conn token sv) = Some (response_json 200 j, (remove_conn token sv)\<lparr>sv_fleet := f\<rparr>)"
    using console_attested [OF assms(4), of ?rq host "length (utf8 ?body)" "ed_verify P" gate] assms(5-7)
    by (simp add: dispatch_def mcp_route_def remove_conn_def console_call_handled)
  ultimately show ?thesis using c' assms(8,12) console_call_unit [OF assms(1)] by (auto simp: service_conn_def)
qed

section \<open>Which unit is commanded\<close>

lemma manual_words:
  "console_action (lit ''manual '' @ show_dec (unat uid)) = Call ''take_manual_control'' (json_obj [(''unit_id'', json_uint uid)])"
proof -
  let ?d = "show_dec (unat uid)"
  have d: "list_all (\<lambda>c. \<not> is_unicode_ws c) ?d" "?d \<noteq> []"
    using show_dec_word [of "unat uid"] word_char_not_ws by (auto simp: list_all_iff)
  then have "\<not> is_unicode_ws (last ?d)" by (auto simp: list_all_iff)
  then have t: "trim (lit ''manual '' @ ?d) = lit ''manual '' @ ?d"
    using d(2) by (intro trim_ends) (simp_all add: lit_def is_unicode_ws_def)
  have "split_when is_unicode_ws ?d = [?d]" by (rule split_when_none [OF d(1)])
  then have "split_whitespace (lit ''manual '' @ ?d) = [lit ''manual'', ?d]"
    using d(2) by (simp add: split_whitespace_def lit_def is_unicode_ws_def)
  then show ?thesis unfolding console_action_def Let_def t by (simp add: call_unit_tool_def parse_u64_show_dec) (simp add: lit_def)
qed

text \<open>The console command to take manual control of a unit whose number is below \<open>2 ^ 53\<close> calls the tool for exactly
  that unit.\<close>

theorem console_names_unit:
  assumes "unat uid < 2 ^ 53"
  shows "\<exists>args. console_action (lit ''manual '' @ show_dec (unat uid)) = Call ''take_manual_control'' args \<and> unit_id_arg args = Some uid"
  using as_u64_exact [OF assms] manual_words [of uid]
  by (auto simp: unit_id_arg_def json_obj_def json_get_def json_uint_def as_u64_def)

theorem console_names_unit_witness:
  "\<exists>args. console_action (lit ''manual '' @ show_dec 7) = Call ''take_manual_control'' args \<and> unit_id_arg args = Some 7"
  using console_names_unit [of 7] by simp

text \<open>From \<open>2 ^ 53\<close> on the console commands another unit than the one named: the command to take manual control of unit
  9007199254740993 takes control of unit 9007199254740992, because the number travels as a floating point number.\<close>

theorem console_wrong_unit:
  "\<exists>args. console_action (lit ''manual '' @ show_dec 9007199254740993) = Call ''take_manual_control'' args \<and>
     unit_id_arg args = Some 9007199254740992"
proof -
  have v: "f64_val (f64_of_u64 9007199254740993) = Finite False 9007199254740992"
  proof -
    have l: "ilog2 9007199254740993 = 53" by (rule ilog2_unique) (simp_all add: two_pow_def)
    have f: "\<lfloor>9007199254740993 / 2 :: rat\<rfloor> = 4503599627370496" by (rule floor_unique) simp_all
    have "mag_bits 52 11 9007199254740993 = 1076 * 2 ^ 52"
      by (simp add: mag_bits_def l e_min_def two_pow_def round_even_def Let_def f)
    then show ?thesis by (simp add: f64_of_u64_def f64_val_of rnd_simps mag_val_def e_min_def two_pow_def)
  qed
  show ?thesis using manual_words [of 9007199254740993] v
    by (auto simp: unit_id_arg_def json_obj_def json_get_def json_uint_def as_u64_def f64_as_u64_def)
qed

lemma demo_call_text: "length (utf8 (write_to_string (call_json 1 ''take_manual_control'' (json_obj [(''unit_id'', json_uint 5)])))) = 112"
proof -
  have v: "f64_val (f64_of_u64 1) = Finite False 1" "f64_val (f64_of_u64 5) = Finite False 5"
    using f64_of_u64_exact [of 1] f64_of_u64_exact [of 5] by simp_all
  have w: "write_num (f64_of_u64 1) = lit ''1''" "write_num (f64_of_u64 5) = lit ''5''"
    by (simp_all add: write_num_def v show_int_def show_dec.simps lit_def)
  show ?thesis
    by (simp add: write_to_string_def call_json_def json_obj_def json_uint_def w write_json_string_def escape_char_def lit_def utf8_Cons_ascii)
qed

lemma demo_principal: "\<exists>p. authenticate (ed_verify toy) (fa_broker demo_gate) demo_att = Inr p"
  using demo_gate_facts(3-5) authenticate_iff by metis

theorem console_command_executed_witness:
  "\<exists>p. service_conn demo_env toy 0 (map ReadOk [console_request (lit ''fleet'') (Some (hex_encode (to_bytes demo_att)))
        (write_to_string (call_json 1 ''take_manual_control'' (json_obj [(''unit_id'', json_uint 5)])))]) 1 demo_server =
     (case call_tool demo_env (lit ''take_manual_control'') (json_obj [(''unit_id'', json_uint 5)]) (json_uint 1) (Some (demo_gate, p)) (sv_fleet demo_server) of
        (j, f) \<Rightarrow> Some (Some (response_to_bytes (response_json 200 j)), (remove_conn 1 demo_server)\<lparr>sv_fleet := f\<rparr>))"
proof -
  let ?args = "json_obj [(''unit_id'', json_uint 5)]"
  let ?body = "write_to_string (call_json 1 ''take_manual_control'' ?args)" and ?auth = "Some (hex_encode (to_bytes demo_att))"
  let ?r = "console_request (lit ''fleet'') ?auth ?body"
  obtain p where p: "authenticate (ed_verify toy) (fa_broker demo_gate) demo_att = Inr p" using demo_principal by blast
  obtain j f where jf: "call_tool demo_env (lit ''take_manual_control'') ?args (json_uint 1) (Some (demo_gate, p)) (sv_fleet demo_server) = (j, f)"
    by fastforce
  have h: "header_sendable (lit ''Host'', lit ''fleet'')"
    by (simp add: header_sendable_def token_ok_def lit_def ascii_def is_unicode_ws_def trim_def)
  have l: "console_action (lit ''manual '' @ show_dec (unat (5 :: u64))) = Call ''take_manual_control'' ?args" by (rule manual_words)
  have al: "ascii (lit ''manual '' @ show_dec (unat (5 :: u64)))" using show_dec_ascii by (simp add: ascii_lit)
  have al2: "ascii (hex_encode (to_bytes demo_att))" using hex_encode_plain by blast
  have "length (utf8 (hex_encode (to_bytes demo_att))) = 2 * length (to_bytes demo_att)" using utf8_ascii [OF al2] by (simp add: length_hex_encode)
  then have len: "length ?r \<le> 2 ^ 20"
    using demo_call_text to_bytes_eq [OF demo_gate_facts(2)] demo_gate_facts(2)
    by (simp add: console_request_def lit_def crlf_def utf8_Cons_ascii show_dec.simps length_le_bytes attestation_wf_def
        SIGNING_PUB_LEN_def AGREEMENT_PUB_LEN_def SIGNATURE_LEN_def)
  have ne: "?r \<noteq> []" by (simp add: console_request_def lit_def utf8_Cons_ascii)
  have "service_conn demo_env toy 0 (map ReadOk [?r]) 1 demo_server =
      Some (Some (response_to_bytes (response_json 200 j)), (remove_conn 1 demo_server)\<lparr>sv_fleet := f\<rparr>)"
    by (rule console_command_executed [OF l al h demo_gate_facts(2,1) p jf,
        where c = "\<lparr>cn_read_buf = [], cn_registered = False, cn_last_active = 0\<rparr>", THEN conjunct1]) (use ne len in \<open>simp_all add: demo_server_def\<close>)
  then show ?thesis by (intro exI [of _ p]) (simp add: jf)
qed

end
