(* ===== verification/Fleet_Transport.thy ===== *)
theory Fleet_Transport
  imports Fleet Secure_Session
begin

text \<open>
  The command transports of the fleet (fleet.rs): the plain one frames a command with the multiplexer, the
  encrypted one seals it under the key of the peer first. Both send over a UDP socket, which is a
  function on an arbitrary network state; the clock is an argument.

  What the fleet relies on is the locale \<open>command_transport\<close>: a command it sends is one the addressed unit
  receives. Every transport here is an instance, with the log read back from the datagrams by the units'
  own receive path, so a mode change over the wire is the mode change on the recorded list of commands.
\<close>

section \<open>The transports\<close>

definition io_error_text :: "io_error \<Rightarrow> string" where
  "io_error_text e = (case e of InvalidData s \<Rightarrow> s | OtherError s \<Rightarrow> s | WouldBlock \<Rightarrow> ''operation would block'' | TimedOut \<Rightarrow> ''timed out'')"

record 'n udp_transport =
  ut_mux :: udp_mux
  ut_scratch :: bytes
  ut_net :: 'n

text \<open>Binding: the result of opening the socket is an argument. The transport of dry runs sends nothing.\<close>

definition null_send :: "socket_addr \<Rightarrow> control_command \<Rightarrow> 't \<Rightarrow> (io_error + unit) \<times> 't" where
  "null_send addr cmd t = (Inr (), t)"

definition udp_bind :: "io_error + 'n \<Rightarrow> io_error + 'n udp_transport" where
  "udp_bind bound =
     (case bound of
        Inl e \<Rightarrow> Inl e
      | Inr net \<Rightarrow> Inr \<lparr>ut_mux = mux_new, ut_scratch = replicate MAX_DATAGRAM 0, ut_net = net\<rparr>)"

definition udp_send :: "codec \<Rightarrow> (socket_addr \<Rightarrow> bytes \<Rightarrow> 'n \<Rightarrow> (io_error + nat) \<times> 'n) \<Rightarrow> u64 \<Rightarrow>
    socket_addr \<Rightarrow> control_command \<Rightarrow> 'n udp_transport \<Rightarrow> (io_error + unit) \<times> 'n udp_transport" where
  "udp_send cdc sock now addr cmd t =
     (case write_control_frame cdc (ut_mux t) cmd 0 (ut_scratch t) of
        (Inl e, mx) \<Rightarrow> (Inl (InvalidData (io_error_text e)), t\<lparr>ut_mux := mx\<rparr>)
      | (Inr (n, buf), mx) \<Rightarrow>
          let (sent, net') = sock addr (take n buf) (ut_net t);
              (r, mx') = send_framed mx sent now
          in (case r of Inl e \<Rightarrow> Inl e | Inr _ \<Rightarrow> Inr (), \<lparr>ut_mux = mx', ut_scratch = buf, ut_net = net'\<rparr>))"

record 'n secure_transport =
  st_mux :: udp_mux
  st_peers :: "socket_addr \<rightharpoonup> crypto_box"
  st_default :: crypto_box
  st_scratch :: bytes
  st_net :: 'n

text \<open>\<open>None\<close> is the panic of the box on a key of another length.\<close>

definition secure_bind :: "'k primitives \<Rightarrow> cipher_suite \<Rightarrow> bytes \<Rightarrow> bytes option \<Rightarrow> io_error + 'n \<Rightarrow> (io_error + 'n secure_transport) option" where
  "secure_bind P suite default_key salt bound =
     map_option (\<lambda>r. case r of
         Inl e \<Rightarrow> Inl (InvalidData (sec_error_fmt e))
       | Inr b \<Rightarrow> (case bound of
           Inl e \<Rightarrow> Inl e
         | Inr net \<Rightarrow> Inr \<lparr>st_mux = mux_new, st_peers = Map.empty, st_default = b, st_scratch = replicate MAX_DATAGRAM 0, st_net = net\<rparr>))
     (from_kdf P suite default_key salt)"

definition add_peer_session :: "socket_addr \<Rightarrow> crypto_box \<Rightarrow> 'n secure_transport \<Rightarrow> 'n secure_transport" where
  "add_peer_session addr b t = t\<lparr>st_peers := (st_peers t)(addr \<mapsto> b)\<rparr>"

definition remove_peer_session :: "socket_addr \<Rightarrow> 'n secure_transport \<Rightarrow> 'n secure_transport" where
  "remove_peer_session addr t = t\<lparr>st_peers := (st_peers t)(addr := None)\<rparr>"

definition box_for :: "socket_addr \<Rightarrow> 'n secure_transport \<Rightarrow> crypto_box" where
  "box_for addr t = (case st_peers t addr of Some b \<Rightarrow> b | None \<Rightarrow> st_default t)"

text \<open>The counter of the box that sealed is advanced in place.\<close>

definition put_box :: "socket_addr \<Rightarrow> crypto_box \<Rightarrow> 'n secure_transport \<Rightarrow> 'n secure_transport" where
  "put_box addr b t = (if st_peers t addr = None then t\<lparr>st_default := b\<rparr> else t\<lparr>st_peers := (st_peers t)(addr \<mapsto> b)\<rparr>)"

definition secure_send :: "'k primitives \<Rightarrow> codec \<Rightarrow> (socket_addr \<Rightarrow> bytes \<Rightarrow> 'n \<Rightarrow> (io_error + nat) \<times> 'n) \<Rightarrow> u64 \<Rightarrow>
    socket_addr \<Rightarrow> control_command \<Rightarrow> 'n secure_transport \<Rightarrow> (io_error + unit) \<times> 'n secure_transport" where
  "secure_send P cdc sock now addr cmd t =
     (case serialize_command cdc cmd of
        None \<Rightarrow> (Inl (InvalidData ''serialize''), t)
      | Some bs \<Rightarrow>
          (case seal_to_vec P (box_for addr t) bs AAD_CONTROL of
             (Inl e, b) \<Rightarrow> (Inl (InvalidData (sec_error_fmt e)), put_box addr b t)
           | (Inr sealed, b) \<Rightarrow>
               let t1 = put_box addr b t in
               (case write_secure_frame sealed SECURE_INNER_CONTROL (st_scratch t1) of
                  Inl e \<Rightarrow> (Inl (InvalidData (io_error_text e)), t1)
                | Inr (n, buf) \<Rightarrow>
                    let (sent, net') = sock addr (take n buf) (st_net t1);
                        (r, mx) = send_framed (st_mux t1) sent now
                    in (case r of Inl e \<Rightarrow> Inl e | Inr _ \<Rightarrow> Inr (), t1\<lparr>st_mux := mx, st_scratch := buf, st_net := net'\<rparr>))))"

section \<open>What the fleet relies on\<close>

definition with_transport :: "'u \<Rightarrow> ('r, 't) fleet \<Rightarrow> ('r, 'u) fleet" where
  "with_transport tr f = \<lparr>fl_units = fl_units f, fl_transport = tr, fl_table = fl_table f, fl_record_dir = fl_record_dir f\<rparr>"

locale command_transport =
  fixes send :: "socket_addr \<Rightarrow> control_command \<Rightarrow> 't \<Rightarrow> (io_error + unit) \<times> 't"
    and wf :: "'t \<Rightarrow> bool"
    and log :: "'t \<Rightarrow> (socket_addr \<times> control_command) list"
  assumes send_law: "wf t \<Longrightarrow> command_wf c \<Longrightarrow> cmd_crc c = 0 \<Longrightarrow>
      \<exists>t'. send addr c t = (Inr (), t') \<and> wf t' \<and> log t' = log t @ [(addr, c)]"
begin

lemma send_path_log:
  assumes "wf tr" and "send_path send clock addr path u tr = (r, u', tr')"
  shows "send_path capturing_send clock addr path u (log tr) = (r, u', log tr') \<and> wf tr'"
  using assms
proof (induction path arbitrary: u tr)
  case (Cons m path)
  let ?c = "make_command m (us_cmd_seq u) (clock m)"
  have "command_wf ?c" "cmd_crc ?c = 0" by (simp_all add: make_command_def command_zeroed_def command_wf_def)
  from send_law [OF Cons.prems(1) this, of addr] obtain t1 where t1: "send addr ?c tr = (Inr (), t1)" "wf t1" "log t1 = log tr @ [(addr, ?c)]" by blast
  then show ?case using Cons.IH [OF t1(2)] Cons.prems(2) by (simp add: capturing_send_def)
qed simp

lemma set_mode_log:
  assumes "wf (fl_transport f)" and "set_mode send clock uid target f = (r, f')"
  shows "set_mode capturing_send clock uid target (with_transport (log (fl_transport f)) f) = (r, with_transport (log (fl_transport f')) f') \<and>
    wf (fl_transport f')"
proof (cases "fl_units f uid")
  case None
  then show ?thesis using assms by (auto simp: set_mode_def with_transport_def)
next
  case (Some u)
  show ?thesis
  proof (cases "path_via (fl_table f) (us_mode u) target")
    case None
    then show ?thesis using assms Some by (auto simp: set_mode_def with_transport_def)
  next
    case p: (Some path)
    obtain r1 u1 tr where s: "send_path send clock (us_addr u) path u (fl_transport f) = (r1, u1, tr)" by (metis prod_cases3)
    note l = send_path_log [OF assms(1) s]
    show ?thesis using assms(2) l Some p s by (auto simp: set_mode_def with_transport_def)
  qed
qed

end

text \<open>The recording transport is the plainest instance.\<close>

interpretation capturing: command_transport capturing_send "\<lambda>_. True" "\<lambda>t. t"
  by unfold_locales (simp add: capturing_send_def)

section \<open>What the units receive\<close>

text \<open>A unit's receive path on one datagram; the checksum a frame is stamped with is verified there and
  left out of the comparison.\<close>

definition unit_receives :: "codec \<Rightarrow> bytes \<Rightarrow> control_command option" where
  "unit_receives cdc d =
     (case recv_frame cdc mux_new (rx_buffer_new 0) (Inr (d, SocketV4 0 0)) of
        (Inr (Some (Inr (InControl c _ _))), _, _) \<Rightarrow> Some (c\<lparr>cmd_crc := 0\<rparr>)
      | _ \<Rightarrow> None)"

definition udp_log :: "codec \<Rightarrow> (socket_addr \<times> bytes) list udp_transport \<Rightarrow> (socket_addr \<times> control_command) list" where
  "udp_log cdc t = map (\<lambda>(a, d). (a, the (unit_receives cdc d))) (ut_net t)"

definition udp_wf :: "(socket_addr \<times> bytes) list udp_transport \<Rightarrow> bool" where
  "udp_wf t \<longleftrightarrow> length (ut_scratch t) = MAX_DATAGRAM"

lemma unit_receives_frame:
  assumes "frames r Control 0 bs" and "access_command cdc bs = Some (c\<lparr>cmd_crc := command_crc c\<rparr>)" and "cmd_crc c = 0"
  shows "unit_receives cdc (take (fst r) (snd r)) = Some c"
proof -
  let ?c = "c\<lparr>cmd_crc := command_crc c\<rparr>" and ?d = "take (fst r) (snd r)" and ?s = "SocketV4 0 0"
  let ?rb = "(rx_buffer_new 0)\<lparr>rxb_buf := write_at 0 ?d (rxb_buf (rx_buffer_new 0))\<rparr>"
  have "?d = datagram Control 0 bs" "fst r = 20 + length bs" using assms(1) unfolding frames_def by blast+
  then have dl: "length ?d = fst r" by simp
  then have "fst r \<le> 1500" using assms(1) unfolding frames_def length_take by linarith
  then have fill: "mux_fill (rx_buffer_new 0) (Inr (?d, ?s)) = Inr (Some (fst r, ?s, ?rb))"
    using dl by (simp add: mux_fill_def rx_buffer_new_def mux_consts Let_def)
  have t: "take (fst r) (rxb_buf ?rb) = ?d" using take_write_at_0 [of ?d "rxb_buf (rx_buffer_new 0)"] dl by simp
  have "demux_payload cdc a (channel_as_u8 Control) 0 bs src = Inr (InControl ?c src False)" for a src
    unfolding demux_payload_def channel_roundtrip using assms(2) by (simp add: command_crc_stamp FLAG_ACK_def FLAG_RELIABLE_def)
  then have "demux cdc ?rb (fst r) ?s = Inr (InControl ?c ?s False)" using demux_frames [OF assms(1) t] by simp
  with fill have "\<exists>mx' rb'. recv_frame cdc mux_new (rx_buffer_new 0) (Inr (?d, ?s)) = (Inr (Some (Inr (InControl ?c ?s False))), mx', rb')"
    by (simp add: recv_frame_def Let_def)
  moreover have "?c\<lparr>cmd_crc := 0\<rparr> = c" using assms(3) by simp
  ultimately show ?thesis unfolding unit_receives_def by force
qed

lemma udp_transport_law:
  assumes "wire_codec cdc"
  shows "command_transport (udp_send cdc capture now) udp_wf (udp_log cdc)"
proof
  fix t :: "(socket_addr \<times> bytes) list udp_transport" and c addr
  assume t: "udp_wf t" and c: "command_wf c" "cmd_crc c = 0"
  let ?c = "c\<lparr>cmd_crc := command_crc c\<rparr>"
  have "command_wf ?c" using c(1) by (simp add: command_wf_def)
  then obtain bs where bs: "serialize_command cdc ?c = Some bs" "length bs \<le> 1480" "access_command cdc bs = Some ?c"
    using wire_codec.command_law [OF assms] by (auto simp: mux_consts)
  have "length (ut_scratch t) = 1500" using t by (simp add: udp_wf_def mux_consts)
  from write_control_frames [OF this bs(1,2), of "ut_mux t" 0] obtain r mx'
    where r: "write_control_frame cdc (ut_mux t) c 0 (ut_scratch t) = (Inr r, mx')" "frames r Control 0 bs" by blast
  have "length (snd r) = 1500" using r(2) by (simp add: frames_def)
  with r(1) unit_receives_frame [OF r(2) bs(3) c(2)]
  show "\<exists>t'. udp_send cdc capture now addr c t = (Inr (), t') \<and> udp_wf t' \<and> udp_log cdc t' = udp_log cdc t @ [(addr, c)]"
    by (cases r) (simp add: udp_send_def capture_def send_framed_def Let_def udp_wf_def udp_log_def mux_consts)
qed

interpretation udp: command_transport "udp_send raw_codec capture now" udp_wf "udp_log raw_codec" for now
  by (rule udp_transport_law [OF raw.wire_codec_axioms])

text \<open>The encrypted receive path of a unit that holds the key \<open>k\<close>: the counter, the salt and the suite of
  its box play no part in opening.\<close>

definition unit_opens :: "'k primitives \<Rightarrow> codec \<Rightarrow> inner \<Rightarrow> bytes \<Rightarrow> control_command option" where
  "unit_opens P cdc k d =
     (let b = \<lparr>cb_key = k, cb_suite = Aes256Gcm, cb_ctr = 0, cb_salt = replicate 4 0\<rparr>;
          sm = \<lparr>sm_mux = mux_new, sm_session = \<lparr>ss_peer_id = 0, ss_peer_role = Operator, ss_crypto = b, ss_suite = Aes256Gcm\<rparr>\<rparr>;
          (_, _, _, ring) = recv_decrypt P cdc MAX_PAYLOAD sm (rx_buffer_new 0) (with_capacity 2) (Inr (d, SocketV4 0 0))
      in case ring_contents ring of [blk] \<Rightarrow> access_command cdc (as_slice blk) | _ \<Rightarrow> None)"

definition secure_log :: "'k primitives \<Rightarrow> codec \<Rightarrow> (socket_addr \<times> bytes) list secure_transport \<Rightarrow> (socket_addr \<times> control_command) list" where
  "secure_log P cdc t = map (\<lambda>(a, d). (a, the (unit_opens P cdc (cb_key (box_for a t)) d))) (st_net t)"

definition secure_wf :: "'n secure_transport \<Rightarrow> bool" where
  "secure_wf t \<longleftrightarrow> length (st_scratch t) = MAX_DATAGRAM \<and> (\<forall>a. box_wf (box_for a t))"

lemma box_for_put [simp]: "box_for a' (put_box a b t) =
    (if a' = a \<or> st_peers t a = None \<and> st_peers t a' = None then b else box_for a' t)"
  by (auto simp: box_for_def put_box_def split: option.splits)

lemma put_box_fields [simp]:
  "st_scratch (put_box a b t) = st_scratch t" "st_net (put_box a b t) = st_net t" "st_mux (put_box a b t) = st_mux t"
  by (simp_all add: put_box_def)

lemma box_for_cong: "st_peers t = st_peers t' \<Longrightarrow> st_default t = st_default t' \<Longrightarrow> box_for a t = box_for a t'"
  by (simp add: box_for_def split: option.splits)

lemma box_for_default: "st_peers t a = None \<Longrightarrow> box_for a t = st_default t"
  by (simp add: box_for_def)

text \<open>The room an encrypted frame leaves for the archive of a command.\<close>

definition codec_fits :: "codec \<Rightarrow> bool" where
  "codec_fits cdc \<longleftrightarrow> (\<forall>c bs. command_wf c \<longrightarrow> serialize_command cdc c = Some bs \<longrightarrow> NONCE_LEN + length bs + TAG_LEN \<le> MAX_PAYLOAD)"

lemma unit_opens_frame:
  assumes "primitives_ok P" and "frames r Secure SECURE_INNER_CONTROL (n @ c @ t)" and "length n = 12"
    and "inner_encrypt P k n AAD_CONTROL bs = Some (c, t)" and "28 + length bs \<le> 1480"
  shows "unit_opens P cdc k (take (fst r) (snd r)) = access_command cdc bs"
proof -
  let ?b = "\<lparr>cb_key = k, cb_suite = Aes256Gcm, cb_ctr = 0, cb_salt = replicate 4 0\<rparr>" and ?ring = "with_capacity 2 :: secure_block spsc_ring"
  have ring: "ring_inv ?ring" "ring_contents ?ring = []" "unat (ring_len ?ring) < unat (ring_cap ?ring)"
  proof -
    show i: "ring_inv ?ring" and c: "ring_contents ?ring = []" by (simp_all add: with_capacity_inv)
    have "unat (ring_len ?ring) = 0" using length_ring_contents [of ?ring] c by simp
    then show "unat (ring_len ?ring) < unat (ring_cap ?ring)" using ring_cap_pos [OF ring_inv_pow2 [OF i]] by simp
  qed
  have "inner_encrypt P (cb_key ?b) n AAD_CONTROL bs = Some (c, t)" using assms(4) by simp
  from decrypt_into_ring_sealed [OF assms(1,3) this assms(5) _ ring(1,3)]
  obtain ring' blk where d: "decrypt_into_ring P 1480 ?b (n @ c @ t) AAD_CONTROL ?ring = (Inr (length bs), ring')"
      "ring_contents ring' = [blk]" "as_slice blk = bs" using ring(2) by auto
  obtain mx' rb' where f: "recv_frame cdc mux_new (rx_buffer_new 0) (Inr (take (fst r) (snd r), SocketV4 0 0)) =
      (Inr (Some (Inr (InSecure (n @ c @ t) (SocketV4 0 0) SECURE_INNER_CONTROL))), mx', rb')"
    using recv_frame_secure [OF assms(2), of "rx_buffer_new 0" cdc mux_new "SocketV4 0 0"] by (auto simp: rx_buffer_new_def mux_consts)
  have "SECURE_INNER_CONTROL \<noteq> SECURE_INNER_TELEMETRY" by (simp add: SECURE_INNER_CONTROL_def SECURE_INNER_TELEMETRY_def)
  then show ?thesis using f d by (simp add: unit_opens_def recv_decrypt_def mux_consts Let_def)
qed

lemma secure_transport_law:
  assumes "primitives_ok P" and "wire_codec cdc" and "codec_fits cdc"
  shows "command_transport (secure_send P cdc capture now) secure_wf (secure_log P cdc)"
proof
  fix t :: "(socket_addr \<times> bytes) list secure_transport" and c addr
  assume t: "secure_wf t" and c: "command_wf c"
  let ?b = "box_for addr t"
  obtain bs where bs: "serialize_command cdc c = Some bs" "access_command cdc bs = Some c"
    using wire_codec.command_law [OF assms(2) c] by blast
  have fits: "28 + length bs \<le> 1480" using assms(3) bs(1) c by (force simp: codec_fits_def cipher_consts mux_consts)
  have wf: "box_wf ?b" "length (st_scratch t) = 1500" using t by (simp_all add: secure_wf_def mux_consts)
  obtain ct tg where s: "seal_to_vec P ?b bs AAD_CONTROL = (Inr (box_nonce ?b @ ct @ tg), ?b\<lparr>cb_ctr := cb_ctr ?b + 1\<rparr>)"
      and len: "length ct = length bs" "length tg = 16" and e: "inner_encrypt P (cb_key ?b) (box_nonce ?b) AAD_CONTROL bs = Some (ct, tg)"
    using seal_to_vec_ok [OF assms(1) wf(1), of bs AAD_CONTROL] fits by auto
  let ?b' = "?b\<lparr>cb_ctr := cb_ctr ?b + 1\<rparr>" and ?env = "box_nonce ?b @ ct @ tg"
  let ?t = "put_box addr ?b' t"
  have nl: "length (box_nonce ?b) = 12" using wf(1) by (simp add: box_nonce_def box_wf_def)
  obtain r where r: "write_secure_frame ?env SECURE_INNER_CONTROL (st_scratch t) = Inr r" "frames r Secure SECURE_INNER_CONTROL ?env"
    using write_secure_frames [OF wf(2), of ?env SECURE_INNER_CONTROL] nl len fits by auto
  obtain mx where send: "secure_send P cdc capture now addr c t =
      (Inr (), ?t\<lparr>st_mux := mx, st_scratch := snd r, st_net := st_net t @ [(addr, take (fst r) (snd r))]\<rparr>)" (is "_ = (_, ?t')")
    using bs(1) s r(1) by (cases r) (simp add: secure_send_def capture_def send_framed_def Let_def)
  have bf: "box_for a ?t' = box_for a ?t" for a by (rule box_for_cong) simp_all
  have key: "cb_key (box_for a ?t') = cb_key (box_for a t)" for a
    unfolding bf by (auto simp: box_for_default)
  have "secure_wf ?t'" using t r(2) wf(1) unfolding secure_wf_def bf by (auto simp: frames_def mux_consts box_wf_def)
  moreover have "secure_log P cdc ?t' = secure_log P cdc t @ [(addr, c)]"
    unfolding secure_log_def key using unit_opens_frame [OF assms(1) r(2) nl e fits, of cdc] bs(2) by simp
  ultimately show "\<exists>t'. secure_send P cdc capture now addr c t = (Inr (), t') \<and> secure_wf t' \<and>
      secure_log P cdc t' = secure_log P cdc t @ [(addr, c)]" using send by blast
qed

lemma raw_fits: "codec_fits raw_codec"
  by (auto simp: codec_fits_def raw_codec_def length_command_bytes cipher_consts mux_consts)

interpretation secure: command_transport "secure_send toy raw_codec capture now" secure_wf "secure_log toy raw_codec" for now
  by (rule secure_transport_law [OF toy_ok raw.wire_codec_axioms raw_fits])

section \<open>Properties\<close>

text \<open>A mode change over the wire is the mode change on the recorded list of commands: with the plain UDP
  transport the fleet ends in the same state and reports the same result as with the recording
  transport, and the datagrams it put on the network are ones from which the addressed units receive
  exactly the recorded commands, in order.\<close>

theorem mode_change_on_wire:
  assumes "wire_codec cdc" and "udp_wf (fl_transport f)"
    and "set_mode (udp_send cdc capture now) clock uid target f = (r, f')"
  shows "set_mode capturing_send clock uid target (with_transport (udp_log cdc (fl_transport f)) f) =
      (r, with_transport (udp_log cdc (fl_transport f')) f') \<and> udp_wf (fl_transport f')"
  by (rule command_transport.set_mode_log [OF udp_transport_law [OF assms(1)] assms(2,3)])

text \<open>C13. The same holds of the encrypted transport: from the sealed datagrams a unit that holds the key the
  transport keeps for its address opens exactly the recorded commands, in order, whatever sessions were
  registered.\<close>

theorem mode_change_sealed:
  assumes "primitives_ok P" and "wire_codec cdc" and "codec_fits cdc" and "secure_wf (fl_transport f)"
    and "set_mode (secure_send P cdc capture now) clock uid target f = (r, f')"
  shows "set_mode capturing_send clock uid target (with_transport (secure_log P cdc (fl_transport f)) f) =
      (r, with_transport (secure_log P cdc (fl_transport f')) f') \<and> secure_wf (fl_transport f')"
  by (rule command_transport.set_mode_log [OF secure_transport_law [OF assms(1-3)] assms(4,5)])

text \<open>A fleet of one unit that is told to hand over to the operator.\<close>

definition demo_fleet :: "'t \<Rightarrow> (unit, 't) fleet" where
  "demo_fleet tr = snd (register_unit 5 (SocketV4 1 2) () 9 (fleet_new tr))"

lemma demo_fleet_transport [simp]: "fl_transport (demo_fleet tr) = tr" "with_transport tr' (demo_fleet tr) = demo_fleet tr'"
  by (simp_all add: demo_fleet_def register_unit_def fleet_new_def with_transport_def)

lemma demo_mode_change:
  assumes "set_mode capturing_send (\<lambda>_. 3) 5 FullTeleop (demo_fleet []) = (r, f')"
  shows "r = Inr ()" and "map (cmd_mode \<circ> snd) (fl_transport f') = [2]"
proof -
  let ?f = "demo_fleet ([] :: (socket_addr \<times> control_command) list)"
  have u: "fl_units ?f 5 = Some (unit_new 5 (SocketV4 1 2) 9 ())" and t: "fl_table ?f = spec_default"
    by (simp_all add: demo_fleet_def register_unit_def fleet_new_def)
  have path: "path_via (fl_table ?f) (us_mode (unit_new 5 (SocketV4 1 2) 9 ())) FullTeleop = Some [FullTeleop]"
    by (simp add: path_via_def t unit_new_def spec_default_edges spec_edge_def)
  obtain r1 u1 tr where sp: "send_path capturing_send (\<lambda>_. 3) (SocketV4 1 2) [FullTeleop] (unit_new 5 (SocketV4 1 2) 9 ()) [] = (r1, u1, tr)"
    by (metis prod_cases3)
  have "r = r1" "fl_transport f' = tr" using assms u path sp by (auto simp: set_mode_def unit_new_def)
  then show "r = Inr ()" "map (cmd_mode \<circ> snd) (fl_transport f') = [2]" using send_path_captured [OF sp] by simp_all
qed

theorem mode_change_on_wire_witness:
  "case udp_bind (Inr []) of Inr tr \<Rightarrow>
     (let (r, f') = set_mode (udp_send raw_codec capture 7) (\<lambda>_. 3) 5 FullTeleop (demo_fleet tr)
      in r = Inr () \<and> map (cmd_mode \<circ> the \<circ> unit_receives raw_codec \<circ> snd) (ut_net (fl_transport f')) = [2])
   | _ \<Rightarrow> False"
proof -
  let ?tr = "\<lparr>ut_mux = mux_new, ut_scratch = replicate MAX_DATAGRAM 0, ut_net = ([] :: (socket_addr \<times> bytes) list)\<rparr>"
  obtain r f' where s: "set_mode (udp_send raw_codec capture 7) (\<lambda>_. 3) 5 FullTeleop (demo_fleet ?tr) = (r, f')" by fastforce
  have "udp_wf (fl_transport (demo_fleet ?tr))" by (simp add: udp_wf_def)
  from mode_change_on_wire [OF raw.wire_codec_axioms this s]
  have "set_mode capturing_send (\<lambda>_. 3) 5 FullTeleop (demo_fleet []) = (r, with_transport (udp_log raw_codec (fl_transport f')) f')"
    by (simp add: udp_log_def)
  from demo_mode_change [OF this] have "r = Inr ()" "map (cmd_mode \<circ> snd) (udp_log raw_codec (fl_transport f')) = [2]"
    by (simp_all add: with_transport_def)
  then show ?thesis using s by (simp add: udp_bind_def udp_log_def comp_def case_prod_beta)
qed

theorem mode_change_sealed_witness:
  "case secure_bind toy Aes256Gcm (replicate 32 1) (Some [1, 2, 3, 4]) (Inr []) of Some (Inr tr) \<Rightarrow>
     (let (r, f') = set_mode (secure_send toy raw_codec capture 7) (\<lambda>_. 3) 5 FullTeleop (demo_fleet tr)
      in r = Inr () \<and> map (cmd_mode \<circ> snd) (secure_log toy raw_codec (fl_transport f')) = [2])
   | _ \<Rightarrow> False"
proof -
  obtain k where k: "from_kdf toy Aes256Gcm (replicate 32 1) (Some [1, 2, 3, 4]) =
      Some (Inr \<lparr>cb_key = k, cb_suite = Aes256Gcm, cb_ctr = 0, cb_salt = [1, 2, 3, 4]\<rparr>)"
    using from_kdf_ok [OF toy_ok, of "replicate 32 1" Aes256Gcm] by auto
  let ?tr = "\<lparr>st_mux = mux_new, st_peers = Map.empty, st_default = \<lparr>cb_key = k, cb_suite = Aes256Gcm, cb_ctr = 0, cb_salt = [1, 2, 3, 4]\<rparr>,
    st_scratch = replicate MAX_DATAGRAM 0, st_net = ([] :: (socket_addr \<times> bytes) list)\<rparr>"
  obtain r f' where s: "set_mode (secure_send toy raw_codec capture 7) (\<lambda>_. 3) 5 FullTeleop (demo_fleet ?tr) = (r, f')" by fastforce
  have "secure_wf (fl_transport (demo_fleet ?tr))" by (simp add: secure_wf_def box_for_def box_wf_def)
  from mode_change_sealed [OF toy_ok raw.wire_codec_axioms raw_fits this s]
  have "set_mode capturing_send (\<lambda>_. 3) 5 FullTeleop (demo_fleet []) = (r, with_transport (secure_log toy raw_codec (fl_transport f')) f')"
    by (simp add: secure_log_def)
  from demo_mode_change [OF this] show ?thesis using k s by (simp add: secure_bind_def with_transport_def)
qed

end
