(* ===== verification/Event_Loop.thy ===== *)
theory Event_Loop
  imports Prelude
begin

text \<open>
  The event loop of tpt-t-core on Linux (eventloop/mod.rs, eventloop/linux.rs): readiness bits,
  registrations and one dispatch. The kernel's side of an epoll instance is not in the repository: the
  two calls are arguments on an arbitrary kernel state, and the locale \<open>epoll_api\<close> states the documented
  behaviour the loop relies on. A plain table of watched descriptors is its instance.
\<close>

section \<open>Readiness and targets (mod.rs)\<close>

type_synonym ready = u8

definition READ :: ready where "READ = 1"
definition WRITE :: ready where "WRITE = 2"
definition ERROR :: ready where "ERROR = 4"

definition intersects :: "ready \<Rightarrow> ready \<Rightarrow> bool" where
  "intersects r other \<longleftrightarrow> r AND other \<noteq> 0"

definition contains :: "ready \<Rightarrow> ready \<Rightarrow> bool" where
  "contains r other \<longleftrightarrow> r AND other = other"

datatype target = Fd "32 word" | Handle usize

datatype loop_error = Unsupported string | Os int

section \<open>The epoll backend (linux.rs)\<close>

datatype ctl_op = EPOLL_CTL_ADD | EPOLL_CTL_DEL

definition EPOLLIN :: u32 where "EPOLLIN = 1"
definition EPOLLOUT :: u32 where "EPOLLOUT = 4"
definition EPOLLERR :: u32 where "EPOLLERR = 8"
definition EPOLLHUP :: u32 where "EPOLLHUP = 16"
definition EPOLLET :: u32 where "EPOLLET = push_bit 31 1"

lemmas epoll_consts = EPOLLIN_def EPOLLOUT_def EPOLLERR_def EPOLLHUP_def EPOLLET_def READ_def WRITE_def ERROR_def

definition to_epoll_mask :: "ready \<Rightarrow> u32" where
  "to_epoll_mask interest =
     (let m = EPOLLERR OR EPOLLHUP OR EPOLLET;
          m = (if intersects interest READ then m OR EPOLLIN else m)
      in if intersects interest WRITE then m OR EPOLLOUT else m)"

text \<open>The kernel: \<open>epoll_ctl\<close> on a descriptor with the mask and the token of the event, and \<open>epoll_wait\<close>
  for at most so many events. A negative result is the error number.\<close>

record 'k epoll_calls =
  ep_ctl :: "32 word \<Rightarrow> ctl_op \<Rightarrow> 32 word \<Rightarrow> u32 \<times> u64 \<Rightarrow> 'k \<Rightarrow> (int + unit) \<times> 'k"
  ep_wait :: "32 word \<Rightarrow> nat \<Rightarrow> int \<Rightarrow> 'k \<Rightarrow> (int + (u32 \<times> u64) list) \<times> 'k"

record epoll_loop =
  el_epfd :: "32 word"
  el_regs :: "u64 \<rightharpoonup> 32 word \<times> u32"

text \<open>The result of \<open>epoll_create1\<close> is the argument.\<close>

definition loop_new :: "int + 32 word \<Rightarrow> loop_error + epoll_loop" where
  "loop_new created = (case created of Inl e \<Rightarrow> Inl (Os e) | Inr epfd \<Rightarrow> Inr \<lparr>el_epfd = epfd, el_regs = Map.empty\<rparr>)"

definition register :: "'k epoll_calls \<Rightarrow> target \<Rightarrow> u64 \<Rightarrow> ready \<Rightarrow> epoll_loop \<Rightarrow> 'k \<Rightarrow> (loop_error + unit) \<times> epoll_loop \<times> 'k" where
  "register K tgt token interest lp k =
     (case tgt of
        Handle _ \<Rightarrow> (Inl (Unsupported ''handles are Windows-only''), lp, k)
      | Fd fd \<Rightarrow>
          let ev = (to_epoll_mask interest, token) in
          (case ep_ctl K (el_epfd lp) EPOLL_CTL_ADD fd ev k of
             (Inl e, k') \<Rightarrow> (Inl (Os e), lp, k')
           | (Inr _, k') \<Rightarrow> (Inr (), lp\<lparr>el_regs := (el_regs lp)(token \<mapsto> (fd, fst ev))\<rparr>, k')))"

text \<open>The search goes through the registrations in the order the hash map lists them.\<close>

definition unregister :: "'k epoll_calls \<Rightarrow> u64 list \<Rightarrow> target \<Rightarrow> epoll_loop \<Rightarrow> 'k \<Rightarrow> (loop_error + unit) \<times> epoll_loop \<times> 'k" where
  "unregister K order tgt lp k =
     (case tgt of
        Handle _ \<Rightarrow> (Inr (), lp, k)
      | Fd fd \<Rightarrow>
          (case List.find (\<lambda>t. map_option fst (el_regs lp t) = Some fd) order of
             None \<Rightarrow> (Inr (), lp, k)
           | Some token \<Rightarrow>
               let lp' = lp\<lparr>el_regs := (el_regs lp)(token := None)\<rparr> in
               (case ep_ctl K (el_epfd lp) EPOLL_CTL_DEL fd (0, 0) k of
                  (Inl e, k') \<Rightarrow> (Inl (Os e), lp', k')
                | (Inr _, k') \<Rightarrow> (Inr (), lp', k'))))"

definition EINTR :: int where "EINTR = 4"

definition wait_ms :: "nat option \<Rightarrow> int" where
  "wait_ms timeout = (case timeout of Some ns \<Rightarrow> int (min (ns div 10 ^ 6) (2 ^ 31 - 1)) | None \<Rightarrow> -1)"

definition ready_of :: "u32 \<Rightarrow> ready" where
  "ready_of m =
     (let r = 0;
          r = (if m AND EPOLLIN \<noteq> 0 then r OR READ else r);
          r = (if m AND EPOLLOUT \<noteq> 0 then r OR WRITE else r)
      in if m AND (EPOLLERR OR EPOLLHUP) \<noteq> 0 then r OR ERROR else r)"

fun feed :: "(u64 \<Rightarrow> ready \<Rightarrow> 'h \<Rightarrow> 'h) \<Rightarrow> (u32 \<times> u64) list \<Rightarrow> 'h \<Rightarrow> 'h" where
  "feed handler [] h = h"
| "feed handler ((m, token) # evs) h = feed handler evs (handler token (ready_of m) h)"

definition loop_dispatch :: "'k epoll_calls \<Rightarrow> nat option \<Rightarrow> (u64 \<Rightarrow> ready \<Rightarrow> 'h \<Rightarrow> 'h) \<Rightarrow> epoll_loop \<Rightarrow> 'k \<Rightarrow> 'h \<Rightarrow>
    (loop_error + nat) \<times> 'k \<times> 'h" where
  "loop_dispatch K timeout handler lp k h =
     (case ep_wait K (el_epfd lp) 256 (wait_ms timeout) k of
        (Inl e, k') \<Rightarrow> (if e = EINTR then Inr 0 else Inl (Os e), k', h)
      | (Inr evs, k') \<Rightarrow> (Inr (length evs), k', feed handler evs h))"

section \<open>What the loop relies on\<close>

text \<open>Two maps that mirror each other.\<close>

definition mirror :: "('a \<rightharpoonup> 'b \<times> 'c) \<Rightarrow> ('b \<rightharpoonup> 'c \<times> 'a) \<Rightarrow> bool" where
  "mirror R W \<longleftrightarrow> (\<forall>t fd m. R t = Some (fd, m) \<longleftrightarrow> W fd = Some (m, t))"

lemma mirror_insert:
  assumes "mirror R W" and "R t = None" and "W fd = None"
  shows "mirror (R(t \<mapsto> (fd, m))) (W(fd \<mapsto> (m, t)))"
proof -
  have "W fd' \<noteq> Some (m', t)" and "R t' \<noteq> Some (fd, m')" for fd' m' t'
    using assms unfolding mirror_def by (metis option.distinct(1))+
  then show ?thesis using assms(1) unfolding mirror_def by auto
qed

lemma mirror_delete:
  assumes "mirror R W" and "R t = Some (fd, m)"
  shows "mirror (R(t := None)) (W(fd := None))"
proof -
  have "fd' = fd" if "W fd' = Some (m', t)" for fd' m' using assms that unfolding mirror_def by (metis option.inject prod.inject)
  moreover have "t' = t" if "R t' = Some (fd, m')" for t' m' using assms that unfolding mirror_def by (metis option.inject prod.inject)
  ultimately show ?thesis using assms(1) unfolding mirror_def by auto
qed

lemma mirror_sym: "mirror R W \<Longrightarrow> R t = Some (fd, m) \<longleftrightarrow> W fd = Some (m, t)"
  by (simp add: mirror_def)

lemma mirror_empty: "mirror Map.empty Map.empty"
  by (simp add: mirror_def)

locale epoll_api =
  fixes K :: "'k epoll_calls" and watched :: "'k \<Rightarrow> 32 word \<Rightarrow> 32 word \<rightharpoonup> u32 \<times> u64"
  assumes add_law: "ep_ctl K ep EPOLL_CTL_ADD fd ev k = (r, k') \<Longrightarrow>
      (case r of Inr _ \<Rightarrow> watched k ep fd = None \<and> watched k' = (watched k)(ep := (watched k ep)(fd \<mapsto> ev)) | Inl _ \<Rightarrow> watched k' = watched k)"
    and del_law: "watched k ep fd \<noteq> None \<Longrightarrow>
      \<exists>k'. ep_ctl K ep EPOLL_CTL_DEL fd ev k = (Inr (), k') \<and> watched k' = (watched k)(ep := (watched k ep)(fd := None))"
    and wait_law: "ep_wait K ep n ms k = (w, k') \<Longrightarrow> watched k' = watched k \<and>
      (case w of Inr evs \<Rightarrow> length evs \<le> n \<and>
         (\<forall>(m, t) \<in> set evs. \<exists>fd mask. watched k ep fd = Some (mask, t) \<and> m AND mask = m) | Inl _ \<Rightarrow> True)"
begin

text \<open>The registrations of the loop are what the kernel watches.\<close>

definition agrees :: "epoll_loop \<Rightarrow> 'k \<Rightarrow> bool" where
  "agrees lp k \<longleftrightarrow> mirror (el_regs lp) (watched k (el_epfd lp))"

lemma register_agrees:
  assumes "agrees lp k" and "el_regs lp token = None" and "register K tgt token interest lp k = (r, lp', k')"
  shows "agrees lp' k'"
proof (cases tgt)
  case (Fd fd)
  obtain r1 k1 where c: "ep_ctl K (el_epfd lp) EPOLL_CTL_ADD fd (to_epoll_mask interest, token) k = (r1, k1)" by fastforce
  from add_law [OF c] assms Fd c show ?thesis
    by (cases r1) (auto simp: register_def agrees_def intro: mirror_insert)
qed (use assms in \<open>simp add: register_def\<close>)

lemma unregister_agrees:
  assumes "agrees lp k" and "set order = dom (el_regs lp)" and "unregister K order (Fd fd) lp k = (r, lp', k')"
  shows "r = Inr () \<and> agrees lp' k' \<and> el_epfd lp' = el_epfd lp \<and> watched k' (el_epfd lp) = (watched k (el_epfd lp))(fd := None)"
proof (cases "List.find (\<lambda>t. map_option fst (el_regs lp t) = Some fd) order")
  case None
  then have "watched k (el_epfd lp) fd = None"
    using assms(1,2) mirror_sym [of "el_regs lp" "watched k (el_epfd lp)"]
    by (cases "watched k (el_epfd lp) fd") (force simp: agrees_def find_None_iff)+
  then show ?thesis using None assms by (auto simp: unregister_def)
next
  case (Some t)
  then have "map_option fst (el_regs lp t) = Some fd" by (auto simp: find_Some_iff)
  then obtain m where m: "el_regs lp t = Some (fd, m)" by auto
  then have w: "watched k (el_epfd lp) fd = Some (m, t)" using assms(1) mirror_sym by (fastforce simp: agrees_def)
  then obtain k1 where k1: "ep_ctl K (el_epfd lp) EPOLL_CTL_DEL fd (0, 0) k = (Inr (), k1)" "watched k1 = (watched k)(el_epfd lp := (watched k (el_epfd lp))(fd := None))"
    using del_law [of k "el_epfd lp" fd "(0, 0)"] by auto
  have "agrees (lp\<lparr>el_regs := (el_regs lp)(t := None)\<rparr>) k1"
    using assms(1) mirror_delete [where R = "el_regs lp" and t = t and fd = fd and m = m] m k1(2) by (simp add: agrees_def)
  then show ?thesis using Some k1 assms(3) by (auto simp: unregister_def)
qed

lemma feed_log: "feed (\<lambda>t rd log. log @ [(t, rd)]) evs log = log @ map (\<lambda>(m, t). (t, ready_of m)) evs"
  by (induction evs arbitrary: log) auto

lemma dispatch_calls:
  assumes "loop_dispatch K timeout (\<lambda>t rd log. log @ [(t, rd)]) lp k [] = (n, k', calls)" and "agrees lp k"
  shows "length calls \<le> 256 \<and> agrees lp k' \<and> (\<forall>(t, rd) \<in> set calls. \<exists>fd m ev. watched k (el_epfd lp) fd = Some (m, t) \<and>
    el_regs lp t = Some (fd, m) \<and> rd = ready_of ev \<and> ev AND m = ev)"
proof -
  obtain r k1 where w: "ep_wait K (el_epfd lp) 256 (wait_ms timeout) k = (r, k1)" by fastforce
  from wait_law [OF w] w assms show ?thesis
    by (cases r) (fastforce simp: loop_dispatch_def feed_log agrees_def dest: mirror_sym)+
qed

end

section \<open>Runs\<close>

datatype loop_op = Register target u64 ready | Unregister "u64 list" target | Dispatch "nat option"

fun loop_step :: "'k epoll_calls \<Rightarrow> loop_op \<Rightarrow> epoll_loop \<times> 'k \<Rightarrow> epoll_loop \<times> 'k" where
  "loop_step K (Register tgt token interest) (lp, k) = snd (register K tgt token interest lp k)"
| "loop_step K (Unregister order tgt) (lp, k) = snd (unregister K order tgt lp k)"
| "loop_step K (Dispatch timeout) (lp, k) = (lp, fst (snd (loop_dispatch K timeout (\<lambda>_ _ u. u) lp k ())))"

text \<open>Every registration names a token that is not in use, and a search lists every registration.\<close>

fun legal_op :: "loop_op \<Rightarrow> epoll_loop \<Rightarrow> bool" where
  "legal_op (Register tgt token interest) lp \<longleftrightarrow> el_regs lp token = None"
| "legal_op (Unregister order tgt) lp \<longleftrightarrow> set order = dom (el_regs lp)"
| "legal_op (Dispatch timeout) lp \<longleftrightarrow> True"

fun legal_run :: "'k epoll_calls \<Rightarrow> loop_op list \<Rightarrow> epoll_loop \<times> 'k \<Rightarrow> bool" where
  "legal_run K [] st \<longleftrightarrow> True"
| "legal_run K (op # ops) st \<longleftrightarrow> legal_op op (fst st) \<and> legal_run K ops (loop_step K op st)"

context epoll_api
begin

lemma step_agrees:
  assumes "agrees lp k" and "legal_op op lp"
  shows "agrees (fst (loop_step K op (lp, k))) (snd (loop_step K op (lp, k)))"
proof (cases op)
  case (Register tgt token interest)
  then show ?thesis using assms register_agrees [OF assms(1)] by (metis legal_op.simps(1) loop_step.simps(1) prod.collapse)
next
  case (Unregister order tgt)
  show ?thesis
  proof (cases tgt)
    case (Fd fd)
    then show ?thesis using assms Unregister unregister_agrees [OF assms(1)]
      by (metis legal_op.simps(2) loop_step.simps(2) prod.collapse)
  qed (use assms Unregister in \<open>simp add: unregister_def\<close>)
next
  case (Dispatch timeout)
  obtain r k1 where w: "ep_wait K (el_epfd lp) 256 (wait_ms timeout) k = (r, k1)" by fastforce
  from wait_law [OF w] w Dispatch assms(1) show ?thesis by (cases r) (simp_all add: loop_dispatch_def agrees_def)
qed

lemma run_agrees: "legal_run K ops st \<Longrightarrow> agrees (fst st) (snd st) \<Longrightarrow>
    agrees (fst (fold (loop_step K) ops st)) (snd (fold (loop_step K) ops st))"
proof (induction ops arbitrary: st)
  case (Cons op ops)
  obtain lp k where st: "st = (lp, k)" by force
  have "agrees (fst (loop_step K op st)) (snd (loop_step K op st))" using Cons.prems step_agrees [of lp k op] by (simp add: st)
  then show ?case using Cons.IH Cons.prems(1) by simp
qed simp

end

section \<open>A plain kernel\<close>

record plain_kernel =
  pk_watched :: "32 word \<Rightarrow> 32 word \<rightharpoonup> u32 \<times> u64"
  pk_pending :: "(32 word \<times> u32) list"

fun plain_ctl :: "32 word \<Rightarrow> ctl_op \<Rightarrow> 32 word \<Rightarrow> u32 \<times> u64 \<Rightarrow> plain_kernel \<Rightarrow> (int + unit) \<times> plain_kernel" where
  "plain_ctl ep EPOLL_CTL_ADD fd ev k =
     (if pk_watched k ep fd = None then (Inr (), k\<lparr>pk_watched := (pk_watched k)(ep := (pk_watched k ep)(fd \<mapsto> ev))\<rparr>) else (Inl 17, k))"
| "plain_ctl ep EPOLL_CTL_DEL fd ev k =
     (if pk_watched k ep fd = None then (Inl 2, k) else (Inr (), k\<lparr>pk_watched := (pk_watched k)(ep := (pk_watched k ep)(fd := None))\<rparr>))"

definition plain_wait :: "32 word \<Rightarrow> nat \<Rightarrow> int \<Rightarrow> plain_kernel \<Rightarrow> (int + (u32 \<times> u64) list) \<times> plain_kernel" where
  "plain_wait ep n ms k =
     (Inr (take n (List.map_filter (\<lambda>(fd, m). map_option (\<lambda>(mask, t). (m AND mask, t)) (pk_watched k ep fd)) (pk_pending k))),
      k\<lparr>pk_pending := []\<rparr>)"

definition plain_calls :: "plain_kernel epoll_calls" where
  "plain_calls = \<lparr>ep_ctl = plain_ctl, ep_wait = plain_wait\<rparr>"

lemma plain_events:
  assumes "(m, t) \<in> set (take n (List.map_filter (\<lambda>(fd, m). map_option (\<lambda>(mask, t). (m AND mask, t)) (w fd)) evs))"
  shows "\<exists>fd mask. w fd = Some (mask, t) \<and> m AND mask = (m :: u32)"
  using set_take_subset [THEN subsetD, OF assms] by (fastforce simp: List.map_filter_def and.assoc)

interpretation plain: epoll_api plain_calls pk_watched
proof
  show "case r of Inl _ \<Rightarrow> pk_watched k' = pk_watched k
      | Inr _ \<Rightarrow> pk_watched k ep fd = None \<and> pk_watched k' = (pk_watched k)(ep := (pk_watched k ep)(fd \<mapsto> ev))"
    if "ep_ctl plain_calls ep EPOLL_CTL_ADD fd ev k = (r, k')" for ep fd ev k r k'
    using that by (auto simp: plain_calls_def split: if_splits)
  show "\<exists>k'. ep_ctl plain_calls ep EPOLL_CTL_DEL fd ev k = (Inr (), k') \<and> pk_watched k' = (pk_watched k)(ep := (pk_watched k ep)(fd := None))"
    if "pk_watched k ep fd \<noteq> None" for ep fd ev k
    using that by (simp add: plain_calls_def)
  show "pk_watched k' = pk_watched k \<and> (case r of Inl _ \<Rightarrow> True | Inr evs \<Rightarrow> length evs \<le> n \<and>
      (\<forall>(m, t) \<in> set evs. \<exists>fd mask. pk_watched k ep fd = Some (mask, t) \<and> m AND mask = m))"
    if "ep_wait plain_calls ep n ms k = (r, k')" for ep n ms k r k'
    using that plain_events [of _ _ n "pk_watched k ep" "pk_pending k"] by (auto simp: plain_calls_def plain_wait_def)
qed

section \<open>Properties\<close>

lemma ready_of_bits:
  "intersects (ready_of m) READ \<longleftrightarrow> m AND EPOLLIN \<noteq> 0" "intersects (ready_of m) WRITE \<longleftrightarrow> m AND EPOLLOUT \<noteq> 0"
  by (simp_all add: ready_of_def intersects_def epoll_consts Let_def)

lemma and_part: "ev AND m = ev \<Longrightarrow> ev AND b \<noteq> 0 \<Longrightarrow> m AND b \<noteq> (0 :: u32)"
proof
  assume "ev AND m = ev" and "ev AND b \<noteq> 0" and "m AND b = 0"
  moreover have "(ev AND m) AND b = ev AND (m AND b)" by (rule and.assoc)
  ultimately show False by simp
qed

text \<open>C24. A descriptor that is no longer watched is silent: after any run in which every registration used a
  token not in use, unregistering a descriptor succeeds, and the next dispatch calls the handler at most
  256 times, only with tokens of the other registrations, and with a readable or writable bit only where
  the registration asked for it.\<close>

theorem unregistered_silent:
  assumes "epoll_api K watched" and "watched k0 epfd = Map.empty"
    and "legal_run K ops (\<lparr>el_epfd = epfd, el_regs = Map.empty\<rparr>, k0)"
    and "fold (loop_step K) ops (\<lparr>el_epfd = epfd, el_regs = Map.empty\<rparr>, k0) = (lp, k)"
    and "set order = dom (el_regs lp)" and "unregister K order (Fd fd) lp k = (r, lp1, k1)"
    and "loop_dispatch K timeout (\<lambda>t rd log. log @ [(t, rd)]) lp1 k1 [] = (n, k2, calls)"
  shows "r = Inr () \<and> length calls \<le> 256 \<and>
    (\<forall>(t, rd) \<in> set calls. \<exists>fd' m. fd' \<noteq> fd \<and> el_regs lp1 t = Some (fd', m) \<and>
      (intersects rd READ \<longrightarrow> m AND EPOLLIN \<noteq> 0) \<and> (intersects rd WRITE \<longrightarrow> m AND EPOLLOUT \<noteq> 0))"
proof -
  note agrees_def = epoll_api.agrees_def [OF assms(1)]
  have "epoll_api.agrees watched lp k"
    using epoll_api.run_agrees [OF assms(1,3)] assms(2,4) by (simp add: agrees_def mirror_empty)
  from epoll_api.unregister_agrees [OF assms(1) this assms(5,6)]
  have u: "r = Inr ()" "epoll_api.agrees watched lp1 k1" "watched k1 (el_epfd lp1) fd = None" by auto
  from epoll_api.dispatch_calls [OF assms(1,7) u(2)] u(1,3) show ?thesis
    by (fastforce simp: ready_of_bits dest: and_part)
qed

text \<open>A token that is registered twice: the second registration hides the first from the loop, so that
  unregistering the first descriptor reports success while the kernel goes on watching it, and its
  events go on reaching the handler.\<close>

theorem token_reuse_leaks:
  "let (_, lp1, k1) = register plain_calls (Fd 3) 7 READ \<lparr>el_epfd = 5, el_regs = Map.empty\<rparr> \<lparr>pk_watched = (\<lambda>_. Map.empty), pk_pending = [(3, 1)]\<rparr>;
       (_, lp2, k2) = register plain_calls (Fd 4) 7 READ lp1 k1;
       (r, lp3, k3) = unregister plain_calls [7] (Fd 3) lp2 k2
   in r = Inr () \<and> loop_dispatch plain_calls None (\<lambda>t rd log. log @ [(t, rd)]) lp3 k3 [] = (Inr 1, k3\<lparr>pk_pending := []\<rparr>, [(7, READ)])"
  by (simp add: register_def unregister_def loop_dispatch_def plain_calls_def plain_wait_def to_epoll_mask_def ready_of_def
      intersects_def epoll_consts List.map_filter_def wait_ms_def Let_def)

theorem unregistered_silent_witness:
  "let (r, lp1, k1) = unregister plain_calls [7] (Fd 3)
       \<lparr>el_epfd = 5, el_regs = [7 \<mapsto> (3, to_epoll_mask READ)]\<rparr> \<lparr>pk_watched = (\<lambda>_. Map.empty)(5 := [3 \<mapsto> (to_epoll_mask READ, 7)]), pk_pending = [(3, 1)]\<rparr>
   in r = Inr () \<and> snd (snd (loop_dispatch plain_calls None (\<lambda>t rd log. log @ [(t, rd)]) lp1 k1 [])) = []"
proof -
  let ?ki = "\<lparr>pk_watched = (\<lambda>_. Map.empty), pk_pending = [(3, 1)]\<rparr> :: plain_kernel"
    and ?li = "\<lparr>el_epfd = 5, el_regs = Map.empty\<rparr>" and ?ops = "[Register (Fd 3) 7 READ]"
    and ?lp = "\<lparr>el_epfd = 5, el_regs = [7 \<mapsto> (3, to_epoll_mask READ)]\<rparr>"
    and ?k = "\<lparr>pk_watched = (\<lambda>_. Map.empty)(5 := [3 \<mapsto> (to_epoll_mask READ, 7)]), pk_pending = [(3, 1)]\<rparr> :: plain_kernel"
  have run1: "legal_run plain_calls ?ops (?li, ?ki)" by simp
  have run2: "fold (loop_step plain_calls) ?ops (?li, ?ki) = (?lp, ?k)" by (simp add: register_def plain_calls_def Let_def)
  have run3: "set [7] = dom (el_regs ?lp)" by simp
  obtain r lp1 k1 where u: "unregister plain_calls [7] (Fd 3) ?lp ?k = (r, lp1, k1)" by (metis prod_cases3)
  obtain n k2 calls where d: "loop_dispatch plain_calls None (\<lambda>t rd log. log @ [(t, rd)]) lp1 k1 [] = (n, k2, calls)" by (metis prod_cases3)
  have "el_regs lp1 = Map.empty" using u by (auto simp: unregister_def plain_calls_def split: if_splits)
  then have r: "r = Inr ()" and no: "\<And>c. c \<in> set calls \<Longrightarrow> False"
    using unregistered_silent [OF plain.epoll_api_axioms _ run1 run2 run3 u d] by auto
  have "calls = []" using no by (cases calls) auto
  then show ?thesis using r u d by simp
qed

end
