(* ===== verification/Server_Loop.thy ===== *)
theory Server_Loop
  imports Cloud_Gate Event_Loop
begin

text \<open>
  The fleet server on its event loop (server.rs): binding, the handler of a readiness event, the
  registration of accepted connections and the whole service tick. What \<open>accept\<close> and \<open>read\<close> answer is an
  argument for each event; the descriptor of a connection is a function of its token.
\<close>

section \<open>Binding and events\<close>

definition LISTENER_TOKEN :: u64 where "LISTENER_TOKEN = 0"

text \<open>The result of binding a listener is an argument.\<close>

definition server_bind :: "'e epoll_calls \<Rightarrow> loop_error + 32 word \<Rightarrow> 't \<Rightarrow> epoll_loop \<Rightarrow> 'e \<Rightarrow>
    (loop_error + ('r, 't, 'k) fleet_server) \<times> epoll_loop \<times> 'e" where
  "server_bind K bound tr lp k =
     (case bound of
        Inl e \<Rightarrow> (Inl e, lp, k)
      | Inr fd \<Rightarrow>
          (case register K (Fd fd) LISTENER_TOKEN READ lp k of
             (Inl e, lp', k') \<Rightarrow> (Inl e, lp', k')
           | (Inr _, lp', k') \<Rightarrow> (Inr ((fleet_server_new tr)\<lparr>sv_listening := True\<rparr>), lp', k')))"

text \<open>One event; \<open>None\<close> is a panic of the request parser.\<close>

definition server_ready :: "('r, 't) cloud_env \<Rightarrow> 'k primitives \<Rightarrow> nat \<Rightarrow> nat \<times> read_result list \<Rightarrow> u64 \<Rightarrow> ready \<Rightarrow>
    ('r, 't, 'k) fleet_server \<Rightarrow> ('r, 't, 'k) fleet_server option" where
  "server_ready E P now io token rd sv =
     (if token = LISTENER_TOKEN then Some (if intersects rd READ then try_accept now (fst io) sv else sv)
      else if intersects rd READ then map_option snd (service_conn E P now (snd io) token sv)
      else Some sv)"

text \<open>The events of one dispatch are numbered.\<close>

definition tick_handler :: "('r, 't) cloud_env \<Rightarrow> 'k primitives \<Rightarrow> nat \<Rightarrow> (nat \<Rightarrow> nat \<times> read_result list) \<Rightarrow> u64 \<Rightarrow> ready \<Rightarrow>
    nat \<times> ('r, 't, 'k) fleet_server option \<Rightarrow> nat \<times> ('r, 't, 'k) fleet_server option" where
  "tick_handler E P now io token rd h = (Suc (fst h), Option.bind (snd h) (server_ready E P now (io (fst h)) token rd))"

section \<open>The service tick\<close>

text \<open>The loop of \<open>register_pending\<close> over the tokens of the connections not registered yet.\<close>

fun register_conns :: "'e epoll_calls \<Rightarrow> (u64 \<Rightarrow> 32 word) \<Rightarrow> u64 list \<Rightarrow> epoll_loop \<Rightarrow> 'e \<Rightarrow> u64 set \<times> epoll_loop \<times> 'e" where
  "register_conns K fd_of [] lp k = ({}, lp, k)"
| "register_conns K fd_of (t # ts) lp k =
     (case register K (Fd (fd_of t)) t READ lp k of
        (Inl _, lp', k') \<Rightarrow> register_conns K fd_of ts lp' k'
      | (Inr _, lp', k') \<Rightarrow> (case register_conns K fd_of ts lp' k' of (ok, r) \<Rightarrow> (insert t ok, r)))"

definition pending_tokens :: "((u64 \<rightharpoonup> conn) \<Rightarrow> u64 list) \<Rightarrow> ('r, 't, 'k) fleet_server \<Rightarrow> u64 list" where
  "pending_tokens order sv =
     (if sv_listening sv
      then filter (\<lambda>t. case sv_conns sv t of Some c \<Rightarrow> \<not> cn_registered c | None \<Rightarrow> False) (order (sv_conns sv)) else [])"

record tick_io =
  ti_now :: nat
  ti_timeout :: nat
  ti_events :: "nat \<Rightarrow> nat \<times> read_result list"
  ti_pending :: nat
  ti_reads :: "u64 \<Rightarrow> read_result list"
  ti_order :: "(u64 \<rightharpoonup> conn) \<Rightarrow> u64 list"
  ti_fd :: "u64 \<Rightarrow> 32 word"

definition run_once :: "'e epoll_calls \<Rightarrow> ('r, 't) cloud_env \<Rightarrow> 'k primitives \<Rightarrow> tick_io \<Rightarrow>
    ('r, 't, 'k) fleet_server \<times> epoll_loop \<times> 'e \<Rightarrow> (nat \<times> ('r, 't, 'k) fleet_server \<times> epoll_loop \<times> 'e) option" where
  "run_once K E P io st =
     (case st of (sv, lp, k) \<Rightarrow>
        (case loop_dispatch K (Some (ti_timeout io)) (tick_handler E P (ti_now io) (ti_events io)) lp k (0, Some sv) of
           (res, k1, (_, None)) \<Rightarrow> None
         | (res, k1, (_, Some sv1)) \<Rightarrow>
             (case pump E P (ti_now io) (ti_pending io) (ti_reads io) (ti_order io) sv1 of
                None \<Rightarrow> None
              | Some sv2 \<Rightarrow>
                  (case register_conns K (ti_fd io) (pending_tokens (ti_order io) sv2) lp k1 of
                     (ok, lp', k2) \<Rightarrow>
                       Some (max (case res of Inl _ \<Rightarrow> 0 | Inr n \<Rightarrow> n) 1,
                         sweep_idle (ti_now io) (register_pending (\<lambda>t. t \<in> ok) sv2), lp', k2)))))"

fun run_ticks :: "'e epoll_calls \<Rightarrow> ('r, 't) cloud_env \<Rightarrow> 'k primitives \<Rightarrow> tick_io list \<Rightarrow>
    ('r, 't, 'k) fleet_server \<times> epoll_loop \<times> 'e \<Rightarrow> (('r, 't, 'k) fleet_server \<times> epoll_loop \<times> 'e) option" where
  "run_ticks K E P [] st = Some st"
| "run_ticks K E P (io # ios) st = (case run_once K E P io st of None \<Rightarrow> None | Some (_, st') \<Rightarrow> run_ticks K E P ios st')"

section \<open>The connection cap over the loop\<close>

definition server_capped :: "nat \<Rightarrow> ('r, 't, 'k) fleet_server \<Rightarrow> bool" where
  "server_capped m sv \<longleftrightarrow> conns_capped sv \<and> max_conns (sv_limits sv) = m"

lemma server_ready_capped:
  assumes "server_ready E P now io token rd sv = Some sv'" and "server_capped m sv" and "0 < m"
  shows "server_capped m sv'"
  using assms try_accept_capped [of sv now "fst io"] service_conn_capped [of E P now "snd io" token sv]
  by (auto simp: server_ready_def server_capped_def split: if_splits)

lemma feed_capped:
  "feed (tick_handler E P now io) evs (i, s) = (j, Some sv') \<Longrightarrow> (\<And>sv. s = Some sv \<Longrightarrow> server_capped m sv) \<Longrightarrow> 0 < m \<Longrightarrow> server_capped m sv'"
proof (induction evs arbitrary: i s)
  case (Cons ev evs)
  obtain msk t where ev: "ev = (msk, t)" by force
  have "server_capped m sv1" if "snd (tick_handler E P now io t (ready_of msk) (i, s)) = Some sv1" for sv1
    using that Cons.prems(2) server_ready_capped [OF _ _ Cons.prems(3), of E P now "io i" t "ready_of msk"]
    by (auto simp: tick_handler_def bind_eq_Some_conv)
  then show ?case using Cons.IH [of "Suc i" "snd (tick_handler E P now io t (ready_of msk) (i, s))"] Cons.prems(1,3)
    by (simp add: ev tick_handler_def)
qed simp

lemma register_pending_capped: "conns_capped sv \<Longrightarrow> conns_capped (register_pending regs sv) \<and> sv_limits (register_pending regs sv) = sv_limits sv"
  by (auto simp: conns_capped_def register_pending_def dom_def)

lemma pump_capped:
  assumes "pump E P now pending reads order sv = Some sv'" and "server_capped m sv" and "0 < m"
  shows "server_capped m sv'"
  using assms try_accept_capped [of sv now pending] service_all_capped [of E P now reads _ "try_accept now pending sv" sv']
  by (fastforce simp: pump_def Let_def server_capped_def)

lemma run_once_capped:
  assumes "run_once K E P io (sv, lp, k) = Some (n, sv', lp', k')" and "server_capped m sv" and "0 < m"
  shows "server_capped m sv'"
proof -
  obtain res k1 j s1 where d: "loop_dispatch K (Some (ti_timeout io)) (tick_handler E P (ti_now io) (ti_events io)) lp k (0, Some sv) = (res, k1, j, s1)"
    by (metis prod_cases4)
  with assms(1) obtain sv1 where s1: "s1 = Some sv1" by (auto simp: run_once_def split: option.splits)
  with assms(1) d obtain sv2 where p: "pump E P (ti_now io) (ti_pending io) (ti_reads io) (ti_order io) sv1 = Some sv2"
    by (auto simp: run_once_def split: option.splits)
  obtain ok lp2 k2 where r: "register_conns K (ti_fd io) (pending_tokens (ti_order io) sv2) lp k1 = (ok, lp2, k2)" by (metis prod_cases3)
  have sv': "sv' = sweep_idle (ti_now io) (register_pending (\<lambda>t. t \<in> ok) sv2)"
    using assms(1) d p r s1 by (simp add: run_once_def)
  have "server_capped m sv1"
    using d s1 assms(2,3) by (auto simp: loop_dispatch_def split: sum.splits prod.splits elim!: feed_capped)
  then have "server_capped m sv2" using pump_capped [OF p] assms(3) by blast
  then have "server_capped m (register_pending (\<lambda>t. t \<in> ok) sv2)" using register_pending_capped by (auto simp: server_capped_def)
  then show ?thesis unfolding sv' server_capped_def using sweep_capped by (auto simp: sweep_idle_def)
qed

section \<open>Registrations\<close>

lemma register_keeps: "dom (el_regs lp) \<subseteq> dom (el_regs (fst (snd (register K tgt t rd lp k))))"
  by (auto simp: register_def Let_def split: target.splits sum.splits prod.splits)

lemma register_conns_keeps: "register_conns K fd_of ts lp k = (ok, lp', k') \<Longrightarrow> dom (el_regs lp) \<subseteq> dom (el_regs lp')"
proof (induction ts arbitrary: lp k ok)
  case (Cons t ts)
  obtain r lp1 k1 where r: "register K (Fd (fd_of t)) t READ lp k = (r, lp1, k1)" by (metis prod_cases3)
  have "dom (el_regs lp) \<subseteq> dom (el_regs lp1)" using register_keeps [of lp K "Fd (fd_of t)" t READ k] r by simp
  moreover have "dom (el_regs lp1) \<subseteq> dom (el_regs lp')" using Cons r by (auto split: sum.splits prod.splits)
  ultimately show ?case by blast
qed simp

lemma run_once_keeps: "run_once K E P io (sv, lp, k) = Some (n, sv', lp', k') \<Longrightarrow> dom (el_regs lp) \<subseteq> dom (el_regs lp')"
  using register_conns_keeps by (fastforce simp: run_once_def split: prod.splits option.splits)

section \<open>Properties\<close>

text \<open>C23. A server under load: over any number of service ticks, whatever the event loop reports, whatever is
  accepted and whatever arrives, the connections never exceed a configured maximum above 0, which stands for no limit; but the event loop
  keeps an entry for every connection it ever registered, since no code unregisters one.\<close>

theorem ticks_bounded_connections:
  assumes "0 < m" and "server_capped m sv" and "run_ticks K E P ios (sv, lp, k) = Some (sv', lp', k')"
  shows "server_capped m sv' \<and> dom (el_regs lp) \<subseteq> dom (el_regs lp')"
  using assms(2,3)
proof (induction ios arbitrary: sv lp k)
  case (Cons io ios)
  from Cons.prems(2) obtain n sv1 lp1 k1 where r: "run_once K E P io (sv, lp, k) = Some (n, sv1, lp1, k1)"
      "run_ticks K E P ios (sv1, lp1, k1) = Some (sv', lp', k')" by (auto split: option.splits prod.splits)
  have "server_capped m sv1" by (rule run_once_capped [OF r(1) Cons.prems(1) assms(1)])
  from Cons.IH [OF this r(2)] run_once_keeps [OF r(1)] show ?case by blast
qed simp

text \<open>A connection that is accepted, registered and closed by its peer leaves its entry behind.\<close>

definition demo_tick :: "nat \<Rightarrow> read_result list \<Rightarrow> tick_io" where
  "demo_tick pending reads = \<lparr>ti_now = 0, ti_timeout = 0, ti_events = (\<lambda>_. (0, [])), ti_pending = pending, ti_reads = (\<lambda>_. reads),
     ti_order = (\<lambda>m. if m 1 = None then [] else [1]), ti_fd = (\<lambda>_. 7)\<rparr>"

definition demo_bound :: "(unit, (socket_addr \<times> control_command) list, u8) fleet_server" where
  "demo_bound = (fleet_server_new [])\<lparr>sv_listening := True\<rparr>"

lemma demo_bind:
  "server_bind plain_calls (Inr 3) [] \<lparr>el_epfd = 5, el_regs = Map.empty\<rparr> \<lparr>pk_watched = (\<lambda>_. Map.empty), pk_pending = []\<rparr> =
     (Inr demo_bound, \<lparr>el_epfd = 5, el_regs = [0 \<mapsto> (3, to_epoll_mask READ)]\<rparr>,
      \<lparr>pk_watched = (\<lambda>_. Map.empty)(5 := [3 \<mapsto> (to_epoll_mask READ, 0)]), pk_pending = []\<rparr>)"
  by (simp add: server_bind_def register_def plain_calls_def Let_def LISTENER_TOKEN_def demo_bound_def)

lemma quiet_dispatch:
  assumes "pk_pending k = []"
  shows "loop_dispatch plain_calls t h lp k s = (Inr 0, k, s)"
proof -
  have "k\<lparr>pk_pending := []\<rparr> = k" using assms by (cases k) simp
  then show ?thesis using assms by (simp add: loop_dispatch_def plain_calls_def plain_wait_def List.map_filter_def)
qed

lemma run_once_quiet:
  assumes "pk_pending k = []" and "pump E P (ti_now io) (ti_pending io) (ti_reads io) (ti_order io) sv = Some sv2"
    and "register_conns plain_calls (ti_fd io) (pending_tokens (ti_order io) sv2) lp k = (ok, lp', k')"
  shows "run_once plain_calls E P io (sv, lp, k) = Some (1, sweep_idle (ti_now io) (register_pending (\<lambda>t. t \<in> ok) sv2), lp', k')"
  using assms(2,3) by (simp add: run_once_def quiet_dispatch [OF assms(1)])

definition demo_conn :: "bool \<Rightarrow> (unit, (socket_addr \<times> control_command) list, u8) fleet_server" where
  "demo_conn reg = demo_bound\<lparr>sv_next_token := 2, sv_conns := [1 \<mapsto> \<lparr>cn_read_buf = [], cn_registered = reg, cn_last_active = 0\<rparr>]\<rparr>"

lemma demo_accepts: "pump demo_env toy 0 1 (\<lambda>_. [ReadWouldBlock]) (ti_order (demo_tick n rs)) demo_bound = Some (demo_conn False)"
  by (simp add: pump_def Let_def demo_bound_def fleet_server_new_def server_limits_default_def service_conn_def request_parse_def
      find_subslice_def CRLF2_def demo_conn_def demo_tick_def)

lemma demo_closes: "pump demo_env toy 0 0 (\<lambda>_. [ReadOk []]) (ti_order (demo_tick n rs)) (demo_conn True) = Some (demo_bound\<lparr>sv_next_token := 2\<rparr>)"
  by (simp add: pump_def Let_def demo_bound_def fleet_server_new_def service_conn_def remove_conn_def demo_conn_def demo_tick_def)

lemma demo_ticks:
  "\<exists>sv' lp' k'. run_ticks plain_calls demo_env toy [demo_tick 1 [ReadWouldBlock], demo_tick 0 [ReadOk []]]
      (demo_bound, \<lparr>el_epfd = 5, el_regs = [0 \<mapsto> (3, to_epoll_mask READ)]\<rparr>,
       \<lparr>pk_watched = (\<lambda>_. Map.empty)(5 := [3 \<mapsto> (to_epoll_mask READ, 0)]), pk_pending = []\<rparr>) = Some (sv', lp', k') \<and>
    sv_conns sv' = Map.empty \<and> el_regs lp' 1 = Some (7, to_epoll_mask READ)"
proof -
  let ?m = "to_epoll_mask READ"
  let ?k = "\<lparr>pk_watched = (\<lambda>_. Map.empty)(5 := [3 \<mapsto> (?m, 0)]), pk_pending = []\<rparr> :: plain_kernel"
    and ?lp = "\<lparr>el_epfd = 5, el_regs = [0 \<mapsto> (3, ?m)]\<rparr>"
  let ?kk = "?k\<lparr>pk_watched := (\<lambda>_. Map.empty)(5 := [3 \<mapsto> (?m, 0), 7 \<mapsto> (?m, 1)])\<rparr>" and ?lpp = "?lp\<lparr>el_regs := [0 \<mapsto> (3, ?m), 1 \<mapsto> (7, ?m)]\<rparr>"
  have r1: "register_conns plain_calls (ti_fd (demo_tick 1 [ReadWouldBlock])) (pending_tokens (ti_order (demo_tick 1 [ReadWouldBlock])) (demo_conn False)) ?lp ?k =
      ({1}, ?lpp, ?kk)"
    by (simp add: demo_tick_def pending_tokens_def demo_conn_def demo_bound_def register_def plain_calls_def Let_def)
  have r2: "register_conns plain_calls (ti_fd (demo_tick 0 [ReadOk []])) (pending_tokens (ti_order (demo_tick 0 [ReadOk []])) (demo_bound\<lparr>sv_next_token := 2\<rparr>)) ?lpp ?kk =
      ({}, ?lpp, ?kk)"
    by (simp add: demo_tick_def pending_tokens_def demo_bound_def fleet_server_new_def)
  have s1: "sweep_idle 0 (register_pending (\<lambda>t. t \<in> {1}) (demo_conn False)) = demo_conn True"
    by (rule fleet_server.equality) (auto simp: sweep_idle_def register_pending_def demo_conn_def demo_bound_def fun_eq_iff)
  have t1: "run_once plain_calls demo_env toy (demo_tick 1 [ReadWouldBlock]) (demo_bound, ?lp, ?k) = Some (1, demo_conn True, ?lpp, ?kk)"
    using run_once_quiet [OF _ _ r1, of demo_env toy demo_bound] demo_accepts s1 by (simp add: demo_tick_def)
  have t2: "\<exists>sv'. run_once plain_calls demo_env toy (demo_tick 0 [ReadOk []]) (demo_conn True, ?lpp, ?kk) = Some (1, sv', ?lpp, ?kk) \<and> sv_conns sv' = Map.empty"
    using run_once_quiet [OF _ _ r2, of demo_env toy "demo_conn True"] demo_closes
    by (simp add: demo_tick_def sweep_idle_def register_pending_def demo_bound_def fleet_server_new_def)
  show ?thesis using t1 t2 by auto
qed

theorem ticks_bounded_connections_witness:
  "case server_bind plain_calls (Inr 3) [] \<lparr>el_epfd = 5, el_regs = Map.empty\<rparr> \<lparr>pk_watched = (\<lambda>_. Map.empty), pk_pending = []\<rparr> of
     (Inr sv, lp, k) \<Rightarrow> (\<exists>sv' lp' k'. sv = demo_bound \<and>
       run_ticks plain_calls demo_env toy [demo_tick 1 [ReadWouldBlock], demo_tick 0 [ReadOk []]] (sv, lp, k) = Some (sv', lp', k') \<and>
       server_capped 1024 sv' \<and> sv_conns sv' = Map.empty \<and> el_regs lp' 1 = Some (7, to_epoll_mask READ))
   | _ \<Rightarrow> False"
proof -
  have "server_capped 1024 demo_bound"
    by (simp add: server_capped_def conns_capped_def demo_bound_def fleet_server_new_def server_limits_default_def)
  then have c: "run_ticks plain_calls demo_env toy ios (demo_bound, lp, k) = Some (sv', lp', k') \<Longrightarrow> server_capped 1024 sv'" for ios lp k sv' lp' k'
    using ticks_bounded_connections [of 1024 demo_bound plain_calls demo_env toy ios lp k sv' lp' k'] by simp
  obtain sv' lp' k' where r: "run_ticks plain_calls demo_env toy [demo_tick 1 [ReadWouldBlock], demo_tick 0 [ReadOk []]]
      (demo_bound, \<lparr>el_epfd = 5, el_regs = [0 \<mapsto> (3, to_epoll_mask READ)]\<rparr>,
       \<lparr>pk_watched = (\<lambda>_. Map.empty)(5 := [3 \<mapsto> (to_epoll_mask READ, 0)]), pk_pending = []\<rparr>) = Some (sv', lp', k')"
      "sv_conns sv' = Map.empty" "el_regs lp' 1 = Some (7, to_epoll_mask READ)" using demo_ticks by blast
  show ?thesis unfolding demo_bind prod.case sum.case using r c [OF r(1)] by blast
qed

end
