(* ===== verification/Spec2Isabelle.thy ===== *)
theory Spec2Isabelle
  imports Spsc_Concurrent Mpmc_Concurrent Mode_Machine Buffer_Pool Ring_Layout Message_Bus Reliable_Link Net_Service
    Security Handover Mavlink Fleet Secure_Session Safety_Loop Cloud_Gate Session_Recorder Npy_Export
    Input_Stage Media Pipeline_Harness Console Fleet_Transport Server_Loop
begin

text \<open>
  \<^bold>\<open>tpt-teleop: a verification of the teleoperation runtime.\<close>

  The program drives remote vehicles: operators and AI pilots produce control commands, a safety loop
  intercepts them, a link layer carries them between units over UDP, and a cloud service manages the
  fleet. This development models its Rust crates under src/crates as HOL functions over explicit state
  and proves what each part promises and how the parts fit together.

  \<^bold>\<open>Conventions.\<close> Integers keep their width as words and wrap as in a release build; \<open>usize\<close> has 64
  bits. A \<open>Result\<close> is a sum with \<open>Inl\<close> the error, and a panic is the value \<open>None\<close> of an option around
  the result. Mutating methods take the state and return it updated. Loops that may not end are partial
  functions into option, and the theorems about them say that they return; all other loops are total
  functions with a termination proof, so no fuel is used. Floating-point numbers are bit patterns with
  bit-exact IEEE 754 arithmetic. Text is a list of code points, bytes are 8-bit words, and a plain struct
  has the byte image of its \<open>repr(C)\<close> layout on a little-endian machine. Clocks, sockets, kernels, hash
  orders and schedules are arguments, and theorems hold for all of them unless they say otherwise.
  Atomic operations are interleaved sequentially consistently, which the acquire and release pairs of the
  code give for the protocols modelled. Cryptographic primitives (AEAD, signatures, key exchange, key
  derivation) are third-party code: they are parameters, and the laws used of them are named hypotheses
  or locale assumptions with a concrete instance.

  \<^bold>\<open>Shared theories.\<close> \<open>Prelude\<close> holds the word types, strings, little-endian images and saturating
  arithmetic; \<open>Fifo_Spec\<close> the abstract bounded queue and the locales \<open>fifo_queue\<close> and \<open>bounded_fifo\<close> that
  every ring is interpreted into and every client of a ring relies on; \<open>Ieee_Float\<close> the two float formats,
  with rounding shown monotone and exact on representable values.

  \<^bold>\<open>Rings and runtime (tpt-t-ring, tpt-t-core).\<close> \<open>Spsc_Ring\<close> (spsc.rs) refines the bounded queue from every
  consistent state, also while the cursors wrap, and \<open>Spsc_Concurrent\<close> interleaves producer and consumer at
  their atomic operations: order is kept and no slot is raced. \<open>Ring_Layout\<close> (layout.rs, shared.rs) places
  a ring in shared memory. \<open>Mpmc_Ring\<close> (mpmc.rs) is the sequence-numbered ring with its compare-exchange
  loops, and \<open>Mpmc_Concurrent\<close> interleaves any number of its producers and consumers, by a simulation of
  an abstract machine over unbounded positions. \<open>Buffer_Pool\<close> (pool.rs) and \<open>Message_Bus\<close> (bus.rs) are its and the SPSC ring's clients.
  \<open>Mode_Machine\<close> (mode.rs, machine.rs) is the control-mode table and state machine, alone and with
  concurrent transitions. \<open>Wire_Types\<close> (ser/, ring cast.rs) gives commands and telemetry their byte images.

  \<^bold>\<open>Safety (tpt-t-safety).\<close> \<open>Safety_Filters\<close> has the limits, geofence, latency compensation, AI veto and
  authority blend bit-exactly, \<open>Safety_Loop\<close> one tick of the loop over its rings and the mode machine: the
  emergency stop is final, and a breach stops in the tick that sees it.

  \<^bold>\<open>Link (tpt-t-link).\<close> \<open>Crc\<close> relates the table-driven checksum to the shift register and shows that it
  detects every change of a byte; \<open>Reliable\<close> and \<open>Reliable_Link\<close> compose sender and receiver over a network
  that loses, repeats and reorders; \<open>Backpressure\<close>, \<open>Mesh\<close> and \<open>Mux\<close> are the token bucket, the neighbour
  table and the framing; \<open>Net_Service\<close> composes them into the service of a unit, up to the delivery of a
  command from one unit's application to the other's. It sends through the socket or through the io_uring
  transmit queue of \<open>Uring\<close> (uring.rs), a pool of submission slots over the calls of the io_uring package,
  which are the locale \<open>uring_kernel\<close>: entries are executed at most once and a completion tells whether the
  message left. A submission whose completion the code does not see is sent again through the socket.

  \<^bold>\<open>Security (tpt-t-sec, tpt-t-domain-bridge).\<close> \<open>Security\<close> has roles, policy, attestation and the zero-trust
  broker, \<open>Secure_Session\<close> the AEAD box, the handshake and the encrypted multiplexer, \<open>Handover\<close> the
  lifecycle of an operator session.

  \<^bold>\<open>Devices (tpt-t-hal).\<close> \<open>Mavlink\<close> is the frame codec and the streaming parser.

  \<^bold>\<open>Cloud (tpt-t-cloud).\<close> \<open>Json\<close> and \<open>Json_Roundtrip\<close>, and \<open>Http\<close>, are the codecs; \<open>Fleet\<close> the registry of
  units with their media fan-out, \<open>Fleet_Transport\<close> the UDP transports of its commands, whose contract is the
  locale \<open>command_transport\<close>, and \<open>Session_Recorder\<close> the recordings, whose contract is the locale
  \<open>recorder\<close>; \<open>Cloud_Auth\<close>, \<open>Cloud_Server\<close> and \<open>Cloud_Gate\<close> the admission of requests, the routes and the
  service tick with its connections: no request reaches the fleet past the gate, and an attested one is
  carried out. \<open>Server_Loop\<close> binds the server and runs it on the event loop of \<open>Event_Loop\<close> (tpt-t-core),
  whose kernel calls are the locale \<open>epoll_api\<close>: connections stay below the configured number.

  \<^bold>\<open>Flight recording (tpt-t-analytics).\<close> \<open>Direct_Io\<close> stages writes into sectors, \<open>Flight_Recorder\<close>
  interleaves the control loop with the storage thread, \<open>Npy_Export\<close> turns recordings into tensors.

  \<^bold>\<open>Input (tpt-t-input).\<close> \<open>Input_Stage\<close> takes the bytes of a controller to commands: the evdev parser, the
  mapping with its deadzone, the ingest stages and the arbitration between operators. Every command is in
  range whatever the device sends.

  \<^bold>\<open>Media (tpt-t-media).\<close> \<open>Media\<close> has the pixel formats, the frame pool, the test camera, the telemetry
  overlay with its font and the encoder with its bitrate governor, which takes the link's congestion
  estimate as its signal. A captured frame goes through overlay and encoder without a panic and the overlay
  stays in its rows; the governor keeps within its limits and reaches a constant signal.

  \<^bold>\<open>Devices and simulation (tpt-t-hal).\<close> \<open>Hal_Devices\<close> has the records of the device layer, the virtual CAN
  bus, SocketCAN, the null camera and the register windows, whose contract is a locale with the simulated
  and the mapped window as instances. \<open>Sim_Vehicle\<close> has the motor model, the rigid-body world and the
  quadrotor, in floating point with a correctly rounded square root; the trigonometric functions are a
  parameter. Bodies stay above the ground and rotor speeds within bounds.

  \<^bold>\<open>Full pipeline (tpt-t-integration).\<close> \<open>Pipeline_Harness\<close> composes the input stage, the bus, the safety loop,
  the simulated vehicle and two multiplexers the way pipeline.rs does. Every step of a run delivers
  exactly the command the safety loop approved, and a latched stop reaches the receiver for good.

  \<^bold>\<open>Operator tools (tpt-t-cli, tpt-t-core).\<close> \<open>Core_Profile\<close> has the profile format that assigns roles to
  processor cores, its validation, the pinning of threads and the command that generates a profile: the
  generated profile is read back and accepted, and a validated one pins roles on disjoint cores. \<open>Console\<close> has the
  co-pilot console; what it sends is executed by the fleet server model, on the unit named as long as its number
  survives the JSON number format.

  \<^bold>\<open>What the properties show.\<close> Refinement of the abstract queues and maps, delivery of commands in order
  over bad networks and through encryption, round trips of every wire and file format, the bounds of the
  safety filters, the admission rules of the cloud service, and termination of the loops that depend on
  their environment. Where the code does not do what its comments say, a theorem states what it does:
  records lost at shutdown, a datagram sent twice after an interrupted wait, an emergency stop overwritten
  by a racing transition, a ring of capacity one that loses values, acknowledgements that never advance, a
  wrapped content length that panics.

  \<^bold>\<open>Not modelled.\<close> The operating-system glue: the event loops of macOS and Windows, real-time scheduling, memory
  mapping and the capture drivers. The procedural macros and the command-line scaffolding,
  which produce text for the compiler. Third-party serializers and cryptography, which are parameters.
\<close>

end
